(* ===== verification/Tdb_Prelude.thy ===== *)
theory Tdb_Prelude
  imports Main "HOL-Library.Word" "HOL-Library.Multiset"
begin

text \<open>
  Vocabulary shared by every component of the model: bytes and byte memory
  (\<^verbatim>\<open>memmove\<close>/\<^verbatim>\<open>memcpy\<close> as a read followed by a write of a block), C strings, the return
  codes of src/src/common/common.h, optional end points of linked structures, and the generic
  facts on lists and maps that the component proofs share.  The collections declared here are
  filled by the components: \<open>mem_simps\<close> rewrites byte memory, \<open>link_simps\<close> rewrites linked
  lists.
\<close>

unbundle bit_operations_syntax

named_theorems mem_simps
named_theorems link_simps

section \<open>Bytes, memory blocks and return codes\<close>

type_synonym byte = "8 word"

definition TDB_SUCCESS :: int where
  "TDB_SUCCESS = 1"

definition TDB_ERROR :: int where
  "TDB_ERROR = -1"

definition UUID_STR_LEN :: nat where
  "UUID_STR_LEN = 36 + 1"

text \<open>
  How a C call ends: it returns, the process aborts (\<^verbatim>\<open>abort()\<close> or a failed assertion), or the
  process exits with a status.
\<close>

datatype 'a outcome = Return 'a | Abort | Exit int

text \<open>Reading and writing a block of a byte (or element) array.\<close>

definition read_block :: "nat \<Rightarrow> nat \<Rightarrow> 'a list \<Rightarrow> 'a list" where
  "read_block off n buf = take n (drop off buf)"

definition write_block :: "nat \<Rightarrow> 'a list \<Rightarrow> 'a list \<Rightarrow> 'a list" where
  "write_block off xs buf = take off buf @ xs @ drop (off + length xs) buf"

text \<open>The C string that starts at the beginning of a block: everything before the first NUL.\<close>

definition cstr :: "byte list \<Rightarrow> byte list" where
  "cstr bs = takeWhile (\<lambda>b. b \<noteq> 0) bs"

text \<open>First element of a sequence that continues with \<open>e\<close>, last element of one preceded by \<open>p\<close>.\<close>

fun first_or :: "'a list \<Rightarrow> 'a option \<Rightarrow> 'a option" where
  "first_or [] e = e"
| "first_or (x # xs) e = Some x"

fun last_or :: "'a option \<Rightarrow> 'a list \<Rightarrow> 'a option" where
  "last_or p [] = p"
| "last_or p (x # xs) = last_or (Some x) xs"

section \<open>Facts about blocks\<close>

lemma length_read_block [mem_simps]:
  "off + n \<le> length buf \<Longrightarrow> length (read_block off n buf) = n"
  by (simp add: read_block_def)

lemma length_write_block [mem_simps]:
  "off + length xs \<le> length buf \<Longrightarrow> length (write_block off xs buf) = length buf"
  by (simp add: write_block_def)

lemma read_write_same [mem_simps]:
  "off + length xs \<le> length buf \<Longrightarrow> n = length xs \<Longrightarrow>
   read_block off n (write_block off xs buf) = xs"
  by (simp add: read_block_def write_block_def)

lemma read_write_before:
  "off' + n \<le> off \<Longrightarrow> off + length xs \<le> length buf \<Longrightarrow>
   read_block off' n (write_block off xs buf) = read_block off' n buf"
  by (simp add: read_block_def write_block_def take_drop min_def)

lemma read_write_after:
  "off + length xs \<le> off' \<Longrightarrow> off + length xs \<le> length buf \<Longrightarrow>
   read_block off' n (write_block off xs buf) = read_block off' n buf"
  by (simp add: read_block_def write_block_def)

lemma read_write_disjoint [mem_simps]:
  "off' + n \<le> off \<or> off + length xs \<le> off' \<Longrightarrow> off + length xs \<le> length buf \<Longrightarrow>
   read_block off' n (write_block off xs buf) = read_block off' n buf"
  using read_write_before read_write_after by blast

lemma write_block_Nil [mem_simps]: "off \<le> length buf \<Longrightarrow> write_block off [] buf = buf"
  by (simp add: write_block_def)

lemma take_write_block [mem_simps]:
  "off \<le> length buf \<Longrightarrow> take off (write_block off xs buf) = take off buf"
  by (simp add: write_block_def)

text \<open>Equally sized slots of an array do not overlap.\<close>

lemma slots_disjoint:
  fixes i j e :: nat
  assumes "i \<noteq> j"
  shows "i * e + e \<le> j * e \<or> j * e + e \<le> i * e"
proof (cases "i < j")
  case True
  then have "(i + 1) * e \<le> j * e" by (intro mult_le_mono1) simp
  then show ?thesis by simp
next
  case False
  with assms have "(j + 1) * e \<le> i * e" by (intro mult_le_mono1) simp
  then show ?thesis by simp
qed

lemma slot_in_array:
  fixes i n e :: nat
  assumes "i < n"
  shows "i * e + e \<le> n * e"
proof -
  from assms have "(i + 1) * e \<le> n * e" by (intro mult_le_mono1) simp
  then show ?thesis by simp
qed

section \<open>Facts about the ends of sequences\<close>

lemma first_or_append [link_simps]: "first_or (xs @ ys) e = first_or xs (first_or ys e)"
  by (cases xs) auto

lemma last_or_append [link_simps]: "last_or p (xs @ ys) = last_or (last_or p xs) ys"
  by (induction xs arbitrary: p) auto

lemma last_or_nonempty: "xs \<noteq> [] \<Longrightarrow> last_or p xs = Some (last xs)"
  by (induction xs arbitrary: p) auto

lemma first_or_nonempty: "xs \<noteq> [] \<Longrightarrow> first_or xs e = Some (hd xs)"
  by (cases xs) auto

lemma last_or_None_iff [link_simps]: "last_or None xs = None \<longleftrightarrow> xs = []"
  using last_or_nonempty [of xs None] by (cases "xs = []") auto

lemma first_or_None_iff [link_simps]: "first_or xs None = None \<longleftrightarrow> xs = []"
  by (cases xs) auto

lemma last_or_in: "last_or None xs = Some x \<Longrightarrow> x \<in> set xs"
  using last_or_nonempty [of xs None] by (cases "xs = []") (auto simp: last_in_set)

lemma first_or_SomeE:
  assumes "first_or xs None = Some x"
  obtains ys where "xs = x # ys"
  using assms by (cases xs) auto

lemma last_or_SomeE:
  assumes "last_or None xs = Some x"
  obtains ys where "xs = ys @ [x]"
  using assms by (cases xs rule: rev_cases) (auto simp: link_simps)

section \<open>Facts about lists updated by index\<close>

lemma nth_butlast_update:
  "i < length xs - 1 \<Longrightarrow> j < length xs - 1 \<Longrightarrow>
   butlast (xs[i := y]) ! j = (if j = i then y else xs ! j)"
  by (simp add: nth_butlast)

lemma distinct_nth_inj:
  "distinct xs \<Longrightarrow> i < length xs \<Longrightarrow> j < length xs \<Longrightarrow> xs ! i = xs ! j \<Longrightarrow> i = j"
  by (simp add: nth_eq_iff_index_eq)

text \<open>Deleting by moving the last element into the hole.\<close>

definition swap_remove :: "'a list \<Rightarrow> nat \<Rightarrow> 'a list" where
  "swap_remove xs i = butlast (xs[i := last xs])"

lemma length_swap_remove [simp]: "length (swap_remove xs i) = length xs - 1"
  by (simp add: swap_remove_def)

lemma mset_swap_remove:
  assumes "i < length xs"
  shows "mset (swap_remove xs i) = mset xs - {#xs ! i#}"
proof -
  from assms have ne: "xs \<noteq> []" by auto
  define ys where "ys = butlast xs"
  define z where "z = last xs"
  have xs: "xs = ys @ [z]" using ne by (simp add: ys_def z_def)
  show ?thesis
  proof (cases "i = length ys")
    case True
    then show ?thesis by (simp add: xs swap_remove_def butlast_append)
  next
    case False
    with assms xs have i: "i < length ys" by simp
    then have "swap_remove xs i = ys[i := z]"
      by (simp add: xs swap_remove_def list_update_append butlast_append)
    with i show ?thesis by (simp add: xs mset_update nth_append)
  qed
qed

lemma set_swap_remove:
  assumes "distinct xs" and "i < length xs"
  shows "set (swap_remove xs i) = set xs - {xs ! i}"
proof -
  have "set_mset (mset (swap_remove xs i)) = set_mset (mset xs - {#xs ! i#})"
    using assms(2) by (simp add: mset_swap_remove)
  also have "\<dots> = set xs - {xs ! i}"
    using assms by (metis mset_remove1 set_mset_mset set_remove1_eq)
  finally show ?thesis by simp
qed

lemma distinct_swap_remove:
  assumes "distinct xs" and "i < length xs"
  shows "distinct (swap_remove xs i)"
proof -
  have "mset (swap_remove xs i) = mset (remove1 (xs ! i) xs)"
    using assms by (simp add: mset_swap_remove)
  then show ?thesis
    using assms(1) by (metis distinct_remove1 mset_eq_imp_distinct_iff)
qed

lemma swap_remove_nth:
  "i < length xs \<Longrightarrow> j < length xs - 1 \<Longrightarrow>
   swap_remove xs i ! j = (if j = i then last xs else xs ! j)"
  by (simp add: swap_remove_def nth_butlast nth_list_update)

end
