(* ===== verification/Task_List.thy ===== *)
theory Task_List
  imports Tdb_Prelude
begin

text \<open>
  The \<^verbatim>\<open>Task\<close> structure of src/src/common/task/taskimpl.h and the intrusive doubly linked
  lists of tasks (\<^verbatim>\<open>addtask\<close>, \<^verbatim>\<open>deltask\<close> of src/src/common/task/task.c) that carry the run
  queue, the waiters of locks and rendezvous points and the sleeping tasks.  Tasks live in a
  store addressed by \<open>tptr\<close>, so that the \<^verbatim>\<open>next\<close>/\<^verbatim>\<open>prev\<close> fields are aliased between lists as in the
  code.  The lemmas show that the pointer operations implement a FIFO list
  (\<open>is_tasklist\<close>) and leave every other list of the store alone.
\<close>

section \<open>The task structure\<close>

type_synonym tptr = nat

record task =
  tname :: string
  tstate :: string
  nextp :: "tptr option"
  prevp :: "tptr option"
  alarmtime :: "64 word"
  tid :: "32 word"
  exiting :: bool
  alltaskslot :: nat
  system :: bool
  ready :: bool
  startfn :: nat
  startarg :: nat
  udata :: nat

type_synonym theap = "tptr \<Rightarrow> task"

record tasklist =
  lhead :: "tptr option"
  ltail :: "tptr option"

definition empty_tasklist :: tasklist where
  "empty_tasklist = \<lparr>lhead = None, ltail = None\<rparr>"

definition set_next :: "tptr \<Rightarrow> tptr option \<Rightarrow> theap \<Rightarrow> theap" where
  "set_next t p h = h(t := (h t)\<lparr>nextp := p\<rparr>)"

definition set_prev :: "tptr \<Rightarrow> tptr option \<Rightarrow> theap \<Rightarrow> theap" where
  "set_prev t p h = h(t := (h t)\<lparr>prevp := p\<rparr>)"

section \<open>addtask and deltask\<close>

definition addtask :: "tasklist \<Rightarrow> tptr \<Rightarrow> theap \<Rightarrow> tasklist \<times> theap" where
  "addtask l t h =
     (case ltail l of
        Some u \<Rightarrow>
          (let h1 = set_next u (Some t) h;
               h2 = set_prev t (ltail l) h1
           in (l\<lparr>ltail := Some t\<rparr>, set_next t None h2))
      | None \<Rightarrow>
          (let l1 = l\<lparr>lhead := Some t\<rparr>;
               h1 = set_prev t None h
           in (l1\<lparr>ltail := Some t\<rparr>, set_next t None h1)))"

definition deltask :: "tasklist \<Rightarrow> tptr \<Rightarrow> theap \<Rightarrow> tasklist \<times> theap" where
  "deltask l t h =
     (let (l1, h1) =
            (case prevp (h t) of
               Some p \<Rightarrow> (l, set_next p (nextp (h t)) h)
             | None \<Rightarrow> (l\<lparr>lhead := nextp (h t)\<rparr>, h))
      in (case nextp (h1 t) of
            Some n \<Rightarrow> (l1, set_prev n (prevp (h1 t)) h1)
          | None \<Rightarrow> (l1\<lparr>ltail := prevp (h1 t)\<rparr>, h1)))"

section \<open>The list a Tasklist stands for\<close>

text \<open>A doubly linked segment over \<open>xs\<close>, entered from \<open>p\<close> and left towards \<open>e\<close>.\<close>

fun dllseg :: "theap \<Rightarrow> tptr option \<Rightarrow> tptr list \<Rightarrow> tptr option \<Rightarrow> bool" where
  "dllseg h p [] e = True"
| "dllseg h p (x # xs) e =
     (prevp (h x) = p \<and> nextp (h x) = first_or xs e \<and> dllseg h (Some x) xs e)"

definition is_tasklist :: "theap \<Rightarrow> tasklist \<Rightarrow> tptr list \<Rightarrow> bool" where
  "is_tasklist h l xs \<longleftrightarrow>
     distinct xs \<and> dllseg h None xs None \<and> lhead l = first_or xs None \<and> ltail l = last_or None xs"

text \<open>The two fields by which a store represents its lists.\<close>

definition same_links :: "theap \<Rightarrow> theap \<Rightarrow> tptr set \<Rightarrow> bool" where
  "same_links h h' A \<longleftrightarrow> (\<forall>t \<in> A. nextp (h' t) = nextp (h t) \<and> prevp (h' t) = prevp (h t))"

text \<open>The fields other than the links.\<close>

definition same_data :: "theap \<Rightarrow> theap \<Rightarrow> bool" where
  "same_data h h' \<longleftrightarrow>
     (\<forall>t. (h' t)\<lparr>prevp := None, nextp := None\<rparr> = (h t)\<lparr>prevp := None, nextp := None\<rparr>)"

section \<open>Segments\<close>

lemma set_next_simps [link_simps]:
  "nextp (set_next t p h x) = (if x = t then p else nextp (h x))"
  "prevp (set_next t p h x) = prevp (h x)"
  "nextp (set_prev t p h x) = nextp (h x)"
  "prevp (set_prev t p h x) = (if x = t then p else prevp (h x))"
  by (simp_all add: set_next_def set_prev_def)

lemma dllseg_cong:
  "same_links h h' (set xs) \<Longrightarrow> dllseg h' p xs e = dllseg h p xs e"
  by (induction xs arbitrary: p) (auto simp: same_links_def)

lemma dllseg_append [link_simps]:
  "dllseg h p (xs @ ys) e \<longleftrightarrow>
     dllseg h p xs (first_or ys e) \<and> dllseg h (last_or p xs) ys e"
  by (induction xs arbitrary: p) (auto simp: link_simps)

lemma same_links_mono: "same_links h h' A \<Longrightarrow> B \<subseteq> A \<Longrightarrow> same_links h h' B"
  by (auto simp: same_links_def)

lemma same_links_refl [simp]: "same_links h h A"
  by (simp add: same_links_def)

lemma is_tasklist_cong:
  "same_links h h' (set xs) \<Longrightarrow> is_tasklist h l xs \<Longrightarrow> is_tasklist h' l xs"
  by (simp add: is_tasklist_def dllseg_cong)

lemma is_tasklist_empty [simp]: "is_tasklist h empty_tasklist []"
  by (simp add: is_tasklist_def empty_tasklist_def)

lemma is_tasklist_head: "is_tasklist h l xs \<Longrightarrow> lhead l = first_or xs None"
  by (simp add: is_tasklist_def)

lemma is_tasklist_nil_iff: "is_tasklist h l xs \<Longrightarrow> lhead l = None \<longleftrightarrow> xs = []"
  by (simp add: is_tasklist_def link_simps)

lemma is_tasklist_distinct: "is_tasklist h l xs \<Longrightarrow> distinct xs"
  by (simp add: is_tasklist_def)

text \<open>A Tasklist stands for at most one list.\<close>

lemma dllseg_unique:
  "dllseg h p xs None \<Longrightarrow> dllseg h p ys None \<Longrightarrow> first_or xs None = first_or ys None \<Longrightarrow> xs = ys"
proof (induction xs arbitrary: p ys)
  case Nil
  then show ?case by (cases ys) auto
next
  case (Cons x xs)
  then show ?case by (cases ys) auto
qed

lemma is_tasklist_unique:
  "is_tasklist h l xs \<Longrightarrow> is_tasklist h l ys \<Longrightarrow> xs = ys"
  unfolding is_tasklist_def by (metis dllseg_unique)

section \<open>addtask appends, deltask removes\<close>

lemma addtask_frame:
  assumes "addtask l t h = (l', h')" and "is_tasklist h l xs" and "t \<notin> A" and "A \<inter> set xs = {}"
  shows "same_links h h' A"
proof (cases "ltail l")
  case None
  with assms show ?thesis
    by (auto simp: addtask_def same_links_def link_simps Let_def)
next
  case (Some u)
  with assms(2) have "u \<in> set xs" by (auto simp: is_tasklist_def intro: last_or_in)
  with Some assms show ?thesis
    by (auto simp: addtask_def same_links_def link_simps Let_def)
qed

lemma addtask_append:
  assumes add: "addtask l t h = (l', h')" and l: "is_tasklist h l xs" and t: "t \<notin> set xs"
  shows "is_tasklist h' l' (xs @ [t])"
proof (cases xs rule: rev_cases)
  case Nil
  with l have "ltail l = None" by (simp add: is_tasklist_def)
  with add Nil show ?thesis
    by (auto simp: addtask_def is_tasklist_def link_simps Let_def)
next
  case (snoc ys u)
  with l have tl: "ltail l = Some u" by (simp add: is_tasklist_def link_simps)
  have seg: "dllseg h None ys (Some u)" "prevp (h u) = last_or None ys" "distinct ys" "u \<notin> set ys"
    using l snoc by (auto simp: is_tasklist_def link_simps)
  have h': "h' = set_next t None (set_prev t (Some u) (set_next u (Some t) h))"
    and l': "l' = l\<lparr>ltail := Some t\<rparr>"
    using add tl by (auto simp: addtask_def Let_def)
  have "dllseg h' None ys (Some u)"
    using seg t snoc by (subst dllseg_cong [of h]) (auto simp: same_links_def h' link_simps)
  moreover have "lhead l = first_or (xs @ [t]) None"
    using l snoc by (auto simp: is_tasklist_def link_simps)
  ultimately show ?thesis
    using seg t snoc l unfolding is_tasklist_def l'
    by (auto simp: link_simps h')
qed

lemma deltask_remove:
  assumes del: "deltask l t h = (l', h')" and l: "is_tasklist h l (xs @ t # ys)"
  shows "is_tasklist h' l' (xs @ ys)"
proof -
  have seg: "dllseg h None xs (Some t)" "prevp (h t) = last_or None xs"
      "nextp (h t) = first_or ys None" "dllseg h (Some t) ys None"
    and dist: "distinct (xs @ ys)" "t \<notin> set xs" "t \<notin> set ys"
    and ends: "lhead l = first_or xs (Some t)" "ltail l = last_or (Some t) ys"
    using l by (auto simp: is_tasklist_def link_simps)
  show ?thesis
  proof (cases xs rule: rev_cases)
    case Nil
    note xsNil = this
    show ?thesis
    proof (cases ys)
      case Nil
      with xsNil seg del show ?thesis
        by (auto simp: deltask_def is_tasklist_def Let_def)
    next
      case (Cons n zs)
      with xsNil seg del have h': "h' = set_prev n None h" and l': "l' = l\<lparr>lhead := Some n\<rparr>"
        by (auto simp: deltask_def Let_def)
      have "dllseg h' (Some n) zs None"
        using seg Cons dist by (subst dllseg_cong [of h]) (auto simp: same_links_def h' link_simps)
      with xsNil Cons seg ends dist show ?thesis
        by (auto simp: is_tasklist_def h' l' link_simps last_or_nonempty)
    qed
  next
    case (snoc us p)
    show ?thesis
    proof (cases ys)
      case Nil
      with snoc seg del have h': "h' = set_next p None h"
        and l': "l' = l\<lparr>ltail := Some p\<rparr>"
        using dist by (auto simp: deltask_def Let_def link_simps)
      have "dllseg h' None us (Some p)"
        using seg snoc dist by (subst dllseg_cong [of h]) (auto simp: same_links_def h' link_simps)
      with Nil snoc seg ends dist show ?thesis
        by (auto simp: is_tasklist_def h' l' link_simps)
    next
      case (Cons n zs)
      with snoc seg del dist have h': "h' = set_prev n (Some p) (set_next p (Some n) h)"
        and l': "l' = l"
        by (auto simp: deltask_def Let_def link_simps)
      have "dllseg h' None us (Some p)"
        using seg snoc dist Cons
        by (subst dllseg_cong [of h]) (auto simp: same_links_def h' link_simps)
      moreover have "dllseg h' (Some n) zs None"
        using seg snoc dist Cons
        by (subst dllseg_cong [of h]) (auto simp: same_links_def h' link_simps)
      ultimately show ?thesis
        using Cons snoc seg ends dist
        by (auto simp: is_tasklist_def h' l' link_simps)
    qed
  qed
qed

lemma deltask_frame:
  assumes del: "deltask l t h = (l', h')" and l: "is_tasklist h l xs" and t: "t \<in> set xs"
    and A: "A \<inter> set xs = {}"
  shows "same_links h h' A"
proof -
  from t obtain us vs where xs: "xs = us @ t # vs" by (meson split_list)
  have p: "prevp (h t) = last_or None us" and n: "nextp (h t) = first_or vs None"
    using l by (auto simp: is_tasklist_def xs link_simps)
  have "\<And>q. prevp (h t) = Some q \<Longrightarrow> q \<in> set xs" using p by (auto simp: xs dest: last_or_in)
  moreover have "\<And>q. nextp (h t) = Some q \<Longrightarrow> q \<in> set xs"
    using n by (cases vs) (auto simp: xs)
  ultimately show ?thesis
    using del A t
    by (auto simp: deltask_def same_links_def Let_def link_simps
             split: option.splits prod.splits if_splits)
qed

text \<open>Only the link fields of the store change.\<close>

lemma same_data_refl [simp]: "same_data h h"
  by (simp add: same_data_def)

lemma same_data_trans: "same_data h h' \<Longrightarrow> same_data h' h'' \<Longrightarrow> same_data h h''"
  by (simp add: same_data_def)

lemma same_data_set_next: "same_data h h' \<Longrightarrow> same_data h (set_next t p h')"
  by (simp add: same_data_def set_next_def)

lemma same_data_set_prev: "same_data h h' \<Longrightarrow> same_data h (set_prev t p h')"
  by (simp add: same_data_def set_prev_def)

lemma same_data_fields:
  assumes "same_data h h'"
  shows "tname (h' t) = tname (h t)" "tstate (h' t) = tstate (h t)"
    "alarmtime (h' t) = alarmtime (h t)" "tid (h' t) = tid (h t)"
    "exiting (h' t) = exiting (h t)" "alltaskslot (h' t) = alltaskslot (h t)"
    "system (h' t) = system (h t)" "ready (h' t) = ready (h t)"
    "startfn (h' t) = startfn (h t)" "startarg (h' t) = startarg (h t)"
    "udata (h' t) = udata (h t)"
proof -
  have eq: "(h' t)\<lparr>prevp := None, nextp := None\<rparr> = (h t)\<lparr>prevp := None, nextp := None\<rparr>"
    using assms by (simp add: same_data_def)
  show "tname (h' t) = tname (h t)" "tstate (h' t) = tstate (h t)"
    "alarmtime (h' t) = alarmtime (h t)" "tid (h' t) = tid (h t)"
    "exiting (h' t) = exiting (h t)" "alltaskslot (h' t) = alltaskslot (h t)"
    "system (h' t) = system (h t)" "ready (h' t) = ready (h t)"
    "startfn (h' t) = startfn (h t)" "startarg (h' t) = startarg (h t)"
    "udata (h' t) = udata (h t)"
    using eq by (cases "h t"; cases "h' t"; simp)+
qed

lemma addtask_same_data: "addtask l t h = (l', h') \<Longrightarrow> same_data h h'"
  by (auto simp: addtask_def Let_def split: option.splits
           intro!: same_data_set_next same_data_set_prev)

lemma deltask_same_data: "deltask l t h = (l', h') \<Longrightarrow> same_data h h'"
  by (auto simp: deltask_def Let_def split: option.splits prod.splits
           intro!: same_data_set_next same_data_set_prev)

section \<open>The queue interface the rest of the library relies on\<close>

text \<open>
  What the run queue, the locks, the rendezvous points and the sleep list need from their
  lists: adding appends, deleting removes, and both leave every disjoint list and every
  unrelated task alone.
\<close>

locale task_queue =
  fixes add :: "'l \<Rightarrow> tptr \<Rightarrow> theap \<Rightarrow> 'l \<times> theap"
    and del :: "'l \<Rightarrow> tptr \<Rightarrow> theap \<Rightarrow> 'l \<times> theap"
    and rep :: "theap \<Rightarrow> 'l \<Rightarrow> tptr list \<Rightarrow> bool"
  assumes rep_distinct: "rep h l xs \<Longrightarrow> distinct xs"
    and rep_cong: "same_links h h' (set xs) \<Longrightarrow> rep h l xs \<Longrightarrow> rep h' l xs"
    and add_rep: "add l t h = (l', h') \<Longrightarrow> rep h l xs \<Longrightarrow> t \<notin> set xs \<Longrightarrow> rep h' l' (xs @ [t])"
    and add_same: "add l t h = (l', h') \<Longrightarrow> rep h l xs \<Longrightarrow> t \<notin> A \<Longrightarrow> A \<inter> set xs = {} \<Longrightarrow>
          same_links h h' A"
    and del_rep: "del l t h = (l', h') \<Longrightarrow> rep h l (xs @ t # ys) \<Longrightarrow> rep h' l' (xs @ ys)"
    and del_same: "del l t h = (l', h') \<Longrightarrow> rep h l xs \<Longrightarrow> t \<in> set xs \<Longrightarrow> A \<inter> set xs = {} \<Longrightarrow>
          same_links h h' A"
begin

lemma del_head: "del l t h = (l', h') \<Longrightarrow> rep h l (t # xs) \<Longrightarrow> rep h' l' xs"
  using del_rep [of l t h l' h' "[]" xs] by simp

lemma add_other:
  assumes "add l t h = (l', h')" and "rep h l xs" and "rep h r ys" and "set xs \<inter> set ys = {}"
    and "t \<notin> set ys"
  shows "rep h' r ys"
  using assms add_same [of l t h l' h' xs "set ys"] rep_cong [of h h' ys r] by blast

lemma del_other:
  assumes "del l t h = (l', h')" and "rep h l xs" and "t \<in> set xs" and "rep h r ys"
    and "set xs \<inter> set ys = {}"
  shows "rep h' r ys"
  using assms del_same [of l t h l' h' xs "set ys"] rep_cong [of h h' ys r] by blast

text \<open>Taking the head of one list and appending it to another: every wake-up of the library.\<close>

lemma move_head:
  assumes "del l t h = (l', h1)" and "rep h l (t # xs)" and "rep h r ys"
    and "set (t # xs) \<inter> set ys = {}" and "add r t h1 = (r', h2)"
  shows "rep h2 l' xs" and "rep h2 r' (ys @ [t])"
proof -
  have l': "rep h1 l' xs" using assms(1,2) by (rule del_head)
  have r: "rep h1 r ys" using assms(1-4) del_other [of l t h l' h1 "t # xs" r ys] by simp
  show "rep h2 r' (ys @ [t])" using assms(4,5) r by (auto intro: add_rep)
  have "t \<notin> set xs" using assms(2) rep_distinct by fastforce
  then show "rep h2 l' xs" using assms(4,5) r l' by (auto intro: add_other)
qed

lemma move_head_other:
  assumes "del l t h = (l', h1)" and "rep h l (t # xs)" and "rep h r ys"
    and "set (t # xs) \<inter> set ys = {}" and "add r t h1 = (r', h2)"
    and "rep h q zs" and "set (t # xs) \<inter> set zs = {}" and "set ys \<inter> set zs = {}"
  shows "rep h2 q zs"
proof -
  have "rep h1 r ys" using assms(1-4) del_other [of l t h l' h1 "t # xs" r ys] by simp
  moreover have "rep h1 q zs" using assms del_other [of l t h l' h1 "t # xs" q zs] by simp
  ultimately show ?thesis using assms(5,7,8) by (auto intro: add_other)
qed

end

interpretation tq: task_queue addtask deltask is_tasklist
  by unfold_locales
    (fact is_tasklist_distinct is_tasklist_cong addtask_append addtask_frame deltask_remove
      deltask_frame)+

section \<open>Filling and draining\<close>

text \<open>What the callers do with a list: add tasks one after the other, take the head until empty.\<close>

fun fill_tasks :: "tptr list \<Rightarrow> tasklist \<Rightarrow> theap \<Rightarrow> tasklist \<times> theap" where
  "fill_tasks [] l h = (l, h)"
| "fill_tasks (t # ts) l h = (case addtask l t h of (l', h') \<Rightarrow> fill_tasks ts l' h')"

fun drain_tasks :: "nat \<Rightarrow> tasklist \<Rightarrow> theap \<Rightarrow> tptr list" where
  "drain_tasks 0 l h = []"
| "drain_tasks (Suc n) l h =
     (case lhead l of
        None \<Rightarrow> []
      | Some t \<Rightarrow> (case deltask l t h of (l', h') \<Rightarrow> t # drain_tasks n l' h'))"

lemma fill_tasks_rep:
  "is_tasklist h l xs \<Longrightarrow> distinct (xs @ ts) \<Longrightarrow> fill_tasks ts l h = (l', h') \<Longrightarrow>
   is_tasklist h' l' (xs @ ts)"
proof (induction ts arbitrary: l h xs)
  case Nil
  then show ?case by simp
next
  case (Cons t ts)
  obtain l1 h1 where a: "addtask l t h = (l1, h1)" by fastforce
  with Cons.prems have "is_tasklist h1 l1 (xs @ [t])" by (auto intro: tq.add_rep)
  with a Cons.prems Cons.IH [of h1 l1 "xs @ [t]"] show ?case by simp
qed

lemma drain_tasks_rep:
  "is_tasklist h l xs \<Longrightarrow> length xs \<le> n \<Longrightarrow> drain_tasks n l h = xs"
proof (induction n arbitrary: l h xs)
  case 0
  then show ?case by simp
next
  case (Suc n)
  then show ?case
  proof (cases xs)
    case Nil
    with Suc.prems show ?thesis by (simp add: is_tasklist_def)
  next
    case (Cons t ts)
    obtain l1 h1 where d: "deltask l t h = (l1, h1)" by fastforce
    with Suc.prems Cons have "is_tasklist h1 l1 ts" by (auto intro: tq.del_head)
    with Suc Cons d show ?thesis by (auto simp: is_tasklist_def)
  qed
qed

end
