(* ===== verification/Task_Sched.thy ===== *)
theory Task_Sched
  imports Task_List
begin

text \<open>
  The cooperative scheduler of src/src/common/task/task.c: the globals of the library
  (together with the sleep queue globals of fd.c, which share \<^verbatim>\<open>taskcount\<close>), task creation,
  readiness, yielding, exiting and the two halves of the scheduler loop.  A context switch is
  modelled by splitting a call at \<^verbatim>\<open>taskswitch\<close>: what runs before it gives the state in which the
  scheduler resumes (\<open>sched_return\<close>, the code after \<^verbatim>\<open>contextswitch\<close> in
  \<^verbatim>\<open>taskscheduler\<close>), and \<open>sched_pick\<close> is the part of the loop that chooses the next task.
  \<open>sched_inv\<close> is the invariant of the scheduler's data; it is kept by every operation.
\<close>

section \<open>Globals\<close>

record libtask =
  heap :: theap
  taskcount :: int
  tasknswitch :: int
  taskexitval :: int
  taskrunning :: "tptr option"
  taskrunqueue :: tasklist
  alltask :: "tptr list"
  nalltask :: nat
  taskidgen :: "32 word"
  sleeping :: tasklist
  sleepingcounted :: int
  startedfdtask :: bool

definition zero_task :: task where
  "zero_task = \<lparr>tname = [], tstate = [], nextp = None, prevp = None, alarmtime = 0, tid = 0,
     exiting = False, alltaskslot = 0, system = False, ready = False, startfn = 0, startarg = 0,
     udata = 0\<rparr>"

definition init_libtask :: libtask where
  "init_libtask = \<lparr>heap = (\<lambda>_. zero_task), taskcount = 0, tasknswitch = 0, taskexitval = 0,
     taskrunning = None, taskrunqueue = empty_tasklist, alltask = [], nalltask = 0, taskidgen = 0,
     sleeping = empty_tasklist, sleepingcounted = 0, startedfdtask = False\<rparr>"

definition upd_task :: "tptr \<Rightarrow> (task \<Rightarrow> task) \<Rightarrow> libtask \<Rightarrow> libtask" where
  "upd_task t f s = s\<lparr>heap := (heap s)(t := f (heap s t))\<rparr>"

section \<open>Operations\<close>

text \<open>
  \<open>taskalloc\<close> takes the address \<^verbatim>\<open>malloc\<close> gave (\<open>None\<close> when it failed); the stack and the machine
  context are in Task_Context.
\<close>

definition taskalloc ::
    "nat \<Rightarrow> nat \<Rightarrow> tptr option \<Rightarrow> libtask \<Rightarrow> (tptr \<times> libtask) outcome" where
  "taskalloc fn arg mem s =
     (case mem of
        None \<Rightarrow> Abort
      | Some t \<Rightarrow>
          (let s1 = s\<lparr>taskidgen := taskidgen s + 1\<rparr>
           in Return (t, upd_task t
                (\<lambda>_. zero_task\<lparr>tid := taskidgen s1, startfn := fn, startarg := arg\<rparr>) s1)))"

definition taskready :: "tptr \<Rightarrow> libtask \<Rightarrow> libtask" where
  "taskready t s =
     (let s1 = upd_task t (\<lambda>k. k\<lparr>ready := True\<rparr>) s;
          (q, h) = addtask (taskrunqueue s1) t (heap s1)
      in s1\<lparr>taskrunqueue := q, heap := h\<rparr>)"

text \<open>
  \<^verbatim>\<open>realloc\<close> of the \<^verbatim>\<open>alltask\<close> array to \<open>n\<close> slots keeps the common prefix; the slots it adds hold
  arbitrary values (0 here).
\<close>

definition realloc_alltask :: "nat \<Rightarrow> tptr list \<Rightarrow> tptr list" where
  "realloc_alltask n a = take n a @ replicate (n - length a) 0"

definition taskcreate ::
    "nat \<Rightarrow> nat \<Rightarrow> tptr option \<Rightarrow> bool \<Rightarrow> libtask \<Rightarrow> (32 word \<times> libtask) outcome" where
  "taskcreate fn arg mem realloc_ok s =
     (case taskalloc fn arg mem s of
        Return (t, s1) \<Rightarrow>
          (let s2 = s1\<lparr>taskcount := taskcount s1 + 1\<rparr>;
               id = tid (heap s2 t)
           in if nalltask s2 mod 64 = 0 \<and> \<not> realloc_ok then Abort
              else
                let s3 = (if nalltask s2 mod 64 = 0
                          then s2\<lparr>alltask := realloc_alltask (nalltask s2 + 64) (alltask s2)\<rparr>
                          else s2);
                    s4 = upd_task t (\<lambda>k. k\<lparr>alltaskslot := nalltask s3\<rparr>) s3;
                    s5 = s4\<lparr>alltask := (alltask s4)[nalltask s4 := t], nalltask := nalltask s4 + 1\<rparr>
                in Return (id, taskready t s5))
      | Abort \<Rightarrow> Abort
      | Exit v \<Rightarrow> Exit v)"

definition anyready :: "libtask \<Rightarrow> bool" where
  "anyready s \<longleftrightarrow> lhead (taskrunqueue s) \<noteq> None"

text \<open>What the scheduler does when the running task switches back to it.\<close>

definition sched_return :: "libtask \<Rightarrow> libtask" where
  "sched_return s =
     (case taskrunning s of
        None \<Rightarrow> s
      | Some t \<Rightarrow>
          (let s1 = s\<lparr>taskrunning := None\<rparr>
           in if exiting (heap s1 t) then
                let s2 = (if system (heap s1 t) then s1 else s1\<lparr>taskcount := taskcount s1 - 1\<rparr>);
                    i = alltaskslot (heap s2 t);
                    n = nalltask s2 - 1;
                    m = alltask s2 ! n;
                    s3 = s2\<lparr>nalltask := n, alltask := (alltask s2)[i := m]\<rparr>
                in upd_task m (\<lambda>k. k\<lparr>alltaskslot := i\<rparr>) s3
              else s1))"

text \<open>One turn of the scheduler loop, up to the switch into the chosen task.\<close>

definition sched_pick :: "libtask \<Rightarrow> libtask outcome" where
  "sched_pick s =
     (if taskcount s = 0 then Exit (taskexitval s)
      else
        case lhead (taskrunqueue s) of
          None \<Rightarrow> Exit 1
        | Some t \<Rightarrow>
            (let (q, h) = deltask (taskrunqueue s) t (heap s);
                 s1 = upd_task t (\<lambda>k. k\<lparr>ready := False\<rparr>) (s\<lparr>taskrunqueue := q, heap := h\<rparr>)
             in Return (s1\<lparr>taskrunning := Some t, tasknswitch := tasknswitch s1 + 1\<rparr>)))"

definition taskswitch :: "libtask \<Rightarrow> libtask" where
  "taskswitch s = sched_return s"

definition tasksystem :: "libtask \<Rightarrow> libtask" where
  "tasksystem s =
     (case taskrunning s of
        None \<Rightarrow> s
      | Some t \<Rightarrow>
          (if system (heap s t) then s
           else (upd_task t (\<lambda>k. k\<lparr>system := True\<rparr>) s)\<lparr>taskcount := taskcount s - 1\<rparr>))"

definition taskname :: "string \<Rightarrow> libtask \<Rightarrow> libtask" where
  "taskname str s =
     (case taskrunning s of None \<Rightarrow> s | Some t \<Rightarrow> upd_task t (\<lambda>k. k\<lparr>tname := take 255 str\<rparr>) s)"

definition taskstate :: "string \<Rightarrow> libtask \<Rightarrow> libtask" where
  "taskstate str s =
     (case taskrunning s of None \<Rightarrow> s | Some t \<Rightarrow> upd_task t (\<lambda>k. k\<lparr>tstate := take 255 str\<rparr>) s)"

definition taskgetname :: "libtask \<Rightarrow> string option" where
  "taskgetname s = map_option (\<lambda>t. tname (heap s t)) (taskrunning s)"

definition taskgetstate :: "libtask \<Rightarrow> string option" where
  "taskgetstate s = map_option (\<lambda>t. tstate (heap s t)) (taskrunning s)"

definition taskid :: "libtask \<Rightarrow> 32 word option" where
  "taskid s = map_option (\<lambda>t. tid (heap s t)) (taskrunning s)"

definition taskexit :: "int \<Rightarrow> libtask \<Rightarrow> libtask" where
  "taskexit v s =
     (case taskrunning s of
        None \<Rightarrow> s
      | Some t \<Rightarrow>
          taskswitch (upd_task t (\<lambda>k. k\<lparr>exiting := True\<rparr>) (s\<lparr>taskexitval := v\<rparr>)))"

definition taskexitall :: "int \<Rightarrow> libtask outcome" where
  "taskexitall v = Exit v"

text \<open>
  \<^verbatim>\<open>taskyield\<close> up to the switch, with the counter it saved, and its result once the task is resumed.
\<close>

definition taskyield :: "libtask \<Rightarrow> int \<times> libtask" where
  "taskyield s =
     (let n = tasknswitch s;
          s1 = (case taskrunning s of None \<Rightarrow> s | Some t \<Rightarrow> taskready t s);
          s2 = taskstate ''yield'' s1
      in (n, taskswitch s2))"

definition taskyield_result :: "int \<Rightarrow> libtask \<Rightarrow> int" where
  "taskyield_result n s = tasknswitch s - n - 1"

text \<open>A task that returns from its function exits with status 0 (\<^verbatim>\<open>taskstart\<close>).\<close>

definition taskstart_done :: "libtask \<Rightarrow> libtask" where
  "taskstart_done s = taskexit 0 s"

text \<open>The task table that \<^verbatim>\<open>taskinfo\<close> prints on SIGQUIT.\<close>

definition taskinfo :: "libtask \<Rightarrow> (32 word \<times> bool \<times> string \<times> string \<times> string) list" where
  "taskinfo s =
     map (\<lambda>t. (tid (heap s t), system (heap s t), tname (heap s t), tstate (heap s t),
            if taskrunning s = Some t then '' (running)''
            else if ready (heap s t) then '' (ready)'' else []))
       (take (nalltask s) (alltask s))"

text \<open>\<^verbatim>\<open>main\<close>: create the main task and enter the scheduler.\<close>

definition main_start :: "nat \<Rightarrow> tptr option \<Rightarrow> bool \<Rightarrow> libtask outcome" where
  "main_start fn mem realloc_ok =
     (case taskcreate fn 0 mem realloc_ok init_libtask of
        Return (_, s) \<Rightarrow> Return s
      | Abort \<Rightarrow> Abort
      | Exit v \<Rightarrow> Exit v)"

section \<open>The scheduler's invariant\<close>

definition live :: "libtask \<Rightarrow> tptr list" where
  "live s = take (nalltask s) (alltask s)"

definition nonsystem :: "libtask \<Rightarrow> tptr list" where
  "nonsystem s = filter (\<lambda>t. \<not> system (heap s t)) (live s)"

text \<open>The array of all tasks: no task twice, every task knows its slot, room to grow.\<close>

definition alltask_inv :: "libtask \<Rightarrow> bool" where
  "alltask_inv s \<longleftrightarrow>
     nalltask s \<le> length (alltask s) \<and> 64 dvd length (alltask s) \<and> distinct (live s) \<and>
     (\<forall>i < nalltask s. alltaskslot (heap s (alltask s ! i)) = i)"

text \<open>The run queue holds exactly the ready tasks, all of them live.\<close>

definition runq_inv :: "libtask \<Rightarrow> tptr list \<Rightarrow> bool" where
  "runq_inv s rq \<longleftrightarrow>
     is_tasklist (heap s) (taskrunqueue s) rq \<and> set rq \<subseteq> set (live s) \<and>
     (\<forall>t \<in> set (live s). ready (heap s t) \<longleftrightarrow> t \<in> set rq)"

text \<open>
  \<^verbatim>\<open>taskcount\<close> counts the live tasks that are not system tasks, plus one as long as some task
  sleeps (fd.c counts the sleepers once).
\<close>

definition count_inv :: "libtask \<Rightarrow> bool" where
  "count_inv s \<longleftrightarrow>
     taskcount s = int (length (nonsystem s)) + (if 0 < sleepingcounted s then 1 else 0)"

text \<open>The running task is live and not queued; nobody else is exiting.\<close>

definition running_inv :: "libtask \<Rightarrow> tptr list \<Rightarrow> bool" where
  "running_inv s rq \<longleftrightarrow>
     (\<forall>t. taskrunning s = Some t \<longrightarrow> t \<in> set (live s) \<and> t \<notin> set rq) \<and>
     (\<forall>t \<in> set (live s). \<not> exiting (heap s t))"

definition sched_inv :: "libtask \<Rightarrow> tptr list \<Rightarrow> bool" where
  "sched_inv s rq \<longleftrightarrow> alltask_inv s \<and> runq_inv s rq \<and> count_inv s \<and> running_inv s rq"

lemmas sched_inv_defs = sched_inv_def alltask_inv_def runq_inv_def count_inv_def running_inv_def

section \<open>Frame facts\<close>

lemma upd_task_sel [simp]:
  "taskcount (upd_task t f s) = taskcount s"
  "tasknswitch (upd_task t f s) = tasknswitch s"
  "taskexitval (upd_task t f s) = taskexitval s"
  "taskrunning (upd_task t f s) = taskrunning s"
  "taskrunqueue (upd_task t f s) = taskrunqueue s"
  "alltask (upd_task t f s) = alltask s"
  "nalltask (upd_task t f s) = nalltask s"
  "taskidgen (upd_task t f s) = taskidgen s"
  "sleeping (upd_task t f s) = sleeping s"
  "sleepingcounted (upd_task t f s) = sleepingcounted s"
  "startedfdtask (upd_task t f s) = startedfdtask s"
  "heap (upd_task t f s) = (heap s)(t := f (heap s t))"
  "live (upd_task t f s) = live s"
  by (simp_all add: upd_task_def live_def)

lemma same_links_upd:
  "(\<And>k. nextp (f k) = nextp k) \<Longrightarrow> (\<And>k. prevp (f k) = prevp k) \<Longrightarrow>
   same_links h (h(t := f (h t))) A"
  by (simp add: same_links_def)

lemma is_tasklist_upd:
  "(\<And>k. nextp (f k) = nextp k) \<Longrightarrow> (\<And>k. prevp (f k) = prevp k) \<Longrightarrow>
   is_tasklist h l xs \<Longrightarrow> is_tasklist (h(t := f (h t))) l xs"
  by (rule is_tasklist_cong [OF same_links_upd])

lemma taskready_frame:
  "taskcount (taskready t s) = taskcount s"
  "tasknswitch (taskready t s) = tasknswitch s"
  "taskexitval (taskready t s) = taskexitval s"
  "taskrunning (taskready t s) = taskrunning s"
  "alltask (taskready t s) = alltask s"
  "nalltask (taskready t s) = nalltask s"
  "taskidgen (taskready t s) = taskidgen s"
  "sleeping (taskready t s) = sleeping s"
  "sleepingcounted (taskready t s) = sleepingcounted s"
  "startedfdtask (taskready t s) = startedfdtask s"
  "live (taskready t s) = live s"
  by (simp_all add: taskready_def Let_def live_def split: prod.splits)

lemma taskready_data:
  "ready (heap (taskready t s) u) = (if u = t then True else ready (heap s u))"
  "exiting (heap (taskready t s) u) = exiting (heap s u)"
  "system (heap (taskready t s) u) = system (heap s u)"
  "alltaskslot (heap (taskready t s) u) = alltaskslot (heap s u)"
  "tid (heap (taskready t s) u) = tid (heap s u)"
  "tname (heap (taskready t s) u) = tname (heap s u)"
  "tstate (heap (taskready t s) u) = tstate (heap s u)"
  "alarmtime (heap (taskready t s) u) = alarmtime (heap s u)"
proof -
  obtain q h where a: "addtask (taskrunqueue s) t ((heap s)(t := (heap s t)\<lparr>ready := True\<rparr>)) = (q, h)"
    by fastforce
  then have h: "heap (taskready t s) = h"
    by (simp add: taskready_def Let_def)
  note d = same_data_fields [OF addtask_same_data [OF a], of u]
  show "ready (heap (taskready t s) u) = (if u = t then True else ready (heap s u))"
    "exiting (heap (taskready t s) u) = exiting (heap s u)"
    "system (heap (taskready t s) u) = system (heap s u)"
    "alltaskslot (heap (taskready t s) u) = alltaskslot (heap s u)"
    "tid (heap (taskready t s) u) = tid (heap s u)"
    "tname (heap (taskready t s) u) = tname (heap s u)"
    "tstate (heap (taskready t s) u) = tstate (heap s u)"
    "alarmtime (heap (taskready t s) u) = alarmtime (heap s u)"
    by (simp_all add: h d)
qed

lemma taskready_queue:
  assumes "is_tasklist (heap s) (taskrunqueue s) rq" and "t \<notin> set rq"
  shows "is_tasklist (heap (taskready t s)) (taskrunqueue (taskready t s)) (rq @ [t])"
proof -
  obtain q h where a: "addtask (taskrunqueue s) t ((heap s)(t := (heap s t)\<lparr>ready := True\<rparr>)) = (q, h)"
    by fastforce
  have "is_tasklist ((heap s)(t := (heap s t)\<lparr>ready := True\<rparr>)) (taskrunqueue s) rq"
    using assms(1) by (rule is_tasklist_upd [rotated 2]) auto
  with a assms(2) have "is_tasklist h q (rq @ [t])" by (auto intro: tq.add_rep)
  with a show ?thesis by (simp add: taskready_def Let_def)
qed

lemma taskready_other:
  assumes "is_tasklist (heap s) (taskrunqueue s) rq" and "is_tasklist (heap s) l xs"
    and "t \<notin> set xs" and "set rq \<inter> set xs = {}"
  shows "is_tasklist (heap (taskready t s)) l xs"
proof -
  obtain q h where a: "addtask (taskrunqueue s) t ((heap s)(t := (heap s t)\<lparr>ready := True\<rparr>)) = (q, h)"
    by fastforce
  have "is_tasklist ((heap s)(t := (heap s t)\<lparr>ready := True\<rparr>)) (taskrunqueue s) rq"
    using assms(1) by (rule is_tasklist_upd [rotated 2]) auto
  moreover have "is_tasklist ((heap s)(t := (heap s t)\<lparr>ready := True\<rparr>)) l xs"
    using assms(2) by (rule is_tasklist_upd [rotated 2]) auto
  ultimately have "is_tasklist h l xs" using a assms(3,4) tq.add_other by blast
  with a show ?thesis by (simp add: taskready_def Let_def)
qed

lemmas taskready_simps = taskready_frame taskready_data

lemma length_realloc_alltask [simp]: "length (realloc_alltask n a) = n"
  by (cases "n \<le> length a") (simp_all add: realloc_alltask_def)

lemma live_nth: "i < nalltask s \<Longrightarrow> alltask_inv s \<Longrightarrow> live s ! i = alltask s ! i"
  by (simp add: live_def)

lemma length_live: "alltask_inv s \<Longrightarrow> length (live s) = nalltask s"
  by (simp add: live_def alltask_inv_def)

section \<open>Every operation keeps the invariant\<close>

text \<open>Readying a live task that is neither queued nor running (a wake-up).\<close>

lemma taskready_inv:
  assumes inv: "sched_inv s rq" and t: "t \<in> set (live s)" "t \<notin> set rq" "taskrunning s \<noteq> Some t"
  shows "sched_inv (taskready t s) (rq @ [t])"
proof -
  have "alltask_inv (taskready t s)"
    using inv by (simp add: sched_inv_defs taskready_simps)
  moreover have "runq_inv (taskready t s) (rq @ [t])"
    using inv t taskready_queue [of s rq t] by (auto simp: sched_inv_defs taskready_simps)
  moreover have "count_inv (taskready t s)"
    using inv by (simp add: sched_inv_defs taskready_simps nonsystem_def)
  moreover have "running_inv (taskready t s) (rq @ [t])"
    using inv t by (auto simp: sched_inv_defs taskready_simps)
  ultimately show ?thesis by (simp add: sched_inv_def)
qed

text \<open>Picking takes the head of the run queue.\<close>

lemma sched_pick_inv:
  assumes inv: "sched_inv s rq" and idle: "taskrunning s = None"
    and pick: "sched_pick s = Return s'"
  obtains t rq' where "rq = t # rq'" and "sched_inv s' rq'" and "taskrunning s' = Some t"
    and "tasknswitch s' = tasknswitch s + 1" and "live s' = live s"
proof -
  have q: "is_tasklist (heap s) (taskrunqueue s) rq" using inv by (simp add: sched_inv_defs)
  from pick obtain t where hd: "lhead (taskrunqueue s) = Some t"
    by (auto simp: sched_pick_def split: if_splits option.splits)
  with q have "first_or rq None = Some t" by (simp add: is_tasklist_def)
  then obtain rq' where rq: "rq = t # rq'" by (rule first_or_SomeE)
  obtain l h where d: "deltask (taskrunqueue s) t (heap s) = (l, h)" by fastforce
  with pick hd have s': "s' = (upd_task t (\<lambda>k. k\<lparr>ready := False\<rparr>) (s\<lparr>taskrunqueue := l, heap := h\<rparr>))
      \<lparr>taskrunning := Some t, tasknswitch := tasknswitch s + 1\<rparr>"
    by (auto simp: sched_pick_def Let_def split: if_splits)
  have lv: "live s' = live s" by (simp add: s' live_def)
  have rep: "is_tasklist h l rq'" using tq.del_head [OF d] q rq by simp
  then have rep': "is_tasklist (heap s') l rq'"
    unfolding s' by simp (rule is_tasklist_upd, simp_all)
  note df = same_data_fields [OF deltask_same_data [OF d]]
  have dist: "t \<notin> set rq'" using q rq is_tasklist_distinct by fastforce
  have "alltask_inv s'" using inv lv by (auto simp: sched_inv_defs s' df)
  moreover have "runq_inv s' rq'"
    using inv lv rep' dist rq by (auto simp: sched_inv_defs s' df)
  moreover have "nonsystem s' = nonsystem s"
    unfolding nonsystem_def lv by (rule filter_cong) (auto simp: s' df)
  then have "count_inv s'" using inv by (simp add: sched_inv_defs s')
  moreover have "running_inv s' rq'"
    using inv lv dist rq by (auto simp: sched_inv_defs s' df)
  ultimately have "sched_inv s' rq'" by (simp add: sched_inv_def)
  with that rq lv show thesis by (auto simp: s')
qed

lemma sched_pick_ready:
  assumes inv: "sched_inv s rq" and ne: "rq \<noteq> []" and tc: "taskcount s \<noteq> 0"
  obtains s' where "sched_pick s = Return s'"
proof -
  have "lhead (taskrunqueue s) = Some (hd rq)"
    using inv ne by (auto simp: sched_inv_defs is_tasklist_def first_or_nonempty)
  with tc that show thesis
    by (cases "deltask (taskrunqueue s) (hd rq) (heap s)") (auto simp: sched_pick_def)
qed

text \<open>A task that blocks (it put itself on some other list first) only gives up the CPU.\<close>

lemma taskswitch_inv:
  assumes inv: "sched_inv s rq"
  shows "sched_inv (taskswitch s) rq" and "taskrunning (taskswitch s) = None"
    and "live (taskswitch s) = live s"
proof -
  have "\<And>t. taskrunning s = Some t \<Longrightarrow> \<not> exiting (heap s t)"
    using inv by (auto simp: sched_inv_defs)
  then have eq: "taskswitch s = (case taskrunning s of None \<Rightarrow> s | Some t \<Rightarrow> s\<lparr>taskrunning := None\<rparr>)"
    by (auto simp: taskswitch_def sched_return_def split: option.splits)
  show "sched_inv (taskswitch s) rq" "taskrunning (taskswitch s) = None"
    "live (taskswitch s) = live s"
    using inv by (auto simp: eq sched_inv_defs live_def nonsystem_def split: option.splits)
qed

lemma taskstate_heap:
  "heap (taskstate m s) = (case taskrunning s of None \<Rightarrow> heap s
     | Some t \<Rightarrow> (heap s)(t := (heap s t)\<lparr>tstate := take 255 m\<rparr>))"
  by (simp add: taskstate_def split: option.splits)

lemma taskstate_sel:
  "taskcount (taskstate m s) = taskcount s"
  "tasknswitch (taskstate m s) = tasknswitch s"
  "taskexitval (taskstate m s) = taskexitval s"
  "taskrunning (taskstate m s) = taskrunning s"
  "taskrunqueue (taskstate m s) = taskrunqueue s"
  "alltask (taskstate m s) = alltask s"
  "nalltask (taskstate m s) = nalltask s"
  "sleeping (taskstate m s) = sleeping s"
  "sleepingcounted (taskstate m s) = sleepingcounted s"
  "live (taskstate m s) = live s"
  by (simp_all add: taskstate_def live_def split: option.splits)

lemma taskstate_data:
  "ready (heap (taskstate m s) u) = ready (heap s u)"
  "exiting (heap (taskstate m s) u) = exiting (heap s u)"
  "system (heap (taskstate m s) u) = system (heap s u)"
  "alltaskslot (heap (taskstate m s) u) = alltaskslot (heap s u)"
  by (simp_all add: taskstate_heap split: option.splits)

lemma taskstate_list: "is_tasklist (heap s) l xs \<Longrightarrow> is_tasklist (heap (taskstate m s)) l xs"
  by (auto simp: taskstate_heap split: option.splits intro!: is_tasklist_upd)

lemmas taskstate_simps = taskstate_sel taskstate_data

lemma taskstate_inv: "sched_inv s rq \<Longrightarrow> sched_inv (taskstate m s) rq"
  by (auto simp: sched_inv_defs taskstate_simps nonsystem_def intro: taskstate_list)

text \<open>Yielding moves the running task to the end of the queue.\<close>

lemma taskyield_inv:
  assumes inv: "sched_inv s rq" and run: "taskrunning s = Some t"
  shows "fst (taskyield s) = tasknswitch s"
    and "sched_inv (snd (taskyield s)) (rq @ [t])"
    and "taskrunning (snd (taskyield s)) = None"
    and "tasknswitch (snd (taskyield s)) = tasknswitch s"
    and "live (snd (taskyield s)) = live s"
    and "taskcount (snd (taskyield s)) = taskcount s"
proof -
  let ?s = "taskstate ''yield'' (taskready t s)"
  have t: "t \<in> set (live s)" "t \<notin> set rq" and ex: "\<not> exiting (heap s t)"
    using inv run by (auto simp: sched_inv_defs)
  have sw: "snd (taskyield s) = ?s\<lparr>taskrunning := None\<rparr>"
    using run ex by (simp add: taskyield_def Let_def taskswitch_def sched_return_def
      taskstate_simps taskready_simps)
  let ?r = "s\<lparr>taskrunning := None\<rparr>"
  show "fst (taskyield s) = tasknswitch s" by (simp add: taskyield_def Let_def)
  show "taskrunning (snd (taskyield s)) = None" by (simp add: sw)
  show "tasknswitch (snd (taskyield s)) = tasknswitch s"
    by (simp add: sw taskstate_simps taskready_simps)
  show lv: "live (snd (taskyield s)) = live s"
    by (simp add: sw live_def taskstate_simps taskready_simps)
  show "taskcount (snd (taskyield s)) = taskcount s"
    by (simp add: sw taskstate_simps taskready_simps)
  have h: "\<And>u. ready (heap (snd (taskyield s)) u) = (u = t \<or> ready (heap s u))"
    "\<And>u. exiting (heap (snd (taskyield s)) u) = exiting (heap s u)"
    "\<And>u. system (heap (snd (taskyield s)) u) = system (heap s u)"
    "\<And>u. alltaskslot (heap (snd (taskyield s)) u) = alltaskslot (heap s u)"
    by (simp_all add: sw taskstate_simps taskready_simps)
  have q: "is_tasklist (heap (snd (taskyield s))) (taskrunqueue (snd (taskyield s))) (rq @ [t])"
    using inv t taskready_queue [of s rq t]
    by (auto simp: sw taskstate_simps sched_inv_defs intro: taskstate_list)
  show "sched_inv (snd (taskyield s)) (rq @ [t])"
    using inv t q lv h
    by (auto simp: sched_inv_defs sw taskstate_simps taskready_simps nonsystem_def)
qed

text \<open>Creation puts the new task at the end of the run queue and into the next slot.\<close>

lemma taskcreate_eq:
  assumes inv: "sched_inv s rq" and c: "taskcreate fn arg (Some t) ok s = Return (n, s')"
  obtains s1 where "s' = taskready t s1" and "n = taskidgen s + 1"
    and "heap s1 = (heap s)(t := zero_task
          \<lparr>tid := taskidgen s + 1, startfn := fn, startarg := arg, alltaskslot := nalltask s\<rparr>)"
    and "taskcount s1 = taskcount s + 1" and "taskrunning s1 = taskrunning s"
    and "taskrunqueue s1 = taskrunqueue s" and "sleepingcounted s1 = sleepingcounted s"
    and "nalltask s1 = nalltask s + 1" and "live s1 = live s @ [t]"
    and "nalltask s1 \<le> length (alltask s1)" and "64 dvd length (alltask s1)"
    and "tasknswitch s1 = tasknswitch s"
proof -
  define a where "a = (if nalltask s mod 64 = 0
     then realloc_alltask (nalltask s + 64) (alltask s) else alltask s)"
  define s1 where "s1 = s\<lparr>taskidgen := taskidgen s + 1, taskcount := taskcount s + 1,
     heap := (heap s)(t := zero_task
          \<lparr>tid := taskidgen s + 1, startfn := fn, startarg := arg, alltaskslot := nalltask s\<rparr>),
     alltask := a[nalltask s := t], nalltask := nalltask s + 1\<rparr>"
  have nn: "nalltask s \<le> length (alltask s)" and d64: "64 dvd length (alltask s)"
    using inv by (auto simp: sched_inv_defs)
  have la: "nalltask s + 1 \<le> length a" and a64: "64 dvd length a"
    and ta: "take (nalltask s) a = live s"
  proof -
    show "nalltask s + 1 \<le> length a"
    proof (cases "nalltask s mod 64 = 0")
      case True
      then show ?thesis by (simp add: a_def)
    next
      case False
      with nn d64 have "nalltask s \<noteq> length (alltask s)" by auto
      with nn False show ?thesis by (simp add: a_def)
    qed
    show "64 dvd length a"
      using nn d64 by (auto simp: a_def)
    show "take (nalltask s) a = live s"
      using nn by (simp add: a_def realloc_alltask_def live_def)
  qed
  have s': "s' = taskready t s1" and nid: "n = taskidgen s + 1"
    using c by (auto simp: taskcreate_def taskalloc_def Let_def s1_def a_def upd_task_def
      split: if_splits)
  have "live s1 = live s @ [t]"
    using la ta by (simp add: live_def s1_def take_Suc_conv_app_nth)
  with that [of s1] s' nid la a64 show thesis by (simp add: s1_def)
qed

lemma taskcreate_inv:
  assumes inv: "sched_inv s rq" and c: "taskcreate fn arg (Some t) ok s = Return (n, s')"
    and fresh: "t \<notin> set (live s)"
  shows "sched_inv s' (rq @ [t])" and "live s' = live s @ [t]" and "n = taskidgen s + 1"
    and "taskrunning s' = taskrunning s"
proof -
  from taskcreate_eq [OF inv c] obtain s1 where s': "s' = taskready t s1"
    and nid: "n = taskidgen s + 1"
    and h: "heap s1 = (heap s)(t := zero_task
          \<lparr>tid := taskidgen s + 1, startfn := fn, startarg := arg, alltaskslot := nalltask s\<rparr>)"
    and s1: "taskcount s1 = taskcount s + 1" "taskrunning s1 = taskrunning s"
      "taskrunqueue s1 = taskrunqueue s" "sleepingcounted s1 = sleepingcounted s"
      "nalltask s1 = nalltask s + 1" "live s1 = live s @ [t]"
      "nalltask s1 \<le> length (alltask s1)" "64 dvd length (alltask s1)"
    by metis
  show "n = taskidgen s + 1" by (rule nid)
  show "live s' = live s @ [t]" by (simp add: s' taskready_simps s1)
  show "taskrunning s' = taskrunning s" by (simp add: s' taskready_simps s1)
  have trq: "t \<notin> set rq" using inv fresh by (auto simp: sched_inv_defs)
  have "same_links (heap s) (heap s1) (set rq)"
    using trq by (auto simp: same_links_def h)
  then have q: "is_tasklist (heap s1) (taskrunqueue s1) rq"
    using inv by (auto simp: sched_inv_defs s1 intro: is_tasklist_cong)
  have q': "is_tasklist (heap s') (taskrunqueue s') (rq @ [t])"
    unfolding s' using q trq by (rule taskready_queue)
  have slot: "\<And>i. i < nalltask s1 \<Longrightarrow> alltaskslot (heap s1 (alltask s1 ! i)) = i"
  proof -
    fix i assume i: "i < nalltask s1"
    have nth: "alltask s1 ! i = (live s @ [t]) ! i"
      using i s1(6,7) by (metis live_def nth_take)
    have len: "length (live s) = nalltask s" using inv by (simp add: sched_inv_def length_live)
    show "alltaskslot (heap s1 (alltask s1 ! i)) = i"
    proof (cases "i = nalltask s")
      case True
      with nth len show ?thesis by (simp add: h nth_append)
    next
      case False
      with i s1 have i': "i < nalltask s" by simp
      with nth len have e: "alltask s1 ! i = live s ! i" by (simp add: nth_append)
      moreover have "live s ! i \<in> set (live s)" using i' len by simp
      ultimately have "alltask s1 ! i \<noteq> t" using fresh by auto
      moreover have "live s ! i = alltask s ! i" using i' inv by (simp add: live_nth sched_inv_def)
      ultimately show ?thesis using inv i' e by (simp add: h sched_inv_defs)
    qed
  qed
  have "alltask_inv s'"
    using inv fresh s1 slot by (simp add: alltask_inv_def s' taskready_simps sched_inv_defs)
  moreover have "runq_inv s' (rq @ [t])"
    using inv fresh q' s1 by (auto simp: sched_inv_defs s' taskready_simps h zero_task_def)
  moreover have "nonsystem s' = nonsystem s @ [t]"
    using fresh by (auto simp: nonsystem_def s' taskready_simps s1 h zero_task_def
      intro!: filter_cong)
  then have "count_inv s'"
    using inv s1 by (simp add: sched_inv_defs s' taskready_simps)
  moreover have "running_inv s' (rq @ [t])"
    using inv fresh s1 by (auto simp: sched_inv_defs s' taskready_simps h zero_task_def)
  ultimately show "sched_inv s' (rq @ [t])" by (simp add: sched_inv_def)
qed

text \<open>Exiting removes the task from the array by moving the last task into its slot.\<close>

lemma taskexit_eq:
  assumes inv: "sched_inv s rq" and run: "taskrunning s = Some t"
  obtains i where "i < nalltask s" and "alltask s ! i = t"
    and "live (taskexit v s) = swap_remove (live s) i"
    and "taskrunning (taskexit v s) = None" and "taskrunqueue (taskexit v s) = taskrunqueue s"
    and "sleepingcounted (taskexit v s) = sleepingcounted s"
    and "nalltask (taskexit v s) = nalltask s - 1"
    and "alltask (taskexit v s) = (alltask s)[i := last (live s)]"
    and "taskcount (taskexit v s) = taskcount s - (if system (heap s t) then 0 else 1)"
    and "taskexitval (taskexit v s) = v"
    and "heap (taskexit v s) = (let h = (heap s)(t := (heap s t)\<lparr>exiting := True\<rparr>)
            in h(last (live s) := (h (last (live s)))\<lparr>alltaskslot := i\<rparr>))"
proof -
  have t: "t \<in> set (live s)" using inv run by (auto simp: sched_inv_defs)
  have ai: "alltask_inv s" using inv by (simp add: sched_inv_def)
  from t obtain i where i: "i < nalltask s" "live s ! i = t"
    using ai by (auto simp: in_set_conv_nth length_live)
  then have ti: "alltask s ! i = t" using ai by (simp add: live_nth)
  with ai i have slot: "alltaskslot (heap s t) = i" by (auto simp: alltask_inv_def)
  have len: "length (live s) = nalltask s" using ai by (rule length_live)
  have last: "last (live s) = alltask s ! (nalltask s - 1)"
    using ai i len by (simp add: last_conv_nth live_nth)
      (metis gr_implies_not0 last_conv_nth length_0_conv live_nth One_nat_def diff_less less_one zero_less_iff_neq_zero)
  have lv: "take (nalltask s - 1) ((alltask s)[i := last (live s)]) = swap_remove (live s) i"
  proof (rule nth_equalityI)
    show "length (take (nalltask s - 1) ((alltask s)[i := last (live s)])) =
        length (swap_remove (live s) i)"
      using ai len by (auto simp: alltask_inv_def)
  next
    fix j assume "j < length (take (nalltask s - 1) ((alltask s)[i := last (live s)]))"
    then have j: "j < nalltask s - 1" by simp
    with ai i len show "take (nalltask s - 1) ((alltask s)[i := last (live s)]) ! j =
        swap_remove (live s) i ! j"
      by (auto simp: swap_remove_nth nth_list_update live_nth alltask_inv_def)
  qed
  show thesis
    using run slot i ti lv last
    by (intro that [of i])
       (simp_all add: taskexit_def taskswitch_def sched_return_def Let_def live_def)
qed

lemma taskexit_inv:
  assumes inv: "sched_inv s rq" and run: "taskrunning s = Some t"
  shows "sched_inv (taskexit v s) rq" and "set (live (taskexit v s)) = set (live s) - {t}"
    and "taskrunning (taskexit v s) = None" and "taskexitval (taskexit v s) = v"
proof -
  from taskexit_eq [OF inv run, of v] obtain i where i: "i < nalltask s" "alltask s ! i = t"
    and lv: "live (taskexit v s) = swap_remove (live s) i"
    and run': "taskrunning (taskexit v s) = None"
    and q: "taskrunqueue (taskexit v s) = taskrunqueue s"
    and sc: "sleepingcounted (taskexit v s) = sleepingcounted s"
    and n: "nalltask (taskexit v s) = nalltask s - 1"
    and at: "alltask (taskexit v s) = (alltask s)[i := last (live s)]"
    and tc: "taskcount (taskexit v s) = taskcount s - (if system (heap s t) then 0 else 1)"
    and ev: "taskexitval (taskexit v s) = v"
    and h: "heap (taskexit v s) = (let h = (heap s)(t := (heap s t)\<lparr>exiting := True\<rparr>)
            in h(last (live s) := (h (last (live s)))\<lparr>alltaskslot := i\<rparr>))"
    by metis
  let ?s = "taskexit v s"
  have ai: "alltask_inv s" and dl: "distinct (live s)" using inv by (auto simp: sched_inv_defs)
  have len: "length (live s) = nalltask s" using ai by (rule length_live)
  have ti: "live s ! i = t" using i ai by (simp add: live_nth)
  show set: "set (live ?s) = set (live s) - {t}"
    using dl i len ti by (simp add: lv set_swap_remove)
  show "taskrunning ?s = None" by (rule run')
  show "taskexitval ?s = v" by (rule ev)
  have d: "distinct (live ?s)" using dl i len by (simp add: lv distinct_swap_remove)
  have fields: "\<And>u. ready (heap ?s u) = ready (heap s u)" "\<And>u. system (heap ?s u) = system (heap s u)"
    "\<And>u. u \<noteq> t \<Longrightarrow> exiting (heap ?s u) = exiting (heap s u)"
    by (simp_all add: h Let_def)
  have links: "same_links (heap s) (heap ?s) A" for A
    by (simp add: same_links_def h Let_def)
  have trq: "t \<notin> set rq" using inv run by (auto simp: sched_inv_defs)
  have "\<forall>j < nalltask ?s. alltaskslot (heap ?s (alltask ?s ! j)) = j"
  proof (intro allI impI)
    fix j assume j: "j < nalltask ?s"
    have nth: "alltask ?s ! j = (if j = i then last (live s) else alltask s ! j)"
      using j i n ai by (auto simp: at nth_list_update alltask_inv_def)
    show "alltaskslot (heap ?s (alltask ?s ! j)) = j"
    proof (cases "j = i")
      case True
      with nth have "alltask ?s ! j = last (live s)" by simp
      then show ?thesis using True by (simp add: h Let_def)
    next
      case False
      have jn: "j < nalltask s - 1" using j n by simp
      then have lj: "alltask s ! j = live s ! j" using ai by (simp add: live_nth)
      have "last (live s) = live s ! (nalltask s - 1)"
        using len i by (subst last_conv_nth) auto
      then have "live s ! j \<noteq> last (live s)"
        using jn dl len by (simp add: nth_eq_iff_index_eq)
      moreover have "live s ! j \<noteq> t"
        using False ti dl len i jn nth_eq_iff_index_eq [of "live s" j i] by auto
      moreover have "alltaskslot (heap s (alltask s ! j)) = j"
        using ai jn by (simp add: alltask_inv_def)
      ultimately show ?thesis using nth False lj by (simp add: h Let_def)
    qed
  qed
  then have "alltask_inv ?s"
    using ai d i by (auto simp: alltask_inv_def at n)
  moreover have "runq_inv ?s rq"
    using inv trq set fields is_tasklist_cong [OF links]
    by (auto simp: sched_inv_defs q)
  moreover have "count_inv ?s"
  proof -
    let ?N = "filter_mset (\<lambda>u. \<not> system (heap s u)) (mset (live s))"
    have t: "t \<in># mset (live s)" using inv run by (auto simp: sched_inv_defs)
    have n0: "length (nonsystem s) = size ?N"
      unfolding nonsystem_def size_mset [symmetric] mset_filter ..
    have "mset (nonsystem ?s) = (if system (heap s t) then ?N else ?N - {#t#})"
      using i len ti by (simp add: nonsystem_def fields lv mset_swap_remove filter_diff_mset)
    then have "length (nonsystem ?s) = size (if system (heap s t) then ?N else ?N - {#t#})"
      unfolding size_mset [symmetric] by (simp only:)
    with n0 t have "length (nonsystem ?s) =
        length (nonsystem s) - (if system (heap s t) then 0 else 1)"
      by (simp add: size_Diff_singleton)
    moreover have "\<not> system (heap s t) \<Longrightarrow> 0 < length (nonsystem s)"
      using t by (auto simp: nonsystem_def filter_empty_conv)
    ultimately have "int (length (nonsystem ?s)) =
        int (length (nonsystem s)) - (if system (heap s t) then 0 else 1)"
      by (auto simp: of_nat_diff Suc_le_eq)
    with inv show ?thesis by (auto simp: sched_inv_defs tc sc)
  qed
  moreover have "running_inv ?s rq"
    using inv set fields run' by (auto simp: sched_inv_defs)
  ultimately show "sched_inv ?s rq" by (simp add: sched_inv_def)
qed

lemma tasksystem_inv:
  assumes inv: "sched_inv s rq"
  shows "sched_inv (tasksystem s) rq" and "live (tasksystem s) = live s"
    and "taskrunning (tasksystem s) = taskrunning s"
proof -
  show "live (tasksystem s) = live s" "taskrunning (tasksystem s) = taskrunning s"
    by (simp_all add: tasksystem_def live_def split: option.splits)
  show "sched_inv (tasksystem s) rq"
  proof (cases "\<exists>t. taskrunning s = Some t \<and> \<not> system (heap s t)")
    case False
    with inv show ?thesis by (auto simp: tasksystem_def split: option.splits)
  next
    case True
    then obtain t where run: "taskrunning s = Some t" and ns: "\<not> system (heap s t)" by blast
    let ?s = "tasksystem s"
    have s': "?s = (upd_task t (\<lambda>k. k\<lparr>system := True\<rparr>) s)\<lparr>taskcount := taskcount s - 1\<rparr>"
      using run ns by (simp add: tasksystem_def)
    have t: "t \<in> set (live s)" and dl: "distinct (live s)" using inv run by (auto simp: sched_inv_defs)
    have lv: "live ?s = live s" by (simp add: s' live_def)
    have "nonsystem ?s = filter (\<lambda>u. \<not> system (heap s u) \<and> u \<noteq> t) (live s)"
      unfolding nonsystem_def lv by (rule filter_cong) (auto simp: s')
    also have "\<dots> = remove1 t (nonsystem s)"
      using dl by (auto simp: nonsystem_def distinct_remove1_removeAll removeAll_filter_not_eq
          intro!: filter_cong)
    finally have "length (nonsystem ?s) = length (nonsystem s) - 1" "0 < length (nonsystem s)"
      using t ns by (auto simp: length_remove1 nonsystem_def filter_empty_conv)
    then have "int (length (nonsystem ?s)) = int (length (nonsystem s)) - 1" by linarith
    moreover have "taskcount ?s = taskcount s - 1" "sleepingcounted ?s = sleepingcounted s"
      by (simp_all add: s')
    ultimately have "count_inv ?s" using inv by (simp add: count_inv_def sched_inv_def)
    moreover have "is_tasklist (heap ?s) (taskrunqueue ?s) rq"
      using inv by (simp add: s' sched_inv_defs is_tasklist_upd)
    ultimately show ?thesis using inv lv by (auto simp: sched_inv_defs s')
  qed
qed

section \<open>Reachable states of the library\<close>

text \<open>
  What a program on top of the library can do: the scheduler picks a task; the running task
  creates a task, yields, wakes a blocked task, blocks, exits, becomes a system task or sets its
  state string.  A blocked task is live, not ready and not running.
\<close>

inductive task_step :: "libtask \<Rightarrow> libtask \<Rightarrow> bool" where
  step_pick: "taskrunning s = None \<Longrightarrow> sched_pick s = Return s' \<Longrightarrow> task_step s s'"
| step_create: "taskrunning s = Some r \<Longrightarrow> t \<notin> set (live s) \<Longrightarrow>
     taskcreate fn arg (Some t) ok s = Return (n, s') \<Longrightarrow> task_step s s'"
| step_yield: "taskrunning s = Some r \<Longrightarrow> task_step s (snd (taskyield s))"
| step_wake: "taskrunning s = Some r \<Longrightarrow> t \<in> set (live s) \<Longrightarrow> \<not> ready (heap s t) \<Longrightarrow> t \<noteq> r \<Longrightarrow>
     task_step s (taskready t s)"
| step_block: "taskrunning s = Some r \<Longrightarrow> task_step s (taskswitch s)"
| step_exit: "taskrunning s = Some r \<Longrightarrow> task_step s (taskexit v s)"
| step_system: "taskrunning s = Some r \<Longrightarrow> task_step s (tasksystem s)"
| step_state: "taskrunning s = Some r \<Longrightarrow> task_step s (taskstate m s)"

inductive task_reachable :: "libtask \<Rightarrow> bool" where
  reach_main: "main_start fn (Some t) ok = Return s \<Longrightarrow> task_reachable s"
| reach_step: "task_reachable s \<Longrightarrow> task_step s s' \<Longrightarrow> task_reachable s'"

lemma init_libtask_inv: "sched_inv init_libtask []"
  by (simp add: sched_inv_defs init_libtask_def live_def nonsystem_def)

lemma task_step_inv:
  assumes "task_step s s'" and "sched_inv s rq"
  shows "\<exists>rq'. sched_inv s' rq'"
  using assms(1)
proof (cases rule: task_step.cases)
  case step_pick
  with assms(2) show ?thesis by (metis sched_pick_inv)
next
  case (step_create r t fn arg ok n)
  with assms(2) show ?thesis by (blast intro: taskcreate_inv)
next
  case (step_yield r)
  with assms(2) show ?thesis by (blast intro: taskyield_inv)
next
  case (step_wake r t)
  then have "t \<notin> set rq" "taskrunning s \<noteq> Some t" using assms(2) by (auto simp: sched_inv_defs)
  with step_wake assms(2) show ?thesis by (metis taskready_inv)
next
  case (step_block r)
  with assms(2) show ?thesis by (blast intro: taskswitch_inv)
next
  case (step_exit r v)
  with assms(2) show ?thesis by (blast intro: taskexit_inv)
next
  case (step_system r)
  with assms(2) show ?thesis by (blast intro: tasksystem_inv)
next
  case (step_state r m)
  with assms(2) show ?thesis by (blast intro: taskstate_inv)
qed

lemma task_reachable_inv: "task_reachable s \<Longrightarrow> \<exists>rq. sched_inv s rq"
proof (induction rule: task_reachable.induct)
  case (reach_main fn t ok s)
  then obtain n where "taskcreate fn 0 (Some t) ok init_libtask = Return (n, s)"
    by (auto simp: main_start_def split: outcome.splits prod.splits)
  with init_libtask_inv show ?case
    by (metis taskcreate_inv(1) append_Nil empty_iff init_libtask_def libtask.select_convs(7,8)
        list.set(1) live_def take_Nil)
next
  case (reach_step s s')
  then show ?case using task_step_inv by blast
qed

section \<open>Round robin\<close>

text \<open>A turn in which the picked task does nothing but yield, and a run of such turns.\<close>

definition yield_turn :: "libtask \<Rightarrow> libtask outcome" where
  "yield_turn s =
     (case sched_pick s of
        Return s1 \<Rightarrow> Return (snd (taskyield s1))
      | Abort \<Rightarrow> Abort
      | Exit v \<Rightarrow> Exit v)"

fun yield_turns :: "nat \<Rightarrow> libtask \<Rightarrow> libtask outcome" where
  "yield_turns 0 s = Return s"
| "yield_turns (Suc n) s =
     (case yield_turn s of
        Return s1 \<Rightarrow> yield_turns n s1
      | Abort \<Rightarrow> Abort
      | Exit v \<Rightarrow> Exit v)"

lemma yield_turn_rotates:
  assumes inv: "sched_inv s (t # rq)" and idle: "taskrunning s = None" and tc: "taskcount s \<noteq> 0"
  obtains s' where "yield_turn s = Return s'" and "sched_inv s' (rq @ [t])"
    and "taskrunning s' = None" and "taskcount s' = taskcount s"
    and "tasknswitch s' = tasknswitch s + 1"
proof -
  from sched_pick_ready [OF inv _ tc] obtain s1 where p: "sched_pick s = Return s1" by auto
  from sched_pick_inv [OF inv idle p] have i1: "sched_inv s1 rq" "taskrunning s1 = Some t"
      "tasknswitch s1 = tasknswitch s + 1" by auto
  have "taskcount s1 = taskcount s"
    using p by (auto simp: sched_pick_def Let_def split: if_splits option.splits prod.splits)
  with p i1 taskyield_inv [OF i1(1,2)] that show thesis
    by (simp add: yield_turn_def)
qed

lemma yield_turns_rotate:
  assumes "sched_inv s rq" and "taskrunning s = None" and "taskcount s \<noteq> 0" and "rq \<noteq> []"
  shows "\<exists>s'. yield_turns n s = Return s' \<and> sched_inv s' (rotate n rq) \<and>
      taskrunning s' = None \<and> taskcount s' = taskcount s \<and> tasknswitch s' = tasknswitch s + int n"
  using assms
proof (induction n arbitrary: s rq)
  case 0
  then show ?case by simp
next
  case (Suc n)
  then obtain t ts where rq: "rq = t # ts" by (cases rq) auto
  with Suc.prems obtain s1 where s1: "yield_turn s = Return s1" "sched_inv s1 (ts @ [t])"
      "taskrunning s1 = None" "taskcount s1 = taskcount s" "tasknswitch s1 = tasknswitch s + 1"
    by (metis yield_turn_rotates)
  have rot: "rotate (Suc n) rq = rotate n (ts @ [t])" by (simp add: rq rotate1_rotate_swap rotate_Suc)
  from Suc.IH [OF s1(2,3)] s1 Suc.prems(3) show ?case
    by (auto simp: rot simp del: rotate_Suc)
qed

section \<open>Properties\<close>

text \<open>
  C1: the scheduler's data is consistent in every state a program can reach: the task array has no
  duplicates and every task's slot is its index, the run queue is a well-formed list of exactly the
  ready tasks, \<^verbatim>\<open>taskcount\<close> counts the tasks the scheduler waits for, and the running task is live
  and not queued.
\<close>

theorem scheduler_consistent:
  assumes "task_reachable s"
  shows "\<exists>rq. alltask_inv s \<and> runq_inv s rq \<and> count_inv s \<and> running_inv s rq"
  using task_reachable_inv [OF assms] by (simp add: sched_inv_def)

theorem scheduler_consistent_witness:
  "\<exists>s rq. main_start 7 (Some 100) True = Return s \<and> alltask_inv s \<and> runq_inv s rq \<and>
     count_inv s \<and> running_inv s rq"
proof -
  obtain s where m: "main_start 7 (Some 100) True = Return s"
    by (simp add: main_start_def taskcreate_def taskalloc_def init_libtask_def Let_def)
  then have "task_reachable s" by (rule reach_main)
  from scheduler_consistent [OF this] m show ?thesis by blast
qed

text \<open>
  C2: scheduling is round robin: if every task only yields, then after \<open>n\<close> turns the scheduler
  picks the task that was at position \<open>n mod length\<close> of the run queue, so each of the \<open>k\<close> ready
  tasks runs once in any \<open>k\<close> consecutive turns and none starves.
\<close>

theorem scheduler_round_robin:
  assumes "sched_inv s rq" and "taskrunning s = None" and "taskcount s \<noteq> 0" and "rq \<noteq> []"
  shows "\<exists>s' s''. yield_turns n s = Return s' \<and> sched_pick s' = Return s'' \<and>
      taskrunning s'' = Some (rq ! (n mod length rq)) \<and>
      tasknswitch s'' = tasknswitch s + int n + 1"
proof -
  from yield_turns_rotate [OF assms, of n] obtain s' where s': "yield_turns n s = Return s'"
      "sched_inv s' (rotate n rq)" "taskrunning s' = None" "taskcount s' = taskcount s"
      "tasknswitch s' = tasknswitch s + int n" by blast
  with assms obtain s'' where p: "sched_pick s' = Return s''"
    by (metis rotate_is_Nil_conv sched_pick_ready)
  from sched_pick_inv [OF s'(2,3) p] obtain t rs where "rotate n rq = t # rs"
      "taskrunning s'' = Some t" "tasknswitch s'' = tasknswitch s' + 1" by metis
  moreover have "hd (rotate n rq) = rq ! (n mod length rq)"
    using assms(4) by (simp add: hd_rotate_conv_nth)
  ultimately show ?thesis using s' p by auto
qed

definition two_tasks :: libtask where
  "two_tasks = (case main_start 1 (Some 10) True of
     Return s \<Rightarrow> (case taskcreate 2 0 (Some 20) True s of Return (_, s') \<Rightarrow> s' | _ \<Rightarrow> s)
   | _ \<Rightarrow> init_libtask)"

lemma two_tasks_inv: "sched_inv two_tasks [10, 20]"
proof -
  obtain n1 s1 where c1: "taskcreate 1 0 (Some 10) True init_libtask = Return (n1, s1)"
    by (simp add: taskcreate_def taskalloc_def init_libtask_def Let_def)
  note i1 = taskcreate_inv [OF init_libtask_inv c1]
  have live0: "live init_libtask = []" by (simp add: live_def init_libtask_def)
  obtain n2 s2 where c2: "taskcreate 2 0 (Some 20) True s1 = Return (n2, s2)"
    by (simp add: taskcreate_def taskalloc_def Let_def)
  have "sched_inv s1 [10]" and "live s1 = [10]" using i1 live0 by simp_all
  from taskcreate_inv [OF this(1) c2] this(2) have "sched_inv s2 [10, 20]" by simp
  moreover have "two_tasks = s2" using c1 c2 by (simp add: two_tasks_def main_start_def)
  ultimately show ?thesis by simp
qed

lemma two_tasks_ready: "taskrunning two_tasks = None" "taskcount two_tasks = 2"
  by (simp_all add: two_tasks_def main_start_def taskcreate_def taskalloc_def init_libtask_def
      Let_def taskready_simps)

theorem scheduler_round_robin_witness:
  "\<exists>s' s''. yield_turns 5 two_tasks = Return s' \<and> sched_pick s' = Return s'' \<and>
     taskrunning s'' = Some 20 \<and> tasknswitch s'' = tasknswitch two_tasks + 6"
proof -
  have "5 mod Suc (Suc 0) = (1 :: nat)" by presburger
  then show ?thesis
    using scheduler_round_robin [OF two_tasks_inv two_tasks_ready(1), of 5] two_tasks_ready(2)
    by (simp add: add.commute)
qed

text \<open>
  \<^verbatim>\<open>taskyield\<close> returns the number of other tasks that ran while the caller waited: when the
  other ready tasks \<open>rq\<close> all yield in turn and the caller is picked again, the result is
  \<open>length rq\<close>; in particular 0 means nobody else is trying to run (the test \<^verbatim>\<open>fdtask\<close> relies on).
\<close>

theorem taskyield_counts_others:
  assumes "sched_inv s rq" and "taskrunning s = Some t" and "taskcount s \<noteq> 0"
  shows "\<exists>s1 s2. yield_turns (length rq) (snd (taskyield s)) = Return s1 \<and>
      sched_pick s1 = Return s2 \<and> taskrunning s2 = Some t \<and>
      taskyield_result (fst (taskyield s)) s2 = int (length rq)"
proof -
  note y = taskyield_inv [OF assms(1,2)]
  from yield_turns_rotate [OF y(2,3), of "length rq"] assms(3) y(6) obtain s1 where
    s1: "yield_turns (length rq) (snd (taskyield s)) = Return s1"
      "sched_inv s1 (rotate (length rq) (rq @ [t]))" "taskrunning s1 = None" "taskcount s1 \<noteq> 0"
      "tasknswitch s1 = tasknswitch s + int (length rq)" using y(4) by auto
  have "rotate (length rq) (rq @ [t]) = t # rq" by (simp add: rotate_append)
  with s1 obtain s2 where p: "sched_pick s1 = Return s2" and i: "sched_inv s1 (t # rq)"
    by (metis list.distinct(1) sched_pick_ready)
  from sched_pick_inv [OF i s1(3) p] have "taskrunning s2 = Some t"
      "tasknswitch s2 = tasknswitch s1 + 1" by auto
  with s1 p y(1) show ?thesis by (simp add: taskyield_result_def)
qed

definition two_tasks_running :: libtask where
  "two_tasks_running = (case sched_pick two_tasks of Return s \<Rightarrow> s | _ \<Rightarrow> two_tasks)"

lemma two_tasks_running_inv:
  "sched_inv two_tasks_running [20]" "taskrunning two_tasks_running = Some 10"
  "taskcount two_tasks_running = 2"
proof -
  from sched_pick_ready [OF two_tasks_inv] two_tasks_ready obtain s where
    p: "sched_pick two_tasks = Return s" by auto
  then have eq: "two_tasks_running = s" by (simp add: two_tasks_running_def)
  from sched_pick_inv [OF two_tasks_inv two_tasks_ready(1) p]
  show "sched_inv two_tasks_running [20]" "taskrunning two_tasks_running = Some 10"
    by (auto simp: eq)
  show "taskcount two_tasks_running = 2"
    using p two_tasks_ready
    by (auto simp: eq sched_pick_def Let_def split: if_splits option.splits prod.splits)
qed

theorem taskyield_counts_others_witness:
  "\<exists>s1 s2. yield_turns 1 (snd (taskyield two_tasks_running)) = Return s1 \<and>
      sched_pick s1 = Return s2 \<and> taskrunning s2 = Some 10 \<and>
      taskyield_result (fst (taskyield two_tasks_running)) s2 = 1"
  using taskyield_counts_others [OF two_tasks_running_inv(1,2)] two_tasks_running_inv(3) by simp

end
