(* ===== verification/Channel.thy ===== *)
theory Channel
  imports Task_Sched
begin

text \<open>
  The channels of src/src/common/task/channel.c: a ring buffer of fixed size elements per
  channel, arrays of the alts that wait to send and to receive, and \<^verbatim>\<open>chanalt\<close>, which performs one
  of several channel operations or queues all of them and blocks.  Buffers are modelled at the level
  of bytes, alts by their addresses (array, index), \<^verbatim>\<open>rand()\<close> by an arbitrary function of the number
  of draws, so every theorem holds for every outcome of the random choices.
\<close>

section \<open>Data\<close>

type_synonym cptr = nat
type_synonym aptr = "nat \<times> nat"
type_synonym vptr = nat
type_synonym vmem = "vptr \<Rightarrow> byte list"

datatype chanop = CHANEND | CHANSND | CHANRCV | CHANNOP | CHANNOBLK

record alt =
  alt_c :: cptr
  alt_v :: "vptr option"
  alt_op :: chanop
  alt_task :: tptr
  alt_xalt :: aptr

text \<open>The array \<^verbatim>\<open>a[0..n)\<close> of an \<^verbatim>\<open>Altarray\<close> and its capacity \<^verbatim>\<open>m\<close>.\<close>

record altarray =
  aa :: "aptr list"
  am :: nat

record channel =
  bufsize :: nat
  elemsize :: nat
  buf :: "byte list"
  nbuf :: nat
  off :: nat
  asend :: altarray
  arecv :: altarray

record chanstate =
  lib :: libtask
  chans :: "cptr \<Rightarrow> channel"
  alts :: "nat \<Rightarrow> alt list"
  mem :: vmem
  draws :: nat

section \<open>Arrays of alts\<close>

definition empty_altarray :: altarray where
  "empty_altarray = \<lparr>aa = [], am = 0\<rparr>"

text \<open>
  \<^verbatim>\<open>chancreate\<close>: the header is zeroed, the buffer holds whatever \<^verbatim>\<open>malloc\<close> returned (\<open>junk\<close>);
  the process exits when \<^verbatim>\<open>malloc\<close> fails.
\<close>

definition chancreate :: "nat \<Rightarrow> nat \<Rightarrow> byte list option \<Rightarrow> channel outcome" where
  "chancreate esz bsz m =
     (case m of
        None \<Rightarrow> Exit 1
      | Some junk \<Rightarrow> Return \<lparr>bufsize = bsz, elemsize = esz, buf = junk, nbuf = 0, off = 0,
          asend = empty_altarray, arecv = empty_altarray\<rparr>)"

definition addarray :: "altarray \<Rightarrow> aptr \<Rightarrow> altarray" where
  "addarray a p =
     (let a1 = (if length (aa a) = am a then a\<lparr>am := am a + 16\<rparr> else a)
      in a1\<lparr>aa := aa a1 @ [p]\<rparr>)"

definition delarray :: "altarray \<Rightarrow> nat \<Rightarrow> altarray" where
  "delarray a i = a\<lparr>aa := swap_remove (aa a) i\<rparr>"

text \<open>
  \<^verbatim>\<open>CHANSND+CHANRCV-op\<close>: the two directions swap; the other values give no array in
  \<^verbatim>\<open>chanarray\<close>.
\<close>

fun otherop :: "chanop \<Rightarrow> chanop" where
  "otherop CHANSND = CHANRCV"
| "otherop CHANRCV = CHANSND"
| "otherop CHANEND = CHANNOP"
| "otherop CHANNOP = CHANEND"
| "otherop CHANNOBLK = CHANNOBLK"

fun chanarray :: "channel \<Rightarrow> chanop \<Rightarrow> altarray option" where
  "chanarray c CHANSND = Some (asend c)"
| "chanarray c CHANRCV = Some (arecv c)"
| "chanarray c _ = None"

fun set_chanarray :: "chanop \<Rightarrow> altarray \<Rightarrow> channel \<Rightarrow> channel" where
  "set_chanarray CHANSND a c = c\<lparr>asend := a\<rparr>"
| "set_chanarray CHANRCV a c = c\<lparr>arecv := a\<rparr>"
| "set_chanarray _ a c = c"

definition alt_at :: "chanstate \<Rightarrow> aptr \<Rightarrow> alt" where
  "alt_at s p = alts s (fst p) ! snd p"

definition upd_chan :: "cptr \<Rightarrow> channel \<Rightarrow> chanstate \<Rightarrow> chanstate" where
  "upd_chan c ch s = s\<lparr>chans := (chans s)(c := ch)\<rparr>"

definition altcanexec :: "chanstate \<Rightarrow> alt \<Rightarrow> bool" where
  "altcanexec s a =
     (if alt_op a = CHANNOP then False
      else
        let c = chans s (alt_c a)
        in if bufsize c = 0 then
             (case chanarray c (otherop (alt_op a)) of None \<Rightarrow> False | Some ar \<Rightarrow> aa ar \<noteq> [])
           else
             (case alt_op a of
                CHANSND \<Rightarrow> nbuf c < bufsize c
              | CHANRCV \<Rightarrow> 0 < nbuf c
              | _ \<Rightarrow> False))"

definition altqueue :: "aptr \<Rightarrow> chanstate \<Rightarrow> chanstate outcome" where
  "altqueue p s =
     (let a = alt_at s p; c = chans s (alt_c a)
      in case chanarray c (alt_op a) of
           None \<Rightarrow> Abort
         | Some ar \<Rightarrow> Return (upd_chan (alt_c a) (set_chanarray (alt_op a) (addarray ar p) c) s))"

text \<open>Position of the first occurrence.\<close>

fun find_index :: "'a \<Rightarrow> 'a list \<Rightarrow> nat option" where
  "find_index x [] = None"
| "find_index x (y # ys) = (if x = y then Some 0 else map_option Suc (find_index x ys))"

definition altdequeue :: "aptr \<Rightarrow> chanstate \<Rightarrow> chanstate outcome" where
  "altdequeue p s =
     (let a = alt_at s p; c = chans s (alt_c a)
      in case chanarray c (alt_op a) of
           None \<Rightarrow> Abort
         | Some ar \<Rightarrow>
             (case find_index p (aa ar) of
                None \<Rightarrow> Abort
              | Some i \<Rightarrow>
                  Return (upd_chan (alt_c a) (set_chanarray (alt_op a) (delarray ar i) c) s)))"

text \<open>Running an operation on each of a list of alts, stopping at the first abort.\<close>

fun each_alt :: "(aptr \<Rightarrow> chanstate \<Rightarrow> chanstate outcome) \<Rightarrow> aptr list \<Rightarrow> chanstate \<Rightarrow>
    chanstate outcome" where
  "each_alt f [] s = Return s"
| "each_alt f (p # ps) s =
     (case f p s of Return s' \<Rightarrow> each_alt f ps s' | Abort \<Rightarrow> Abort | Exit v \<Rightarrow> Exit v)"

text \<open>
  The alts in front of the terminator of an array, and those of them that take part
  (\<^verbatim>\<open>op != CHANNOP\<close>).
\<close>

definition terminator :: "alt \<Rightarrow> bool" where
  "terminator a \<longleftrightarrow> alt_op a = CHANEND \<or> alt_op a = CHANNOBLK"

definition alt_n :: "chanstate \<Rightarrow> nat \<Rightarrow> nat" where
  "alt_n s b = length (takeWhile (\<lambda>a. \<not> terminator a) (alts s b))"

definition active_alts :: "chanstate \<Rightarrow> nat \<Rightarrow> aptr list" where
  "active_alts s b =
     map (\<lambda>i. (b, i)) (filter (\<lambda>i. alt_op (alts s b ! i) \<noteq> CHANNOP) [0..<alt_n s b])"

definition altalldequeue :: "aptr \<Rightarrow> chanstate \<Rightarrow> chanstate outcome" where
  "altalldequeue a s = each_alt altdequeue (active_alts s (fst a)) s"

section \<open>Moving the data\<close>

definition amove_src :: "vptr option \<Rightarrow> nat \<Rightarrow> vmem \<Rightarrow> byte list" where
  "amove_src src n m = (case src of None \<Rightarrow> replicate n 0 | Some v \<Rightarrow> read_block 0 n (m v))"

definition amove_dst :: "vptr option \<Rightarrow> byte list \<Rightarrow> vmem \<Rightarrow> vmem" where
  "amove_dst dst bs m =
     (case dst of None \<Rightarrow> m | Some v \<Rightarrow> m(v := write_block 0 bs (m v)))"

text \<open>\<^verbatim>\<open>unsigned int\<close> decrement and increment.\<close>

definition dec32 :: "nat \<Rightarrow> nat" where
  "dec32 n = (n + 2 ^ 32 - 1) mod 2 ^ 32"

definition inc32 :: "nat \<Rightarrow> nat" where
  "inc32 n = (n + 1) mod 2 ^ 32"

definition chan_take :: "channel \<Rightarrow> channel" where
  "chan_take c =
     (let c1 = c\<lparr>nbuf := dec32 (nbuf c), off := inc32 (off c)\<rparr>
      in if off c1 = bufsize c1 then c1\<lparr>off := 0\<rparr> else c1)"

definition chan_put :: "byte list \<Rightarrow> channel \<Rightarrow> channel" where
  "chan_put bs c =
     c\<lparr>buf := write_block ((off c + nbuf c) mod bufsize c * elemsize c) bs (buf c),
       nbuf := inc32 (nbuf c)\<rparr>"

definition altcopy :: "aptr \<Rightarrow> aptr option \<Rightarrow> chanstate \<Rightarrow> chanstate outcome" where
  "altcopy p q s =
     (let c = alt_c (alt_at s p);
          (snd, rcv) = (if alt_op (alt_at s p) = CHANRCV then (q, Some p) else (Some p, q))
      in if (\<exists>x. snd = Some x \<and> alt_op (alt_at s x) \<noteq> CHANSND) \<or>
            (\<exists>x. rcv = Some x \<and> alt_op (alt_at s x) \<noteq> CHANRCV) then Abort
         else
           let ch = chans s c; n = elemsize ch
           in case (snd, rcv) of
                (Some a, Some r) \<Rightarrow>
                  (let src = alt_v (alt_at s a); dst = alt_v (alt_at s r)
                   in if nbuf ch = 0 then
                        Return (s\<lparr>mem := amove_dst dst (amove_src src n (mem s)) (mem s)\<rparr>)
                      else
                        let m1 = amove_dst dst (read_block (off ch * n) n (buf ch)) (mem s);
                            ch1 = chan_put (amove_src src n m1) (chan_take ch)
                        in Return (upd_chan c ch1 (s\<lparr>mem := m1\<rparr>)))
              | (None, Some r) \<Rightarrow>
                  Return (upd_chan c (chan_take ch)
                    (s\<lparr>mem := amove_dst (alt_v (alt_at s r))
                                 (read_block (off ch * n) n (buf ch)) (mem s)\<rparr>))
              | (Some a, None) \<Rightarrow>
                  Return (upd_chan c (chan_put (amove_src (alt_v (alt_at s a)) n (mem s)) ch) s)
              | (None, None) \<Rightarrow> Return s)"

section \<open>Executing and waiting\<close>

definition set_xalt :: "aptr \<Rightarrow> aptr \<Rightarrow> chanstate \<Rightarrow> chanstate" where
  "set_xalt p x s =
     s\<lparr>alts := (alts s)(fst p := (alts s (fst p))[snd p := (alt_at s p)\<lparr>alt_xalt := x\<rparr>])\<rparr>"

text \<open>\<open>rnd k\<close> is the value of the \<open>k\<close>-th call of \<^verbatim>\<open>rand()\<close>.\<close>

definition altexec :: "(nat \<Rightarrow> nat) \<Rightarrow> aptr \<Rightarrow> chanstate \<Rightarrow> chanstate outcome" where
  "altexec rnd p s =
     (let a = alt_at s p; c = chans s (alt_c a)
      in case chanarray c (otherop (alt_op a)) of
           None \<Rightarrow> altcopy p None s
         | Some ar \<Rightarrow>
             if aa ar = [] then altcopy p None s
             else
               let i = rnd (draws s) mod length (aa ar);
                   other = aa ar ! i
               in case altcopy p (Some other) (s\<lparr>draws := draws s + 1\<rparr>) of
                    Return s1 \<Rightarrow>
                      (let x = alt_xalt (alt_at s1 other)
                       in case altalldequeue x s1 of
                            Return s2 \<Rightarrow>
                              (let s3 = set_xalt x other s2
                               in Return (s3\<lparr>lib := taskready (alt_task (alt_at s3 other)) (lib s3)\<rparr>))
                          | Abort \<Rightarrow> Abort
                          | Exit v \<Rightarrow> Exit v)
                  | Abort \<Rightarrow> Abort
                  | Exit v \<Rightarrow> Exit v)"

text \<open>The outcome of \<^verbatim>\<open>chanalt\<close>: it returned an index (or -1), or the task is blocked.\<close>

datatype alt_result = AltDone int | AltBlocked

definition alt_prepare :: "tptr \<Rightarrow> nat \<Rightarrow> chanstate \<Rightarrow> chanstate" where
  "alt_prepare t b s =
     s\<lparr>alts := (alts s)(b := map (\<lambda>a. a\<lparr>alt_task := t, alt_xalt := (b, 0)\<rparr>)
                             (take (alt_n s b) (alts s b)) @ drop (alt_n s b) (alts s b))\<rparr>"

definition chanalt ::
    "(nat \<Rightarrow> nat) \<Rightarrow> nat \<Rightarrow> chanstate \<Rightarrow> (alt_result \<times> chanstate) outcome" where
  "chanalt rnd b s =
     (case taskrunning (lib s) of
        None \<Rightarrow> Abort
      | Some t \<Rightarrow>
          (let n = alt_n s b;
               canblock = (alt_op (alts s b ! n) = CHANEND);
               s1 = alt_prepare t b s;
               can = filter (\<lambda>i. altcanexec s1 (alts s1 b ! i)) [0..<n]
           in if can \<noteq> [] then
                let i = can ! (rnd (draws s1) mod length can)
                in (case altexec rnd (b, i) (s1\<lparr>draws := draws s1 + 1\<rparr>) of
                      Return s2 \<Rightarrow> Return (AltDone (int i), s2)
                    | Abort \<Rightarrow> Abort
                    | Exit v \<Rightarrow> Exit v)
              else if \<not> canblock then Return (AltDone (-1), s1)
              else
                (case each_alt altqueue (active_alts s1 b) s1 of
                   Return s2 \<Rightarrow> Return (AltBlocked, s2\<lparr>lib := taskswitch (lib s2)\<rparr>)
                 | Abort \<Rightarrow> Abort
                 | Exit v \<Rightarrow> Exit v)))"

text \<open>What \<^verbatim>\<open>chanalt\<close> returns once the blocked task runs again: \<^verbatim>\<open>a[0].xalt - a\<close>.\<close>

definition chanalt_resume :: "nat \<Rightarrow> chanstate \<Rightarrow> int" where
  "chanalt_resume b s = int (snd (alt_xalt (alts s b ! 0)))"

section \<open>Single operations\<close>

text \<open>
  \<^verbatim>\<open>_chanop\<close> builds a two-element array in its stack frame (address \<open>b\<close>); its result is 1, or -1
  when it may not block and cannot proceed.
\<close>

definition chanop_alts :: "cptr \<Rightarrow> chanop \<Rightarrow> vptr option \<Rightarrow> bool \<Rightarrow> alt list" where
  "chanop_alts c op v canblock =
     [\<lparr>alt_c = c, alt_v = v, alt_op = op, alt_task = 0, alt_xalt = (0, 0)\<rparr>,
      \<lparr>alt_c = 0, alt_v = None, alt_op = (if canblock then CHANEND else CHANNOBLK), alt_task = 0,
       alt_xalt = (0, 0)\<rparr>]"

definition do_chanop ::
    "(nat \<Rightarrow> nat) \<Rightarrow> nat \<Rightarrow> cptr \<Rightarrow> chanop \<Rightarrow> vptr option \<Rightarrow> bool \<Rightarrow> chanstate \<Rightarrow>
     (alt_result \<times> chanstate) outcome" where
  "do_chanop rnd b c op v canblock s =
     (case chanalt rnd b (s\<lparr>alts := (alts s)(b := chanop_alts c op v canblock)\<rparr>) of
        Return (AltDone r, s') \<Rightarrow> Return (AltDone (if r < 0 then -1 else 1), s')
      | Return (AltBlocked, s') \<Rightarrow> Return (AltBlocked, s')
      | Abort \<Rightarrow> Abort
      | Exit v \<Rightarrow> Exit v)"

definition chanop_resume :: "nat \<Rightarrow> chanstate \<Rightarrow> int" where
  "chanop_resume b s = (if chanalt_resume b s < 0 then -1 else 1)"

definition chansend where "chansend rnd b c v s = do_chanop rnd b c CHANSND (Some v) True s"
definition channbsend where "channbsend rnd b c v s = do_chanop rnd b c CHANSND (Some v) False s"
definition chanrecv where "chanrecv rnd b c v s = do_chanop rnd b c CHANRCV (Some v) True s"
definition channbrecv where "channbrecv rnd b c v s = do_chanop rnd b c CHANRCV (Some v) False s"

text \<open>
  The variants that send a pointer or an unsigned long pass the address of their own argument: a
  cell \<open>v\<close> of the frame that first receives the value.
\<close>

definition chansend_val where
  "chansend_val rnd b c v (x :: byte list) s = chansend rnd b c v (s\<lparr>mem := (mem s)(v := x)\<rparr>)"
definition channbsend_val where
  "channbsend_val rnd b c v (x :: byte list) s = channbsend rnd b c v (s\<lparr>mem := (mem s)(v := x)\<rparr>)"

text \<open>
  The receiving variants return the cell \<open>v\<close> of their frame; the non-blocking ones return it even
  when nothing was received, so it keeps the indeterminate bytes it had.
\<close>

definition chanrecv_val :: "vptr \<Rightarrow> chanstate \<Rightarrow> byte list" where
  "chanrecv_val v s = mem s v"

definition channbrecv_val ::
    "(nat \<Rightarrow> nat) \<Rightarrow> nat \<Rightarrow> cptr \<Rightarrow> vptr \<Rightarrow> chanstate \<Rightarrow> (byte list \<times> chanstate) outcome" where
  "channbrecv_val rnd b c v s =
     (case channbrecv rnd b c v s of
        Return (r, s') \<Rightarrow> Return (chanrecv_val v s', s')
      | Abort \<Rightarrow> Abort
      | Exit e \<Rightarrow> Exit e)"

section \<open>Waiting alts\<close>

text \<open>The alts queued at a channel for an operation.\<close>

definition wq :: "chanstate \<Rightarrow> cptr \<Rightarrow> chanop \<Rightarrow> aptr list" where
  "wq s c op = (case chanarray (chans s c) op of None \<Rightarrow> [] | Some ar \<Rightarrow> aa ar)"

text \<open>A channel without its arrays, and a state whose arrays alone may differ.\<close>

definition ring :: "channel \<Rightarrow> nat \<times> nat \<times> byte list \<times> nat \<times> nat" where
  "ring c = (bufsize c, elemsize c, buf c, nbuf c, off c)"

definition same_core :: "chanstate \<Rightarrow> chanstate \<Rightarrow> bool" where
  "same_core s s' \<longleftrightarrow> lib s' = lib s \<and> alts s' = alts s \<and> mem s' = mem s \<and> draws s' = draws s \<and>
     (\<forall>c. ring (chans s' c) = ring (chans s c))"

definition distinct_queues :: "chanstate \<Rightarrow> bool" where
  "distinct_queues s \<longleftrightarrow> (\<forall>c op. distinct (wq s c op))"

text \<open>The place an alt waits at, and the alts of an array that wait at a given place.\<close>

definition place :: "chanstate \<Rightarrow> aptr \<Rightarrow> cptr \<times> chanop" where
  "place s p = (alt_c (alt_at s p), alt_op (alt_at s p))"

lemma same_core_refl [simp]: "same_core s s"
  by (simp add: same_core_def)

lemma same_core_trans: "same_core s s' \<Longrightarrow> same_core s' s'' \<Longrightarrow> same_core s s''"
  by (simp add: same_core_def)

lemma same_core_simps:
  assumes "same_core s s'"
  shows "lib s' = lib s" "alts s' = alts s" "mem s' = mem s" "draws s' = draws s"
    "bufsize (chans s' c) = bufsize (chans s c)" "elemsize (chans s' c) = elemsize (chans s c)"
    "buf (chans s' c) = buf (chans s c)" "nbuf (chans s' c) = nbuf (chans s c)"
    "off (chans s' c) = off (chans s c)" "alt_at s' p = alt_at s p" "place s' p = place s p"
    "alt_n s' b = alt_n s b" "active_alts s' b = active_alts s b"
  using assms by (auto simp: same_core_def ring_def alt_at_def place_def alt_n_def active_alts_def)

lemma active_altsD:
  assumes "p \<in> set (active_alts s b)"
  shows "fst p = b" and "snd p < alt_n s b"
    and "alt_op (alt_at s p) = CHANSND \<or> alt_op (alt_at s p) = CHANRCV"
proof -
  from assms obtain i where p: "p = (b, i)" and i: "i < alt_n s b"
    and op: "alt_op (alts s b ! i) \<noteq> CHANNOP"
    by (auto simp: active_alts_def)
  show "fst p = b" "snd p < alt_n s b" using p i by simp_all
  have "\<not> terminator (alts s b ! i)"
    using i unfolding alt_n_def
    by (metis (mono_tags, lifting) nth_mem set_takeWhileD takeWhile_nth)
  with op p show "alt_op (alt_at s p) = CHANSND \<or> alt_op (alt_at s p) = CHANRCV"
    by (cases "alt_op (alts s b ! i)") (auto simp: terminator_def alt_at_def)
qed

lemma active_altsI:
  "fst p = b \<Longrightarrow> snd p < alt_n s b \<Longrightarrow> alt_op (alt_at s p) \<noteq> CHANNOP \<Longrightarrow>
   p \<in> set (active_alts s b)"
  by (cases p) (auto simp: active_alts_def alt_at_def)

lemma distinct_active [simp]: "distinct (active_alts s b)"
  by (auto simp: active_alts_def distinct_map inj_on_def)

lemma find_index_Some:
  "x \<in> set xs \<Longrightarrow> \<exists>i. find_index x xs = Some i \<and> i < length xs \<and> xs ! i = x"
  by (induction xs) auto

lemma wq_set_chanarray:
  assumes "op = CHANSND \<or> op = CHANRCV"
  shows "wq (upd_chan c (set_chanarray op ar (chans s c)) s) c' op' =
    (if c' = c \<and> op' = op then aa ar else wq s c' op')"
  using assms by (cases op; cases op') (auto simp: wq_def upd_chan_def)

lemma set_chanarray_core: "same_core s (upd_chan c (set_chanarray op ar (chans s c)) s)"
  by (cases op) (auto simp: same_core_def upd_chan_def ring_def)

lemma aa_addarray: "aa (addarray ar p) = aa ar @ [p]"
  by (simp add: addarray_def Let_def)

lemma aa_delarray: "aa (delarray ar i) = swap_remove (aa ar) i"
  by (simp add: delarray_def)

lemma altqueue_spec:
  assumes "place s p = (c, op)" and op: "op = CHANSND \<or> op = CHANRCV"
    and "p \<notin> set (wq s c op)" and "distinct_queues s"
  shows "\<exists>s'. altqueue p s = Return s' \<and> same_core s s' \<and> distinct_queues s' \<and>
      (\<forall>c' op'. set (wq s' c' op') = set (wq s c' op') \<union> (if (c', op') = (c, op) then {p} else {}))"
proof -
  from op obtain ar where ar: "chanarray (chans s c) op = Some ar" by auto
  with assms(1) have "altqueue p s =
      Return (upd_chan c (set_chanarray op (addarray ar p) (chans s c)) s)"
    by (auto simp: altqueue_def place_def)
  moreover have "aa ar = wq s c op" using ar by (simp add: wq_def)
  ultimately show ?thesis
    using assms set_chanarray_core [of s c op "addarray ar p"]
    by (auto simp: wq_set_chanarray distinct_queues_def aa_addarray)
qed

lemma altdequeue_spec:
  assumes "place s p = (c, op)" and op: "op = CHANSND \<or> op = CHANRCV"
    and "p \<in> set (wq s c op)" and "distinct_queues s"
  shows "\<exists>s'. altdequeue p s = Return s' \<and> same_core s s' \<and> distinct_queues s' \<and>
      (\<forall>c' op'. set (wq s' c' op') = set (wq s c' op') - (if (c', op') = (c, op) then {p} else {}))"
proof -
  from op obtain ar where ar: "chanarray (chans s c) op = Some ar" by auto
  have q: "aa ar = wq s c op" using ar by (simp add: wq_def)
  with assms(3) obtain i where i: "find_index p (aa ar) = Some i" "i < length (aa ar)" "aa ar ! i = p"
    using find_index_Some by metis
  with ar assms(1) have "altdequeue p s =
      Return (upd_chan c (set_chanarray op (delarray ar i) (chans s c)) s)"
    by (auto simp: altdequeue_def place_def)
  moreover have "distinct (aa ar)" using assms(4) q by (simp add: distinct_queues_def)
  ultimately show ?thesis
    using assms op q i set_chanarray_core [of s c op "delarray ar i"]
    by (auto simp: wq_set_chanarray distinct_queues_def aa_delarray set_swap_remove
        distinct_swap_remove)
qed

text \<open>The alts of \<open>ps\<close> whose place is \<open>(c, op)\<close>.\<close>

definition at_place :: "chanstate \<Rightarrow> aptr set \<Rightarrow> cptr \<Rightarrow> chanop \<Rightarrow> aptr set" where
  "at_place s P c op = {p \<in> P. place s p = (c, op)}"

lemma each_altqueue:
  assumes "distinct ps" and "distinct_queues s"
    and "\<forall>p \<in> set ps. snd (place s p) \<in> {CHANSND, CHANRCV} \<and> (\<forall>c op. p \<notin> set (wq s c op))"
  shows "\<exists>s'. each_alt altqueue ps s = Return s' \<and> same_core s s' \<and> distinct_queues s' \<and>
      (\<forall>c op. set (wq s' c op) = set (wq s c op) \<union> at_place s (set ps) c op)"
  using assms
proof (induction ps arbitrary: s)
  case Nil
  then show ?case by (simp add: at_place_def)
next
  case (Cons p ps)
  obtain c op where pl: "place s p = (c, op)" by fastforce
  with Cons.prems have "op = CHANSND \<or> op = CHANRCV" "p \<notin> set (wq s c op)" by auto
  from altqueue_spec [OF pl this Cons.prems(2)] obtain s1 where
    s1: "altqueue p s = Return s1" "same_core s s1" "distinct_queues s1"
    and w: "\<And>c' op'. set (wq s1 c' op') =
        set (wq s c' op') \<union> (if (c', op') = (c, op) then {p} else {})" by blast
  have "\<forall>q \<in> set ps. snd (place s1 q) \<in> {CHANSND, CHANRCV} \<and> (\<forall>c op. q \<notin> set (wq s1 c op))"
    using Cons.prems(1,3) w same_core_simps(11) [OF s1(2)] by auto
  from Cons.IH [OF _ s1(3) this] Cons.prems(1) obtain s2 where
    s2: "each_alt altqueue ps s1 = Return s2" "same_core s1 s2" "distinct_queues s2"
    and w2: "\<And>c op. set (wq s2 c op) = set (wq s1 c op) \<union> at_place s1 (set ps) c op" by auto
  have "\<And>c' op'. set (wq s2 c' op') = set (wq s c' op') \<union> at_place s (set (p # ps)) c' op'"
    unfolding w2 w using pl same_core_simps(11) [OF s1(2)] by (auto simp: at_place_def)
  with s1 s2 show ?case by (auto intro: same_core_trans)
qed

lemma each_altdequeue:
  assumes "distinct ps" and "distinct_queues s"
    and "\<forall>p \<in> set ps. snd (place s p) \<in> {CHANSND, CHANRCV} \<and>
           p \<in> set (wq s (fst (place s p)) (snd (place s p)))"
  shows "\<exists>s'. each_alt altdequeue ps s = Return s' \<and> same_core s s' \<and> distinct_queues s' \<and>
      (\<forall>c op. set (wq s' c op) = set (wq s c op) - at_place s (set ps) c op)"
  using assms
proof (induction ps arbitrary: s)
  case Nil
  then show ?case by (simp add: at_place_def)
next
  case (Cons p ps)
  obtain c op where pl: "place s p = (c, op)" by fastforce
  with Cons.prems have "op = CHANSND \<or> op = CHANRCV" "p \<in> set (wq s c op)" by auto
  from altdequeue_spec [OF pl this Cons.prems(2)] obtain s1 where
    s1: "altdequeue p s = Return s1" "same_core s s1" "distinct_queues s1"
    and w: "\<And>c' op'. set (wq s1 c' op') =
        set (wq s c' op') - (if (c', op') = (c, op) then {p} else {})" by blast
  have "\<forall>q \<in> set ps. snd (place s1 q) \<in> {CHANSND, CHANRCV} \<and>
           q \<in> set (wq s1 (fst (place s1 q)) (snd (place s1 q)))"
    using Cons.prems(1,3) w same_core_simps(11) [OF s1(2)] by auto
  from Cons.IH [OF _ s1(3) this] Cons.prems(1) obtain s2 where
    s2: "each_alt altdequeue ps s1 = Return s2" "same_core s1 s2" "distinct_queues s2"
    and w2: "\<And>c op. set (wq s2 c op) = set (wq s1 c op) - at_place s1 (set ps) c op" by auto
  have "\<And>c' op'. set (wq s2 c' op') = set (wq s c' op') - at_place s (set (p # ps)) c' op'"
    unfolding w2 w using pl same_core_simps(11) [OF s1(2)] by (auto simp: at_place_def)
  with s1 s2 show ?case by (auto intro: same_core_trans)
qed

section \<open>The ring buffer as a queue of elements\<close>

definition chan_slot :: "channel \<Rightarrow> nat \<Rightarrow> byte list" where
  "chan_slot c j = read_block (j * elemsize c) (elemsize c) (buf c)"

definition contents :: "channel \<Rightarrow> byte list list" where
  "contents c = map (\<lambda>i. chan_slot c ((off c + i) mod bufsize c)) [0..<nbuf c]"

definition chan_wf :: "channel \<Rightarrow> bool" where
  "chan_wf c \<longleftrightarrow> length (buf c) = bufsize c * elemsize c \<and> nbuf c \<le> bufsize c \<and>
     (off c < bufsize c \<or> bufsize c = 0 \<and> off c = 0) \<and> bufsize c < 2 ^ 31"

lemma length_contents [simp]: "length (contents c) = nbuf c"
  by (simp add: contents_def)

lemma dec32_pos: "0 < n \<Longrightarrow> n \<le> 2 ^ 32 \<Longrightarrow> dec32 n = n - 1"
proof -
  assume "0 < n" and "n \<le> 2 ^ 32"
  then have "n + 2 ^ 32 - 1 = (n - 1) + 2 ^ 32" by simp
  then have "dec32 n = (n - 1) mod 2 ^ 32" unfolding dec32_def by (metis mod_add_self2)
  with \<open>0 < n\<close> \<open>n \<le> 2 ^ 32\<close> show ?thesis by simp
qed

lemma inc32_small: "n < 2 ^ 31 \<Longrightarrow> inc32 n = n + 1"
  by (simp add: inc32_def)

lemma chan_wf_create:
  "chancreate esz bsz (Some junk) = Return c \<Longrightarrow> length junk = bsz * esz \<Longrightarrow> bsz < 2 ^ 31 \<Longrightarrow>
   chan_wf c \<and> contents c = []"
  by (auto simp: chancreate_def chan_wf_def contents_def)

lemma chan_take_simps [simp]:
  "bufsize (chan_take c) = bufsize c" "elemsize (chan_take c) = elemsize c"
  "buf (chan_take c) = buf c" "asend (chan_take c) = asend c" "arecv (chan_take c) = arecv c"
  by (simp_all add: chan_take_def Let_def)

lemma chan_put_simps [simp]:
  "bufsize (chan_put bs c) = bufsize c" "elemsize (chan_put bs c) = elemsize c"
  "off (chan_put bs c) = off c" "asend (chan_put bs c) = asend c" "arecv (chan_put bs c) = arecv c"
  by (simp_all add: chan_put_def)

lemma chan_take_spec:
  assumes wf: "chan_wf c" and n: "0 < nbuf c"
  shows "chan_wf (chan_take c)" and "nbuf (chan_take c) = nbuf c - 1"
    and "contents c = chan_slot c (off c) # contents (chan_take c)"
proof -
  have b: "off c < bufsize c" "nbuf c \<le> bufsize c" "bufsize c < 2 ^ 31"
    using wf n by (auto simp: chan_wf_def)
  then have nb: "nbuf (chan_take c) = nbuf c - 1" and
    o: "off (chan_take c) = (off c + 1) mod bufsize c"
    using n by (auto simp: chan_take_def Let_def dec32_pos inc32_small)
  show "nbuf (chan_take c) = nbuf c - 1" by (rule nb)
  show "chan_wf (chan_take c)" using wf b n by (auto simp: chan_wf_def nb o)
  have "[0..<nbuf c] = 0 # map Suc [0..<nbuf c - 1]"
    using n by (simp add: upt_conv_Cons map_Suc_upt)
  moreover have "chan_slot (chan_take c) = chan_slot c" by (simp add: fun_eq_iff chan_slot_def)
  ultimately show "contents c = chan_slot c (off c) # contents (chan_take c)"
    using b by (simp add: contents_def nb o mod_add_left_eq)
qed

lemma ring_index_inj:
  fixes off b i j :: nat
  assumes "i < b" and "j < b" and "(off + i) mod b = (off + j) mod b"
  shows "i = j"
proof (rule ccontr)
  assume "i \<noteq> j"
  have "(off + i) mod b = (off + j) mod b \<Longrightarrow> i < j \<Longrightarrow> j < b \<Longrightarrow> False" for i j
  proof -
    assume e: "(off + i) mod b = (off + j) mod b" and l: "i < j" "j < b"
    then have "b dvd (off + j) - (off + i)" by (metis mod_eq_dvd_iff_nat nat_add_left_cancel_le less_imp_le)
    then have "b dvd j - i" by simp
    with l show False by (auto dest: dvd_imp_le)
  qed
  with assms \<open>i \<noteq> j\<close> show False by (metis nat_neq_iff)
qed

lemma chan_put_spec:
  assumes wf: "chan_wf c" and n: "nbuf c < bufsize c" and bs: "length bs = elemsize c"
  shows "chan_wf (chan_put bs c)" and "nbuf (chan_put bs c) = nbuf c + 1"
    and "contents (chan_put bs c) = contents c @ [bs]"
proof -
  define k where "k = (off c + nbuf c) mod bufsize c"
  have k: "k < bufsize c" using n by (simp add: k_def)
  have len: "length (buf c) = bufsize c * elemsize c" using wf by (simp add: chan_wf_def)
  have room: "k * elemsize c + length bs \<le> length (buf c)"
    using slot_in_array [OF k, of "elemsize c"] bs len by simp
  show nb: "nbuf (chan_put bs c) = nbuf c + 1"
    using wf n by (simp add: chan_put_def chan_wf_def inc32_small)
  show "chan_wf (chan_put bs c)"
    using wf n room nb by (simp add: chan_wf_def) (simp add: chan_put_def k_def mem_simps)
  have new: "chan_slot (chan_put bs c) k = bs"
    using room bs by (simp add: chan_slot_def) (simp add: chan_put_def k_def mem_simps)
  have old: "chan_slot (chan_put bs c) j = chan_slot c j" if "j \<noteq> k" for j
    using room bs slots_disjoint [OF that, of "elemsize c"]
    by (simp add: chan_slot_def) (simp add: chan_put_def flip: k_def, subst read_write_disjoint, auto)
  have "(off c + i) mod bufsize c \<noteq> k" if "i < nbuf c" for i
    using ring_index_inj [of i "bufsize c" "nbuf c" "off c"] that n by (auto simp: k_def)
  then show "contents (chan_put bs c) = contents c @ [bs]"
    unfolding contents_def nb by (simp add: old new flip: k_def)
qed

section \<open>What a transfer does\<close>

text \<open>The sender and the receiver of a transfer that \<open>p\<close> executes with the waiting alt \<open>q\<close>.\<close>

definition sender :: "chanstate \<Rightarrow> aptr \<Rightarrow> aptr option \<Rightarrow> aptr option" where
  "sender s p q = (if alt_op (alt_at s p) = CHANRCV then q else Some p)"

definition receiver :: "chanstate \<Rightarrow> aptr \<Rightarrow> aptr option \<Rightarrow> aptr option" where
  "receiver s p q = (if alt_op (alt_at s p) = CHANRCV then Some p else q)"

text \<open>The memory an alt sends from is large enough for an element.\<close>

definition mem_ok :: "chanstate \<Rightarrow> aptr \<Rightarrow> bool" where
  "mem_ok s p \<longleftrightarrow> (alt_op (alt_at s p) = CHANSND \<longrightarrow>
     (case alt_v (alt_at s p) of None \<Rightarrow> True
      | Some v \<Rightarrow> elemsize (chans s (alt_c (alt_at s p))) \<le> length (mem s v)))"

text \<open>The value an alt sends.\<close>

definition alt_value :: "chanstate \<Rightarrow> aptr \<Rightarrow> byte list" where
  "alt_value s p =
     amove_src (alt_v (alt_at s p)) (elemsize (chans s (alt_c (alt_at s p)))) (mem s)"

text \<open>A transfer is possible: a partner or room in the buffer, and no shortcut past elements.\<close>

definition can_transfer :: "chanstate \<Rightarrow> aptr \<Rightarrow> aptr option \<Rightarrow> bool" where
  "can_transfer s p q \<longleftrightarrow>
     (let ch = chans s (alt_c (alt_at s p)); op = alt_op (alt_at s p)
      in (op = CHANSND \<or> op = CHANRCV) \<and>
         (case q of
            None \<Rightarrow> (if op = CHANSND then nbuf ch < bufsize ch else 0 < nbuf ch)
          | Some x \<Rightarrow> place s x = (alt_c (alt_at s p), otherop op) \<and>
              (bufsize ch = 0 \<or> op = CHANSND \<and> nbuf ch = 0 \<or> op = CHANRCV \<and> 0 < nbuf ch)))"

text \<open>What the rest of the state keeps during a transfer on channel \<open>c\<close>.\<close>

definition same_but_data :: "cptr \<Rightarrow> chanstate \<Rightarrow> chanstate \<Rightarrow> bool" where
  "same_but_data c s s' \<longleftrightarrow> lib s' = lib s \<and> alts s' = alts s \<and> draws s' = draws s \<and>
     (\<forall>c'. c' \<noteq> c \<longrightarrow> chans s' c' = chans s c') \<and>
     bufsize (chans s' c) = bufsize (chans s c) \<and> elemsize (chans s' c) = elemsize (chans s c) \<and>
     asend (chans s' c) = asend (chans s c) \<and> arecv (chans s' c) = arecv (chans s c) \<and>
     (\<forall>v. length (mem s v) \<le> length (mem s' v))"

lemma same_but_dataD:
  assumes "same_but_data c s s'"
  shows "lib s' = lib s" "alts s' = alts s" "draws s' = draws s" "alt_at s' p = alt_at s p"
    "place s' p = place s p" "alt_n s' b = alt_n s b" "active_alts s' b = active_alts s b"
    "bufsize (chans s' c') = bufsize (chans s c')" "elemsize (chans s' c') = elemsize (chans s c')"
    "wq s' c' op = wq s c' op" "length (mem s v) \<le> length (mem s' v)"
proof -
  show "bufsize (chans s' c') = bufsize (chans s c')" "elemsize (chans s' c') = elemsize (chans s c')"
    using assms by (cases "c' = c"; simp add: same_but_data_def)+
  show "wq s' c' op = wq s c' op"
    using assms by (cases "c' = c"; cases op) (simp_all add: same_but_data_def wq_def)
qed (use assms in \<open>auto simp: same_but_data_def alt_at_def place_def alt_n_def active_alts_def\<close>)

lemma length_alt_value:
  "mem_ok s p \<Longrightarrow> alt_op (alt_at s p) = CHANSND \<Longrightarrow>
   length (alt_value s p) = elemsize (chans s (alt_c (alt_at s p)))"
  by (auto simp: mem_ok_def alt_value_def amove_src_def read_block_def split: option.splits)

lemma amove_dst_length: "length (m v) \<le> length (amove_dst d bs m v)"
  by (auto simp: amove_dst_def write_block_def split: option.splits)

lemma amove_dst_read:
  "length bs = n \<Longrightarrow> read_block 0 n (amove_dst (Some v) bs m v) = bs"
  by (simp add: amove_dst_def read_block_def write_block_def)

lemma amove_dst_other: "d \<noteq> Some v \<Longrightarrow> amove_dst d bs m v = m v"
  by (auto simp: amove_dst_def split: option.splits)

lemma length_chan_slot:
  assumes "chan_wf c" and "0 < nbuf c"
  shows "length (chan_slot c (off c)) = elemsize c"
proof -
  have "off c < bufsize c" using assms by (auto simp: chan_wf_def)
  from slot_in_array [OF this, of "elemsize c"] assms show ?thesis
    by (simp add: chan_slot_def chan_wf_def mem_simps)
qed

text \<open>
  \<open>xs\<close> is what goes into the channel and \<open>ys\<close> what comes out of it in a transfer; a value that goes
  straight from the sender to the receiver is in both.
\<close>

definition transferred ::
    "chanstate \<Rightarrow> chanstate \<Rightarrow> cptr \<Rightarrow> aptr option \<Rightarrow> aptr option \<Rightarrow> byte list list \<Rightarrow> byte list list \<Rightarrow>
     bool" where
  "transferred s s' c a r xs ys \<longleftrightarrow>
     contents (chans s c) @ xs = ys @ contents (chans s' c) \<and>
     length xs = (if a = None then 0 else 1) \<and> length ys = (if r = None then 0 else 1) \<and>
     (\<forall>p. a = Some p \<longrightarrow>
        (\<forall>q. r = Some q \<longrightarrow> alt_v (alt_at s p) = None \<or> alt_v (alt_at s p) \<noteq> alt_v (alt_at s q)) \<longrightarrow>
        xs = [alt_value s p]) \<and>
     (\<forall>q v. r = Some q \<longrightarrow> alt_v (alt_at s q) = Some v \<longrightarrow>
        ys = [read_block 0 (elemsize (chans s c)) (mem s' v)])"

lemma altcopy_direct:
  fixes s :: chanstate and a r :: aptr and c :: cptr
  assumes a: "alt_op (alt_at s a) = CHANSND" "alt_c (alt_at s a) = c" "mem_ok s a"
    and z: "nbuf (chans s c) = 0"
  defines "s' \<equiv> s\<lparr>mem := amove_dst (alt_v (alt_at s r)) (alt_value s a) (mem s)\<rparr>"
  shows "same_but_data c s s' \<and> (\<forall>x. chan_wf (chans s x) \<longrightarrow> chan_wf (chans s' x)) \<and>
      transferred s s' c (Some a) (Some r) [alt_value s a] [alt_value s a]"
proof -
  have "length (alt_value s a) = elemsize (chans s c)" using length_alt_value a by metis
  moreover have "contents (chans s c) = []" using z by (simp add: contents_def)
  ultimately show ?thesis
    by (auto simp: s'_def same_but_data_def transferred_def amove_dst_length amove_dst_read)
qed

lemma altcopy_recv:
  fixes s :: chanstate and a r :: aptr and c :: cptr
  assumes wf: "chan_wf (chans s c)" and n: "0 < nbuf (chans s c)"
  defines "y \<equiv> chan_slot (chans s c) (off (chans s c))"
  defines "s' \<equiv> upd_chan c (chan_take (chans s c))
                  (s\<lparr>mem := amove_dst (alt_v (alt_at s r)) y (mem s)\<rparr>)"
  shows "same_but_data c s s' \<and> (\<forall>x. chan_wf (chans s x) \<longrightarrow> chan_wf (chans s' x)) \<and>
      transferred s s' c None (Some r) [] [y]"
proof -
  note t = chan_take_spec [OF wf n]
  have "length y = elemsize (chans s c)" unfolding y_def by (rule length_chan_slot [OF wf n])
  with t show ?thesis
    by (auto simp: s'_def upd_chan_def same_but_data_def transferred_def amove_dst_length
        amove_dst_read y_def)
qed

lemma altcopy_send:
  fixes s :: chanstate and a r :: aptr and c :: cptr
  assumes a: "alt_op (alt_at s a) = CHANSND" "alt_c (alt_at s a) = c" "mem_ok s a"
    and wf: "chan_wf (chans s c)" and n: "nbuf (chans s c) < bufsize (chans s c)"
  defines "s' \<equiv> upd_chan c (chan_put (alt_value s a) (chans s c)) s"
  shows "same_but_data c s s' \<and> (\<forall>x. chan_wf (chans s x) \<longrightarrow> chan_wf (chans s' x)) \<and>
      transferred s s' c (Some a) None [alt_value s a] []"
proof -
  have "length (alt_value s a) = elemsize (chans s c)" using length_alt_value a by metis
  from chan_put_spec [OF wf n this] show ?thesis
    by (auto simp: s'_def upd_chan_def same_but_data_def transferred_def)
qed

lemma altcopy_both:
  fixes s :: chanstate and a r :: aptr and c :: cptr
  assumes a: "alt_op (alt_at s a) = CHANSND" "alt_c (alt_at s a) = c" "mem_ok s a"
    and wf: "chan_wf (chans s c)" and n: "0 < nbuf (chans s c)"
  defines "y \<equiv> chan_slot (chans s c) (off (chans s c))"
  defines "m1 \<equiv> amove_dst (alt_v (alt_at s r)) y (mem s)"
  defines "x \<equiv> amove_src (alt_v (alt_at s a)) (elemsize (chans s c)) m1"
  defines "s' \<equiv> upd_chan c (chan_put x (chan_take (chans s c))) (s\<lparr>mem := m1\<rparr>)"
  shows "same_but_data c s s' \<and> (\<forall>x. chan_wf (chans s x) \<longrightarrow> chan_wf (chans s' x)) \<and>
      transferred s s' c (Some a) (Some r) [x] [y]"
proof -
  note t = chan_take_spec [OF wf n]
  have "length x = elemsize (chans s c)"
  proof (cases "alt_v (alt_at s a)")
    case None
    then show ?thesis by (simp add: x_def amove_src_def)
  next
    case (Some v)
    with a have "elemsize (chans s c) \<le> length (mem s v)" by (simp add: mem_ok_def)
    also have "\<dots> \<le> length (m1 v)" unfolding m1_def by (rule amove_dst_length)
    finally show ?thesis using Some by (simp add: x_def amove_src_def mem_simps)
  qed
  moreover have "nbuf (chan_take (chans s c)) < bufsize (chan_take (chans s c))"
    using wf n t(2) by (auto simp: chan_wf_def)
  ultimately have p: "chan_wf (chan_put x (chan_take (chans s c)))"
      "contents (chan_put x (chan_take (chans s c))) = contents (chan_take (chans s c)) @ [x]"
    using chan_put_spec [OF t(1)] by auto
  have "length y = elemsize (chans s c)" unfolding y_def by (rule length_chan_slot [OF wf n])
  then have rd: "\<And>v. alt_v (alt_at s r) = Some v \<Longrightarrow>
      read_block 0 (elemsize (chans s c)) (m1 v) = y"
    by (simp add: m1_def amove_dst_read)
  have "alt_v (alt_at s a) = None \<or> alt_v (alt_at s a) \<noteq> alt_v (alt_at s r) \<Longrightarrow> x = alt_value s a"
    using a(2) by (auto simp: x_def alt_value_def m1_def amove_src_def amove_dst_other
        split: option.splits)
  with p t rd show ?thesis
    by (auto simp: s'_def upd_chan_def same_but_data_def transferred_def y_def)
       (simp add: m1_def amove_dst_length)
qed

lemma altcopy_spec:
  assumes wf: "chan_wf (chans s c)" and c: "alt_c (alt_at s p) = c" and can: "can_transfer s p q"
    and mem: "mem_ok s p" "\<And>x. q = Some x \<Longrightarrow> mem_ok s x"
  shows "\<exists>s' xs ys. altcopy p q s = Return s' \<and> same_but_data c s s' \<and>
      (\<forall>x. chan_wf (chans s x) \<longrightarrow> chan_wf (chans s' x)) \<and>
      transferred s s' c (sender s p q) (receiver s p q) xs ys"
proof -
  define ch where "ch = chans s c"
  have op: "alt_op (alt_at s p) = CHANSND \<or> alt_op (alt_at s p) = CHANRCV"
    using can by (simp add: can_transfer_def Let_def)
  show ?thesis
  proof (cases q)
    case None
    show ?thesis
    proof (cases "alt_op (alt_at s p) = CHANSND")
      case True
      with can None c have n: "nbuf (chans s c) < bufsize (chans s c)"
        by (simp add: can_transfer_def Let_def)
      have "altcopy p q s = Return (upd_chan c (chan_put (alt_value s p) (chans s c)) s)"
        using True None c by (auto simp: altcopy_def Let_def alt_value_def)
      with altcopy_send [OF True c mem(1) wf n] True None show ?thesis
        by (auto simp: sender_def receiver_def)
    next
      case False
      with op have r: "alt_op (alt_at s p) = CHANRCV" by simp
      with can None c have n: "0 < nbuf (chans s c)" by (simp add: can_transfer_def Let_def)
      have "altcopy p q s = Return (upd_chan c (chan_take (chans s c)) (s\<lparr>mem :=
          amove_dst (alt_v (alt_at s p)) (chan_slot (chans s c) (off (chans s c))) (mem s)\<rparr>))"
        using r None c by (auto simp: altcopy_def Let_def chan_slot_def)
      with altcopy_recv [OF wf n, of p] r None show ?thesis
        by (auto simp: sender_def receiver_def)
    qed
  next
    case (Some x)
    have pl: "alt_c (alt_at s x) = c" "alt_op (alt_at s x) = otherop (alt_op (alt_at s p))"
      using can Some c by (auto simp: can_transfer_def Let_def place_def)
    define a where "a = (if alt_op (alt_at s p) = CHANRCV then x else p)"
    define r where "r = (if alt_op (alt_at s p) = CHANRCV then p else x)"
    have ar: "sender s p q = Some a" "receiver s p q = Some r"
      by (simp_all add: sender_def receiver_def a_def r_def Some)
    have a: "alt_op (alt_at s a) = CHANSND" "alt_c (alt_at s a) = c" "mem_ok s a"
      and r: "alt_op (alt_at s r) = CHANRCV"
      using op pl c mem Some by (auto simp: a_def r_def)
    show ?thesis
    proof (cases "nbuf (chans s c) = 0")
      case True
      have "altcopy p q s =
          Return (s\<lparr>mem := amove_dst (alt_v (alt_at s r)) (alt_value s a) (mem s)\<rparr>)"
        using True Some c op pl
        by (auto simp: altcopy_def Let_def alt_value_def a_def r_def)
      with altcopy_direct [OF a True, of r] show ?thesis unfolding ar by blast
    next
      case False
      then have n: "0 < nbuf (chans s c)" by simp
      have "altcopy p q s = Return (upd_chan c
          (chan_put (amove_src (alt_v (alt_at s a)) (elemsize (chans s c))
             (amove_dst (alt_v (alt_at s r)) (chan_slot (chans s c) (off (chans s c))) (mem s)))
           (chan_take (chans s c)))
          (s\<lparr>mem := amove_dst (alt_v (alt_at s r)) (chan_slot (chans s c) (off (chans s c))) (mem s)\<rparr>))"
        using False Some c op pl
        by (auto simp: altcopy_def Let_def chan_slot_def a_def r_def)
      with altcopy_both [OF a wf n, of r] show ?thesis unfolding ar by blast
    qed
  qed
qed

section \<open>The invariant of the channels\<close>

definition owner :: "chanstate \<Rightarrow> nat \<Rightarrow> tptr" where
  "owner s b = alt_task (alts s b ! 0)"

text \<open>
  The array of a blocked \<^verbatim>\<open>chanalt\<close>: terminated, every alt knows the array and its task, and the
  memory its senders point to is large enough.
\<close>

definition waiter_ok :: "chanstate \<Rightarrow> nat \<Rightarrow> bool" where
  "waiter_ok s b \<longleftrightarrow> active_alts s b \<noteq> [] \<and> alt_n s b < length (alts s b) \<and>
     (\<forall>i < alt_n s b. alt_xalt (alts s b ! i) = (b, 0) \<and> alt_task (alts s b ! i) = owner s b) \<and>
     (\<forall>p \<in> set (active_alts s b). mem_ok s p)"

text \<open>
  No rendezvous is missed: a sender and a receiver wait at the same unbuffered channel only if one
  \<^verbatim>\<open>chanalt\<close> offers both; senders wait at a buffered channel only while it is full, receivers only
  while it is empty.
\<close>

definition no_missed :: "chanstate \<Rightarrow> cptr \<Rightarrow> bool" where
  "no_missed s c \<longleftrightarrow>
     (if bufsize (chans s c) = 0 then
        \<forall>p \<in> set (wq s c CHANSND). \<forall>q \<in> set (wq s c CHANRCV). fst p = fst q
      else (wq s c CHANSND \<noteq> [] \<longrightarrow> nbuf (chans s c) = bufsize (chans s c)) \<and>
           (wq s c CHANRCV \<noteq> [] \<longrightarrow> nbuf (chans s c) = 0))"

text \<open>\<open>B\<close> is the set of the arrays of blocked \<^verbatim>\<open>chanalt\<close> calls.\<close>

definition chan_inv :: "chanstate \<Rightarrow> nat set \<Rightarrow> bool" where
  "chan_inv s B \<longleftrightarrow> (\<forall>c. chan_wf (chans s c)) \<and> distinct_queues s \<and>
     (\<forall>c op. set (wq s c op) = (\<Union>b \<in> B. at_place s (set (active_alts s b)) c op)) \<and>
     (\<forall>b \<in> B. waiter_ok s b) \<and> (\<forall>c. no_missed s c)"

definition owners_inv :: "chanstate \<Rightarrow> nat set \<Rightarrow> tptr list \<Rightarrow> bool" where
  "owners_inv s B rq \<longleftrightarrow> inj_on (owner s) B \<and>
     (\<forall>b \<in> B. owner s b \<in> set (live (lib s)) \<and> owner s b \<notin> set rq \<and>
        taskrunning (lib s) \<noteq> Some (owner s b))"

definition chan_sys :: "chanstate \<Rightarrow> nat set \<Rightarrow> tptr list \<Rightarrow> bool" where
  "chan_sys s B rq \<longleftrightarrow> chan_inv s B \<and> sched_inv (lib s) rq \<and> owners_inv s B rq"

lemma wq_mem:
  assumes "chan_inv s B" and "p \<in> set (wq s c op)"
  shows "fst p \<in> B" and "p \<in> set (active_alts s (fst p))" and "place s p = (c, op)"
    and "snd p < alt_n s (fst p)"
proof -
  from assms obtain b where b: "b \<in> B" "p \<in> set (active_alts s b)" "place s p = (c, op)"
    by (auto simp: chan_inv_def at_place_def)
  with active_altsD [OF b(2)] show "fst p \<in> B" "p \<in> set (active_alts s (fst p))"
    "place s p = (c, op)" "snd p < alt_n s (fst p)" by auto
qed

lemma active_frame:
  assumes "alts s' b = alts s b"
  shows "alt_n s' b = alt_n s b" "active_alts s' b = active_alts s b"
    "fst p = b \<Longrightarrow> alt_at s' p = alt_at s p" "fst p = b \<Longrightarrow> place s' p = place s p"
    "at_place s' (set (active_alts s' b)) c op = at_place s (set (active_alts s b)) c op"
    "owner s' b = owner s b"
proof -
  show 1: "alt_n s' b = alt_n s b" "active_alts s' b = active_alts s b"
    "fst p = b \<Longrightarrow> alt_at s' p = alt_at s p" "fst p = b \<Longrightarrow> place s' p = place s p"
    "owner s' b = owner s b" for p
    using assms by (auto simp: alt_n_def active_alts_def alt_at_def place_def owner_def)
  show "at_place s' (set (active_alts s' b)) c op = at_place s (set (active_alts s b)) c op"
  proof -
    have "\<And>q. q \<in> set (active_alts s b) \<Longrightarrow> place s' q = place s q"
      using 1(4) active_altsD(1) by blast
    then show ?thesis by (auto simp: at_place_def 1(2))
  qed
qed

lemma waiter_frame:
  assumes "waiter_ok s b" and "alts s' b = alts s b"
    and "\<And>c. elemsize (chans s' c) = elemsize (chans s c)"
    and "\<And>v. length (mem s v) \<le> length (mem s' v)"
  shows "waiter_ok s' b"
proof -
  have "mem_ok s' p" if "p \<in> set (active_alts s b)" for p
  proof -
    have "mem_ok s p" using assms(1) that by (simp add: waiter_ok_def)
    moreover have "alt_at s' p = alt_at s p"
      using active_frame(3) [OF assms(2)] active_altsD(1) [OF that] by simp
    ultimately show ?thesis
      using assms(3,4) by (fastforce simp: mem_ok_def split: option.splits intro: order_trans)
  qed
  with assms(1,2) active_frame [OF assms(2)] show ?thesis by (simp add: waiter_ok_def)
qed

text \<open>Steps that do not touch the channels or the arrays in use.\<close>

lemma wq_cong: "chans s' = chans s \<Longrightarrow> wq s' c op = wq s c op"
  by (simp add: wq_def)

lemma chan_inv_frame:
  assumes inv: "chan_inv s B" and ch: "chans s' = chans s"
    and m: "\<And>v. length (mem s v) \<le> length (mem s' v)" and a: "\<And>b. b \<in> B \<Longrightarrow> alts s' b = alts s b"
  shows "chan_inv s' B"
proof -
  have "\<forall>b \<in> B. waiter_ok s' b"
    using inv m a ch by (auto simp: chan_inv_def intro: waiter_frame)
  moreover have "(\<Union>b \<in> B. at_place s' (set (active_alts s' b)) c op) =
      (\<Union>b \<in> B. at_place s (set (active_alts s b)) c op)" for c op
    by (intro SUP_cong refl active_frame(5) a)
  ultimately show ?thesis
    using inv ch wq_cong [OF ch] by (auto simp: chan_inv_def distinct_queues_def no_missed_def)
qed

lemma UN_remove:
  assumes "b \<in> B" and "\<And>b'. b' \<noteq> b \<Longrightarrow> F b \<inter> F b' = {}"
  shows "(\<Union>x \<in> B. F x) - F b = (\<Union>x \<in> B - {b}. F x)"
  using assms by fast

text \<open>The arrays of one blocked call leave the queues.\<close>

lemma chan_inv_dequeue:
  assumes inv: "chan_inv s B" and b: "b \<in> B"
  shows "\<exists>s'. altalldequeue (b, k) s = Return s' \<and> same_core s s' \<and> chan_inv s' (B - {b})"
proof -
  have "\<forall>p \<in> set (active_alts s b). snd (place s p) \<in> {CHANSND, CHANRCV} \<and>
      p \<in> set (wq s (fst (place s p)) (snd (place s p)))"
  proof
    fix p assume p: "p \<in> set (active_alts s b)"
    then have "p \<in> at_place s (set (active_alts s b)) (fst (place s p)) (snd (place s p))"
      by (simp add: at_place_def)
    with inv b have "p \<in> set (wq s (fst (place s p)) (snd (place s p)))"
      unfolding chan_inv_def by blast
    with active_altsD(3) [OF p] show "snd (place s p) \<in> {CHANSND, CHANRCV} \<and>
        p \<in> set (wq s (fst (place s p)) (snd (place s p)))" by (auto simp: place_def)
  qed
  moreover have "distinct_queues s" using inv by (simp add: chan_inv_def)
  ultimately obtain s' where d: "altalldequeue (b, k) s = Return s'" "same_core s s'"
      "distinct_queues s'"
    and w: "\<And>c op. set (wq s' c op) = set (wq s c op) - at_place s (set (active_alts s b)) c op"
    using each_altdequeue [of "active_alts s b" s] by (auto simp: altalldequeue_def)
  note core = same_core_simps [OF d(2)]
  have eqp: "at_place s' P c op = at_place s P c op" for P c op
    by (simp add: at_place_def core)
  have disj: "at_place s (set (active_alts s b)) c op \<inter> at_place s (set (active_alts s b')) c op = {}"
    if "b' \<noteq> b" for b' c op
  proof -
    have "p \<notin> set (active_alts s b')" if "p \<in> set (active_alts s b)" for p
      using active_altsD(1) [of p s b] active_altsD(1) [of p s b'] that \<open>b' \<noteq> b\<close> by blast
    then show ?thesis unfolding at_place_def by blast
  qed
  have q: "set (wq s' c op) = (\<Union>b' \<in> B - {b}. at_place s' (set (active_alts s' b')) c op)" for c op
  proof -
    have "set (wq s c op) = (\<Union>b \<in> B. at_place s (set (active_alts s b)) c op)"
      using inv by (simp add: chan_inv_def)
    with w UN_remove [OF b, of "\<lambda>b. at_place s (set (active_alts s b)) c op"] disj
    show ?thesis unfolding core eqp by simp
  qed
  have sub: "set (wq s' c op) \<subseteq> set (wq s c op)" for c op using w by blast
  have "no_missed s' c" for c
  proof -
    have e: "wq s c op = [] \<Longrightarrow> wq s' c op = []" for op using sub [of c op] by auto
    have nm: "no_missed s c" using inv by (simp add: chan_inv_def)
    show ?thesis
    proof (cases "bufsize (chans s c) = 0")
      case True
      with nm sub [of c CHANSND] sub [of c CHANRCV] show ?thesis
        by (simp add: no_missed_def core) blast
    next
      case False
      with nm e [of CHANSND] e [of CHANRCV] show ?thesis by (auto simp: no_missed_def core)
    qed
  qed
  moreover have "waiter_ok s' b'" if "b' \<in> B" for b'
    using inv that core by (auto simp: chan_inv_def intro: waiter_frame [of s])
  moreover have "chan_wf (chans s' c)" for c
    using inv by (simp add: chan_inv_def chan_wf_def core)
  ultimately have "chan_inv s' (B - {b})" using d(3) q by (simp add: chan_inv_def)
  with d show ?thesis by blast
qed

text \<open>A transfer that leaves the waiting senders and receivers consistent with the new fill.\<close>

lemma chan_inv_transfer:
  assumes inv: "chan_inv s B" and d: "same_but_data c s s'"
    and wf: "\<And>x. chan_wf (chans s x) \<Longrightarrow> chan_wf (chans s' x)"
    and nm: "no_missed s' c"
  shows "chan_inv s' B"
proof -
  note same = same_but_dataD [OF d]
  have "no_missed s' x" for x
  proof (cases "x = c")
    case False
    then have "chans s' x = chans s x" using d by (simp add: same_but_data_def)
    then show ?thesis using inv by (simp add: chan_inv_def no_missed_def same)
  qed (simp add: nm)
  moreover have "waiter_ok s' b" if "b \<in> B" for b
    using inv that same by (auto simp: chan_inv_def intro: waiter_frame [of s])
  ultimately show ?thesis
    using inv wf by (auto simp: chan_inv_def distinct_queues_def at_place_def same)
qed

section \<open>Executing an alt\<close>

definition partners :: "chanstate \<Rightarrow> aptr \<Rightarrow> aptr list" where
  "partners s p = wq s (alt_c (alt_at s p)) (otherop (alt_op (alt_at s p)))"

text \<open>The waiting alt that \<^verbatim>\<open>altexec\<close> picks.\<close>

definition partner :: "(nat \<Rightarrow> nat) \<Rightarrow> aptr \<Rightarrow> chanstate \<Rightarrow> aptr option" where
  "partner rnd p s =
     (if partners s p = [] then None
      else Some (partners s p ! (rnd (draws s) mod length (partners s p))))"

lemma otherop_other: "op = CHANSND \<or> op = CHANRCV \<Longrightarrow>
    otherop (otherop op) = op \<and> otherop op \<noteq> op \<and> (otherop op = CHANSND \<or> otherop op = CHANRCV)"
  by auto

lemma partner_in: "partner rnd p s = Some x \<Longrightarrow> x \<in> set (partners s p)"
  by (auto simp: partner_def split: if_splits intro: nth_mem)

lemma can_transfer_exec:
  assumes inv: "chan_inv s B" and p: "p \<in> set (active_alts s b)"
    and can: "altcanexec s (alt_at s p)"
  shows "can_transfer s p (partner rnd p s)"
proof -
  define c where "c = alt_c (alt_at s p)"
  define op where "op = alt_op (alt_at s p)"
  have op: "op = CHANSND \<or> op = CHANRCV" using active_altsD(3) [OF p] by (simp add: op_def)
  have nm: "no_missed s c" using inv by (simp add: chan_inv_def)
  show ?thesis
  proof (cases "partner rnd p s")
    case None
    then have "wq s c (otherop op) = []" by (auto simp: partner_def partners_def c_def op_def split: if_splits)
    then have "bufsize (chans s c) \<noteq> 0"
      using can op by (auto simp: altcanexec_def Let_def c_def op_def wq_def split: if_splits)
    with can op None show ?thesis
      by (auto simp: altcanexec_def can_transfer_def Let_def c_def op_def split: if_splits)
  next
    case (Some x)
    then have x: "x \<in> set (wq s c (otherop op))"
      using partner_in [OF Some] by (simp add: partners_def c_def op_def)
    with wq_mem(3) [OF inv x] nm can op Some show ?thesis
      by (auto simp: can_transfer_def Let_def no_missed_def altcanexec_def c_def op_def
          split: if_splits)
  qed
qed

lemma transferred_fill:
  assumes "transferred s s' c a r xs ys"
  shows "nbuf (chans s c) + (if a = None then 0 else 1) =
    nbuf (chans s' c) + (if r = None then 0 else 1)"
proof -
  have "length (contents (chans s c) @ xs) = length (ys @ contents (chans s' c))"
    using assms by (simp add: transferred_def)
  then show ?thesis using assms by (simp add: transferred_def)
qed

lemma no_missed_transfer:
  assumes inv: "chan_inv s B" and p: "p \<in> set (active_alts s b)"
    and can: "altcanexec s (alt_at s p)" and c: "alt_c (alt_at s p) = c"
    and d: "same_but_data c s s'"
    and t: "transferred s s' c (sender s p q) (receiver s p q) xs ys"
    and q: "q = None \<longleftrightarrow> partners s p = []"
  shows "no_missed s' c"
proof -
  define op where "op = alt_op (alt_at s p)"
  have op: "op = CHANSND \<or> op = CHANRCV" using active_altsD(3) [OF p] by (simp add: op_def)
  have nm: "no_missed s c" using inv by (simp add: chan_inv_def)
  note same = same_but_dataD [OF d]
  show ?thesis
  proof (cases q)
    case (Some x)
    then have "nbuf (chans s' c) = nbuf (chans s c)"
      using transferred_fill [OF t] by (auto simp: sender_def receiver_def split: if_splits)
    with nm show ?thesis by (simp add: no_missed_def same)
  next
    case None
    with q have e: "wq s c (otherop op) = []" by (simp add: partners_def c op_def)
    then have bs: "bufsize (chans s c) \<noteq> 0"
      using can op by (auto simp: altcanexec_def Let_def c op_def wq_def split: if_splits)
    with can op nm have e2: "wq s c op = []"
      by (auto simp: no_missed_def altcanexec_def Let_def c op_def split: if_splits)
    have "wq s c CHANSND = []" "wq s c CHANRCV = []" using e e2 op by auto
    then show ?thesis by (simp add: no_missed_def same)
  qed
qed

lemma active_pos: "active_alts s b \<noteq> [] \<Longrightarrow> 0 < alt_n s b"
  by (cases "alt_n s b") (auto simp: active_alts_def)

lemma chan_inv_mem_ok:
  "chan_inv s B \<Longrightarrow> b \<in> B \<Longrightarrow> p \<in> set (active_alts s b) \<Longrightarrow> mem_ok s p"
  by (simp add: chan_inv_def waiter_ok_def)

lemma set_xalt_sel [simp]:
  "lib (set_xalt p x s) = lib s" "chans (set_xalt p x s) = chans s" "mem (set_xalt p x s) = mem s"
  "draws (set_xalt p x s) = draws s" "b \<noteq> fst p \<Longrightarrow> alts (set_xalt p x s) b = alts s b"
  by (simp_all add: set_xalt_def)

lemma alt_task_set_xalt:
  "alt_task (alt_at (set_xalt p x s) q) = alt_task (alt_at s q)"
  by (cases "fst q = fst p"; cases "snd q = snd p"; cases "snd p < length (alts s (fst p))")
     (auto simp: alt_at_def set_xalt_def nth_list_update list_update_beyond)

text \<open>Executing an alt nobody waits for: the transfer with the buffer.\<close>

lemma altexec_alone:
  assumes inv: "chan_inv s B" and p: "p \<in> set (active_alts s b)" "mem_ok s p"
    and can: "altcanexec s (alt_at s p)" and c: "alt_c (alt_at s p) = c"
    and none: "partner rnd p s = None"
  shows "\<exists>s' xs ys. altexec rnd p s = Return s' \<and> chan_inv s' B \<and> same_but_data c s s' \<and>
      transferred s s' c (sender s p None) (receiver s p None) xs ys"
proof -
  have q: "partners s p = []" using none by (simp add: partner_def split: if_splits)
  have "altexec rnd p s = altcopy p None s"
    using q by (auto simp: altexec_def Let_def partners_def wq_def split: option.splits)
  moreover have "chan_wf (chans s c)" using inv by (simp add: chan_inv_def)
  moreover have "can_transfer s p None"
    using can_transfer_exec [OF inv p(1) can, of rnd] none by simp
  ultimately obtain s' xs ys where s': "altexec rnd p s = Return s'" "same_but_data c s s'"
      "\<forall>x. chan_wf (chans s x) \<longrightarrow> chan_wf (chans s' x)"
      "transferred s s' c (sender s p None) (receiver s p None) xs ys"
    using altcopy_spec [of s c p None] c p(2) by auto
  with no_missed_transfer [OF inv p(1) can c s'(2,4)] q have "no_missed s' c" by simp
  with chan_inv_transfer [OF inv s'(2)] s' show ?thesis by blast
qed

text \<open>
  Executing an alt with a waiting partner: the data moves, the partner's call leaves all queues,
  learns which of its alts was executed, and its task becomes ready.
\<close>

lemma altexec_partner:
  assumes inv: "chan_inv s B" and p: "p \<in> set (active_alts s b)" "mem_ok s p"
    and can: "altcanexec s (alt_at s p)" and c: "alt_c (alt_at s p) = c"
    and some: "partner rnd p s = Some x"
  shows "\<exists>s' s1 xs ys. altexec rnd p s = Return s' \<and> chan_inv s' (B - {fst x}) \<and> fst x \<in> B \<and>
      lib s' = taskready (owner s (fst x)) (lib s) \<and> chanalt_resume (fst x) s' = int (snd x) \<and>
      (\<forall>b. b \<noteq> fst x \<longrightarrow> alts s' b = alts s b) \<and> draws s' = draws s + 1 \<and>
      same_but_data c (s\<lparr>draws := draws s + 1\<rparr>) s1 \<and> mem s' = mem s1 \<and>
      (\<forall>c'. ring (chans s' c') = ring (chans s1 c')) \<and>
      transferred s s1 c (sender s p (Some x)) (receiver s p (Some x)) xs ys"
proof -
  define s0 where "s0 = s\<lparr>draws := draws s + 1\<rparr>"
  have at0: "\<And>q. alt_at s0 q = alt_at s q" and ch0: "chans s0 = chans s"
    and pl0: "\<And>q. place s0 q = place s q" and m0: "mem s0 = mem s"
    by (simp_all add: s0_def alt_at_def place_def)
  have inv0: "chan_inv s0 B" by (rule chan_inv_frame [OF inv]) (simp_all add: s0_def)
  have act0: "active_alts s0 b' = active_alts s b'" for b'
    by (simp add: s0_def active_alts_def alt_n_def)
  have xin: "x \<in> set (wq s c (otherop (alt_op (alt_at s p))))"
    using partner_in [OF some] c by (simp add: partners_def)
  note x = wq_mem [OF inv xin]
  have wx: "waiter_ok s (fst x)" using inv x(1) by (simp add: chan_inv_def)
  have mx: "mem_ok s0 x"
    using chan_inv_mem_ok [OF inv x(1,2)] by (simp add: mem_ok_def at0 ch0 m0 cong: option.case_cong)
  have mp: "mem_ok s0 p" using p(2) by (simp add: mem_ok_def at0 ch0 m0 cong: option.case_cong)
  have can0: "altcanexec s0 (alt_at s0 p)" using can unfolding altcanexec_def at0 ch0 .
  have ct: "can_transfer s0 p (Some x)"
    using can_transfer_exec [OF inv p(1) can, of rnd] some
    by (simp add: can_transfer_def at0 ch0 pl0)
  have "chan_wf (chans s0 c)" using inv0 by (simp add: chan_inv_def)
  from altcopy_spec [OF this _ ct mp] c mx at0 obtain s1 xs ys where
    s1: "altcopy p (Some x) s0 = Return s1" "same_but_data c s0 s1"
      "\<forall>x. chan_wf (chans s0 x) \<longrightarrow> chan_wf (chans s1 x)"
      "transferred s0 s1 c (sender s0 p (Some x)) (receiver s0 p (Some x)) xs ys" by auto
  have ne0: "partners s0 p \<noteq> []"
    using xin c by (auto simp: partners_def at0 wq_cong [OF ch0])
  have "p \<in> set (active_alts s0 b)" using p(1) by (simp add: act0)
  with no_missed_transfer [OF inv0 _ can0 _ s1(2,4)] ne0 c have "no_missed s1 c" by (simp add: at0)
  with chan_inv_transfer [OF inv0 s1(2)] s1(3) have inv1: "chan_inv s1 B" by blast
  note same = same_but_dataD [OF s1(2)]
  have xal: "alt_xalt (alt_at s1 x) = (fst x, 0)" and tsk: "alt_task (alt_at s1 x) = owner s (fst x)"
    using wx x(4) by (simp_all add: same at0 waiter_ok_def) (simp_all add: alt_at_def)
  from chan_inv_dequeue [OF inv1 x(1), of 0] obtain s2 where
    s2: "altalldequeue (fst x, 0) s1 = Return s2" "same_core s1 s2" "chan_inv s2 (B - {fst x})"
    by blast
  note core = same_core_simps [OF s2(2)]
  define s3 where "s3 = set_xalt (fst x, 0) x s2"
  define s' where "s' = s3\<lparr>lib := taskready (owner s (fst x)) (lib s3)\<rparr>"
  have t3: "alt_task (alt_at s3 x) = owner s (fst x)"
    by (simp add: s3_def alt_task_set_xalt core tsk)
  have ex: "altexec rnd p s = Return s'"
  proof -
    have "\<exists>ar. chanarray (chans s c) (otherop (alt_op (alt_at s p))) = Some ar \<and>
        aa ar = partners s p"
      using xin c by (cases "chanarray (chans s c) (otherop (alt_op (alt_at s p)))")
        (simp_all add: partners_def wq_def)
    moreover have "partners s p \<noteq> []" "x = partners s p ! (rnd (draws s) mod length (partners s p))"
      using some by (auto simp: partner_def split: if_splits)
    moreover have "s\<lparr>draws := Suc (draws s)\<rparr> = s0" by (simp add: s0_def)
    ultimately show ?thesis
      using s1(1) s2(1) xal c t3
      by (auto simp: altexec_def Let_def s'_def s3_def)
  qed
  have "chan_inv s' (B - {fst x})"
    by (rule chan_inv_frame [OF s2(3)]) (auto simp: s'_def s3_def)
  moreover have "chanalt_resume (fst x) s' = int (snd x)"
  proof -
    have "alts s2 = alts s" by (simp add: core same) (simp add: s0_def)
    moreover have "0 < length (alts s (fst x))" using wx by (auto simp: waiter_ok_def)
    ultimately show ?thesis by (simp add: chanalt_resume_def s'_def s3_def set_xalt_def)
  qed
  moreover have "lib s' = taskready (owner s (fst x)) (lib s)"
    by (simp add: s'_def s3_def core same) (simp add: s0_def)
  moreover have "alts s' b = alts s b" if "b \<noteq> fst x" for b
    using that by (simp add: s'_def s3_def core same) (simp add: s0_def)
  moreover have "draws s' = draws s + 1" "mem s' = mem s1"
    by (simp_all add: s'_def s3_def core same) (simp_all add: s0_def)
  moreover have "ring (chans s' c') = ring (chans s1 c')" for c'
    using s2(2) by (simp add: s'_def s3_def same_core_def)
  moreover have "transferred s s1 c (sender s p (Some x)) (receiver s p (Some x)) xs ys"
    using s1(4) by (simp add: transferred_def sender_def receiver_def at0 ch0 alt_value_def)
      (simp add: s0_def)
  ultimately show ?thesis using ex s1(2) x(1) unfolding s0_def by blast
qed

section \<open>A whole call of chanalt\<close>

text \<open>
  The arrays of blocked calls; an array \<open>b\<close> may be passed to \<^verbatim>\<open>chanalt\<close> when it is terminated, no
  blocked call is using it, and its senders point to large enough memory.
\<close>

definition in_use :: "chanstate \<Rightarrow> nat set" where
  "in_use s = {fst p | p c op. p \<in> set (wq s c op)}"

definition alts_callable :: "chanstate \<Rightarrow> nat \<Rightarrow> bool" where
  "alts_callable s b \<longleftrightarrow> b \<notin> in_use s \<and> alt_n s b < length (alts s b) \<and>
     (\<forall>p \<in> set (active_alts s b). mem_ok s p)"

lemma chan_inv_in_use:
  assumes inv: "chan_inv s B"
  shows "in_use s = B"
proof
  show "in_use s \<subseteq> B" using wq_mem(1) [OF inv] by (auto simp: in_use_def)
  show "B \<subseteq> in_use s"
  proof
    fix b assume b: "b \<in> B"
    with inv have "active_alts s b \<noteq> []" by (simp add: chan_inv_def waiter_ok_def)
    then obtain p where p: "p \<in> set (active_alts s b)" using last_in_set by blast
    then have "p \<in> at_place s (set (active_alts s b)) (fst (place s p)) (snd (place s p))"
      by (simp add: at_place_def)
    with inv b have "p \<in> set (wq s (fst (place s p)) (snd (place s p)))"
      unfolding chan_inv_def by blast
    with active_altsD(1) [OF p] show "b \<in> in_use s" unfolding in_use_def by blast
  qed
qed

lemma alt_prepare_sel [simp]:
  "lib (alt_prepare t b s) = lib s" "chans (alt_prepare t b s) = chans s"
  "mem (alt_prepare t b s) = mem s" "draws (alt_prepare t b s) = draws s"
  "b' \<noteq> b \<Longrightarrow> alts (alt_prepare t b s) b' = alts s b'"
  by (simp_all add: alt_prepare_def)

lemma length_takeWhile_map:
  "(\<And>x. P (f x) = P x) \<Longrightarrow>
   length (takeWhile P (map f (take n xs) @ drop n xs)) = length (takeWhile P xs)"
proof (induction xs arbitrary: n)
  case (Cons x xs)
  show ?case
  proof (cases n)
    case (Suc m)
    with Cons.IH [OF Cons.prems, of m] Cons.prems show ?thesis by simp
  qed simp
qed simp

lemma alt_n_le: "alt_n s b \<le> length (alts s b)"
  unfolding alt_n_def by (rule length_takeWhile_le)

lemma alt_prepare_nth:
  assumes "i < length (alts s b)"
  shows "alts (alt_prepare t b s) b ! i =
    (if i < alt_n s b then (alts s b ! i)\<lparr>alt_task := t, alt_xalt := (b, 0)\<rparr> else alts s b ! i)"
  using assms alt_n_le [of s b] by (simp add: alt_prepare_def nth_append min_def)

lemma alt_prepare_len: "length (alts (alt_prepare t b s) b') = length (alts s b')"
  using alt_n_le [of s b] by (simp add: alt_prepare_def min_def)

lemma alt_prepare_n: "alt_n (alt_prepare t b s) b' = alt_n s b'"
  unfolding alt_n_def [of "alt_prepare t b s"]
  by (simp add: alt_prepare_def terminator_def length_takeWhile_map) (simp add: alt_n_def terminator_def)

lemma alt_prepare_at:
  assumes "snd p < alt_n s (fst p)"
  shows "alt_c (alt_at (alt_prepare t b s) p) = alt_c (alt_at s p)"
    "alt_op (alt_at (alt_prepare t b s) p) = alt_op (alt_at s p)"
    "alt_v (alt_at (alt_prepare t b s) p) = alt_v (alt_at s p)"
    "place (alt_prepare t b s) p = place s p"
    "mem_ok (alt_prepare t b s) p = mem_ok s p"
    "alt_value (alt_prepare t b s) p = alt_value s p"
proof -
  have len: "snd p < length (alts s (fst p))" using assms alt_n_le [of s "fst p"] by simp
  show 1: "alt_c (alt_at (alt_prepare t b s) p) = alt_c (alt_at s p)"
    "alt_op (alt_at (alt_prepare t b s) p) = alt_op (alt_at s p)"
    "alt_v (alt_at (alt_prepare t b s) p) = alt_v (alt_at s p)"
    using len by (cases "fst p = b"; auto simp: alt_at_def alt_prepare_nth)+
  show "place (alt_prepare t b s) p = place s p" "mem_ok (alt_prepare t b s) p = mem_ok s p"
    "alt_value (alt_prepare t b s) p = alt_value s p"
    by (simp_all add: place_def mem_ok_def alt_value_def 1 cong: option.case_cong)
qed

lemma alt_prepare_active: "active_alts (alt_prepare t b s) b' = active_alts s b'"
proof -
  have "alt_op (alts (alt_prepare t b s) b' ! i) = alt_op (alts s b' ! i)" if "i < alt_n s b'" for i
    using alt_prepare_at(2) [of "(b', i)" s t b] that by (simp add: alt_at_def)
  then show ?thesis unfolding active_alts_def alt_prepare_n
    by (intro arg_cong2 [where f = map] filter_cong refl) auto
qed

text \<open>The state in which \<^verbatim>\<open>chanalt\<close> makes its choice.\<close>

lemma prepared:
  fixes s :: chanstate and t :: tptr and b :: nat
  assumes inv: "chan_inv s B" and b: "alts_callable s b"
  defines "s1 \<equiv> alt_prepare t b s"
  shows "chan_inv s1 B" and "alt_n s1 b = alt_n s b" and "active_alts s1 b = active_alts s b"
    and "\<And>p. p \<in> set (active_alts s b) \<Longrightarrow> mem_ok s1 p"
    and "\<And>i. i < alt_n s b \<Longrightarrow> alt_xalt (alts s1 b ! i) = (b, 0) \<and> alt_task (alts s1 b ! i) = t"
    and "alt_n s1 b < length (alts s1 b)" and "b \<notin> B"
proof -
  show nb: "b \<notin> B" using b chan_inv_in_use [OF inv] by (simp add: alts_callable_def)
  show "chan_inv s1 B" unfolding s1_def by (rule chan_inv_frame [OF inv])
      (simp_all, metis alt_prepare_sel(5) nb)
  show "alt_n s1 b = alt_n s b" by (simp add: s1_def alt_prepare_n)
  show "active_alts s1 b = active_alts s b" by (simp add: s1_def alt_prepare_active)
  show "mem_ok s1 p" if "p \<in> set (active_alts s b)" for p
    using that b active_altsD(1,2) [OF that] by (simp add: s1_def alt_prepare_at alts_callable_def)
  show "alt_xalt (alts s1 b ! i) = (b, 0) \<and> alt_task (alts s1 b ! i) = t" if "i < alt_n s b" for i
    using that alt_n_le [of s b] by (simp add: s1_def alt_prepare_nth)
  show "alt_n s1 b < length (alts s1 b)"
    using b by (simp add: s1_def alt_prepare_n alt_prepare_len alts_callable_def)
qed

lemma chan_inv_enqueue:
  assumes inv: "chan_inv s B" and b: "b \<notin> B" and n: "alt_n s b < length (alts s b)"
    and own: "\<And>i. i < alt_n s b \<Longrightarrow> alt_xalt (alts s b ! i) = (b, 0) \<and> alt_task (alts s b ! i) = t"
    and mo: "\<And>p. p \<in> set (active_alts s b) \<Longrightarrow> mem_ok s p"
    and no: "\<And>p. p \<in> set (active_alts s b) \<Longrightarrow> \<not> altcanexec s (alt_at s p)"
    and ne: "active_alts s b \<noteq> []"
  shows "\<exists>s'. each_alt altqueue (active_alts s b) s = Return s' \<and> same_core s s' \<and>
      chan_inv s' (insert b B)"
proof -
  have fresh: "p \<notin> set (wq s c op)" if "p \<in> set (active_alts s b)" for p c op
    using wq_mem(1) [OF inv] active_altsD(1) [OF that] b by metis
  have dq: "distinct_queues s" using inv by (simp add: chan_inv_def)
  have ok: "\<forall>p \<in> set (active_alts s b). snd (place s p) \<in> {CHANSND, CHANRCV} \<and>
      (\<forall>c op. p \<notin> set (wq s c op))"
  proof
    fix p assume p: "p \<in> set (active_alts s b)"
    from active_altsD(3) [OF p] fresh [OF p]
    show "snd (place s p) \<in> {CHANSND, CHANRCV} \<and> (\<forall>c op. p \<notin> set (wq s c op))"
      by (auto simp: place_def)
  qed
  from each_altqueue [OF distinct_active dq ok] obtain s' where
    s': "each_alt altqueue (active_alts s b) s = Return s'" "same_core s s'" "distinct_queues s'"
    and w: "\<And>c op. set (wq s' c op) = set (wq s c op) \<union> at_place s (set (active_alts s b)) c op"
    by blast
  note core = same_core_simps [OF s'(2)]
  have q: "set (wq s' c op) = (\<Union>b' \<in> insert b B. at_place s' (set (active_alts s' b')) c op)" for c op
  proof -
    have "set (wq s c op) = (\<Union>b' \<in> B. at_place s (set (active_alts s b')) c op)"
      using inv by (simp add: chan_inv_def)
    then show ?thesis by (simp add: w core at_place_def Un_commute)
  qed
  have wf: "waiter_ok s' b'" if "b' \<in> insert b B" for b'
  proof -
    have "waiter_ok s b" unfolding waiter_ok_def owner_def
      using n own mo ne active_pos [OF ne] by simp
    moreover have "b' \<in> B \<Longrightarrow> waiter_ok s b'" using inv by (simp add: chan_inv_def)
    ultimately have "waiter_ok s b'" using that by blast
    then show ?thesis by (rule waiter_frame) (simp_all add: core)
  qed
  have "no_missed s' c" for c
  proof -
    have nm: "no_missed s c" using inv by (simp add: chan_inv_def)
    have exec: "\<not> altcanexec s (alt_at s p)" "alt_c (alt_at s p) = c" "alt_op (alt_at s p) = op"
      "fst p = b" if "p \<in> at_place s (set (active_alts s b)) c op" for p op
      using that no [of p] active_altsD(1) [of p s b] by (auto simp: at_place_def place_def)
    show ?thesis
    proof (cases "bufsize (chans s c) = 0")
      case True
      have snd: "wq s c CHANRCV = []" if "p \<in> at_place s (set (active_alts s b)) c CHANSND" for p
        using exec [OF that] True by (auto simp: altcanexec_def wq_def)
      have rcv: "wq s c CHANSND = []" if "p \<in> at_place s (set (active_alts s b)) c CHANRCV" for p
        using exec [OF that] True by (auto simp: altcanexec_def wq_def)
      have new: "fst p = fst q" if "p \<in> at_place s (set (active_alts s b)) c CHANSND"
          "q \<in> at_place s (set (active_alts s b)) c CHANRCV" for p q
        using exec(4) [OF that(1)] exec(4) [OF that(2)] by simp
      have "fst p = fst q" if "p \<in> set (wq s' c CHANSND)" "q \<in> set (wq s' c CHANRCV)" for p q
        using that nm True snd [of p] rcv [of q] new [of p q] unfolding w no_missed_def by auto
      with True show ?thesis by (auto simp: no_missed_def core)
    next
      case False
      have wf: "nbuf (chans s c) \<le> bufsize (chans s c)" using inv by (simp add: chan_inv_def chan_wf_def)
      have snd: "nbuf (chans s c) = bufsize (chans s c)"
        if "p \<in> at_place s (set (active_alts s b)) c CHANSND" for p
        using exec [OF that] False wf by (auto simp: altcanexec_def Let_def)
      have rcv: "nbuf (chans s c) = 0" if "p \<in> at_place s (set (active_alts s b)) c CHANRCV" for p
        using exec [OF that] False by (auto simp: altcanexec_def Let_def)
      have e: "wq s' c op \<noteq> [] \<Longrightarrow> wq s c op \<noteq> [] \<or> (\<exists>p. p \<in> at_place s (set (active_alts s b)) c op)"
        for op
      proof -
        assume "wq s' c op \<noteq> []"
        then have "hd (wq s' c op) \<in> set (wq s c op) \<union> at_place s (set (active_alts s b)) c op"
          using w [of c op] by (metis hd_in_set)
        then show ?thesis by (metis UnE empty_iff list.set(1))
      qed
      show ?thesis
        using False nm snd rcv e [of CHANSND] e [of CHANRCV] by (auto simp: no_missed_def core)
    qed
  qed
  moreover have "chan_wf (chans s' c)" for c
    using inv by (simp add: chan_inv_def chan_wf_def core)
  ultimately have "chan_inv s' (insert b B)" using s'(3) q wf by (simp add: chan_inv_def)
  with s' show ?thesis by blast
qed

text \<open>What a call that executes its \<open>i\<close>-th alt achieves.\<close>

definition alt_executed ::
    "chanstate \<Rightarrow> nat \<Rightarrow> nat \<Rightarrow> aptr option \<Rightarrow> tptr list \<Rightarrow> chanstate \<Rightarrow> bool" where
  "alt_executed s b i q rq s' \<longleftrightarrow>
     (let p = (b, i); c = alt_c (alt_at s p)
      in i < alt_n s b \<and>
         (\<exists>xs ys. transferred s s' c (sender s p q) (receiver s p q) xs ys) \<and>
         (\<forall>c'. c' \<noteq> c \<longrightarrow> contents (chans s' c') = contents (chans s c')) \<and>
         (case q of
            None \<Rightarrow> chan_sys s' (in_use s) rq
          | Some x \<Rightarrow> x \<in> set (partners s p) \<and> chanalt_resume (fst x) s' = int (snd x) \<and>
              chan_sys s' (in_use s - {fst x}) (rq @ [owner s (fst x)])))"

lemma altcanexec_cong: "chans s' = chans s \<Longrightarrow> altcanexec s' a = altcanexec s a"
  by (simp add: altcanexec_def)

lemma contents_ring: "ring c = ring c' \<Longrightarrow> contents c = contents c'"
  by (simp add: ring_def contents_def chan_slot_def fun_eq_iff)

lemma transferred_cong:
  "transferred s s1 c a r xs ys \<Longrightarrow> mem s' = mem s1 \<Longrightarrow> ring (chans s' c) = ring (chans s1 c) \<Longrightarrow>
   transferred s s' c a r xs ys"
  using contents_ring [of "chans s' c" "chans s1 c"] by (simp add: transferred_def)

lemma same_but_data_other: "same_but_data c s s' \<Longrightarrow> c' \<noteq> c \<Longrightarrow> chans s' c' = chans s c'"
  by (simp add: same_but_data_def)

lemma owners_frame:
  assumes "owners_inv s B rq" and "B' \<subseteq> B" and "\<And>b. b \<in> B' \<Longrightarrow> owner s' b = owner s b"
    and "\<And>t. t \<in> set (live (lib s)) \<Longrightarrow> t \<notin> set rq \<Longrightarrow> taskrunning (lib s) \<noteq> Some t \<Longrightarrow>
           t \<in> owner s ` B' \<Longrightarrow>
           t \<in> set (live (lib s')) \<and> t \<notin> set rq' \<and> taskrunning (lib s') \<noteq> Some t"
  shows "owners_inv s' B' rq'"
proof -
  have "inj_on (owner s) B'" using assms(1,2) by (auto simp: owners_inv_def intro: inj_on_subset)
  then have "inj_on (owner s') B'" using assms(3) by (simp cong: inj_on_cong)
  moreover have "owner s' b \<in> set (live (lib s')) \<and> owner s' b \<notin> set rq' \<and>
      taskrunning (lib s') \<noteq> Some (owner s' b)" if "b \<in> B'" for b
    using that assms(1,2) assms(4) [of "owner s b"] assms(3) [OF that]
    by (auto simp: owners_inv_def)
  ultimately show ?thesis by (simp add: owners_inv_def)
qed

lemma owners_frame_lib:
  assumes "owners_inv s B rq" and "lib s' = lib s" and "\<And>b. b \<in> B \<Longrightarrow> alts s' b = alts s b"
  shows "owners_inv s' B rq"
  by (rule owners_frame [OF assms(1) subset_refl]) (simp_all add: assms(2,3) owner_def)

lemma chanalt_exec_case:
  assumes sys: "chan_sys s (in_use s) rq" and b: "alts_callable s b"
    and i: "i < alt_n s b" and can: "altcanexec (alt_prepare t b s) (alts (alt_prepare t b s) b ! i)"
  shows "\<exists>s'. altexec rnd (b, i) (alt_prepare t b s\<lparr>draws := draws (alt_prepare t b s) + 1\<rparr>) =
      Return s' \<and> alt_executed s b i (partner rnd (b, i) (s\<lparr>draws := draws s + 1\<rparr>)) rq s'"
proof -
  define s0 where "s0 = alt_prepare t b s"
  define s1 where "s1 = s0\<lparr>draws := draws s0 + 1\<rparr>"
  define p where "p = (b, i)"
  define B where "B = in_use s"
  define c where "c = alt_c (alt_at s p)"
  have inv: "chan_inv s B" using sys by (simp add: chan_sys_def B_def)
  note pr = prepared(1-6) [OF inv b, where t = t, folded s0_def] prepared(7) [OF inv b]
  have at1: "alt_at s1 = alt_at s0" "chans s1 = chans s" "mem s1 = mem s" "lib s1 = lib s"
    "place s1 = place s0" "active_alts s1 = active_alts s0" "alts s1 = alts s0"
    "mem_ok s1 = mem_ok s0" "owner s1 = owner s0" "wq s1 = wq s" "alt_value s1 = alt_value s0"
    by (simp_all add: s1_def s0_def alt_at_def place_def active_alts_def alt_n_def owner_def wq_def
        mem_ok_def alt_value_def fun_eq_iff cong: option.case_cong)
  have inv1: "chan_inv s1 B" by (rule chan_inv_frame [OF pr(1)]) (simp_all add: s1_def)
  have can1: "altcanexec s1 (alt_at s1 p)"
    using can altcanexec_cong [of s1 s0] unfolding at1
    by (simp add: p_def alt_at_def s0_def s1_def)
  have pa: "p \<in> set (active_alts s b)"
  proof (rule active_altsI)
    have "alt_op (alt_at s0 p) \<noteq> CHANNOP"
      using can1 by (auto simp: altcanexec_def at1 split: if_splits)
    then show "alt_op (alt_at s p) \<noteq> CHANNOP" using i by (simp add: s0_def p_def alt_prepare_at)
  qed (use i in \<open>simp_all add: p_def\<close>)
  then have pa1: "p \<in> set (active_alts s1 b)" by (simp add: at1 s0_def alt_prepare_active)
  have mo: "mem_ok s1 p" using pr(4) [OF pa] by (simp add: at1)
  have same: "alt_c (alt_at s1 x) = alt_c (alt_at s x)" "alt_op (alt_at s1 x) = alt_op (alt_at s x)"
    "alt_v (alt_at s1 x) = alt_v (alt_at s x)" "alt_value s1 x = alt_value s x"
    if "snd x < alt_n s (fst x)" for x
    using that by (simp_all add: at1 s0_def alt_prepare_at)
  have c1: "alt_c (alt_at s1 p) = c" "alt_op (alt_at s1 p) = alt_op (alt_at s p)"
    using same [of p] i by (simp_all add: c_def p_def)
  have parts: "partners s1 p = partners s p" by (simp add: partners_def c1 at1(10)) (simp add: c_def)
  have ptn: "partner rnd p s1 = partner rnd p (s\<lparr>draws := draws s + 1\<rparr>)"
    using parts by (simp add: partner_def s1_def s0_def)
      (simp add: partners_def alt_at_def wq_def)
  have snd_rcv: "sender s1 p q = sender s p q" "receiver s1 p q = receiver s p q" for q
    by (simp_all add: sender_def receiver_def c1)
  have lift: "transferred s s' c (sender s p q) (receiver s p q) xs ys"
    if "transferred s1 s' c (sender s1 p q) (receiver s1 p q) xs ys"
      and "q = None \<or> (\<exists>x. q = Some x \<and> snd x < alt_n s (fst x))" for s' q xs ys
  proof -
    have "snd x < alt_n s (fst x)" if "sender s p q = Some x \<or> receiver s p q = Some x" for x
      using that \<open>q = None \<or> _\<close> i by (auto simp: sender_def receiver_def p_def split: if_splits)
    then show ?thesis
      using that(1) same by (simp add: transferred_def snd_rcv at1(2))
  qed
  show ?thesis
  proof (cases "partner rnd p s1")
    case None
    from altexec_alone [OF inv1 pa1 mo can1 c1(1) None] obtain s' xs ys where
      s': "altexec rnd p s1 = Return s'" "chan_inv s' B" "same_but_data c s1 s'"
        "transferred s1 s' c (sender s1 p None) (receiver s1 p None) xs ys" by blast
    have "lib s' = lib s" using same_but_dataD(1) [OF s'(3)] by (simp add: at1)
    moreover have "owners_inv s' B rq"
      by (rule owners_frame_lib [of s])
         (use sys same_but_dataD(1,2) [OF s'(3)] pr(7) in
           \<open>auto simp: chan_sys_def B_def at1 s0_def intro!: alt_prepare_sel(5)\<close>)
    ultimately have "chan_sys s' B rq" using s'(2) sys by (simp add: chan_sys_def)
    then have "alt_executed s b i None rq s'"
      using i lift [OF s'(4)] same_but_data_other [OF s'(3)]
      unfolding alt_executed_def Let_def by (fold p_def, fold c_def) (auto simp: B_def at1)
    then show ?thesis using s'(1) ptn None by (simp add: p_def s1_def s0_def)
  next
    case (Some x)
    from altexec_partner [OF inv1 pa1 mo can1 c1(1) Some] obtain s' s2 xs ys where
      s': "altexec rnd p s1 = Return s'" "chan_inv s' (B - {fst x})" "fst x \<in> B"
        "lib s' = taskready (owner s1 (fst x)) (lib s1)" "chanalt_resume (fst x) s' = int (snd x)"
      and al: "\<And>b. b \<noteq> fst x \<Longrightarrow> alts s' b = alts s1 b"
      and tr: "same_but_data c (s1\<lparr>draws := draws s1 + 1\<rparr>) s2" "mem s' = mem s2"
        "\<And>c'. ring (chans s' c') = ring (chans s2 c')"
        "transferred s1 s2 c (sender s1 p (Some x)) (receiver s1 p (Some x)) xs ys" by blast
    have xin: "x \<in> set (partners s p)" using partner_in [OF Some] by (simp add: parts)
    then have xn: "snd x < alt_n s (fst x)"
      using wq_mem(4) [OF inv, of x] by (simp add: partners_def)
    have own: "owner s1 b' = owner s b'" if "b' \<in> B" for b'
      using that pr(7) by (simp add: at1 owner_def s0_def) (metis alt_prepare_sel(5))
    define t where "t = owner s (fst x)"
    have t: "t \<in> set (live (lib s))" "t \<notin> set rq" "taskrunning (lib s) \<noteq> Some t"
      using sys s'(3) by (auto simp: chan_sys_def owners_inv_def t_def B_def)
    have l': "lib s' = taskready t (lib s)" using s'(3,4) own by (simp add: t_def at1)
    have si: "sched_inv (lib s') (rq @ [t])"
      unfolding l' by (rule taskready_inv) (use sys t in \<open>simp_all add: chan_sys_def\<close>)
    have "owners_inv s' (B - {fst x}) (rq @ [t])"
    proof (rule owners_frame [of s B rq])
      show "owners_inv s B rq" using sys by (simp add: chan_sys_def B_def)
      show "owner s' b' = owner s b'" if "b' \<in> B - {fst x}" for b'
        using that al [of b'] own [of b'] by (simp add: owner_def)
      have "owner s b' \<noteq> t" if "b' \<in> B - {fst x}" for b'
        using sys that s'(3) unfolding t_def
        by (auto simp: chan_sys_def owners_inv_def B_def dest: inj_onD)
      then show "u \<in> set (live (lib s')) \<and> u \<notin> set (rq @ [t]) \<and> taskrunning (lib s') \<noteq> Some u"
        if "u \<in> set (live (lib s))" "u \<notin> set rq" "taskrunning (lib s) \<noteq> Some u"
          "u \<in> owner s ` (B - {fst x})" for u
        using that by (auto simp: l' taskready_simps)
    qed simp
    then have "chan_sys s' (B - {fst x}) (rq @ [t])" using s'(2) si by (simp add: chan_sys_def)
    moreover have "contents (chans s' c') = contents (chans s c')" if "c' \<noteq> c" for c'
      using contents_ring [OF tr(3)] same_but_data_other [OF tr(1) that] by (simp add: at1)
    moreover have "transferred s s' c (sender s p (Some x)) (receiver s p (Some x)) xs ys"
      using transferred_cong [OF tr(4) tr(2) tr(3)] lift xn by blast
    ultimately have "alt_executed s b i (Some x) rq s'"
      using i xin s'(5) unfolding alt_executed_def Let_def
      by (fold p_def, fold c_def) (auto simp: B_def t_def)
    then show ?thesis using s'(1) ptn Some by (simp add: p_def s1_def s0_def)
  qed
qed

definition alt_partner :: "(nat \<Rightarrow> nat) \<Rightarrow> nat \<Rightarrow> nat \<Rightarrow> chanstate \<Rightarrow> aptr option" where
  "alt_partner rnd b i s = partner rnd (b, i) (s\<lparr>draws := draws s + 1\<rparr>)"

lemma chan_sys_prepare:
  assumes sys: "chan_sys s (in_use s) rq" and b: "alts_callable s b"
  shows "chan_sys (alt_prepare t b s) (in_use s) rq"
proof -
  have inv: "chan_inv s (in_use s)" using sys by (simp add: chan_sys_def)
  have "owners_inv (alt_prepare t b s) (in_use s) rq"
    by (rule owners_frame_lib [of s])
       (use sys prepared(7) [OF inv b] in \<open>auto simp: chan_sys_def intro!: alt_prepare_sel(5)\<close>)
  with sys prepared(1) [OF inv b] show ?thesis by (simp add: chan_sys_def)
qed

lemma chan_sys_block:
  assumes sys: "chan_sys s (in_use s) rq" and run: "taskrunning (lib s) = Some t"
    and b: "alts_callable s b"
    and no: "\<And>i. i < alt_n s b \<Longrightarrow> \<not> altcanexec (alt_prepare t b s) (alts (alt_prepare t b s) b ! i)"
  shows "\<exists>s2. each_alt altqueue (active_alts (alt_prepare t b s) b) (alt_prepare t b s) = Return s2 \<and>
      (\<exists>B. chan_sys (s2\<lparr>lib := taskswitch (lib s2)\<rparr>) B rq) \<and> mem s2 = mem s \<and> lib s2 = lib s \<and>
      (\<forall>c. ring (chans s2 c) = ring (chans s c))"
proof -
  define B where "B = in_use s"
  define s1 where "s1 = alt_prepare t b s"
  have inv: "chan_inv s B" using sys by (simp add: chan_sys_def B_def)
  have sys1: "chan_sys s1 B rq" unfolding s1_def B_def by (rule chan_sys_prepare [OF sys b])
  note pr = prepared(1-6) [OF inv b, where t = t, folded s1_def] prepared(7) [OF inv b]
  note sw = taskswitch_inv [of "lib s" rq]
  have si: "sched_inv (lib s) rq" using sys by (simp add: chan_sys_def)
  have lib1: "lib s1 = lib s" by (simp add: s1_def)
  have tlive: "t \<in> set (live (lib s))" "t \<notin> set rq" using si run by (auto simp: sched_inv_defs)
  show ?thesis
  proof (cases "active_alts s1 b = []")
    case True
    have "owners_inv (s1\<lparr>lib := taskswitch (lib s1)\<rparr>) B rq"
      by (rule owners_frame [of s1 B rq])
         (use sys1 sw si in \<open>auto simp: chan_sys_def owner_def lib1\<close>)
    moreover have "chan_inv (s1\<lparr>lib := taskswitch (lib s1)\<rparr>) B"
      by (rule chan_inv_frame [OF pr(1)]) simp_all
    ultimately have "chan_sys (s1\<lparr>lib := taskswitch (lib s1)\<rparr>) B rq"
      using sw si by (simp add: chan_sys_def lib1)
    with True show ?thesis by (auto simp: s1_def)
  next
    case False
    have "\<not> altcanexec s1 (alt_at s1 p)" if "p \<in> set (active_alts s1 b)" for p
      using active_altsD(1,2) [OF that] no [of "snd p"] pr(2)
      by (simp add: alt_at_def flip: s1_def)
    from chan_inv_enqueue [OF pr(1) pr(7) pr(6) _ _ this False, of t] pr(2-5) obtain s2 where
      s2: "each_alt altqueue (active_alts s1 b) s1 = Return s2" "same_core s1 s2"
        "chan_inv s2 (insert b B)" by auto
    note core = same_core_simps [OF s2(2)]
    define s' where "s' = s2\<lparr>lib := taskswitch (lib s2)\<rparr>"
    have "chan_inv s' (insert b B)"
      by (rule chan_inv_frame [OF s2(3)]) (simp_all add: s'_def)
    moreover have "owners_inv s' (insert b B) rq"
    proof -
      have ls': "lib s' = taskswitch (lib s)" by (simp add: s'_def core lib1)
      have o: "owner s' b' = owner s1 b'" for b' by (simp add: owner_def s'_def core)
      have "0 < alt_n s b" using active_pos [OF False] pr(2) by simp
      then have ob: "owner s1 b = t" using pr(5) by (simp add: owner_def)
      have "owners_inv s' B rq"
        by (rule owners_frame [of s1 B rq])
           (use sys1 sw si in \<open>auto simp: chan_sys_def owner_def s'_def lib1 core\<close>)
      moreover have "t \<notin> owner s1 ` B"
        using sys1 run by (auto simp: chan_sys_def owners_inv_def lib1)
      moreover have "owner s' = owner s1" using o by blast
      ultimately show ?thesis
        using tlive sw si ob pr(7) ls' by (simp add: owners_inv_def)
    qed
    ultimately have "chan_sys s' (insert b B) rq"
      using sw si by (simp add: chan_sys_def s'_def core lib1)
    moreover have "ring (chans s2 c) = ring (chans s c)" for c
      using s2(2) by (simp add: same_core_def s1_def)
    moreover have "mem s2 = mem s" by (simp add: core s1_def)
    ultimately show ?thesis using s2(1) by (auto simp: s'_def s1_def core)
  qed
qed

text \<open>Every call of \<^verbatim>\<open>chanalt\<close> executes one of its alts, gives up, or blocks; it never aborts.\<close>

lemma chanalt_spec:
  assumes sys: "chan_sys s (in_use s) rq" and run: "taskrunning (lib s) = Some t"
    and b: "alts_callable s b"
  shows "\<exists>r s'. chanalt rnd b s = Return (r, s') \<and>
      ((\<exists>i. r = AltDone (int i) \<and> alt_executed s b i (alt_partner rnd b i s) rq s') \<or>
       (r = AltDone (-1) \<and> s' = alt_prepare t b s) \<or>
       (r = AltBlocked \<and> chan_sys s' (in_use s') rq \<and> mem s' = mem s \<and>
        (\<forall>c. contents (chans s' c) = contents (chans s c))))"
proof -
  define s1 where "s1 = alt_prepare t b s"
  define can where "can = filter (\<lambda>i. altcanexec s1 (alts s1 b ! i)) [0..<alt_n s b]"
  show ?thesis
  proof (cases "can = []")
    case False
    define i where "i = can ! (rnd (draws s1) mod length can)"
    have "i \<in> set can" using False by (simp add: i_def)
    then have "i < alt_n s b" "altcanexec s1 (alts s1 b ! i)" by (simp_all add: can_def)
    from chanalt_exec_case [OF sys b this(1), of t rnd] this(2) obtain s' where
      "altexec rnd (b, i) (s1\<lparr>draws := draws s1 + 1\<rparr>) = Return s'"
      "alt_executed s b i (alt_partner rnd b i s) rq s'"
      by (auto simp: s1_def alt_partner_def)
    with False run show ?thesis
      by (auto simp: chanalt_def Let_def i_def simp flip: s1_def can_def)
  next
    case True
    then have no: "\<not> altcanexec s1 (alts s1 b ! i)" if "i < alt_n s b" for i
      using that by (auto simp: can_def filter_empty_conv)
    show ?thesis
    proof (cases "alt_op (alts s b ! alt_n s b) = CHANEND")
      case False
      with True run have "chanalt rnd b s = Return (AltDone (-1), s1)"
        by (simp add: chanalt_def Let_def flip: s1_def can_def)
      then show ?thesis by (auto simp: s1_def)
    next
      case blk: True
      from chan_sys_block [OF sys run b] no obtain s2 B where
        s2: "each_alt altqueue (active_alts s1 b) s1 = Return s2"
          "chan_sys (s2\<lparr>lib := taskswitch (lib s2)\<rparr>) B rq" "mem s2 = mem s"
          "\<forall>c. ring (chans s2 c) = ring (chans s c)" by (auto simp: s1_def)
      have "in_use (s2\<lparr>lib := taskswitch (lib s2)\<rparr>) = B"
        using s2(2) chan_inv_in_use by (simp add: chan_sys_def)
      moreover have "chanalt rnd b s = Return (AltBlocked, s2\<lparr>lib := taskswitch (lib s2)\<rparr>)"
        using True blk run s2(1) by (simp add: chanalt_def Let_def flip: s1_def can_def)
      moreover have "contents (chans s2 c) = contents (chans s c)" for c
        using s2(4) contents_ring by blast
      ultimately show ?thesis using s2(2,3) by simp
    qed
  qed
qed

section \<open>Programs over channels\<close>

definition nil_channel :: channel where
  "nil_channel = \<lparr>bufsize = 0, elemsize = 0, buf = [], nbuf = 0, off = 0, asend = empty_altarray,
     arecv = empty_altarray\<rparr>"

text \<open>What a step shows: a transfer on a channel, with its sender and its receiver.\<close>

datatype chan_event = Silent | Transfer cptr "aptr option" "aptr option"

text \<open>
  A program creates channels, prepares alt arrays no blocked call is using, writes its memory,
  calls \<^verbatim>\<open>chanalt\<close>, yields, creates tasks and exits, and the scheduler picks the next task.
\<close>

inductive chan_step :: "(nat \<Rightarrow> nat) \<Rightarrow> chanstate \<Rightarrow> chan_event \<Rightarrow> chanstate \<Rightarrow> bool" for rnd where
  cs_new: "chans s c = nil_channel \<Longrightarrow> length junk = bsz * esz \<Longrightarrow> bsz < 2 ^ 31 \<Longrightarrow>
     chancreate esz bsz (Some junk) = Return ch \<Longrightarrow> chan_step rnd s Silent (upd_chan c ch s)"
| cs_alts: "b \<notin> in_use s \<Longrightarrow> chan_step rnd s Silent (s\<lparr>alts := (alts s)(b := a)\<rparr>)"
| cs_mem: "length (mem s v) \<le> length x \<Longrightarrow> chan_step rnd s Silent (s\<lparr>mem := (mem s)(v := x)\<rparr>)"
| cs_exec: "taskrunning (lib s) = Some t \<Longrightarrow> alts_callable s b \<Longrightarrow>
     chanalt rnd b s = Return (AltDone (int i), s') \<Longrightarrow> q = alt_partner rnd b i s \<Longrightarrow>
     chan_step rnd s
       (Transfer (alt_c (alt_at s (b, i))) (sender s (b, i) q) (receiver s (b, i) q)) s'"
| cs_noblk: "taskrunning (lib s) = Some t \<Longrightarrow> alts_callable s b \<Longrightarrow>
     chanalt rnd b s = Return (AltDone k, s') \<Longrightarrow> k < 0 \<Longrightarrow> chan_step rnd s Silent s'"
| cs_block: "taskrunning (lib s) = Some t \<Longrightarrow> alts_callable s b \<Longrightarrow>
     chanalt rnd b s = Return (AltBlocked, s') \<Longrightarrow> chan_step rnd s Silent s'"
| cs_pick: "taskrunning (lib s) = None \<Longrightarrow> sched_pick (lib s) = Return l \<Longrightarrow>
     chan_step rnd s Silent (s\<lparr>lib := l\<rparr>)"
| cs_yield: "taskrunning (lib s) = Some t \<Longrightarrow>
     chan_step rnd s Silent (s\<lparr>lib := snd (taskyield (lib s))\<rparr>)"
| cs_create: "taskrunning (lib s) = Some r \<Longrightarrow> t \<notin> set (live (lib s)) \<Longrightarrow>
     taskcreate fn arg (Some t) ok (lib s) = Return (n, l) \<Longrightarrow> chan_step rnd s Silent (s\<lparr>lib := l\<rparr>)"
| cs_exit: "taskrunning (lib s) = Some t \<Longrightarrow>
     chan_step rnd s Silent (s\<lparr>lib := taskexit v (lib s)\<rparr>)"

definition chan_start :: "libtask \<Rightarrow> chanstate" where
  "chan_start l = \<lparr>lib = l, chans = (\<lambda>_. nil_channel), alts = (\<lambda>_. []), mem = (\<lambda>_. []), draws = 0\<rparr>"

inductive chan_reachable :: "(nat \<Rightarrow> nat) \<Rightarrow> chanstate \<Rightarrow> bool" for rnd where
  cr_start: "main_start fn (Some t) ok = Return l \<Longrightarrow> chan_reachable rnd (chan_start l)"
| cr_step: "chan_reachable rnd s \<Longrightarrow> chan_step rnd s e s' \<Longrightarrow> chan_reachable rnd s'"

lemma lib_frame:
  assumes sys: "chan_sys s B rq" and si: "sched_inv l rq'"
    and keep: "\<And>t. t \<in> set (live (lib s)) \<Longrightarrow> t \<notin> set rq \<Longrightarrow> taskrunning (lib s) \<noteq> Some t \<Longrightarrow>
       t \<in> set (live l) \<and> t \<notin> set rq' \<and> taskrunning l \<noteq> Some t"
  shows "chan_sys (s\<lparr>lib := l\<rparr>) B rq'"
proof -
  have "chan_inv (s\<lparr>lib := l\<rparr>) B"
    by (rule chan_inv_frame [of s]) (use sys in \<open>simp_all add: chan_sys_def\<close>)
  moreover have "owners_inv (s\<lparr>lib := l\<rparr>) B rq'"
    by (rule owners_frame [of s B rq]) (use sys keep in \<open>auto simp: chan_sys_def owner_def\<close>)
  ultimately show ?thesis using si by (simp add: chan_sys_def)
qed

lemma chan_sys_in_use: "chan_sys s B rq \<Longrightarrow> in_use s = B"
  by (simp add: chan_sys_def chan_inv_in_use)

lemma chan_sys_new:
  assumes sys: "chan_sys s B rq" and old: "chans s c = nil_channel" and len: "length junk = bsz * esz"
    and sz: "bsz < 2 ^ 31" and new: "chancreate esz bsz (Some junk) = Return ch"
  shows "chan_sys (upd_chan c ch s) B rq"
proof -
  define s' where "s' = upd_chan c ch s"
  have inv: "chan_inv s B" using sys by (simp add: chan_sys_def)
  have wf: "chan_wf ch" "contents ch = []" using chan_wf_create [OF new len sz] by auto
  have ch: "asend ch = empty_altarray" "arecv ch = empty_altarray"
    using new by (auto simp: chancreate_def)
  have sel: "lib s' = lib s" "alts s' = alts s" "mem s' = mem s"
    "alt_at s' = alt_at s" "place s' = place s" "active_alts s' = active_alts s"
    "alt_n s' = alt_n s" "owner s' = owner s"
    by (simp_all add: s'_def upd_chan_def alt_at_def place_def active_alts_def alt_n_def owner_def
        fun_eq_iff)
  have che: "c' \<noteq> c \<Longrightarrow> chans s' c' = chans s c'" for c' by (simp add: s'_def upd_chan_def)
  have wq0: "wq s c op = []" for op using old
    by (cases op) (simp_all add: wq_def nil_channel_def empty_altarray_def)
  have w: "wq s' c' op = wq s c' op" for c' op
  proof (cases "c' = c")
    case True
    then show ?thesis using wq0 [of op] ch
      by (cases op) (simp_all add: wq_def s'_def upd_chan_def empty_altarray_def)
  qed (simp add: wq_def s'_def upd_chan_def)
  have "mem_ok s' p" if "b \<in> B" "p \<in> set (active_alts s b)" for b p
  proof -
    have "p \<in> set (wq s (alt_c (alt_at s p)) (alt_op (alt_at s p)))"
      using inv that by (auto simp: chan_inv_def at_place_def place_def)
    then have "alt_c (alt_at s p) \<noteq> c" using wq0 by auto
    with chan_inv_mem_ok [OF inv that] show ?thesis
      by (simp add: mem_ok_def sel che cong: option.case_cong)
  qed
  then have wt: "\<forall>b \<in> B. waiter_ok s' b"
    using inv by (simp add: chan_inv_def waiter_ok_def sel)
  have nm: "no_missed s' c'" for c'
  proof (cases "c' = c")
    case True
    then show ?thesis using wq0 by (simp add: no_missed_def w)
  next
    case False
    moreover have "no_missed s c'" using inv by (simp add: chan_inv_def)
    ultimately show ?thesis by (simp add: no_missed_def w che)
  qed
  have wfa: "chan_wf (chans s' c')" for c'
    using inv wf(1) by (cases "c' = c") (simp_all add: chan_inv_def s'_def upd_chan_def)
  have "chan_inv s' B"
    unfolding chan_inv_def distinct_queues_def w at_place_def sel
    using inv wt nm wfa by (auto simp: chan_inv_def distinct_queues_def at_place_def)
  moreover have "owners_inv s' B rq" using sys by (simp add: chan_sys_def owners_inv_def sel)
  ultimately show ?thesis using sys by (simp add: chan_sys_def sel flip: s'_def)
qed

lemma chan_step_sys:
  assumes step: "chan_step rnd s e s'" and sys: "chan_sys s (in_use s) rq"
  shows "\<exists>rq'. chan_sys s' (in_use s') rq'"
proof -
  have inv: "chan_inv s (in_use s)" and si: "sched_inv (lib s) rq" and ow: "owners_inv s (in_use s) rq"
    using sys by (simp_all add: chan_sys_def)
  have "\<exists>B rq'. chan_sys s' B rq'"
    using step
  proof cases
    case (cs_new c junk bsz esz ch)
    with chan_sys_new [OF sys] show ?thesis by blast
  next
    case (cs_alts b a)
    have "chan_inv s' (in_use s)"
      by (rule chan_inv_frame [OF inv]) (use cs_alts in auto)
    moreover have "owners_inv s' (in_use s) rq"
      by (rule owners_frame_lib [OF ow]) (use cs_alts in auto)
    ultimately show ?thesis using si cs_alts by (auto simp: chan_sys_def)
  next
    case (cs_mem v x)
    have "chan_inv s' (in_use s)"
      by (rule chan_inv_frame [OF inv]) (use cs_mem in auto)
    moreover have "owners_inv s' (in_use s) rq"
      by (rule owners_frame_lib [OF ow]) (use cs_mem in auto)
    ultimately show ?thesis using si cs_mem by (auto simp: chan_sys_def)
  next
    case (cs_exec t b i q)
    from chanalt_spec [OF sys cs_exec(2,3), of rnd] cs_exec(4)
    have "alt_executed s b i (alt_partner rnd b i s) rq s'" by auto
    then show ?thesis by (auto simp: alt_executed_def Let_def split: option.splits)
  next
    case (cs_noblk t b k)
    from chanalt_spec [OF sys cs_noblk(2,3), of rnd] cs_noblk(4,5)
    have "s' = alt_prepare t b s" by auto
    with chan_sys_prepare [OF sys cs_noblk(3)] show ?thesis by blast
  next
    case (cs_block t b)
    from chanalt_spec [OF sys cs_block(2,3), of rnd] cs_block(4) show ?thesis by auto
  next
    case (cs_pick l)
    from sched_pick_inv [OF si cs_pick(3,4)] obtain t rq' where
      "rq = t # rq'" "sched_inv l rq'" "taskrunning l = Some t" "live l = live (lib s)" by metis
    with lib_frame [OF sys, of l rq'] cs_pick show ?thesis by auto
  next
    case (cs_yield t)
    note y = taskyield_inv [OF si cs_yield(3)]
    from lib_frame [OF sys y(2)] y cs_yield show ?thesis by auto
  next
    case (cs_create r t fn arg ok n l)
    note c = taskcreate_inv [OF si cs_create(5,4)]
    have "\<exists>B rq'. chan_sys (s\<lparr>lib := l\<rparr>) B rq'"
      using lib_frame [OF sys c(1)] c(2,4) cs_create(4) by force
    with cs_create show ?thesis by simp
  next
    case (cs_exit t v)
    note x = taskexit_inv [OF si cs_exit(3), of v]
    from lib_frame [OF sys x(1)] x cs_exit show ?thesis by auto
  qed
  then show ?thesis using chan_sys_in_use by blast
qed

lemma chan_reachable_sys:
  "chan_reachable rnd s \<Longrightarrow> \<exists>rq. chan_sys s (in_use s) rq"
proof (induction rule: chan_reachable.induct)
  case (cr_start fn t ok l)
  then have "task_reachable l" by (rule reach_main)
  then obtain rq where si: "sched_inv l rq" using task_reachable_inv by blast
  have wq0: "wq (chan_start l) c op = []" for c op
    by (cases op) (simp_all add: wq_def chan_start_def nil_channel_def empty_altarray_def)
  have "chan_inv (chan_start l) {}"
    by (simp add: chan_inv_def distinct_queues_def no_missed_def wq0)
       (simp add: chan_wf_def chan_start_def nil_channel_def)
  then have "chan_sys (chan_start l) {} rq"
    using si by (simp add: chan_sys_def owners_inv_def) (simp add: chan_start_def)
  then show ?case by (metis chan_sys_in_use)
next
  case (cr_step s e s')
  then show ?case using chan_step_sys by blast
qed

text \<open>What a transfer puts into its channel and what it takes out.\<close>

definition sent :: "chanstate \<Rightarrow> aptr option \<Rightarrow> byte list list" where
  "sent s a = (case a of None \<Rightarrow> [] | Some p \<Rightarrow> [alt_value s p])"

definition rcvd :: "chanstate \<Rightarrow> chanstate \<Rightarrow> cptr \<Rightarrow> aptr option \<Rightarrow> byte list list" where
  "rcvd s s' c r =
     (case r of None \<Rightarrow> []
      | Some q \<Rightarrow> (case alt_v (alt_at s q) of None \<Rightarrow> []
                   | Some v \<Rightarrow> [read_block 0 (elemsize (chans s c)) (mem s' v)]))"

text \<open>The receiver keeps the element, in memory that is not the sender's.\<close>

definition observable :: "chanstate \<Rightarrow> aptr option \<Rightarrow> aptr option \<Rightarrow> bool" where
  "observable s a r \<longleftrightarrow>
     (\<forall>q. r = Some q \<longrightarrow> alt_v (alt_at s q) \<noteq> None) \<and>
     (\<forall>p q. a = Some p \<longrightarrow> r = Some q \<longrightarrow> alt_v (alt_at s p) \<noteq> alt_v (alt_at s q))"

lemma transferred_values:
  assumes "transferred s s' c a r xs ys" and "observable s a r"
  shows "contents (chans s c) @ sent s a = rcvd s s' c r @ contents (chans s' c)"
proof -
  have "xs = sent s a" using assms
    by (cases a) (auto simp: transferred_def sent_def observable_def split: if_splits)
  moreover have "ys = rcvd s s' c r" using assms
    by (cases r) (auto simp: transferred_def rcvd_def observable_def split: option.splits)
  ultimately show ?thesis using assms(1) by (simp add: transferred_def)
qed

lemma chan_step_contents:
  assumes step: "chan_step rnd s e s'" and sys: "chan_sys s (in_use s) rq"
  shows "case e of Silent \<Rightarrow> contents (chans s' c) = contents (chans s c)
      | Transfer c' a r \<Rightarrow>
          (if c' = c then observable s a r \<longrightarrow>
             contents (chans s c) @ sent s a = rcvd s s' c r @ contents (chans s' c)
           else contents (chans s' c) = contents (chans s c))"
  using step
proof cases
  case (cs_new c' junk bsz esz ch)
  have "contents (chans s c') = []" using cs_new by (simp add: contents_def nil_channel_def)
  moreover have "contents ch = []" using chan_wf_create cs_new by blast
  ultimately show ?thesis using cs_new by (simp add: upd_chan_def)
next
  case (cs_exec t b i q)
  from chanalt_spec [OF sys cs_exec(2,3), of rnd] cs_exec(4)
  have "alt_executed s b i q rq s'" using cs_exec(5) by auto
  then show ?thesis using cs_exec(1) transferred_values
    by (auto simp: alt_executed_def Let_def split: option.splits)
next
  case (cs_noblk t b k)
  from chanalt_spec [OF sys cs_noblk(2,3), of rnd] cs_noblk(4,5)
  have "s' = alt_prepare t b s" by auto
  then show ?thesis using cs_noblk(1) by simp
next
  case (cs_block t b)
  from chanalt_spec [OF sys cs_block(2,3), of rnd] cs_block(4) show ?thesis
    using cs_block(1) by auto
qed auto

text \<open>
  A run of a program, with the values sent to channel \<open>c\<close> and the values received from it, both in
  order.
\<close>

inductive chan_run ::
    "(nat \<Rightarrow> nat) \<Rightarrow> cptr \<Rightarrow> chanstate \<Rightarrow> byte list list \<Rightarrow> byte list list \<Rightarrow> chanstate \<Rightarrow> bool"
  for rnd c where
  run_nil: "chan_run rnd c s [] [] s"
| run_silent: "chan_run rnd c s xs ys s1 \<Longrightarrow> chan_step rnd s1 Silent s2 \<Longrightarrow> chan_run rnd c s xs ys s2"
| run_other: "chan_run rnd c s xs ys s1 \<Longrightarrow> chan_step rnd s1 (Transfer c' a r) s2 \<Longrightarrow> c' \<noteq> c \<Longrightarrow>
     chan_run rnd c s xs ys s2"
| run_transfer: "chan_run rnd c s xs ys s1 \<Longrightarrow> chan_step rnd s1 (Transfer c a r) s2 \<Longrightarrow>
     observable s1 a r \<Longrightarrow> chan_run rnd c s (xs @ sent s1 a) (ys @ rcvd s1 s2 c r) s2"

lemma chan_run_conserves:
  assumes "chan_run rnd c s xs ys s'" and "chan_sys s (in_use s) rq"
  shows "(\<exists>rq'. chan_sys s' (in_use s') rq') \<and>
      contents (chans s c) @ xs = ys @ contents (chans s' c)"
  using assms
proof (induction rule: chan_run.induct)
  case (run_nil s)
  then show ?case by auto
next
  case (run_silent s xs ys s1 s2)
  then obtain rq' where sys: "chan_sys s1 (in_use s1) rq'" by blast
  from chan_step_sys [OF run_silent(2) sys] chan_step_contents [OF run_silent(2) sys, of c]
    run_silent show ?case by simp
next
  case (run_other s xs ys s1 c' a r s2)
  then obtain rq' where sys: "chan_sys s1 (in_use s1) rq'" by blast
  from chan_step_sys [OF run_other(2) sys] chan_step_contents [OF run_other(2) sys, of c]
    run_other show ?case by simp
next
  case (run_transfer s xs ys s1 a r s2)
  then obtain rq' where sys: "chan_sys s1 (in_use s1) rq'"
    and eq: "contents (chans s c) @ xs = ys @ contents (chans s1 c)" by blast
  have "contents (chans s1 c) @ sent s1 a = rcvd s1 s2 c r @ contents (chans s2 c)"
    using chan_step_contents [OF run_transfer(2) sys, of c] run_transfer(3) by simp
  with eq have "contents (chans s c) @ (xs @ sent s1 a) = (ys @ rcvd s1 s2 c r) @ contents (chans s2 c)"
    by (metis append.assoc)
  with chan_step_sys [OF run_transfer(2) sys] show ?case by blast
qed

section \<open>The ring buffer as a bounded queue\<close>

text \<open>The contract of a bounded FIFO buffer, and what it gives for filling and draining.\<close>

locale bounded_fifo =
  fixes wf :: "'c \<Rightarrow> bool" and items :: "'c \<Rightarrow> 'e list" and cap :: "'c \<Rightarrow> nat"
    and okv :: "'c \<Rightarrow> 'e \<Rightarrow> bool" and put :: "'e \<Rightarrow> 'c \<Rightarrow> 'c" and take1 :: "'c \<Rightarrow> 'c"
    and first :: "'c \<Rightarrow> 'e"
  assumes put: "wf c \<Longrightarrow> length (items c) < cap c \<Longrightarrow> okv c x \<Longrightarrow>
        wf (put x c) \<and> items (put x c) = items c @ [x] \<and> cap (put x c) = cap c \<and>
        okv (put x c) = okv c"
    and take1: "wf c \<Longrightarrow> items c \<noteq> [] \<Longrightarrow>
        wf (take1 c) \<and> items c = first c # items (take1 c) \<and> cap (take1 c) = cap c \<and>
        okv (take1 c) = okv c"
begin

lemma fill:
  "wf c \<Longrightarrow> length (items c) + length xs \<le> cap c \<Longrightarrow> \<forall>x \<in> set xs. okv c x \<Longrightarrow>
   wf (fold put xs c) \<and> items (fold put xs c) = items c @ xs"
proof (induction xs arbitrary: c)
  case (Cons x xs)
  with put [of c x] Cons.IH [of "put x c"] show ?case by simp
qed simp

lemma drain:
  "wf c \<Longrightarrow> n \<le> length (items c) \<Longrightarrow>
   wf ((take1 ^^ n) c) \<and> items ((take1 ^^ n) c) = drop n (items c)"
proof (induction n arbitrary: c)
  case (Suc n)
  then have "items c \<noteq> []" by auto
  with take1 [of c] Suc obtain "wf (take1 c)" "items c = first c # items (take1 c)" by blast
  with Suc.IH [of "take1 c"] Suc.prems(2) show ?case
    by (metis comp_apply drop_Suc_Cons funpow_Suc_right length_Cons Suc_le_mono)
qed simp

lemma fifo:
  assumes "wf c" and "items c = []" and "length xs \<le> cap c" and "\<forall>x \<in> set xs. okv c x"
    and "n < length xs"
  shows "first ((take1 ^^ n) (fold put xs c)) = xs ! n"
proof -
  have f: "wf (fold put xs c)" "items (fold put xs c) = xs" using fill [of c xs] assms by auto
  have d: "wf ((take1 ^^ n) (fold put xs c))" "items ((take1 ^^ n) (fold put xs c)) = drop n xs"
    using drain [OF f(1), of n] f(2) assms(5) by auto
  then have "items ((take1 ^^ n) (fold put xs c)) \<noteq> []" using assms(5) by simp
  with take1 [OF d(1)] d(2) assms(5) show ?thesis by (metis Cons_nth_drop_Suc list.inject)
qed

end

interpretation chan_ring: bounded_fifo chan_wf contents bufsize "\<lambda>c x. length x = elemsize c"
  chan_put chan_take "\<lambda>c. chan_slot c (off c)"
proof unfold_locales
  fix c :: channel and x :: "byte list"
  assume "chan_wf c" and "length (contents c) < bufsize c" and "length x = elemsize c"
  then show "chan_wf (chan_put x c) \<and> contents (chan_put x c) = contents c @ [x] \<and>
      bufsize (chan_put x c) = bufsize c \<and>
      (\<lambda>y. length y = elemsize (chan_put x c)) = (\<lambda>y. length y = elemsize c)"
    using chan_put_spec [of c x] by simp
next
  fix c :: channel
  assume "chan_wf c" and "contents c \<noteq> []"
  moreover from this have "0 < nbuf c" by (metis length_contents length_greater_0_conv)
  ultimately show "chan_wf (chan_take c) \<and> contents c = chan_slot c (off c) # contents (chan_take c) \<and>
      bufsize (chan_take c) = bufsize c \<and>
      (\<lambda>y. length y = elemsize (chan_take c)) = (\<lambda>y. length y = elemsize c)"
    using chan_take_spec [of c] by simp
qed

section \<open>Properties\<close>

text \<open>
  C5: the channels stay consistent whatever a program does with them and whatever \<^verbatim>\<open>rand()\<close> returns:
  every ring buffer is well formed; a channel's queues hold, without duplicates, exactly the alts of
  the blocked calls that name the channel; no rendezvous is missed, that is, a sender and a receiver
  wait at one unbuffered channel only if the same call offers both, senders wait only at a full
  buffer and receivers only at an empty one; and the scheduler's own invariant holds, with every
  blocked task live, unqueued and blocked in one call only.
\<close>

theorem channels_consistent:
  assumes "chan_reachable rnd s"
  shows "\<exists>rq. (\<forall>c. chan_wf (chans s c) \<and> no_missed s c) \<and> distinct_queues s \<and>
    (\<forall>c op. set (wq s c op) = (\<Union>b \<in> in_use s. at_place s (set (active_alts s b)) c op)) \<and>
    sched_inv (lib s) rq \<and> owners_inv s (in_use s) rq"
  using chan_reachable_sys [OF assms] by (auto simp: chan_sys_def chan_inv_def)

definition one_task :: libtask where
  "one_task = (case main_start 7 (Some 100) True of Return s \<Rightarrow> s | _ \<Rightarrow> init_libtask)"

lemma main_start_one_task: "main_start 7 (Some 100) True = Return one_task"
  by (simp add: one_task_def main_start_def taskcreate_def taskalloc_def init_libtask_def Let_def)

theorem channels_consistent_witness:
  "\<exists>rq. (\<forall>c. chan_wf (chans (chan_start one_task) c) \<and> no_missed (chan_start one_task) c) \<and>
    sched_inv (lib (chan_start one_task)) rq"
  using channels_consistent [OF cr_start [OF main_start_one_task]] by blast


text \<open>A run of one task: it sends a byte to a buffered channel and receives it again.\<close>

definition demo0 :: chanstate where
  "demo0 = chan_start (case sched_pick one_task of Return l \<Rightarrow> l | _ \<Rightarrow> one_task)"

definition demo1 :: chanstate where
  "demo1 = demo0\<lparr>chans := (chans demo0)(1 := \<lparr>bufsize = 2, elemsize = 1, buf = [7, 8], nbuf = 0,
       off = 0, asend = empty_altarray, arecv = empty_altarray\<rparr>),
     alts := (alts demo0)(5 := chanop_alts 1 CHANSND (Some 3) False,
       6 := chanop_alts 1 CHANRCV (Some 4) False),
     mem := (mem demo0)(3 := [42], 4 := [0])\<rparr>"

lemma sched_pick_one_task:
  obtains l where "sched_pick one_task = Return l" and "taskrunning l = Some 100"
    and "demo0 = chan_start l"
proof -
  have inv: "sched_inv one_task [100]" and tc: "taskcount one_task \<noteq> 0"
    and idle: "taskrunning one_task = None"
  proof -
    obtain n where c: "taskcreate 7 0 (Some 100) True init_libtask = Return (n, one_task)"
      using main_start_one_task by (auto simp: main_start_def split: outcome.splits prod.splits)
    have "live init_libtask = []" by (simp add: live_def init_libtask_def)
    with taskcreate_inv [OF init_libtask_inv c] show "sched_inv one_task [100]" by simp
    show "taskcount one_task \<noteq> 0" "taskrunning one_task = None"
      by (simp_all add: one_task_def main_start_def taskcreate_def taskalloc_def init_libtask_def
          Let_def taskready_simps)
  qed
  from sched_pick_ready [OF inv _ tc] obtain l where l: "sched_pick one_task = Return l" by auto
  with sched_pick_inv [OF inv idle l] that show thesis
    by (auto simp: demo0_def)
qed

definition demo2 :: chanstate where
  "demo2 = (case chanalt (\<lambda>_. 0) 5 demo1 of Return (r, s) \<Rightarrow> s | _ \<Rightarrow> demo1)"

definition demo3 :: chanstate where
  "demo3 = (case chanalt (\<lambda>_. 0) 6 demo2 of Return (r, s) \<Rightarrow> s | _ \<Rightarrow> demo2)"

lemma demo_running: "taskrunning (lib demo1) = Some 100"
proof -
  obtain l where l: "taskrunning l = Some 100" "demo0 = chan_start l"
    using sched_pick_one_task by blast
  have "lib demo0 = l" unfolding l(2) by (simp add: chan_start_def)
  with l(1) show ?thesis by (simp add: demo1_def)
qed

lemmas chan_eval = chanalt_def altexec_def altcopy_def altcanexec_def alt_prepare_def alt_at_def
  chanop_alts_def alt_n_def terminator_def amove_src_def amove_dst_def chan_put_def chan_take_def
  upd_chan_def empty_altarray_def Let_def active_alts_def read_block_def write_block_def
  set_xalt_def inc32_def dec32_def

lemma demo2_eval:
  "chanalt (\<lambda>_. 0) 5 demo1 = Return (AltDone 0, demo2)"
  "lib demo2 = lib demo1" "mem demo2 = mem demo1" "alts demo2 6 = alts demo1 6"
  "chans demo2 1 = \<lparr>bufsize = 2, elemsize = 1, buf = [42, 8], nbuf = 1, off = 0,
     asend = empty_altarray, arecv = empty_altarray\<rparr>"
proof -
  have "\<exists>s. chanalt (\<lambda>_. 0) 5 demo1 = Return (AltDone 0, s) \<and> lib s = lib demo1 \<and>
      mem s = mem demo1 \<and> alts s 6 = alts demo1 6 \<and>
      chans s 1 = \<lparr>bufsize = 2, elemsize = 1, buf = [42, 8], nbuf = 1, off = 0,
        asend = empty_altarray, arecv = empty_altarray\<rparr>"
    using demo_running by (simp add: chan_eval demo1_def demo0_def)
  then obtain s where s: "chanalt (\<lambda>_. 0) 5 demo1 = Return (AltDone 0, s)" "lib s = lib demo1"
      "mem s = mem demo1" "alts s 6 = alts demo1 6"
      "chans s 1 = \<lparr>bufsize = 2, elemsize = 1, buf = [42, 8], nbuf = 1, off = 0,
        asend = empty_altarray, arecv = empty_altarray\<rparr>" by blast
  moreover have "demo2 = s" using s by (simp add: demo2_def)
  ultimately show "chanalt (\<lambda>_. 0) 5 demo1 = Return (AltDone 0, demo2)"
    "lib demo2 = lib demo1" "mem demo2 = mem demo1" "alts demo2 6 = alts demo1 6"
    "chans demo2 1 = \<lparr>bufsize = 2, elemsize = 1, buf = [42, 8], nbuf = 1, off = 0,
       asend = empty_altarray, arecv = empty_altarray\<rparr>" by simp_all
qed

lemma demo3_eval:
  "chanalt (\<lambda>_. 0) 6 demo2 = Return (AltDone 0, demo3)" "mem demo3 4 = [42]"
proof -
  have "\<exists>s. chanalt (\<lambda>_. 0) 6 demo2 = Return (AltDone 0, s) \<and> mem s 4 = [42]"
    using demo_running demo2_eval by (simp add: chan_eval demo1_def)
  then show "chanalt (\<lambda>_. 0) 6 demo2 = Return (AltDone 0, demo3)" "mem demo3 4 = [42]"
    by (auto simp: demo3_def)
qed

lemma demo_callable: "alts_callable demo1 5" "alts_callable demo2 6"
proof -
  have wq1: "wq demo1 c op = []" "wq demo2 c op = []" for c op
  proof -
    have oth: "chans demo2 c = chans demo1 c" if "c \<noteq> 1"
    proof -
      have "chans (case chanalt (\<lambda>_. 0) 5 demo1 of Return (r, s) \<Rightarrow> s | _ \<Rightarrow> demo1) c = chans demo1 c"
        using demo_running that by (simp add: chan_eval demo1_def demo0_def)
      then show ?thesis by (simp add: demo2_def)
    qed
    show "wq demo1 c op = []"
      by (cases op) (simp_all add: wq_def demo1_def demo0_def chan_start_def nil_channel_def
          empty_altarray_def)
    then show "wq demo2 c op = []"
      using demo2_eval(5) oth by (cases op; cases "c = 1") (simp_all add: wq_def empty_altarray_def)
  qed
  then have use: "in_use demo1 = {}" "in_use demo2 = {}" by (simp_all add: in_use_def)
  show "alts_callable demo1 5" using use
    by (simp add: alts_callable_def mem_ok_def chan_eval) (simp add: demo1_def chan_eval)
  show "alts_callable demo2 6" using use demo2_eval(2-)
    by (simp add: alts_callable_def mem_ok_def chan_eval) (simp add: demo1_def chan_eval)
qed

lemma demo_reach: "chan_reachable rnd demo0"
proof -
  obtain l where l: "sched_pick one_task = Return l" "demo0 = chan_start l"
    using sched_pick_one_task by blast
  have "taskrunning one_task = None"
    by (simp add: one_task_def main_start_def taskcreate_def taskalloc_def init_libtask_def
        Let_def taskready_simps)
  then have "chan_step rnd (chan_start one_task) Silent ((chan_start one_task)\<lparr>lib := l\<rparr>)"
    using l by (intro cs_pick) (simp_all add: chan_start_def)
  moreover have "(chan_start one_task)\<lparr>lib := l\<rparr> = demo0" unfolding l(2) by (simp add: chan_start_def)
  ultimately show ?thesis using cr_start [OF main_start_one_task] cr_step by metis
qed

lemma demo1_steps: "chan_run (\<lambda>_. 0) 1 demo0 [] [] demo1"
proof -
  define d where "d = upd_chan 1 \<lparr>bufsize = 2, elemsize = 1, buf = [7, 8], nbuf = 0,
       off = 0, asend = empty_altarray, arecv = empty_altarray\<rparr> demo0"
  define d1 where "d1 = d\<lparr>alts := (alts d)(5 := chanop_alts 1 CHANSND (Some 3) False)\<rparr>"
  define d2 where "d2 = d1\<lparr>alts := (alts d1)(6 := chanop_alts 1 CHANRCV (Some 4) False)\<rparr>"
  define d3 where "d3 = d2\<lparr>mem := (mem d2)(3 := [42])\<rparr>"
  have nil: "chans demo0 c = nil_channel" for c by (simp add: demo0_def chan_start_def)
  have m0: "mem demo0 v = []" for v by (simp add: demo0_def chan_start_def)
  have "chan_run (\<lambda>_. 0) 1 demo0 [] [] d"
    unfolding d_def by (rule run_silent [OF run_nil cs_new [OF nil, of "[7, 8]" 2 1]])
      (simp_all add: chancreate_def)
  moreover have q: "wq d c op = []" for c op
    by (cases op) (simp_all add: wq_def d_def upd_chan_def nil nil_channel_def empty_altarray_def)
  then have "in_use d = {}" "in_use d1 = {}" by (simp_all add: in_use_def d1_def wq_def)
  ultimately have "chan_run (\<lambda>_. 0) 1 demo0 [] [] d2"
    unfolding d2_def d1_def by (intro run_silent [OF _ cs_alts]) (simp_all add: d1_def)
  then have "chan_run (\<lambda>_. 0) 1 demo0 [] [] d3"
    unfolding d3_def
    by (rule run_silent [OF _ cs_mem]) (simp add: d2_def d1_def d_def upd_chan_def m0)
  then have "chan_run (\<lambda>_. 0) 1 demo0 [] [] (d3\<lparr>mem := (mem d3)(4 := [0])\<rparr>)"
    by (rule run_silent [OF _ cs_mem]) (simp add: d3_def d2_def d1_def d_def upd_chan_def m0)
  moreover have "d3\<lparr>mem := (mem d3)(4 := [0])\<rparr> = demo1"
    by (simp add: d3_def d2_def d1_def d_def upd_chan_def demo1_def)
  ultimately show ?thesis by simp
qed

text \<open>
  C7: a channel is a FIFO queue: over any run of a program, the values already in the channel
  followed by the values sent to it, in order, are the values received from it, in order, followed
  by the values still in it; nothing is lost, duplicated or reordered, whichever alts \<^verbatim>\<open>rand()\<close>
  picks and however transfers through the buffer mix with direct ones.
\<close>

theorem channel_is_fifo:
  assumes "chan_reachable rnd s" and "chan_run rnd c s xs ys s'"
  shows "contents (chans s c) @ xs = ys @ contents (chans s' c)"
  using chan_reachable_sys [OF assms(1)] chan_run_conserves [OF assms(2)] by blast

theorem channel_is_fifo_witness:
  "\<exists>s'. chan_run (\<lambda>_. 0) 1 demo0 [[42]] [[42]] s' \<and> contents (chans s' 1) = []"
proof -
  have at1: "alt_at demo1 (5, 0) = hd (chanop_alts 1 CHANSND (Some 3) False)"
    by (simp add: demo1_def alt_at_def chanop_alts_def)
  have at2: "alt_at demo2 (6, 0) = hd (chanop_alts 1 CHANRCV (Some 4) False)"
    using demo2_eval by (simp add: demo1_def alt_at_def chanop_alts_def)
  have "partners demo1 (5, 0) = []"
    by (simp add: partners_def at1 wq_def chanop_alts_def) (simp add: demo1_def empty_altarray_def)
  then have q1: "alt_partner (\<lambda>_. 0) 5 0 demo1 = None"
    by (simp add: alt_partner_def partner_def partners_def alt_at_def wq_def)
  have "partners demo2 (6, 0) = []"
    by (simp add: partners_def at2 wq_def chanop_alts_def demo2_eval empty_altarray_def
        del: One_nat_def)
  then have q2: "alt_partner (\<lambda>_. 0) 6 0 demo2 = None"
    by (simp add: alt_partner_def partner_def partners_def alt_at_def wq_def)
  have e1: "chan_step (\<lambda>_. 0) demo1 (Transfer 1 (Some (5, 0)) None) demo2"
    using cs_exec [of demo1 100 5 "\<lambda>_. 0" 0 demo2 None] demo_running demo_callable(1) demo2_eval(1) q1
    by (simp add: at1 sender_def receiver_def chanop_alts_def)
  have e2: "chan_step (\<lambda>_. 0) demo2 (Transfer 1 None (Some (6, 0))) demo3"
    using cs_exec [of demo2 100 6 "\<lambda>_. 0" 0 demo3 None] demo_running demo2_eval(2) demo_callable(2)
      demo3_eval(1) q2
    by (simp add: at2 sender_def receiver_def chanop_alts_def)
  have "sent demo1 (Some (5, 0)) = [[42]]"
    by (simp add: sent_def alt_value_def at1 chanop_alts_def amove_src_def)
       (simp add: demo1_def read_block_def)
  moreover have "observable demo1 (Some (5, 0)) None" by (simp add: observable_def)
  moreover have "rcvd demo1 demo2 1 None = []" by (simp add: rcvd_def)
  ultimately have r1: "chan_run (\<lambda>_. 0) 1 demo0 [[42]] [] demo2"
    using run_transfer [OF demo1_steps e1] by simp
  have "rcvd demo2 demo3 1 (Some (6, 0)) = [[42]]"
    by (simp add: rcvd_def at2 chanop_alts_def demo3_eval demo2_eval read_block_def
        del: One_nat_def)
  moreover have "observable demo2 None (Some (6, 0))" by (simp add: observable_def at2 chanop_alts_def)
  moreover have "sent demo2 None = []" by (simp add: sent_def)
  ultimately have r2: "chan_run (\<lambda>_. 0) 1 demo0 [[42]] [[42]] demo3"
    using run_transfer [OF r1 e2] by simp
  from channel_is_fifo [OF demo_reach r2] r2 show ?thesis
    by (auto simp: demo0_def chan_start_def nil_channel_def contents_def)
qed

text \<open>
  when \<^verbatim>\<open>chanalt\<close> executes an alt with a waiting partner \<open>x\<close>, the blocked call that owns
  \<open>x\<close> is finished exactly once: all its alts leave the queues, its task becomes the last of the run
  queue, and when it runs again its \<^verbatim>\<open>chanalt\<close> returns the index of \<open>x\<close>; all other blocked calls
  stay blocked.
\<close>

theorem chanalt_finishes_partner:
  assumes "chan_reachable rnd s" and "taskrunning (lib s) = Some t" and "alts_callable s b"
    and "chanalt rnd b s = Return (AltDone (int i), s')" and "alt_partner rnd b i s = Some x"
  shows "x \<in> set (partners s (b, i)) \<and> chanalt_resume (fst x) s' = int (snd x) \<and>
    in_use s' = in_use s - {fst x} \<and>
    (\<exists>rq. sched_inv (lib s) rq \<and> sched_inv (lib s') (rq @ [owner s (fst x)]))"
proof -
  obtain rq where sys: "chan_sys s (in_use s) rq" using chan_reachable_sys [OF assms(1)] by blast
  from chanalt_spec [OF sys assms(2,3), of rnd] assms(4,5)
  have "alt_executed s b i (Some x) rq s'" by auto
  then have "x \<in> set (partners s (b, i))" "chanalt_resume (fst x) s' = int (snd x)"
    and sys': "chan_sys s' (in_use s - {fst x}) (rq @ [owner s (fst x)])"
    by (auto simp: alt_executed_def Let_def)
  with chan_sys_in_use [OF sys'] sys show ?thesis by (auto simp: chan_sys_def)
qed

text \<open>Two tasks: the first blocks receiving from an unbuffered channel, the second sends.\<close>

definition pair0 :: libtask where
  "pair0 = (case taskcreate 2 0 (Some 20) True (lib demo0) of Return (n, l) \<Rightarrow> l | _ \<Rightarrow> lib demo0)"

definition pair1 :: chanstate where
  "pair1 = demo0\<lparr>lib := pair0,
     chans := (chans demo0)(2 := \<lparr>bufsize = 0, elemsize = 1, buf = [], nbuf = 0, off = 0,
       asend = empty_altarray, arecv = empty_altarray\<rparr>),
     alts := (alts demo0)(5 := chanop_alts 2 CHANSND (Some 3) True,
       6 := chanop_alts 2 CHANRCV (Some 4) True),
     mem := (mem demo0)(3 := [42])\<rparr>"

definition pair2 :: chanstate where
  "pair2 = (case chanalt (\<lambda>_. 0) 6 pair1 of Return (r, s) \<Rightarrow> s | _ \<Rightarrow> pair1)"

definition pair3 :: chanstate where
  "pair3 = (case sched_pick (lib pair2) of Return l \<Rightarrow> pair2\<lparr>lib := l\<rparr> | _ \<Rightarrow> pair2)"

lemma pair0_inv: "sched_inv pair0 [20]" "taskrunning pair0 = Some 100"
  "\<exists>n. taskcreate 2 0 (Some 20) True (lib demo0) = Return (n, pair0)"
  "taskrunning (lib demo0) = Some 100" "set (live (lib demo0)) = {100}"
proof -
  obtain l where l: "sched_pick one_task = Return l" "taskrunning l = Some 100" "demo0 = chan_start l"
    using sched_pick_one_task by blast
  obtain n where c: "taskcreate 7 0 (Some 100) True init_libtask = Return (n, one_task)"
    using main_start_one_task by (auto simp: main_start_def split: outcome.splits prod.splits)
  have idle: "taskrunning one_task = None"
    by (simp add: one_task_def main_start_def taskcreate_def taskalloc_def init_libtask_def
        Let_def taskready_simps)
  have "live init_libtask = []" by (simp add: live_def init_libtask_def)
  with taskcreate_inv [OF init_libtask_inv c]
  have inv: "sched_inv one_task [100]" "live one_task = [100]" by simp_all
  from sched_pick_inv [OF inv(1) idle l(1)] have inv1: "sched_inv l []" "live l = [100]"
    using inv(2) by auto
  have lib: "lib demo0 = l" unfolding l(3) by (simp add: chan_start_def)
  have "\<exists>m l'. taskcreate 2 0 (Some 20) True l = Return (m, l')"
    by (simp add: taskcreate_def taskalloc_def Let_def)
  then obtain m l' where c2: "taskcreate 2 0 (Some 20) True l = Return (m, l')" by blast
  with lib have p0: "pair0 = l'" by (simp add: pair0_def)
  from taskcreate_inv [OF inv1(1) c2] inv1(2) l(2) p0
  show "sched_inv pair0 [20]" "taskrunning pair0 = Some 100" by simp_all
  show "\<exists>n. taskcreate 2 0 (Some 20) True (lib demo0) = Return (n, pair0)"
    using c2 p0 lib by blast
  show "taskrunning (lib demo0) = Some 100" "set (live (lib demo0)) = {100}"
    using lib l(2) inv1(2) by simp_all
qed

lemma pair2_eval:
  "chanalt (\<lambda>_. 0) 6 pair1 = Return (AltBlocked, pair2)" "lib pair2 = taskswitch pair0"
  "chans pair2 2 = \<lparr>bufsize = 0, elemsize = 1, buf = [], nbuf = 0, off = 0, asend = empty_altarray,
     arecv = \<lparr>aa = [(6, 0)], am = 16\<rparr>\<rparr>"
  "alts pair2 6 = (chanop_alts 2 CHANRCV (Some 4) True)
     [0 := \<lparr>alt_c = 2, alt_v = Some 4, alt_op = CHANRCV, alt_task = 100, alt_xalt = (6, 0)\<rparr>]"
  "alts pair2 5 = chanop_alts 2 CHANSND (Some 3) True" "mem pair2 = mem pair1"
proof -
  have "taskrunning (lib pair1) = Some 100" by (simp add: pair1_def pair0_inv)
  then have "\<exists>s. chanalt (\<lambda>_. 0) 6 pair1 = Return (AltBlocked, s) \<and> lib s = taskswitch pair0 \<and>
      chans s 2 = \<lparr>bufsize = 0, elemsize = 1, buf = [], nbuf = 0, off = 0, asend = empty_altarray,
        arecv = \<lparr>aa = [(6, 0)], am = 16\<rparr>\<rparr> \<and>
      alts s 6 = (chanop_alts 2 CHANRCV (Some 4) True)
        [0 := \<lparr>alt_c = 2, alt_v = Some 4, alt_op = CHANRCV, alt_task = 100, alt_xalt = (6, 0)\<rparr>] \<and>
      alts s 5 = chanop_alts 2 CHANSND (Some 3) True \<and> mem s = mem pair1"
    by (simp add: chan_eval pair1_def altqueue_def addarray_def)
  then show "chanalt (\<lambda>_. 0) 6 pair1 = Return (AltBlocked, pair2)" "lib pair2 = taskswitch pair0"
    "chans pair2 2 = \<lparr>bufsize = 0, elemsize = 1, buf = [], nbuf = 0, off = 0, asend = empty_altarray,
       arecv = \<lparr>aa = [(6, 0)], am = 16\<rparr>\<rparr>"
    "alts pair2 6 = (chanop_alts 2 CHANRCV (Some 4) True)
       [0 := \<lparr>alt_c = 2, alt_v = Some 4, alt_op = CHANRCV, alt_task = 100, alt_xalt = (6, 0)\<rparr>]"
    "alts pair2 5 = chanop_alts 2 CHANSND (Some 3) True" "mem pair2 = mem pair1"
    by (auto simp: pair2_def)
qed

lemma pair1_reach: "chan_reachable rnd pair1" "in_use pair1 = {}"
proof -
  define d0 where "d0 = demo0\<lparr>lib := pair0\<rparr>"
  define d where "d = upd_chan 2 \<lparr>bufsize = 0, elemsize = 1, buf = [], nbuf = 0, off = 0,
     asend = empty_altarray, arecv = empty_altarray\<rparr> d0"
  define d1 where "d1 = d\<lparr>alts := (alts d)(5 := chanop_alts 2 CHANSND (Some 3) True)\<rparr>"
  define d2 where "d2 = d1\<lparr>alts := (alts d1)(6 := chanop_alts 2 CHANRCV (Some 4) True)\<rparr>"
  have nil: "chans d0 c = nil_channel" for c by (simp add: d0_def demo0_def chan_start_def)
  have m0: "mem demo0 v = []" for v by (simp add: demo0_def chan_start_def)
  obtain n where "taskcreate 2 0 (Some 20) True (lib demo0) = Return (n, pair0)"
    using pair0_inv(3) by blast
  then have "chan_step rnd demo0 Silent d0"
    unfolding d0_def by (rule cs_create [rotated 2]) (simp_all add: pair0_inv)
  with demo_reach have "chan_reachable rnd d0" by (rule cr_step)
  moreover have "chan_step rnd d0 Silent d"
    unfolding d_def by (rule cs_new [OF nil, of "[]" 0 1]) (simp_all add: chancreate_def)
  ultimately have "chan_reachable rnd d" by (rule cr_step)
  have q: "wq d c op = []" for c op
    by (cases op) (simp_all add: wq_def d_def upd_chan_def nil nil_channel_def empty_altarray_def)
  then have use: "in_use d = {}" "in_use d1 = {}" "in_use d2 = {}"
    by (simp_all add: in_use_def d1_def d2_def wq_def)
  have "chan_step rnd d Silent d1" unfolding d1_def by (rule cs_alts) (simp add: use)
  with \<open>chan_reachable rnd d\<close> have "chan_reachable rnd d1" by (rule cr_step)
  moreover have "chan_step rnd d1 Silent d2" unfolding d2_def by (rule cs_alts) (simp add: use)
  ultimately have "chan_reachable rnd d2" by (rule cr_step)
  moreover have "chan_step rnd d2 Silent (d2\<lparr>mem := (mem d2)(3 := [42])\<rparr>)"
    by (rule cs_mem) (simp add: d2_def d1_def d_def d0_def upd_chan_def m0)
  moreover have eq: "d2\<lparr>mem := (mem d2)(3 := [42])\<rparr> = pair1"
    by (simp add: d2_def d1_def d_def d0_def upd_chan_def pair1_def)
  ultimately show "chan_reachable rnd pair1" using cr_step by metis
  have "in_use (d2\<lparr>mem := (mem d2)(3 := [42])\<rparr>) = in_use d2" by (simp add: in_use_def wq_def)
  with use eq show "in_use pair1 = {}" by simp
qed

lemma pair3_reach:
  "chan_reachable (\<lambda>_. 0) pair3" "taskrunning (lib pair3) = Some 20" "chans pair3 = chans pair2"
  "alts pair3 = alts pair2" "mem pair3 = mem pair2"
proof -
  have "alts_callable pair1 6" using pair1_reach(2)
    by (simp add: alts_callable_def mem_ok_def chan_eval) (simp add: pair1_def chan_eval)
  moreover have "taskrunning (lib pair1) = Some 100" by (simp add: pair1_def pair0_inv)
  ultimately have r2: "chan_reachable (\<lambda>_. 0) pair2"
    using cr_step [OF pair1_reach(1) cs_block] pair2_eval(1) by blast
  note sw = taskswitch_inv [OF pair0_inv(1)]
  have "taskcount (taskswitch pair0) \<noteq> 0"
  proof -
    have "20 \<in> set (live pair0)" using pair0_inv(1) by (auto simp: sched_inv_defs)
    obtain n where c: "taskcreate 2 0 (Some 20) True (lib demo0) = Return (n, pair0)"
      using pair0_inv(3) by blast
    have "\<not> exiting (heap pair0 100)" using pair0_inv by (auto simp: sched_inv_defs)
    then have "taskcount (taskswitch pair0) = taskcount pair0"
      using pair0_inv(2) by (simp add: taskswitch_def sched_return_def Let_def)
    moreover obtain rq where inv: "sched_inv (lib demo0) rq"
      using chan_reachable_sys [OF demo_reach] by (auto simp: chan_sys_def)
    moreover have "taskcount pair0 = taskcount (lib demo0) + 1"
      using taskcreate_eq [OF inv c] by (metis taskready_frame(1))
    moreover from inv have "0 \<le> taskcount (lib demo0)" by (simp add: sched_inv_defs)
    ultimately show ?thesis by simp
  qed
  with sched_pick_ready [OF sw(1)] obtain l where l: "sched_pick (taskswitch pair0) = Return l" by auto
  with sched_pick_inv [OF sw(1,2) l] have run: "taskrunning l = Some 20" by auto
  have p3: "pair3 = pair2\<lparr>lib := l\<rparr>" by (simp add: pair3_def pair2_eval(2) l)
  have "chan_step (\<lambda>_. 0) pair2 Silent pair3"
    unfolding p3 by (rule cs_pick) (simp_all add: pair2_eval(2) sw l)
  with r2 show "chan_reachable (\<lambda>_. 0) pair3" by (rule cr_step)
  show "taskrunning (lib pair3) = Some 20" "chans pair3 = chans pair2"
    "alts pair3 = alts pair2" "mem pair3 = mem pair2"
    using run by (simp_all add: p3)
qed

lemma pair3_callable: "alts_callable pair3 5"
proof -
  have "in_use pair3 = {6}"
  proof -
    obtain rq where "chan_inv pair3 (in_use pair3)"
      using chan_reachable_sys [OF pair3_reach(1)] by (auto simp: chan_sys_def)
    have nil: "chans pair2 c = nil_channel" if "c \<noteq> 2" for c
    proof -
      have "taskrunning (lib pair1) = Some 100" by (simp add: pair1_def pair0_inv)
      then have "chans (case chanalt (\<lambda>_. 0) 6 pair1 of Return (r, s) \<Rightarrow> s | _ \<Rightarrow> pair1) c =
          chans pair1 c"
        using that by (simp add: chan_eval pair1_def altqueue_def addarray_def)
      then show ?thesis using that by (simp add: pair2_def pair1_def demo0_def chan_start_def)
    qed
    have "wq pair3 c op = (if c = 2 \<and> op = CHANRCV then [(6, 0)] else [])" for c op
      using nil pair2_eval(3) pair3_reach(3)
      by (cases op; cases "c = 2") (simp_all add: wq_def nil_channel_def empty_altarray_def)
    then show ?thesis by (simp add: in_use_def)
  qed
  then show ?thesis using pair3_reach(3-5) pair2_eval(5,6)
    by (simp add: alts_callable_def mem_ok_def chan_eval pair2_eval(3))
       (simp add: pair1_def)
qed

theorem chanalt_finishes_partner_witness:
  "\<exists>s'. chanalt (\<lambda>_. 0) 5 pair3 = Return (AltDone 0, s') \<and> chanalt_resume 6 s' = 0 \<and>
     in_use s' = in_use pair3 - {6} \<and>
     (\<exists>rq. sched_inv (lib pair3) rq \<and> sched_inv (lib s') (rq @ [100]))"
proof -
  have "\<exists>s'. chanalt (\<lambda>_. 0) 5 pair3 = Return (AltDone 0, s')"
    using pair3_reach(2-5) pair2_eval(3-6)
    by (simp add: chan_eval altalldequeue_def altdequeue_def delarray_def pair1_def)
  then obtain s' where s': "chanalt (\<lambda>_. 0) 5 pair3 = Return (AltDone (int 0), s')" by auto
  have "alt_partner (\<lambda>_. 0) 5 0 pair3 = Some (6, 0)"
    using pair3_reach(3,4) pair2_eval(3,5)
    by (simp add: alt_partner_def partner_def partners_def alt_at_def wq_def chanop_alts_def)
  from chanalt_finishes_partner [OF pair3_reach(1,2) pair3_callable s' this] s'
  have "chanalt_resume 6 s' = 0" "in_use s' = in_use pair3 - {6}"
    "\<exists>rq. sched_inv (lib pair3) rq \<and> sched_inv (lib s') (rq @ [owner pair3 6])" by simp_all
  moreover have "owner pair3 6 = 100"
    using pair3_reach(4) pair2_eval(4) by (simp add: owner_def chanop_alts_def)
  ultimately show ?thesis using s' by auto
qed

lemma chan_run_reachable: "chan_run rnd c s xs ys s' \<Longrightarrow> chan_reachable rnd s \<Longrightarrow> chan_reachable rnd s'"
  by (induction rule: chan_run.induct) (auto intro: cr_step)


text \<open>
  the ring buffer alone: filling an empty channel with values of its element size, as many as it
  has slots, and taking \<open>n\<close> of them out leaves the \<open>n\<close>-th value at the front, wrap-around
  of the offset included.
\<close>

theorem ring_buffer_order:
  assumes "chan_wf c" and "contents c = []" and "length xs \<le> bufsize c"
    and "\<forall>x \<in> set xs. length x = elemsize c" and "n < length xs"
  shows "chan_slot ((chan_take ^^ n) (fold chan_put xs c)) (off ((chan_take ^^ n) (fold chan_put xs c)))
    = xs ! n"
  using chan_ring.fifo [OF assms] .

theorem ring_buffer_order_witness:
  "let c = \<lparr>bufsize = 3, elemsize = 1, buf = [0, 0, 0], nbuf = 0, off = 2, asend = empty_altarray,
      arecv = empty_altarray\<rparr>; d = chan_take (fold chan_put [[7], [8], [9]] c)
   in buf d = [8, 9, 7] \<and> chan_slot d (off d) = [8]"
proof -
  define c where "c = \<lparr>bufsize = 3, elemsize = 1, buf = [0, 0, 0 :: byte], nbuf = 0, off = 2,
      asend = empty_altarray, arecv = empty_altarray\<rparr>"
  have "chan_slot ((chan_take ^^ 1) (fold chan_put [[7], [8], [9]] c))
      (off ((chan_take ^^ 1) (fold chan_put [[7], [8], [9]] c))) = [[7], [8], [9]] ! 1"
    by (rule ring_buffer_order) (simp_all add: c_def chan_wf_def contents_def)
  moreover have "buf (chan_take (fold chan_put [[7], [8], [9]] c)) = [8, 9, 7]"
    by (simp add: c_def chan_put_def chan_take_def inc32_def dec32_def write_block_def)
  ultimately show ?thesis unfolding Let_def by (fold c_def) simp
qed

end
