(* ===== verification/Task_Lock.thy ===== *)
theory Task_Lock
  imports Task_Sched
begin

text \<open>
  The queueing locks, reader-writer locks and rendezvous points of src/src/common/task/qlock.c
  and rendez.c.  An operation that may block is split at its \<^verbatim>\<open>taskswitch\<close>: the first part either
  returns or leaves the caller on a list, and a \<open>resume\<close> function is the code after the switch.
  The run queue and all waiting lists live in one store of tasks, so the invariant speaks of a
  family of disjoint lists; it shows that locks exclude, hand over in FIFO order, lose no
  wake-up, and that no live task is ever off every list.
\<close>

section \<open>Data\<close>

record QLock =
  qowner :: "tptr option"
  qwaiting :: tasklist

record RWLock =
  readers :: int
  writer :: "tptr option"
  rwaiting :: tasklist
  wwaiting :: tasklist

text \<open>The lock of a rendezvous point is given by its address.\<close>

record Rendez =
  rlk :: "nat option"
  zwaiting :: tasklist

text \<open>How the part of an operation before the switch ends.\<close>

datatype lock_result = Got bool | Blocked

section \<open>Operations\<close>

text \<open>\<^verbatim>\<open>addtask(&l, taskrunning)\<close>, and \<^verbatim>\<open>deltask(&l, t); taskready(t)\<close>.\<close>

definition add_running :: "tasklist \<Rightarrow> libtask \<Rightarrow> tasklist \<times> libtask" where
  "add_running l s =
     (case taskrunning s of
        None \<Rightarrow> (l, s)
      | Some t \<Rightarrow> (case addtask l t (heap s) of (l', h) \<Rightarrow> (l', s\<lparr>heap := h\<rparr>)))"

definition wake :: "tasklist \<Rightarrow> tptr \<Rightarrow> libtask \<Rightarrow> tasklist \<times> libtask" where
  "wake l t s = (case deltask l t (heap s) of (l', h) \<Rightarrow> (l', taskready t (s\<lparr>heap := h\<rparr>)))"

definition qlock :: "bool \<Rightarrow> QLock \<Rightarrow> libtask \<Rightarrow> lock_result \<times> QLock \<times> libtask" where
  "qlock block l s =
     (if qowner l = None then (Got True, l\<lparr>qowner := taskrunning s\<rparr>, s)
      else if \<not> block then (Got False, l, s)
      else
        let (w, s1) = add_running (qwaiting l) s
        in (Blocked, l\<lparr>qwaiting := w\<rparr>, taskswitch (taskstate ''qlock'' s1)))"

definition qlock_resume :: "QLock \<Rightarrow> libtask \<Rightarrow> bool outcome" where
  "qlock_resume l s = (if qowner l \<noteq> taskrunning s then Abort else Return True)"

definition canqlock :: "QLock \<Rightarrow> libtask \<Rightarrow> lock_result \<times> QLock \<times> libtask" where
  "canqlock l s = qlock False l s"

definition qunlock :: "QLock \<Rightarrow> libtask \<Rightarrow> (QLock \<times> libtask) outcome" where
  "qunlock l s =
     (if qowner l = None then Abort
      else
        let l1 = l\<lparr>qowner := lhead (qwaiting l)\<rparr>
        in case lhead (qwaiting l) of
             None \<Rightarrow> Return (l1, s)
           | Some t \<Rightarrow>
               (let (w, s1) = wake (qwaiting l1) t s in Return (l1\<lparr>qwaiting := w\<rparr>, s1)))"

definition rlock :: "bool \<Rightarrow> RWLock \<Rightarrow> libtask \<Rightarrow> lock_result \<times> RWLock \<times> libtask" where
  "rlock block l s =
     (if writer l = None \<and> lhead (wwaiting l) = None
      then (Got True, l\<lparr>readers := readers l + 1\<rparr>, s)
      else if \<not> block then (Got False, l, s)
      else
        let (w, s1) = add_running (rwaiting l) s
        in (Blocked, l\<lparr>rwaiting := w\<rparr>, taskswitch (taskstate ''rlock'' s1)))"

definition canrlock :: "RWLock \<Rightarrow> libtask \<Rightarrow> lock_result \<times> RWLock \<times> libtask" where
  "canrlock l s = rlock False l s"

definition wlock :: "bool \<Rightarrow> RWLock \<Rightarrow> libtask \<Rightarrow> lock_result \<times> RWLock \<times> libtask" where
  "wlock block l s =
     (if writer l = None \<and> readers l = 0 then (Got True, l\<lparr>writer := taskrunning s\<rparr>, s)
      else if \<not> block then (Got False, l, s)
      else
        let (w, s1) = add_running (wwaiting l) s
        in (Blocked, l\<lparr>wwaiting := w\<rparr>, taskswitch (taskstate ''wlock'' s1)))"

definition canwlock :: "RWLock \<Rightarrow> libtask \<Rightarrow> lock_result \<times> RWLock \<times> libtask" where
  "canwlock l s = wlock False l s"

text \<open>Handing the lock to the first waiting writer, if any.\<close>

definition grant_writer :: "RWLock \<Rightarrow> libtask \<Rightarrow> RWLock \<times> libtask" where
  "grant_writer l s =
     (case lhead (wwaiting l) of
        None \<Rightarrow> (l, s)
      | Some t \<Rightarrow>
          (let (w, s1) = wake (wwaiting l) t s in (l\<lparr>wwaiting := w, writer := Some t\<rparr>, s1)))"

definition runlock :: "RWLock \<Rightarrow> libtask \<Rightarrow> RWLock \<times> libtask" where
  "runlock l s =
     (let l1 = l\<lparr>readers := readers l - 1\<rparr>
      in if readers l1 = 0 then grant_writer l1 s else (l1, s))"

text \<open>The loop that admits every waiting reader; it ends when the list is empty.\<close>

partial_function (option) admit_readers :: "RWLock \<Rightarrow> libtask \<Rightarrow> (RWLock \<times> libtask) option" where
  "admit_readers l s =
     (case lhead (rwaiting l) of
        None \<Rightarrow> Some (l, s)
      | Some t \<Rightarrow>
          (let (w, s1) = wake (rwaiting l) t s
           in admit_readers (l\<lparr>rwaiting := w, readers := readers l + 1\<rparr>) s1))"

definition wunlock :: "RWLock \<Rightarrow> libtask \<Rightarrow> (RWLock \<times> libtask) outcome option" where
  "wunlock l s =
     (if writer l = None then Some Abort
      else if readers l \<noteq> 0 then Some Abort
      else
        case admit_readers (l\<lparr>writer := None\<rparr>) s of
          None \<Rightarrow> None
        | Some (l1, s1) \<Rightarrow>
            Some (Return (if readers l1 = 0 then grant_writer l1 s1 else (l1, s1))))"

text \<open>
  \<^verbatim>\<open>tasksleep\<close> up to its switch: join the list, release the lock \<open>q\<close> of the rendezvous point.
  Afterwards it takes the lock again with \<open>qlock True\<close>.
\<close>

definition tasksleep :: "Rendez \<Rightarrow> QLock \<Rightarrow> libtask \<Rightarrow> (Rendez \<times> QLock \<times> libtask) outcome" where
  "tasksleep r q s =
     (let (w, s1) = add_running (zwaiting r) s;
          r1 = r\<lparr>zwaiting := w\<rparr>
      in case (if rlk r1 = None then Return (q, s1) else qunlock q s1) of
           Return (q1, s2) \<Rightarrow> Return (r1, q1, taskswitch (taskstate ''sleep'' s2))
         | Abort \<Rightarrow> Abort
         | Exit v \<Rightarrow> Exit v)"

text \<open>\<^verbatim>\<open>_taskwakeup\<close>: \<open>i\<close> counts the tasks woken so far.\<close>

partial_function (option) taskwakeup_loop ::
    "bool \<Rightarrow> nat \<Rightarrow> Rendez \<Rightarrow> libtask \<Rightarrow> (nat \<times> Rendez \<times> libtask) option" where
  "taskwakeup_loop all i r s =
     (if i = 1 \<and> \<not> all then Some (i, r, s)
      else
        case lhead (zwaiting r) of
          None \<Rightarrow> Some (i, r, s)
        | Some t \<Rightarrow>
            (let (w, s1) = wake (zwaiting r) t s
             in taskwakeup_loop all (i + 1) (r\<lparr>zwaiting := w\<rparr>) s1))"

definition taskwakeup :: "Rendez \<Rightarrow> libtask \<Rightarrow> (nat \<times> Rendez \<times> libtask) option" where
  "taskwakeup r s = taskwakeup_loop False 0 r s"

definition taskwakeupall :: "Rendez \<Rightarrow> libtask \<Rightarrow> (nat \<times> Rendez \<times> libtask) option" where
  "taskwakeupall r s = taskwakeup_loop True 0 r s"

section \<open>Families of disjoint lists in one store\<close>

definition lists_ok :: "theap \<Rightarrow> ('n \<Rightarrow> tasklist) \<Rightarrow> ('n \<Rightarrow> tptr list) \<Rightarrow> bool" where
  "lists_ok h L W \<longleftrightarrow> (\<forall>n. is_tasklist h (L n) (W n)) \<and>
     (\<forall>n m. n \<noteq> m \<longrightarrow> set (W n) \<inter> set (W m) = {})"

lemma lists_add:
  assumes ok: "lists_ok h L W" and new: "\<And>m. t \<notin> set (W m)"
    and add: "addtask (L n) t h = (l', h')"
  shows "lists_ok h' (L(n := l')) (W(n := W n @ [t]))"
proof -
  have n: "is_tasklist h (L n) (W n)" using ok by (simp add: lists_ok_def)
  have "is_tasklist h' (L m) (W m)" if "m \<noteq> n" for m
    using tq.add_other [OF add n, of "L m" "W m"] ok new that by (auto simp: lists_ok_def)
  moreover have "is_tasklist h' l' (W n @ [t])" using tq.add_rep [OF add n] new by blast
  ultimately show ?thesis using ok new by (auto simp: lists_ok_def)
qed

lemma lists_del:
  assumes ok: "lists_ok h L W" and hd: "W n = t # xs" and del: "deltask (L n) t h = (l', h')"
  shows "lists_ok h' (L(n := l')) (W(n := xs))"
proof -
  have n: "is_tasklist h (L n) (t # xs)" using ok hd by (metis lists_ok_def)
  have dis: "set (W m) \<inter> set (W k) = {}" if "m \<noteq> k" for m k using ok that by (simp add: lists_ok_def)
  have "is_tasklist h' (L m) (W m)" if "m \<noteq> n" for m
    using tq.del_other [OF del n, of "L m" "W m"] ok dis [of n m] hd that
    by (auto simp: lists_ok_def)
  moreover have "is_tasklist h' l' xs" using tq.del_head [OF del n] .
  moreover have "set (W m) \<inter> set xs = {}" if "m \<noteq> n" for m using dis [OF that] hd by auto
  ultimately show ?thesis using dis by (auto simp: lists_ok_def Int_commute)
qed

lemma lists_upd:
  "lists_ok h L W \<Longrightarrow> (\<And>k. nextp (f k) = nextp k) \<Longrightarrow> (\<And>k. prevp (f k) = prevp k) \<Longrightarrow>
   lists_ok (h(t := f (h t))) L W"
  by (simp add: lists_ok_def is_tasklist_upd)

lemma lists_mem:
  "lists_ok h L W \<Longrightarrow> t \<in> set (W n) \<Longrightarrow> m \<noteq> n \<Longrightarrow> t \<notin> set (W m)"
  by (auto simp: lists_ok_def)

lemma lists_distinct: "lists_ok h L W \<Longrightarrow> distinct (W n)"
  by (auto simp: lists_ok_def is_tasklist_def)

lemma lists_head: "lists_ok h L W \<Longrightarrow> lhead (L n) = first_or (W n) None"
  by (auto simp: lists_ok_def is_tasklist_def)

text \<open>Changing only links keeps the scheduler's data.\<close>

lemma sched_inv_links:
  assumes inv: "sched_inv s rq" and d: "same_data (heap s) h'"
    and q: "is_tasklist h' (taskrunqueue s) rq"
  shows "sched_inv (s\<lparr>heap := h'\<rparr>) rq"
proof -
  note f = same_data_fields [OF d]
  have l: "live (s\<lparr>heap := h'\<rparr>) = live s" by (simp add: live_def)
  have "nonsystem (s\<lparr>heap := h'\<rparr>) = nonsystem s" by (simp add: nonsystem_def l f)
  with inv q l show ?thesis by (simp add: sched_inv_defs f)
qed

section \<open>The run queue and the waiting lists of a program\<close>

datatype wname = RunQ | QW nat | RW nat | WW nat | ZW nat

text \<open>
  \<open>W\<close> gives the contents of every list; the lists are disjoint and hold live tasks, the run queue
  holds the ready ones.
\<close>

definition base :: "libtask \<Rightarrow> (wname \<Rightarrow> tasklist) \<Rightarrow> (wname \<Rightarrow> tptr list) \<Rightarrow> bool" where
  "base s L W \<longleftrightarrow> sched_inv s (W RunQ) \<and> lists_ok (heap s) L W \<and> L RunQ = taskrunqueue s \<and>
     (\<forall>n. set (W n) \<subseteq> set (live s))"

lemma baseD:
  assumes "base s L W"
  shows "sched_inv s (W RunQ)" "lists_ok (heap s) L W" "L RunQ = taskrunqueue s"
    "set (W n) \<subseteq> set (live s)" "lhead (L n) = first_or (W n) None" "distinct (W n)"
    "t \<in> set (W n) \<Longrightarrow> m \<noteq> n \<Longrightarrow> t \<notin> set (W m)"
  using assms by (auto simp: base_def lists_head lists_distinct lists_mem)

lemma base_enqueue:
  assumes b: "base s L W" and run: "taskrunning s = Some t" and new: "\<And>m. t \<notin> set (W m)"
    and n: "n \<noteq> RunQ" and add: "add_running (L n) s = (l', s1)"
  shows "base s1 (L(n := l')) (W(n := W n @ [t]))" and "taskrunning s1 = Some t"
    and "live s1 = live s" and "taskrunqueue s1 = taskrunqueue s" and "taskcount s1 = taskcount s"
proof -
  obtain h where a: "addtask (L n) t (heap s) = (l', h)" and s1: "s1 = s\<lparr>heap := h\<rparr>"
    using add run by (auto simp: add_running_def split: prod.splits)
  have ok: "lists_ok h (L(n := l')) (W(n := W n @ [t]))"
    by (rule lists_add [OF baseD(2) [OF b] new a])
  then have "is_tasklist h ((L(n := l')) RunQ) ((W(n := W n @ [t])) RunQ)"
    unfolding lists_ok_def by blast
  then have q: "is_tasklist h (taskrunqueue s) (W RunQ)" using n baseD(3) [OF b] by simp
  have "sched_inv s1 (W RunQ)"
    unfolding s1 by (rule sched_inv_links [OF baseD(1) [OF b] addtask_same_data [OF a] q])
  moreover have "t \<in> set (live s)" using baseD(1) [OF b] run by (auto simp: sched_inv_defs)
  ultimately show "base s1 (L(n := l')) (W(n := W n @ [t]))"
    using ok b n by (auto simp: base_def s1 live_def)
  show "taskrunning s1 = Some t" "live s1 = live s" "taskrunqueue s1 = taskrunqueue s"
    "taskcount s1 = taskcount s"
    using run by (simp_all add: s1 live_def)
qed

lemma base_switch:
  assumes b: "base s L W"
  shows "base (taskswitch (taskstate m s)) L W" and "taskrunning (taskswitch (taskstate m s)) = None"
    and "live (taskswitch (taskstate m s)) = live s"
proof -
  have si: "sched_inv (taskstate m s) (W RunQ)" using baseD(1) [OF b] by (rule taskstate_inv)
  note sw = taskswitch_inv [OF si]
  have "\<And>t. taskrunning s = Some t \<Longrightarrow> \<not> exiting (heap s t)"
    using baseD(1) [OF b] by (auto simp: sched_inv_defs)
  then have h: "heap (taskswitch (taskstate m s)) = heap (taskstate m s)"
    and q: "taskrunqueue (taskswitch (taskstate m s)) = taskrunqueue s"
    by (auto simp: taskswitch_def sched_return_def Let_def taskstate_simps split: option.splits)
  have "lists_ok (heap (taskstate m s)) L W"
    using baseD(2) [OF b] by (simp add: lists_ok_def taskstate_list)
  with sw b show "base (taskswitch (taskstate m s)) L W"
    by (simp add: base_def h q taskstate_simps)
  show "taskrunning (taskswitch (taskstate m s)) = None"
    "live (taskswitch (taskstate m s)) = live s" using sw by (simp_all add: taskstate_simps)
qed

lemma base_wake:
  assumes b: "base s L W" and hd: "W n = t # xs" and n: "n \<noteq> RunQ"
    and run: "taskrunning s \<noteq> Some t" and w: "wake (L n) t s = (l', s1)"
  shows "base s1 (L(n := l', RunQ := taskrunqueue s1)) (W(n := xs, RunQ := W RunQ @ [t]))"
    and "taskrunning s1 = taskrunning s" and "live s1 = live s"
proof -
  obtain h where d: "deltask (L n) t (heap s) = (l', h)" and s1: "s1 = taskready t (s\<lparr>heap := h\<rparr>)"
    using w by (auto simp: wake_def split: prod.splits)
  have ok: "lists_ok h (L(n := l')) (W(n := xs))"
    by (rule lists_del [OF baseD(2) [OF b] hd d])
  then have "is_tasklist h ((L(n := l')) RunQ) ((W(n := xs)) RunQ)" unfolding lists_ok_def by blast
  then have q: "is_tasklist h (taskrunqueue s) (W RunQ)" using n baseD(3) [OF b] by simp
  have si: "sched_inv (s\<lparr>heap := h\<rparr>) (W RunQ)"
    by (rule sched_inv_links [OF baseD(1) [OF b] deltask_same_data [OF d] q])
  have lv: "live (s\<lparr>heap := h\<rparr>) = live s" by (simp add: live_def)
  have t: "t \<in> set (live s)" "t \<notin> set (W RunQ)"
    using baseD(4) [OF b, of n] baseD(7) [OF b, where t = t and n = n and m = RunQ] hd n by auto
  have "t \<notin> set xs" using baseD(6) [OF b, of n] hd by simp
  have new: "t \<notin> set ((W(n := xs)) m)" for m
    using \<open>t \<notin> set xs\<close> baseD(7) [OF b, where t = t and n = n and m = m] hd by auto
  have si1: "sched_inv s1 (W RunQ @ [t])"
    unfolding s1 by (rule taskready_inv [OF si]) (use t run lv in auto)
  define h1 where "h1 = h(t := (h t)\<lparr>ready := True\<rparr>)"
  obtain r h2 where a: "addtask (taskrunqueue s) t h1 = (r, h2)" by fastforce
  then have h2: "heap s1 = h2" "taskrunqueue s1 = r"
    by (simp_all add: s1 taskready_def Let_def h1_def)
  have "lists_ok h1 (L(n := l')) (W(n := xs))"
    unfolding h1_def by (rule lists_upd [OF ok]) simp_all
  from lists_add [where W = "W(n := xs)" and n = RunQ and l' = r and h' = h2, OF this new] a n baseD(3) [OF b]
  have "lists_ok h2 (L(n := l', RunQ := r)) (W(n := xs, RunQ := W RunQ @ [t]))" by simp
  moreover have "set ((W(n := xs, RunQ := W RunQ @ [t])) m) \<subseteq> set (live s)" for m
    using t(1) hd baseD(4) [OF b, of m] baseD(4) [OF b, of n] baseD(4) [OF b, of RunQ] by auto
  moreover show "live s1 = live s" by (simp add: s1 taskready_simps lv)
  ultimately show "base s1 (L(n := l', RunQ := taskrunqueue s1)) (W(n := xs, RunQ := W RunQ @ [t]))"
    using si1 n by (simp add: base_def h2)
  show "taskrunning s1 = taskrunning s" by (simp add: s1 taskready_simps)
qed

section \<open>Programs that use locks\<close>

text \<open>
  Where a task is: in its own code, or inside a blocking call of the library, before the code that
  follows the switch.
\<close>

datatype pc = PcRun | PcQlock nat | PcRlock nat | PcWlock nat | PcSleep nat

fun home :: "pc \<Rightarrow> wname option" where
  "home PcRun = None"
| "home (PcQlock l) = Some (QW l)"
| "home (PcRlock l) = Some (RW l)"
| "home (PcWlock l) = Some (WW l)"
| "home (PcSleep r) = Some (ZW r)"

text \<open>\<open>rheld l\<close> is the multiset of the tasks that were granted lock \<open>l\<close> for reading.\<close>

record locksys =
  klib :: libtask
  qls :: "nat \<Rightarrow> QLock"
  rws :: "nat \<Rightarrow> RWLock"
  rzs :: "nat \<Rightarrow> Rendez"
  pcs :: "tptr \<Rightarrow> pc"
  rheld :: "nat \<Rightarrow> tptr multiset"

fun waits :: "locksys \<Rightarrow> wname \<Rightarrow> tasklist" where
  "waits s RunQ = taskrunqueue (klib s)"
| "waits s (QW l) = qwaiting (qls s l)"
| "waits s (RW l) = rwaiting (rws s l)"
| "waits s (WW l) = wwaiting (rws s l)"
| "waits s (ZW r) = zwaiting (rzs s r)"

text \<open>A task in a library call that is no longer on the call's list has been given what it waits for.\<close>

fun granted :: "locksys \<Rightarrow> tptr \<Rightarrow> pc \<Rightarrow> bool" where
  "granted s t PcRun = True"
| "granted s t (PcSleep r) = True"
| "granted s t (PcQlock l) = (qowner (qls s l) = Some t)"
| "granted s t (PcWlock l) = (writer (rws s l) = Some t)"
| "granted s t (PcRlock l) = (t \<in># rheld s l)"

definition qlocks_ok :: "locksys \<Rightarrow> (wname \<Rightarrow> tptr list) \<Rightarrow> bool" where
  "qlocks_ok s W \<longleftrightarrow> (\<forall>l. qowner (qls s l) = None \<longrightarrow> W (QW l) = [])"

definition rwlock_ok :: "locksys \<Rightarrow> (wname \<Rightarrow> tptr list) \<Rightarrow> nat \<Rightarrow> bool" where
  "rwlock_ok s W l \<longleftrightarrow> readers (rws s l) = int (size (rheld s l)) \<and>
     (writer (rws s l) \<noteq> None \<longrightarrow> rheld s l = {#}) \<and>
     (W (WW l) \<noteq> [] \<longrightarrow> writer (rws s l) \<noteq> None \<or> rheld s l \<noteq> {#}) \<and>
     (W (RW l) \<noteq> [] \<longrightarrow> writer (rws s l) \<noteq> None \<or> W (WW l) \<noteq> [])"

definition tasks_ok ::
    "(tptr \<Rightarrow> pc) \<Rightarrow> tptr set \<Rightarrow> tptr option \<Rightarrow> (wname \<Rightarrow> tptr list) \<Rightarrow> (tptr \<Rightarrow> pc \<Rightarrow> bool) \<Rightarrow> bool" where
  "tasks_ok P lv run W G \<longleftrightarrow>
     (\<forall>n t. n \<noteq> RunQ \<longrightarrow> t \<in> set (W n) \<longrightarrow> home (P t) = Some n) \<and>
     (\<forall>t \<in> lv. G t (P t) \<or> (\<exists>n. home (P t) = Some n \<and> t \<in> set (W n))) \<and>
     (\<forall>t \<in> lv. run = Some t \<or> (\<exists>n. t \<in> set (W n))) \<and>
     (\<forall>t n. run = Some t \<longrightarrow> t \<notin> set (W n))"

definition lock_inv :: "locksys \<Rightarrow> (wname \<Rightarrow> tptr list) \<Rightarrow> bool" where
  "lock_inv s W \<longleftrightarrow> base (klib s) (waits s) W \<and> qlocks_ok s W \<and> (\<forall>l. rwlock_ok s W l) \<and>
     tasks_ok (pcs s) (set (live (klib s))) (taskrunning (klib s)) W (granted s)"

lemma home_RunQ [simp]: "home p \<noteq> Some RunQ"
  by (cases p) auto

lemma tasks_block:
  assumes "tasks_ok P lv (Some t) W G" and "home p = Some n"
  shows "tasks_ok (P(t := p)) lv None (W(n := W n @ [t])) G"
  using assms unfolding tasks_ok_def by (simp split: if_splits) (metis home_RunQ)

lemma tasks_wake:
  assumes ok: "tasks_ok P lv run W G" and dis: "\<And>m. m \<noteq> n \<Longrightarrow> t \<notin> set (W m)"
    and hd: "W n = t # xs" and n: "n \<noteq> RunQ" and g: "G' t (P t)"
    and mono: "\<And>u. u \<noteq> t \<Longrightarrow> u \<in> lv \<Longrightarrow> G u (P u) \<Longrightarrow> G' u (P u)"
  shows "tasks_ok P lv run (W(n := xs, RunQ := W RunQ @ [t])) G'"
proof -
  have rt: "run \<noteq> Some t" using ok hd unfolding tasks_ok_def by (metis list.set_intros(1))
  have in_other: "u \<in> set ((W(n := xs, RunQ := W RunQ @ [t])) m)" if "u \<in> set (W m)" "u \<noteq> t" for u m
    using that hd n by auto
  have sub: "u \<in> set (W m) \<or> (m = RunQ \<and> u = t)"
    if "u \<in> set ((W(n := xs, RunQ := W RunQ @ [t])) m)" for u m
    using that hd by (auto split: if_splits)
  show ?thesis
    unfolding tasks_ok_def
  proof (intro conjI allI ballI impI)
    show "home (P u) = Some m" if "m \<noteq> RunQ" "u \<in> set ((W(n := xs, RunQ := W RunQ @ [t])) m)" for m u
      using sub [OF that(2)] that(1) ok by (auto simp: tasks_ok_def)
    show "G' u (P u) \<or> (\<exists>m. home (P u) = Some m \<and> u \<in> set ((W(n := xs, RunQ := W RunQ @ [t])) m))"
      if "u \<in> lv" for u
    proof (cases "u = t")
      case False
      with that ok mono in_other show ?thesis unfolding tasks_ok_def by blast
    qed (simp add: g)
    show "run = Some u \<or> (\<exists>m. u \<in> set ((W(n := xs, RunQ := W RunQ @ [t])) m))" if "u \<in> lv" for u
    proof (cases "u = t")
      case True
      then have "u \<in> set ((W(n := xs, RunQ := W RunQ @ [t])) RunQ)" by simp
      then show ?thesis by blast
    next
      case False
      with that ok in_other show ?thesis unfolding tasks_ok_def by blast
    qed
    show "u \<notin> set ((W(n := xs, RunQ := W RunQ @ [t])) m)" if "run = Some u" for u m
      using sub [of u m] rt that ok unfolding tasks_ok_def by blast
  qed
qed

lemma tasks_mono:
  "tasks_ok P lv run W G \<Longrightarrow> (\<And>u. u \<in> lv \<Longrightarrow> G u (P u) \<Longrightarrow> G' u (P u)) \<Longrightarrow> tasks_ok P lv run W G'"
  unfolding tasks_ok_def by blast

lemma tasks_return:
  "tasks_ok P lv (Some t) W G \<Longrightarrow> G t PcRun \<Longrightarrow> tasks_ok (P(t := PcRun)) lv (Some t) W G"
  unfolding tasks_ok_def by auto

section \<open>Each operation keeps the invariant\<close>

text \<open>The invariant with the running task named separately: inside a call it may be on a list.\<close>

definition locks_ok :: "locksys \<Rightarrow> (wname \<Rightarrow> tptr list) \<Rightarrow> tptr option \<Rightarrow> bool" where
  "locks_ok s W run \<longleftrightarrow> base (klib s) (waits s) W \<and> qlocks_ok s W \<and> (\<forall>l. rwlock_ok s W l) \<and>
     tasks_ok (pcs s) (set (live (klib s))) run W (granted s)"

lemma lock_inv_locks_ok: "lock_inv s W = locks_ok s W (taskrunning (klib s))"
  by (simp add: lock_inv_def locks_ok_def)

lemma waits_qls:
  "waits (s\<lparr>klib := k, qls := (qls s)(l := q)\<rparr>) =
    (waits s)(QW l := qwaiting q, RunQ := taskrunqueue k)"
proof
  fix n show "waits (s\<lparr>klib := k, qls := (qls s)(l := q)\<rparr>) n =
    ((waits s)(QW l := qwaiting q, RunQ := taskrunqueue k)) n" by (cases n) auto
qed

lemma waits_rws:
  "waits (s\<lparr>klib := k, rws := (rws s)(l := q)\<rparr>) =
    (waits s)(RW l := rwaiting q, WW l := wwaiting q, RunQ := taskrunqueue k)"
proof
  fix n show "waits (s\<lparr>klib := k, rws := (rws s)(l := q)\<rparr>) n =
    ((waits s)(RW l := rwaiting q, WW l := wwaiting q, RunQ := taskrunqueue k)) n"
    by (cases n) auto
qed

lemma waits_rzs:
  "waits (s\<lparr>klib := k, rzs := (rzs s)(r := q)\<rparr>) =
    (waits s)(ZW r := zwaiting q, RunQ := taskrunqueue k)"
proof
  fix n show "waits (s\<lparr>klib := k, rzs := (rzs s)(r := q)\<rparr>) n =
    ((waits s)(ZW r := zwaiting q, RunQ := taskrunqueue k)) n" by (cases n) auto
qed

lemma waits_pcs [simp]:
  "waits (s\<lparr>pcs := p\<rparr>) = waits s" "waits (s\<lparr>rheld := h\<rparr>) = waits s"
proof -
  show "waits (s\<lparr>pcs := p\<rparr>) = waits s"
  proof
    fix n show "waits (s\<lparr>pcs := p\<rparr>) n = waits s n" by (cases n) auto
  qed
  show "waits (s\<lparr>rheld := h\<rparr>) = waits s"
  proof
    fix n show "waits (s\<lparr>rheld := h\<rparr>) n = waits s n" by (cases n) auto
  qed
qed

lemma granted_pcs [simp]:
  "granted (s\<lparr>pcs := p\<rparr>) = granted s" "granted (s\<lparr>klib := k\<rparr>) = granted s"
  "granted (s\<lparr>rzs := z\<rparr>) = granted s"
proof -
  show "granted (s\<lparr>pcs := p\<rparr>) = granted s"
  proof (intro ext)
    fix t c show "granted (s\<lparr>pcs := p\<rparr>) t c = granted s t c" by (cases c) auto
  qed
  show "granted (s\<lparr>klib := k\<rparr>) = granted s"
  proof (intro ext)
    fix t c show "granted (s\<lparr>klib := k\<rparr>) t c = granted s t c" by (cases c) auto
  qed
  show "granted (s\<lparr>rzs := z\<rparr>) = granted s"
  proof (intro ext)
    fix t c show "granted (s\<lparr>rzs := z\<rparr>) t c = granted s t c" by (cases c) auto
  qed
qed

lemma qlock_head:
  assumes "locks_ok s W run"
  shows "lhead (qwaiting (qls s l)) = first_or (W (QW l)) None"
    and "lhead (rwaiting (rws s l)) = first_or (W (RW l)) None"
    and "lhead (wwaiting (rws s l)) = first_or (W (WW l)) None"
    and "lhead (zwaiting (rzs s r)) = first_or (W (ZW r)) None"
proof -
  have b: "base (klib s) (waits s) W" using assms by (simp add: locks_ok_def)
  show "lhead (qwaiting (qls s l)) = first_or (W (QW l)) None"
    "lhead (rwaiting (rws s l)) = first_or (W (RW l)) None"
    "lhead (wwaiting (rws s l)) = first_or (W (WW l)) None"
    "lhead (zwaiting (rzs s r)) = first_or (W (ZW r)) None"
    using baseD(5) [OF b, of "QW l"] baseD(5) [OF b, of "RW l"] baseD(5) [OF b, of "WW l"]
      baseD(5) [OF b, of "ZW r"] by simp_all
qed

lemma qunlock_inv:
  assumes inv: "locks_ok s W run" and own: "qowner (qls s l) = Some u" and pc: "pcs s u \<noteq> PcQlock l"
    and run: "\<And>t. taskrunning (klib s) = Some t \<Longrightarrow> t \<notin> set (W (QW l))"
  shows "\<exists>q' k' W'. qunlock (qls s l) (klib s) = Return (q', k') \<and>
      locks_ok (s\<lparr>klib := k', qls := (qls s)(l := q')\<rparr>) W' run \<and>
      taskrunning k' = taskrunning (klib s) \<and> live k' = live (klib s) \<and>
      qowner q' = first_or (W (QW l)) None \<and>
      W' = (case W (QW l) of [] \<Rightarrow> W | t # ts \<Rightarrow> W(QW l := ts, RunQ := W RunQ @ [t]))"
proof -
  have b: "base (klib s) (waits s) W" and qk: "qlocks_ok s W" and rk: "\<forall>l. rwlock_ok s W l"
    and tk: "tasks_ok (pcs s) (set (live (klib s))) run W (granted s)"
    using inv by (simp_all add: locks_ok_def)
  note hd = qlock_head(1) [OF inv, of l]
  have lost: "pcs s x \<noteq> PcQlock l" if "granted s x (pcs s x)" "x \<noteq> t" "qowner (qls s l) = Some u" for x t
    using that pc by auto
  show ?thesis
  proof (cases "W (QW l)")
    case Nil
    define q' where "q' = (qls s l)\<lparr>qowner := None\<rparr>"
    define s' where "s' = s\<lparr>klib := klib s, qls := (qls s)(l := q')\<rparr>"
    have ul: "qunlock (qls s l) (klib s) = Return (q', klib s)"
      using own hd Nil by (simp add: qunlock_def q'_def)
    have "waits s' = waits s"
      unfolding s'_def waits_qls by (auto simp: q'_def fun_eq_iff)
    moreover have "qlocks_ok s' W" using qk Nil by (auto simp: qlocks_ok_def s'_def q'_def)
    moreover have "\<forall>l. rwlock_ok s' W l" using rk by (simp add: rwlock_ok_def s'_def)
    moreover have "tasks_ok (pcs s) (set (live (klib s))) run W (granted s')"
    proof (rule tasks_mono [OF tk])
      fix x assume "granted s x (pcs s x)"
      then show "granted s' x (pcs s x)" using own pc
        by (cases "pcs s x") (auto simp: s'_def)
    qed
    ultimately have "locks_ok s' W run" using b by (simp add: locks_ok_def) (simp add: s'_def)
    with ul Nil show ?thesis by (auto simp: s'_def q'_def)
  next
    case (Cons t ts)
    obtain w k' where wk: "wake (qwaiting (qls s l)) t (klib s) = (w, k')" by fastforce
    define q' where "q' = (qls s l)\<lparr>qowner := Some t, qwaiting := w\<rparr>"
    define s' where "s' = s\<lparr>klib := k', qls := (qls s)(l := q')\<rparr>"
    define W' where "W' = W(QW l := ts, RunQ := W RunQ @ [t])"
    have ul: "qunlock (qls s l) (klib s) = Return (q', k')"
      using own hd Cons wk by (simp add: qunlock_def q'_def)
    have rt: "taskrunning (klib s) \<noteq> Some t" using run [of t] Cons by auto
    have wk': "wake (waits s (QW l)) t (klib s) = (w, k')" using wk by simp
    note bw = base_wake [OF b Cons _ rt wk']
    have "waits s' = (waits s)(QW l := w, RunQ := taskrunqueue k')"
      by (simp add: s'_def waits_qls q'_def)
    with bw have b': "base k' (waits s') W'" by (simp add: W'_def)
    have "qlocks_ok s' W'" using qk Cons by (auto simp: qlocks_ok_def s'_def q'_def W'_def)
    moreover have "\<forall>l. rwlock_ok s' W' l" using rk by (simp add: rwlock_ok_def s'_def W'_def)
    moreover have "tasks_ok (pcs s) (set (live (klib s))) run W' (granted s')"
      unfolding W'_def
    proof (rule tasks_wake [OF tk _ Cons])
      show "t \<notin> set (W m)" if "m \<noteq> QW l" for m
        using baseD(7) [OF b _ that, of t] Cons by simp
      have "t \<in> set (W (QW l))" using Cons by simp
      then have "home (pcs s t) = Some (QW l)" using tk unfolding tasks_ok_def by blast
      then show "granted s' t (pcs s t)" by (cases "pcs s t") (auto simp: s'_def q'_def)
      show "granted s' x (pcs s x)" if "granted s x (pcs s x)" for x
        using that own pc by (cases "pcs s x") (auto simp: s'_def)
    qed simp
    ultimately have "locks_ok s' W' run" using b' bw by (simp add: locks_ok_def) (simp add: s'_def)
    with ul Cons bw show ?thesis by (auto simp: s'_def q'_def W'_def)
  qed
qed

text \<open>Joining a list before blocking; the task's place is its new point of control.\<close>

lemma enqueue_inv:
  assumes inv: "lock_inv s W" and run: "taskrunning (klib s) = Some t"
    and n: "home p = Some n" and add: "add_running (waits s n) (klib s) = (w, k)"
    and s': "klib s' = k" "qlocks_ok s' (W(n := W n @ [t]))" "\<forall>l. rwlock_ok s' (W(n := W n @ [t])) l"
      "pcs s' = (pcs s)(t := p)" "granted s' = granted s" "waits s' = (waits s)(n := w)"
  shows "locks_ok s' (W(n := W n @ [t])) None" and "taskrunning k = Some t" and "live k = live (klib s)"
proof -
  have b: "base (klib s) (waits s) W"
    and tk: "tasks_ok (pcs s) (set (live (klib s))) (Some t) W (granted s)"
    using inv run by (simp_all add: lock_inv_def)
  have new: "t \<notin> set (W m)" for m using tk by (simp add: tasks_ok_def)
  have nr: "n \<noteq> RunQ" using n by auto
  note e = base_enqueue [OF b run new nr add]
  show "taskrunning k = Some t" "live k = live (klib s)" using e by simp_all
  have "tasks_ok (pcs s') (set (live k)) None (W(n := W n @ [t])) (granted s')"
    using tasks_block [OF tk n] e(3) s' by simp
  then show "locks_ok s' (W(n := W n @ [t])) None"
    using e s' by (simp add: locks_ok_def)
qed

lemma switch_inv:
  assumes inv: "locks_ok s W None"
  shows "lock_inv (s\<lparr>klib := taskswitch (taskstate m (klib s))\<rparr>) W"
    (is "lock_inv ?s W")
proof -
  have b: "base (klib s) (waits s) W" using inv by (simp add: locks_ok_def)
  note sw = base_switch [OF b, of m]
  have q: "taskrunqueue (taskswitch (taskstate m (klib s))) = taskrunqueue (klib s)"
    using baseD(3) [OF sw(1)] baseD(3) [OF b] by simp
  have "waits ?s = waits s"
  proof
    fix n show "waits ?s n = waits s n" by (cases n) (simp_all add: q)
  qed
  moreover have "granted ?s = granted s" by simp
  ultimately show ?thesis
    using inv sw by (simp add: lock_inv_def locks_ok_def qlocks_ok_def rwlock_ok_def)
qed

text \<open>Waking the head of a list, whatever lock state the step leaves.\<close>

lemma woken_home:
  "tasks_ok P lv run W G \<Longrightarrow> n \<noteq> RunQ \<Longrightarrow> W n = t # ts \<Longrightarrow> home (P t) = Some n"
  unfolding tasks_ok_def by (metis list.set_intros(1))

lemma wake_inv:
  assumes b: "base (klib s) (waits s) W"
    and tk: "tasks_ok (pcs s) (set (live (klib s))) run W (granted s)"
    and hd: "W n = t # ts" and n: "n \<noteq> RunQ" and rt: "taskrunning (klib s) \<noteq> Some t"
    and wk: "wake (waits s n) t (klib s) = (w, k)"
    and s': "klib s' = k" "waits s' = (waits s)(n := w, RunQ := taskrunqueue k)" "pcs s' = pcs s"
    and g: "granted s' t (pcs s t)"
    and mono: "\<And>u. u \<noteq> t \<Longrightarrow> granted s u (pcs s u) \<Longrightarrow> granted s' u (pcs s u)"
  shows "base (klib s') (waits s') (W(n := ts, RunQ := W RunQ @ [t]))"
    and "tasks_ok (pcs s') (set (live (klib s'))) run (W(n := ts, RunQ := W RunQ @ [t])) (granted s')"
    and "taskrunning k = taskrunning (klib s)" and "live k = live (klib s)"
proof -
  note bw = base_wake [OF b hd n rt wk]
  show "base (klib s') (waits s') (W(n := ts, RunQ := W RunQ @ [t]))"
    "taskrunning k = taskrunning (klib s)" "live k = live (klib s)" using bw s' by simp_all
  have "t \<notin> set (W m)" if "m \<noteq> n" for m
    using baseD(7) [OF b _ that, of t] hd by simp
  from tasks_wake [where G' = "granted s'", OF tk this hd n g mono] bw s'
  show "tasks_ok (pcs s') (set (live (klib s'))) run (W(n := ts, RunQ := W RunQ @ [t])) (granted s')"
    by simp
qed

lemma qlock_call:
  assumes inv: "lock_inv s W" and run: "taskrunning (klib s) = Some t"
  shows "\<exists>r q' k' W'. qlock blk (qls s l) (klib s) = (r, q', k') \<and>
      lock_inv (s\<lparr>klib := k', qls := (qls s)(l := q'),
        pcs := (if r = Blocked then (pcs s)(t := PcQlock l) else pcs s)\<rparr>) W' \<and>
      (r = Blocked \<longleftrightarrow> blk \<and> qowner (qls s l) \<noteq> None) \<and>
      (r = Got True \<longleftrightarrow> qowner (qls s l) = None) \<and> (r = Got True \<longrightarrow> qowner q' = Some t) \<and>
      (r = Blocked \<longrightarrow> W' = W(QW l := W (QW l) @ [t]))"
proof -
  have b: "base (klib s) (waits s) W" and qk: "qlocks_ok s W" and rk: "\<forall>l. rwlock_ok s W l"
    and tk: "tasks_ok (pcs s) (set (live (klib s))) (Some t) W (granted s)"
    using inv run by (simp_all add: lock_inv_def)
  consider (free) "qowner (qls s l) = None" | (busy) "qowner (qls s l) \<noteq> None" "\<not> blk"
    | (block) "qowner (qls s l) \<noteq> None" "blk" by blast
  then show ?thesis
  proof cases
    case free
    define q' where "q' = (qls s l)\<lparr>qowner := Some t\<rparr>"
    define s' where "s' = s\<lparr>klib := klib s, qls := (qls s)(l := q'), pcs := pcs s\<rparr>"
    have "waits s' = waits s"
      unfolding s'_def waits_pcs waits_qls by (auto simp: q'_def fun_eq_iff)
    moreover have "qlocks_ok s' W" using qk by (auto simp: qlocks_ok_def s'_def q'_def)
    moreover have "\<forall>l. rwlock_ok s' W l" using rk by (simp add: rwlock_ok_def s'_def)
    moreover have "tasks_ok (pcs s) (set (live (klib s))) (Some t) W (granted s')"
    proof (rule tasks_mono [OF tk])
      fix x assume "granted s x (pcs s x)"
      then show "granted s' x (pcs s x)" using free by (cases "pcs s x") (auto simp: s'_def)
    qed
    ultimately have "lock_inv s' W" using b run by (simp add: lock_inv_def) (simp add: s'_def)
    moreover have "qlock blk (qls s l) (klib s) = (Got True, q', klib s)"
      using free run by (simp add: qlock_def q'_def)
    ultimately show ?thesis using free by (auto simp: s'_def q'_def)
  next
    case busy
    then have "qlock blk (qls s l) (klib s) = (Got False, qls s l, klib s)" by (simp add: qlock_def)
    with inv busy show ?thesis by auto
  next
    case block
    obtain w k where a: "add_running (waits s (QW l)) (klib s) = (w, k)" by fastforce
    define q' where "q' = (qls s l)\<lparr>qwaiting := w\<rparr>"
    define k' where "k' = taskswitch (taskstate ''qlock'' k)"
    define s1 where "s1 = s\<lparr>klib := k, qls := (qls s)(l := q'), pcs := (pcs s)(t := PcQlock l)\<rparr>"
    have ql: "qlock blk (qls s l) (klib s) = (Blocked, q', k')"
      using block a by (simp add: qlock_def k'_def q'_def)
    have kq: "taskrunqueue k = taskrunqueue (klib s)"
      using a run by (auto simp: add_running_def split: prod.splits)
    have "locks_ok s1 (W(QW l := W (QW l) @ [t])) None"
    proof (rule enqueue_inv(1) [OF inv run _ a])
      show "qlocks_ok s1 (W(QW l := W (QW l) @ [t]))"
        using qk block by (auto simp: qlocks_ok_def s1_def q'_def)
      show "\<forall>l'. rwlock_ok s1 (W(QW l := W (QW l) @ [t])) l'"
        using rk by (simp add: rwlock_ok_def s1_def)
      show "granted s1 = granted s"
      proof (intro ext)
        fix u p show "granted s1 u p = granted s u p" by (cases p) (auto simp: s1_def q'_def)
      qed
      show "waits s1 = (waits s)(QW l := w)"
        unfolding s1_def waits_pcs waits_qls by (auto simp: q'_def kq fun_eq_iff)
    qed (simp_all add: s1_def)
    moreover have "klib s1 = k" by (simp add: s1_def)
    ultimately have "lock_inv (s1\<lparr>klib := k'\<rparr>) (W(QW l := W (QW l) @ [t]))"
      using switch_inv [of s1 _ "''qlock''"] by (simp add: k'_def)
    moreover have "s1\<lparr>klib := k'\<rparr> =
        s\<lparr>klib := k', qls := (qls s)(l := q'), pcs := (pcs s)(t := PcQlock l)\<rparr>"
      by (simp add: s1_def)
    ultimately have "lock_inv (s\<lparr>klib := k', qls := (qls s)(l := q'), pcs := (pcs s)(t := PcQlock l)\<rparr>)
        (W(QW l := W (QW l) @ [t]))" by simp
    with ql block show ?thesis by auto
  qed
qed

lemma rlock_call:
  assumes inv: "lock_inv s W" and run: "taskrunning (klib s) = Some t"
  shows "\<exists>r q' k' W'. rlock blk (rws s l) (klib s) = (r, q', k') \<and>
      lock_inv (s\<lparr>klib := k', rws := (rws s)(l := q'),
        pcs := (if r = Blocked then (pcs s)(t := PcRlock l) else pcs s),
        rheld := (if r = Got True then (rheld s)(l := add_mset t (rheld s l)) else rheld s)\<rparr>) W'"
proof -
  have b: "base (klib s) (waits s) W" and qk: "qlocks_ok s W" and rk: "\<forall>l. rwlock_ok s W l"
    and tk: "tasks_ok (pcs s) (set (live (klib s))) (Some t) W (granted s)"
    using inv run by (simp_all add: lock_inv_def)
  note hd = qlock_head(3) [OF inv [unfolded lock_inv_locks_ok], of l]
  have rl: "rwlock_ok s W l" using rk by simp
  consider (free) "writer (rws s l) = None" "W (WW l) = []"
    | (busy) "\<not> (writer (rws s l) = None \<and> W (WW l) = [])" "\<not> blk"
    | (block) "\<not> (writer (rws s l) = None \<and> W (WW l) = [])" "blk" by metis
  then show ?thesis
  proof cases
    case free
    define q' where "q' = (rws s l)\<lparr>readers := readers (rws s l) + 1\<rparr>"
    define s' where "s' = s\<lparr>klib := klib s, rws := (rws s)(l := q'), pcs := pcs s,
      rheld := (rheld s)(l := add_mset t (rheld s l))\<rparr>"
    have "waits s' = waits s"
      unfolding s'_def waits_pcs waits_rws by (auto simp: q'_def fun_eq_iff)
    moreover have "qlocks_ok s' W" using qk by (simp add: qlocks_ok_def s'_def)
    moreover have "\<forall>l. rwlock_ok s' W l"
      using rk rl free by (auto simp: rwlock_ok_def s'_def q'_def)
    moreover have "tasks_ok (pcs s) (set (live (klib s))) (Some t) W (granted s')"
    proof (rule tasks_mono [OF tk])
      fix x assume "granted s x (pcs s x)"
      then show "granted s' x (pcs s x)" by (cases "pcs s x") (auto simp: s'_def q'_def)
    qed
    ultimately have "lock_inv s' W" using b run by (simp add: lock_inv_def) (simp add: s'_def)
    moreover have "rlock blk (rws s l) (klib s) = (Got True, q', klib s)"
      using free hd by (simp add: rlock_def q'_def)
    ultimately show ?thesis by (auto simp: s'_def)
  next
    case busy
    then have "rlock blk (rws s l) (klib s) = (Got False, rws s l, klib s)"
      using hd by (auto simp: rlock_def link_simps)
    with inv show ?thesis by auto
  next
    case block
    obtain w k where a: "add_running (waits s (RW l)) (klib s) = (w, k)" by fastforce
    define q' where "q' = (rws s l)\<lparr>rwaiting := w\<rparr>"
    define k' where "k' = taskswitch (taskstate ''rlock'' k)"
    define s1 where "s1 = s\<lparr>klib := k, rws := (rws s)(l := q'), pcs := (pcs s)(t := PcRlock l)\<rparr>"
    have ql: "rlock blk (rws s l) (klib s) = (Blocked, q', k')"
      using block a hd by (auto simp: rlock_def k'_def q'_def link_simps)
    have kq: "taskrunqueue k = taskrunqueue (klib s)"
      using a run by (auto simp: add_running_def split: prod.splits)
    have "locks_ok s1 (W(RW l := W (RW l) @ [t])) None"
    proof (rule enqueue_inv(1) [OF inv run _ a])
      show "qlocks_ok s1 (W(RW l := W (RW l) @ [t]))"
        using qk by (auto simp: qlocks_ok_def s1_def)
      show "\<forall>l'. rwlock_ok s1 (W(RW l := W (RW l) @ [t])) l'"
        using rk rl block by (auto simp: rwlock_ok_def s1_def q'_def)
      show "granted s1 = granted s"
      proof (intro ext)
        fix u p show "granted s1 u p = granted s u p" by (cases p) (auto simp: s1_def q'_def)
      qed
      show "waits s1 = (waits s)(RW l := w)"
        unfolding s1_def waits_pcs waits_rws by (auto simp: q'_def kq fun_eq_iff)
    qed (simp_all add: s1_def)
    moreover have "klib s1 = k" by (simp add: s1_def)
    ultimately have "lock_inv (s1\<lparr>klib := k'\<rparr>) (W(RW l := W (RW l) @ [t]))"
      using switch_inv [of s1 _ "''rlock''"] by (simp add: k'_def)
    moreover have "s1\<lparr>klib := k'\<rparr> =
        s\<lparr>klib := k', rws := (rws s)(l := q'), pcs := (pcs s)(t := PcRlock l)\<rparr>"
      by (simp add: s1_def)
    ultimately have "lock_inv (s\<lparr>klib := k', rws := (rws s)(l := q'), pcs := (pcs s)(t := PcRlock l)\<rparr>)
        (W(RW l := W (RW l) @ [t]))" by simp
    with ql show ?thesis by auto
  qed
qed

lemma wlock_call:
  assumes inv: "lock_inv s W" and run: "taskrunning (klib s) = Some t"
  shows "\<exists>r q' k' W'. wlock blk (rws s l) (klib s) = (r, q', k') \<and>
      lock_inv (s\<lparr>klib := k', rws := (rws s)(l := q'),
        pcs := (if r = Blocked then (pcs s)(t := PcWlock l) else pcs s)\<rparr>) W'"
proof -
  have b: "base (klib s) (waits s) W" and qk: "qlocks_ok s W" and rk: "\<forall>l. rwlock_ok s W l"
    and tk: "tasks_ok (pcs s) (set (live (klib s))) (Some t) W (granted s)"
    using inv run by (simp_all add: lock_inv_def)
  have rl: "rwlock_ok s W l" using rk by simp
  consider (free) "writer (rws s l) = None" "readers (rws s l) = 0"
    | (busy) "\<not> (writer (rws s l) = None \<and> readers (rws s l) = 0)" "\<not> blk"
    | (block) "\<not> (writer (rws s l) = None \<and> readers (rws s l) = 0)" "blk" by metis
  then show ?thesis
  proof cases
    case free
    define q' where "q' = (rws s l)\<lparr>writer := Some t\<rparr>"
    define s' where "s' = s\<lparr>klib := klib s, rws := (rws s)(l := q'), pcs := pcs s\<rparr>"
    have "waits s' = waits s"
      unfolding s'_def waits_pcs waits_rws by (auto simp: q'_def fun_eq_iff)
    moreover have "qlocks_ok s' W" using qk by (simp add: qlocks_ok_def s'_def)
    moreover have "\<forall>l. rwlock_ok s' W l"
      using rk rl free by (auto simp: rwlock_ok_def s'_def q'_def)
    moreover have "tasks_ok (pcs s) (set (live (klib s))) (Some t) W (granted s')"
    proof (rule tasks_mono [OF tk])
      fix x assume "granted s x (pcs s x)"
      then show "granted s' x (pcs s x)" using free
        by (cases "pcs s x") (auto simp: s'_def q'_def)
    qed
    ultimately have "lock_inv s' W" using b run by (simp add: lock_inv_def) (simp add: s'_def)
    moreover have "wlock blk (rws s l) (klib s) = (Got True, q', klib s)"
      using free run by (simp add: wlock_def q'_def)
    ultimately show ?thesis by (auto simp: s'_def)
  next
    case busy
    then have "wlock blk (rws s l) (klib s) = (Got False, rws s l, klib s)"
      by (auto simp: wlock_def)
    with inv show ?thesis by auto
  next
    case block
    obtain w k where a: "add_running (waits s (WW l)) (klib s) = (w, k)" by fastforce
    define q' where "q' = (rws s l)\<lparr>wwaiting := w\<rparr>"
    define k' where "k' = taskswitch (taskstate ''wlock'' k)"
    define s1 where "s1 = s\<lparr>klib := k, rws := (rws s)(l := q'), pcs := (pcs s)(t := PcWlock l)\<rparr>"
    have ql: "wlock blk (rws s l) (klib s) = (Blocked, q', k')"
      using block a by (auto simp: wlock_def k'_def q'_def)
    have kq: "taskrunqueue k = taskrunqueue (klib s)"
      using a run by (auto simp: add_running_def split: prod.splits)
    have "locks_ok s1 (W(WW l := W (WW l) @ [t])) None"
    proof (rule enqueue_inv(1) [OF inv run _ a])
      show "qlocks_ok s1 (W(WW l := W (WW l) @ [t]))"
        using qk by (auto simp: qlocks_ok_def s1_def)
      show "\<forall>l'. rwlock_ok s1 (W(WW l := W (WW l) @ [t])) l'"
        using rk rl block by (auto simp: rwlock_ok_def s1_def q'_def)
      show "granted s1 = granted s"
      proof (intro ext)
        fix u p show "granted s1 u p = granted s u p" by (cases p) (auto simp: s1_def q'_def)
      qed
      show "waits s1 = (waits s)(WW l := w)"
        unfolding s1_def waits_pcs waits_rws by (auto simp: q'_def kq fun_eq_iff)
    qed (simp_all add: s1_def)
    moreover have "klib s1 = k" by (simp add: s1_def)
    ultimately have "lock_inv (s1\<lparr>klib := k'\<rparr>) (W(WW l := W (WW l) @ [t]))"
      using switch_inv [of s1 _ "''wlock''"] by (simp add: k'_def)
    moreover have "s1\<lparr>klib := k'\<rparr> =
        s\<lparr>klib := k', rws := (rws s)(l := q'), pcs := (pcs s)(t := PcWlock l)\<rparr>"
      by (simp add: s1_def)
    ultimately have "lock_inv (s\<lparr>klib := k', rws := (rws s)(l := q'), pcs := (pcs s)(t := PcWlock l)\<rparr>)
        (W(WW l := W (WW l) @ [t]))" by simp
    with ql show ?thesis by auto
  qed
qed

text \<open>The state between two changes of one reader-writer lock: nobody writes.\<close>

definition rw_mid :: "locksys \<Rightarrow> (wname \<Rightarrow> tptr list) \<Rightarrow> nat \<Rightarrow> bool" where
  "rw_mid s W l \<longleftrightarrow> base (klib s) (waits s) W \<and> qlocks_ok s W \<and>
     (\<forall>l'. l' \<noteq> l \<longrightarrow> rwlock_ok s W l') \<and>
     tasks_ok (pcs s) (set (live (klib s))) (taskrunning (klib s)) W (granted s) \<and>
     writer (rws s l) = None \<and> readers (rws s l) = int (size (rheld s l))"

lemma rw_mid_done:
  "rw_mid s W l \<Longrightarrow> (rheld s l = {#} \<Longrightarrow> W (WW l) = []) \<Longrightarrow> (W (WW l) = [] \<Longrightarrow> W (RW l) = []) \<Longrightarrow>
   lock_inv s W"
  unfolding rw_mid_def lock_inv_def by (metis rwlock_ok_def)

text \<open>Waking one waiter of a reader-writer lock; the new lock state is \<open>q'\<close>.\<close>

lemma rw_wake:
  assumes mid: "rw_mid s W l" and hd: "W n = t # ts" and n: "n = RW l \<or> n = WW l"
    and wk: "wake (waits s n) t (klib s) = (w, k)"
    and q': "rwaiting q' = (if n = RW l then w else rwaiting (rws s l))"
      "wwaiting q' = (if n = WW l then w else wwaiting (rws s l))"
    and g: "(n = WW l \<and> writer q' = Some t \<and> H = rheld s l) \<or>
            (n = RW l \<and> writer q' = None \<and> H = add_mset t (rheld s l))"
  defines "s' \<equiv> s\<lparr>klib := k, rws := (rws s)(l := q'), rheld := (rheld s)(l := H)\<rparr>"
  defines "W' \<equiv> W(n := ts, RunQ := W RunQ @ [t])"
  shows "base (klib s') (waits s') W'" and "qlocks_ok s' W'"
    and "\<And>l'. l' \<noteq> l \<Longrightarrow> rwlock_ok s' W' l'"
    and "tasks_ok (pcs s') (set (live (klib s'))) (taskrunning (klib s')) W' (granted s')"
    and "taskrunning k = taskrunning (klib s)" and "live k = live (klib s)"
proof -
  have b: "base (klib s) (waits s) W" and qk: "qlocks_ok s W"
    and rk: "\<And>l'. l' \<noteq> l \<Longrightarrow> rwlock_ok s W l'"
    and tk: "tasks_ok (pcs s) (set (live (klib s))) (taskrunning (klib s)) W (granted s)"
    and wn: "writer (rws s l) = None"
    using mid by (simp_all add: rw_mid_def)
  have nr: "n \<noteq> RunQ" using n by auto
  have rt: "taskrunning (klib s) \<noteq> Some t"
    using tk hd unfolding tasks_ok_def by (metis list.set_intros(1))
  have home: "home (pcs s t) = Some n" by (rule woken_home [OF tk nr hd])
  have wts: "waits s' = (waits s)(n := w, RunQ := taskrunqueue k)"
    unfolding s'_def waits_pcs waits_rws using n q' by (auto simp: fun_eq_iff)
  have gt: "granted s' t (pcs s t)"
    using home g by (cases "pcs s t") (auto simp: s'_def)
  have mono: "granted s' u (pcs s u)" if "granted s u (pcs s u)" for u
    using that g wn by (cases "pcs s u") (auto simp: s'_def)
  have "klib s' = k" "pcs s' = pcs s" by (simp_all add: s'_def)
  note wi = wake_inv [OF b tk hd nr rt wk this(1) wts this(2) gt mono]
  show "base (klib s') (waits s') W'" "taskrunning k = taskrunning (klib s)"
    "live k = live (klib s)"
    using wi by (simp_all add: W'_def)
  then show "tasks_ok (pcs s') (set (live (klib s'))) (taskrunning (klib s')) W' (granted s')"
    using wi by (simp add: W'_def) (simp add: s'_def)
  show "qlocks_ok s' W'" using qk n by (auto simp: qlocks_ok_def s'_def W'_def)
  show "rwlock_ok s' W' l'" if "l' \<noteq> l" for l'
    using rk [OF that] that n by (auto simp: rwlock_ok_def s'_def W'_def)
qed

lemma grant_writer_inv:
  assumes mid: "rw_mid s W l" and free: "rheld s l = {#}" and rw: "W (WW l) = [] \<Longrightarrow> W (RW l) = []"
  shows "\<exists>q' k' W'. grant_writer (rws s l) (klib s) = (q', k') \<and>
      lock_inv (s\<lparr>klib := k', rws := (rws s)(l := q')\<rparr>) W'"
proof -
  have b: "base (klib s) (waits s) W" using mid by (simp add: rw_mid_def)
  have hd: "lhead (wwaiting (rws s l)) = first_or (W (WW l)) None"
    using baseD(5) [OF b, of "WW l"] by simp
  show ?thesis
  proof (cases "W (WW l)")
    case Nil
    then have "grant_writer (rws s l) (klib s) = (rws s l, klib s)"
      using hd by (simp add: grant_writer_def)
    moreover have "lock_inv s W" using rw_mid_done [OF mid] Nil rw by simp
    ultimately show ?thesis by auto
  next
    case (Cons t ts)
    obtain w k where wk: "wake (waits s (WW l)) t (klib s) = (w, k)" by fastforce
    define q' where "q' = (rws s l)\<lparr>wwaiting := w, writer := Some t\<rparr>"
    have gw: "grant_writer (rws s l) (klib s) = (q', k)"
      using hd Cons wk by (simp add: grant_writer_def q'_def)
    define W' where "W' = W(WW l := ts, RunQ := W RunQ @ [t])"
    define s' where "s' = s\<lparr>klib := k, rws := (rws s)(l := q'), rheld := (rheld s)(l := rheld s l)\<rparr>"
    have "rwaiting q' = (if WW l = RW l then w else rwaiting (rws s l))"
      "wwaiting q' = (if WW l = WW l then w else wwaiting (rws s l))"
      "(WW l = WW l \<and> writer q' = Some t \<and> rheld s l = rheld s l) \<or>
       (WW l = RW l \<and> writer q' = None \<and> rheld s l = add_mset t (rheld s l))"
      by (simp_all add: q'_def)
    note rww = rw_wake [OF mid Cons disjI2 [OF refl] wk this, folded s'_def W'_def]
    have "rwlock_ok s' W' l"
      using mid free by (simp add: rwlock_ok_def rw_mid_def s'_def q'_def)
    then have "\<forall>l'. rwlock_ok s' W' l'" using rww(3) by metis
    then have "lock_inv s' W'" using rww by (simp add: lock_inv_def)
    moreover have "s' = s\<lparr>klib := k, rws := (rws s)(l := q')\<rparr>" by (simp add: s'_def)
    ultimately show ?thesis using gw by auto
  qed
qed

lemma admit_readers_inv:
  assumes "rw_mid s W l"
  shows "\<exists>q' k'. admit_readers (rws s l) (klib s) = Some (q', k') \<and>
      rw_mid (s\<lparr>klib := k', rws := (rws s)(l := q'), rheld := (rheld s)(l := rheld s l + mset (W (RW l)))\<rparr>)
        (W(RW l := [], RunQ := W RunQ @ W (RW l))) l \<and>
      taskrunning k' = taskrunning (klib s) \<and> live k' = live (klib s)"
  using assms
proof (induction "W (RW l)" arbitrary: s W)
  case Nil
  then have b: "base (klib s) (waits s) W" by (simp add: rw_mid_def)
  have "lhead (rwaiting (rws s l)) = None"
    using baseD(5) [OF b, of "RW l"] Nil(1) [symmetric] by simp
  then have "admit_readers (rws s l) (klib s) = Some (rws s l, klib s)"
    by (subst admit_readers.simps) simp
  moreover have "W(RW l := [], RunQ := W RunQ @ W (RW l)) = W" using Nil(1) by auto
  moreover have "s\<lparr>klib := klib s, rws := (rws s)(l := rws s l),
      rheld := (rheld s)(l := rheld s l + mset (W (RW l)))\<rparr> = s"
    using Nil(1) [symmetric] by simp
  ultimately show ?case using Nil(2) by (intro exI [of _ "rws s l"] exI [of _ "klib s"]) (simp only: simp_thms)
next
  case (Cons t ts)
  note W = Cons.hyps(2) [symmetric]
  have b: "base (klib s) (waits s) W" using Cons.prems by (simp add: rw_mid_def)
  have hd: "lhead (rwaiting (rws s l)) = Some t" using baseD(5) [OF b, of "RW l"] W by simp
  obtain w k where wk: "wake (waits s (RW l)) t (klib s) = (w, k)" by fastforce
  define q' where "q' = (rws s l)\<lparr>rwaiting := w, readers := readers (rws s l) + 1\<rparr>"
  define s' where "s' = s\<lparr>klib := k, rws := (rws s)(l := q'),
    rheld := (rheld s)(l := add_mset t (rheld s l))\<rparr>"
  define W' where "W' = W(RW l := ts, RunQ := W RunQ @ [t])"
  have st: "admit_readers (rws s l) (klib s) = admit_readers (rws s' l) (klib s')"
    using hd wk by (subst admit_readers.simps) (simp add: q'_def s'_def)
  have wn: "writer (rws s l) = None" using Cons.prems by (simp add: rw_mid_def)
  have "rwaiting q' = (if RW l = RW l then w else rwaiting (rws s l))"
    "wwaiting q' = (if RW l = WW l then w else wwaiting (rws s l))"
    "(RW l = WW l \<and> writer q' = Some t \<and> add_mset t (rheld s l) = rheld s l) \<or>
     (RW l = RW l \<and> writer q' = None \<and> add_mset t (rheld s l) = add_mset t (rheld s l))"
    using wn by (simp_all add: q'_def)
  note rww = rw_wake [OF Cons.prems W disjI1 [OF refl] wk this, folded s'_def W'_def]
  have "rw_mid s' W' l"
    using rww Cons.prems unfolding rw_mid_def by (simp add: s'_def q'_def)
  moreover have "ts = W' (RW l)" by (simp add: W'_def)
  ultimately obtain q2 k2 where
    IH: "admit_readers (rws s' l) (klib s') = Some (q2, k2)"
      "rw_mid (s'\<lparr>klib := k2, rws := (rws s')(l := q2),
         rheld := (rheld s')(l := rheld s' l + mset (W' (RW l)))\<rparr>)
         (W'(RW l := [], RunQ := W' RunQ @ W' (RW l))) l"
      "taskrunning k2 = taskrunning (klib s')" "live k2 = live (klib s')"
    using Cons.hyps(1) [of W' s'] by blast
  have "s'\<lparr>klib := k2, rws := (rws s')(l := q2), rheld := (rheld s')(l := rheld s' l + mset (W' (RW l)))\<rparr> =
      s\<lparr>klib := k2, rws := (rws s)(l := q2), rheld := (rheld s)(l := rheld s l + mset (W (RW l)))\<rparr>"
    by (simp add: s'_def W'_def W)
  moreover have "W'(RW l := [], RunQ := W' RunQ @ W' (RW l)) = W(RW l := [], RunQ := W RunQ @ W (RW l))"
    by (auto simp: W'_def W)
  ultimately have "rw_mid (s\<lparr>klib := k2, rws := (rws s)(l := q2),
      rheld := (rheld s)(l := rheld s l + mset (W (RW l)))\<rparr>)
      (W(RW l := [], RunQ := W RunQ @ W (RW l))) l"
    using IH(2) by (simp only:)
  moreover have "klib s' = k" by (simp add: s'_def)
  ultimately show ?case using IH(1,3,4) st rww(5,6) by auto
qed

lemma runlock_inv:
  assumes inv: "lock_inv s W" and pc: "pcs s t = PcRun" and held: "t \<in># rheld s l"
  shows "\<exists>q' k' W'. runlock (rws s l) (klib s) = (q', k') \<and>
      lock_inv (s\<lparr>klib := k', rws := (rws s)(l := q'), rheld := (rheld s)(l := rheld s l - {#t#})\<rparr>) W'"
proof -
  have b: "base (klib s) (waits s) W" and qk: "qlocks_ok s W" and rk: "\<forall>l. rwlock_ok s W l"
    and tk: "tasks_ok (pcs s) (set (live (klib s))) (taskrunning (klib s)) W (granted s)"
    using inv by (simp_all add: lock_inv_def)
  have rl: "rwlock_ok s W l" using rk by simp
  define H where "H = rheld s l - {#t#}"
  have sz: "size (rheld s l) = Suc (size H)" using held by (simp add: H_def size_Suc_Diff1)
  have wn: "writer (rws s l) = None" using rl held by (auto simp: rwlock_ok_def)
  define q1 where "q1 = (rws s l)\<lparr>readers := readers (rws s l) - 1\<rparr>"
  define s1 where "s1 = s\<lparr>klib := klib s, rws := (rws s)(l := q1), rheld := (rheld s)(l := H)\<rparr>"
  have "waits s1 = waits s"
    unfolding s1_def waits_pcs waits_rws by (auto simp: q1_def fun_eq_iff)
  moreover have "tasks_ok (pcs s) (set (live (klib s))) (taskrunning (klib s)) W (granted s1)"
  proof (rule tasks_mono [OF tk])
    fix u assume "granted s u (pcs s u)"
    then show "granted s1 u (pcs s u)" using pc
      by (cases "pcs s u"; cases "u = t") (auto simp: s1_def q1_def H_def in_diff_count)
  qed
  ultimately have mid: "rw_mid s1 W l"
    using b qk rk rl sz wn by (simp add: rw_mid_def) (simp add: s1_def q1_def qlocks_ok_def rwlock_ok_def)
  show ?thesis
  proof (cases "H = {#}")
    case True
    have "W (WW l) = [] \<Longrightarrow> W (RW l) = []" using rl wn by (auto simp: rwlock_ok_def)
    moreover have "rheld s1 l = {#}" by (simp add: s1_def True)
    ultimately obtain q' k' W' where
      g: "grant_writer (rws s1 l) (klib s1) = (q', k')"
        "lock_inv (s1\<lparr>klib := k', rws := (rws s1)(l := q')\<rparr>) W'"
      using grant_writer_inv [OF mid] by blast
    have "readers q1 = 0" using rl sz True by (simp add: q1_def rwlock_ok_def)
    then have "runlock (rws s l) (klib s) = (q', k')"
      using g(1) by (simp add: runlock_def Let_def s1_def flip: q1_def)
    moreover have "s1\<lparr>klib := k', rws := (rws s1)(l := q')\<rparr> =
        s\<lparr>klib := k', rws := (rws s)(l := q'), rheld := (rheld s)(l := H)\<rparr>" by (simp add: s1_def)
    ultimately show ?thesis using g(2) unfolding H_def by metis
  next
    case False
    then have "readers q1 \<noteq> 0" using rl sz by (simp add: q1_def rwlock_ok_def)
    then have "runlock (rws s l) (klib s) = (q1, klib s)"
      by (simp add: runlock_def Let_def flip: q1_def)
    moreover have "lock_inv s1 W"
    proof (rule rw_mid_done [OF mid])
      show "rheld s1 l = {#} \<Longrightarrow> W (WW l) = []" using False by (simp add: s1_def)
      show "W (WW l) = [] \<Longrightarrow> W (RW l) = []" using rl wn by (auto simp: rwlock_ok_def)
    qed
    ultimately show ?thesis unfolding s1_def H_def by metis
  qed
qed

lemma wunlock_inv:
  assumes inv: "lock_inv s W" and pc: "pcs s t = PcRun" and own: "writer (rws s l) = Some t"
  shows "\<exists>q' k' W'. wunlock (rws s l) (klib s) = Some (Return (q', k')) \<and>
      lock_inv (s\<lparr>klib := k', rws := (rws s)(l := q'), rheld := (rheld s)(l := mset (W (RW l)))\<rparr>) W'"
proof -
  have b: "base (klib s) (waits s) W" and qk: "qlocks_ok s W" and rk: "\<forall>l. rwlock_ok s W l"
    and tk: "tasks_ok (pcs s) (set (live (klib s))) (taskrunning (klib s)) W (granted s)"
    using inv by (simp_all add: lock_inv_def)
  have rl: "rwlock_ok s W l" using rk by simp
  have z: "rheld s l = {#}" "readers (rws s l) = 0" using rl own by (auto simp: rwlock_ok_def)
  define q1 where "q1 = (rws s l)\<lparr>writer := None\<rparr>"
  define s1 where "s1 = s\<lparr>klib := klib s, rws := (rws s)(l := q1)\<rparr>"
  have "waits s1 = waits s"
    unfolding s1_def waits_pcs waits_rws by (auto simp: q1_def fun_eq_iff)
  moreover have "tasks_ok (pcs s) (set (live (klib s))) (taskrunning (klib s)) W (granted s1)"
  proof (rule tasks_mono [OF tk])
    fix u assume "granted s u (pcs s u)"
    then show "granted s1 u (pcs s u)" using pc own
      by (cases "pcs s u") (auto simp: s1_def q1_def)
  qed
  ultimately have mid: "rw_mid s1 W l"
    using b qk rk rl z by (simp add: rw_mid_def) (simp add: s1_def q1_def qlocks_ok_def rwlock_ok_def)
  define W1 where "W1 = W(RW l := [], RunQ := W RunQ @ W (RW l))"
  from admit_readers_inv [OF mid] obtain q2 k2 where
    a: "admit_readers (rws s1 l) (klib s1) = Some (q2, k2)"
      "rw_mid (s1\<lparr>klib := k2, rws := (rws s1)(l := q2),
        rheld := (rheld s1)(l := rheld s1 l + mset (W (RW l)))\<rparr>) W1 l"
    by (auto simp: W1_def)
  define s2 where "s2 = s\<lparr>klib := k2, rws := (rws s)(l := q2), rheld := (rheld s)(l := mset (W (RW l)))\<rparr>"
  have s2: "s1\<lparr>klib := k2, rws := (rws s1)(l := q2),
      rheld := (rheld s1)(l := rheld s1 l + mset (W (RW l)))\<rparr> = s2"
    by (simp add: s1_def s2_def z)
  have mid2: "rw_mid s2 W1 l" using a(2) s2 by simp
  have ul: "wunlock (rws s l) (klib s) =
      Some (Return (if readers q2 = 0 then grant_writer q2 k2 else (q2, k2)))"
    using own z a(1) by (simp add: wunlock_def s1_def flip: q1_def)
  have rd: "readers q2 = int (length (W (RW l)))" using mid2 by (simp add: rw_mid_def s2_def)
  show ?thesis
  proof (cases "W (RW l) = []")
    case True
    have "rheld s2 l = {#}" by (simp add: s2_def True)
    moreover have "W1 (WW l) = [] \<Longrightarrow> W1 (RW l) = []" by (simp add: W1_def)
    ultimately obtain q' k' W' where
      g: "grant_writer (rws s2 l) (klib s2) = (q', k')"
        "lock_inv (s2\<lparr>klib := k', rws := (rws s2)(l := q')\<rparr>) W'"
      using grant_writer_inv [OF mid2] by blast
    have "wunlock (rws s l) (klib s) = Some (Return (q', k'))"
      using ul rd True g(1) by (simp add: s2_def)
    moreover have "s2\<lparr>klib := k', rws := (rws s2)(l := q')\<rparr> =
        s\<lparr>klib := k', rws := (rws s)(l := q'), rheld := (rheld s)(l := mset (W (RW l)))\<rparr>"
      by (simp add: s2_def)
    ultimately show ?thesis using g(2) by metis
  next
    case False
    then have "wunlock (rws s l) (klib s) = Some (Return (q2, k2))" using ul rd by simp
    moreover have "lock_inv s2 W1"
      by (rule rw_mid_done [OF mid2]) (use False in \<open>simp_all add: s2_def W1_def\<close>)
    ultimately show ?thesis unfolding s2_def by metis
  qed
qed

lemma return_inv:
  assumes inv: "lock_inv s W" and run: "taskrunning (klib s) = Some t"
  shows "lock_inv (s\<lparr>pcs := (pcs s)(t := PcRun)\<rparr>) W"
  using inv tasks_return [of "pcs s" _ t W "granted s"] run
  by (simp add: lock_inv_def qlocks_ok_def rwlock_ok_def)

lemma tasksleep_inv:
  assumes inv: "lock_inv s W" and run: "taskrunning (klib s) = Some t"
    and own: "rlk (rzs s r) \<noteq> None \<Longrightarrow> qowner (qls s l) = Some t"
  shows "\<exists>r' q' k' W'. tasksleep (rzs s r) (qls s l) (klib s) = Return (r', q', k') \<and>
      lock_inv (s\<lparr>klib := k', qls := (qls s)(l := q'), rzs := (rzs s)(r := r'),
        pcs := (pcs s)(t := PcSleep r)\<rparr>) W' \<and> t \<in> set (W' (ZW r)) \<and>
      (rlk (rzs s r) \<noteq> None \<longrightarrow> qowner q' \<noteq> Some t)"
proof -
  have b: "base (klib s) (waits s) W" and qk: "qlocks_ok s W" and rk: "\<forall>l. rwlock_ok s W l"
    and tk: "tasks_ok (pcs s) (set (live (klib s))) (Some t) W (granted s)"
    using inv run by (simp_all add: lock_inv_def)
  have new: "t \<notin> set (W n)" for n using tk by (simp add: tasks_ok_def)
  obtain w k where a: "add_running (waits s (ZW r)) (klib s) = (w, k)" by fastforce
  define r' where "r' = (rzs s r)\<lparr>zwaiting := w\<rparr>"
  define W1 where "W1 = W(ZW r := W (ZW r) @ [t])"
  define s1 where "s1 = s\<lparr>klib := k, rzs := (rzs s)(r := r'), pcs := (pcs s)(t := PcSleep r)\<rparr>"
  have kq: "taskrunqueue k = taskrunqueue (klib s)"
    using a run by (auto simp: add_running_def split: prod.splits)
  have g1: "granted s1 = granted s"
  proof (intro ext)
    fix u p show "granted s1 u p = granted s u p" by (cases p) (auto simp: s1_def)
  qed
  have w1: "waits s1 = (waits s)(ZW r := w)"
    unfolding s1_def waits_pcs waits_rzs by (auto simp: r'_def kq fun_eq_iff)
  note e = enqueue_inv [where s' = s1, OF inv run _ a, unfolded W1_def [symmetric]]
  have ok1: "locks_ok s1 W1 None"
    by (rule e(1)) (use qk rk g1 w1 in \<open>simp_all add: s1_def qlocks_ok_def rwlock_ok_def W1_def\<close>)
  have runk: "taskrunning k = Some t"
    by (rule e(2)) (use qk rk g1 w1 in \<open>simp_all add: s1_def qlocks_ok_def rwlock_ok_def W1_def\<close>)
  have sel: "klib s1 = k" "qls s1 = qls s" by (simp_all add: s1_def)
  show ?thesis
  proof (cases "rlk (rzs s r)")
    case None
    define k' where "k' = taskswitch (taskstate ''sleep'' k)"
    have "lock_inv (s1\<lparr>klib := k'\<rparr>) W1" using switch_inv [OF ok1, of "''sleep''"] by (simp add: sel k'_def)
    moreover have "s1\<lparr>klib := k'\<rparr> = s\<lparr>klib := k', qls := (qls s)(l := qls s l), rzs := (rzs s)(r := r'),
        pcs := (pcs s)(t := PcSleep r)\<rparr>" by (simp add: s1_def)
    ultimately have "lock_inv (s\<lparr>klib := k', qls := (qls s)(l := qls s l), rzs := (rzs s)(r := r'),
        pcs := (pcs s)(t := PcSleep r)\<rparr>) W1" by simp
    moreover have "tasksleep (rzs s r) (qls s l) (klib s) = Return (r', qls s l, k')"
      using None a by (simp add: tasksleep_def r'_def k'_def)
    ultimately show ?thesis using None by (auto simp: W1_def)
  next
    case (Some l0)
    then have own1: "qowner (qls s1 l) = Some t" using own sel by simp
    have "pcs s1 t \<noteq> PcQlock l" by (simp add: s1_def)
    moreover have "t' \<notin> set (W1 (QW l))" if "taskrunning (klib s1) = Some t'" for t'
      using that runk new by (simp add: sel W1_def)
    ultimately obtain q' k2 W2 where
      u: "qunlock (qls s1 l) (klib s1) = Return (q', k2)"
        "locks_ok (s1\<lparr>klib := k2, qls := (qls s1)(l := q')\<rparr>) W2 None"
        "qowner q' = first_or (W1 (QW l)) None"
        "W2 = (case W1 (QW l) of [] \<Rightarrow> W1 | t # ts \<Rightarrow> W1(QW l := ts, RunQ := W1 RunQ @ [t]))"
      using qunlock_inv [OF ok1 own1] by blast
    define k' where "k' = taskswitch (taskstate ''sleep'' k2)"
    have "lock_inv (s1\<lparr>klib := k2, qls := (qls s1)(l := q')\<rparr>\<lparr>klib := k'\<rparr>) W2"
      using switch_inv [OF u(2), of "''sleep''"] by (simp add: k'_def)
    moreover have "s1\<lparr>klib := k2, qls := (qls s1)(l := q')\<rparr>\<lparr>klib := k'\<rparr> =
        s\<lparr>klib := k', qls := (qls s)(l := q'), rzs := (rzs s)(r := r'),
          pcs := (pcs s)(t := PcSleep r)\<rparr>" by (simp add: s1_def)
    ultimately have "lock_inv (s\<lparr>klib := k', qls := (qls s)(l := q'), rzs := (rzs s)(r := r'),
          pcs := (pcs s)(t := PcSleep r)\<rparr>) W2" by (simp only:)
    moreover have "tasksleep (rzs s r) (qls s l) (klib s) = Return (r', q', k')"
      using Some a u(1) by (simp add: tasksleep_def r'_def k'_def sel)
    moreover have "t \<in> set (W2 (ZW r))" using u(4) by (auto simp: W1_def split: list.splits)
    moreover have "qowner q' \<noteq> Some t"
      using u(3) new [of "QW l"] by (cases "W (QW l)") (auto simp: W1_def)
    ultimately show ?thesis by blast
  qed
qed

text \<open>Waking sleepers: all of them, or the first one.\<close>

definition wakes :: "bool \<Rightarrow> nat \<Rightarrow> tptr list \<Rightarrow> nat" where
  "wakes all i xs = (if all then length xs else if i = 0 then min 1 (length xs) else 0)"

lemma taskwakeup_loop_inv:
  assumes "lock_inv s W" and "all \<or> i \<le> 1"
  shows "\<exists>r' k'. taskwakeup_loop all i (rzs s r) (klib s) =
        Some (i + wakes all i (W (ZW r)), r', k') \<and> rlk r' = rlk (rzs s r) \<and>
      lock_inv (s\<lparr>klib := k', rzs := (rzs s)(r := r')\<rparr>)
        (W(ZW r := drop (wakes all i (W (ZW r))) (W (ZW r)),
           RunQ := W RunQ @ take (wakes all i (W (ZW r))) (W (ZW r)))) \<and>
      taskrunning k' = taskrunning (klib s)"
  using assms
proof (induction "W (ZW r)" arbitrary: s W i)
  case Nil
  then have b: "base (klib s) (waits s) W" by (simp add: lock_inv_def)
  have "lhead (zwaiting (rzs s r)) = None"
    using baseD(5) [OF b, of "ZW r"] Nil(1) [symmetric] by simp
  then have "taskwakeup_loop all i (rzs s r) (klib s) = Some (i, rzs s r, klib s)"
    by (subst taskwakeup_loop.simps) simp
  moreover have "s\<lparr>klib := klib s, rzs := (rzs s)(r := rzs s r)\<rparr> = s" by simp
  moreover have "W(ZW r := drop (wakes all i (W (ZW r))) (W (ZW r)),
      RunQ := W RunQ @ take (wakes all i (W (ZW r))) (W (ZW r))) = W"
    using Nil(1) [symmetric] by auto
  moreover have "wakes all i (W (ZW r)) = 0" using Nil(1) [symmetric] by (simp add: wakes_def)
  ultimately show ?case using Nil(2)
    by (intro exI [of _ "rzs s r"] exI [of _ "klib s"]) (simp only: add_0_right simp_thms)
next
  case (Cons t ts)
  note W = Cons.hyps(2) [symmetric]
  have b: "base (klib s) (waits s) W" and qk: "qlocks_ok s W" and rk: "\<forall>l. rwlock_ok s W l"
    and tk: "tasks_ok (pcs s) (set (live (klib s))) (taskrunning (klib s)) W (granted s)"
    using Cons.prems(1) by (simp_all add: lock_inv_def)
  show ?case
  proof (cases "i = 1 \<and> \<not> all")
    case True
    then have "taskwakeup_loop all i (rzs s r) (klib s) = Some (i, rzs s r, klib s)"
      by (subst taskwakeup_loop.simps) simp
    moreover have "s\<lparr>klib := klib s, rzs := (rzs s)(r := rzs s r)\<rparr> = s" by simp
    moreover have "W(ZW r := W (ZW r), RunQ := W RunQ) = W" by auto
    ultimately show ?thesis using Cons.prems True
      by (intro exI [of _ "rzs s r"] exI [of _ "klib s"]) (simp add: wakes_def)
  next
    case False
    have hd: "lhead (zwaiting (rzs s r)) = Some t" using baseD(5) [OF b, of "ZW r"] W by simp
    obtain w k where wk: "wake (waits s (ZW r)) t (klib s) = (w, k)" by fastforce
    define r1 where "r1 = (rzs s r)\<lparr>zwaiting := w\<rparr>"
    define s1 where "s1 = s\<lparr>klib := k, rzs := (rzs s)(r := r1)\<rparr>"
    define W1 where "W1 = W(ZW r := ts, RunQ := W RunQ @ [t])"
    have st: "taskwakeup_loop all i (rzs s r) (klib s) =
        taskwakeup_loop all (i + 1) (rzs s1 r) (klib s1)"
      using hd wk False by (subst taskwakeup_loop.simps) (auto simp: r1_def s1_def)
    have rt: "taskrunning (klib s) \<noteq> Some t"
      using tk W unfolding tasks_ok_def by (metis list.set_intros(1))
    have "home (pcs s t) = Some (ZW r)" by (rule woken_home [OF tk _ W]) simp
    then have gt: "granted s1 t (pcs s t)" by (cases "pcs s t") auto
    have g1: "granted s1 = granted s"
    proof (intro ext)
      fix u p show "granted s1 u p = granted s u p" by (cases p) (auto simp: s1_def)
    qed
    have "klib s1 = k" "waits s1 = (waits s)(ZW r := w, RunQ := taskrunqueue k)" "pcs s1 = pcs s"
      unfolding s1_def waits_rzs by (simp_all add: r1_def)
    note wi = wake_inv [OF b tk W _ rt wk this gt, folded W1_def]
    have "qlocks_ok s1 W1" using qk by (simp add: qlocks_ok_def s1_def W1_def)
    moreover have "\<forall>l. rwlock_ok s1 W1 l" using rk by (simp add: rwlock_ok_def s1_def W1_def)
    moreover have "klib s1 = k" by (simp add: s1_def)
    ultimately have inv1: "lock_inv s1 W1" using wi g1 by (simp add: lock_inv_def)
    have run1: "taskrunning k = taskrunning (klib s)" using wi(3) g1 by simp
    have "ts = W1 (ZW r)" by (simp add: W1_def)
    moreover have "all \<or> i + 1 \<le> 1" using False Cons.prems(2) by auto
    ultimately obtain r' k' where
      IH: "taskwakeup_loop all (i + 1) (rzs s1 r) (klib s1) =
            Some (i + 1 + wakes all (i + 1) ts, r', k')" "rlk r' = rlk (rzs s1 r)"
          "lock_inv (s1\<lparr>klib := k', rzs := (rzs s1)(r := r')\<rparr>)
            (W1(ZW r := drop (wakes all (i + 1) ts) ts, RunQ := W1 RunQ @ take (wakes all (i + 1) ts) ts))"
          "taskrunning k' = taskrunning (klib s1)"
      using Cons.hyps(1) [of W1 s1 "i + 1"] inv1 by auto
    have cnt: "wakes all i (t # ts) = Suc (wakes all (i + 1) ts)"
      using False Cons.prems(2) by (auto simp: wakes_def)
    have "s1\<lparr>klib := k', rzs := (rzs s1)(r := r')\<rparr> = s\<lparr>klib := k', rzs := (rzs s)(r := r')\<rparr>"
      by (simp add: s1_def)
    moreover have "W1(ZW r := drop (wakes all (i + 1) ts) ts,
          RunQ := W1 RunQ @ take (wakes all (i + 1) ts) ts) =
        W(ZW r := drop (wakes all i (W (ZW r))) (W (ZW r)),
          RunQ := W RunQ @ take (wakes all i (W (ZW r))) (W (ZW r)))"
      unfolding W cnt by (auto simp: W1_def)
    moreover have "rlk r' = rlk (rzs s r)" "klib s1 = k" using IH(2) by (simp_all add: s1_def r1_def)
    ultimately show ?thesis using IH st run1 unfolding W cnt by auto
  qed
qed

section \<open>The scheduler's own steps\<close>

lemma base_pick:
  assumes b: "base s L W" and idle: "taskrunning s = None" and pick: "sched_pick s = Return s'"
  obtains t ts where "W RunQ = t # ts" and "base s' (L(RunQ := taskrunqueue s')) (W(RunQ := ts))"
    and "taskrunning s' = Some t" and "live s' = live s"
proof -
  from sched_pick_inv [OF baseD(1) [OF b] idle pick] obtain t ts where
    hd: "W RunQ = t # ts" and si: "sched_inv s' ts" and run: "taskrunning s' = Some t"
    and lv: "live s' = live s" by metis
  have lh: "lhead (taskrunqueue s) = Some t" using baseD(3) [OF b] baseD(5) [OF b, of RunQ] hd by simp
  obtain q h where d: "deltask (taskrunqueue s) t (heap s) = (q, h)" by fastforce
  have s': "heap s' = h(t := (h t)\<lparr>ready := False\<rparr>)" "taskrunqueue s' = q"
    using pick lh d by (auto simp: sched_pick_def split: if_splits)
  have "lists_ok h (L(RunQ := q)) (W(RunQ := ts))"
    by (rule lists_del [OF baseD(2) [OF b] hd]) (simp add: baseD(3) [OF b] d)
  then have "lists_ok (heap s') (L(RunQ := q)) (W(RunQ := ts))"
    unfolding s' by (rule lists_upd) simp_all
  moreover have "set ((W(RunQ := ts)) n) \<subseteq> set (live s)" for n
    using baseD(4) [OF b, of n] baseD(4) [OF b, of RunQ] hd by auto
  ultimately have "base s' (L(RunQ := taskrunqueue s')) (W(RunQ := ts))"
    using si lv by (simp add: base_def s')
  with that hd run lv show thesis by blast
qed

lemma base_ready:
  assumes ok: "lists_ok (heap s) L W" and q: "L RunQ = taskrunqueue s" and new: "\<And>m. t \<notin> set (W m)"
  shows "lists_ok (heap (taskready t s)) (L(RunQ := taskrunqueue (taskready t s)))
      (W(RunQ := W RunQ @ [t]))"
proof -
  define h1 where "h1 = (heap s)(t := (heap s t)\<lparr>ready := True\<rparr>)"
  obtain r h2 where a: "addtask (taskrunqueue s) t h1 = (r, h2)" by fastforce
  then have "heap (taskready t s) = h2" "taskrunqueue (taskready t s) = r"
    by (simp_all add: taskready_def Let_def h1_def)
  moreover have "lists_ok h1 L W" unfolding h1_def by (rule lists_upd [OF ok]) simp_all
  from lists_add [OF this new, of RunQ r h2] a q
  have "lists_ok h2 (L(RunQ := r)) (W(RunQ := W RunQ @ [t]))" by simp
  ultimately show ?thesis by simp
qed

lemma base_yield:
  assumes b: "base s L W" and run: "taskrunning s = Some t" and new: "\<And>m. t \<notin> set (W m)"
  defines "s' \<equiv> snd (taskyield s)"
  shows "base s' (L(RunQ := taskrunqueue s')) (W(RunQ := W RunQ @ [t]))"
    and "taskrunning s' = None" and "live s' = live s"
proof -
  note y = taskyield_inv [OF baseD(1) [OF b] run]
  show "taskrunning s' = None" "live s' = live s" using y by (simp_all add: s'_def)
  have ex: "\<not> exiting (heap s t)" using baseD(1) [OF b] run by (auto simp: sched_inv_defs)
  then have eq: "heap s' = heap (taskstate ''yield'' (taskready t s))"
      "taskrunqueue s' = taskrunqueue (taskready t s)"
    using run by (simp_all add: s'_def taskyield_def taskswitch_def sched_return_def Let_def
        taskstate_simps taskready_simps)
  have "lists_ok (heap (taskready t s)) (L(RunQ := taskrunqueue (taskready t s)))
      (W(RunQ := W RunQ @ [t]))"
    by (rule base_ready [OF baseD(2) [OF b] baseD(3) [OF b] new])
  then have "lists_ok (heap s') (L(RunQ := taskrunqueue s')) (W(RunQ := W RunQ @ [t]))"
    unfolding eq lists_ok_def using taskstate_list by blast
  moreover have "t \<in> set (live s)" using baseD(1) [OF b] run by (auto simp: sched_inv_defs)
  then have "set ((W(RunQ := W RunQ @ [t])) n) \<subseteq> set (live s)" for n
    using baseD(4) [OF b, of n] baseD(4) [OF b, of RunQ] by auto
  ultimately show "base s' (L(RunQ := taskrunqueue s')) (W(RunQ := W RunQ @ [t]))"
    using y(2,5) by (simp add: base_def flip: s'_def)
qed

lemma base_create:
  assumes b: "base s L W" and c: "taskcreate fn arg (Some t) ok s = Return (n, s')"
    and fresh: "t \<notin> set (live s)"
  shows "base s' (L(RunQ := taskrunqueue s')) (W(RunQ := W RunQ @ [t]))"
    and "taskrunning s' = taskrunning s" and "live s' = live s @ [t]"
proof -
  note ci = taskcreate_inv [OF baseD(1) [OF b] c fresh]
  show "taskrunning s' = taskrunning s" "live s' = live s @ [t]" using ci by simp_all
  have new: "t \<notin> set (W m)" for m using baseD(4) [OF b, of m] fresh by blast
  from taskcreate_eq [OF baseD(1) [OF b] c] obtain s1 k where s1: "s' = taskready t s1"
      "heap s1 = (heap s)(t := k)" "taskrunqueue s1 = taskrunqueue s" by metis
  have "is_tasklist (heap s1) (L m) (W m)" for m
  proof (rule is_tasklist_cong)
    show "same_links (heap s) (heap s1) (set (W m))" using new by (auto simp: same_links_def s1)
    show "is_tasklist (heap s) (L m) (W m)" using baseD(2) [OF b] by (simp add: lists_ok_def)
  qed
  then have "lists_ok (heap s1) L W" using baseD(2) [OF b] by (simp add: lists_ok_def)
  from base_ready [OF this _ new] baseD(3) [OF b] s1
  have "lists_ok (heap s') (L(RunQ := taskrunqueue s')) (W(RunQ := W RunQ @ [t]))" by simp
  moreover have "set ((W(RunQ := W RunQ @ [t])) m) \<subseteq> set (live s')" for m
    using baseD(4) [OF b, of m] baseD(4) [OF b, of RunQ] ci(2) by auto
  ultimately show "base s' (L(RunQ := taskrunqueue s')) (W(RunQ := W RunQ @ [t]))"
    using ci(1) by (simp add: base_def)
qed

lemma base_exit:
  assumes b: "base s L W" and run: "taskrunning s = Some t" and new: "\<And>m. t \<notin> set (W m)"
  shows "base (taskexit v s) L W" and "taskrunning (taskexit v s) = None"
    and "set (live (taskexit v s)) = set (live s) - {t}"
proof -
  note x = taskexit_inv [OF baseD(1) [OF b] run, of v]
  show "taskrunning (taskexit v s) = None" "set (live (taskexit v s)) = set (live s) - {t}"
    using x by simp_all
  from taskexit_eq [OF baseD(1) [OF b] run, of v] obtain i where
    q: "taskrunqueue (taskexit v s) = taskrunqueue s"
    and h: "heap (taskexit v s) = (let h = (heap s)(t := (heap s t)\<lparr>exiting := True\<rparr>)
            in h(last (live s) := (h (last (live s)))\<lparr>alltaskslot := i\<rparr>))" by metis
  have "lists_ok ((heap s)(t := (heap s t)\<lparr>exiting := True\<rparr>)) L W"
    by (rule lists_upd [OF baseD(2) [OF b]]) simp_all
  then have "lists_ok (heap (taskexit v s)) L W"
    unfolding h Let_def by (rule lists_upd) simp_all
  moreover have "set (W n) \<subseteq> set (live (taskexit v s))" for n
    using baseD(4) [OF b, of n] x(2) new [of n] by auto
  ultimately show "base (taskexit v s) L W" using b x(1) by (simp add: base_def q)
qed

section \<open>Programs over locks\<close>

text \<open>
  The running task, in its own code, uses the locks with the usual discipline: it unlocks only what
  it holds, sleeps on a rendezvous point only while it holds its lock, and exits without locks.
  A task resumed inside a call executes the code after the switch.
\<close>

inductive lock_step :: "locksys \<Rightarrow> locksys \<Rightarrow> bool" where
  ls_qlock: "taskrunning (klib s) = Some t \<Longrightarrow> pcs s t = PcRun \<Longrightarrow>
     qlock blk (qls s l) (klib s) = (r, q', k') \<Longrightarrow>
     lock_step s (s\<lparr>klib := k', qls := (qls s)(l := q'),
       pcs := (if r = Blocked then (pcs s)(t := PcQlock l) else pcs s)\<rparr>)"
| ls_qresume: "taskrunning (klib s) = Some t \<Longrightarrow> pcs s t = PcQlock l \<Longrightarrow>
     qlock_resume (qls s l) (klib s) = Return x \<Longrightarrow> lock_step s (s\<lparr>pcs := (pcs s)(t := PcRun)\<rparr>)"
| ls_qunlock: "taskrunning (klib s) = Some t \<Longrightarrow> pcs s t = PcRun \<Longrightarrow> qowner (qls s l) = Some t \<Longrightarrow>
     qunlock (qls s l) (klib s) = Return (q', k') \<Longrightarrow>
     lock_step s (s\<lparr>klib := k', qls := (qls s)(l := q')\<rparr>)"
| ls_rlock: "taskrunning (klib s) = Some t \<Longrightarrow> pcs s t = PcRun \<Longrightarrow>
     rlock blk (rws s l) (klib s) = (r, w', k') \<Longrightarrow>
     lock_step s (s\<lparr>klib := k', rws := (rws s)(l := w'),
       pcs := (if r = Blocked then (pcs s)(t := PcRlock l) else pcs s),
       rheld := (if r = Got True then (rheld s)(l := add_mset t (rheld s l)) else rheld s)\<rparr>)"
| ls_rwresume: "taskrunning (klib s) = Some t \<Longrightarrow> pcs s t = PcRlock l \<or> pcs s t = PcWlock l \<Longrightarrow>
     lock_step s (s\<lparr>pcs := (pcs s)(t := PcRun)\<rparr>)"
| ls_wlock: "taskrunning (klib s) = Some t \<Longrightarrow> pcs s t = PcRun \<Longrightarrow>
     wlock blk (rws s l) (klib s) = (r, w', k') \<Longrightarrow>
     lock_step s (s\<lparr>klib := k', rws := (rws s)(l := w'),
       pcs := (if r = Blocked then (pcs s)(t := PcWlock l) else pcs s)\<rparr>)"
| ls_runlock: "taskrunning (klib s) = Some t \<Longrightarrow> pcs s t = PcRun \<Longrightarrow> t \<in># rheld s l \<Longrightarrow>
     runlock (rws s l) (klib s) = (w', k') \<Longrightarrow>
     lock_step s (s\<lparr>klib := k', rws := (rws s)(l := w'), rheld := (rheld s)(l := rheld s l - {#t#})\<rparr>)"
| ls_wunlock: "taskrunning (klib s) = Some t \<Longrightarrow> pcs s t = PcRun \<Longrightarrow> writer (rws s l) = Some t \<Longrightarrow>
     is_tasklist (heap (klib s)) (rwaiting (rws s l)) xs \<Longrightarrow>
     wunlock (rws s l) (klib s) = Some (Return (w', k')) \<Longrightarrow>
     lock_step s (s\<lparr>klib := k', rws := (rws s)(l := w'), rheld := (rheld s)(l := mset xs)\<rparr>)"
| ls_sleep: "taskrunning (klib s) = Some t \<Longrightarrow> pcs s t = PcRun \<Longrightarrow>
     rlk (rzs s r) = None \<or> rlk (rzs s r) = Some l \<and> qowner (qls s l) = Some t \<Longrightarrow>
     tasksleep (rzs s r) (qls s l) (klib s) = Return (r', q', k') \<Longrightarrow>
     lock_step s (s\<lparr>klib := k', qls := (qls s)(l := q'), rzs := (rzs s)(r := r'),
       pcs := (pcs s)(t := PcSleep r)\<rparr>)"
| ls_sresume0: "taskrunning (klib s) = Some t \<Longrightarrow> pcs s t = PcSleep r \<Longrightarrow> rlk (rzs s r) = None \<Longrightarrow>
     lock_step s (s\<lparr>pcs := (pcs s)(t := PcRun)\<rparr>)"
| ls_sresume: "taskrunning (klib s) = Some t \<Longrightarrow> pcs s t = PcSleep r \<Longrightarrow> rlk (rzs s r) = Some l \<Longrightarrow>
     qlock True (qls s l) (klib s) = (x, q', k') \<Longrightarrow>
     lock_step s (s\<lparr>klib := k', qls := (qls s)(l := q'),
       pcs := (pcs s)(t := (if x = Blocked then PcQlock l else PcRun))\<rparr>)"
| ls_wakeup: "taskrunning (klib s) = Some t \<Longrightarrow> pcs s t = PcRun \<Longrightarrow>
     taskwakeup_loop all 0 (rzs s r) (klib s) = Some (n, r', k') \<Longrightarrow>
     lock_step s (s\<lparr>klib := k', rzs := (rzs s)(r := r')\<rparr>)"
| ls_pick: "taskrunning (klib s) = None \<Longrightarrow> sched_pick (klib s) = Return k' \<Longrightarrow>
     lock_step s (s\<lparr>klib := k'\<rparr>)"
| ls_yield: "taskrunning (klib s) = Some t \<Longrightarrow> pcs s t = PcRun \<Longrightarrow>
     lock_step s (s\<lparr>klib := snd (taskyield (klib s))\<rparr>)"
| ls_create: "taskrunning (klib s) = Some r \<Longrightarrow> pcs s r = PcRun \<Longrightarrow> t \<notin> set (live (klib s)) \<Longrightarrow>
     taskcreate fn arg (Some t) ok (klib s) = Return (n, k') \<Longrightarrow>
     lock_step s (s\<lparr>klib := k', pcs := (pcs s)(t := PcRun)\<rparr>)"
| ls_exit: "taskrunning (klib s) = Some t \<Longrightarrow> pcs s t = PcRun \<Longrightarrow>
     \<forall>l. qowner (qls s l) \<noteq> Some t \<and> writer (rws s l) \<noteq> Some t \<and> t \<notin># rheld s l \<Longrightarrow>
     lock_step s (s\<lparr>klib := taskexit v (klib s)\<rparr>)"

definition lock_start :: "(nat \<Rightarrow> nat option) \<Rightarrow> libtask \<Rightarrow> locksys" where
  "lock_start rl k =
     \<lparr>klib = k, qls = (\<lambda>_. \<lparr>qowner = None, qwaiting = empty_tasklist\<rparr>),
      rws = (\<lambda>_. \<lparr>readers = 0, writer = None, rwaiting = empty_tasklist, wwaiting = empty_tasklist\<rparr>),
      rzs = (\<lambda>r. \<lparr>rlk = rl r, zwaiting = empty_tasklist\<rparr>), pcs = (\<lambda>_. PcRun), rheld = (\<lambda>_. {#})\<rparr>"

inductive lock_reachable :: "locksys \<Rightarrow> bool" where
  lr_start: "main_start fn (Some t) ok = Return k \<Longrightarrow> lock_reachable (lock_start rl k)"
| lr_step: "lock_reachable s \<Longrightarrow> lock_step s s' \<Longrightarrow> lock_reachable s'"

lemma waits_klib: "waits (s\<lparr>klib := k\<rparr>) = (waits s)(RunQ := taskrunqueue k)"
proof
  fix n show "waits (s\<lparr>klib := k\<rparr>) n = ((waits s)(RunQ := taskrunqueue k)) n"
    by (cases n) auto
qed

lemma lock_inv_klib:
  assumes inv: "lock_inv s W" and b: "base k ((waits s)(RunQ := taskrunqueue k)) W'"
    and W': "\<And>n. n \<noteq> RunQ \<Longrightarrow> W' n = W n"
    and tk: "tasks_ok (pcs s) (set (live k)) (taskrunning k) W' (granted s)"
  shows "lock_inv (s\<lparr>klib := k\<rparr>) W'"
  using inv b tk W' by (simp add: lock_inv_def waits_klib qlocks_ok_def rwlock_ok_def)

lemma tasks_runq:
  assumes "tasks_ok P lv run W G"
  shows "tasks_ok P lv run' (W(RunQ := q)) G \<longleftrightarrow>
    (\<forall>t \<in> lv. run' = Some t \<or> t \<in> set q \<or> (\<exists>n. n \<noteq> RunQ \<and> t \<in> set (W n))) \<and>
    (\<forall>t. run' = Some t \<longrightarrow> t \<notin> set q \<and> (\<forall>n. n \<noteq> RunQ \<longrightarrow> t \<notin> set (W n)))"
  (is "?l \<longleftrightarrow> ?a \<and> ?b")
proof -
  have "\<forall>n t. n \<noteq> RunQ \<longrightarrow> t \<in> set ((W(RunQ := q)) n) \<longrightarrow> home (P t) = Some n"
    using assms by (simp add: tasks_ok_def)
  moreover have "\<forall>t \<in> lv. G t (P t) \<or> (\<exists>n. home (P t) = Some n \<and> t \<in> set ((W(RunQ := q)) n))"
    using assms unfolding tasks_ok_def by (metis fun_upd_apply home_RunQ)
  moreover have "(\<exists>n. t \<in> set ((W(RunQ := q)) n)) \<longleftrightarrow> t \<in> set q \<or> (\<exists>n. n \<noteq> RunQ \<and> t \<in> set (W n))" for t
    by auto
  moreover have "(\<forall>n. t \<notin> set ((W(RunQ := q)) n)) \<longleftrightarrow>
      t \<notin> set q \<and> (\<forall>n. n \<noteq> RunQ \<longrightarrow> t \<notin> set (W n))" for t by auto
  ultimately show ?thesis unfolding tasks_ok_def by auto
qed

lemma lock_step_inv:
  assumes step: "lock_step s s'" and inv: "lock_inv s W"
  shows "\<exists>W'. lock_inv s' W'"
proof -
  have b: "base (klib s) (waits s) W"
    and tk: "tasks_ok (pcs s) (set (live (klib s))) (taskrunning (klib s)) W (granted s)"
    using inv by (simp_all add: lock_inv_def)
  have wr: "(waits s)(RunQ := taskrunqueue k) = (waits s)(RunQ := taskrunqueue k)" for k by simp
  from step show ?thesis
  proof cases
    case (ls_qlock t blk l r q' k')
    with qlock_call [OF inv ls_qlock(2), of blk l] show ?thesis by auto
  next
    case (ls_qresume t l x)
    with return_inv [OF inv ls_qresume(2)] show ?thesis by blast
  next
    case (ls_qunlock t l q' k')
    have "t' \<notin> set (W (QW l))" if "taskrunning (klib s) = Some t'" for t'
      using tk that by (simp add: tasks_ok_def)
    with qunlock_inv [OF inv [unfolded lock_inv_locks_ok] ls_qunlock(4)] ls_qunlock
    show ?thesis by (fastforce simp: lock_inv_locks_ok)
  next
    case (ls_rlock t blk l r w' k')
    with rlock_call [OF inv ls_rlock(2), of blk l] show ?thesis by auto
  next
    case (ls_rwresume t l)
    with return_inv [OF inv ls_rwresume(2)] show ?thesis by blast
  next
    case (ls_wlock t blk l r w' k')
    with wlock_call [OF inv ls_wlock(2), of blk l] show ?thesis by auto
  next
    case (ls_runlock t l w' k')
    with runlock_inv [OF inv ls_runlock(3,4)] show ?thesis by auto
  next
    case (ls_wunlock t l xs w' k')
    have "is_tasklist (heap (klib s)) (rwaiting (rws s l)) (W (RW l))"
      using baseD(2) [OF b] unfolding lists_ok_def by (metis waits.simps(3))
    with ls_wunlock(5) have "xs = W (RW l)" by (rule is_tasklist_unique)
    with wunlock_inv [OF inv ls_wunlock(3,4)] ls_wunlock show ?thesis by auto
  next
    case (ls_sleep t r l r' q' k')
    then have "rlk (rzs s r) \<noteq> None \<Longrightarrow> qowner (qls s l) = Some t" by auto
    with tasksleep_inv [OF inv ls_sleep(2), of r l] ls_sleep show ?thesis by auto
  next
    case (ls_sresume0 t r)
    with return_inv [OF inv ls_sresume0(2)] show ?thesis by blast
  next
    case (ls_sresume t r l x q' k')
    from qlock_call [OF inv ls_sresume(2), of True l] ls_sresume(5) obtain W' where
      W': "lock_inv (s\<lparr>klib := k', qls := (qls s)(l := q'),
        pcs := (if x = Blocked then (pcs s)(t := PcQlock l) else pcs s)\<rparr>) W'"
      and xr: "x = Blocked \<longleftrightarrow> qowner (qls s l) \<noteq> None" by auto
    show ?thesis
    proof (cases "x = Blocked")
      case True
      with W' ls_sresume(1) show ?thesis by auto
    next
      case False
      then have "taskrunning k' = Some t"
        using ls_sresume(2,5) xr by (auto simp: qlock_def)
      with return_inv [OF W', of t] False ls_sresume(1) show ?thesis by auto
    qed
  next
    case (ls_wakeup t all r n r' k')
    with taskwakeup_loop_inv [OF inv, of all 0 r] show ?thesis by auto
  next
    case (ls_pick k')
    from base_pick [OF b ls_pick(2,3)] obtain t ts where
      p: "W RunQ = t # ts" "base k' ((waits s)(RunQ := taskrunqueue k')) (W(RunQ := ts))"
        "taskrunning k' = Some t" "live k' = live (klib s)" by metis
    have "tasks_ok (pcs s) (set (live k')) (taskrunning k') (W(RunQ := ts)) (granted s)"
      unfolding tasks_runq [OF tk [folded p(4)]]
    proof (intro conjI ballI allI impI)
      fix u assume "u \<in> set (live k')"
      then obtain n where "u \<in> set (W n)" using tk ls_pick(2) p(4) unfolding tasks_ok_def by force
      then show "taskrunning k' = Some u \<or> u \<in> set ts \<or> (\<exists>n. n \<noteq> RunQ \<and> u \<in> set (W n))"
        using p(1,3) by (cases "n = RunQ") auto
    next
      fix u assume "taskrunning k' = Some u"
      then have "u = t" using p(3) by simp
      then show "u \<notin> set ts" using baseD(6) [OF b, of RunQ] p(1) by simp
    next
      fix u n assume "taskrunning k' = Some u" and "n \<noteq> RunQ"
      then show "u \<notin> set (W n)"
        using baseD(7) [OF b, where t = t and n = RunQ and m = n] p(1,3) by simp
    qed
    with lock_inv_klib [OF inv p(2)] ls_pick(1) show ?thesis by auto
  next
    case (ls_yield t)
    define k' where "k' = snd (taskyield (klib s))"
    have new: "t \<notin> set (W m)" for m using tk ls_yield(2) by (simp add: tasks_ok_def)
    note y = base_yield [OF b ls_yield(2) new, folded k'_def]
    have "tasks_ok (pcs s) (set (live k')) (taskrunning k') (W(RunQ := W RunQ @ [t])) (granted s)"
      unfolding tasks_runq [OF tk [folded y(3)]] y(2)
      using tk ls_yield(2) y(3) unfolding tasks_ok_def by auto metis
    with lock_inv_klib [OF inv y(1)] ls_yield(1) show ?thesis by (auto simp: k'_def)
  next
    case (ls_create r t fn arg ok n k')
    note c = base_create [OF b ls_create(5,4)]
    have notin: "t \<notin> set (W m)" for m using baseD(4) [OF b, of m] ls_create(4) by blast
    define s1 where "s1 = s\<lparr>pcs := (pcs s)(t := PcRun)\<rparr>"
    have rt: "r \<noteq> t" using baseD(1) [OF b] ls_create(2,4) by (auto simp: sched_inv_defs)
    have tk1: "tasks_ok (pcs s1) (set (live (klib s))) (taskrunning (klib s)) W (granted s1)"
      using tk notin ls_create(4) unfolding tasks_ok_def by (auto simp: s1_def)
    have inv1: "lock_inv s1 W" using inv tk1
      by (simp add: lock_inv_def s1_def qlocks_ok_def rwlock_ok_def)
    have "tasks_ok (pcs s1) (set (live k')) (taskrunning k') (W(RunQ := W RunQ @ [t])) (granted s1)"
    proof -
      have "tasks_ok (pcs s1) (set (live k')) (taskrunning k') (W(RunQ := W RunQ @ [t])) (granted s1) \<longleftrightarrow>
          tasks_ok (pcs s1) (set (live (klib s))) (taskrunning k') (W(RunQ := W RunQ @ [t])) (granted s1)"
        unfolding tasks_ok_def c(3) by (auto simp: s1_def)
      also have "\<dots>" unfolding tasks_runq [OF tk1] c(2)
        using tk1 ls_create(2) rt unfolding tasks_ok_def by auto metis
      finally show ?thesis .
    qed
    moreover have "base k' ((waits s1)(RunQ := taskrunqueue k')) (W(RunQ := W RunQ @ [t]))"
      using c(1) by (simp add: s1_def)
    ultimately have "lock_inv (s1\<lparr>klib := k'\<rparr>) (W(RunQ := W RunQ @ [t]))"
      using lock_inv_klib [OF inv1] by simp
    moreover have "s1\<lparr>klib := k'\<rparr> = s'" using ls_create(1) by (simp add: s1_def)
    ultimately show ?thesis by auto
  next
    case (ls_exit t v)
    define k' where "k' = taskexit v (klib s)"
    have new: "t \<notin> set (W m)" for m using tk ls_exit(2) by (simp add: tasks_ok_def)
    note x = base_exit [OF b ls_exit(2) new, of v, folded k'_def]
    have "(waits s)(RunQ := taskrunqueue k') = waits s"
      using baseD(3) [OF x(1)] by auto
    with x(1) have "base k' ((waits s)(RunQ := taskrunqueue k')) W" by simp
    moreover have "tasks_ok (pcs s) (set (live k')) (taskrunning k') W (granted s)"
      using tk ls_exit(2) unfolding tasks_ok_def x(2,3) by auto
    ultimately have "lock_inv (s\<lparr>klib := k'\<rparr>) W" by (intro lock_inv_klib [OF inv]) auto
    then show ?thesis using ls_exit(1) by (auto simp: k'_def)
  qed
qed

lemma lock_reachable_inv: "lock_reachable s \<Longrightarrow> \<exists>W. lock_inv s W"
proof (induction rule: lock_reachable.induct)
  case (lr_start fn t ok k rl)
  then obtain n where c: "taskcreate fn 0 (Some t) ok init_libtask = Return (n, k)"
    by (auto simp: main_start_def split: outcome.splits prod.splits)
  have live0: "live init_libtask = []" by (simp add: live_def init_libtask_def)
  define L0 where "L0 = (\<lambda>n :: wname. empty_tasklist)"
  have b0: "base init_libtask L0 (\<lambda>_. [])"
    using init_libtask_inv by (simp add: base_def lists_ok_def L0_def) (simp add: init_libtask_def)
  have "t \<notin> set (live init_libtask)" by (simp add: live0)
  note bc = base_create [OF b0 c this]
  have "waits (lock_start rl k) = L0(RunQ := taskrunqueue k)"
  proof
    fix n show "waits (lock_start rl k) n = (L0(RunQ := taskrunqueue k)) n"
      by (cases n) (simp_all add: lock_start_def L0_def)
  qed
  with bc(1) have "base k (waits (lock_start rl k)) ((\<lambda>_. [])(RunQ := [t]))" by simp
  moreover have "taskrunning k = None" using bc(2) by (simp add: init_libtask_def)
  ultimately have "lock_inv (lock_start rl k) ((\<lambda>_. [])(RunQ := [t]))"
    using bc(3) live0
    by (auto simp: lock_inv_def lock_start_def qlocks_ok_def rwlock_ok_def tasks_ok_def)
  then show ?case by blast
next
  case (lr_step s s')
  then show ?case using lock_step_inv by blast
qed

section \<open>Runs\<close>

text \<open>The steps as functions, to build concrete runs.\<close>

definition run_pick :: "locksys \<Rightarrow> locksys" where
  "run_pick s = (case sched_pick (klib s) of Return k \<Rightarrow> s\<lparr>klib := k\<rparr> | _ \<Rightarrow> s)"

definition run_yield :: "locksys \<Rightarrow> locksys" where
  "run_yield s = s\<lparr>klib := snd (taskyield (klib s))\<rparr>"

definition run_create :: "tptr \<Rightarrow> locksys \<Rightarrow> locksys" where
  "run_create t s = (case taskcreate 0 0 (Some t) True (klib s) of
     Return (n, k) \<Rightarrow> s\<lparr>klib := k, pcs := (pcs s)(t := PcRun)\<rparr> | _ \<Rightarrow> s)"

definition run_qlock :: "tptr \<Rightarrow> nat \<Rightarrow> locksys \<Rightarrow> locksys" where
  "run_qlock t l s = (case qlock True (qls s l) (klib s) of (r, q', k') \<Rightarrow>
     s\<lparr>klib := k', qls := (qls s)(l := q'),
       pcs := (if r = Blocked then (pcs s)(t := PcQlock l) else pcs s)\<rparr>)"

definition run_qunlock :: "nat \<Rightarrow> locksys \<Rightarrow> locksys" where
  "run_qunlock l s = (case qunlock (qls s l) (klib s) of
     Return (q', k') \<Rightarrow> s\<lparr>klib := k', qls := (qls s)(l := q')\<rparr> | _ \<Rightarrow> s)"

definition run_rlock :: "tptr \<Rightarrow> nat \<Rightarrow> locksys \<Rightarrow> locksys" where
  "run_rlock t l s = (case rlock True (rws s l) (klib s) of (r, w', k') \<Rightarrow>
     s\<lparr>klib := k', rws := (rws s)(l := w'),
       pcs := (if r = Blocked then (pcs s)(t := PcRlock l) else pcs s),
       rheld := (if r = Got True then (rheld s)(l := add_mset t (rheld s l)) else rheld s)\<rparr>)"

definition run_wlock :: "tptr \<Rightarrow> nat \<Rightarrow> locksys \<Rightarrow> locksys" where
  "run_wlock t l s = (case wlock True (rws s l) (klib s) of (r, w', k') \<Rightarrow>
     s\<lparr>klib := k', rws := (rws s)(l := w'),
       pcs := (if r = Blocked then (pcs s)(t := PcWlock l) else pcs s)\<rparr>)"

definition run_sleep :: "tptr \<Rightarrow> nat \<Rightarrow> nat \<Rightarrow> locksys \<Rightarrow> locksys" where
  "run_sleep t r l s = (case tasksleep (rzs s r) (qls s l) (klib s) of
     Return (r', q', k') \<Rightarrow> s\<lparr>klib := k', qls := (qls s)(l := q'), rzs := (rzs s)(r := r'),
       pcs := (pcs s)(t := PcSleep r)\<rparr> | _ \<Rightarrow> s)"

lemma run_reach:
  assumes "lock_reachable s"
  shows "taskrunning (klib s) = None \<Longrightarrow> lock_reachable (run_pick s)"
    and "taskrunning (klib s) = Some t \<Longrightarrow> pcs s t = PcRun \<Longrightarrow> lock_reachable (run_yield s)"
    and "taskrunning (klib s) = Some t \<Longrightarrow> pcs s t = PcRun \<Longrightarrow> u \<notin> set (live (klib s)) \<Longrightarrow>
      lock_reachable (run_create u s)"
    and "taskrunning (klib s) = Some t \<Longrightarrow> pcs s t = PcRun \<Longrightarrow> lock_reachable (run_qlock t l s)"
    and "taskrunning (klib s) = Some t \<Longrightarrow> pcs s t = PcRun \<Longrightarrow> qowner (qls s l) = Some t \<Longrightarrow>
      lock_reachable (run_qunlock l s)"
    and "taskrunning (klib s) = Some t \<Longrightarrow> pcs s t = PcRun \<Longrightarrow> lock_reachable (run_rlock t l s)"
    and "taskrunning (klib s) = Some t \<Longrightarrow> pcs s t = PcRun \<Longrightarrow> lock_reachable (run_wlock t l s)"
    and "taskrunning (klib s) = Some t \<Longrightarrow> pcs s t = PcRun \<Longrightarrow> rlk (rzs s r) = Some l \<Longrightarrow>
      qowner (qls s l) = Some t \<Longrightarrow> lock_reachable (run_sleep t r l s)"
proof -
  show "taskrunning (klib s) = None \<Longrightarrow> lock_reachable (run_pick s)"
    using assms by (auto simp: run_pick_def split: outcome.splits intro: lr_step ls_pick)
  show "taskrunning (klib s) = Some t \<Longrightarrow> pcs s t = PcRun \<Longrightarrow> lock_reachable (run_yield s)"
    using assms by (auto simp: run_yield_def intro: lr_step ls_yield)
  show "taskrunning (klib s) = Some t \<Longrightarrow> pcs s t = PcRun \<Longrightarrow> u \<notin> set (live (klib s)) \<Longrightarrow>
      lock_reachable (run_create u s)"
    using assms by (auto simp: run_create_def split: outcome.splits prod.splits
        intro: lr_step ls_create)
  show "taskrunning (klib s) = Some t \<Longrightarrow> pcs s t = PcRun \<Longrightarrow> lock_reachable (run_qlock t l s)"
    using assms ls_qlock [of s t True l]
    by (auto simp: run_qlock_def simp del: fun_upd_apply split: prod.splits intro: lr_step)
  show "taskrunning (klib s) = Some t \<Longrightarrow> pcs s t = PcRun \<Longrightarrow> qowner (qls s l) = Some t \<Longrightarrow>
      lock_reachable (run_qunlock l s)"
    using assms by (auto simp: run_qunlock_def split: outcome.splits prod.splits
        intro: lr_step ls_qunlock)
  show "taskrunning (klib s) = Some t \<Longrightarrow> pcs s t = PcRun \<Longrightarrow> lock_reachable (run_rlock t l s)"
    using assms ls_rlock [of s t True l]
    by (auto simp: run_rlock_def simp del: fun_upd_apply split: prod.splits intro: lr_step)
  show "taskrunning (klib s) = Some t \<Longrightarrow> pcs s t = PcRun \<Longrightarrow> lock_reachable (run_wlock t l s)"
    using assms ls_wlock [of s t True l]
    by (auto simp: run_wlock_def simp del: fun_upd_apply split: prod.splits intro: lr_step)
  show "taskrunning (klib s) = Some t \<Longrightarrow> pcs s t = PcRun \<Longrightarrow> rlk (rzs s r) = Some l \<Longrightarrow>
      qowner (qls s l) = Some t \<Longrightarrow> lock_reachable (run_sleep t r l s)"
    using assms ls_sleep [of s t r l] by (auto simp: run_sleep_def split: outcome.splits prod.splits
        intro: lr_step)
qed

definition first_state :: locksys where
  "first_state = (case main_start 7 (Some 10) True of
     Return k \<Rightarrow> run_create 20 (run_pick (lock_start (\<lambda>_. Some 0) k))
   | _ \<Rightarrow> lock_start (\<lambda>_. Some 0) init_libtask)"

lemma first_reach: "lock_reachable first_state"
proof -
  obtain k where k: "main_start 7 (Some 10) True = Return k"
    by (simp add: main_start_def taskcreate_def taskalloc_def init_libtask_def Let_def)
  define s1 where "s1 = (case main_start 7 (Some 10) True of
     Return k \<Rightarrow> run_pick (lock_start (\<lambda>_. Some 0) k) | _ \<Rightarrow> lock_start (\<lambda>_. Some 0) init_libtask)"
  have r0: "lock_reachable (lock_start (\<lambda>_. Some 0) k)" by (rule lr_start [OF k])
  have "taskrunning (case main_start 7 (Some 10) True of Return k \<Rightarrow> k | _ \<Rightarrow> init_libtask) = None"
    by code_simp
  then have "taskrunning (klib (lock_start (\<lambda>_. Some 0) k)) = None" by (simp add: k lock_start_def)
  from run_reach(1) [OF r0 this] have r1: "lock_reachable s1" by (simp add: s1_def k)
  have "taskrunning (klib s1) = Some 10 \<and> pcs s1 10 = PcRun \<and> 20 \<notin> set (live (klib s1))"
    unfolding s1_def by code_simp
  with run_reach(3) [OF r1] have "lock_reachable (run_create 20 s1)" by blast
  then show ?thesis by (simp add: first_state_def s1_def k)
qed

text \<open>
  Task 10 takes lock 0, task 20 waits for it; then 10 releases it and 20 runs again.  The same with
  a writer and a reader of reader-writer lock 0.
\<close>

definition contended :: locksys where
  "contended = run_pick (run_qlock 20 0 (run_pick (run_yield (run_qlock 10 0 first_state))))"

definition handed_over :: locksys where
  "handed_over = run_pick (run_yield (run_qunlock 0 contended))"

definition write_locked :: locksys where
  "write_locked = run_pick (run_rlock 20 0 (run_pick (run_yield (run_wlock 10 0 first_state))))"

definition one_sleeps :: locksys where
  "one_sleeps = run_pick (run_sleep 10 3 0 (run_qlock 10 0 first_state))"

lemma first_facts: "taskrunning (klib first_state) = Some 10" "pcs first_state 10 = PcRun"
proof -
  have "taskrunning (klib first_state) = Some 10 \<and> pcs first_state 10 = PcRun" by code_simp
  then show "taskrunning (klib first_state) = Some 10" "pcs first_state 10 = PcRun" by simp_all
qed

lemma contended_reach: "lock_reachable contended" "taskrunning (klib contended) = Some 10"
  "pcs contended 10 = PcRun" "qowner (qls contended 0) = Some 10"
proof -
  define s1 where "s1 = run_qlock 10 0 first_state"
  have r1: "lock_reachable s1"
    unfolding s1_def by (rule run_reach(4) [OF first_reach first_facts])
  have "taskrunning (klib s1) = Some 10 \<and> pcs s1 10 = PcRun" unfolding s1_def by code_simp
  with run_reach(2) [OF r1] have r2: "lock_reachable (run_yield s1)" by blast
  have "taskrunning (klib (run_yield s1)) = None" unfolding s1_def by code_simp
  from run_reach(1) [OF r2 this] have r3: "lock_reachable (run_pick (run_yield s1))" .
  have "taskrunning (klib (run_pick (run_yield s1))) = Some 20 \<and>
      pcs (run_pick (run_yield s1)) 20 = PcRun" unfolding s1_def by code_simp
  with run_reach(4) [OF r3] have r4: "lock_reachable (run_qlock 20 0 (run_pick (run_yield s1)))" by blast
  have "taskrunning (klib (run_qlock 20 0 (run_pick (run_yield s1)))) = None"
    unfolding s1_def by code_simp
  from run_reach(1) [OF r4 this] show "lock_reachable contended"
    by (simp add: contended_def s1_def)
  have "taskrunning (klib contended) = Some 10 \<and> pcs contended 10 = PcRun \<and>
      qowner (qls contended 0) = Some 10" by code_simp
  then show "taskrunning (klib contended) = Some 10" "pcs contended 10 = PcRun"
    "qowner (qls contended 0) = Some 10" by simp_all
qed

lemma handed_over_reach: "lock_reachable handed_over" "taskrunning (klib handed_over) = Some 20"
  "pcs handed_over 20 = PcQlock 0"
proof -
  note c = contended_reach
  have r1: "lock_reachable (run_qunlock 0 contended)" by (rule run_reach(5) [OF c])
  have "taskrunning (klib (run_qunlock 0 contended)) = Some 10 \<and>
      pcs (run_qunlock 0 contended) 10 = PcRun" by code_simp
  with run_reach(2) [OF r1] have r2: "lock_reachable (run_yield (run_qunlock 0 contended))" by blast
  have "taskrunning (klib (run_yield (run_qunlock 0 contended))) = None" by code_simp
  from run_reach(1) [OF r2 this] show "lock_reachable handed_over" by (simp add: handed_over_def)
  have "taskrunning (klib handed_over) = Some 20 \<and> pcs handed_over 20 = PcQlock 0" by code_simp
  then show "taskrunning (klib handed_over) = Some 20" "pcs handed_over 20 = PcQlock 0" by simp_all
qed

lemma write_locked_reach: "lock_reachable write_locked" "taskrunning (klib write_locked) = Some 10"
  "pcs write_locked 10 = PcRun" "writer (rws write_locked 0) = Some 10"
proof -
  define s1 where "s1 = run_wlock 10 0 first_state"
  have r1: "lock_reachable s1"
    unfolding s1_def by (rule run_reach(7) [OF first_reach first_facts])
  have "taskrunning (klib s1) = Some 10 \<and> pcs s1 10 = PcRun" unfolding s1_def by code_simp
  with run_reach(2) [OF r1] have r2: "lock_reachable (run_yield s1)" by blast
  have "taskrunning (klib (run_yield s1)) = None" unfolding s1_def by code_simp
  from run_reach(1) [OF r2 this] have r3: "lock_reachable (run_pick (run_yield s1))" .
  have "taskrunning (klib (run_pick (run_yield s1))) = Some 20 \<and>
      pcs (run_pick (run_yield s1)) 20 = PcRun" unfolding s1_def by code_simp
  with run_reach(6) [OF r3] have r4: "lock_reachable (run_rlock 20 0 (run_pick (run_yield s1)))" by blast
  have "taskrunning (klib (run_rlock 20 0 (run_pick (run_yield s1)))) = None"
    unfolding s1_def by code_simp
  from run_reach(1) [OF r4 this] show "lock_reachable write_locked"
    by (simp add: write_locked_def s1_def)
  have "taskrunning (klib write_locked) = Some 10 \<and> pcs write_locked 10 = PcRun \<and>
      writer (rws write_locked 0) = Some 10" by code_simp
  then show "taskrunning (klib write_locked) = Some 10" "pcs write_locked 10 = PcRun"
    "writer (rws write_locked 0) = Some 10" by simp_all
qed

lemma one_sleeps_reach: "lock_reachable one_sleeps" "taskrunning (klib one_sleeps) = Some 20"
  "pcs one_sleeps 20 = PcRun"
proof -
  define s1 where "s1 = run_qlock 10 0 first_state"
  have r1: "lock_reachable s1"
    unfolding s1_def by (rule run_reach(4) [OF first_reach first_facts])
  have "taskrunning (klib s1) = Some 10 \<and> pcs s1 10 = PcRun \<and> rlk (rzs s1 3) = Some 0 \<and>
      qowner (qls s1 0) = Some 10" unfolding s1_def by code_simp
  with run_reach(8) [OF r1] have r2: "lock_reachable (run_sleep 10 3 0 s1)" by blast
  have "taskrunning (klib (run_sleep 10 3 0 s1)) = None" unfolding s1_def by code_simp
  from run_reach(1) [OF r2 this] show "lock_reachable one_sleeps"
    by (simp add: one_sleeps_def s1_def)
  have "taskrunning (klib one_sleeps) = Some 20 \<and> pcs one_sleeps 20 = PcRun" by code_simp
  then show "taskrunning (klib one_sleeps) = Some 20" "pcs one_sleeps 20 = PcRun" by simp_all
qed

section \<open>Properties\<close>

text \<open>
  C8: locks exclude: whenever a task runs again after blocking in \<^verbatim>\<open>qlock\<close>, \<^verbatim>\<open>wlock\<close> or
  \<^verbatim>\<open>rlock\<close>, it holds what it waited for: it owns the queueing lock (so \<^verbatim>\<open>_qlock\<close>'s check never
  aborts), or it is the only writer and nobody reads, or it is one of the readers and nobody
  writes.
\<close>

theorem resumed_holds_lock:
  assumes "lock_reachable s" and "taskrunning (klib s) = Some t"
  shows "case pcs s t of
      PcQlock l \<Rightarrow> qlock_resume (qls s l) (klib s) = Return True
    | PcWlock l \<Rightarrow> writer (rws s l) = Some t \<and> readers (rws s l) = 0 \<and> rheld s l = {#}
    | PcRlock l \<Rightarrow> writer (rws s l) = None \<and> t \<in># rheld s l \<and>
        readers (rws s l) = int (size (rheld s l))
    | _ \<Rightarrow> True"
proof -
  obtain W where inv: "lock_inv s W" using lock_reachable_inv [OF assms(1)] by blast
  have "sched_inv (klib s) (W RunQ)" using inv by (simp add: lock_inv_def base_def)
  then have "t \<in> set (live (klib s))" using assms(2) by (auto simp: sched_inv_defs)
  then have "granted s t (pcs s t)"
    using inv assms(2) unfolding lock_inv_def tasks_ok_def by blast
  moreover have rw: "rwlock_ok s W l" for l using inv by (simp add: lock_inv_def)
  moreover have "t \<in># rheld s l \<Longrightarrow> writer (rws s l) = None" for l
    using rw [of l] by (auto simp: rwlock_ok_def)
  moreover have "readers (rws s l) = int (size (rheld s l))" for l
    using rw [of l] by (simp add: rwlock_ok_def)
  moreover have "writer (rws s l) = Some t \<Longrightarrow> rheld s l = {#}" for l
    using rw [of l] by (simp add: rwlock_ok_def)
  ultimately show ?thesis
    using assms(2) by (cases "pcs s t") (auto simp: qlock_resume_def)
qed

theorem resumed_holds_lock_witness:
  "qlock_resume (qls handed_over 0) (klib handed_over) = Return True"
  using resumed_holds_lock [OF handed_over_reach(1,2)] by (simp add: handed_over_reach)

text \<open>
  C9: no wake-up is lost: in every reachable state the waiting lists and the run queue are disjoint
  well-formed lists; every live task runs or is on one of them; tasks wait for a queueing lock only
  while it has an owner, writers only while somebody reads or writes, readers only while somebody
  writes or a writer waits; and a lock is never read and written at the same time.
\<close>

theorem no_lost_wakeup:
  assumes "lock_reachable s"
  shows "\<exists>W. lists_ok (heap (klib s)) (waits s) W \<and>
    (\<forall>t \<in> set (live (klib s)). taskrunning (klib s) = Some t \<or> (\<exists>n. t \<in> set (W n))) \<and>
    (\<forall>l. (W (QW l) = [] \<or> qowner (qls s l) \<noteq> None) \<and>
      (W (WW l) = [] \<or> writer (rws s l) \<noteq> None \<or> 0 < readers (rws s l)) \<and>
      (W (RW l) = [] \<or> writer (rws s l) \<noteq> None \<or> W (WW l) \<noteq> []) \<and>
      (writer (rws s l) = None \<or> readers (rws s l) = 0))"
proof -
  obtain W where inv: "lock_inv s W" using lock_reachable_inv [OF assms] by blast
  have "lists_ok (heap (klib s)) (waits s) W" using inv by (simp add: lock_inv_def base_def)
  moreover have "\<forall>t \<in> set (live (klib s)). taskrunning (klib s) = Some t \<or> (\<exists>n. t \<in> set (W n))"
    using inv by (simp add: lock_inv_def tasks_ok_def)
  moreover have "W (QW l) = [] \<or> qowner (qls s l) \<noteq> None" for l
    using inv by (auto simp: lock_inv_def qlocks_ok_def)
  moreover have rw: "rwlock_ok s W l" for l using inv by (simp add: lock_inv_def)
  have "(W (WW l) = [] \<or> writer (rws s l) \<noteq> None \<or> 0 < readers (rws s l)) \<and>
      (W (RW l) = [] \<or> writer (rws s l) \<noteq> None \<or> W (WW l) \<noteq> []) \<and>
      (writer (rws s l) = None \<or> readers (rws s l) = 0)" for l
    using rw [of l] by (cases "writer (rws s l)") (auto simp: rwlock_ok_def nonempty_has_size)
  ultimately show ?thesis by blast
qed

theorem no_lost_wakeup_witness:
  "\<exists>W. lists_ok (heap (klib contended)) (waits contended) W \<and> 20 \<in> set (live (klib contended)) \<and>
    (\<exists>n. 20 \<in> set (W n))"
proof -
  have "20 \<in> set (live (klib contended))" by code_simp
  with no_lost_wakeup [OF contended_reach(1)] contended_reach(2) show ?thesis by fastforce
qed

text \<open>
  \<^verbatim>\<open>qunlock\<close> by the owner hands the lock to the task that has waited longest and makes it ready,
  or frees the lock if nobody waits; the others keep their order.
\<close>

theorem qunlock_hands_over_fifo:
  assumes "lock_reachable s" and "taskrunning (klib s) = Some t" and "pcs s t = PcRun"
    and "qowner (qls s l) = Some t"
  shows "\<exists>xs q k. is_tasklist (heap (klib s)) (qwaiting (qls s l)) xs \<and>
    qunlock (qls s l) (klib s) = Return (q, k) \<and> qowner q = first_or xs None \<and>
    is_tasklist (heap k) (qwaiting q) (tl xs) \<and> (xs = [] \<or> ready (heap k (hd xs)))"
proof -
  obtain W where inv: "lock_inv s W" using lock_reachable_inv [OF assms(1)] by blast
  have b: "base (klib s) (waits s) W"
    and tk: "tasks_ok (pcs s) (set (live (klib s))) (taskrunning (klib s)) W (granted s)"
    using inv by (simp_all add: lock_inv_def)
  have "t' \<notin> set (W (QW l))" if "taskrunning (klib s) = Some t'" for t'
    using tk that by (simp add: tasks_ok_def)
  with qunlock_inv [OF inv [unfolded lock_inv_locks_ok] assms(4)] assms(3) obtain q k W' where
    u: "qunlock (qls s l) (klib s) = Return (q, k)"
      "locks_ok (s\<lparr>klib := k, qls := (qls s)(l := q)\<rparr>) W' (taskrunning (klib s))"
      "qowner q = first_or (W (QW l)) None"
    and W': "W' = (case W (QW l) of [] \<Rightarrow> W | t # ts \<Rightarrow> W(QW l := ts, RunQ := W RunQ @ [t]))"
    by auto
  have "is_tasklist (heap (klib s)) (qwaiting (qls s l)) (W (QW l))"
    using baseD(2) [OF b] unfolding lists_ok_def by (metis waits.simps(2))
  moreover have b': "base k (waits (s\<lparr>klib := k, qls := (qls s)(l := q)\<rparr>)) W'"
    using u(2) by (simp add: locks_ok_def)
  have "is_tasklist (heap k) (qwaiting q) (W' (QW l))"
    using baseD(2) [OF b'] unfolding lists_ok_def waits_qls by (auto dest: spec [of _ "QW l"])
  moreover have "W' (QW l) = tl (W (QW l))" using W' by (cases "W (QW l)") auto
  moreover have "W (QW l) = [] \<or> ready (heap k (hd (W (QW l))))"
  proof (cases "W (QW l)")
    case (Cons x xs)
    then have "x \<in> set (W' RunQ)" using W' by simp
    moreover have "x \<in> set (live k)" using baseD(4) [OF b', of RunQ] \<open>x \<in> set (W' RunQ)\<close> by blast
    ultimately show ?thesis using baseD(1) [OF b'] Cons by (auto simp: sched_inv_defs)
  qed simp
  ultimately show ?thesis using u(1,3) by metis
qed

theorem qunlock_hands_over_fifo_witness:
  "\<exists>q k. qunlock (qls contended 0) (klib contended) = Return (q, k) \<and> qowner q = Some 20"
proof -
  have l: "lhead (qwaiting (qls contended 0)) = Some 20" by code_simp
  from qunlock_hands_over_fifo [OF contended_reach] obtain xs q k where
    x: "is_tasklist (heap (klib contended)) (qwaiting (qls contended 0)) xs"
      "qunlock (qls contended 0) (klib contended) = Return (q, k)" "qowner q = first_or xs None"
    by blast
  with is_tasklist_head [OF x(1)] l show ?thesis by auto
qed

text \<open>
  \<^verbatim>\<open>wunlock\<close> by the writer terminates without aborting, in every reachable state: all waiting
  readers become readers, or, if there are none, the first waiting writer becomes the writer.
\<close>

theorem wunlock_returns:
  assumes "lock_reachable s" and "taskrunning (klib s) = Some t" and "pcs s t = PcRun"
    and "writer (rws s l) = Some t"
  shows "\<exists>rs w k. is_tasklist (heap (klib s)) (rwaiting (rws s l)) rs \<and>
    wunlock (rws s l) (klib s) = Some (Return (w, k)) \<and> readers w = int (length rs) \<and>
    (rs = [] \<or> writer w = None)"
proof -
  obtain W where inv: "lock_inv s W" using lock_reachable_inv [OF assms(1)] by blast
  have "base (klib s) (waits s) W" using inv by (simp add: lock_inv_def)
  then have "is_tasklist (heap (klib s)) (rwaiting (rws s l)) (W (RW l))"
    using baseD(2) unfolding lists_ok_def by (metis waits.simps(3))
  moreover obtain w k W' where u: "wunlock (rws s l) (klib s) = Some (Return (w, k))"
    and inv': "lock_inv (s\<lparr>klib := k, rws := (rws s)(l := w), rheld := (rheld s)(l := mset (W (RW l)))\<rparr>) W'"
    using wunlock_inv [OF inv assms(3,4)] by blast
  have "rwlock_ok (s\<lparr>klib := k, rws := (rws s)(l := w), rheld := (rheld s)(l := mset (W (RW l)))\<rparr>) W' l"
    using inv' by (simp add: lock_inv_def)
  then have "readers w = int (length (W (RW l)))" "W (RW l) = [] \<or> writer w = None"
    by (auto simp: rwlock_ok_def)
  ultimately show ?thesis using u by blast
qed

theorem wunlock_returns_witness:
  "\<exists>w k. wunlock (rws write_locked 0) (klib write_locked) = Some (Return (w, k)) \<and> 0 < readers w"
proof -
  have l: "lhead (rwaiting (rws write_locked 0)) = Some 20" by code_simp
  from wunlock_returns [OF write_locked_reach] obtain rs w k where
    x: "is_tasklist (heap (klib write_locked)) (rwaiting (rws write_locked 0)) rs"
      "wunlock (rws write_locked 0) (klib write_locked) = Some (Return (w, k))"
      "readers w = int (length rs)" by blast
  have "rs \<noteq> []" using is_tasklist_head [OF x(1)] l by auto
  with x show ?thesis by auto
qed

text \<open>
  \<^verbatim>\<open>taskwakeup\<close> and \<^verbatim>\<open>taskwakeupall\<close> terminate and return how many sleepers they woke, one
  and all of them respectively; the woken tasks are the longest sleepers and enter the run queue in
  the order in which they went to sleep.
\<close>

theorem wakeup_wakes_in_order:
  assumes "lock_reachable s"
  shows "\<exists>zs rq r' k'. is_tasklist (heap (klib s)) (zwaiting (rzs s r)) zs \<and>
    is_tasklist (heap (klib s)) (taskrunqueue (klib s)) rq \<and>
    (let n = (if all then length zs else min 1 (length zs)) in
      (if all then taskwakeupall (rzs s r) (klib s) else taskwakeup (rzs s r) (klib s)) =
        Some (n, r', k') \<and>
      is_tasklist (heap k') (zwaiting r') (drop n zs) \<and>
      is_tasklist (heap k') (taskrunqueue k') (rq @ take n zs))"
proof -
  obtain W where inv: "lock_inv s W" using lock_reachable_inv [OF assms] by blast
  have b: "base (klib s) (waits s) W" using inv by (simp add: lock_inv_def)
  have z: "is_tasklist (heap (klib s)) (zwaiting (rzs s r)) (W (ZW r))"
    using baseD(2) [OF b] unfolding lists_ok_def by (metis waits.simps(5))
  have q: "is_tasklist (heap (klib s)) (taskrunqueue (klib s)) (W RunQ)"
    using baseD(2) [OF b] unfolding lists_ok_def by (metis waits.simps(1))
  define n where "n = wakes all 0 (W (ZW r))"
  define W' where "W' = W(ZW r := drop n (W (ZW r)), RunQ := W RunQ @ take n (W (ZW r)))"
  have "all \<or> (0::nat) \<le> 1" by simp
  from taskwakeup_loop_inv [OF inv this, of r] obtain r' k' where
    u: "taskwakeup_loop all 0 (rzs s r) (klib s) = Some (n, r', k')"
      "lock_inv (s\<lparr>klib := k', rzs := (rzs s)(r := r')\<rparr>) W'"
    by (auto simp: n_def W'_def)
  have b': "base k' (waits (s\<lparr>klib := k', rzs := (rzs s)(r := r')\<rparr>)) W'"
    using u(2) by (simp add: lock_inv_def)
  have "is_tasklist (heap k') (zwaiting r') (drop n (W (ZW r)))"
    using baseD(2) [OF b'] unfolding lists_ok_def waits_rzs by (auto simp: W'_def dest: spec [of _ "ZW r"])
  moreover have "is_tasklist (heap k') (taskrunqueue k') (W RunQ @ take n (W (ZW r)))"
    using baseD(2) [OF b'] unfolding lists_ok_def waits_rzs by (auto simp: W'_def dest: spec [of _ RunQ])
  moreover have n: "(if all then length (W (ZW r)) else min 1 (length (W (ZW r)))) = n"
    by (simp add: n_def wakes_def)
  moreover have "(if all then taskwakeupall (rzs s r) (klib s) else taskwakeup (rzs s r) (klib s)) =
      Some (n, r', k')"
    using u(1) by (cases all) (simp_all add: taskwakeup_def taskwakeupall_def)
  ultimately have "let n = (if all then length (W (ZW r)) else min 1 (length (W (ZW r)))) in
      (if all then taskwakeupall (rzs s r) (klib s) else taskwakeup (rzs s r) (klib s)) =
        Some (n, r', k') \<and>
      is_tasklist (heap k') (zwaiting r') (drop n (W (ZW r))) \<and>
      is_tasklist (heap k') (taskrunqueue k') (W RunQ @ take n (W (ZW r)))"
    unfolding n Let_def by blast
  with z q show ?thesis by blast
qed

theorem wakeup_wakes_in_order_witness:
  "\<exists>r' k'. taskwakeup (rzs one_sleeps 3) (klib one_sleeps) = Some (1, r', k') \<and>
     lhead (zwaiting r') = None"
proof -
  have l: "lhead (zwaiting (rzs one_sleeps 3)) = Some 10" by code_simp
  from wakeup_wakes_in_order [OF one_sleeps_reach(1), of 3 False, unfolded Let_def if_False]
  obtain zs r' k' where
    x: "is_tasklist (heap (klib one_sleeps)) (zwaiting (rzs one_sleeps 3)) zs"
      "taskwakeup (rzs one_sleeps 3) (klib one_sleeps) = Some (min 1 (length zs), r', k')"
      "is_tasklist (heap k') (zwaiting r') (drop (min 1 (length zs)) zs)"
    by blast
  have "ltail (zwaiting (rzs one_sleeps 3)) = Some 10 \<and> nextp (heap (klib one_sleeps) 10) = None"
    by code_simp
  moreover obtain ys where zs: "zs = 10 # ys"
    using is_tasklist_head [OF x(1)] l by (metis first_or_SomeE)
  have "nextp (heap (klib one_sleeps) 10) = first_or ys None"
    using x(1) unfolding zs is_tasklist_def by simp
  ultimately have "ys = []" by (simp add: first_or_None_iff)
  with x(2) is_tasklist_head [OF x(3)] zs show ?thesis by simp
qed

end
