(* ===== verification/Task_Fd.thy ===== *)
theory Task_Fd
  imports Task_Sched
begin

text \<open>
  Sleeping tasks and blocking descriptors: src/src/common/task/fd.c.  \<^verbatim>\<open>taskdelay\<close> inserts the
  caller into the list of sleeping tasks, which is sorted by wake-up time; the system task
  \<^verbatim>\<open>fdtask\<close> computes how long it may poll, wakes the tasks whose descriptors are ready and the tasks
  whose time has come.  \<^verbatim>\<open>gettimeofday\<close>, \<^verbatim>\<open>poll\<close>, \<^verbatim>\<open>read\<close> and \<^verbatim>\<open>write\<close> are answered by arguments of
  the model.
\<close>

section \<open>Time\<close>

text \<open>\<^verbatim>\<open>nsec\<close>: nanoseconds from \<^verbatim>\<open>gettimeofday\<close> (seconds, microseconds), all ones when it fails.\<close>

definition nsec :: "(64 word \<times> 64 word) option \<Rightarrow> 64 word" where
  "nsec tv = (case tv of None \<Rightarrow> -1 | Some (sec, usec) \<Rightarrow> sec * 1000 * 1000 * 1000 + usec * 1000)"

text \<open>How long \<^verbatim>\<open>fdtask\<close> polls, in milliseconds; -1 means without limit.\<close>

definition poll_ms :: "libtask \<Rightarrow> 64 word \<Rightarrow> int" where
  "poll_ms s now =
     (case lhead (sleeping s) of
        None \<Rightarrow> -1
      | Some t \<Rightarrow>
          (if now \<ge> alarmtime (heap s t) then 0
           else if now + 5 * 1000 * 1000 * 1000 \<ge> alarmtime (heap s t)
           then uint ((alarmtime (heap s t) - now) div 1000000)
           else 5000))"

section \<open>The list of sleeping tasks\<close>

text \<open>The first task, from \<open>t\<close> on, whose alarm is not before \<open>when\<close>.\<close>

partial_function (option) find_alarm :: "64 word \<Rightarrow> tptr option \<Rightarrow> theap \<Rightarrow> tptr option option" where
  "find_alarm when t h =
     (case t of
        None \<Rightarrow> Some None
      | Some p \<Rightarrow>
          if alarmtime (h p) < when then find_alarm when (nextp (h p)) h else Some (Some p))"

text \<open>Linking the task \<open>r\<close> in front of \<open>t\<close> (at the end when \<open>t\<close> is nil).\<close>

definition link_before :: "tptr \<Rightarrow> tptr option \<Rightarrow> 64 word \<Rightarrow> tasklist \<Rightarrow> theap \<Rightarrow> tasklist \<times> theap" where
  "link_before r t when l h =
     (let h1 = (case t of
            Some p \<Rightarrow> set_next r (Some p) (set_prev r (prevp (h p)) h)
          | None \<Rightarrow> set_next r None (set_prev r (ltail l) h));
          h2 = h1(r := (h1 r)\<lparr>alarmtime := when\<rparr>);
          (l1, h3) = (case prevp (h2 r) of
            Some p \<Rightarrow> (l, set_next p (Some r) h2) | None \<Rightarrow> (l\<lparr>lhead := Some r\<rparr>, h2))
      in case nextp (h3 r) of
           Some n \<Rightarrow> (l1, set_prev n (Some r) h3)
         | None \<Rightarrow> (l1\<lparr>ltail := Some r\<rparr>, h3))"

text \<open>\<^verbatim>\<open>if(!startedfdtask)\<close>: create the task that polls (\<open>fn\<close> stands for \<^verbatim>\<open>fdtask\<close>).\<close>

definition start_fdtask :: "nat \<Rightarrow> tptr option \<Rightarrow> bool \<Rightarrow> libtask \<Rightarrow> libtask outcome" where
  "start_fdtask fn m ok s =
     (if startedfdtask s then Return s
      else
        case taskcreate fn 0 m ok (s\<lparr>startedfdtask := True\<rparr>) of
          Return (n, s') \<Rightarrow> Return s'
        | Abort \<Rightarrow> Abort
        | Exit v \<Rightarrow> Exit v)"

text \<open>\<^verbatim>\<open>taskdelay\<close> after the start of \<^verbatim>\<open>fdtask\<close>, up to its switch.\<close>

definition taskdelay :: "32 word \<Rightarrow> 64 word \<Rightarrow> libtask \<Rightarrow> libtask option" where
  "taskdelay ms now s =
     (case taskrunning s of
        None \<Rightarrow> None
      | Some r \<Rightarrow>
          let when = now + ucast ms * 1000000
          in case find_alarm when (lhead (sleeping s)) (heap s) of
               None \<Rightarrow> None
             | Some t \<Rightarrow>
                 (let (l, h) = link_before r t when (sleeping s) (heap s);
                      s1 = s\<lparr>sleeping := l, heap := h\<rparr>;
                      s2 = (if system (heap s1 r) then s1
                            else
                              let s3 = s1\<lparr>sleepingcounted := sleepingcounted s1 + 1\<rparr>
                              in if sleepingcounted s1 = 0 then s3\<lparr>taskcount := taskcount s3 + 1\<rparr> else s3)
                  in Some (taskswitch s2)))"

definition taskdelay_result :: "64 word \<Rightarrow> 64 word \<Rightarrow> 32 word" where
  "taskdelay_result start stop = ucast ((stop - start) div 1000000)"

text \<open>The loop of \<^verbatim>\<open>fdtask\<close> that wakes the sleepers whose time has come.\<close>

definition wake_sleeper :: "tptr \<Rightarrow> libtask \<Rightarrow> libtask" where
  "wake_sleeper t s =
     (case deltask (sleeping s) t (heap s) of
        (l, h) \<Rightarrow>
          let s1 = s\<lparr>sleeping := l, heap := h\<rparr>;
              s2 = (if system (heap s1 t) then s1
                    else
                      let s3 = s1\<lparr>sleepingcounted := sleepingcounted s1 - 1\<rparr>
                      in if sleepingcounted s3 = 0 then s3\<lparr>taskcount := taskcount s3 - 1\<rparr> else s3)
          in taskready t s2)"

partial_function (option) wake_expired :: "64 word \<Rightarrow> libtask \<Rightarrow> libtask option" where
  "wake_expired now s =
     (case lhead (sleeping s) of
        None \<Rightarrow> Some s
      | Some t \<Rightarrow>
          if now \<ge> alarmtime (heap s t) then wake_expired now (wake_sleeper t s) else Some s)"

section \<open>Waiting for descriptors\<close>

text \<open>The \<^verbatim>\<open>poll\<close> version keeps two parallel arrays of \<^verbatim>\<open>npollfd\<close> entries.\<close>

record pollfd =
  pfd :: int
  events :: "16 word"
  revents :: "16 word"

definition MAXFD :: nat where
  "MAXFD = 1024"

text \<open>
  Waking the tasks whose descriptors have events: entry \<open>i\<close> is replaced by the last one and looked
  at again.
\<close>

function poll_wake ::
    "nat \<Rightarrow> pollfd list \<Rightarrow> tptr list \<Rightarrow> libtask \<Rightarrow> pollfd list \<times> tptr list \<times> libtask" where
  "poll_wake i ps ts s =
     (if i < length ps then
        if revents (ps ! i) \<noteq> 0
        then poll_wake i (swap_remove ps i) (swap_remove ts i) (taskready (ts ! i) s)
        else poll_wake (i + 1) ps ts s
      else (ps, ts, s))"
  by auto
termination
  by (relation "measure (\<lambda>(i, ps, ts, s). 2 * length ps - i)") auto

declare poll_wake.simps [simp del]

text \<open>\<^verbatim>\<open>fdwait\<close> up to its switch; \<open>bits\<close> are \<^verbatim>\<open>POLLIN\<close> or \<^verbatim>\<open>POLLOUT\<close>.\<close>

definition fdwait ::
    "int \<Rightarrow> char \<Rightarrow> pollfd list \<Rightarrow> tptr list \<Rightarrow> libtask \<Rightarrow> (pollfd list \<times> tptr list \<times> libtask) outcome" where
  "fdwait fd rw ps ts s =
     (if length ps \<ge> MAXFD then Abort
      else
        case taskrunning s of
          None \<Rightarrow> Abort
        | Some t \<Rightarrow>
            let s1 = taskstate (''fdwait for '' @ (if rw = CHR ''r'' then ''read''
                       else if rw = CHR ''w'' then ''write'' else ''error'')) s;
                bits = (if rw = CHR ''r'' then 1 else if rw = CHR ''w'' then 4 else 0)
            in Return (ps @ [\<lparr>pfd = fd, events = bits, revents = 0\<rparr>], ts @ [t], taskswitch s1))"

text \<open>The \<^verbatim>\<open>epoll\<close> version: the tasks named by the events become ready.\<close>

fun epoll_wake :: "tptr list \<Rightarrow> libtask \<Rightarrow> libtask" where
  "epoll_wake [] s = s"
| "epoll_wake (t # ts) s = epoll_wake ts (taskready t s)"

section \<open>Reading and writing\<close>

text \<open>Answers of \<^verbatim>\<open>read\<close> and \<^verbatim>\<open>write\<close>: a count, \<^verbatim>\<open>EAGAIN\<close>, or another error.\<close>

datatype io = Done nat | Again | Failed

text \<open>
  \<^verbatim>\<open>fdread\<close> and \<^verbatim>\<open>fdread1\<close>: \<open>rd k\<close> is the answer of the \<open>k\<close>-th call; the result is the C value, the
  next call and how often the task waited.
\<close>

partial_function (option) fdread :: "(nat \<Rightarrow> io) \<Rightarrow> nat \<Rightarrow> nat \<Rightarrow> (int \<times> nat \<times> nat) option" where
  "fdread rd k nw =
     (case rd k of
        Done n \<Rightarrow> Some (int n, k + 1, nw)
      | Failed \<Rightarrow> Some (-1, k + 1, nw)
      | Again \<Rightarrow> fdread rd (k + 1) (nw + 1))"

partial_function (option) fdread1 :: "(nat \<Rightarrow> io) \<Rightarrow> nat \<Rightarrow> nat \<Rightarrow> (int \<times> nat \<times> nat) option" where
  "fdread1 rd k nw =
     (case rd k of
        Done n \<Rightarrow> Some (int n, k + 1, nw + 1)
      | Failed \<Rightarrow> Some (-1, k + 1, nw + 1)
      | Again \<Rightarrow> fdread1 rd (k + 1) (nw + 1))"

text \<open>
  \<^verbatim>\<open>fdwrite\<close>: \<open>wr k n\<close> answers the \<open>k\<close>-th call, which offers \<open>n\<close> bytes; the result is the C value,
  the next call and the bytes the kernel has taken.
\<close>

partial_function (option) fdwrite ::
    "(nat \<Rightarrow> nat \<Rightarrow> io) \<Rightarrow> nat \<Rightarrow> byte list \<Rightarrow> nat \<Rightarrow> byte list \<Rightarrow> (int \<times> nat \<times> byte list) option" where
  "fdwrite wr k buf tot out =
     (if tot < length buf then
        case wr k (length buf - tot) of
          Again \<Rightarrow> fdwrite wr (k + 1) buf tot out
        | Failed \<Rightarrow> Some (-1, k + 1, out)
        | Done m \<Rightarrow>
            if m = 0 then Some (int tot, k + 1, out)
            else fdwrite wr (k + 1) buf (tot + m) (out @ read_block tot m buf)
      else Some (int tot, k, out))"

section \<open>The sleepers are sorted and counted\<close>

text \<open>
  \<open>zs\<close> are the sleeping tasks: live, neither ready nor running, sorted by alarm, and
  \<^verbatim>\<open>sleepingcounted\<close> is the number of those that are not system tasks.
\<close>

definition sleep_inv :: "libtask \<Rightarrow> tptr list \<Rightarrow> tptr list \<Rightarrow> bool" where
  "sleep_inv s zs rq \<longleftrightarrow> sched_inv s rq \<and> is_tasklist (heap s) (sleeping s) zs \<and>
     set zs \<subseteq> set (live s) \<and> set zs \<inter> set rq = {} \<and>
     (\<forall>r. taskrunning s = Some r \<longrightarrow> r \<notin> set zs) \<and>
     sorted (map (\<lambda>t. alarmtime (heap s t)) zs) \<and>
     sleepingcounted s = int (length (filter (\<lambda>t. \<not> system (heap s t)) zs))"

lemma sleep_invD:
  assumes "sleep_inv s zs rq"
  shows "sched_inv s rq" "is_tasklist (heap s) (sleeping s) zs" "set zs \<subseteq> set (live s)"
    "set zs \<inter> set rq = {}" "taskrunning s = Some r \<Longrightarrow> r \<notin> set zs"
    "sorted (map (\<lambda>t. alarmtime (heap s t)) zs)"
    "sleepingcounted s = int (length (filter (\<lambda>t. \<not> system (heap s t)) zs))" "distinct zs"
  using assms by (auto simp: sleep_inv_def is_tasklist_def)

text \<open>Changing the links, and counting one sleeper more or less.\<close>

lemma sched_inv_sleep:
  assumes inv: "sched_inv s rq" and d: "same_data (heap s) h'"
    and q: "is_tasklist h' (taskrunqueue s) rq"
    and cnt: "taskcount s' = taskcount s - (if 0 < sleepingcounted s then 1 else 0) +
        (if 0 < sleepingcounted s' then 1 else 0)"
    and s': "heap s' = h'" "taskrunning s' = taskrunning s" "taskrunqueue s' = taskrunqueue s"
      "alltask s' = alltask s" "nalltask s' = nalltask s"
  shows "sched_inv s' rq"
proof -
  note f = same_data_fields [OF d]
  have l: "live s' = live s" by (simp add: live_def s')
  have "nonsystem s' = nonsystem s" by (simp add: nonsystem_def l f s')
  with inv q l cnt show ?thesis by (simp add: sched_inv_defs f s')
qed

lemma wake_sleeper_inv:
  assumes inv: "sleep_inv s (t # zs) rq"
  shows "sleep_inv (wake_sleeper t s) zs (rq @ [t])"
    and "alarmtime (heap (wake_sleeper t s) u) = alarmtime (heap s u)"
    and "taskrunning (wake_sleeper t s) = taskrunning s" and "live (wake_sleeper t s) = live s"
proof -
  note i = sleep_invD [OF inv]
  obtain l h where d: "deltask (sleeping s) t (heap s) = (l, h)" by fastforce
  note f = same_data_fields [OF deltask_same_data [OF d]]
  define c where "c = sleepingcounted s - (if system (heap s t) then 0 else 1)"
  define tc where "tc = taskcount s - (if \<not> system (heap s t) \<and> c = 0 then 1 else 0)"
  define s2 where "s2 = s\<lparr>sleeping := l, heap := h, sleepingcounted := c, taskcount := tc\<rparr>"
  have ws: "wake_sleeper t s = taskready t s2"
    by (simp add: wake_sleeper_def d s2_def c_def tc_def f Let_def)
  have rq: "is_tasklist (heap s) (taskrunqueue s) rq" using i(1) by (simp add: sched_inv_defs)
  have z: "is_tasklist h l zs" using tq.del_head [OF d i(2)] .
  have q: "is_tasklist h (taskrunqueue s) rq"
    by (rule tq.del_other [OF d i(2) _ rq]) (use i(4) in auto)
  have c: "c = int (length (filter (\<lambda>t. \<not> system (heap s t)) zs))" using i(7) by (simp add: c_def)
  have si: "sched_inv s2 rq"
  proof (rule sched_inv_sleep [OF i(1) deltask_same_data [OF d] q])
    show "taskcount s2 = taskcount s - (if 0 < sleepingcounted s then 1 else 0) +
        (if 0 < sleepingcounted s2 then 1 else 0)"
      using c i(7) by (auto simp: s2_def tc_def c_def)
  qed (simp_all add: s2_def)
  have lv: "live s2 = live s" by (simp add: s2_def live_def)
  have tl: "t \<in> set (live s2)" using i(3) lv by simp
  have tr: "t \<notin> set rq" using i(4) by simp
  have tn: "taskrunning s2 \<noteq> Some t" using i(5) by (auto simp: s2_def)
  have "sched_inv (taskready t s2) (rq @ [t])" by (rule taskready_inv [OF si tl tr tn])
  moreover have "is_tasklist (heap (taskready t s2)) (sleeping (taskready t s2)) zs"
    using taskready_other [of s2 rq l zs t] q z i(4,8)
    by (simp add: s2_def taskready_simps Int_commute)
  ultimately show "sleep_inv (wake_sleeper t s) zs (rq @ [t])"
    using i c unfolding ws sleep_inv_def by (auto simp: taskready_simps lv s2_def f live_def)
  show "alarmtime (heap (wake_sleeper t s) u) = alarmtime (heap s u)"
    "taskrunning (wake_sleeper t s) = taskrunning s" "live (wake_sleeper t s) = live s"
    by (simp_all add: ws taskready_simps lv) (simp_all add: s2_def f)
qed

lemma wake_expired_inv:
  assumes "sleep_inv s zs rq"
  shows "\<exists>s'. wake_expired now s = Some s' \<and>
      sleep_inv s' (dropWhile (\<lambda>t. alarmtime (heap s t) \<le> now) zs)
        (rq @ takeWhile (\<lambda>t. alarmtime (heap s t) \<le> now) zs) \<and>
      (\<forall>u. alarmtime (heap s' u) = alarmtime (heap s u)) \<and> taskrunning s' = taskrunning s"
  using assms
proof (induction zs arbitrary: s rq)
  case Nil
  then have "lhead (sleeping s) = None" by (simp add: sleep_inv_def is_tasklist_def)
  then have "wake_expired now s = Some s" by (subst wake_expired.simps) simp
  with Nil show ?case by auto
next
  case (Cons t zs)
  have hd: "lhead (sleeping s) = Some t" using Cons.prems by (simp add: sleep_inv_def is_tasklist_def)
  show ?case
  proof (cases "alarmtime (heap s t) \<le> now")
    case False
    with hd have "wake_expired now s = Some s" by (subst wake_expired.simps) simp
    with False Cons.prems show ?thesis by auto
  next
    case True
    define s1 where "s1 = wake_sleeper t s"
    have "wake_expired now s = wake_expired now s1"
      using hd True by (subst wake_expired.simps) (simp add: s1_def)
    moreover note w = wake_sleeper_inv [OF Cons.prems, folded s1_def]
    ultimately show ?thesis using Cons.IH [OF w(1)] True w(2,3) by simp
  qed
qed

lemma sorted_take_drop_le:
  fixes f :: "'a \<Rightarrow> 'b :: linorder"
  assumes "sorted (map f xs)"
  shows "takeWhile (\<lambda>x. f x \<le> k) xs = filter (\<lambda>x. f x \<le> k) xs"
    and "dropWhile (\<lambda>x. f x \<le> k) xs = filter (\<lambda>x. k < f x) xs"
  using assms
proof (induction xs)
  case (Cons x xs)
  {
    case 1
    have "filter (\<lambda>x. f x \<le> k) xs = []" if "\<not> f x \<le> k"
      using 1 that by (auto simp: filter_empty_conv)
    with 1 Cons show ?case by simp
  next
    case 2
    have "filter (\<lambda>x. k < f x) xs = xs" if "\<not> f x \<le> k"
      using 2 that by (auto simp: filter_id_conv)
    with 2 Cons show ?case by (cases "f x \<le> k") auto
  }
qed simp_all

section \<open>Inserting a sleeper\<close>

lemma find_alarm_seg:
  "dllseg h p xs None \<Longrightarrow>
   find_alarm when (first_or xs None) h = Some (first_or (dropWhile (\<lambda>t. alarmtime (h t) < when) xs) None)"
proof (induction xs arbitrary: p)
  case Nil
  then show ?case by (subst find_alarm.simps) simp
next
  case (Cons x xs)
  show ?case
  proof (cases "alarmtime (h x) < when")
    case True
    have "find_alarm when (first_or (x # xs) None) h = find_alarm when (first_or xs None) h"
      using True Cons.prems by (subst find_alarm.simps) simp
    with True Cons show ?thesis by auto
  next
    case False
    then show ?thesis by (subst find_alarm.simps) simp
  qed
qed

lemma link_before_spec:
  assumes l: "is_tasklist h l (xs @ ys)" and r: "r \<notin> set (xs @ ys)"
    and lb: "link_before r (first_or ys None) when l h = (l', h')"
  shows "is_tasklist h' l' (xs @ r # ys)"
    and "A \<inter> set (xs @ ys) = {} \<Longrightarrow> r \<notin> A \<Longrightarrow> same_links h h' A"
    and "\<And>u. tname (h' u) = tname (h u)" and "\<And>u. system (h' u) = system (h u)"
    and "\<And>u. ready (h' u) = ready (h u)" and "\<And>u. exiting (h' u) = exiting (h u)"
    and "\<And>u. alltaskslot (h' u) = alltaskslot (h u)"
    and "\<And>u. alarmtime (h' u) = (if u = r then when else alarmtime (h u))"
proof -
  have seg: "dllseg h None xs (first_or ys None)" "dllseg h (last_or None xs) ys None"
    and dist: "distinct (xs @ ys)"
    and ends: "lhead l = first_or xs (first_or ys None)" "ltail l = last_or (last_or None xs) ys"
    using l by (auto simp: is_tasklist_def link_simps)
  have pv: "\<And>y zs. ys = y # zs \<Longrightarrow> prevp (h y) = last_or None xs" using seg(2) by auto
  define h1 where "h1 = (case first_or ys None of
      Some p \<Rightarrow> set_next r (Some p) (set_prev r (prevp (h p)) h)
    | None \<Rightarrow> set_next r None (set_prev r (ltail l) h))"
  define h2 where "h2 = h1(r := (h1 r)\<lparr>alarmtime := when\<rparr>)"
  have h2r: "prevp (h2 r) = last_or None xs" "nextp (h2 r) = first_or ys None"
    using ends pv by (cases ys; simp add: h2_def h1_def link_simps)+
  define h3 where "h3 = (case last_or None xs of None \<Rightarrow> h2 | Some p \<Rightarrow> set_next p (Some r) h2)"
  have n3: "nextp (h3 r) = first_or ys None"
  proof (cases "last_or None xs")
    case (Some p)
    then have "p \<noteq> r" using r last_or_in by fastforce
    with Some h2r show ?thesis by (simp add: h3_def link_simps)
  qed (simp add: h3_def h2r)
  have h': "h' = (case first_or ys None of None \<Rightarrow> h3 | Some n \<Rightarrow> set_prev n (Some r) h3)"
    and l': "l' = (let l1 = (if last_or None xs = None then l\<lparr>lhead := Some r\<rparr> else l)
                   in if first_or ys None = None then l1\<lparr>ltail := Some r\<rparr> else l1)"
  proof -
    have "(case (case prevp (h2 r) of Some p \<Rightarrow> (l, set_next p (Some r) h2)
             | None \<Rightarrow> (l\<lparr>lhead := Some r\<rparr>, h2)) of
          (l1, h3) \<Rightarrow> (case nextp (h3 r) of Some n \<Rightarrow> (l1, set_prev n (Some r) h3)
             | None \<Rightarrow> (l1\<lparr>ltail := Some r\<rparr>, h3))) = (l', h')"
      using lb unfolding link_before_def Let_def by (fold h1_def, fold h2_def)
    moreover have "(case prevp (h2 r) of Some p \<Rightarrow> (l, set_next p (Some r) h2)
        | None \<Rightarrow> (l\<lparr>lhead := Some r\<rparr>, h2)) =
        ((if last_or None xs = None then l\<lparr>lhead := Some r\<rparr> else l), h3)"
      by (simp add: h2r(1) h3_def split: option.split)
    ultimately show "h' = (case first_or ys None of None \<Rightarrow> h3 | Some n \<Rightarrow> set_prev n (Some r) h3)"
      "l' = (let l1 = (if last_or None xs = None then l\<lparr>lhead := Some r\<rparr> else l)
             in if first_or ys None = None then l1\<lparr>ltail := Some r\<rparr> else l1)"
      using n3 by (auto simp: Let_def split: option.splits)
  qed
  have nx: "nextp (h' u) = (if u = r then first_or ys None
      else if Some u = last_or None xs then Some r else nextp (h u))" for u
    using r last_or_in [of xs] by (cases ys; cases "last_or None xs")
      (auto simp: h' h3_def h2_def h1_def link_simps)
  have pr: "prevp (h' u) = (if u = r then last_or None xs
      else if Some u = first_or ys None then Some r else prevp (h u))" for u
    using r pv ends by (cases ys; cases "last_or None xs")
      (auto simp: h' h3_def h2_def h1_def link_simps)
  have xs': "dllseg h' None xs (Some r)"
  proof (cases xs rule: rev_cases)
    case (snoc us p)
    have "dllseg h' None us (Some p)"
      by (subst dllseg_cong [of h])
         (use seg snoc dist r in \<open>auto simp: same_links_def nx pr link_simps\<close>,
          (cases ys; auto)+)
    then show ?thesis using snoc seg dist r
      by (cases ys) (auto simp: link_simps nx pr)
  qed simp
  have ys': "dllseg h' (Some r) ys None"
  proof (cases ys)
    case (Cons y zs)
    have lx: "last_or None xs \<noteq> Some u" if "u \<in> set ys" for u
      using last_or_in [of xs u] dist that by auto
    have "dllseg h' (Some y) zs None"
      by (subst dllseg_cong [of h])
         (use seg Cons dist r lx in \<open>auto simp: same_links_def nx pr\<close>, (metis)+)
    then show ?thesis using Cons seg lx r by (auto simp: nx pr) metis
  qed simp
  show "is_tasklist h' l' (xs @ r # ys)"
    using xs' ys' dist r ends
    by (cases ys; cases xs rule: rev_cases)
       (auto simp: is_tasklist_def link_simps nx pr l' Let_def last_or_nonempty)
  show "same_links h h' A" if "A \<inter> set (xs @ ys) = {}" "r \<notin> A"
    using that last_or_in [of xs] by (cases ys) (auto simp: same_links_def nx pr)
  show "tname (h' u) = tname (h u)" "system (h' u) = system (h u)" "ready (h' u) = ready (h u)"
    "exiting (h' u) = exiting (h u)" "alltaskslot (h' u) = alltaskslot (h u)"
    "alarmtime (h' u) = (if u = r then when else alarmtime (h u))" for u
    by (cases ys; cases "last_or None xs";
        simp add: h' h3_def h2_def h1_def set_next_def set_prev_def)+
qed

lemma sorted_insert:
  fixes f :: "'a \<Rightarrow> 'b :: linorder"
  assumes "sorted (map f xs)" and "\<And>x. x \<in> set xs \<Longrightarrow> g x = f x"
  shows "sorted (map g (takeWhile (\<lambda>x. f x < g r) xs @ r # dropWhile (\<lambda>x. f x < g r) xs))"
  using assms
proof (induction xs)
  case (Cons x xs)
  have gx: "g y = f y" if "y \<in> set (x # xs)" for y using Cons.prems(2) that by blast
  have IH: "sorted (map g (takeWhile (\<lambda>x. f x < g r) xs @ r # dropWhile (\<lambda>x. f x < g r) xs))"
    using Cons by simp
  show ?case
  proof (cases "f x < g r")
    case True
    have "f x \<le> g y" if "y \<in> set (takeWhile (\<lambda>x. f x < g r) xs @ r # dropWhile (\<lambda>x. f x < g r) xs)" for y
      using that True Cons.prems(1) gx
      by (auto dest!: set_takeWhileD set_dropWhileD)
    with True IH gx show ?thesis by auto
  next
    case False
    then have "g r \<le> f x" by simp
    have "map g (x # xs) = map f (x # xs)" using gx by simp
    then have "sorted (map g (x # xs))" using Cons.prems(1) by (simp only:)
    with \<open>g r \<le> f x\<close> False gx show ?thesis by auto
  qed
qed simp

lemma taskdelay_inv:
  fixes ms :: "32 word" and now :: "64 word" and s :: libtask
  assumes inv: "sleep_inv s zs rq" and run: "taskrunning s = Some r"
  defines "when \<equiv> now + ucast ms * 1000000"
  defines "early \<equiv> \<lambda>t. alarmtime (heap s t) < when"
  shows "\<exists>s'. taskdelay ms now s = Some s' \<and>
      sleep_inv s' (takeWhile early zs @ r # dropWhile early zs) rq \<and>
      (\<forall>u. alarmtime (heap s' u) = (if u = r then when else alarmtime (heap s u))) \<and>
      taskrunning s' = None"
proof -
  note i = sleep_invD [OF inv]
  have rz: "r \<notin> set zs" using i(5) run by simp
  have rl: "r \<in> set (live s)" "r \<notin> set rq" "\<not> exiting (heap s r)"
    using i(1) run by (auto simp: sched_inv_defs)
  define t where "t = first_or (dropWhile early zs) None"
  have fa: "find_alarm when (lhead (sleeping s)) (heap s) = Some t"
    using find_alarm_seg [of "heap s" None zs "when"] i(2) by (simp add: is_tasklist_def t_def early_def)
  obtain l h where lb: "link_before r t when (sleeping s) (heap s) = (l, h)" by fastforce
  have "is_tasklist (heap s) (sleeping s) (takeWhile early zs @ dropWhile early zs)"
    using i(2) by simp
  note ls = link_before_spec [OF this _ lb [unfolded t_def]]
  have z: "is_tasklist h l (takeWhile early zs @ r # dropWhile early zs)" by (rule ls(1)) (use rz in simp)
  have al: "alarmtime (h u) = (if u = r then when else alarmtime (heap s u))" for u
    by (rule ls(8)) (use rz in simp)
  have fld: "tname (h u) = tname (heap s u)" "system (h u) = system (heap s u)"
    "ready (h u) = ready (heap s u)" "exiting (h u) = exiting (heap s u)"
    "alltaskslot (h u) = alltaskslot (heap s u)" for u
    using ls(3-7) rz by simp_all
  have sl: "same_links (heap s) h (set rq)" by (rule ls(2)) (use rz rl i(4) in auto)
  define c where "c = sleepingcounted s + (if system (heap s r) then 0 else 1)"
  define tc where "tc = taskcount s + (if \<not> system (heap s r) \<and> sleepingcounted s = 0 then 1 else 0)"
  define s2 where "s2 = s\<lparr>sleeping := l, heap := h, sleepingcounted := c, taskcount := tc\<rparr>"
  have td: "taskdelay ms now s = Some (taskswitch s2)"
    using run fa lb by (simp add: taskdelay_def Let_def s2_def c_def tc_def fld flip: when_def)
  have lv: "live s2 = live s" by (simp add: s2_def live_def)
  have ns: "nonsystem s2 = nonsystem s" by (simp add: nonsystem_def lv) (simp add: s2_def fld)
  have rq: "is_tasklist h (taskrunqueue s) rq"
    using is_tasklist_cong [OF sl] i(1) by (simp add: sched_inv_defs)
  have c0: "0 \<le> sleepingcounted s" using i(7) by simp
  have si: "sched_inv s2 rq"
    using i(1) rq c0 ns lv unfolding sched_inv_defs
    by (auto simp: s2_def fld c_def tc_def)
  note sw = taskswitch_inv [OF si]
  have h2: "heap (taskswitch s2) = h" "sleeping (taskswitch s2) = l"
    "sleepingcounted (taskswitch s2) = c"
    using run rl(3) by (simp_all add: taskswitch_def sched_return_def Let_def s2_def fld)
  have "sorted (map (\<lambda>u. alarmtime (h u)) (takeWhile early zs @ r # dropWhile early zs))"
  proof -
    have hr: "alarmtime (h r) = when" by (simp add: al)
    have "alarmtime (h x) = alarmtime (heap s x)" if "x \<in> set zs" for x
      using that rz by (auto simp: al)
    from sorted_insert [OF i(6) this, of r] show ?thesis unfolding early_def hr by simp
  qed
  moreover have "c = int (length (filter (\<lambda>t. \<not> system (h t)) (takeWhile early zs @ r # dropWhile early zs)))"
  proof -
    have "filter (\<lambda>t. \<not> system (heap s t)) zs =
        filter (\<lambda>t. \<not> system (heap s t)) (takeWhile early zs) @
        filter (\<lambda>t. \<not> system (heap s t)) (dropWhile early zs)"
      by (metis filter_append takeWhile_dropWhile_id)
    then have "length (filter (\<lambda>t. \<not> system (heap s t)) zs) =
        length (filter (\<lambda>t. \<not> system (heap s t)) (takeWhile early zs)) +
        length (filter (\<lambda>t. \<not> system (heap s t)) (dropWhile early zs))" by simp
    with i(7) show ?thesis by (simp add: c_def fld)
  qed
  moreover have st: "set (takeWhile early zs @ r # dropWhile early zs) = insert r (set zs)"
    by (metis Un_insert_right list.simps(15) set_append takeWhile_dropWhile_id)
  ultimately have "sleep_inv (taskswitch s2) (takeWhile early zs @ r # dropWhile early zs) rq"
    using sw z i rl lv unfolding sleep_inv_def h2 st by auto
  with td sw al h2 show ?thesis by auto
qed

section \<open>Properties\<close>

text \<open>
  \<^verbatim>\<open>taskdelay\<close> terminates and keeps the sleeping tasks sorted: the caller, with alarm \<open>now + ms\<close>
  milliseconds, is linked in behind exactly the sleepers with an earlier alarm, the others keep their
  order, \<^verbatim>\<open>taskcount\<close> and \<^verbatim>\<open>sleepingcounted\<close> stay right, and the CPU is given up.
\<close>

theorem taskdelay_inserts_sorted:
  assumes "sleep_inv s zs rq" and "taskrunning s = Some r"
  shows "\<exists>s'. taskdelay ms now s = Some s' \<and> taskrunning s' = None \<and>
    sleep_inv s' (filter (\<lambda>t. alarmtime (heap s t) < now + ucast ms * 1000000) zs @ r #
                  filter (\<lambda>t. now + ucast ms * 1000000 \<le> alarmtime (heap s t)) zs) rq \<and>
    alarmtime (heap s' r) = now + ucast ms * 1000000"
proof -
  define w where "w = now + ucast ms * 1000000"
  define f where "f = (\<lambda>t. alarmtime (heap s t))"
  have srt: "sorted (map f zs)" using sleep_invD(6) [OF assms(1)] by (simp add: f_def)
  then have "takeWhile (\<lambda>t. f t < w) zs = filter (\<lambda>t. f t < w) zs \<and>
      dropWhile (\<lambda>t. f t < w) zs = filter (\<lambda>t. w \<le> f t) zs"
  proof (induction zs)
    case (Cons z zs)
    have "filter (\<lambda>t. f t < w) zs = [] \<and> filter (\<lambda>t. w \<le> f t) zs = zs" if "\<not> f z < w"
      using Cons.prems that by (auto simp: filter_empty_conv filter_id_conv)
    with Cons show ?case by auto
  qed simp
  with taskdelay_inv [OF assms, of ms now] show ?thesis by (auto simp: w_def f_def)
qed

definition sleeper_demo :: libtask where
  "sleeper_demo = (case taskdelay 5 1000 two_tasks_running of Some s \<Rightarrow> s | None \<Rightarrow> two_tasks_running)"

lemma two_tasks_running_sleep: "sleep_inv two_tasks_running [] [20]"
  "taskrunning two_tasks_running = Some 10"
proof -
  have "sleeping two_tasks_running = empty_tasklist \<and> sleepingcounted two_tasks_running = 0 \<and>
      taskrunning two_tasks_running = Some 10" by code_simp
  then show "sleep_inv two_tasks_running [] [20]" "taskrunning two_tasks_running = Some 10"
    using two_tasks_running_inv(1) by (simp_all add: sleep_inv_def)
qed

theorem taskdelay_inserts_sorted_witness:
  "\<exists>s'. taskdelay 5 1000 two_tasks_running = Some s' \<and> sleep_inv s' [10] [20] \<and>
     alarmtime (heap s' 10) = 5001000"
  using taskdelay_inserts_sorted [OF two_tasks_running_sleep, of 5 1000] by auto

text \<open>
  the wake-up loop of \<^verbatim>\<open>fdtask\<close> terminates and makes ready exactly the sleepers whose alarm has
  passed, earliest first; the others keep sleeping, in order.
\<close>

theorem wake_expired_exact:
  assumes "sleep_inv s zs rq"
  shows "\<exists>s'. wake_expired now s = Some s' \<and>
    sleep_inv s' (filter (\<lambda>t. now < alarmtime (heap s t)) zs)
      (rq @ filter (\<lambda>t. alarmtime (heap s t) \<le> now) zs)"
  using wake_expired_inv [OF assms, of now]
    sorted_take_drop_le [OF sleep_invD(6) [OF assms], of now] by auto

theorem wake_expired_exact_witness:
  "\<exists>s s'. sleep_inv s [10] [20] \<and> wake_expired 5001000 s = Some s' \<and> sleep_inv s' [] [20, 10]"
proof -
  obtain s where s: "sleep_inv s [10] [20]" "alarmtime (heap s 10) = 5001000"
    using taskdelay_inv [OF two_tasks_running_sleep, of 5 1000] by auto
  from wake_expired_exact [OF s(1), of 5001000] s show ?thesis by auto
qed

text \<open>
  \<^verbatim>\<open>fdtask\<close> never oversleeps: with a sleeper it polls for between 0 and 5000 milliseconds and
  not past the alarm of the first sleeper; without one it polls without limit.  (Times are those of a
  clock that does not overflow 64 bits within the next five seconds.)
\<close>

theorem poll_ms_bounds:
  assumes "uint now + 5000000000 < 2 ^ 64"
  shows "(case lhead (sleeping s) of
      None \<Rightarrow> poll_ms s now = -1
    | Some t \<Rightarrow> 0 \<le> poll_ms s now \<and> poll_ms s now \<le> 5000 \<and>
        uint now + poll_ms s now * 1000000 \<le> max (uint now) (uint (alarmtime (heap s t))))"
proof (cases "lhead (sleeping s)")
  case (Some t)
  define a where "a = alarmtime (heap s t)"
  have n5: "uint (now + 5 * 1000 * 1000 * 1000) = uint now + 5000000000"
    using assms by (subst uint_add_lem [THEN iffD1]) simp_all
  consider (past) "a \<le> now" | (near) "\<not> a \<le> now" "a \<le> now + 5 * 1000 * 1000 * 1000"
    | (far) "\<not> a \<le> now" "\<not> a \<le> now + 5 * 1000 * 1000 * 1000" by blast
  then show ?thesis
  proof cases
    case past
    then show ?thesis using Some by (simp add: poll_ms_def a_def)
  next
    case near
    have le: "uint now \<le> uint a" using near(1) by (simp add: word_le_def)
    have "uint (a - now) = uint a - uint now" using le by (simp add: uint_sub_lem [THEN iffD1])
    moreover have "uint ((a - now) div 1000000) = uint (a - now) div 1000000" by (simp add: uint_div)
    ultimately have p: "poll_ms s now = (uint a - uint now) div 1000000"
      using near Some by (simp add: poll_ms_def a_def)
    have "uint a - uint now \<le> 5000000000" using near(2) n5 by (simp add: word_le_def)
    then have "(uint a - uint now) div 1000000 \<le> 5000" by simp
    moreover have "(uint a - uint now) div 1000000 * 1000000 \<le> uint a - uint now" by simp
    ultimately show ?thesis using Some le p by (simp add: a_def)
  next
    case far
    have "uint now + 5000000000 < uint a" using far(2) n5 by (simp add: word_le_def)
    then show ?thesis using Some far by (simp add: poll_ms_def a_def)
  qed
qed (simp add: poll_ms_def)

theorem poll_ms_bounds_witness: "poll_ms init_libtask 7 = -1"
  using poll_ms_bounds [of 7 init_libtask] by (simp add: init_libtask_def empty_tasklist_def)

text \<open>Both arrays lose the same entry.\<close>

lemma zip_swap_remove:
  assumes "length xs = length ys" and "i < length xs"
  shows "zip (swap_remove xs i) (swap_remove ys i) = swap_remove (zip xs ys) i"
proof (rule nth_equalityI)
  show "length (zip (swap_remove xs i) (swap_remove ys i)) = length (swap_remove (zip xs ys) i)"
    using assms by simp
  fix j assume j: "j < length (zip (swap_remove xs i) (swap_remove ys i))"
  have "last (zip xs ys) = (last xs, last ys)"
    using assms by (metis last_zip length_greater_0_conv gr_implies_not0 list.size(3))
  then show "zip (swap_remove xs i) (swap_remove ys i) ! j = swap_remove (zip xs ys) i ! j"
    using assms j by (simp add: swap_remove_nth)
qed

definition has_events :: "pollfd \<times> tptr \<Rightarrow> bool" where
  "has_events e \<longleftrightarrow> revents (fst e) \<noteq> 0"

lemma poll_wake_spec:
  "length ps = length ts \<Longrightarrow> \<forall>j < i. j < length ps \<longrightarrow> revents (ps ! j) = 0 \<Longrightarrow>
   \<exists>ws ps' ts'. poll_wake i ps ts s = (ps', ts', fold taskready ws s) \<and> length ps' = length ts' \<and>
     mset ws = image_mset snd (filter_mset has_events (mset (zip ps ts))) \<and>
     mset (zip ps' ts') = filter_mset (\<lambda>e. \<not> has_events e) (mset (zip ps ts))"
proof (induction i ps ts s rule: poll_wake.induct)
  case (1 i ps ts s)
  show ?case
  proof (cases "i < length ps")
    case False
    have "\<not> has_events e" if "e \<in> set (zip ps ts)" for e
      using that 1(3,4) False by (auto simp: has_events_def set_zip)
    then have "filter has_events (zip ps ts) = []"
      "filter (\<lambda>e. \<not> has_events e) (zip ps ts) = zip ps ts"
      by (auto simp: filter_empty_conv filter_id_conv)
    then have "filter_mset has_events (mset (zip ps ts)) = {#}"
      "filter_mset (\<lambda>e. \<not> has_events e) (mset (zip ps ts)) = mset (zip ps ts)"
      by (metis mset_filter mset_zero_iff mset.simps(1))+
    moreover have "poll_wake i ps ts s = (ps, ts, fold taskready [] s)"
      using False by (subst poll_wake.simps) simp
    ultimately show ?thesis using 1(3)
      by (intro exI [of _ "[]"] exI [of _ ps] exI [of _ ts])
         (simp only: image_mset_empty mset.simps(1) simp_thms)
  next
    case i: True
    show ?thesis
    proof (cases "revents (ps ! i) = 0")
      case True
      have "\<forall>j < i + 1. j < length ps \<longrightarrow> revents (ps ! j) = 0"
        using 1(4) True by (auto simp: less_Suc_eq)
      moreover have "poll_wake i ps ts s = poll_wake (i + 1) ps ts s"
        using i True by (subst poll_wake.simps) simp
      ultimately show ?thesis using 1(2) [OF i _ 1(3)] True by auto
    next
      case False
      have z: "zip (swap_remove ps i) (swap_remove ts i) = swap_remove (zip ps ts) i"
        using 1(3) i by (rule zip_swap_remove)
      have nth: "zip ps ts ! i = (ps ! i, ts ! i)" using 1(3) i by simp
      have ms: "mset (zip ps ts) = add_mset (ps ! i, ts ! i) (mset (swap_remove (zip ps ts) i))"
        using 1(3) i mset_swap_remove [of i "zip ps ts"] nth
        by (metis insert_DiffM length_zip min.idem nth_mem_mset)
      have "\<forall>j < i. j < length (swap_remove ps i) \<longrightarrow> revents (swap_remove ps i ! j) = 0"
        using 1(4) i by (auto simp: swap_remove_nth)
      from 1(1) [OF i False _ this] 1(3) z obtain ws ps' ts' where
        IH: "poll_wake i (swap_remove ps i) (swap_remove ts i) (taskready (ts ! i) s) =
              (ps', ts', fold taskready ws (taskready (ts ! i) s))" "length ps' = length ts'"
          "mset ws = image_mset snd (filter_mset has_events (mset (swap_remove (zip ps ts) i)))"
          "mset (zip ps' ts') = filter_mset (\<lambda>e. \<not> has_events e) (mset (swap_remove (zip ps ts) i))"
        by auto
      have "poll_wake i ps ts s = (ps', ts', fold taskready (ts ! i # ws) s)"
        using i False IH(1) by (subst poll_wake.simps) simp
      moreover have "has_events (ps ! i, ts ! i)" using False by (simp add: has_events_def)
      ultimately show ?thesis using IH(2-4) ms
        by (intro exI [of _ "ts ! i # ws"] exI [of _ ps'] exI [of _ ts']) simp
    qed
  qed
qed

text \<open>
  after \<^verbatim>\<open>poll\<close> every waiting task whose descriptor has events becomes ready exactly once, and
  the two arrays keep exactly the other entries, still paired, although entries are deleted while
  the arrays are scanned.
\<close>

theorem poll_wakes_exactly_ready:
  assumes "length ps = length ts"
  shows "\<exists>ws ps' ts'. poll_wake 0 ps ts s = (ps', ts', fold taskready ws s) \<and>
     length ps' = length ts' \<and>
     mset ws = mset (map snd (filter has_events (zip ps ts))) \<and>
     mset (zip ps' ts') = mset (filter (\<lambda>e. \<not> has_events e) (zip ps ts))"
  using poll_wake_spec [OF assms, of 0 s] by simp

theorem poll_wakes_exactly_ready_witness:
  "\<exists>ws ps' ts'. poll_wake 0 [\<lparr>pfd = 3, events = 1, revents = 1\<rparr>, \<lparr>pfd = 4, events = 1, revents = 0\<rparr>,
       \<lparr>pfd = 5, events = 1, revents = 1\<rparr>] [30, 40, 50] init_libtask =
       (ps', ts', fold taskready ws init_libtask) \<and> mset ws = {#30, 50#} \<and>
     mset (zip ps' ts') = {#(\<lparr>pfd = 4, events = 1, revents = 0\<rparr>, 40)#}"
  using poll_wakes_exactly_ready [of "[\<lparr>pfd = 3, events = 1, revents = 1\<rparr>,
      \<lparr>pfd = 4, events = 1, revents = 0\<rparr>, \<lparr>pfd = 5, events = 1, revents = 1\<rparr>]" "[30, 40, 50]" init_libtask]
  by (simp add: has_events_def) blast

lemma fdwrite_waits:
  assumes "wr k (length buf - tot) = Again" and "tot < length buf"
  shows "fdwrite wr k buf tot out = fdwrite wr (k + 1) buf tot out"
  using assms by (subst fdwrite.simps) simp

lemma fdwrite_skips:
  assumes "\<forall>j < n. wr (k + j) (length buf - tot) = Again" and "tot < length buf"
  shows "fdwrite wr k buf tot out = fdwrite wr (k + n) buf tot out"
  using assms
proof (induction n arbitrary: k)
  case (Suc n)
  have "fdwrite wr k buf tot out = fdwrite wr (k + 1) buf tot out"
    using Suc.prems by (intro fdwrite_waits) (auto dest: spec [of _ 0])
  also have "\<dots> = fdwrite wr (k + 1 + n) buf tot out"
    using Suc.prems by (intro Suc.IH) (auto dest: spec [of _ "Suc _"])
  finally show ?case by simp
qed simp

lemma fdwrite_all:
  assumes acc: "\<And>k n. 0 < n \<Longrightarrow> case wr k n of Again \<Rightarrow> True | Failed \<Rightarrow> False | Done m \<Rightarrow> 0 < m \<and> m \<le> n"
    and live: "\<And>k n. 0 < n \<Longrightarrow> \<exists>j. wr (k + j) n \<noteq> Again"
  shows "tot \<le> length buf \<Longrightarrow> out = pre @ take tot buf \<Longrightarrow>
    \<exists>k'. fdwrite wr k buf tot out = Some (int (length buf), k', pre @ buf)"
proof (induction "length buf - tot" arbitrary: k tot out rule: less_induct)
  case less
  show ?case
  proof (cases "tot < length buf")
    case False
    then show ?thesis using less.prems by (subst fdwrite.simps) simp
  next
    case True
    define n where "n = length buf - tot"
    define j where "j = (LEAST j. wr (k + j) n \<noteq> Again)"
    have n: "0 < n" using True by (simp add: n_def)
    have j: "wr (k + j) n \<noteq> Again" unfolding j_def using live [OF n] by (rule LeastI_ex)
    have "\<forall>i < j. wr (k + i) n = Again" unfolding j_def using not_less_Least by blast
    then have skip: "fdwrite wr k buf tot out = fdwrite wr (k + j) buf tot out"
      using fdwrite_skips True by (simp add: n_def)
    from j acc [OF n, of "k + j"] obtain m where m: "wr (k + j) n = Done m" "0 < m" "m \<le> n"
      by (cases "wr (k + j) n") auto
    then have "fdwrite wr (k + j) buf tot out =
        fdwrite wr (k + j + 1) buf (tot + m) (out @ read_block tot m buf)"
      using True by (subst fdwrite.simps) (simp add: n_def)
    moreover have "\<exists>k'. fdwrite wr (k + j + 1) buf (tot + m) (out @ read_block tot m buf) =
        Some (int (length buf), k', pre @ buf)"
    proof (rule less.hyps)
      show "length buf - (tot + m) < length buf - tot" using m True by simp
      show "tot + m \<le> length buf" using m True by (simp add: n_def)
      show "out @ read_block tot m buf = pre @ take (tot + m) buf"
        using less.prems by (simp add: read_block_def take_add)
    qed
    ultimately show ?thesis by (simp add: skip)
  qed
qed

text \<open>
  C12: \<^verbatim>\<open>fdwrite\<close> writes everything: if the descriptor keeps accepting at least one byte of what it is
  offered, after any number of \<^verbatim>\<open>EAGAIN\<close>s, then it returns the length of the buffer and the bytes
  written are the buffer, in order.
\<close>

theorem fdwrite_complete:
  assumes "\<And>k n. 0 < n \<Longrightarrow> case wr k n of Again \<Rightarrow> True | Failed \<Rightarrow> False | Done m \<Rightarrow> 0 < m \<and> m \<le> n"
    and "\<And>k n. 0 < n \<Longrightarrow> \<exists>j. wr (k + j) n \<noteq> Again"
  shows "\<exists>k'. fdwrite wr 0 buf 0 [] = Some (int (length buf), k', buf)"
  using fdwrite_all [OF assms, of 0 buf "[]" "[]" 0] by simp

definition demo_pipe :: "nat \<Rightarrow> nat \<Rightarrow> io" where
  "demo_pipe k n = (if even k then Again else Done (min 2 n))"

theorem fdwrite_complete_witness:
  "\<exists>k'. fdwrite demo_pipe 0 [1, 2, 3] 0 [] = Some (3, k', [1, 2, 3])"
proof -
  have "0 < n \<Longrightarrow> case demo_pipe k n of Again \<Rightarrow> True | Failed \<Rightarrow> False | Done m \<Rightarrow> 0 < m \<and> m \<le> n" for k n
    by (simp add: demo_pipe_def)
  moreover have "\<exists>j. demo_pipe (k + j) n \<noteq> Again" for k n
    by (rule exI [of _ "if even k then 1 else 0"]) (simp add: demo_pipe_def)
  ultimately show ?thesis using fdwrite_complete [of demo_pipe "[1, 2, 3]"] by simp
qed

end
