(* ===== verification/Task_Epoll.thy ===== *)
theory Task_Epoll
  imports Task_Fd
begin

text \<open>
  The Linux version of src/src/common/task/fd.c: \<^verbatim>\<open>fdwait\<close> registers the running task with an epoll
  descriptor, one round of \<^verbatim>\<open>fdtask\<close> waits for events and wakes the tasks they name and the sleepers whose
  time has come.  The answers of the kernel are arguments; the calls \<^verbatim>\<open>fdwait\<close> makes are recorded, and
  \<open>registered\<close> says what they do to the set of registrations.
\<close>

section \<open>Waiting for a descriptor\<close>

definition EEXIST :: int where
  "EEXIST = 17"

datatype epoll_call =
  Ep_add int "32 word" tptr
| Ep_del int
| Sys_dup int int
| Sys_close int

text \<open>
  The answers: the result of the first \<^verbatim>\<open>epoll_ctl\<close> and \<^verbatim>\<open>errno\<close> after it, the descriptor \<^verbatim>\<open>dup\<close> gives, the
  result of the second \<^verbatim>\<open>epoll_ctl\<close>.
\<close>

record epoll_answers =
  add_result :: int
  add_errno :: int
  dup_fd :: int
  add_again :: int

definition epoll_bits :: "char \<Rightarrow> 32 word" where
  "epoll_bits rw = (if rw = CHR ''r'' then 1 OR 2 else if rw = CHR ''w'' then 4 else 0)"

text \<open>The first call of \<^verbatim>\<open>fdwait\<close> or \<^verbatim>\<open>taskdelay\<close>; \<open>epfd\<close> is what \<^verbatim>\<open>epoll_create\<close> returns.\<close>

definition start_epoll :: "int \<Rightarrow> nat \<Rightarrow> tptr option \<Rightarrow> bool \<Rightarrow> libtask \<Rightarrow> libtask outcome" where
  "start_epoll epfd fn m ok s =
     (if startedfdtask s then Return s else if epfd < 0 then Abort else start_fdtask fn m ok s)"

text \<open>\<^verbatim>\<open>fdwait\<close> up to its switch: the calls, the registered descriptor and whether it is a duplicate.\<close>

definition epoll_fdwait ::
    "int \<Rightarrow> char \<Rightarrow> epoll_answers \<Rightarrow> libtask \<Rightarrow> (epoll_call list \<times> int \<times> bool \<times> libtask) outcome" where
  "epoll_fdwait fd rw a s =
     (case taskrunning s of
        None \<Rightarrow> Abort
      | Some t \<Rightarrow>
          let s1 = taskstate (''fdwait for '' @ (if rw = CHR ''r'' then ''read''
                     else if rw = CHR ''w'' then ''write'' else ''error'')) s;
              ev = epoll_bits rw
          in if add_result a < 0 \<or> add_errno a = EEXIST then
               (if add_again a = 0
                then Return ([Ep_add fd ev t, Sys_dup fd (dup_fd a), Ep_add (dup_fd a) ev t], dup_fd a, True, taskswitch s1)
                else Abort)
             else Return ([Ep_add fd ev t], fd, False, taskswitch s1))"

text \<open>What it does when it runs again.\<close>

definition epoll_fdwait_end :: "int \<Rightarrow> bool \<Rightarrow> epoll_call list" where
  "epoll_fdwait_end fd duped = Ep_del fd # (if duped then [Sys_close fd] else [])"

section \<open>A round of \<^verbatim>\<open>fdtask\<close>\<close>

definition fdtask_start :: "libtask \<Rightarrow> libtask" where
  "fdtask_start s = taskname ''fdtask'' (tasksystem s)"

text \<open>The answer of \<^verbatim>\<open>epoll_wait\<close>: the tasks its events name, \<^verbatim>\<open>EINTR\<close>, or another error.\<close>

datatype epoll_answer = Events "tptr list" | Interrupted | Wait_failed

definition fdtask_round ::
    "64 word \<Rightarrow> (int \<Rightarrow> epoll_answer) \<Rightarrow> 64 word \<Rightarrow> libtask \<Rightarrow> libtask outcome option" where
  "fdtask_round now answer later s =
     (let s1 = taskstate ''epoll'' s
      in case answer (poll_ms s1 now) of
           Interrupted \<Rightarrow> Some (Return s1)
         | Wait_failed \<Rightarrow> Some (Exit 0)
         | Events ts \<Rightarrow> map_option Return (wake_expired later (epoll_wake ts s1)))"

section \<open>The registrations\<close>

text \<open>
  What the kernel keeps: for each registered descriptor the events and the task.  Adding a descriptor that
  is registered fails and changes nothing; closing one removes it.
\<close>

type_synonym registrations = "int \<rightharpoonup> 32 word \<times> tptr"

fun registered :: "epoll_call \<Rightarrow> registrations \<Rightarrow> registrations" where
  "registered (Ep_add fd ev t) m = (if fd \<in> dom m then m else m(fd \<mapsto> (ev, t)))"
| "registered (Ep_del fd) m = m(fd := None)"
| "registered (Sys_dup fd fd') m = m"
| "registered (Sys_close fd) m = m(fd := None)"

text \<open>
  The documented answers, given \<^verbatim>\<open>errno\<close> before the call: \<^verbatim>\<open>EEXIST\<close> for a registered descriptor; success
  leaves \<^verbatim>\<open>errno\<close> alone; the duplicate is a descriptor not in use.
\<close>

definition kernel_answers :: "registrations \<Rightarrow> int \<Rightarrow> int \<Rightarrow> epoll_answers \<Rightarrow> bool" where
  "kernel_answers m fd e a \<longleftrightarrow>
     add_result a = (if fd \<in> dom m then -1 else 0) \<and> add_errno a = (if fd \<in> dom m then EEXIST else e) \<and>
     dup_fd a \<notin> insert fd (dom m) \<and> add_again a = 0"

text \<open>
  C11: Registrations are balanced, unless \<^verbatim>\<open>errno\<close> is stale.  Whoever waits for a descriptor, registered or
  not, is registered for it while it waits, under the descriptor or a duplicate, and when it runs again the
  registrations are what they were.  The exception: when \<^verbatim>\<open>errno\<close> holds \<^verbatim>\<open>EEXIST\<close> from an earlier call and
  the descriptor is not registered, the task is registered twice and the first registration stays behind.
\<close>

theorem epoll_registrations_balanced:
  assumes "taskrunning s = Some t" and "kernel_answers m fd e a"
  shows "\<exists>calls fd' duped s'. epoll_fdwait fd rw a s = Return (calls, fd', duped, s') \<and>
    (fold registered calls m) fd' = Some (epoll_bits rw, t) \<and>
    fold registered (calls @ epoll_fdwait_end fd' duped) m =
      (if e = EEXIST \<and> fd \<notin> dom m then m(fd \<mapsto> (epoll_bits rw, t)) else m)"
proof (cases "fd \<in> dom m")
  case True
  then have "m(dup_fd a := None) = m" using assms(2) by (auto simp: kernel_answers_def fun_eq_iff dom_def)
  with True assms show ?thesis
    by (auto simp: epoll_fdwait_def epoll_fdwait_end_def kernel_answers_def Let_def)
next
  case False
  then have f: "m fd = None" "m (dup_fd a) = None" "dup_fd a \<noteq> fd"
    using assms(2) by (auto simp: kernel_answers_def)
  show ?thesis
  proof (cases "e = EEXIST")
    case True
    with False assms f show ?thesis
      by (auto simp: epoll_fdwait_def epoll_fdwait_end_def kernel_answers_def Let_def fun_upd_idem)
  next
    case e: False
    with False assms f show ?thesis
      by (auto simp: epoll_fdwait_def epoll_fdwait_end_def kernel_answers_def Let_def fun_upd_idem)
  qed
qed

lemma epoll_registrations_balanced_witness:
  "\<exists>calls fd' duped s'. epoll_fdwait 5 CHR ''r'' \<lparr>add_result = 0, add_errno = 17, dup_fd = 6, add_again = 0\<rparr> two_tasks_running =
      Return (calls, fd', duped, s') \<and>
    fold registered (calls @ epoll_fdwait_end fd' duped) Map.empty = [5 \<mapsto> (3, 10)]"
proof -
  have "taskrunning two_tasks_running = Some 10" by (rule two_tasks_running_sleep(2))
  moreover have "kernel_answers Map.empty 5 EEXIST \<lparr>add_result = 0, add_errno = 17, dup_fd = 6, add_again = 0\<rparr>"
    by (simp add: kernel_answers_def EEXIST_def)
  moreover have "epoll_bits CHR ''r'' = 3" by (simp add: epoll_bits_def)
  ultimately show ?thesis
    using epoll_registrations_balanced [of two_tasks_running 10 Map.empty 5 EEXIST
        "\<lparr>add_result = 0, add_errno = 17, dup_fd = 6, add_again = 0\<rparr>" "CHR ''r''"] by fastforce
qed

section \<open>A round wakes the right tasks\<close>

lemma epoll_wake_inv:
  "sleep_inv s zs rq \<Longrightarrow> distinct ts \<Longrightarrow> set ts \<subseteq> set (live s) - set rq - set zs \<Longrightarrow> taskrunning s \<notin> Some ` set ts \<Longrightarrow>
   sleep_inv (epoll_wake ts s) zs (rq @ ts) \<and>
   (\<forall>u. alarmtime (heap (epoll_wake ts s) u) = alarmtime (heap s u)) \<and> taskrunning (epoll_wake ts s) = taskrunning s"
proof (induction ts arbitrary: s rq)
  case Nil
  then show ?case by simp
next
  case (Cons t ts)
  note i = sleep_invD [OF Cons.prems(1)]
  have t: "t \<in> set (live s)" "t \<notin> set rq" "taskrunning s \<noteq> Some t" "t \<notin> set zs" using Cons.prems by auto
  have "is_tasklist (heap s) (taskrunqueue s) rq" using i(1) by (simp add: sched_inv_defs)
  then have "is_tasklist (heap (taskready t s)) (sleeping s) zs"
    using taskready_other [of s rq "sleeping s" zs t] i(2,4) t(4) by (simp add: Int_commute)
  moreover have "sched_inv (taskready t s) (rq @ [t])" by (rule taskready_inv [OF i(1) t(1-3)])
  ultimately have "sleep_inv (taskready t s) zs (rq @ [t])"
    using i t by (auto simp: sleep_inv_def taskready_simps)
  from Cons.IH [OF this] Cons.prems show ?case by (auto simp: taskready_simps)
qed

lemma taskstate_alarm: "alarmtime (heap (taskstate m s) u) = alarmtime (heap s u)"
  by (simp add: taskstate_heap split: option.splits)

lemma taskstate_sleep:
  "sleep_inv s zs rq \<Longrightarrow> sleep_inv (taskstate m s) zs rq \<and> live (taskstate m s) = live s"
  unfolding sleep_inv_def
  by (simp add: taskstate_inv taskstate_simps taskstate_alarm live_def taskstate_list [where l = "sleeping s"])

text \<open>
  C10: A round of \<^verbatim>\<open>fdtask\<close> wakes whom it must.  From a consistent scheduler, when the kernel names distinct
  waiting tasks, the round returns and the scheduler stays consistent: the named tasks become ready, then the
  sleepers whose alarm has passed, in the order of their alarms, and the others go on sleeping.  Interrupted
  waits change nothing but the state text; other errors end the process with status 0.
\<close>

theorem fdtask_round_wakes:
  assumes "sleep_inv s zs rq"
  shows "(case answer (poll_ms (taskstate ''epoll'' s) now) of
      Events ts \<Rightarrow>
        distinct ts \<and> set ts \<subseteq> set (live s) - set rq - set zs \<and> taskrunning s \<notin> Some ` set ts \<longrightarrow>
        (\<exists>s'. fdtask_round now answer later s = Some (Return s') \<and>
           sleep_inv s' (filter (\<lambda>t. later < alarmtime (heap s t)) zs)
             (rq @ ts @ filter (\<lambda>t. alarmtime (heap s t) \<le> later) zs))
    | Interrupted \<Rightarrow> fdtask_round now answer later s = Some (Return (taskstate ''epoll'' s))
    | Wait_failed \<Rightarrow> fdtask_round now answer later s = Some (Exit 0))"
proof (cases "answer (poll_ms (taskstate ''epoll'' s) now)")
  case (Events ts)
  define s1 where "s1 = taskstate ''epoll'' s"
  have s1: "sleep_inv s1 zs rq" "\<And>u. alarmtime (heap s1 u) = alarmtime (heap s u)" "taskrunning s1 = taskrunning s" "live s1 = live s"
    using taskstate_sleep [OF assms, of "''epoll''"] by (simp_all add: s1_def taskstate_simps taskstate_alarm)
  show ?thesis
  proof (cases "distinct ts \<and> set ts \<subseteq> set (live s) - set rq - set zs \<and> taskrunning s \<notin> Some ` set ts")
    case True
    then have w: "sleep_inv (epoll_wake ts s1) zs (rq @ ts)" "\<And>u. alarmtime (heap (epoll_wake ts s1) u) = alarmtime (heap s u)"
      using epoll_wake_inv [OF s1(1), of ts] s1(2-4) by auto
    from wake_expired_inv [OF w(1), of later] sorted_take_drop_le [OF sleep_invD(6) [OF w(1)], of later] Events
    show ?thesis by (auto simp: fdtask_round_def w(2) s1_def [symmetric])
  next
    case False
    then show ?thesis by (simp only: Events epoll_answer.case) blast
  qed
qed (simp_all add: fdtask_round_def)

lemma fdtask_round_wakes_witness:
  "\<exists>s'. fdtask_round 0 (\<lambda>_. Events []) 5001000 sleeper_demo = Some (Return s') \<and> sleep_inv s' [] [20, 10]"
proof -
  obtain s where s: "taskdelay 5 1000 two_tasks_running = Some s" "sleep_inv s [10] [20]" "alarmtime (heap s 10) = 5001000"
    using taskdelay_inv [OF two_tasks_running_sleep, of 5 1000] by auto
  then have "sleeper_demo = s" by (simp add: sleeper_demo_def)
  with fdtask_round_wakes [OF s(2), where answer = "\<lambda>_. Events []" and now = 0 and later = 5001000] s(3) show ?thesis by simp
qed

end
