(* ===== verification/Stream.thy ===== *)
theory Stream
  imports Task_Fd
begin

text \<open>
  The record transport of src/src/common/proto/stream.c: \<^verbatim>\<open>TDB_fdreadn\<close> and \<^verbatim>\<open>TDB_fdwriten\<close> loop over the
  task library's \<^verbatim>\<open>fdread\<close> and \<^verbatim>\<open>fdwrite\<close>, which the XDR record layer calls to fill and flush its
  buffers.  As in Task_Fd the kernel is the argument that answers the \<open>k\<close>-th call; \<open>intr k\<close> tells
  whether \<^verbatim>\<open>errno\<close> was \<^verbatim>\<open>EINTR\<close> after call \<open>k\<close> failed.
\<close>

section \<open>The loops\<close>

text \<open>
  \<open>inp\<close> are the bytes the peer has sent, \<open>buf\<close> those read so far; the result is the C value, the next
  call, the buffer and the bytes still to be read.
\<close>

partial_function (option) TDB_fdreadn ::
    "(nat \<Rightarrow> nat \<Rightarrow> io) \<Rightarrow> (nat \<Rightarrow> bool) \<Rightarrow> nat \<Rightarrow> byte list \<Rightarrow> byte list \<Rightarrow> int \<Rightarrow> int \<Rightarrow>
     (int \<times> nat \<times> byte list \<times> byte list) option" where
  "TDB_fdreadn rd intr k inp buf len rc =
     (if 0 < len then
        case fdread (\<lambda>j. rd j (nat len)) k 0 of
          None \<Rightarrow> None
        | Some (r, k', nw) \<Rightarrow>
            if r < 0 then
              (if intr (k' - 1) then TDB_fdreadn rd intr k' inp buf len r
               else Some (-1, k', buf, inp))
            else if r = 0 then Some (-1, k', buf, inp)
            else TDB_fdreadn rd intr k' (drop (nat r) inp) (buf @ take (nat r) inp) (len - r) r
      else Some (rc, k, buf, inp))"

text \<open>\<open>buf\<close> is what is left of the caller's buffer, \<open>out\<close> the bytes the kernel has taken.\<close>

partial_function (option) TDB_fdwriten ::
    "(nat \<Rightarrow> nat \<Rightarrow> io) \<Rightarrow> (nat \<Rightarrow> bool) \<Rightarrow> nat \<Rightarrow> byte list \<Rightarrow> byte list \<Rightarrow> int \<Rightarrow>
     (int \<times> nat \<times> byte list) option" where
  "TDB_fdwriten wr intr k buf out rc =
     (if buf \<noteq> [] then
        case fdwrite wr k buf 0 out of
          None \<Rightarrow> None
        | Some (r, k', out') \<Rightarrow>
            if r \<le> 0 then
              (if r < 0 \<and> intr (k' - 1) then TDB_fdwriten wr intr k' buf out' 0
               else Some (-1, k', out'))
            else TDB_fdwriten wr intr k' (drop (nat r) buf) out' r
      else Some (rc, k, out))"

text \<open>
  A stream is the record of the RPC library for a descriptor; \<open>create\<close> is \<^verbatim>\<open>xdrrec_create\<close> with its two buffer
  sizes, for which 0 asks for the default.
\<close>

record 'x xdr_stream =
  xs_fd :: int
  xs_xdrs :: 'x

definition TDB_init_xdr_stream :: "bool \<Rightarrow> (int \<Rightarrow> nat \<Rightarrow> nat \<Rightarrow> 'x) \<Rightarrow> int \<Rightarrow> int \<times> 'x xdr_stream option" where
  "TDB_init_xdr_stream mem create fd =
     (if \<not> mem then (TDB_ERROR, None)
      else (TDB_SUCCESS, Some \<lparr>xs_fd = fd, xs_xdrs = create fd 0 0\<rparr>))"

section \<open>Reading\<close>

text \<open>
  How the kernel answers reads while the peer is sending: calls that offer room may be told to wait
  or be interrupted, but not for ever, and otherwise deliver at least one byte and no more than asked.
\<close>

definition delivering :: "(nat \<Rightarrow> nat \<Rightarrow> io) \<Rightarrow> (nat \<Rightarrow> bool) \<Rightarrow> bool" where
  "delivering rd intr \<longleftrightarrow>
     (\<forall>k n. 0 < n \<longrightarrow> (case rd k n of Again \<Rightarrow> True | Failed \<Rightarrow> intr k | Done m \<Rightarrow> 0 < m \<and> m \<le> n)) \<and>
     (\<forall>k n. 0 < n \<longrightarrow> (\<exists>j m. rd (k + j) n = Done m))"

lemma fdread_answers:
  assumes "rd (k + d) = Done m"
  shows "\<exists>r k' w. fdread rd k nw = Some (r, k', w) \<and> k < k' \<and> k' \<le> k + d + 1 \<and>
    (case rd (k' - 1) of Done n \<Rightarrow> r = int n | Failed \<Rightarrow> r = -1 | Again \<Rightarrow> False)"
  using assms
proof (induction d arbitrary: k nw)
  case 0
  then show ?case by (subst fdread.simps) simp
next
  case (Suc d)
  show ?case
  proof (cases "rd k")
    case Again
    from Suc.prems have "rd (k + 1 + d) = Done m" by simp
    from Suc.IH [OF this, of "nw + 1"] Again show ?thesis by (subst fdread.simps) fastforce
  qed (subst fdread.simps, simp)+
qed

lemma deliveringD:
  assumes "delivering rd intr" and "0 < n"
  shows "rd k n = Failed \<Longrightarrow> intr k" and "rd k n = Done m \<Longrightarrow> 0 < m \<and> m \<le> n"
    and "\<exists>j m. rd (k + j) n = Done m"
proof -
  have a: "case rd k n of Again \<Rightarrow> True | Failed \<Rightarrow> intr k | Done m \<Rightarrow> 0 < m \<and> m \<le> n"
    using assms by (simp add: delivering_def)
  show "intr k" if "rd k n = Failed" using a that by simp
  show "0 < m \<and> m \<le> n" if "rd k n = Done m" using a that by simp
  show "\<exists>j m. rd (k + j) n = Done m" using assms by (simp add: delivering_def)
qed

lemma fdreadn_fills:
  assumes del: "delivering rd intr"
  shows "0 \<le> len \<Longrightarrow> nat len \<le> length inp \<Longrightarrow>
    \<exists>rc' k'. TDB_fdreadn rd intr k inp buf len rc =
        Some (rc', k', buf @ take (nat len) inp, drop (nat len) inp) \<and>
      (0 < len \<longrightarrow> 0 < rc' \<and> rc' \<le> len) \<and> (len = 0 \<longrightarrow> rc' = rc)"
proof (induction "nat len" arbitrary: k inp buf len rc rule: less_induct)
  case less
  note outer = less.hyps
  show ?case
  proof (cases "0 < len")
    case False
    with less.prems show ?thesis by (subst TDB_fdreadn.simps) simp
  next
    case True
    define n where "n = nat len"
    have n: "0 < n" using True by (simp add: n_def)
    have "\<exists>rc' k'. TDB_fdreadn rd intr k inp buf len rc =
        Some (rc', k', buf @ take n inp, drop n inp) \<and> 0 < rc' \<and> rc' \<le> len"
      if "rd (k + d) n = Done m" for d k m rc
      using that
    proof (induction d arbitrary: k m rc rule: less_induct)
      case (less d)
      obtain r k' w where f: "fdread (\<lambda>j. rd j n) k 0 = Some (r, k', w)" and k': "k < k'" "k' \<le> k + d + 1"
        and a: "case rd (k' - 1) n of Done n \<Rightarrow> r = int n | Failed \<Rightarrow> r = -1 | Again \<Rightarrow> False"
        using fdread_answers [of "\<lambda>j. rd j n" k d m 0] less.prems by blast
      show ?case
      proof (cases "rd (k' - 1) n")
        case Again
        with a show ?thesis by simp
      next
        case Failed
        then have "intr (k' - 1)" "r = -1" using deliveringD(1) [OF del n] a by auto
        then have eq: "TDB_fdreadn rd intr k inp buf len rc = TDB_fdreadn rd intr k' inp buf len (-1)"
          using True f by (subst TDB_fdreadn.simps) (simp add: n_def)
        have ne: "k' - 1 \<noteq> k + d" using Failed less.prems by auto
        have le: "k' \<le> k + d" using ne k' by simp
        then have at: "rd (k' + (k + d - k')) n = Done m" using less.prems by simp
        have "k + d - k' < d" using k' le by linarith
        from less.IH [OF this at, of "-1"] show ?thesis by (simp add: eq)
      next
        case (Done m')
        then have m': "0 < m'" "m' \<le> n" "r = int m'" using deliveringD(2) [OF del n] a by auto
        then have eq: "TDB_fdreadn rd intr k inp buf len rc =
            TDB_fdreadn rd intr k' (drop m' inp) (buf @ take m' inp) (len - int m') (int m')"
          using True f by (subst TDB_fdreadn.simps) (simp add: n_def)
        have lt: "nat (len - int m') < nat len" using m' True by simp
        have p: "0 \<le> len - int m'" "nat (len - int m') \<le> length (drop m' inp)"
          using m' \<open>nat len \<le> length inp\<close> by (auto simp: n_def)
        have ml: "int m' \<le> len" using p by simp
        have nm: "nat (len - int m') = n - m'" by (simp add: n_def nat_diff_distrib')
        from outer [OF lt p, of k' "buf @ take m' inp" "int m'"] m' ml show ?thesis
          by (auto simp: eq nm take_add [symmetric])
      qed
    qed
    moreover obtain d m where "rd (k + d) n = Done m" using deliveringD(3) [OF del n] by blast
    ultimately show ?thesis using True by (simp add: n_def) 
  qed
qed

text \<open>
  While the peer keeps sending, \<^verbatim>\<open>TDB_fdreadn\<close> ends and fills exactly the \<open>len\<close> bytes it was asked
  for, in order and over any number of short reads, \<^verbatim>\<open>EAGAIN\<close>s and \<^verbatim>\<open>EINTR\<close>s; what it returns is a
  positive count of at most \<open>len\<close>.
\<close>

theorem fdreadn_fills_buffer:
  assumes "delivering rd intr" and "0 < len" and "nat len \<le> length inp"
  shows "\<exists>rc k'. TDB_fdreadn rd intr k inp [] len (-1) =
      Some (rc, k', take (nat len) inp, drop (nat len) inp) \<and> 0 < rc \<and> rc \<le> len"
  using fdreadn_fills [OF assms(1), of len inp k "[]" "-1"] assms(2,3) by auto

definition stuttering :: "nat \<Rightarrow> nat \<Rightarrow> io" where
  "stuttering k n = (if k mod 3 = 0 then Again else if k mod 3 = 1 then Failed else Done (min 2 n))"

lemma delivering_stuttering: "delivering stuttering (\<lambda>k. True)"
proof -
  have "\<exists>j m. stuttering (k + j) n = Done m" for k n
  proof -
    have "k + (2 + 2 * (k mod 3)) = 2 + 3 * (k div 3 + k mod 3)"
      using div_mult_mod_eq [of k 3] by (simp add: algebra_simps)
    then have m: "(k + (2 + 2 * (k mod 3))) mod 3 = 2" by (simp only: mod_mult_self2) simp
    have "stuttering (k + (2 + 2 * (k mod 3))) n = Done (min 2 n)"
      unfolding stuttering_def m by simp
    then show ?thesis by blast
  qed
  then show ?thesis by (auto simp: delivering_def stuttering_def)
qed

theorem fdreadn_fills_buffer_witness:
  "\<exists>rc k'. TDB_fdreadn stuttering (\<lambda>k. True) 0 [1, 2, 3, 4] [] 3 (-1) = Some (rc, k', [1, 2, 3], [4]) \<and>
     0 < rc \<and> rc \<le> 3"
  using fdreadn_fills_buffer [OF delivering_stuttering, of 3 "[1, 2, 3, 4]" 0] by (simp add: eval_nat_numeral)

text \<open>
  The value returned is the length of the last chunk, not of the whole read: five bytes that
  arrive as three and two are all in the buffer, and the record layer is told there are two.
\<close>

theorem fdreadn_returns_last_chunk:
  "TDB_fdreadn (\<lambda>k n. Done (min 3 n)) (\<lambda>k. False) 0 [1, 2, 3, 4, 5] [] 5 (-1) = Some (2, 2, [1, 2, 3, 4, 5], [])"
  by (subst TDB_fdreadn.simps, subst fdread.simps, simp, subst TDB_fdreadn.simps, subst fdread.simps, simp,
      subst TDB_fdreadn.simps, simp)

section \<open>Writing\<close>

text \<open>
  When the descriptor keeps accepting bytes, \<^verbatim>\<open>TDB_fdwriten\<close> hands the whole buffer to the kernel,
  behind what was written before, and returns its length; an empty buffer is reported as the error -1.
\<close>

theorem fdwriten_writes_all:
  assumes "\<And>k n. 0 < n \<Longrightarrow> case wr k n of Again \<Rightarrow> True | Failed \<Rightarrow> False | Done m \<Rightarrow> 0 < m \<and> m \<le> n"
    and "\<And>k n. 0 < n \<Longrightarrow> \<exists>j. wr (k + j) n \<noteq> Again"
  shows "\<exists>k'. TDB_fdwriten wr intr k buf out (-1) =
      Some (if buf = [] then -1 else int (length buf), k', out @ buf)"
proof (cases "buf = []")
  case True
  then show ?thesis by (subst TDB_fdwriten.simps) simp
next
  case False
  obtain k' where "fdwrite wr k buf 0 (out @ take 0 buf) = Some (int (length buf), k', out @ buf)"
    using fdwrite_all [OF assms, of 0 buf "out @ take 0 buf" out k] by auto
  then have "TDB_fdwriten wr intr k buf out (-1) =
      TDB_fdwriten wr intr k' [] (out @ buf) (int (length buf))"
    using False by (subst TDB_fdwriten.simps) simp
  also have "\<dots> = Some (int (length buf), k', out @ buf)" by (subst TDB_fdwriten.simps) simp
  finally show ?thesis using False by simp
qed

definition slow_pipe :: "nat \<Rightarrow> nat \<Rightarrow> io" where
  "slow_pipe k n = (if odd k then Again else Done 1)"

theorem fdwriten_writes_all_witness:
  "\<exists>k'. TDB_fdwriten slow_pipe (\<lambda>k. False) 0 [7, 8, 9] [6] (-1) = Some (3, k', [6, 7, 8, 9])"
proof -
  have "0 < n \<Longrightarrow> case slow_pipe k n of Again \<Rightarrow> True | Failed \<Rightarrow> False | Done m \<Rightarrow> 0 < m \<and> m \<le> n" for k n
    by (simp add: slow_pipe_def)
  moreover have "\<exists>j. slow_pipe (k + j) n \<noteq> Again" for k n
    by (rule exI [of _ "if odd k then 1 else 0"]) (simp add: slow_pipe_def)
  ultimately show ?thesis
    using fdwriten_writes_all [of slow_pipe "\<lambda>k. False" 0 "[7, 8, 9]" "[6]"] by simp
qed

text \<open>
  A write interrupted after a part of the buffer went out is repeated from its start: \<^verbatim>\<open>fdwrite\<close>
  forgets how much it had written, and \<^verbatim>\<open>TDB_fdwriten\<close> sends those bytes again.
\<close>

theorem fdwriten_repeats_after_interrupt:
  "TDB_fdwriten (\<lambda>k n. if k = 0 then Done 2 else if k = 1 then Failed else Done n) (\<lambda>k. True)
     0 [1, 2, 3] [] (-1) = Some (3, 3, [1, 2, 1, 2, 3])"
  by (subst TDB_fdwriten.simps, subst fdwrite.simps, simp add: read_block_def, subst fdwrite.simps, simp,
      subst TDB_fdwriten.simps, subst fdwrite.simps, simp add: read_block_def, subst fdwrite.simps, simp,
      subst TDB_fdwriten.simps, simp)

end
