(* ===== verification/Task_Print.thy ===== *)
theory Task_Print
  imports Tdb_Prelude
begin

text \<open>
  The bounded print library of src/src/common/task/print.c and the textual addresses of net.c.
  A buffer is a list of characters; \<^verbatim>\<open>dst\<close> and \<^verbatim>\<open>edst\<close> are positions in it.  The format interpreter
  \<open>vse\<close> is the pair of nested loops of \<^verbatim>\<open>vseprint\<close>; reading past the end of the format or
  of the arguments is the result \<open>None\<close>.
\<close>

section \<open>Padding and truncation\<close>

definition printstr :: "nat \<Rightarrow> nat \<Rightarrow> string \<Rightarrow> int \<Rightarrow> string \<Rightarrow> nat \<times> string" where
  "printstr dst edst s wd m =
     (let left = wd < 0;
          sz = nat (abs wd)
      in if dst \<ge> edst then (dst, m)
         else
           let n0 = (if length s < sz then sz else length s);
               n = (if n0 \<ge> edst - dst then edst - dst - 1 else n0);
               l = (if length s > n then n else length s);
               out = (if left then take l s @ replicate (n - l) (CHR '' '')
                      else replicate (n - l) (CHR '' '') @ take l s)
           in (dst + n, write_block dst out m))"

section \<open>Numbers\<close>

definition digit_char :: "nat \<Rightarrow> char" where
  "digit_char d = ''0123456789abcdef'' ! d"

text \<open>The \<^verbatim>\<open>while(luv)\<close> loop, most significant digit first.\<close>

function digits_of :: "nat \<Rightarrow> nat \<Rightarrow> string" where
  "digits_of b n = (if n = 0 \<or> b < 2 then [] else digits_of b (n div b) @ [digit_char (n mod b)])"
  by auto
termination by (relation "measure snd") auto

declare digits_of.simps [simp del]

text \<open>The value \<^verbatim>\<open>va_arg\<close> yields for the flags: \<open>lng\<close> counts the letters l (up to 2).\<close>

definition fetch_num :: "nat \<Rightarrow> bool \<Rightarrow> 64 word \<Rightarrow> 64 word" where
  "fetch_num lng uns v =
     (if lng \<ge> 1 then v
      else if uns then ucast (ucast v :: 32 word)
      else scast (ucast v :: 32 word))"

definition num_text :: "nat \<Rightarrow> bool \<Rightarrow> 64 word \<Rightarrow> string" where
  "num_text base uns luv0 =
     (let luv = (if \<not> uns \<and> sint luv0 < 0 then - luv0 else luv0);
          zero = (luv = 0);
          ds = digits_of base (unat luv);
          ds1 = (if base = 16 then ''0x'' @ ds else ds)
      in if base = 8 \<or> zero then CHR ''0'' # ds1 else ds1)"

section \<open>The format interpreter\<close>

datatype parg = Num "64 word" | Chr char | Str string

text \<open>The outer loop on text without directives.\<close>

fun copy_lit :: "nat \<Rightarrow> string \<Rightarrow> nat \<Rightarrow> string \<Rightarrow> nat \<times> string" where
  "copy_lit e [] w m = (w, m)"
| "copy_lit e (c # cs) w m = (if w + 1 < e then copy_lit e cs (w + 1) (m[w := c]) else (w, m))"

definition digit_val :: "char \<Rightarrow> nat" where
  "digit_val c = of_char c - of_char (CHR ''0'')"

definition is_dec :: "char \<Rightarrow> bool" where
  "is_dec c \<longleftrightarrow> of_char (CHR ''0'') \<le> (of_char c :: nat) \<and> (of_char c :: nat) \<le> of_char (CHR ''9'')"

text \<open>The characters of a directive, as the inner \<^verbatim>\<open>switch\<close> distinguishes them.\<close>

datatype spec = Minus | Digit nat | Long | Unsigned | Verb_num nat | Verb_c | Verb_s | Verb_r | Bad

definition spec_of :: "char \<Rightarrow> spec" where
  "spec_of c =
     (if c = CHR ''-'' then Minus
      else if is_dec c then Digit (digit_val c)
      else if c = CHR ''l'' then Long
      else if c = CHR ''u'' then Unsigned
      else if c = CHR ''d'' then Verb_num 10
      else if c = CHR ''o'' then Verb_num 8
      else if c = CHR ''p'' \<or> c = CHR ''x'' then Verb_num 16
      else if c = CHR ''c'' then Verb_c
      else if c = CHR ''s'' then Verb_s
      else if c = CHR ''r'' then Verb_r
      else Bad)"

text \<open>The flags collected inside a directive: letters l, u, the width, the minus sign.\<close>

record flags =
  lng :: nat
  uns :: bool
  width :: int
  neg :: bool

definition no_flags :: flags where
  "no_flags = \<lparr>lng = 0, uns = False, width = 0, neg = False\<rparr>"

text \<open>The text a verb prints, and the arguments it leaves; \<open>None\<close> when the argument is missing.\<close>

definition verb_text :: "string \<Rightarrow> spec \<Rightarrow> flags \<Rightarrow> parg list \<Rightarrow> (string \<times> parg list) option" where
  "verb_text err sp fl args =
     (case sp of
        Verb_num base \<Rightarrow>
          (case args of
             Num v # args' \<Rightarrow> Some (num_text base (uns fl) (fetch_num (lng fl) (uns fl) v), args')
           | _ \<Rightarrow> None)
      | Verb_c \<Rightarrow>
          (case args of
             Chr ch # args' \<Rightarrow> Some (if ch = CHR 0x00 then [] else [ch], args')
           | _ \<Rightarrow> None)
      | Verb_s \<Rightarrow> (case args of Str s # args' \<Rightarrow> Some (s, args') | _ \<Rightarrow> None)
      | Verb_r \<Rightarrow> Some (err, args)
      | _ \<Rightarrow> None)"

text \<open>
  The nested loops: \<open>None\<close> is the head of the outer loop, \<open>Some fl\<close> the inner loop.  \<open>err\<close> is the
  text of \<^verbatim>\<open>strerror(errno)\<close>.  An unknown verb replaces the rest of the format.
\<close>

primrec vse ::
    "string \<Rightarrow> flags option \<Rightarrow> string \<Rightarrow> nat \<Rightarrow> parg list \<Rightarrow> nat \<Rightarrow> string \<Rightarrow> (nat \<times> string) option"
where
  "vse [] st err e args w m = (case st of None \<Rightarrow> Some (w, m) | Some fl \<Rightarrow> None)"
| "vse (c # cs) st err e args w m =
     (case st of
        None \<Rightarrow>
          if \<not> w + 1 < e then Some (w, m)
          else if c = CHR ''%'' then vse cs (Some no_flags) err e args w m
          else vse cs None err e args (w + 1) (m[w := c])
      | Some fl \<Rightarrow>
          (case spec_of c of
             Minus \<Rightarrow> vse cs (Some (fl\<lparr>neg := True\<rparr>)) err e args w m
           | Digit d \<Rightarrow> vse cs (Some (fl\<lparr>width := width fl * 10 + int d\<rparr>)) err e args w m
           | Long \<Rightarrow> vse cs (Some (fl\<lparr>lng := (if lng fl \<ge> 1 then 2 else 1)\<rparr>)) err e args w m
           | Unsigned \<Rightarrow> vse cs (Some (fl\<lparr>uns := True\<rparr>)) err e args w m
           | Bad \<Rightarrow> Some (copy_lit e ''*verb*'' w m)
           | sp \<Rightarrow>
               (case verb_text err sp fl args of
                  None \<Rightarrow> None
                | Some (s, args') \<Rightarrow>
                    (case printstr w e s (if neg fl then - width fl else width fl) m of
                       (w', m') \<Rightarrow> vse cs None err e args' w' m'))))"

definition vseprint ::
    "string \<Rightarrow> nat \<Rightarrow> string \<Rightarrow> parg list \<Rightarrow> string \<Rightarrow> string outcome option" where
  "vseprint err e fmt args m =
     (case vse fmt None err e args 0 m of
        None \<Rightarrow> None
      | Some (w, m') \<Rightarrow> Some (if w < e then Return (m'[w := CHR 0x00]) else Abort))"

definition snprint :: "string \<Rightarrow> nat \<Rightarrow> string \<Rightarrow> parg list \<Rightarrow> string \<Rightarrow> string outcome option" where
  "snprint err n fmt args m = vseprint err n fmt args m"

text \<open>The C string a buffer holds; \<^verbatim>\<open>vfprint\<close> writes it from a buffer of 256 characters.\<close>

definition c_string :: "string \<Rightarrow> string" where
  "c_string m = takeWhile (\<lambda>c. c \<noteq> CHR 0x00) m"

definition vfprint :: "string \<Rightarrow> string \<Rightarrow> parg list \<Rightarrow> string outcome option" where
  "vfprint err fmt args =
     (case vseprint err 256 fmt args (replicate 256 (CHR 0x00)) of
        None \<Rightarrow> None
      | Some (Return m) \<Rightarrow> Some (Return (c_string m))
      | Some Abort \<Rightarrow> Some Abort
      | Some (Exit v) \<Rightarrow> Some (Exit v))"

definition strecpy :: "nat \<Rightarrow> string \<Rightarrow> string \<Rightarrow> string" where
  "strecpy e src m = (case printstr 0 e src 0 m of (w, m') \<Rightarrow> m'[w := CHR 0x00])"

section \<open>Textual IPv4 addresses (net.c)\<close>

definition is_space :: "char \<Rightarrow> bool" where
  "is_space c \<longleftrightarrow> c = CHR '' '' \<or> (9 \<le> (of_char c :: nat) \<and> (of_char c :: nat) \<le> 13)"

definition digit_in :: "nat \<Rightarrow> char \<Rightarrow> nat option" where
  "digit_in base c =
     (let k = (of_char c :: nat);
          v = (if 48 \<le> k \<and> k \<le> 57 then k - 48
               else if 97 \<le> k \<and> k \<le> 122 then k - 87
               else if 65 \<le> k \<and> k \<le> 90 then k - 55 else 36)
      in if v < base then Some v else None)"

fun take_digits :: "nat \<Rightarrow> nat \<Rightarrow> string \<Rightarrow> nat \<times> string" where
  "take_digits base acc [] = (acc, [])"
| "take_digits base acc (c # cs) =
     (case digit_in base c of None \<Rightarrow> (acc, c # cs) | Some d \<Rightarrow> take_digits base (acc * base + d) cs)"

text \<open>
  \<^verbatim>\<open>strtoul(p, &p, 0)\<close>: value (saturated, negated modulo \<open>2^64\<close> after a minus sign) and the rest;
  the rest is the whole string when there are no digits.
\<close>

definition strtoul0 :: "string \<Rightarrow> nat \<times> string" where
  "strtoul0 p =
     (let q = dropWhile is_space p;
          neg = (q \<noteq> [] \<and> hd q = CHR ''-'');
          q1 = (if q \<noteq> [] \<and> (hd q = CHR ''-'' \<or> hd q = CHR ''+'') then tl q else q);
          hex = (length q1 \<ge> 3 \<and> hd q1 = CHR ''0'' \<and> q1 ! 1 \<in> {CHR ''x'', CHR ''X''} \<and>
                 digit_in 16 (q1 ! 2) \<noteq> None);
          base = (if hex then 16 else if q1 \<noteq> [] \<and> hd q1 = CHR ''0'' then 8 else 10);
          q2 = (if hex then drop 2 q1 else q1);
          (v, rest) = take_digits base 0 q2
      in if rest = q2 then (0, p)
         else (if v \<ge> 2 ^ 64 then 2 ^ 64 - 1 else if neg then (2 ^ 64 - v) mod 2 ^ 64 else v, rest))"

text \<open>\<^verbatim>\<open>int x = strtoul(...)\<close>: the low 32 bits, signed.\<close>

definition to_int32 :: "nat \<Rightarrow> int" where
  "to_int32 v = sint (word_of_nat v :: 32 word)"

text \<open>The loop of \<^verbatim>\<open>parseip\<close>: at most four numbers; \<open>addr\<close> starts with indeterminate bytes.\<close>

function parse_octets :: "nat \<Rightarrow> string \<Rightarrow> byte list \<Rightarrow> (nat \<times> byte list) option" where
  "parse_octets i p addr =
     (if i < 4 \<and> p \<noteq> [] then
        (let (v, p1) = strtoul0 p; x = to_int32 v
         in if x < 0 \<or> x \<ge> 256 then None
            else if p1 \<noteq> [] \<and> hd p1 \<noteq> CHR ''.'' then None
            else parse_octets (i + 1) (if p1 \<noteq> [] then tl p1 else p1)
                   (addr[i := word_of_int x]))
      else Some (i, addr))"
  by auto
termination by (relation "measure (\<lambda>(i, p, addr). 4 - i)") auto

declare parse_octets.simps [simp del]

definition ip_class :: "byte list \<Rightarrow> nat" where
  "ip_class addr = unat (drop_bit 6 (addr ! 0))"

definition parseip :: "string \<Rightarrow> byte list \<Rightarrow> byte list option" where
  "parseip name junk =
     (case parse_octets 0 name junk of
        None \<Rightarrow> None
      | Some (i, a) \<Rightarrow>
          if ip_class a \<le> 1 then
            (if i = 3 then Some [a ! 0, 0, a ! 1, a ! 2]
             else if i = 2 then Some [a ! 0, 0, 0, a ! 1]
             else if i \<noteq> 4 then None else Some a)
          else if ip_class a = 2 then
            (if i = 3 then Some [a ! 0, a ! 1, 0, a ! 2] else if i \<noteq> 4 then None else Some a)
          else Some a)"

text \<open>What \<^verbatim>\<open>netaccept\<close> prints for the address of its peer.\<close>

definition server_text :: "byte list \<Rightarrow> string \<Rightarrow> string outcome option" where
  "server_text ip m =
     snprint [] 16 ''%d.%d.%d.%d''
       [Num (ucast (ip ! 0)), Num (ucast (ip ! 1)), Num (ucast (ip ! 2)), Num (ucast (ip ! 3))] m"

text \<open>\<^verbatim>\<open>netlookup\<close>: the resolver is asked (\<open>resolve\<close>) only for names that are not addresses.\<close>

definition netlookup :: "(string \<Rightarrow> byte list option) \<Rightarrow> string \<Rightarrow> byte list \<Rightarrow> byte list option" where
  "netlookup resolve name junk =
     (case parseip name junk of Some ip \<Rightarrow> Some ip | None \<Rightarrow> resolve name)"

section \<open>Output stays in the buffer\<close>

lemma list_update_write_block: "w < length m \<Longrightarrow> m[w := c] = write_block w [c] m"
  by (simp add: write_block_def upd_conv_take_nth_drop)

lemma write_block_append:
  assumes "w + length t + length u \<le> length m"
  shows "write_block (w + length t) u (write_block w t m) = write_block w (t @ u) m"
  using assms by (cases t) (auto simp: write_block_def add.assoc add.commute min_def ac_simps)

lemma write_block_snoc:
  assumes "w + length t < length m"
  shows "(write_block w t m)[w + length t := c] = write_block w (t @ [c]) m"
proof -
  have "w + length t < length (write_block w t m)" using assms by (simp add: mem_simps)
  then have "(write_block w t m)[w + length t := c] = write_block (w + length t) [c] (write_block w t m)"
    by (rule list_update_write_block)
  also have "\<dots> = write_block w (t @ [c]) m" using assms by (intro write_block_append) simp
  finally show ?thesis .
qed

text \<open>What \<^verbatim>\<open>printstr\<close> prints when there is room.\<close>

definition pad_text :: "int \<Rightarrow> string \<Rightarrow> string" where
  "pad_text wd s =
     (if wd < 0 then s @ replicate (nat (- wd) - length s) (CHR '' '')
      else replicate (nat wd - length s) (CHR '' '') @ s)"

lemma printstr_fits:
  assumes "w + length (pad_text wd s) < e"
  shows "printstr w e s wd m = (w + length (pad_text wd s), write_block w (pad_text wd s) m)"
proof (cases "wd < 0")
  case True
  then show ?thesis using assms
    by (cases "length s < nat (- wd)") (auto simp: printstr_def pad_text_def Let_def)
next
  case False
  then show ?thesis using assms
    by (cases "length s < nat wd") (auto simp: printstr_def pad_text_def Let_def)
qed

lemma printstr_bounded:
  assumes "w < e"
  obtains out where "printstr w e s wd m = (w + length out, write_block w out m)"
    and "w + length out < e"
proof -
  define sz where "sz = nat (abs wd)"
  define n0 where "n0 = (if length s < sz then sz else length s)"
  define n where "n = (if n0 \<ge> e - w then e - w - 1 else n0)"
  define l where "l = (if length s > n then n else length s)"
  define out where "out = (if wd < 0 then take l s @ replicate (n - l) (CHR '' '')
                           else replicate (n - l) (CHR '' '') @ take l s)"
  have ln: "l \<le> n" "l \<le> length s" unfolding l_def by auto
  then have len: "length out = n" unfolding out_def by auto
  have "n < e - w" using assms unfolding n_def by auto
  moreover have "printstr w e s wd m = (w + n, write_block w out m)"
    using assms by (simp add: printstr_def Let_def sz_def n0_def n_def l_def out_def cong: if_cong)
  ultimately show ?thesis using that [of out] len by simp
qed

text \<open>Both loops only write a block that starts at \<open>w\<close> and leaves room for the NUL.\<close>

definition wrote :: "nat \<Rightarrow> nat \<Rightarrow> string \<Rightarrow> nat \<times> string \<Rightarrow> bool" where
  "wrote w e m r \<longleftrightarrow> (\<exists>out. r = (w + length out, write_block w out m) \<and> w + length out < e)"

lemma wrote_refl: "w < e \<Longrightarrow> e \<le> length m \<Longrightarrow> wrote w e m (w, m)"
  unfolding wrote_def by (rule exI [of _ "[]"]) (simp add: mem_simps)

lemma wrote_step:
  assumes "w + length t < e" and "e \<le> length m" and "wrote (w + length t) e (write_block w t m) r"
  shows "wrote w e m r"
proof -
  from assms(3) obtain out where
    r: "r = (w + length t + length out, write_block (w + length t) out (write_block w t m))"
    and lt: "w + length t + length out < e"
    unfolding wrote_def by auto
  with assms have "r = (w + length (t @ out), write_block w (t @ out) m)"
    by (simp add: write_block_append)
  with lt show ?thesis unfolding wrote_def by (intro exI [of _ "t @ out"]) simp
qed

lemma wrote_char:
  assumes "w + 1 < e" and "e \<le> length m" and "wrote (w + 1) e (m[w := c]) r"
  shows "wrote w e m r"
  using wrote_step [of w "[c]" e m r] assms by (simp add: list_update_write_block)

lemma wrote_copy_lit:
  "w < e \<Longrightarrow> e \<le> length m \<Longrightarrow> wrote w e m (copy_lit e cs w m)"
proof (induction cs arbitrary: w m)
  case Nil
  then show ?case by (simp add: wrote_refl)
next
  case (Cons c cs)
  show ?case
  proof (cases "w + 1 < e")
    case True
    with Cons have "wrote (w + 1) e (m[w := c]) (copy_lit e cs (w + 1) (m[w := c]))" by simp
    with True Cons.prems have "wrote w e m (copy_lit e cs (w + 1) (m[w := c]))"
      by (metis wrote_char)
    with True show ?thesis by simp
  qed (use Cons.prems in \<open>simp add: wrote_refl\<close>)
qed

lemma wrote_vse:
  "vse fmt st err e args w m = Some r \<Longrightarrow> w < e \<Longrightarrow> e \<le> length m \<Longrightarrow> wrote w e m r"
proof (induction fmt arbitrary: st args w m)
  case Nil
  then show ?case by (auto simp: wrote_refl split: option.splits)
next
  case (Cons c cs)
  note prems = Cons.prems
  show ?case
  proof (cases st)
    case None
    show ?thesis
    proof (cases "w + 1 < e")
      case True
      show ?thesis
      proof (cases "c = CHR ''%''")
        case True
        with prems \<open>w + 1 < e\<close> None Cons.IH show ?thesis by simp
      next
        case False
        with prems True None have "vse cs None err e args (w + 1) (m[w := c]) = Some r" by simp
        then have "wrote (w + 1) e (m[w := c]) r" using prems True by (intro Cons.IH) auto
        then show ?thesis using True prems by (metis wrote_char)
      qed
    next
      case False
      with prems None show ?thesis by (auto simp: wrote_refl)
    qed
  next
    case (Some fl)
    have verb: "wrote w e m r"
      if eq: "(case verb_text err sp fl args of None \<Rightarrow> None
               | Some (s, args') \<Rightarrow> (case printstr w e s wd m of
                      (w', m') \<Rightarrow> vse cs None err e args' w' m')) = Some r" for sp wd
    proof -
      from eq obtain s args' where vt: "verb_text err sp fl args = Some (s, args')"
        by (auto split: option.splits prod.splits)
      obtain out where ps: "printstr w e s wd m = (w + length out, write_block w out m)"
        and lt: "w + length out < e"
        using prems by (metis printstr_bounded)
      from eq vt ps have "vse cs None err e args' (w + length out) (write_block w out m) = Some r" by simp
      then have "wrote (w + length out) e (write_block w out m) r"
        using lt prems by (intro Cons.IH) (auto simp: mem_simps)
      then show ?thesis using lt prems by (metis wrote_step)
    qed
    show ?thesis
    proof (cases "spec_of c")
      case Bad
      with prems Some show ?thesis using wrote_copy_lit [of w e m "''*verb*''"] by auto
    qed (use prems Some verb Cons.IH in \<open>auto split del: if_split\<close>)
  qed
qed

text \<open>
  C13: \<^verbatim>\<open>vseprint\<close> never writes outside its buffer and never fails its assertion: whatever the format and
  the arguments, when it does not run past their end, it returns with a NUL below \<open>e\<close>, with every
  character from \<open>e\<close> on as it was.
\<close>

theorem vseprint_within_buffer:
  assumes "0 < e" and "e \<le> length m" and "vseprint err e fmt args m = Some r"
  shows "\<exists>m' k. r = Return m' \<and> length m' = length m \<and> drop e m' = drop e m \<and>
                k < e \<and> m' ! k = CHR 0x00"
proof -
  from assms(3) obtain w m1 where v: "vse fmt None err e args 0 m = Some (w, m1)"
    and r: "r = (if w < e then Return (m1[w := CHR 0x00]) else Abort)"
    by (auto simp: vseprint_def split: option.splits)
  from wrote_vse [OF v assms(1,2)] obtain out
    where w: "w = length out" and m1: "m1 = write_block 0 out m" and lt: "length out < e"
    by (auto simp: wrote_def)
  have len: "length m1 = length m" using m1 lt assms by (simp add: mem_simps)
  have "drop e (m1[w := CHR 0x00]) = drop e m"
    using w m1 lt assms by (simp add: write_block_def)
  moreover have "m1[w := CHR 0x00] ! w = CHR 0x00"
    using w lt len assms by simp
  ultimately show ?thesis using r w lt len by (intro exI [of _ "m1[w := CHR 0x00]"] exI [of _ w]) simp
qed

lemma vseprint_within_buffer_witness:
  "\<exists>m' k. vseprint [] 4 ''%s!'' [Str ''tomato''] ''------'' = Some (Return m') \<and>
          length m' = 6 \<and> drop 4 m' = ''--'' \<and> k < 4 \<and> m' ! k = CHR 0x00"
proof -
  have v: "vseprint [] 4 ''%s!'' [Str ''tomato''] ''------'' =
        Some (Return (''tom'' @ [CHR 0x00] @ ''--''))"
    by code_simp
  from vseprint_within_buffer [OF _ _ v] show ?thesis by (simp add: v)
qed

section \<open>What is printed\<close>

text \<open>The text of a format without a buffer; \<^verbatim>\<open>*verb*\<close> ends it.\<close>

primrec render :: "string \<Rightarrow> flags option \<Rightarrow> string \<Rightarrow> parg list \<Rightarrow> string option" where
  "render [] st err args = (case st of None \<Rightarrow> Some [] | Some fl \<Rightarrow> None)"
| "render (c # cs) st err args =
     (case st of
        None \<Rightarrow>
          if c = CHR ''%'' then render cs (Some no_flags) err args
          else map_option (Cons c) (render cs None err args)
      | Some fl \<Rightarrow>
          (case spec_of c of
             Minus \<Rightarrow> render cs (Some (fl\<lparr>neg := True\<rparr>)) err args
           | Digit d \<Rightarrow> render cs (Some (fl\<lparr>width := width fl * 10 + int d\<rparr>)) err args
           | Long \<Rightarrow> render cs (Some (fl\<lparr>lng := (if lng fl \<ge> 1 then 2 else 1)\<rparr>)) err args
           | Unsigned \<Rightarrow> render cs (Some (fl\<lparr>uns := True\<rparr>)) err args
           | Bad \<Rightarrow> Some ''*verb*''
           | sp \<Rightarrow>
               (case verb_text err sp fl args of
                  None \<Rightarrow> None
                | Some (s, args') \<Rightarrow>
                    map_option ((@) (pad_text (if neg fl then - width fl else width fl) s))
                      (render cs None err args'))))"

lemma copy_lit_fits:
  "w + length cs < e \<Longrightarrow> e \<le> length m \<Longrightarrow>
   copy_lit e cs w m = (w + length cs, write_block w cs m)"
proof (induction cs arbitrary: w m)
  case Nil
  then show ?case by (simp add: mem_simps)
next
  case (Cons c cs)
  then have "copy_lit e cs (w + 1) (write_block w [c] m) =
      (w + 1 + length cs, write_block (w + 1) cs (write_block w [c] m))"
    by (intro Cons.IH) (auto simp: mem_simps)
  with Cons.prems show ?case
    using write_block_append [of w "[c]" cs m] by (simp add: list_update_write_block)
qed

text \<open>Formats and arguments that do not overflow the buffer print their text in full.\<close>

lemma vse_renders:
  "render fmt st err args = Some t \<Longrightarrow> w + length t < e \<Longrightarrow> e \<le> length m \<Longrightarrow>
   vse fmt st err e args w m = Some (w + length t, write_block w t m)"
proof (induction fmt arbitrary: st args w m t)
  case Nil
  then show ?case by (auto simp: mem_simps split: option.splits)
next
  case (Cons c cs)
  note prems = Cons.prems
  show ?case
  proof (cases st)
    case None
    show ?thesis
    proof (cases "w + 1 < e")
      case room: True
      show ?thesis
      proof (cases "c = CHR ''%''")
        case True
        with prems room None Cons.IH show ?thesis by simp
      next
        case False
        with prems None obtain u where u: "render cs None err args = Some u" and t: "t = c # u" by auto
        with prems have "vse cs None err e args (w + 1) (write_block w [c] m) =
            Some (w + 1 + length u, write_block (w + 1) u (write_block w [c] m))"
          by (intro Cons.IH) (auto simp: mem_simps)
        then show ?thesis using prems None False room t write_block_append [of w "[c]" u m]
          by (simp add: list_update_write_block)
      qed
    next
      case False
      with prems have "t = []" by (cases t) auto
      with False prems None show ?thesis by (simp add: mem_simps)
    qed
  next
    case (Some fl)
    have verb: "(case verb_text err sp fl args of None \<Rightarrow> None
               | Some (s, args') \<Rightarrow> (case printstr w e s wd m of
                      (w', m') \<Rightarrow> vse cs None err e args' w' m'))
          = Some (w + length t, write_block w t m)"
      if eq: "(case verb_text err sp fl args of None \<Rightarrow> None
               | Some (s, args') \<Rightarrow> map_option ((@) (pad_text wd s)) (render cs None err args')) = Some t"
      for sp wd
    proof -
      from eq obtain s args' u where vt: "verb_text err sp fl args = Some (s, args')"
        and u: "render cs None err args' = Some u" and t: "t = pad_text wd s @ u"
        by (auto split: option.splits prod.splits)
      have ps: "printstr w e s wd m =
          (w + length (pad_text wd s), write_block w (pad_text wd s) m)"
        using prems t by (intro printstr_fits) simp
      have "vse cs None err e args' (w + length (pad_text wd s)) (write_block w (pad_text wd s) m) =
          Some (w + length (pad_text wd s) + length u,
                write_block (w + length (pad_text wd s)) u (write_block w (pad_text wd s) m))"
        using prems t u by (intro Cons.IH) (auto simp: mem_simps)
      then show ?thesis using vt ps t prems by (simp add: write_block_append)
    qed
    show ?thesis
    proof (cases "spec_of c")
      case Bad
      with prems Some show ?thesis using copy_lit_fits [of w "''*verb*''" e m] by auto
    qed (use prems Some verb Cons.IH in \<open>auto split del: if_split\<close>)
  qed
qed

lemma vseprint_prints_text:
  assumes "render fmt None err args = Some t" and "length t < e" and "e \<le> length m"
  shows "vseprint err e fmt args m = Some (Return (write_block 0 (t @ [CHR 0x00]) m))"
  using vse_renders [OF assms(1), of 0 e m] assms write_block_snoc [of 0 t m "CHR 0x00"]
  by (simp add: vseprint_def)

text \<open>
  C14: A format whose text fits is printed in full: the buffer then holds exactly the rendered text
  and a NUL, and nothing else of it changed.
\<close>

theorem vseprint_prints_rendering:
  assumes "render fmt None err args = Some t" and "length t < e" and "e \<le> length m"
  shows "vseprint err e fmt args m = Some (Return (write_block 0 (t @ [CHR 0x00]) m))"
  using assms by (rule vseprint_prints_text)

lemma vseprint_prints_rendering_witness:
  "vseprint [] 16 ''%d.%-3s|'' [Num 207, Str ''ok''] (replicate 16 (CHR 0x2A)) =
     Some (Return (write_block 0 (''207.ok |'' @ [CHR 0x00]) (replicate 16 (CHR 0x2A))))"
  by (rule vseprint_prints_rendering) code_simp+

section \<open>Numbers read back\<close>

lemma digit_char_in: "d < b \<Longrightarrow> b \<le> 16 \<Longrightarrow> digit_in b (digit_char d) = Some d"
proof -
  assume db: "d < b" "b \<le> 16"
  then have "d \<in> {0, 1, 2, 3, 4, 5, 6, 7, 8, 9, 10, 11, 12, 13, 14, 15::nat}" by (simp; arith)
  then show ?thesis using db by (auto simp: digit_in_def digit_char_def Let_def)
qed

lemma take_digits_digits_of:
  "2 \<le> b \<Longrightarrow> b \<le> 16 \<Longrightarrow>
   take_digits b acc (digits_of b n @ r) = take_digits b (acc * b ^ length (digits_of b n) + n) r"
proof (induction b n arbitrary: r rule: digits_of.induct)
  case (1 b n)
  show ?case
  proof (cases "n = 0")
    case True
    then show ?thesis by (simp add: digits_of.simps)
  next
    case False
    have d: "digits_of b n = digits_of b (n div b) @ [digit_char (n mod b)]"
      using False 1(2) by (subst digits_of.simps) simp
    have "n mod b < b" using 1(2) by simp
    then have di: "digit_in b (digit_char (n mod b)) = Some (n mod b)" using 1(3) by (rule digit_char_in)
    have "take_digits b acc (digits_of b n @ r) =
        take_digits b acc (digits_of b (n div b) @ digit_char (n mod b) # r)" by (simp add: d)
    also have "\<dots> = take_digits b (acc * b ^ length (digits_of b (n div b)) + n div b) (digit_char (n mod b) # r)"
      using 1 False by simp
    also have "\<dots> = take_digits b ((acc * b ^ length (digits_of b (n div b)) + n div b) * b + n mod b) r"
      using di by simp
    also have "(acc * b ^ length (digits_of b (n div b)) + n div b) * b + n mod b =
        acc * b ^ length (digits_of b n) + n"
      by (simp add: d algebra_simps)
    finally show ?thesis .
  qed
qed

lemma hd_digits_of:
  "2 \<le> b \<Longrightarrow> 0 < n \<Longrightarrow> \<exists>d ds. digits_of b n = digit_char d # ds \<and> 0 < d \<and> d < b"
proof (induction b n rule: digits_of.induct)
  case (1 b n)
  have d: "digits_of b n = digits_of b (n div b) @ [digit_char (n mod b)]"
    using 1 by (subst digits_of.simps) simp
  show ?case
  proof (cases "n div b = 0")
    case True
    then have "n < b" using 1 by (simp add: div_eq_0_iff)
    have "digits_of b n = [digit_char n]" using d True \<open>n < b\<close> by (simp add: digits_of.simps)
    then show ?thesis using 1(3) \<open>n < b\<close> by blast
  next
    case False
    then show ?thesis using 1 d by fastforce
  qed
qed

definition dec :: "nat \<Rightarrow> string" where
  "dec n = (if n = 0 then ''0'' else digits_of 10 n)"

lemma sint_uint64:
  fixes v :: "64 word"
  shows "sint v = (if sint v < 0 then uint v - 2 ^ 64 else uint v)"
proof -
  have u: "uint v = sint v mod 2 ^ 64" using uint_sint [of v] by (simp add: take_bit_eq_mod)
  have b: "- (2 ^ 63) \<le> sint v" "sint v < 2 ^ 63"
    using sint_greater_eq [of v] sint_less [of v] by simp_all
  show ?thesis
  proof (cases "sint v < 0")
    case True
    have "sint v mod 2 ^ 64 = (sint v + 2 ^ 64) mod 2 ^ 64" by simp
    also have "\<dots> = sint v + 2 ^ 64" using b True by (intro mod_pos_pos_trivial) auto
    finally show ?thesis using u True by simp
  next
    case False
    have "sint v mod 2 ^ 64 = sint v" using b False by (intro mod_pos_pos_trivial) auto
    then show ?thesis using u False by simp
  qed
qed

lemma unat_minus_negative:
  fixes v :: "64 word"
  assumes "sint v < 0"
  shows "unat (- v) = nat (- sint v)"
proof -
  have s: "sint v = uint v - 2 ^ 64" by (metis assms sint_uint64)
  have v0: "0 < uint v"
  proof (rule ccontr)
    assume "\<not> 0 < uint v"
    then have "uint v = 0" using uint_ge_0 [of v] by linarith
    then have "v = 0" by (simp add: uint_0_iff)
    with assms show False by simp
  qed
  have "uint v < 2 ^ 64" using uint_lt2p [of v] by simp
  have "uint (- v) = (- uint v) mod 2 ^ 64" by (simp add: uint_word_ariths)
  also have "\<dots> = (2 ^ 64 - uint v) mod 2 ^ 64"
    by (metis add.commute add_uminus_conv_diff mod_add_self2)
  also have "\<dots> = 2 ^ 64 - uint v" using v0 \<open>uint v < 2 ^ 64\<close> by (intro mod_pos_pos_trivial) auto
  finally have "uint (- v) = - sint v" using s by simp
  then show ?thesis by (metis unat_eq_nat_uint)
qed

lemma num_text_dec: "num_text 10 un v = dec (if un then unat v else nat (abs (sint v)))"
proof -
  have pos: "unat v = nat (sint v)" if "\<not> sint v < 0" for v :: "64 word"
    by (metis that sint_uint64 unat_eq_nat_uint)
  define luv where "luv = (if \<not> un \<and> sint v < 0 then - v else v)"
  have u: "unat luv = (if un then unat v else nat (abs (sint v)))"
    by (cases "sint v < 0"; cases un) (simp_all add: luv_def unat_minus_negative pos)
  have "luv = 0 \<longleftrightarrow> unat luv = 0" by (simp add: unat_eq_zero)
  then have "num_text 10 un v = dec (unat luv)"
    unfolding num_text_def dec_def luv_def [symmetric] Let_def using digits_of.simps [of 10 0] by simp
  then show ?thesis by (simp only: u)
qed

lemma digit_char_props:
  assumes "0 < d" and "d < 10"
  shows "\<not> is_space (digit_char d)" and "digit_char d \<notin> {CHR ''-'', CHR ''+'', CHR ''0'', CHR ''.''}"
proof -
  have d: "d \<in> {1, 2, 3, 4, 5, 6, 7, 8, 9}" using assms by (simp; arith)
  show "\<not> is_space (digit_char d)" using d by (auto simp: is_space_def digit_char_def)
  show "digit_char d \<notin> {CHR ''-'', CHR ''+'', CHR ''0'', CHR ''.''}"
    using d by (auto simp: digit_char_def)
qed

text \<open>A decimal number followed by a dot or by the end of the string is read back.\<close>

lemma strtoul0_dec:
  assumes n: "n < 2 ^ 64" and r: "r = [] \<or> hd r = CHR ''.''"
  shows "strtoul0 (dec n @ r) = (n, r)"
proof -
  have stop: "take_digits b acc r = (acc, r)" if "b \<le> 16" for b acc
    using r that by (cases r) (auto simp: digit_in_def)
  show ?thesis
  proof (cases "n = 0")
    case True
    have nx: "\<not> (\<exists>c cs. r = c # cs \<and> c \<in> {CHR ''x'', CHR ''X''})" using r by auto
    then have hex: "\<not> (length (CHR ''0'' # r) \<ge> 3 \<and> (CHR ''0'' # r) ! 1 \<in> {CHR ''x'', CHR ''X''})"
      by (cases r) auto
    have td: "take_digits 8 0 (CHR ''0'' # r) = (0, r)"
      using stop [of 8 0] by (simp add: digit_in_def)
    have ne: "r \<noteq> CHR ''0'' # r" by (metis not_Cons_self)
    show ?thesis using True hex td ne
      by (auto simp: strtoul0_def dec_def Let_def is_space_def)
  next
    case False
    obtain d ds where ds: "digits_of 10 n = digit_char d # ds" and d: "0 < d" "d < 10"
      using hd_digits_of [of 10 n] False by auto
    have td: "take_digits 10 0 (digit_char d # ds @ r) = (n, r)"
      using take_digits_digits_of [of 10 0 n r] stop [of 10 n] ds by simp
    have ne: "r \<noteq> digit_char d # ds @ r"
      by (metis append_Cons append_self_conv2 list.discI)
    show ?thesis using False ds td ne digit_char_props [OF d] n
      by (simp add: strtoul0_def dec_def Let_def)
  qed
qed

text \<open>
  Decimal printing keeps the magnitude and drops the sign: reading back what \<^verbatim>\<open>%d\<close> prints for any
  64-bit value gives the value itself when it is unsigned and its absolute value otherwise.
\<close>

theorem num_text_prints_magnitude:
  "strtoul0 (num_text 10 un v) = (if un then unat v else nat (abs (sint v)), [])"
proof -
  have "unat v < 2 ^ 64" using unsigned_less [of v, where ?'a = nat] by simp
  moreover have "nat (abs (sint v)) < 2 ^ 64"
    using sint_greater_eq [of v] sint_less [of v] by simp
  ultimately show ?thesis
    using strtoul0_dec [of "if un then unat v else nat (abs (sint v))" "[]"] by (simp add: num_text_dec)
qed

section \<open>Addresses printed and parsed\<close>

lemma length_digits_of: "2 \<le> b \<Longrightarrow> n < b ^ k \<Longrightarrow> length (digits_of b n) \<le> k"
proof (induction k arbitrary: n)
  case 0
  then show ?case by (simp add: digits_of.simps)
next
  case (Suc k)
  then have "n div b < b ^ k" by (simp add: less_mult_imp_div_less mult.commute)
  with Suc have "length (digits_of b (n div b)) \<le> k" by simp
  then show ?case by (subst digits_of.simps) simp
qed

lemma length_dec_byte: "n < 256 \<Longrightarrow> length (dec n) \<le> 3"
  using length_digits_of [of 10 n 3] by (simp add: dec_def)

lemma digits_of_no_NUL: "2 \<le> b \<Longrightarrow> b \<le> 16 \<Longrightarrow> CHR 0x00 \<notin> set (digits_of b n)"
proof (induction b n rule: digits_of.induct)
  case (1 b n)
  have "n mod b < b" using 1(2) by simp
  then have "digit_in b (digit_char (n mod b)) = Some (n mod b)" using 1(3) by (rule digit_char_in)
  then have c: "digit_char (n mod b) \<noteq> CHR 0x00" using 1(3) by (auto simp: digit_in_def split: if_splits)
  show ?case
  proof (cases "n = 0")
    case True
    then show ?thesis by (simp add: digits_of.simps)
  next
    case False
    then have d: "digits_of b n = digits_of b (n div b) @ [digit_char (n mod b)]"
      using 1(2) by (subst digits_of.simps) simp
    show ?thesis unfolding d using 1 False c by simp
  qed
qed

lemma dec_no_NUL: "CHR 0x00 \<notin> set (dec n)"
  using digits_of_no_NUL [of 10 n] by (simp add: dec_def)

lemma signed_byte:
  fixes b :: byte
  shows "signed_take_bit 31 (uint b) = uint b" and "signed_take_bit 63 (uint b) = uint b"
proof -
  have "- (2 ^ n) \<le> uint b" for n by (rule order.trans [OF _ uint_ge_0]) simp
  moreover have "uint b < 2 ^ 31" "uint b < 2 ^ 63" using uint_lt2p [of b] by simp_all
  ultimately show "signed_take_bit 31 (uint b) = uint b" "signed_take_bit 63 (uint b) = uint b"
    by (intro signed_take_bit_int_eq_self; blast)+
qed

lemma num_text_byte: "num_text 10 False (fetch_num 0 False (ucast (b :: byte))) = dec (unat b)"
proof -
  have b: "uint b < 256" using uint_lt2p [of b] by simp
  have "sint (fetch_num 0 False (ucast b)) = uint b"
  proof -
    have u32: "uint (ucast (ucast b :: 64 word) :: 32 word) = uint b"
      using b by (simp add: unsigned_ucast_eq [where ?'a = int] take_bit_int_eq_self)
    have "sint (ucast (ucast b :: 64 word) :: 32 word) = uint b"
      using u32 by (simp add: sint_uint signed_byte)
    then show ?thesis
      by (simp add: fetch_num_def signed_scast_eq signed_byte)
  qed
  then show ?thesis by (simp add: num_text_dec)
qed

definition addr_text :: "byte list \<Rightarrow> string" where
  "addr_text ip = dec (unat (ip ! 0)) @ ''.'' @ dec (unat (ip ! 1)) @ ''.'' @
                  dec (unat (ip ! 2)) @ ''.'' @ dec (unat (ip ! 3))"

lemma pad_text_0: "pad_text 0 s = s"
  by (simp add: pad_text_def)

lemma render_addr:
  "render ''%d.%d.%d.%d'' None err
     [Num (ucast (ip ! 0)), Num (ucast (ip ! 1)), Num (ucast (ip ! 2)), Num (ucast (ip ! 3))] =
   Some (addr_text ip)"
  by (simp add: no_flags_def spec_of_def is_dec_def verb_text_def num_text_byte pad_text_0 addr_text_def
      del: ucast_id)

lemma to_int32_byte: "to_int32 (unat (b :: byte)) = uint b"
proof -
  have "sint (word_of_int (uint b) :: 32 word) = signed_take_bit 31 (uint b)"
    by (subst sint_sbintrunc') simp
  then have "sint (word_of_int (uint b) :: 32 word) = uint b" by (simp only: signed_byte)
  then show ?thesis unfolding to_int32_def unat_eq_nat_uint by (metis uint_ge_0 word_of_int_nat)
qed

lemma dec_not_Nil: "dec n \<noteq> []"
  using hd_digits_of [of 10 n] by (auto simp: dec_def)

lemma parse_octet_step:
  assumes "i < 4" and "r = [] \<or> hd r = CHR ''.''"
  shows "parse_octets i (dec (unat b) @ r) a = parse_octets (i + 1) (tl r) (a[i := b])"
proof -
  have "unat b < 2 ^ 64" using unsigned_less [of b, where ?'a = nat] by simp
  then have st: "strtoul0 (dec (unat b) @ r) = (unat b, r)" using assms(2) by (rule strtoul0_dec)
  have "0 \<le> uint b" "uint b < 256" using uint_lt2p [of b] by simp_all
  then show ?thesis
    using assms st dec_not_Nil [of "unat b"]
    by (subst parse_octets.simps) (auto simp: to_int32_byte)
qed

lemma parse_addr_text:
  assumes "length ip = 4" and "length junk = 4"
  shows "parseip (addr_text ip) junk = Some ip"
proof -
  obtain a b c d where ip: "ip = [a, b, c, d]" using assms(1) by (auto simp: length_Suc_conv eval_nat_numeral)
  obtain j0 j1 j2 j3 where jk: "junk = [j0, j1, j2, j3]"
    using assms(2) by (auto simp: length_Suc_conv eval_nat_numeral)
  have "parse_octets 0 (addr_text ip) junk = parse_octets 4 [] ip"
    unfolding addr_text_def ip jk
    using parse_octet_step [of 3 "[]" d] by (simp add: parse_octet_step eval_nat_numeral)
  also have "\<dots> = Some (4, ip)" by (subst parse_octets.simps) simp
  finally show ?thesis by (simp add: parseip_def)
qed

lemma c_string_write: "CHR 0x00 \<notin> set t \<Longrightarrow> c_string (write_block 0 (t @ [CHR 0x00]) m) = t"
  by (simp add: c_string_def write_block_def takeWhile_tail) (metis takeWhile_eq_all_conv)

text \<open>
  C15: The address text that \<^verbatim>\<open>netaccept\<close> hands out for a peer fits its 16 characters for every
  address, and \<^verbatim>\<open>netlookup\<close> reads it back as the same address without asking the resolver.
\<close>

theorem accepted_address_looks_up:
  assumes "length ip = 4" and "length junk = 4" and "16 \<le> length m"
  shows "\<exists>m'. server_text ip m = Some (Return m') \<and> drop 16 m' = drop 16 m \<and>
              netlookup resolve (c_string m') junk = Some ip"
proof -
  have byte: "unat (ip ! i) < 256" for i using unsigned_less [of "ip ! i", where ?'a = nat] by simp
  have len: "length (addr_text ip) < 16"
    using length_dec_byte [OF byte [of 0]] length_dec_byte [OF byte [of 1]]
      length_dec_byte [OF byte [of 2]] length_dec_byte [OF byte [of 3]]
    by (simp add: addr_text_def)
  define m' where "m' = write_block 0 (addr_text ip @ [CHR 0x00]) m"
  have "server_text ip m = Some (Return m')"
    unfolding server_text_def snprint_def m'_def
    by (rule vseprint_prints_text [OF render_addr len assms(3)])
  moreover have "drop 16 m' = drop 16 m"
    using len assms(3) by (cases "16 - length (addr_text ip)") (auto simp: m'_def write_block_def intro: arg_cong [of _ _ "\<lambda>k. drop k m"])
  moreover have "c_string m' = addr_text ip"
    unfolding m'_def by (rule c_string_write) (simp add: addr_text_def dec_no_NUL)
  ultimately show ?thesis using parse_addr_text [OF assms(1,2)] by (simp add: netlookup_def)
qed

lemma accepted_address_looks_up_witness:
  "\<exists>m'. server_text [192, 168, 0, 17] (replicate 20 (CHR ''x'')) = Some (Return m') \<and>
        drop 16 m' = ''xxxx'' \<and> netlookup (\<lambda>s. None) (c_string m') [0, 0, 0, 0] = Some [192, 168, 0, 17]"
  using accepted_address_looks_up [of "[192, 168, 0, 17]" "[0, 0, 0, 0]" "replicate 20 (CHR ''x'')" "\<lambda>s. None"]
  by (simp add: eval_nat_numeral)

text \<open>
  For first numbers of 192 and more \<^verbatim>\<open>parseip\<close> has no case of its switch that asks for four
  numbers: two numbers are accepted, and the rest of the address is the indeterminate stack content.
\<close>

theorem parseip_leaves_indeterminate_bytes:
  "parseip ''224.1'' [j0, j1, j2, j3] = Some [224, 1, j2, j3]"
proof -
  have s: "''224.1'' = dec (unat (224 :: byte)) @ ''.'' @ dec (unat (1 :: byte)) @ []"
    by code_simp
  have "parse_octets 0 ''224.1'' [j0, j1, j2, j3] = parse_octets 2 [] [224, 1, j2, j3]"
    unfolding s
    using parse_octet_step [of 0 "''.'' @ dec (unat (1 :: byte)) @ []" 224 "[j0, j1, j2, j3]"]
      parse_octet_step [of 1 "[]" 1 "[224, j1, j2, j3]"]
    by (simp add: numeral_2_eq_2)
  also have "\<dots> = Some (2, [224, 1, j2, j3])" by (subst parse_octets.simps) simp
  finally have p: "parse_octets 0 ''224.1'' [j0, j1, j2, j3] = Some (2, [224, 1, j2, j3])" .
  have "ip_class [224, 1, j2, j3] = 3" by (simp add: ip_class_def)
  with p show ?thesis by (simp add: parseip_def)
qed

end
