(* ===== verification/Task_Net.thy ===== *)
theory Task_Net
  imports Task_Print
begin

text \<open>
  The socket routines of src/src/common/task/net.c.  The answers of the system calls are the record
  \<open>netenv\<close>; a routine returns its C value and the calls that change a descriptor, in order.
\<close>

section \<open>System calls\<close>

datatype netop =
  Socket int bool | Reuseaddr int | Broadcast int | Bind int "byte list" int | Listen int |
  Noblock int | Connect int "byte list" int | Wait_read int | Wait_write int | Accept int int |
  Nodelay int | Close int

record netenv =
  sock_rc :: int
  sotype_ok :: bool
  bind_rc :: int
  connect_rc :: int
  in_progress :: bool
  peername_ok :: bool
  so_error :: int
  accept_rc :: int
  peer_addr :: "byte list"
  peer_port :: int
  resolver :: "string \<Rightarrow> byte list option"

definition ECONNREFUSED :: int where
  "ECONNREFUSED = 111"

section \<open>Listening\<close>

definition netannounce ::
    "netenv \<Rightarrow> bool \<Rightarrow> string option \<Rightarrow> int \<Rightarrow> byte list \<Rightarrow> int \<times> netop list" where
  "netannounce env istcp server port junk =
     (let ip = (case server of
                  Some s \<Rightarrow> if s \<noteq> ''*'' then netlookup (resolver env) s junk else Some [0, 0, 0, 0]
                | None \<Rightarrow> Some [0, 0, 0, 0]);
          fd = sock_rc env
      in case ip of
           None \<Rightarrow> (-1, [])
         | Some a \<Rightarrow>
             if fd < 0 then (-1, [])
             else
               let ops1 = Socket fd istcp # (if istcp \<and> sotype_ok env then [Reuseaddr fd] else []);
                   ops2 = ops1 @ [Bind fd a port]
               in if bind_rc env < 0 then (-1, ops2 @ [Close fd])
                  else (fd, ops2 @ (if istcp then [Listen fd] else []) @ [Noblock fd]))"

section \<open>Accepting\<close>

text \<open>
  The result holds, besides the descriptor, the text for \<^verbatim>\<open>server\<close> and the port; \<open>m\<close> is the caller's
  buffer.
\<close>

definition netaccept ::
    "netenv \<Rightarrow> int \<Rightarrow> string option \<Rightarrow> int \<times> string outcome option option \<times> int option \<times> netop list" where
  "netaccept env fd server =
     (let cfd = accept_rc env
      in if cfd < 0 then (-1, None, None, [Wait_read fd, Accept fd cfd])
         else (cfd, map_option (server_text (peer_addr env)) server, Some (peer_port env),
               [Wait_read fd, Accept fd cfd, Noblock cfd, Nodelay cfd]))"

section \<open>Dialing\<close>

definition netdial ::
    "netenv \<Rightarrow> bool \<Rightarrow> string \<Rightarrow> int \<Rightarrow> byte list \<Rightarrow> int \<times> int option \<times> netop list" where
  "netdial env istcp server port junk =
     (case netlookup (resolver env) server junk of
        None \<Rightarrow> (-1, None, [])
      | Some ip \<Rightarrow>
          let fd = sock_rc env in
          if fd < 0 then (-1, None, [])
          else
            let ops1 = [Socket fd istcp, Noblock fd] @ (if \<not> istcp then [Broadcast fd] else []);
                ops2 = ops1 @ [Connect fd ip port]
            in if connect_rc env < 0 \<and> \<not> in_progress env then (-1, None, ops2 @ [Close fd])
               else if peername_ok env then (fd, None, ops2 @ [Wait_write fd])
               else (-1, Some (if so_error env = 0 then ECONNREFUSED else so_error env),
                     ops2 @ [Wait_write fd, Close fd]))"

section \<open>Descriptors are not leaked\<close>

text \<open>The descriptors a sequence of calls opened and has not closed.\<close>

definition open_fds :: "netop list \<Rightarrow> int list \<Rightarrow> int list" where
  "open_fds ops fds0 =
     fold (\<lambda>op fds. case op of Socket fd t \<Rightarrow> fd # fds | Close fd \<Rightarrow> remove1 fd fds
                      | Accept l fd \<Rightarrow> if fd < 0 then fds else fd # fds | _ \<Rightarrow> fds) ops fds0"

text \<open>
  \<^verbatim>\<open>netannounce\<close>, \<^verbatim>\<open>netdial\<close> and \<^verbatim>\<open>netaccept\<close> return -1 with every descriptor they opened closed
  again, or a new descriptor that is open and that they have set non-blocking; \<^verbatim>\<open>netdial\<close>
  reports a connection error that is never 0.
\<close>

theorem net_descriptors:
  "(case netannounce env istcp server port junk of (v, ops) \<Rightarrow>
      (v = -1 \<and> open_fds ops fds = fds) \<or>
      (0 \<le> v \<and> open_fds ops fds = v # fds \<and> Noblock v \<in> set ops)) \<and>
   (case netdial env istcp name port junk of (v, err, ops) \<Rightarrow>
      (v = -1 \<and> open_fds ops fds = fds \<and> err \<noteq> Some 0) \<or>
      (0 \<le> v \<and> open_fds ops fds = v # fds \<and> Noblock v \<in> set ops \<and> err = None)) \<and>
   (case netaccept env fd srv of (v, txt, prt, ops) \<Rightarrow>
      (v = -1 \<and> open_fds ops fds = fds) \<or>
      (0 \<le> v \<and> open_fds ops fds = v # fds \<and> Noblock v \<in> set ops \<and> prt = Some (peer_port env)))"
  by (auto simp: netannounce_def netdial_def netaccept_def open_fds_def Let_def ECONNREFUSED_def
      split: option.split)

end
