(* ===== verification/Xtime.thy ===== *)
theory Xtime
  imports Tdb_Prelude
begin

text \<open>
  Interval time (src/src/common/xtime.c) and the directory helper of src/src/common/common.c.  The
  NTP clock, \<^verbatim>\<open>stat\<close> and \<^verbatim>\<open>mkdir\<close> are arguments.  Seconds and microseconds are integers: the 64-bit
  fields do not overflow for the times a clock can show.
\<close>

section \<open>Intervals\<close>

record timeval =
  tv_sec :: int
  tv_usec :: int

record time_interval =
  earliest :: timeval
  latest :: timeval

text \<open>The macros \<^verbatim>\<open>timeradd\<close>, \<^verbatim>\<open>timersub\<close> and \<^verbatim>\<open>timercmp(\<dots>, <)\<close> of sys/time.h.\<close>

definition timeradd :: "timeval \<Rightarrow> timeval \<Rightarrow> timeval" where
  "timeradd a b =
     (let s = tv_sec a + tv_sec b; u = tv_usec a + tv_usec b
      in if u \<ge> 1000000 then \<lparr>tv_sec = s + 1, tv_usec = u - 1000000\<rparr> else \<lparr>tv_sec = s, tv_usec = u\<rparr>)"

definition timersub :: "timeval \<Rightarrow> timeval \<Rightarrow> timeval" where
  "timersub a b =
     (let s = tv_sec a - tv_sec b; u = tv_usec a - tv_usec b
      in if u < 0 then \<lparr>tv_sec = s - 1, tv_usec = u + 1000000\<rparr> else \<lparr>tv_sec = s, tv_usec = u\<rparr>)"

definition timer_less :: "timeval \<Rightarrow> timeval \<Rightarrow> bool" where
  "timer_less a b = (if tv_sec a = tv_sec b then tv_usec a < tv_usec b else tv_sec a < tv_sec b)"

text \<open>The clock error as a time difference.\<close>

definition time_delta :: "int \<Rightarrow> timeval" where
  "time_delta maxerror =
     (let e = (if maxerror > 0 then maxerror else - maxerror);
          sec = e div 1000;
          usec = (e mod 1000) * 1000
      in if usec > 1000000 then \<lparr>tv_sec = sec + 1, tv_usec = usec - 1000000\<rparr>
         else \<lparr>tv_sec = sec, tv_usec = usec\<rparr>)"

text \<open>\<^verbatim>\<open>ntp_gettime\<close> gives the time and the maximum error, or fails.\<close>

definition TDB_time_now :: "(timeval \<times> int) option \<Rightarrow> int \<times> time_interval option" where
  "TDB_time_now ntp =
     (case ntp of
        None \<Rightarrow> (TDB_ERROR, None)
      | Some (now, maxerror) \<Rightarrow>
          (TDB_SUCCESS, Some \<lparr>earliest = timersub now (time_delta maxerror),
                              latest = timeradd now (time_delta maxerror)\<rparr>))"

definition TDB_TIME_CHECK_BEFORE :: int where
  "TDB_TIME_CHECK_BEFORE = 1"

definition TDB_TIME_CHECK_AFTER :: int where
  "TDB_TIME_CHECK_AFTER = 3"

definition TDB_time_check ::
    "(timeval \<times> int) option \<Rightarrow> time_interval \<Rightarrow> int \<Rightarrow> int \<times> bool option" where
  "TDB_time_check ntp iv mode =
     (case TDB_time_now ntp of
        (rc, None) \<Rightarrow> (TDB_ERROR, None)
      | (rc, Some now) \<Rightarrow>
          if mode = TDB_TIME_CHECK_AFTER then
            (TDB_SUCCESS, Some (timer_less (earliest now) (latest iv)))
          else if mode = TDB_TIME_CHECK_BEFORE then
            (TDB_SUCCESS, Some (timer_less (latest iv) (earliest now)))
          else (TDB_ERROR, None))"

definition TDB_time_before :: "(timeval \<times> int) option \<Rightarrow> time_interval \<Rightarrow> int \<times> bool option" where
  "TDB_time_before ntp iv = TDB_time_check ntp iv TDB_TIME_CHECK_BEFORE"

definition TDB_time_after :: "(timeval \<times> int) option \<Rightarrow> time_interval \<Rightarrow> int \<times> bool option" where
  "TDB_time_after ntp iv = TDB_time_check ntp iv TDB_TIME_CHECK_AFTER"

definition TDB_time_interval_validate :: "time_interval \<Rightarrow> int" where
  "TDB_time_interval_validate iv =
     (if timer_less (earliest iv) (latest iv) then TDB_SUCCESS else TDB_ERROR)"

section \<open>Microseconds\<close>

text \<open>A time in microseconds; the macros agree with integer arithmetic on normal values.\<close>

definition usecs :: "timeval \<Rightarrow> int" where
  "usecs t = tv_sec t * 1000000 + tv_usec t"

definition normal :: "timeval \<Rightarrow> bool" where
  "normal t \<longleftrightarrow> 0 \<le> tv_usec t \<and> tv_usec t < 1000000"

lemma timeradd_usecs:
  "normal a \<Longrightarrow> normal b \<Longrightarrow> usecs (timeradd a b) = usecs a + usecs b \<and> normal (timeradd a b)"
  by (auto simp: timeradd_def usecs_def normal_def Let_def)

lemma timersub_usecs:
  "normal a \<Longrightarrow> normal b \<Longrightarrow> usecs (timersub a b) = usecs a - usecs b \<and> normal (timersub a b)"
  by (auto simp: timersub_def usecs_def normal_def Let_def)

lemma timer_less_usecs: "normal a \<Longrightarrow> normal b \<Longrightarrow> timer_less a b \<longleftrightarrow> usecs a < usecs b"
  by (auto simp: timer_less_def usecs_def normal_def)

text \<open>The correction for more than a second of microseconds never applies.\<close>

lemma time_delta_usecs: "usecs (time_delta e) = 1000 * abs e \<and> normal (time_delta e)"
proof -
  have d: "usecs \<lparr>tv_sec = k div 1000, tv_usec = k mod 1000 * 1000\<rparr> = 1000 * k" for k :: int
  proof -
    have "q * 1000000 + r * 1000 = 1000 * (q * 1000 + r)" for q r :: int by simp
    from this [of "k div 1000" "k mod 1000"] show ?thesis by (simp add: usecs_def div_mult_mod_eq)
  qed
  have r: "\<not> k mod 1000 * 1000 > 1000000" "normal \<lparr>tv_sec = k div 1000, tv_usec = k mod 1000 * 1000\<rparr>" for k :: int
    using pos_mod_bound [of 1000 k] pos_mod_sign [of 1000 k] by (auto simp: normal_def)
  have a: "(if e > 0 then e else - e) = abs e" by simp
  show ?thesis unfolding time_delta_def Let_def a using d [of "abs e"] r [of "abs e"] by simp
qed

text \<open>
  \<^verbatim>\<open>TDB_time_now\<close> returns a normalised interval centred on the clock reading; its half width is
  \<open>maxerror\<close> milliseconds, although the clock gives the error in microseconds.
\<close>

theorem time_now_interval:
  assumes "normal now"
  shows "\<exists>iv. TDB_time_now (Some (now, maxerror)) = (TDB_SUCCESS, Some iv) \<and>
      normal (earliest iv) \<and> normal (latest iv) \<and>
      usecs (earliest iv) = usecs now - 1000 * abs maxerror \<and>
      usecs (latest iv) = usecs now + 1000 * abs maxerror"
  using timeradd_usecs [OF assms, of "time_delta maxerror"]
    timersub_usecs [OF assms, of "time_delta maxerror"] time_delta_usecs [of maxerror]
  by (simp add: TDB_time_now_def)

lemma time_now_interval_witness:
  "\<exists>iv. TDB_time_now (Some (\<lparr>tv_sec = 5, tv_usec = 400000\<rparr>, -1500)) = (TDB_SUCCESS, Some iv) \<and>
      normal (earliest iv) \<and> normal (latest iv) \<and>
      usecs (earliest iv) = 3900000 \<and> usecs (latest iv) = 6900000"
  using time_now_interval [of "\<lparr>tv_sec = 5, tv_usec = 400000\<rparr>" "-1500"]
  by (simp add: normal_def usecs_def)

text \<open>Reading the clock for a check.\<close>

lemma time_check_usecs:
  assumes "normal now" and "normal (latest iv)"
  shows "TDB_time_before (Some (now, e)) iv =
      (TDB_SUCCESS, Some (usecs (latest iv) < usecs now - 1000 * abs e))"
    and "TDB_time_after (Some (now, e)) iv =
      (TDB_SUCCESS, Some (usecs now - 1000 * abs e < usecs (latest iv)))"
proof -
  note s = timersub_usecs [OF assms(1), of "time_delta e"] time_delta_usecs [of e]
  show "TDB_time_before (Some (now, e)) iv =
      (TDB_SUCCESS, Some (usecs (latest iv) < usecs now - 1000 * abs e))"
    using s assms by (simp add: TDB_time_before_def TDB_time_check_def TDB_time_now_def
        TDB_TIME_CHECK_BEFORE_def TDB_TIME_CHECK_AFTER_def timer_less_usecs)
  show "TDB_time_after (Some (now, e)) iv =
      (TDB_SUCCESS, Some (usecs now - 1000 * abs e < usecs (latest iv)))"
    using s assms by (simp add: TDB_time_after_def TDB_time_check_def TDB_time_now_def
        TDB_TIME_CHECK_AFTER_def timer_less_usecs)
qed

text \<open>
  \<^verbatim>\<open>TDB_time_before\<close> is sound: when it reports an interval as passed, the interval lies before
  every time within the clock error.  \<^verbatim>\<open>TDB_time_after\<close> is not the mirror image: it reports success
  exactly when the interval is not yet passed and does not end at the earliest possible time, so
  also for intervals that contain the current time.
\<close>

theorem time_checks:
  assumes "normal now" and "normal (latest iv)" and "abs (usecs t - usecs now) \<le> 1000 * abs e"
  shows "(TDB_time_before (Some (now, e)) iv = (TDB_SUCCESS, Some True) \<longrightarrow> usecs (latest iv) < usecs t) \<and>
    (TDB_time_after (Some (now, e)) iv = (TDB_SUCCESS, Some True) \<longleftrightarrow>
       TDB_time_before (Some (now, e)) iv = (TDB_SUCCESS, Some False) \<and>
       usecs (latest iv) \<noteq> usecs now - 1000 * abs e)"
  using assms(3) by (auto simp: time_check_usecs [OF assms(1,2)])

lemma time_checks_witness:
  "TDB_time_before (Some (\<lparr>tv_sec = 5, tv_usec = 0\<rparr>, 1000))
     \<lparr>earliest = \<lparr>tv_sec = 1, tv_usec = 0\<rparr>, latest = \<lparr>tv_sec = 3, tv_usec = 999999\<rparr>\<rparr> = (TDB_SUCCESS, Some True) \<and>
   (3999999::int) < 4000000"
proof -
  have "TDB_time_before (Some (\<lparr>tv_sec = 5, tv_usec = 0\<rparr>, 1000))
     \<lparr>earliest = \<lparr>tv_sec = 1, tv_usec = 0\<rparr>, latest = \<lparr>tv_sec = 3, tv_usec = 999999\<rparr>\<rparr> = (TDB_SUCCESS, Some True)"
    by code_simp
  then show ?thesis
    using time_checks [of "\<lparr>tv_sec = 5, tv_usec = 0\<rparr>"
        "\<lparr>earliest = \<lparr>tv_sec = 1, tv_usec = 0\<rparr>, latest = \<lparr>tv_sec = 3, tv_usec = 999999\<rparr>\<rparr>"
        "\<lparr>tv_sec = 4, tv_usec = 0\<rparr>" 1000]
    by (simp add: normal_def usecs_def)
qed

section \<open>Directories\<close>

text \<open>
  \<^verbatim>\<open>TDB_ensure_directory_exists\<close>: the answer of \<^verbatim>\<open>stat\<close>, whether \<^verbatim>\<open>mkdir\<close> works, and the file system it
  leaves.
\<close>

datatype stat_answer = Stat_dir | Stat_other | Stat_missing | Stat_failed

definition TDB_ensure_directory_exists ::
    "(string \<Rightarrow> 'fs \<Rightarrow> stat_answer) \<Rightarrow> (string \<Rightarrow> 'fs \<Rightarrow> bool \<times> 'fs) \<Rightarrow> string \<Rightarrow> 'fs \<Rightarrow> int \<times> 'fs" where
  "TDB_ensure_directory_exists stat mkdir path fs =
     (case stat path fs of
        Stat_missing \<Rightarrow> (case mkdir path fs of (ok, fs') \<Rightarrow> (if ok then TDB_SUCCESS else TDB_ERROR, fs'))
      | Stat_failed \<Rightarrow> (TDB_ERROR, fs)
      | Stat_dir \<Rightarrow> (TDB_SUCCESS, fs)
      | Stat_other \<Rightarrow> (TDB_ERROR, fs))"

text \<open>On success the path is a directory, provided \<^verbatim>\<open>mkdir\<close> makes one; otherwise nothing is touched.\<close>

lemma ensure_directory:
  assumes "\<And>p f. fst (mkdir p f) \<Longrightarrow> stat p (snd (mkdir p f)) = Stat_dir"
    and "\<And>p f. \<not> fst (mkdir p f) \<Longrightarrow> snd (mkdir p f) = f"
    and "TDB_ensure_directory_exists stat mkdir path fs = (rc, fs')"
  shows "(rc = TDB_SUCCESS \<and> stat path fs' = Stat_dir) \<or> (rc = TDB_ERROR \<and> fs' = fs)"
  using assms(3) assms(1,2) [of path fs]
  by (auto simp: TDB_ensure_directory_exists_def split: stat_answer.splits prod.splits if_splits)

end
