(* ===== verification/Kvs.thy ===== *)
theory Kvs
  imports Tdb_Prelude "HOL-Library.Sublist"
begin

text \<open>
  The key-value layer of src/src/common/kvs: the dispatch of kvs.c, the batches of batch.c and the
  LevelDB back end kvs_leveldb.c.  LevelDB itself is not part of the source: its operations on a
  database of type \<open>'d\<close> are the record \<open>leveldb\<close>, an argument of every definition that calls it.
  \<open>mem\<close> is whether \<^verbatim>\<open>malloc\<close> succeeds.
\<close>

section \<open>The LevelDB interface and the store\<close>

record 'd leveldb =
  ldb_open :: "string \<Rightarrow> 'd \<Rightarrow> bool \<times> 'd"
  ldb_get :: "byte list \<Rightarrow> 'd \<Rightarrow> byte list option"
  ldb_delete :: "byte list \<Rightarrow> 'd \<Rightarrow> bool \<times> 'd"
  ldb_destroy :: "string \<Rightarrow> 'd \<Rightarrow> bool \<times> 'd"

definition KVS_TYPE_LEVELDB :: nat where
  "KVS_TYPE_LEVELDB = 1"

record kvs =
  kvs_path :: string
  kvs_type :: nat

section \<open>The LevelDB back end\<close>

text \<open>\<^verbatim>\<open>TDB_kvs_leveldb_init\<close>: the path is stored only when the database opened.\<close>

definition TDB_kvs_leveldb_init ::
    "'d leveldb \<Rightarrow> bool \<Rightarrow> kvs \<Rightarrow> string \<Rightarrow> 'd \<Rightarrow> int \<times> kvs \<times> 'd" where
  "TDB_kvs_leveldb_init L mem k path d =
     (if \<not> mem then (TDB_ERROR, k, d)
      else case ldb_open L path d of
             (ok, d') \<Rightarrow> if \<not> ok then (TDB_ERROR, k, d') else (TDB_SUCCESS, k\<lparr>kvs_path := path\<rparr>, d'))"

definition TDB_kvs_leveldb_destroy :: "'d leveldb \<Rightarrow> kvs \<Rightarrow> 'd \<Rightarrow> int \<times> 'd" where
  "TDB_kvs_leveldb_destroy L k d =
     (case ldb_destroy L (kvs_path k) d of (ok, d') \<Rightarrow> (if ok then TDB_SUCCESS else TDB_ERROR, d'))"

text \<open>
  The comparator: the first difference within the common length decides, as unsigned characters;
  without one the keys are reported equal.  Lengths are below \<open>2^31\<close>, as the C counter is an int.
\<close>

fun TDB_kvs_leveldb_comparator_compare :: "byte list \<Rightarrow> byte list \<Rightarrow> int" where
  "TDB_kvs_leveldb_comparator_compare (x # xs) (y # ys) =
     (if x \<noteq> y then uint x - uint y else TDB_kvs_leveldb_comparator_compare xs ys)"
| "TDB_kvs_leveldb_comparator_compare xs ys = 0"

definition TDB_kvs_leveldb_get :: "'d leveldb \<Rightarrow> byte list \<Rightarrow> 'd \<Rightarrow> int \<times> byte list option" where
  "TDB_kvs_leveldb_get L key d =
     (case ldb_get L key d of None \<Rightarrow> (TDB_ERROR, None) | Some v \<Rightarrow> (TDB_SUCCESS, Some v))"

definition TDB_kvs_leveldb_delete :: "'d leveldb \<Rightarrow> byte list \<Rightarrow> 'd \<Rightarrow> int \<times> 'd" where
  "TDB_kvs_leveldb_delete L key d =
     (case ldb_delete L key d of (ok, d') \<Rightarrow> (if ok then TDB_SUCCESS else TDB_ERROR, d'))"

text \<open>
  \<^verbatim>\<open>TDB_kvs_leveldb_validate_key\<close> on the characters of a C string: the pointer is advanced before
  the first character has been looked at.
\<close>

definition key_char :: "char \<Rightarrow> bool" where
  "key_char c \<longleftrightarrow> (of_char CHR ''a'' \<le> (of_char c :: nat) \<and> (of_char c :: nat) \<le> of_char CHR ''z'') \<or>
                  c = CHR ''_'' \<or> c = CHR ''/''"

fun TDB_kvs_leveldb_validate_key :: "string \<Rightarrow> bool" where
  "TDB_kvs_leveldb_validate_key [] = True"
| "TDB_kvs_leveldb_validate_key [c] = True"
| "TDB_kvs_leveldb_validate_key (c # c' # cs) =
     (if \<not> key_char c' then False else TDB_kvs_leveldb_validate_key (c' # cs))"

section \<open>Batches\<close>

definition TDB_kvs_batch_init :: "bool \<Rightarrow> int" where
  "TDB_kvs_batch_init mem = (if mem then TDB_SUCCESS else TDB_ERROR)"

definition TDB_kvs_batch_append :: "byte list \<Rightarrow> byte list \<Rightarrow> int" where
  "TDB_kvs_batch_append key value = TDB_ERROR"

definition TDB_kvs_leveldb_put_batch :: "'d \<Rightarrow> int \<times> 'd" where
  "TDB_kvs_leveldb_put_batch d = (TDB_ERROR, d)"

section \<open>The dispatching layer\<close>

text \<open>The structure comes from \<^verbatim>\<open>malloc\<close>; \<open>junk\<close> is what it held.  Both memory requests are answered.\<close>

definition TDB_kvs_init ::
    "'d leveldb \<Rightarrow> bool \<Rightarrow> bool \<Rightarrow> kvs \<Rightarrow> string \<Rightarrow> nat \<Rightarrow> 'd \<Rightarrow> int \<times> kvs option \<times> 'd" where
  "TDB_kvs_init L mem mem2 junk path type d =
     (if \<not> mem then (TDB_ERROR, None, d)
      else if type = KVS_TYPE_LEVELDB then
        (case TDB_kvs_leveldb_init L mem2 (junk\<lparr>kvs_type := KVS_TYPE_LEVELDB\<rparr>) path d of
           (rc, k, d') \<Rightarrow> (rc, Some k, d'))
      else (TDB_ERROR, Some junk, d))"

definition TDB_kvs_get :: "'d leveldb \<Rightarrow> kvs \<Rightarrow> byte list \<Rightarrow> 'd \<Rightarrow> int \<times> byte list option" where
  "TDB_kvs_get L k key d =
     (if kvs_type k = KVS_TYPE_LEVELDB then TDB_kvs_leveldb_get L key d else (TDB_ERROR, None))"

definition TDB_kvs_put_batch :: "kvs \<Rightarrow> 'd \<Rightarrow> int \<times> 'd" where
  "TDB_kvs_put_batch k d =
     (if kvs_type k = KVS_TYPE_LEVELDB then TDB_kvs_leveldb_put_batch d else (TDB_ERROR, d))"

definition TDB_kvs_put :: "bool \<Rightarrow> kvs \<Rightarrow> byte list \<Rightarrow> byte list \<Rightarrow> 'd \<Rightarrow> int \<times> 'd" where
  "TDB_kvs_put mem k key value d =
     (if TDB_kvs_batch_init mem \<noteq> TDB_SUCCESS then (TDB_ERROR, d)
      else if TDB_kvs_batch_append key value \<noteq> TDB_SUCCESS then (TDB_ERROR, d)
      else case TDB_kvs_put_batch k d of
             (rc, d') \<Rightarrow> if rc \<noteq> TDB_SUCCESS then (TDB_ERROR, d') else (TDB_SUCCESS, d'))"

definition TDB_kvs_delete :: "'d leveldb \<Rightarrow> kvs \<Rightarrow> byte list \<Rightarrow> 'd \<Rightarrow> int \<times> 'd" where
  "TDB_kvs_delete L k key d =
     (if kvs_type k = KVS_TYPE_LEVELDB then TDB_kvs_leveldb_delete L key d else (TDB_ERROR, d))"

definition TDB_kvs_destroy :: "'d leveldb \<Rightarrow> kvs \<Rightarrow> 'd \<Rightarrow> 'd" where
  "TDB_kvs_destroy L k d =
     (if kvs_type k = KVS_TYPE_LEVELDB then snd (TDB_kvs_leveldb_destroy L k d) else d)"

section \<open>The comparator orders keys up to prefixes\<close>

lemma compare_sym:
  "TDB_kvs_leveldb_comparator_compare ys xs = - TDB_kvs_leveldb_comparator_compare xs ys"
  by (induction xs ys rule: TDB_kvs_leveldb_comparator_compare.induct) auto

lemma compare_zero:
  "TDB_kvs_leveldb_comparator_compare xs ys = 0 \<longleftrightarrow> prefix xs ys \<or> prefix ys xs"
  by (induction xs ys rule: TDB_kvs_leveldb_comparator_compare.induct) (auto simp: word_uint_eq_iff)

lemma compare_lex:
  "TDB_kvs_leveldb_comparator_compare xs ys < 0 \<Longrightarrow> (xs, ys) \<in> lexord {(a, b). a < b}"
  by (induction xs ys rule: TDB_kvs_leveldb_comparator_compare.induct)
    (auto simp: word_less_def split: if_splits)

text \<open>
  The comparator given to LevelDB is antisymmetric, a negative result means lexicographically
  smaller as unsigned bytes, and 0 means that one key is a prefix of the other: different keys
  compare equal, and equality is not transitive, so it is not the total order LevelDB asks for.
\<close>

theorem comparator_order:
  "TDB_kvs_leveldb_comparator_compare ys xs = - TDB_kvs_leveldb_comparator_compare xs ys \<and>
   (TDB_kvs_leveldb_comparator_compare xs ys < 0 \<longleftrightarrow>
      (xs, ys) \<in> lexord {(a, b). a < b} \<and> \<not> prefix xs ys) \<and>
   (TDB_kvs_leveldb_comparator_compare xs ys = 0 \<longleftrightarrow> prefix xs ys \<or> prefix ys xs) \<and>
   (\<exists>a b c. TDB_kvs_leveldb_comparator_compare a b = 0 \<and> TDB_kvs_leveldb_comparator_compare b c = 0 \<and>
            TDB_kvs_leveldb_comparator_compare a c < 0)"
proof -
  have asym: "asym {(a, b). a < (b :: byte)}" by (auto intro!: asymI)
  have "TDB_kvs_leveldb_comparator_compare xs ys < 0"
    if l: "(xs, ys) \<in> lexord {(a, b). a < b}" and p: "\<not> prefix xs ys"
  proof (rule ccontr)
    assume "\<not> TDB_kvs_leveldb_comparator_compare xs ys < 0"
    then consider "TDB_kvs_leveldb_comparator_compare ys xs < 0" | "TDB_kvs_leveldb_comparator_compare xs ys = 0"
      using compare_sym [of ys xs] by linarith
    then show False
    proof cases
      case 1
      then have "(ys, xs) \<in> lexord {(a, b). a < b}" by (rule compare_lex)
      then show False using l lexord_asymmetric [OF asym] by blast
    next
      case 2
      then have "prefix ys xs" using p by (simp add: compare_zero)
      then obtain zs where xs: "xs = ys @ zs" by (auto simp: prefix_def)
      then have "(ys @ zs, ys @ []) \<in> lexord {(a, b). a < b}" using l by simp
      then have "(zs, []) \<in> lexord {(a, b). a < b}" by (rule lexord_append_leftD) auto
      then show False by simp
    qed
  qed
  moreover have "\<not> prefix xs ys" if "TDB_kvs_leveldb_comparator_compare xs ys < 0"
    using that compare_zero [of xs ys] by auto
  moreover have "\<exists>a b c. TDB_kvs_leveldb_comparator_compare a b = 0 \<and>
      TDB_kvs_leveldb_comparator_compare b c = 0 \<and> TDB_kvs_leveldb_comparator_compare a c < 0"
    by (rule exI [of _ "[97, 98]"], rule exI [of _ "[97]"], rule exI [of _ "[97, 99]"]) code_simp
  ultimately show ?thesis using compare_sym compare_zero compare_lex by blast
qed

section \<open>Keys\<close>

text \<open>
  Key validation looks at every character but the first: a key is accepted exactly when all later
  characters are lower-case letters, underscores or slashes.
\<close>

theorem validate_key_checks_tail:
  "TDB_kvs_leveldb_validate_key key \<longleftrightarrow> list_all key_char (tl key)"
  by (induction key rule: TDB_kvs_leveldb_validate_key.induct) auto

section \<open>The store as a map\<close>

text \<open>
  What the code relies on of LevelDB: reads see the abstract map, a delete that reports no error
  removes exactly its key, and a delete with an error changes nothing.
\<close>

definition ldb_contract :: "'d leveldb \<Rightarrow> ('d \<Rightarrow> byte list \<Rightarrow> byte list option) \<Rightarrow> bool" where
  "ldb_contract L contents \<longleftrightarrow>
     (\<forall>key d. ldb_get L key d = contents d key) \<and>
     (\<forall>key d. case ldb_delete L key d of (ok, d') \<Rightarrow>
        contents d' = (if ok then (contents d)(key := None) else contents d))"

lemma ldb_contractD:
  assumes "ldb_contract L contents"
  shows "ldb_get L key d = contents d key"
    and "ldb_delete L key d = (ok, d') \<Longrightarrow>
      contents d' = (if ok then (contents d)(key := None) else contents d)"
  using assms unfolding ldb_contract_def by blast (metis (mono_tags, lifting) assms case_prodD ldb_contract_def)


definition map_leveldb :: "(byte list \<Rightarrow> byte list option) leveldb" where
  "map_leveldb = \<lparr>ldb_open = (\<lambda>p d. (True, d)), ldb_get = (\<lambda>k d. d k),
     ldb_delete = (\<lambda>k d. (True, d(k := None))), ldb_destroy = (\<lambda>p d. (True, Map.empty))\<rparr>"


text \<open>Opening: the path is kept only for a database that opened; the type decides.\<close>

lemma kvs_init_success:
  "TDB_kvs_init L mem mem2 junk path type d = (TDB_SUCCESS, Some k, d') \<Longrightarrow>
   type = KVS_TYPE_LEVELDB \<and> kvs_type k = type \<and> kvs_path k = path \<and> ldb_open L path d = (True, d')"
  by (auto simp: TDB_kvs_init_def TDB_kvs_leveldb_init_def TDB_SUCCESS_def TDB_ERROR_def
      split: if_splits prod.splits)

end
