(* ===== verification/Proto.thy ===== *)
theory Proto
  imports Tdb_Prelude
begin

text \<open>
  The wire protocol of src/src/common/proto (proto.h and proto_xdr.c).  A message is a record, an
  enumeration a datatype with its C values, and every \<^verbatim>\<open>xdr_\<dots>\<close> routine a filter that encodes,
  decodes or frees through a stream: encoding appends bytes to the stream, decoding takes them from
  its front.  The filters of the RPC library that the routines are made of are the record \<open>xdrlib\<close>,
  an argument.
\<close>

section \<open>Filters\<close>

datatype xdr_op = XDR_ENCODE | XDR_DECODE | XDR_FREE

type_synonym 'a xproc = "xdr_op \<Rightarrow> byte list \<times> 'a \<Rightarrow> bool \<times> byte list \<times> 'a"

type_synonym ulong = "64 word"

record xdrlib =
  xdr_enum :: "int xproc"
  xdr_int :: "int xproc"
  xdr_bool :: "bool xproc"
  xdr_opaque :: "nat \<Rightarrow> byte list xproc"
  xdr_string :: "byte list xproc"
  xdr_bytes :: "byte list xproc"
  xdr_u_long :: "ulong xproc"
  xdr_inline4 :: "xdr_op \<Rightarrow> byte list \<times> (ulong \<times> ulong \<times> ulong \<times> ulong) \<Rightarrow>
                    (byte list \<times> (ulong \<times> ulong \<times> ulong \<times> ulong)) option"

text \<open>A filter on one field of a structure, and the sequence of tests that returns at the first failure.\<close>

definition field :: "'a xproc \<Rightarrow> ('m \<Rightarrow> 'a) \<Rightarrow> ('a \<Rightarrow> 'm \<Rightarrow> 'm) \<Rightarrow> 'm xproc" where
  "field p get put op = (\<lambda>(s, m). case p op (s, get m) of (ok, s', v) \<Rightarrow> (ok, s', put v m))"

primrec xdr_seq :: "'m xproc list \<Rightarrow> 'm xproc" where
  "xdr_seq [] op sm = (True, sm)"
| "xdr_seq (f # fs) op sm =
     (case f op sm of (ok, sm') \<Rightarrow> if \<not> ok then (False, sm') else xdr_seq fs op sm')"

section \<open>Enumerations\<close>

datatype TDB_proto_msg_type_enum =
  BOOTSTRAP | CONNECT | CONSENSUS | CONTROL | DATA |
  BOOTSTRAP_R | CONNECT_R | CONSENSUS_R | CONTROL_R | DATA_R

fun msg_type_code :: "TDB_proto_msg_type_enum \<Rightarrow> int" where
  "msg_type_code BOOTSTRAP = 1"
| "msg_type_code CONNECT = 2"
| "msg_type_code CONSENSUS = 3"
| "msg_type_code CONTROL = 4"
| "msg_type_code DATA = 5"
| "msg_type_code BOOTSTRAP_R = 6"
| "msg_type_code CONNECT_R = 7"
| "msg_type_code CONSENSUS_R = 8"
| "msg_type_code CONTROL_R = 9"
| "msg_type_code DATA_R = 10"

datatype TDB_msg_control_action_type_enum =
  ATTACH_APPEND | ATTACH_DATA | ATTACH_VOTE | IDLE_FOLLOWER | DESTROY | EXIT

fun control_action_code :: "TDB_msg_control_action_type_enum \<Rightarrow> int" where
  "control_action_code ATTACH_APPEND = 1"
| "control_action_code ATTACH_DATA = 2"
| "control_action_code ATTACH_VOTE = 3"
| "control_action_code IDLE_FOLLOWER = 4"
| "control_action_code DESTROY = 5"
| "control_action_code EXIT = 6"

datatype TDB_msg_data_transaction_enum = SINGLE | BEGIN | COMMIT | ABORT

datatype TDB_msg_data_verb_enum = PUT | GET | DELETE | WATCH | UNWATCH

datatype TDB_msg_data_mode_enum = READ_WRITE | READ_ONLY | READ_BOUNDED | READ_TIMESTAMP

fun transaction_code :: "TDB_msg_data_transaction_enum \<Rightarrow> int" where
  "transaction_code SINGLE = 1"
| "transaction_code BEGIN = 2"
| "transaction_code COMMIT = 3"
| "transaction_code ABORT = 4"

fun verb_code :: "TDB_msg_data_verb_enum \<Rightarrow> int" where
  "verb_code PUT = 1"
| "verb_code GET = 2"
| "verb_code DELETE = 3"
| "verb_code WATCH = 4"
| "verb_code UNWATCH = 5"

fun mode_code :: "TDB_msg_data_mode_enum \<Rightarrow> int" where
  "mode_code READ_WRITE = 1"
| "mode_code READ_ONLY = 2"
| "mode_code READ_BOUNDED = 3"
| "mode_code READ_TIMESTAMP = 4"

section \<open>Messages\<close>

text \<open>Enumeration fields are C ints: the filter for enumerations accepts any.\<close>

record TDB_replica_info_t =
  ri_uuid :: "byte list"
  ri_port :: int
  ri_address :: "byte list"

record TDB_msg_bootstrap_t =
  bs_type :: int
  bs_uuid :: "byte list"
  bs_port :: int
  bs_address :: "byte list"

record TDB_msg_resp_bootstrap_t =
  rb_type :: int
  rb_success :: bool
  known_replicas :: "TDB_replica_info_t list"

record TDB_msg_connect_t =
  mc_type :: int
  magic :: "byte list"
  mc_api_version :: "byte list"

record TDB_msg_resp_connect_t =
  rc_type :: int
  rc_api_version :: "byte list"
  rc_success :: bool

record TDB_msg_consensus_log_entry_t =
  entry_data :: "byte list"

record TDB_msg_consensus_t =
  cs_type :: int
  is_vote :: bool
  uuid_id :: "byte list"
  cs_term :: ulong
  log_index :: ulong
  log_term :: ulong
  commit_index :: ulong
  log_entries :: "TDB_msg_consensus_log_entry_t list"

record TDB_msg_resp_consensus_t =
  rs_type :: int
  rs_term :: ulong
  rs_success :: bool

record TDB_msg_control =
  ct_type :: int
  ct_action :: int
  ct_uuid :: "byte list"

record TDB_msg_resp_control_t =
  rt_type :: int
  rt_success :: bool

record TDB_msg_data_op_t =
  op_verb :: int
  op_data :: "byte list"

record TDB_msg_data_t =
  dt_type :: int
  dt_mode :: int
  transaction :: int
  ops :: "TDB_msg_data_op_t list"

record TDB_msg_resp_data_t =
  rd_type :: int
  rd_success :: bool

section \<open>The routines of proto_xdr.c\<close>

definition xdr_TDB_proto_msg_type_enum :: "xdrlib \<Rightarrow> int xproc" where
  "xdr_TDB_proto_msg_type_enum X = xdr_enum X"

definition xdr_TDB_replica_info_t :: "xdrlib \<Rightarrow> TDB_replica_info_t xproc" where
  "xdr_TDB_replica_info_t X = xdr_seq
     [field (xdr_opaque X 16) ri_uuid (\<lambda>v. ri_uuid_update (\<lambda>_. v)),
      field (xdr_int X) ri_port (\<lambda>v. ri_port_update (\<lambda>_. v)),
      field (xdr_string X) ri_address (\<lambda>v. ri_address_update (\<lambda>_. v))]"

definition xdr_TDB_msg_bootstrap_t :: "xdrlib \<Rightarrow> TDB_msg_bootstrap_t xproc" where
  "xdr_TDB_msg_bootstrap_t X = xdr_seq
     [field (xdr_TDB_proto_msg_type_enum X) bs_type (\<lambda>v. bs_type_update (\<lambda>_. v)),
      field (xdr_opaque X 16) bs_uuid (\<lambda>v. bs_uuid_update (\<lambda>_. v)),
      field (xdr_int X) bs_port (\<lambda>v. bs_port_update (\<lambda>_. v)),
      field (xdr_string X) bs_address (\<lambda>v. bs_address_update (\<lambda>_. v))]"

text \<open>\<^verbatim>\<open>xdr_array\<close> takes the filter of the elements; it is the argument \<open>arr\<close>.\<close>

definition xdr_TDB_msg_resp_bootstrap_t ::
    "xdrlib \<Rightarrow> (TDB_replica_info_t xproc \<Rightarrow> TDB_replica_info_t list xproc) \<Rightarrow> TDB_msg_resp_bootstrap_t xproc"
where
  "xdr_TDB_msg_resp_bootstrap_t X arr = xdr_seq
     [field (xdr_TDB_proto_msg_type_enum X) rb_type (\<lambda>v. rb_type_update (\<lambda>_. v)),
      field (xdr_bool X) rb_success (\<lambda>v. rb_success_update (\<lambda>_. v)),
      field (arr (xdr_TDB_replica_info_t X)) known_replicas (\<lambda>v. known_replicas_update (\<lambda>_. v))]"

definition xdr_TDB_msg_connect_t :: "xdrlib \<Rightarrow> TDB_msg_connect_t xproc" where
  "xdr_TDB_msg_connect_t X = xdr_seq
     [field (xdr_TDB_proto_msg_type_enum X) mc_type (\<lambda>v. mc_type_update (\<lambda>_. v)),
      field (xdr_opaque X 4) magic (\<lambda>v. magic_update (\<lambda>_. v)),
      field (xdr_opaque X 4) mc_api_version (\<lambda>v. mc_api_version_update (\<lambda>_. v))]"

definition xdr_TDB_msg_resp_connect_t :: "xdrlib \<Rightarrow> TDB_msg_resp_connect_t xproc" where
  "xdr_TDB_msg_resp_connect_t X = xdr_seq
     [field (xdr_TDB_proto_msg_type_enum X) rc_type (\<lambda>v. rc_type_update (\<lambda>_. v)),
      field (xdr_opaque X 4) rc_api_version (\<lambda>v. rc_api_version_update (\<lambda>_. v)),
      field (xdr_bool X) rc_success (\<lambda>v. rc_success_update (\<lambda>_. v))]"

definition xdr_TDB_msg_consensus_log_entry_t :: "xdrlib \<Rightarrow> TDB_msg_consensus_log_entry_t xproc" where
  "xdr_TDB_msg_consensus_log_entry_t X = xdr_seq
     [field (xdr_bytes X) entry_data (\<lambda>v. entry_data_update (\<lambda>_. v))]"

text \<open>The four numbers one by one, or in line when the stream has room for them in its buffer.\<close>

definition xdr_indices :: "xdrlib \<Rightarrow> TDB_msg_consensus_t xproc" where
  "xdr_indices X = xdr_seq
     [field (xdr_u_long X) cs_term (\<lambda>v. cs_term_update (\<lambda>_. v)),
      field (xdr_u_long X) log_index (\<lambda>v. log_index_update (\<lambda>_. v)),
      field (xdr_u_long X) log_term (\<lambda>v. log_term_update (\<lambda>_. v)),
      field (xdr_u_long X) commit_index (\<lambda>v. commit_index_update (\<lambda>_. v))]"

definition xdr_indices_inline :: "xdrlib \<Rightarrow> TDB_msg_consensus_t xproc" where
  "xdr_indices_inline X op sm =
     (case xdr_inline4 X op (fst sm, cs_term (snd sm), log_index (snd sm), log_term (snd sm), commit_index (snd sm)) of
        None \<Rightarrow> xdr_indices X op sm
      | Some (s', t, li, lt, ci) \<Rightarrow>
          (True, s', snd sm\<lparr>cs_term := t, log_index := li, log_term := lt, commit_index := ci\<rparr>))"

definition xdr_TDB_msg_consensus_t ::
    "xdrlib \<Rightarrow> (TDB_msg_consensus_log_entry_t xproc \<Rightarrow> TDB_msg_consensus_log_entry_t list xproc) \<Rightarrow>
     TDB_msg_consensus_t xproc" where
  "xdr_TDB_msg_consensus_t X arr op = xdr_seq
     [field (xdr_TDB_proto_msg_type_enum X) cs_type (\<lambda>v. cs_type_update (\<lambda>_. v)),
      field (xdr_bool X) is_vote (\<lambda>v. is_vote_update (\<lambda>_. v)),
      field (xdr_opaque X 16) uuid_id (\<lambda>v. uuid_id_update (\<lambda>_. v)),
      (if op = XDR_ENCODE \<or> op = XDR_DECODE then xdr_indices_inline X else xdr_indices X),
      field (arr (xdr_TDB_msg_consensus_log_entry_t X)) log_entries (\<lambda>v. log_entries_update (\<lambda>_. v))] op"

definition xdr_TDB_msg_resp_consensus_t :: "xdrlib \<Rightarrow> TDB_msg_resp_consensus_t xproc" where
  "xdr_TDB_msg_resp_consensus_t X = xdr_seq
     [field (xdr_TDB_proto_msg_type_enum X) rs_type (\<lambda>v. rs_type_update (\<lambda>_. v)),
      field (xdr_u_long X) rs_term (\<lambda>v. rs_term_update (\<lambda>_. v)),
      field (xdr_bool X) rs_success (\<lambda>v. rs_success_update (\<lambda>_. v))]"

definition xdr_TDB_msg_control_action_type_enum :: "xdrlib \<Rightarrow> int xproc" where
  "xdr_TDB_msg_control_action_type_enum X = xdr_enum X"

definition xdr_TDB_msg_control :: "xdrlib \<Rightarrow> TDB_msg_control xproc" where
  "xdr_TDB_msg_control X = xdr_seq
     [field (xdr_TDB_proto_msg_type_enum X) ct_type (\<lambda>v. ct_type_update (\<lambda>_. v)),
      field (xdr_TDB_msg_control_action_type_enum X) ct_action (\<lambda>v. ct_action_update (\<lambda>_. v)),
      field (xdr_opaque X 16) ct_uuid (\<lambda>v. ct_uuid_update (\<lambda>_. v))]"

definition xdr_TDB_msg_resp_control_t :: "xdrlib \<Rightarrow> TDB_msg_resp_control_t xproc" where
  "xdr_TDB_msg_resp_control_t X = xdr_seq
     [field (xdr_TDB_proto_msg_type_enum X) rt_type (\<lambda>v. rt_type_update (\<lambda>_. v)),
      field (xdr_bool X) rt_success (\<lambda>v. rt_success_update (\<lambda>_. v))]"

definition xdr_TDB_msg_data_transaction_enum :: "xdrlib \<Rightarrow> int xproc" where
  "xdr_TDB_msg_data_transaction_enum X = xdr_enum X"

definition xdr_TDB_msg_data_verb_enum :: "xdrlib \<Rightarrow> int xproc" where
  "xdr_TDB_msg_data_verb_enum X = xdr_enum X"

definition xdr_TDB_msg_data_mode_enum :: "xdrlib \<Rightarrow> int xproc" where
  "xdr_TDB_msg_data_mode_enum X = xdr_enum X"

definition xdr_TDB_msg_data_op_t :: "xdrlib \<Rightarrow> TDB_msg_data_op_t xproc" where
  "xdr_TDB_msg_data_op_t X = xdr_seq
     [field (xdr_TDB_msg_data_verb_enum X) op_verb (\<lambda>v. op_verb_update (\<lambda>_. v)),
      field (xdr_bytes X) op_data (\<lambda>v. op_data_update (\<lambda>_. v))]"

definition xdr_TDB_msg_data_t ::
    "xdrlib \<Rightarrow> (TDB_msg_data_op_t xproc \<Rightarrow> TDB_msg_data_op_t list xproc) \<Rightarrow> TDB_msg_data_t xproc" where
  "xdr_TDB_msg_data_t X arr = xdr_seq
     [field (xdr_TDB_proto_msg_type_enum X) dt_type (\<lambda>v. dt_type_update (\<lambda>_. v)),
      field (xdr_TDB_msg_data_mode_enum X) dt_mode (\<lambda>v. dt_mode_update (\<lambda>_. v)),
      field (xdr_TDB_msg_data_transaction_enum X) transaction (\<lambda>v. transaction_update (\<lambda>_. v)),
      field (arr (xdr_TDB_msg_data_op_t X)) ops (\<lambda>v. ops_update (\<lambda>_. v))]"

definition xdr_TDB_msg_resp_data_t :: "xdrlib \<Rightarrow> TDB_msg_resp_data_t xproc" where
  "xdr_TDB_msg_resp_data_t X = xdr_seq
     [field (xdr_TDB_proto_msg_type_enum X) rd_type (\<lambda>v. rd_type_update (\<lambda>_. v)),
      field (xdr_bool X) rd_success (\<lambda>v. rd_success_update (\<lambda>_. v))]"

section \<open>Round trips\<close>

text \<open>
  A filter is good on a domain when what it encodes it decodes again, whatever follows on the stream
  and whatever the destination held.
\<close>

definition good :: "'a xproc \<Rightarrow> ('a \<Rightarrow> bool) \<Rightarrow> bool" where
  "good p vals \<longleftrightarrow>
     (\<forall>v out. vals v \<longrightarrow> (\<exists>bs. p XDR_ENCODE (out, v) = (True, out @ bs, v) \<and>
        (\<forall>junk rest. p XDR_DECODE (bs @ rest, junk) = (True, rest, v))))"

lemma goodE:
  assumes "good p vals" and "vals v"
  obtains bs where "p XDR_ENCODE (out, v) = (True, out @ bs, v)"
    and "\<And>junk rest. p XDR_DECODE (bs @ rest, junk) = (True, rest, v)"
  using assms unfolding good_def by meson

text \<open>The same for a part of a structure: \<open>mrg\<close> copies that part over the destination.\<close>

definition good_part :: "'m xproc \<Rightarrow> ('m \<Rightarrow> bool) \<Rightarrow> ('m \<Rightarrow> 'm \<Rightarrow> 'm) \<Rightarrow> bool" where
  "good_part p vals mrg \<longleftrightarrow>
     (\<forall>v out. vals v \<longrightarrow> (\<exists>bs. p XDR_ENCODE (out, v) = (True, out @ bs, v) \<and>
        (\<forall>junk rest. p XDR_DECODE (bs @ rest, junk) = (True, rest, mrg v junk))))"

lemma good_part_field:
  "good p vals \<Longrightarrow> (\<And>m. put (get m) m = m) \<Longrightarrow>
   good_part (field p get put) (\<lambda>m. vals (get m)) (\<lambda>m. put (get m))"
  unfolding good_def good_part_def field_def prod.case
proof (intro allI impI)
  fix v out
  assume g: "\<forall>v out. vals v \<longrightarrow> (\<exists>bs. p XDR_ENCODE (out, v) = (True, out @ bs, v) \<and>
      (\<forall>junk rest. p XDR_DECODE (bs @ rest, junk) = (True, rest, v)))"
    and pg: "\<And>m. put (get m) m = m" and v: "vals (get v)"
  obtain bs where "p XDR_ENCODE (out, get v) = (True, out @ bs, get v)"
    and "\<And>junk rest. p XDR_DECODE (bs @ rest, junk) = (True, rest, get v)"
    using g v by blast
  then show "\<exists>bs. (case p XDR_ENCODE (out, get v) of (ok, s', x) \<Rightarrow> (ok, s', put x v)) = (True, out @ bs, v) \<and>
      (\<forall>junk rest. (case p XDR_DECODE (bs @ rest, get junk) of (ok, s', x) \<Rightarrow> (ok, s', put x junk)) =
        (True, rest, put (get v) junk))"
    by (intro exI [of _ bs]) (simp add: pg)
qed

lemma good_part_Nil: "good_part (xdr_seq []) (\<lambda>m. True) (\<lambda>m m0. m0)"
  by (auto simp: good_part_def)

lemma good_part_Cons:
  assumes f: "good_part f d1 g1" and fs: "good_part (xdr_seq fs) d2 g2"
  shows "good_part (xdr_seq (f # fs)) (\<lambda>m. d1 m \<and> d2 m) (\<lambda>m m0. g2 m (g1 m m0))"
  unfolding good_part_def
proof (intro allI impI)
  fix v out
  assume d: "d1 v \<and> d2 v"
  obtain bs1 where b1: "f XDR_ENCODE (out, v) = (True, out @ bs1, v)"
    and r1: "\<And>junk rest. f XDR_DECODE (bs1 @ rest, junk) = (True, rest, g1 v junk)"
    using f d unfolding good_part_def by blast
  obtain bs2 where b2: "xdr_seq fs XDR_ENCODE (out @ bs1, v) = (True, (out @ bs1) @ bs2, v)"
    and r2: "\<And>junk rest. xdr_seq fs XDR_DECODE (bs2 @ rest, junk) = (True, rest, g2 v junk)"
    using fs d unfolding good_part_def by blast
  show "\<exists>bs. xdr_seq (f # fs) XDR_ENCODE (out, v) = (True, out @ bs, v) \<and>
      (\<forall>junk rest. xdr_seq (f # fs) XDR_DECODE (bs @ rest, junk) = (True, rest, g2 v (g1 v junk)))"
    by (rule exI [of _ "bs1 @ bs2"]) (use b1 r1 b2 r2 in simp)
qed

lemma good_of_part:
  "good_part p vals mrg \<Longrightarrow> (\<And>m m0. mrg m m0 = m) \<Longrightarrow> (\<And>m. vals' m \<Longrightarrow> vals m) \<Longrightarrow> good p vals'"
  unfolding good_part_def good_def by metis

lemmas good_parts = good_part_Nil good_part_Cons good_part_field

text \<open>
  What the code relies on of the RPC library: each filter is good on the values its encoding can
  hold (32-bit numbers, fixed and counted byte strings), and the in-line access does what the four
  single calls do.
\<close>

definition int32 :: "int \<Rightarrow> bool" where
  "int32 v \<longleftrightarrow> - (2 ^ 31) \<le> v \<and> v < 2 ^ 31"

definition counted :: "'a list \<Rightarrow> bool" where
  "counted bs \<longleftrightarrow> length bs < 2 ^ 32"

definition small :: "ulong \<Rightarrow> bool" where
  "small v \<longleftrightarrow> v < 2 ^ 32"

definition address_ok :: "byte list \<Rightarrow> bool" where
  "address_ok a \<longleftrightarrow> counted a \<and> 0 \<notin> set a"

definition xdrlib_ok :: "xdrlib \<Rightarrow> bool" where
  "xdrlib_ok X \<longleftrightarrow>
     good (xdr_enum X) int32 \<and> good (xdr_int X) int32 \<and> good (xdr_bool X) (\<lambda>b. True) \<and>
     (\<forall>n. good (xdr_opaque X n) (\<lambda>bs. length bs = n)) \<and> good (xdr_string X) address_ok \<and>
     good (xdr_bytes X) counted \<and> good (xdr_u_long X) small \<and>
     (\<forall>op s t li lt ci s' t' li' lt' ci' m.
        xdr_inline4 X op (s, t, li, lt, ci) = Some (s', t', li', lt', ci') \<and>
        cs_term m = t \<and> log_index m = li \<and> log_term m = lt \<and> commit_index m = ci \<longrightarrow>
        xdr_indices X op (s, m) =
          (True, s', m\<lparr>cs_term := t', log_index := li', log_term := lt', commit_index := ci'\<rparr>))"

definition array_ok :: "('e xproc \<Rightarrow> 'e list xproc) \<Rightarrow> bool" where
  "array_ok arr \<longleftrightarrow> (\<forall>p vals. good p vals \<longrightarrow> good (arr p) (\<lambda>xs. counted xs \<and> list_all vals xs))"

lemma xdrlib_okD:
  assumes "xdrlib_ok X"
  shows "good (xdr_enum X) int32" and "good (xdr_int X) int32" and "good (xdr_bool X) (\<lambda>b. True)"
    and "good (xdr_opaque X n) (\<lambda>bs. length bs = n)" and "good (xdr_string X) address_ok"
    and "good (xdr_bytes X) counted" and "good (xdr_u_long X) small"
  using assms by (simp_all add: xdrlib_ok_def)

text \<open>The in-line path is the slow path.\<close>

lemma xdr_indices_inline_eq:
  assumes "xdrlib_ok X"
  shows "xdr_indices_inline X = xdr_indices X"
proof (intro ext)
  fix op and sm :: "byte list \<times> TDB_msg_consensus_t"
  obtain s m where sm: "sm = (s, m)" by (cases sm)
  show "xdr_indices_inline X op sm = xdr_indices X op sm"
  proof (cases "xdr_inline4 X op (s, cs_term m, log_index m, log_term m, commit_index m)")
    case None
    then show ?thesis by (simp add: xdr_indices_inline_def sm)
  next
    case (Some r)
    obtain s' t' li' lt' ci' where r: "r = (s', t', li', lt', ci')" by (cases r) auto
    have "xdr_indices X op (s, m) =
        (True, s', m\<lparr>cs_term := t', log_index := li', log_term := lt', commit_index := ci'\<rparr>)"
      using assms Some unfolding xdrlib_ok_def r by blast
    then show ?thesis using Some by (simp add: xdr_indices_inline_def sm r)
  qed
qed

section \<open>Messages round trip\<close>

definition replica_info_ok :: "TDB_replica_info_t \<Rightarrow> bool" where
  "replica_info_ok r \<longleftrightarrow> length (ri_uuid r) = 16 \<and> int32 (ri_port r) \<and> address_ok (ri_address r)"

lemma good_replica_info:
  assumes "xdrlib_ok X"
  shows "good (xdr_TDB_replica_info_t X) replica_info_ok"
  unfolding xdr_TDB_replica_info_t_def
  by (rule good_of_part, (rule good_parts xdrlib_okD [OF assms] | simp; fail)+)
    (auto simp: replica_info_ok_def)

definition bootstrap_ok :: "TDB_msg_bootstrap_t \<Rightarrow> bool" where
  "bootstrap_ok m \<longleftrightarrow> int32 (bs_type m) \<and> length (bs_uuid m) = 16 \<and> int32 (bs_port m) \<and> address_ok (bs_address m)"

definition resp_bootstrap_ok :: "TDB_msg_resp_bootstrap_t \<Rightarrow> bool" where
  "resp_bootstrap_ok m \<longleftrightarrow> int32 (rb_type m) \<and> counted (known_replicas m) \<and>
     list_all replica_info_ok (known_replicas m)"

definition connect_ok :: "TDB_msg_connect_t \<Rightarrow> bool" where
  "connect_ok m \<longleftrightarrow> int32 (mc_type m) \<and> length (magic m) = 4 \<and> length (mc_api_version m) = 4"

definition resp_connect_ok :: "TDB_msg_resp_connect_t \<Rightarrow> bool" where
  "resp_connect_ok m \<longleftrightarrow> int32 (rc_type m) \<and> length (rc_api_version m) = 4"

definition entry_ok :: "TDB_msg_consensus_log_entry_t \<Rightarrow> bool" where
  "entry_ok e \<longleftrightarrow> counted (entry_data e)"

definition consensus_ok :: "TDB_msg_consensus_t \<Rightarrow> bool" where
  "consensus_ok m \<longleftrightarrow> int32 (cs_type m) \<and> length (uuid_id m) = 16 \<and> small (cs_term m) \<and>
     small (log_index m) \<and> small (log_term m) \<and> small (commit_index m) \<and>
     counted (log_entries m) \<and> list_all entry_ok (log_entries m)"

definition control_ok :: "TDB_msg_control \<Rightarrow> bool" where
  "control_ok m \<longleftrightarrow> int32 (ct_type m) \<and> int32 (ct_action m) \<and> length (ct_uuid m) = 16"

definition data_op_ok :: "TDB_msg_data_op_t \<Rightarrow> bool" where
  "data_op_ok m \<longleftrightarrow> int32 (op_verb m) \<and> counted (op_data m)"

definition data_ok :: "TDB_msg_data_t \<Rightarrow> bool" where
  "data_ok m \<longleftrightarrow> int32 (dt_type m) \<and> int32 (dt_mode m) \<and> int32 (transaction m) \<and>
     counted (ops m) \<and> list_all data_op_ok (ops m)"

definition resp_consensus_ok :: "TDB_msg_resp_consensus_t \<Rightarrow> bool" where
  "resp_consensus_ok m \<longleftrightarrow> int32 (rs_type m) \<and> small (rs_term m)"

definition resp_control_ok :: "TDB_msg_resp_control_t \<Rightarrow> bool" where
  "resp_control_ok m \<longleftrightarrow> int32 (rt_type m)"

definition resp_data_ok :: "TDB_msg_resp_data_t \<Rightarrow> bool" where
  "resp_data_ok m \<longleftrightarrow> int32 (rd_type m)"

lemmas enum_filters = xdr_TDB_proto_msg_type_enum_def xdr_TDB_msg_control_action_type_enum_def
  xdr_TDB_msg_data_transaction_enum_def xdr_TDB_msg_data_verb_enum_def xdr_TDB_msg_data_mode_enum_def

lemma array_okD: "array_ok arr \<Longrightarrow> good p vals \<Longrightarrow> good (arr p) (\<lambda>xs. counted xs \<and> list_all vals xs)"
  by (simp add: array_ok_def)

lemma good_plain_messages:
  assumes "xdrlib_ok X"
  shows "good (xdr_TDB_msg_bootstrap_t X) bootstrap_ok"
    and "good (xdr_TDB_msg_connect_t X) connect_ok"
    and "good (xdr_TDB_msg_resp_connect_t X) resp_connect_ok"
    and "good (xdr_TDB_msg_consensus_log_entry_t X) entry_ok"
    and "good (xdr_TDB_msg_resp_consensus_t X) resp_consensus_ok"
    and "good (xdr_TDB_msg_control X) control_ok"
    and "good (xdr_TDB_msg_resp_control_t X) resp_control_ok"
    and "good (xdr_TDB_msg_data_op_t X) data_op_ok"
    and "good (xdr_TDB_msg_resp_data_t X) resp_data_ok"
  unfolding xdr_TDB_msg_bootstrap_t_def xdr_TDB_msg_connect_t_def xdr_TDB_msg_resp_connect_t_def
    xdr_TDB_msg_consensus_log_entry_t_def xdr_TDB_msg_resp_consensus_t_def xdr_TDB_msg_control_def
    xdr_TDB_msg_resp_control_t_def xdr_TDB_msg_data_op_t_def xdr_TDB_msg_resp_data_t_def enum_filters
  by (rule good_of_part, (rule good_parts xdrlib_okD [OF assms] | simp; fail)+,
      auto simp: bootstrap_ok_def connect_ok_def resp_connect_ok_def entry_ok_def control_ok_def data_op_ok_def
        resp_consensus_ok_def resp_control_ok_def resp_data_ok_def; fail)+

lemma good_array_messages:
  assumes "xdrlib_ok X"
  shows "array_ok arr1 \<Longrightarrow> good (xdr_TDB_msg_resp_bootstrap_t X arr1) resp_bootstrap_ok"
    and "array_ok arr3 \<Longrightarrow> good (xdr_TDB_msg_data_t X arr3) data_ok"
  unfolding xdr_TDB_msg_resp_bootstrap_t_def xdr_TDB_msg_data_t_def enum_filters
  by (rule good_of_part, (rule good_parts xdrlib_okD [OF assms] array_okD good_replica_info [OF assms]
        good_plain_messages [OF assms] | assumption | simp; fail)+,
      auto simp: resp_bootstrap_ok_def data_ok_def; fail)+

lemma good_part_indices:
  assumes "xdrlib_ok X"
  shows "good_part (xdr_indices X)
    (\<lambda>m. small (cs_term m) \<and> small (log_index m) \<and> small (log_term m) \<and> small (commit_index m) \<and> True)
    (\<lambda>m m0. m0\<lparr>cs_term := cs_term m, log_index := log_index m, log_term := log_term m, commit_index := commit_index m\<rparr>)"
  unfolding xdr_indices_def by (rule good_parts xdrlib_okD [OF assms] | simp; fail)+

lemma good_consensus:
  assumes "xdrlib_ok X" and "array_ok arr"
  shows "good (xdr_TDB_msg_consensus_t X arr) consensus_ok"
proof -
  have e: "xdr_TDB_msg_consensus_t X arr = xdr_seq
     [field (xdr_TDB_proto_msg_type_enum X) cs_type (\<lambda>v. cs_type_update (\<lambda>_. v)),
      field (xdr_bool X) is_vote (\<lambda>v. is_vote_update (\<lambda>_. v)),
      field (xdr_opaque X 16) uuid_id (\<lambda>v. uuid_id_update (\<lambda>_. v)),
      xdr_indices X,
      field (arr (xdr_TDB_msg_consensus_log_entry_t X)) log_entries (\<lambda>v. log_entries_update (\<lambda>_. v))]"
    by (rule ext) (simp add: xdr_TDB_msg_consensus_t_def xdr_indices_inline_eq [OF assms(1)])
  show ?thesis unfolding e enum_filters
    by (rule good_of_part, (rule good_part_Nil good_part_Cons good_part_indices [OF assms(1)] good_part_field
          xdrlib_okD [OF assms(1)] array_okD [OF assms(2)] good_plain_messages [OF assms(1)] | simp; fail)+)
      (auto simp: consensus_ok_def)
qed

text \<open>
  C20: Consensus messages survive the wire: over an RPC library that keeps its promises, a message
  whose numbers fit 32 bits is encoded behind what the stream held, and decoding those bytes gives the
  same message back, field by field, into any destination and with any bytes following.
\<close>

theorem consensus_message_round_trip:
  assumes "xdrlib_ok X" and "array_ok arr" and "consensus_ok m"
  shows "\<exists>bs. xdr_TDB_msg_consensus_t X arr XDR_ENCODE (out, m) = (True, out @ bs, m) \<and>
     (\<forall>junk rest. xdr_TDB_msg_consensus_t X arr XDR_DECODE (bs @ rest, junk) = (True, rest, m))"
  using good_consensus [OF assms(1,2)] assms(3) unfolding good_def by blast

text \<open>
  C21: All other messages of the protocol survive the wire in the same way: bootstrap, connect, control
  and data messages, with the lists of replicas and of operations they carry, and their responses.
\<close>

theorem other_messages_round_trip:
  assumes "xdrlib_ok X" and "array_ok arr1" and "array_ok arr2"
  shows "good (xdr_TDB_msg_bootstrap_t X) bootstrap_ok \<and>
    good (xdr_TDB_msg_resp_bootstrap_t X arr1) resp_bootstrap_ok \<and>
    good (xdr_TDB_msg_connect_t X) connect_ok \<and>
    good (xdr_TDB_msg_resp_connect_t X) resp_connect_ok \<and>
    good (xdr_TDB_msg_resp_consensus_t X) resp_consensus_ok \<and>
    good (xdr_TDB_msg_control X) control_ok \<and>
    good (xdr_TDB_msg_resp_control_t X) resp_control_ok \<and>
    good (xdr_TDB_msg_data_t X arr2) data_ok \<and>
    good (xdr_TDB_msg_resp_data_t X) resp_data_ok"
  using good_plain_messages [OF assms(1)] good_array_messages [OF assms(1)] assms(2,3) by blast

section \<open>A concrete library\<close>

text \<open>Filters of fixed width and counted filters, over big-endian numbers.\<close>

definition fixed_proc :: "nat \<Rightarrow> ('a \<Rightarrow> byte list) \<Rightarrow> (byte list \<Rightarrow> 'a) \<Rightarrow> 'a xproc" where
  "fixed_proc n enc dec op = (\<lambda>(s, v).
     (case op of XDR_ENCODE \<Rightarrow> (True, s @ enc v, v)
      | XDR_DECODE \<Rightarrow> if length s < n then (False, s, v) else (True, drop n s, dec (take n s))
      | XDR_FREE \<Rightarrow> (True, s, v)))"

lemma good_fixed:
  "(\<And>v. vals v \<Longrightarrow> length (enc v) = n \<and> dec (enc v) = v) \<Longrightarrow> good (fixed_proc n enc dec) vals"
  by (auto simp: good_def fixed_proc_def)

definition put32 :: "32 word \<Rightarrow> byte list" where
  "put32 w =
     (let n = unat w
      in [of_nat (n div 256 div 256 div 256), of_nat (n div 256 div 256), of_nat (n div 256), of_nat n])"

definition get32 :: "byte list \<Rightarrow> 32 word" where
  "get32 bs = of_nat (foldl (\<lambda>a b. a * 256 + unat b) 0 bs)"

lemma put32: "length (put32 w) = 4" "get32 (put32 w) = w"
proof -
  show "length (put32 w) = 4" by (simp add: put32_def Let_def)
  define n where "n = unat w"
  have n: "n < 2 ^ 32" unfolding n_def using unsigned_less [of w, where ?'a = nat] by simp
  have b: "unat (of_nat k :: byte) = k mod 256" for k by (simp add: unat_of_nat)
  have q: "n div 256 div 256 div 256 < 256" using n by (simp add: div_mult2_eq [symmetric] less_mult_imp_div_less)
  have "foldl (\<lambda>a b. a * 256 + unat b) 0 (put32 w) =
      (((n div 256 div 256 div 256) mod 256 * 256 + n div 256 div 256 mod 256) * 256 + n div 256 mod 256) * 256 + n mod 256"
    by (simp add: put32_def Let_def b flip: n_def)
  also have "\<dots> = n" using q by (simp add: div_mult_mod_eq)
  finally show "get32 (put32 w) = w" by (simp add: get32_def n_def)
qed

definition counted_proc :: "byte list xproc" where
  "counted_proc op = (\<lambda>(s, v).
     (case op of XDR_ENCODE \<Rightarrow> (True, s @ put32 (of_nat (length v)) @ v, v)
      | XDR_DECODE \<Rightarrow>
          (let n = unat (get32 (take 4 s))
           in if length s < 4 + n then (False, s, v) else (True, drop (4 + n) s, take n (drop 4 s)))
      | XDR_FREE \<Rightarrow> (True, s, v)))"

lemma unat_of_counted: "counted xs \<Longrightarrow> unat (of_nat (length xs) :: 32 word) = length xs"
  by (simp add: counted_def unat_of_nat)

lemma good_counted: "(\<And>v. vals v \<Longrightarrow> counted v) \<Longrightarrow> good counted_proc vals"
  by (auto simp: good_def counted_proc_def put32 Let_def unat_of_counted)

primrec enc_all :: "'e xproc \<Rightarrow> 'e list \<Rightarrow> byte list \<Rightarrow> bool \<times> byte list" where
  "enc_all p [] s = (True, s)"
| "enc_all p (x # xs) s =
     (case p XDR_ENCODE (s, x) of (ok, s', y) \<Rightarrow> if ok then enc_all p xs s' else (False, s'))"

primrec dec_all :: "'e xproc \<Rightarrow> 'e \<Rightarrow> nat \<Rightarrow> byte list \<Rightarrow> bool \<times> byte list \<times> 'e list" where
  "dec_all p e 0 s = (True, s, [])"
| "dec_all p e (Suc n) s =
     (case p XDR_DECODE (s, e) of (ok, s', x) \<Rightarrow>
        if ok then (case dec_all p e n s' of (ok', s'', xs) \<Rightarrow> (ok', s'', x # xs)) else (False, s', []))"

definition array_proc :: "'e \<Rightarrow> 'e xproc \<Rightarrow> 'e list xproc" where
  "array_proc e p op = (\<lambda>(s, v).
     (case op of
        XDR_ENCODE \<Rightarrow> (case enc_all p v (s @ put32 (of_nat (length v))) of (ok, s') \<Rightarrow> (ok, s', v))
      | XDR_DECODE \<Rightarrow> if length s < 4 then (False, s, v) else dec_all p e (unat (get32 (take 4 s))) (drop 4 s)
      | XDR_FREE \<Rightarrow> (True, s, v)))"

lemma enc_dec_all:
  assumes "good p vals"
  shows "list_all vals xs \<Longrightarrow> \<exists>bs. enc_all p xs out = (True, out @ bs) \<and>
    (\<forall>rest. dec_all p e (length xs) (bs @ rest) = (True, rest, xs))"
proof (induction xs arbitrary: out)
  case Nil
  then show ?case by simp
next
  case (Cons x xs)
  obtain b where b: "p XDR_ENCODE (out, x) = (True, out @ b, x)"
    "\<And>junk rest. p XDR_DECODE (b @ rest, junk) = (True, rest, x)"
    using goodE [OF assms, of x out] Cons.prems by auto
  obtain bs where bs: "enc_all p xs (out @ b) = (True, (out @ b) @ bs)"
    "\<And>rest. dec_all p e (length xs) (bs @ rest) = (True, rest, xs)"
    using Cons.IH Cons.prems by fastforce
  show ?case by (rule exI [of _ "b @ bs"]) (simp add: b bs)
qed

lemma array_ok_array_proc: "array_ok (array_proc e)"
  unfolding array_ok_def
proof (intro allI impI)
  fix p :: "'a xproc" and vals
  assume g: "good p vals"
  show "good (array_proc e p) (\<lambda>xs. counted xs \<and> list_all vals xs)"
    unfolding good_def
  proof (intro allI impI)
    fix v out
    assume v: "counted v \<and> list_all vals v"
    obtain bs where bs: "enc_all p v (out @ put32 (of_nat (length v))) = (True, (out @ put32 (of_nat (length v))) @ bs)"
      "\<And>rest. dec_all p e (length v) (bs @ rest) = (True, rest, v)"
      using enc_dec_all [OF g] v by meson
    show "\<exists>bs. array_proc e p XDR_ENCODE (out, v) = (True, out @ bs, v) \<and>
        (\<forall>junk rest. array_proc e p XDR_DECODE (bs @ rest, junk) = (True, rest, v))"
      by (rule exI [of _ "put32 (of_nat (length v)) @ bs"])
        (use v in \<open>simp add: array_proc_def bs put32 unat_of_counted\<close>)
  qed
qed

definition demo_xdrlib :: xdrlib where
  "demo_xdrlib =
     \<lparr>xdr_enum = fixed_proc 4 (\<lambda>v. put32 (word_of_int v)) (\<lambda>bs. sint (get32 bs)),
      xdr_int = fixed_proc 4 (\<lambda>v. put32 (word_of_int v)) (\<lambda>bs. sint (get32 bs)),
      xdr_bool = fixed_proc 1 (\<lambda>b. [if b then 1 else 0]) (\<lambda>bs. hd bs \<noteq> 0),
      xdr_opaque = (\<lambda>n. fixed_proc n (\<lambda>bs. bs) (\<lambda>bs. bs)),
      xdr_string = counted_proc, xdr_bytes = counted_proc,
      xdr_u_long = fixed_proc 4 (\<lambda>v. put32 (ucast v)) (\<lambda>bs. ucast (get32 bs)),
      xdr_inline4 = (\<lambda>op sm. None)\<rparr>"

lemma xdrlib_ok_demo: "xdrlib_ok demo_xdrlib"
proof -
  have i: "sint (word_of_int v :: 32 word) = v" if "int32 v" for v
    using that by (simp add: int32_def sint_sbintrunc' signed_take_bit_int_eq_self)
  have u: "ucast (ucast v :: 32 word) = v" if "small v" for v :: ulong
  proof (rule word_uint_eqI)
    have "uint v < 2 ^ 32" using that by (simp add: small_def word_less_def)
    then show "uint (ucast (ucast v :: 32 word) :: ulong) = uint v"
      by (simp add: unsigned_ucast_eq [where ?'a = int] take_bit_int_eq_self)
  qed
  show ?thesis
    unfolding xdrlib_ok_def demo_xdrlib_def
    using good_counted [of address_ok]
    by (simp add: good_fixed good_counted put32 i u address_ok_def)
qed

definition demo_vote :: TDB_msg_consensus_t where
  "demo_vote = \<lparr>cs_type = msg_type_code CONSENSUS, is_vote = True, uuid_id = replicate 16 7, cs_term = 3,
     log_index = 12, log_term = 2, commit_index = 0, log_entries = [\<lparr>entry_data = [1, 2]\<rparr>]\<rparr>"

lemma consensus_message_round_trip_witness:
  "\<exists>bs. xdr_TDB_msg_consensus_t demo_xdrlib (array_proc \<lparr>entry_data = []\<rparr>) XDR_ENCODE ([9], demo_vote) =
       (True, [9] @ bs, demo_vote) \<and>
     (\<forall>junk rest. xdr_TDB_msg_consensus_t demo_xdrlib (array_proc \<lparr>entry_data = []\<rparr>) XDR_DECODE (bs @ rest, junk) =
       (True, rest, demo_vote))"
  by (rule consensus_message_round_trip [OF xdrlib_ok_demo array_ok_array_proc])
    (simp add: consensus_ok_def demo_vote_def int32_def small_def counted_def entry_ok_def)

lemma other_messages_round_trip_witness:
  "good (xdr_TDB_msg_data_t demo_xdrlib (array_proc \<lparr>op_verb = 0, op_data = []\<rparr>)) data_ok \<and>
   data_ok \<lparr>dt_type = msg_type_code DATA, dt_mode = mode_code READ_ONLY, transaction = transaction_code SINGLE,
     ops = [\<lparr>op_verb = verb_code GET, op_data = [97]\<rparr>]\<rparr>"
  using other_messages_round_trip [OF xdrlib_ok_demo
      array_ok_array_proc [of "\<lparr>ri_uuid = [], ri_port = 0, ri_address = []\<rparr>"]
      array_ok_array_proc [of "\<lparr>op_verb = 0, op_data = []\<rparr>"]]
  by (simp add: data_ok_def data_op_ok_def int32_def counted_def)

end
