(* ===== verification/Ut_Array.thy ===== *)
theory Ut_Array
  imports Tdb_Prelude
begin

text \<open>
  The dynamic array of src/src/common/ut/utarray.h.  An array is its slots \<open>slots\<close> and the number \<open>used\<close> of
  slots in use; the number \<^verbatim>\<open>n\<close> of slots is the length of \<open>slots\<close>.  Slots the allocator has added hold
  \<open>junk\<close>, a value per position that no result depends on, and \<open>ok\<close> is whether \<^verbatim>\<open>realloc\<close> succeeds; when
  it does not, the macro ends the process.  Sizes stay below \<open>2^31\<close>, so the unsigned counters only wrap
  where the code subtracts.
\<close>

section \<open>Representation\<close>

text \<open>
  The element interface: the constructor for new elements, the copy function, whether there is a
  destructor, and the value whose bytes are all zero.
\<close>

record 'a UT_icd =
  icd_init :: "'a option"
  icd_copy :: "('a \<Rightarrow> 'a) option"
  icd_dtor :: bool
  icd_zero :: 'a

text \<open>\<open>dead\<close> logs the destructor calls: the element destroyed, or \<open>None\<close> for a null pointer.\<close>

record 'a UT_array =
  used :: nat
  icd :: "'a UT_icd"
  slots :: "'a list"
  dead :: "'a option list"

definition utarray_init :: "'a UT_icd \<Rightarrow> 'a UT_array" where
  "utarray_init ic = \<lparr>used = 0, icd = ic, slots = [], dead = []\<rparr>"

definition elt :: "'a UT_array \<Rightarrow> nat \<Rightarrow> 'a option" where
  "elt a j = (if j < used a then Some (slots a ! j) else None)"

text \<open>Destroying the elements at the indices of a list, in order.\<close>

definition destroy :: "nat list \<Rightarrow> 'a UT_array \<Rightarrow> 'a UT_array" where
  "destroy js a = (if icd_dtor (icd a) then a\<lparr>dead := dead a @ map (elt a) js\<rparr> else a)"

definition copied :: "'a UT_array \<Rightarrow> 'a \<Rightarrow> 'a" where
  "copied a x = (case icd_copy (icd a) of Some f \<Rightarrow> f x | None \<Rightarrow> x)"

definition fresh :: "'a UT_array \<Rightarrow> 'a" where
  "fresh a = (case icd_init (icd a) of Some x \<Rightarrow> x | None \<Rightarrow> icd_zero (icd a))"

definition sub32 :: "nat \<Rightarrow> nat \<Rightarrow> nat" where
  "sub32 a b = (a + 2 ^ 32 - b) mod 2 ^ 32"

section \<open>Operations\<close>

text \<open>The doubling loop.\<close>

function grow :: "nat \<Rightarrow> nat \<Rightarrow> nat" where
  "grow need n = (if need > n then grow need (if n > 0 then 2 * n else 8) else n)"
  by auto
termination by (relation "measure (\<lambda>(need, n). need - n)") auto

declare grow.simps [simp del]

definition utarray_reserve :: "bool \<Rightarrow> (nat \<Rightarrow> 'a) \<Rightarrow> nat \<Rightarrow> 'a UT_array \<Rightarrow> 'a UT_array outcome" where
  "utarray_reserve ok junk by_n a =
     (if used a + by_n > length (slots a) then
        (if ok then
           Return (a\<lparr>slots := slots a @ map junk [length (slots a)..<grow (used a + by_n) (length (slots a))]\<rparr>)
         else Exit (-1))
      else Return a)"

definition utarray_push_back :: "bool \<Rightarrow> (nat \<Rightarrow> 'a) \<Rightarrow> 'a \<Rightarrow> 'a UT_array \<Rightarrow> 'a UT_array outcome" where
  "utarray_push_back ok junk x a =
     (case utarray_reserve ok junk 1 a of
        Return a' \<Rightarrow> Return (a'\<lparr>slots := (slots a')[used a' := copied a' x], used := used a' + 1\<rparr>)
      | r \<Rightarrow> r)"

definition utarray_pop_back :: "'a UT_array \<Rightarrow> 'a UT_array" where
  "utarray_pop_back a =
     (let a' = a\<lparr>used := sub32 (used a) 1\<rparr>
      in if icd_dtor (icd a) then a'\<lparr>dead := dead a @ [Some (slots a ! used a')]\<rparr> else a')"

definition utarray_extend_back :: "bool \<Rightarrow> (nat \<Rightarrow> 'a) \<Rightarrow> 'a UT_array \<Rightarrow> 'a UT_array outcome" where
  "utarray_extend_back ok junk a =
     (case utarray_reserve ok junk 1 a of
        Return a' \<Rightarrow> Return (a'\<lparr>slots := (slots a')[used a' := fresh a'], used := used a' + 1\<rparr>)
      | r \<Rightarrow> r)"

definition utarray_len :: "'a UT_array \<Rightarrow> nat" where
  "utarray_len a = used a"

definition utarray_resize :: "bool \<Rightarrow> (nat \<Rightarrow> 'a) \<Rightarrow> nat \<Rightarrow> 'a UT_array \<Rightarrow> 'a UT_array outcome" where
  "utarray_resize ok junk num a =
     (if used a > num then Return ((destroy [num..<used a] a)\<lparr>used := num\<rparr>)
      else if used a < num then
        (case utarray_reserve ok junk (num - used a) a of
           Return a' \<Rightarrow>
             Return (a'\<lparr>slots := write_block (used a') (replicate (num - used a') (fresh a')) (slots a'), used := num\<rparr>)
         | r \<Rightarrow> r)
      else Return (a\<lparr>used := num\<rparr>))"

text \<open>Moving the tail up by \<open>k\<close> slots, as \<^verbatim>\<open>memmove\<close> does.\<close>

definition shift_up :: "nat \<Rightarrow> nat \<Rightarrow> 'a UT_array \<Rightarrow> 'a UT_array" where
  "shift_up j k a =
     (if j < used a then a\<lparr>slots := write_block (j + k) (read_block j (used a - j) (slots a)) (slots a)\<rparr> else a)"

definition utarray_insert ::
    "bool \<Rightarrow> bool \<Rightarrow> (nat \<Rightarrow> 'a) \<Rightarrow> 'a \<Rightarrow> nat \<Rightarrow> 'a UT_array \<Rightarrow> 'a UT_array outcome" where
  "utarray_insert ok1 ok2 junk x j a =
     (case (if j > used a then utarray_resize ok1 junk j a else Return a) of
        Return a1 \<Rightarrow>
          (case utarray_reserve ok2 junk 1 a1 of
             Return a2 \<Rightarrow>
               (let a3 = shift_up j 1 a2 in Return (a3\<lparr>slots := (slots a3)[j := copied a3 x], used := used a3 + 1\<rparr>))
           | r \<Rightarrow> r)
      | r \<Rightarrow> r)"

definition utarray_inserta ::
    "bool \<Rightarrow> bool \<Rightarrow> (nat \<Rightarrow> 'a) \<Rightarrow> 'a UT_array \<Rightarrow> nat \<Rightarrow> 'a UT_array \<Rightarrow> 'a UT_array outcome" where
  "utarray_inserta ok1 ok2 junk w j a =
     (if utarray_len w = 0 then Return a
      else
        case (if j > used a then utarray_resize ok1 junk j a else Return a) of
          Return a1 \<Rightarrow>
            (case utarray_reserve ok2 junk (utarray_len w) a1 of
               Return a2 \<Rightarrow>
                 (let a3 = shift_up j (utarray_len w) a2
                  in Return (a3\<lparr>slots := write_block j (map (copied a3) (read_block 0 (utarray_len w) (slots w))) (slots a3),
                               used := used a3 + utarray_len w\<rparr>))
             | r \<Rightarrow> r)
        | r \<Rightarrow> r)"

definition utarray_concat ::
    "bool \<Rightarrow> bool \<Rightarrow> (nat \<Rightarrow> 'a) \<Rightarrow> 'a UT_array \<Rightarrow> 'a UT_array \<Rightarrow> 'a UT_array outcome" where
  "utarray_concat ok1 ok2 junk src dst = utarray_inserta ok1 ok2 junk src (utarray_len dst) dst"

definition utarray_erase :: "nat \<Rightarrow> nat \<Rightarrow> 'a UT_array \<Rightarrow> 'a UT_array" where
  "utarray_erase pos len a =
     (let a1 = destroy [pos..<pos + len] a;
          a2 = (if used a1 > pos + len
                then a1\<lparr>slots := write_block pos (read_block (pos + len) (used a1 - (pos + len)) (slots a1)) (slots a1)\<rparr>
                else a1)
      in a2\<lparr>used := sub32 (used a2) len\<rparr>)"

definition utarray_clear :: "'a UT_array \<Rightarrow> 'a UT_array" where
  "utarray_clear a = (if used a > 0 then (destroy [0..<used a] a)\<lparr>used := 0\<rparr> else a)"

definition utarray_done :: "'a UT_array \<Rightarrow> 'a UT_array" where
  "utarray_done a = (if length (slots a) > 0 then (destroy [0..<used a] a)\<lparr>slots := []\<rparr> else a)"

definition utarray_renew :: "'a UT_icd \<Rightarrow> 'a UT_array option \<Rightarrow> 'a UT_array" where
  "utarray_renew ic a = (case a of Some b \<Rightarrow> utarray_clear b | None \<Rightarrow> utarray_init ic)"

text \<open>Element pointers are indices, the null pointer is \<open>None\<close>.\<close>

definition utarray_front :: "'a UT_array \<Rightarrow> nat option" where
  "utarray_front a = (if used a > 0 then Some 0 else None)"

definition utarray_back :: "'a UT_array \<Rightarrow> nat option" where
  "utarray_back a = (if used a > 0 then Some (used a - 1) else None)"

definition utarray_next :: "'a UT_array \<Rightarrow> nat option \<Rightarrow> nat option" where
  "utarray_next a e =
     (case e of None \<Rightarrow> utarray_front a | Some k \<Rightarrow> if used a > k + 1 then Some (k + 1) else None)"

definition utarray_prev :: "'a UT_array \<Rightarrow> nat option \<Rightarrow> nat option" where
  "utarray_prev a e =
     (case e of None \<Rightarrow> utarray_back a | Some k \<Rightarrow> if k > 0 then Some (k - 1) else None)"

section \<open>The array as a list\<close>

definition contents :: "'a UT_array \<Rightarrow> 'a list" where
  "contents a = take (used a) (slots a)"

definition uta_ok :: "'a UT_array \<Rightarrow> bool" where
  "uta_ok a \<longleftrightarrow> used a \<le> length (slots a) \<and> used a < 2 ^ 32"

lemma length_uta_contents: "uta_ok a \<Longrightarrow> length (contents a) = used a"
  by (simp add: contents_def uta_ok_def)

lemma grow_ge: "need \<le> grow need n \<and> n \<le> grow need n"
proof (induction need n rule: grow.induct)
  case (1 need n)
  then show ?case by (subst (1 2) grow.simps) (auto split: if_splits)
qed

lemma sub32_le: "b \<le> a \<Longrightarrow> a < 2 ^ 32 \<Longrightarrow> sub32 a b = a - b"
proof -
  assume ba: "b \<le> a" "a < 2 ^ 32"
  then have "a + 2 ^ 32 - b = (a - b) + 2 ^ 32" by simp
  moreover have "((a - b) + 2 ^ 32) mod 2 ^ 32 = (a - b) mod 2 ^ 32" by simp
  moreover have "(a - b) mod 2 ^ 32 = a - b" using ba by (intro mod_less) simp
  ultimately show ?thesis unfolding sub32_def by (simp only:)
qed

text \<open>Reserving changes neither the contents nor the rest, and leaves room.\<close>

lemma reserve_cases:
  assumes "uta_ok a"
  obtains (oom) "utarray_reserve ok junk k a = Exit (-1)" "\<not> ok"
  | (room) a' where "utarray_reserve ok junk k a = Return a'" "used a' = used a" "icd a' = icd a"
      "dead a' = dead a" "used a + k \<le> length (slots a')" "take (used a) (slots a') = contents a" "uta_ok a'"
proof (cases "used a + k > length (slots a)")
  case False
  then have "utarray_reserve ok junk k a = Return a" by (simp add: utarray_reserve_def)
  then show ?thesis using room [of a] False assms by (simp add: contents_def)
next
  case True
  show ?thesis
  proof (cases ok)
    case False
    with True show ?thesis using oom by (simp add: utarray_reserve_def)
  next
    case ok: True
    define a' where "a' = a\<lparr>slots := slots a @ map junk [length (slots a)..<grow (used a + k) (length (slots a))]\<rparr>"
    have "utarray_reserve ok junk k a = Return a'" using True ok by (simp add: utarray_reserve_def a'_def)
    moreover have "used a + k \<le> length (slots a')" using grow_ge [of "used a + k" "length (slots a)"] by (simp add: a'_def)
    ultimately show ?thesis using room [of a'] assms by (simp add: a'_def contents_def uta_ok_def)
  qed
qed

text \<open>How the contents change when slots are written.\<close>

lemma contents_update_end:
  "used a < length (slots a) \<Longrightarrow> take (used a + 1) ((slots a)[used a := x]) = take (used a) (slots a) @ [x]"
  by (simp add: take_Suc_conv_app_nth)

lemma take_write_end:
  assumes "n + length xs \<le> length s"
  shows "take (n + length xs) (write_block n xs s) = take n s @ xs"
  using assms by (simp add: write_block_def)

lemma shift_up_slots:
  assumes "used a + k \<le> length (slots a)" and "j \<le> used a" and "length xs = k"
  shows "take (used a + k) (write_block j xs (slots (shift_up j k a))) =
      take j (contents a) @ xs @ drop j (contents a)"
    and "length (slots (shift_up j k a)) = length (slots a)"
    and "used (shift_up j k a) = used a" and "icd (shift_up j k a) = icd a" and "dead (shift_up j k a) = dead a"
proof -
  define s where "s = slots a"
  define n where "n = used a"
  have rb: "read_block j (n - j) s = drop j (take n s)" by (simp add: read_block_def drop_take)
  have len: "length (drop j (take n s)) = n - j" using assms by (simp add: s_def n_def)
  have w: "slots (shift_up j k a) = write_block (j + k) (drop j (take n s)) s"
  proof (cases "j < n")
    case True
    then show ?thesis by (simp add: shift_up_def rb flip: s_def n_def)
  next
    case False
    with assms have "j = n" by (simp add: n_def)
    then show ?thesis using assms by (simp add: shift_up_def write_block_def s_def n_def)
  qed
  have l1: "j + k + (n - j) \<le> length s" using assms by (simp add: s_def n_def)
  show "length (slots (shift_up j k a)) = length (slots a)"
    using l1 len by (simp add: w length_write_block s_def)
  have jn: "j \<le> n" using assms by (simp add: n_def)
  have "write_block j xs (write_block (j + k) (drop j (take n s)) s) =
      take j s @ xs @ drop j (take n s) @ drop (n + k) s"
    using l1 len jn assms(3) by (simp add: write_block_def min_def add.commute)
  moreover have "take (n + k) (take j s @ xs @ drop j (take n s) @ drop (n + k) s) =
      take j s @ xs @ drop j (take n s)"
  proof -
    have "length (take j s @ xs @ drop j (take n s)) = n + k" using len jn assms(3) l1 by simp
    then have "take (n + k) ((take j s @ xs @ drop j (take n s)) @ drop (n + k) s) =
        take j s @ xs @ drop j (take n s)" by (metis append_eq_conv_conj)
    then show ?thesis by simp
  qed
  ultimately show "take (used a + k) (write_block j xs (slots (shift_up j k a))) =
      take j (contents a) @ xs @ drop j (contents a)"
    using jn by (simp add: w contents_def min_def flip: s_def n_def)
  show "used (shift_up j k a) = used a" "icd (shift_up j k a) = icd a" "dead (shift_up j k a) = dead a"
    by (simp_all add: shift_up_def)
qed

lemma push_back_contents:
  assumes "uta_ok a" and "used a + 1 < 2 ^ 32" and "utarray_push_back ok junk x a = Return a'"
  shows "contents a' = contents a @ [copied a x]" and "uta_ok a'" and "icd a' = icd a" and "dead a' = dead a"
proof -
  obtain a1 where a1: "utarray_reserve ok junk 1 a = Return a1" "used a1 = used a" "icd a1 = icd a"
      "dead a1 = dead a" "used a + 1 \<le> length (slots a1)" "take (used a) (slots a1) = contents a" "uta_ok a1"
    using assms(3) by (cases rule: reserve_cases [OF assms(1), of ok junk 1]) (auto simp: utarray_push_back_def)
  have a': "a' = a1\<lparr>slots := (slots a1)[used a1 := copied a1 x], used := used a1 + 1\<rparr>"
    using assms(3) a1(1) by (simp add: utarray_push_back_def)
  have c: "copied a1 x = copied a x" using a1(3) by (simp add: copied_def)
  show "contents a' = contents a @ [copied a x]"
    using contents_update_end [of a1 "copied a x"] a1 by (simp add: a' contents_def c)
  show "uta_ok a'" "icd a' = icd a" "dead a' = dead a"
    using a1 assms(2) by (simp_all add: a' uta_ok_def)
qed

lemma erase_contents:
  assumes "uta_ok a" and "pos + len \<le> used a"
  shows "contents (utarray_erase pos len a) = take pos (contents a) @ drop (pos + len) (contents a)"
    and "uta_ok (utarray_erase pos len a)" and "icd (utarray_erase pos len a) = icd a"
    and "dead (utarray_erase pos len a) =
      dead a @ (if icd_dtor (icd a) then map Some (read_block pos len (contents a)) else [])"
proof -
  define n where "n = used a"
  define s where "s = slots a"
  have n: "n \<le> length s" "n < 2 ^ 32" using assms(1) by (simp_all add: n_def s_def uta_ok_def)
  have pn: "pos + len \<le> n" using assms(2) by (simp add: n_def)
  have u: "used (destroy js a) = n" "slots (destroy js a) = s" "icd (destroy js a) = icd a" for js
    by (simp_all add: destroy_def n_def s_def)
  define s' where "s' = write_block pos (read_block (pos + len) (n - (pos + len)) s) s"
  have e: "utarray_erase pos len a = (destroy [pos..<pos + len] a)\<lparr>slots := s', used := n - len\<rparr>"
  proof (cases "pos + len < n")
    case True
    then show ?thesis using sub32_le [of len n] n pn
      by (simp add: utarray_erase_def u Let_def s'_def)
  next
    case False
    then have "s' = s" using n by (simp add: s'_def read_block_def write_block_def)
    with False show ?thesis using sub32_le [of len n] n pn u(2) [of "[pos..<pos + len]"]
      by (simp add: utarray_erase_def u Let_def)
  qed
  have ls: "length s' = length s" using n pn by (simp add: s'_def length_write_block read_block_def)
  have "take (n - len) s' = take pos s @ drop (pos + len) (take n s)"
  proof -
    have "length (take pos s) = pos" using n pn by simp
    moreover have "length (drop (pos + len) (take n s)) = n - (pos + len)" using n by simp
    moreover have "n - len = pos + (n - (pos + len))" using pn by simp
    moreover have "read_block (pos + len) (n - (pos + len)) s = drop (pos + len) (take n s)"
      by (simp add: read_block_def drop_take)
    ultimately show ?thesis by (simp add: s'_def write_block_def)
  qed
  moreover have "take pos (take n s) = take pos s" using pn by (simp add: min_def)
  ultimately show "contents (utarray_erase pos len a) = take pos (contents a) @ drop (pos + len) (contents a)"
    by (simp add: e contents_def flip: n_def s_def)
  have "n - len \<le> length s" "n - len < 2 ^ 32" using n by simp_all
  then show "uta_ok (utarray_erase pos len a)" using ls by (simp add: e uta_ok_def)
  show "icd (utarray_erase pos len a) = icd a" by (simp add: e u)
  have "map (elt a) [pos..<pos + len] = map Some (read_block pos len (take n s))"
  proof (rule nth_equalityI)
    show "length (map (elt a) [pos..<pos + len]) = length (map Some (read_block pos len (take n s)))"
      using n pn by (simp add: read_block_def)
    fix i assume "i < length (map (elt a) [pos..<pos + len])"
    then have "i < len" by simp
    then show "map (elt a) [pos..<pos + len] ! i = map Some (read_block pos len (take n s)) ! i"
      using n pn by (simp add: elt_def read_block_def n_def s_def)
  qed
  then show "dead (utarray_erase pos len a) =
      dead a @ (if icd_dtor (icd a) then map Some (read_block pos len (contents a)) else [])"
    by (simp add: e destroy_def contents_def flip: n_def s_def)
qed

text \<open>Resizing truncates or fills up with fresh elements; the removed elements are destroyed in order.\<close>

lemma resize_contents:
  assumes "uta_ok a" and "num < 2 ^ 32" and "utarray_resize ok junk num a = Return a'"
  shows "contents a' = take num (contents a) @ replicate (num - used a) (fresh a)"
    and "uta_ok a'" and "icd a' = icd a" and "used a' = num"
proof -
  consider (less) "num < used a" | (eq) "num = used a" | (more) "used a < num" by linarith
  then have "contents a' = take num (contents a) @ replicate (num - used a) (fresh a) \<and> uta_ok a' \<and>
      icd a' = icd a \<and> used a' = num"
  proof cases
    case less
    then have "a' = (destroy [num..<used a] a)\<lparr>used := num\<rparr>" using assms(3) by (simp add: utarray_resize_def)
    then show ?thesis using less assms(1,2) by (auto simp: contents_def destroy_def uta_ok_def min_def)
  next
    case eq
    then have "a' = a\<lparr>used := num\<rparr>" using assms(3) by (simp add: utarray_resize_def)
    then show ?thesis using eq assms(1,2) by (auto simp: contents_def uta_ok_def)
  next
    case more
    obtain a1 where a1: "utarray_reserve ok junk (num - used a) a = Return a1" "used a1 = used a" "icd a1 = icd a"
      "used a + (num - used a) \<le> length (slots a1)" "take (used a) (slots a1) = contents a" "uta_ok a1"
      using assms(3) more
      by (cases rule: reserve_cases [OF assms(1), of ok junk "num - used a"]) (auto simp: utarray_resize_def)
    have a': "a' = a1\<lparr>slots := write_block (used a1) (replicate (num - used a1) (fresh a1)) (slots a1), used := num\<rparr>"
      using assms(3) more a1(1) by (simp add: utarray_resize_def)
    have f: "fresh a1 = fresh a" unfolding fresh_def a1(3) ..
    have "take num (write_block (used a) (replicate (num - used a) (fresh a)) (slots a1)) =
        contents a @ replicate (num - used a) (fresh a)"
      using take_write_end [of "used a" "replicate (num - used a) (fresh a)" "slots a1"] a1(4,5) more by simp
    moreover have "take num (contents a) = contents a"
      using more length_uta_contents [OF assms(1)] by simp
    ultimately show ?thesis
      using a1 assms(2) more by (simp add: a' f contents_def uta_ok_def length_write_block)
  qed
  then show "contents a' = take num (contents a) @ replicate (num - used a) (fresh a)"
    "uta_ok a'" "icd a' = icd a" "used a' = num" by blast+
qed

text \<open>Inserting a block of copied elements, behind fresh ones when the position is past the end.\<close>

lemma insert_block:
  assumes ok: "uta_ok a" and j: "used a1 = max j (used a)"
    and a1: "uta_ok a1" "contents a1 = contents a @ replicate (j - used a) (fresh a)" "icd a1 = icd a"
    and r: "utarray_reserve ok2 junk k a1 = Return a2" and k: "length xs = k"
    and small: "max j (used a) + k < 2 ^ 32"
    and a': "a' = (shift_up j k a2)\<lparr>slots := write_block j xs (slots (shift_up j k a2)), used := used a2 + k\<rparr>"
  shows "contents a' = take j (contents a) @ replicate (j - used a) (fresh a) @ xs @ drop j (contents a) \<and> uta_ok a'"
proof -
  have a2: "used a2 = used a1" "icd a2 = icd a1" "used a1 + k \<le> length (slots a2)"
    "take (used a1) (slots a2) = contents a1" "uta_ok a2"
    using r by (cases rule: reserve_cases [OF a1(1), of ok2 junk k]; simp)+
  have c2: "contents a2 = contents a1" using a2 by (simp add: contents_def)
  have s: "used a2 + k \<le> length (slots a2)" "j \<le> used a2" using a2 j by simp_all
  note su = shift_up_slots [OF s k]
  have la: "length (contents a) = used a" by (rule length_uta_contents [OF ok])
  have "take j (contents a1) @ xs @ drop j (contents a1) =
      take j (contents a) @ replicate (j - used a) (fresh a) @ xs @ drop j (contents a)"
    using la by (cases "j \<le> used a") (simp_all add: a1(2))
  then have "contents a' = take j (contents a) @ replicate (j - used a) (fresh a) @ xs @ drop j (contents a)"
    using su(1) by (simp add: a' contents_def c2 [unfolded contents_def])
  moreover have "j + k \<le> length (slots a2)" using s by simp
  then have "uta_ok a'" using su s small a2(1) j k by (simp add: a' uta_ok_def length_write_block)
  ultimately show ?thesis ..
qed

lemma resized_for_insert:
  assumes "uta_ok a" and "j < 2 ^ 32"
    and "(if j > used a then utarray_resize ok1 junk j a else Return a) = Return a1"
  shows "used a1 = max j (used a)" and "uta_ok a1"
    and "contents a1 = contents a @ replicate (j - used a) (fresh a)" and "icd a1 = icd a"
proof -
  have "used a1 = max j (used a) \<and> uta_ok a1 \<and> contents a1 = contents a @ replicate (j - used a) (fresh a) \<and>
      icd a1 = icd a"
  proof (cases "j > used a")
    case True
    then have r: "utarray_resize ok1 junk j a = Return a1" using assms(3) by simp
    show ?thesis using resize_contents [OF assms(1,2) r] True length_uta_contents [OF assms(1)] by simp
  next
    case False
    then show ?thesis using assms by auto
  qed
  then show "used a1 = max j (used a)" "uta_ok a1"
    "contents a1 = contents a @ replicate (j - used a) (fresh a)" "icd a1 = icd a" by blast+
qed

lemma insert_contents:
  assumes "uta_ok a" and "max j (used a) + 1 < 2 ^ 32" and "utarray_insert ok1 ok2 junk x j a = Return a'"
  shows "contents a' = take j (contents a) @ replicate (j - used a) (fresh a) @ [copied a x] @ drop j (contents a) \<and>
    uta_ok a'"
proof -
  obtain a1 where r1: "(if j > used a then utarray_resize ok1 junk j a else Return a) = Return a1"
    using assms(3) unfolding utarray_insert_def by (cases "if j > used a then utarray_resize ok1 junk j a else Return a") auto
  obtain a2 where r2: "utarray_reserve ok2 junk 1 a1 = Return a2"
    using assms(3) r1 unfolding utarray_insert_def by (cases "utarray_reserve ok2 junk 1 a1") auto
  have "j < 2 ^ 32" using assms(2) by simp
  note z = resized_for_insert [OF assms(1) this r1]
  have a2: "used a2 = used a1" "icd a2 = icd a1" "used a1 + 1 \<le> length (slots a2)" "uta_ok a2"
    using r2 by (cases rule: reserve_cases [OF z(2), of ok2 junk 1]; simp)+
  define b where "b = shift_up j 1 a2"
  have b: "used b = used a2" "copied b x = copied a x" "j < length (slots b)"
    using shift_up_slots [of a2 1 j "[x]"] a2 z(1,4) by (simp_all add: b_def copied_def)
  have "a' = b\<lparr>slots := (slots b)[j := copied b x], used := used b + 1\<rparr>"
    using assms(3) unfolding utarray_insert_def r1 b_def by (simp add: Let_def r2 del: One_nat_def)
  then have "a' = b\<lparr>slots := write_block j [copied a x] (slots b), used := used a2 + 1\<rparr>"
    using b by (simp add: write_block_def upd_conv_take_nth_drop)
  then have "a' = (shift_up j 1 a2)\<lparr>slots := write_block j [copied a x] (slots (shift_up j 1 a2)), used := used a2 + 1\<rparr>"
    by (simp only: b_def)
  from insert_block [OF assms(1) z(1,2,3,4) r2 _ _ this] assms(2) show ?thesis by simp
qed

lemma inserta_contents:
  assumes "uta_ok a" and "uta_ok w" and "max j (used a) + used w < 2 ^ 32" and "used w > 0"
    and "utarray_inserta ok1 ok2 junk w j a = Return a'"
  shows "contents a' = take j (contents a) @ replicate (j - used a) (fresh a) @ map (copied a) (contents w) @
    drop j (contents a) \<and> uta_ok a'"
proof -
  obtain a1 where r1: "(if j > used a then utarray_resize ok1 junk j a else Return a) = Return a1"
    using assms(4,5) unfolding utarray_inserta_def utarray_len_def
    by (cases "if j > used a then utarray_resize ok1 junk j a else Return a") auto
  obtain a2 where r2: "utarray_reserve ok2 junk (used w) a1 = Return a2"
    using assms(4,5) r1 unfolding utarray_inserta_def utarray_len_def
    by (cases "utarray_reserve ok2 junk (used w) a1") auto
  have "j < 2 ^ 32" using assms(3) by simp
  note z = resized_for_insert [OF assms(1) this r1]
  have a2: "used a2 = used a1" "icd a2 = icd a1" "used a1 + used w \<le> length (slots a2)" "uta_ok a2"
    using r2 by (cases rule: reserve_cases [OF z(2), of ok2 junk "used w"]; simp)+
  define b where "b = shift_up j (used w) a2"
  have lw: "length (map (copied a) (contents w)) = used w" using length_uta_contents [OF assms(2)] by simp
  have b: "used b = used a2" "copied b = copied a"
    using shift_up_slots [of a2 "used w" j "map (copied a) (contents w)"] a2 z(1,4) lw
    by (simp_all add: b_def copied_def fun_eq_iff)
  have rb: "read_block 0 (used w) (slots w) = contents w" by (simp add: read_block_def contents_def)
  have "a' = b\<lparr>slots := write_block j (map (copied b) (contents w)) (slots b), used := used b + used w\<rparr>"
    using assms(4,5) unfolding utarray_inserta_def utarray_len_def r1 b_def by (simp add: Let_def r2 rb)
  then have "a' = (shift_up j (used w) a2)\<lparr>slots := write_block j (map (copied a) (contents w))
      (slots (shift_up j (used w) a2)), used := used a2 + used w\<rparr>"
    by (simp add: b b_def [symmetric])
  from insert_block [OF assms(1) z(1,2,3,4) r2 lw assms(3) this] show ?thesis by simp
qed

lemma clear_contents:
  assumes "uta_ok a"
  shows "contents (utarray_clear a) = []" and "uta_ok (utarray_clear a)"
    and "dead (utarray_clear a) = dead a @ (if icd_dtor (icd a) then map Some (contents a) else [])"
proof -
  have "map (elt a) [0..<used a] = map Some (contents a)"
    using assms by (intro nth_equalityI) (auto simp: elt_def contents_def uta_ok_def)
  then show "contents (utarray_clear a) = []" "uta_ok (utarray_clear a)"
    "dead (utarray_clear a) = dead a @ (if icd_dtor (icd a) then map Some (contents a) else [])"
    using assms by (auto simp: utarray_clear_def contents_def destroy_def uta_ok_def)
qed

text \<open>Walking with \<^verbatim>\<open>utarray_next\<close> visits the indices in order.\<close>

lemma next_index:
  "utarray_next a (Some k) = (if k + 1 < used a then Some (k + 1) else None)"
  "utarray_next a None = (if 0 < used a then Some 0 else None)"
  by (auto simp: utarray_next_def utarray_front_def)

section \<open>The list contract\<close>

text \<open>What users of a dynamic array rely on: appending and erasing act on the list it holds.\<close>

locale dyn_array =
  fixes holds :: "'s \<Rightarrow> 'a list \<Rightarrow> bool"
    and push :: "'a \<Rightarrow> 's \<Rightarrow> 's \<Rightarrow> bool"
    and erase :: "nat \<Rightarrow> 's \<Rightarrow> 's"
    and keep :: "'a \<Rightarrow> 'a"
    and bound :: nat
  assumes push_holds: "holds s xs \<Longrightarrow> length xs < bound \<Longrightarrow> push x s s' \<Longrightarrow> holds s' (xs @ [keep x])"
    and erase_holds: "holds s xs \<Longrightarrow> k < length xs \<Longrightarrow> holds (erase k s) (take k xs @ drop (k + 1) xs)"
begin

inductive pushes :: "'a list \<Rightarrow> 's \<Rightarrow> 's \<Rightarrow> bool" where
  none: "pushes [] s s"
| one: "push x s s1 \<Longrightarrow> pushes xs s1 s2 \<Longrightarrow> pushes (x # xs) s s2"

lemma pushes_holds:
  "pushes ys s s' \<Longrightarrow> holds s xs \<Longrightarrow> length xs + length ys \<le> bound \<Longrightarrow> holds s' (xs @ map keep ys)"
proof (induction arbitrary: xs rule: pushes.induct)
  case (none s)
  then show ?case by simp
next
  case (one x s s1 ys s2)
  have "holds s1 (xs @ [keep x])" using one by (intro push_holds) auto
  from one.IH [OF this] one.prems show ?case by simp
qed

lemma erase_front: "holds s (x # xs) \<Longrightarrow> holds (erase 0 s) xs"
  using erase_holds [of s "x # xs" 0] by simp

end

definition holds_list :: "'a UT_icd \<Rightarrow> 'a UT_array \<Rightarrow> 'a list \<Rightarrow> bool" where
  "holds_list ic a xs \<longleftrightarrow> uta_ok a \<and> icd a = ic \<and> contents a = xs"

definition pushed :: "(nat \<Rightarrow> 'a) \<Rightarrow> 'a \<Rightarrow> 'a UT_array \<Rightarrow> 'a UT_array \<Rightarrow> bool" where
  "pushed junk x a a' \<longleftrightarrow> utarray_push_back True junk x a = Return a'"

definition kept :: "'a UT_icd \<Rightarrow> 'a \<Rightarrow> 'a" where
  "kept ic x = (case icd_copy ic of Some f \<Rightarrow> f x | None \<Rightarrow> x)"

interpretation uta: dyn_array "holds_list ic" "pushed junk" "\<lambda>k. utarray_erase k 1" "kept ic" "2 ^ 32 - 1"
  for ic :: "'a UT_icd" and junk :: "nat \<Rightarrow> 'a"
proof
  fix s s' :: "'a UT_array" and xs x
  assume h: "holds_list ic s xs" and l: "length xs < 2 ^ 32 - 1" and p: "pushed junk x s s'"
  then have "used s + 1 < 2 ^ 32" using length_uta_contents [of s] by (auto simp: holds_list_def)
  with push_back_contents [of s True junk x s'] h p show "holds_list ic s' (xs @ [kept ic x])"
    by (auto simp: holds_list_def pushed_def copied_def kept_def)
next
  fix s :: "'a UT_array" and xs k
  assume h: "holds_list ic s xs" and k: "k < length xs"
  then have "k + 1 \<le> used s" using length_uta_contents [of s] by (auto simp: holds_list_def)
  with erase_contents [of s k 1] h show "holds_list ic (utarray_erase k 1 s) (take k xs @ drop (k + 1) xs)"
    by (auto simp: holds_list_def)
qed

lemma reserve_outcome: "utarray_reserve ok junk k a \<noteq> Abort \<and> utarray_reserve True junk k a \<noteq> Exit v"
  by (simp add: utarray_reserve_def)

lemma resize_outcome: "\<exists>a'. utarray_resize True junk num a = Return a'"
  by (cases "utarray_reserve True junk (num - used a) a") (auto simp: utarray_resize_def reserve_outcome)

lemma insert_outcome:
  "\<exists>a'. utarray_insert True True junk x j a = Return a'"
  "\<exists>a'. utarray_inserta True True junk w j a = Return a'"
  "\<exists>a'. utarray_push_back True junk x a = Return a'"
proof -
  obtain a1 where a1: "(if j > used a then utarray_resize True junk j a else Return a) = Return a1"
    using resize_outcome [of junk j a] by (cases "j > used a") auto
  show "\<exists>a'. utarray_insert True True junk x j a = Return a'"
    by (cases "utarray_reserve True junk 1 a1")
      (auto simp: utarray_insert_def a1 Let_def reserve_outcome simp del: One_nat_def)
  show "\<exists>a'. utarray_inserta True True junk w j a = Return a'"
    by (cases "utarray_reserve True junk (utarray_len w) a1")
      (auto simp: utarray_inserta_def a1 Let_def reserve_outcome)
  show "\<exists>a'. utarray_push_back True junk x a = Return a'"
    by (cases "utarray_reserve True junk 1 a")
      (auto simp: utarray_push_back_def reserve_outcome simp del: One_nat_def)
qed


definition int_icd :: "int UT_icd" where
  "int_icd = \<lparr>icd_init = None, icd_copy = None, icd_dtor = False, icd_zero = 0\<rparr>"


end
