(* ===== verification/Timer.thy ===== *)
theory Timer
  imports Ut_Array
begin

text \<open>
  The timers of src/src/tomatod/timer.c: a task that sleeps for the time in front of its array, charges
  the time that passed to the times in the array and sends one alarm when the array is empty.  The
  channel of requests is the list of the requests it holds; \<open>arrive k\<close> are the requests that come in
  before round \<open>k\<close>, and \<open>sleep k ms\<close> is what the \<open>k\<close>-th call of \<^verbatim>\<open>taskdelay\<close> returns for \<open>ms\<close>.
  Times stay within the ints of the code.
\<close>

section \<open>Requests\<close>

text \<open>A request is itself a timer structure, of which only two fields are set.\<close>

record timer_msg =
  r :: nat
  cancel :: bool

definition TDB_timer_reset :: "nat \<Rightarrow> timer_msg list \<Rightarrow> timer_msg list" where
  "TDB_timer_reset ms chan = chan @ [\<lparr>r = ms, cancel = False\<rparr>]"

definition TDB_timer_cancel :: "timer_msg list \<Rightarrow> timer_msg list" where
  "TDB_timer_cancel chan = chan @ [\<lparr>r = 0, cancel = True\<rparr>]"

definition TDB_TIMER_ALARM_MAGIC :: nat where
  "TDB_TIMER_ALARM_MAGIC = 0xDEADBEEF"

text \<open>A fresh timer: an empty array of ints and an empty channel; \<open>mem\<close> is whether \<^verbatim>\<open>malloc\<close> succeeds.\<close>

definition TDB_timer_init :: "bool \<Rightarrow> (int UT_array \<times> timer_msg list) option" where
  "TDB_timer_init mem = (if mem then Some (utarray_init int_icd, []) else None)"

section \<open>One round of the task\<close>

text \<open>Emptying the channel; the flag tells whether a cancellation freed the timer.\<close>

fun timer_drain ::
    "(nat \<Rightarrow> int) \<Rightarrow> timer_msg list \<Rightarrow> int UT_array \<Rightarrow> (bool \<times> timer_msg list \<times> int UT_array) outcome"
where
  "timer_drain junk [] a = Return (False, [], a)"
| "timer_drain junk (m # ms) a =
     (if cancel m then Return (True, ms, a)
      else case utarray_push_back True junk (int (r m)) a of
             Return a' \<Rightarrow> timer_drain junk ms a'
           | Abort \<Rightarrow> Abort
           | Exit v \<Rightarrow> Exit v)"

text \<open>The loop over the array: it erases the first element whenever the current one got negative.\<close>

partial_function (option) timer_charge :: "int \<Rightarrow> nat option \<Rightarrow> int UT_array \<Rightarrow> int UT_array option" where
  "timer_charge elapsed e a =
     (case e of
        None \<Rightarrow> Some a
      | Some k \<Rightarrow>
          (let v = slots a ! k - elapsed;
               a1 = a\<lparr>slots := (slots a)[k := v]\<rparr>;
               a2 = (if v < 0 then utarray_erase 0 1 a1 else a1)
           in timer_charge elapsed (utarray_next a2 (Some k)) a2))"

text \<open>\<^verbatim>\<open>taskdelay\<close> takes an unsigned number.\<close>

definition to_uint :: "int \<Rightarrow> nat" where
  "to_uint v = nat (v mod 2 ^ 32)"

text \<open>How the task ends: the alarm, or the use of the timer after a cancellation has freed it.\<close>

datatype timer_end = Alarm | Freed

text \<open>
  The endless loop, with the number of the round and the sum of the times slept; the alarm is the
  value sent on the alarm channel.
\<close>

partial_function (option) TDB_timer_task ::
    "(nat \<Rightarrow> int) \<Rightarrow> (nat \<Rightarrow> timer_msg list) \<Rightarrow> (nat \<Rightarrow> nat \<Rightarrow> int) \<Rightarrow> nat \<Rightarrow> int \<Rightarrow> timer_msg list \<Rightarrow> int UT_array \<Rightarrow>
     (timer_end \<times> nat \<times> int) option" where
  "TDB_timer_task junk arrive sleep k slept chan a =
     (case timer_drain junk (chan @ arrive k) a of
        Return (cancelled, chan', a') \<Rightarrow>
          if cancelled then Some (Freed, k, slept)
          else if utarray_len a' > 0 then
            (let elapsed = sleep k (to_uint (slots a' ! 0))
             in case timer_charge elapsed (utarray_front a') a' of
                  None \<Rightarrow> None
                | Some a'' \<Rightarrow> TDB_timer_task junk arrive sleep (k + 1) (slept + elapsed) chan' a'')
          else Some (Alarm, k, slept)
      | _ \<Rightarrow> None)"

text \<open>Starting a timer: the request is sent before the task is made that will read it.\<close>

definition TDB_timer_start ::
    "(nat \<Rightarrow> int) \<Rightarrow> (nat \<Rightarrow> timer_msg list) \<Rightarrow> (nat \<Rightarrow> nat \<Rightarrow> int) \<Rightarrow> nat \<Rightarrow> timer_msg list \<Rightarrow> int UT_array \<Rightarrow>
     (timer_end \<times> nat \<times> int) option" where
  "TDB_timer_start junk arrive sleep ms chan a =
     (let chan1 = TDB_timer_reset ms chan in TDB_timer_task junk arrive sleep 0 0 chan1 a)"

section \<open>The charging loop on lists\<close>

text \<open>\<open>pre\<close> is what the loop has passed, the second list what lies ahead.\<close>

function charge_list :: "int \<Rightarrow> int list \<Rightarrow> int list \<Rightarrow> int list" where
  "charge_list e pre [] = pre"
| "charge_list e pre (x # xs) =
     (if x - e < 0 then charge_list e (tl (pre @ [x - e]) @ take 1 xs) (drop 1 xs)
      else charge_list e (pre @ [x - e]) xs)"
  by pat_completeness auto
termination by (relation "measure (\<lambda>(e, pre, xs). length xs)") auto

definition ints :: "int UT_array \<Rightarrow> int list \<Rightarrow> bool" where
  "ints a xs \<longleftrightarrow> holds_list int_icd a xs"

lemma ints_update:
  assumes "ints a (pre @ x # xs)"
  shows "ints (a\<lparr>slots := (slots a)[length pre := v]\<rparr>) (pre @ v # xs)"
  using assms unfolding ints_def holds_list_def uta_ok_def contents_def by (auto simp: take_update_swap list_update_append)

lemma ints_used: "ints a xs \<Longrightarrow> used a = length xs"
  using length_uta_contents [of a] by (auto simp: ints_def holds_list_def)

lemma ints_nth: "ints a (pre @ x # xs) \<Longrightarrow> slots a ! length pre = x"
proof -
  assume i: "ints a (pre @ x # xs)"
  then have c: "take (used a) (slots a) = pre @ x # xs" by (simp add: ints_def holds_list_def contents_def)
  have "slots a ! length pre = take (used a) (slots a) ! length pre" using ints_used [OF i] by simp
  then show ?thesis unfolding c by simp
qed

lemma timer_charge_list:
  "ints a (pre @ x # xs) \<Longrightarrow>
   \<exists>a'. timer_charge e (Some (length pre)) a = Some a' \<and> ints a' (charge_list e pre (x # xs))"
proof (induction "length xs" arbitrary: a pre x xs rule: less_induct)
  case less
  define v where "v = x - e"
  define a1 where "a1 = a\<lparr>slots := (slots a)[length pre := v]\<rparr>"
  have a1: "ints a1 (pre @ v # xs)" unfolding a1_def using less.prems by (rule ints_update)
  define a2 where "a2 = (if v < 0 then utarray_erase 0 1 a1 else a1)"
  define ys where "ys = (if v < 0 then tl (pre @ [v]) @ xs else pre @ v # xs)"
  have a2: "ints a2 ys"
  proof (cases "v < 0")
    case True
    have "pre @ v # xs = hd (pre @ [v]) # tl (pre @ [v]) @ xs"
      by (cases pre) simp_all
    then have "ints (utarray_erase 0 1 a1) (tl (pre @ [v]) @ xs)"
      using a1 uta.erase_front [of int_icd a1] unfolding ints_def by metis
    then show ?thesis using True by (simp add: a2_def ys_def)
  qed (use a1 in \<open>simp add: a2_def ys_def\<close>)
  have st: "timer_charge e (Some (length pre)) a = timer_charge e (utarray_next a2 (Some (length pre))) a2"
    by (subst timer_charge.simps) (simp add: Let_def a2_def a1_def v_def ints_nth [OF less.prems])
  have nx: "utarray_next a2 (Some (length pre)) = (if length pre + 1 < length ys then Some (length pre + 1) else None)"
    using ints_used [OF a2] by (simp add: next_index)
  show ?case
  proof (cases "length pre + 1 < length ys")
    case False
    then have "timer_charge e (Some (length pre)) a = Some a2"
      unfolding st nx by (subst timer_charge.simps) simp
    moreover have "charge_list e pre (x # xs) = ys"
      using False by (cases xs) (auto simp: ys_def v_def)
    ultimately show ?thesis using a2 by auto
  next
    case True
    define pre' where "pre' = take (length pre + 1) ys"
    obtain y zs where yz: "drop (length pre + 1) ys = y # zs" using True by (cases "drop (length pre + 1) ys") auto
    have ys: "ys = pre' @ y # zs" unfolding pre'_def yz [symmetric] by simp
    have lp: "length pre' = length pre + 1" using True by (simp add: pre'_def)
    have lz: "length zs < length xs"
    proof -
      have "length ys \<le> length pre + 1 + length xs" by (auto simp: ys_def)
      then show ?thesis using ys lp by simp
    qed
    from less.hyps [OF lz a2 [unfolded ys]] obtain a' where
      a': "timer_charge e (Some (length pre')) a2 = Some a'" "ints a' (charge_list e pre' (y # zs))" by blast
    have "charge_list e pre (x # xs) = charge_list e pre' (y # zs)"
    proof (cases "v < 0")
      case True
      have l: "length (tl (pre @ [v])) = length pre" by simp
      have p: "pre' = tl (pre @ [v]) @ take 1 xs" "y # zs = drop 1 xs"
        using True l yz by (simp_all add: pre'_def ys_def)
      show ?thesis using True p by (simp add: v_def)
    next
      case False
      then have "pre' = pre @ [v]" "y # zs = xs" using yz by (simp_all add: pre'_def ys_def)
      then show ?thesis using False by (simp add: v_def)
    qed
    then show ?thesis using a' lp st nx True by simp
  qed
qed

text \<open>
  When the front time has run out and none of the others has, the loop removes the front one and
  passes over its successor: the second timer keeps its full time, only the later ones are charged.
\<close>

theorem charge_skips_second:
  assumes "ints a (x # y # xs)" and "x < e" and "\<forall>z \<in> set xs. e \<le> z"
  shows "\<exists>a'. timer_charge e (utarray_front a) a = Some a' \<and> ints a' (y # map (\<lambda>z. z - e) xs)"
proof -
  have rest: "\<forall>z \<in> set zs. e \<le> z \<Longrightarrow> charge_list e pre zs = pre @ map (\<lambda>z. z - e) zs" for pre zs
    by (induction zs arbitrary: pre) auto
  have "charge_list e [] (x # y # xs) = y # map (\<lambda>z. z - e) xs"
    using assms(2) rest [OF assms(3), of "[y]"] by simp
  moreover have "utarray_front a = Some (length ([] :: int list))"
    using ints_used [OF assms(1)] by (simp add: utarray_front_def)
  ultimately show ?thesis using timer_charge_list [of a "[]" x "y # xs" e] assms(1) by simp
qed

lemma charge_skips_second_witness:
  "\<exists>a'. timer_charge 60 (utarray_front \<lparr>used = 3, icd = int_icd, slots = [50, 80, 90], dead = []\<rparr>)
       \<lparr>used = 3, icd = int_icd, slots = [50, 80, 90], dead = []\<rparr> = Some a' \<and> ints a' [80, 30]"
  using charge_skips_second [of "\<lparr>used = 3, icd = int_icd, slots = [50, 80, 90], dead = []\<rparr>" 50 80 "[90]" 60]
  by (simp add: ints_def holds_list_def uta_ok_def contents_def)

text \<open>
  When exactly the front time has passed, a shorter second time gets negative and the front element
  is erased in its place; as an unsigned delay the negative rest is nearly fifty days.
\<close>

lemma charge_leaves_negative: "charge_list 10 [] [10, 5] = [-5]" "to_uint (-5) = 4294967291"
  by (simp_all add: to_uint_def)

section \<open>The alarm\<close>

lemma ints_init: "ints (utarray_init int_icd) []"
  by (simp add: ints_def holds_list_def uta_ok_def contents_def utarray_init_def)

lemma drain_one:
  assumes "ints a xs" and "length xs < 2 ^ 32 - 1"
  shows "\<exists>a'. timer_drain junk [\<lparr>r = ms, cancel = False\<rparr>] a = Return (False, [], a') \<and> ints a' (xs @ [int ms])"
proof -
  obtain a' where p: "utarray_push_back True junk (int ms) a = Return a'" using insert_outcome(3) [where junk = junk and x = "int ms" and a = a] by blast
  then have "holds_list int_icd a' (xs @ [kept int_icd (int ms)])"
    using uta.push_holds [of int_icd a xs junk "int ms" a'] assms by (simp add: ints_def pushed_def)
  then show ?thesis using p by (auto simp: ints_def kept_def int_icd_def)
qed

text \<open>
  What \<^verbatim>\<open>taskdelay\<close> does: it sleeps at least the time asked for, and time passes, so a delay of no
  time does not take zero for ever.
\<close>

definition time_passes :: "(nat \<Rightarrow> nat \<Rightarrow> int) \<Rightarrow> bool" where
  "time_passes sleep \<longleftrightarrow> (\<forall>k ms. int ms \<le> sleep k ms) \<and> (\<forall>k. \<exists>j. 0 < sleep (k + j) 0)"

lemma charge_single: "charge_list e [] [v] = (if v < e then [] else [v - e])"
  by (cases "v < e") simp_all

lemma single_round:
  assumes "ints a [int ms]" and "ms < 2 ^ 32" and "arrive k = []"
  shows "\<exists>a'. TDB_timer_task junk arrive sleep k slept [] a =
      TDB_timer_task junk arrive sleep (k + 1) (slept + sleep k ms) [] a' \<and>
      ints a' (if int ms < sleep k ms then [] else [int ms - sleep k ms])"
proof -
  have u: "to_uint (slots a ! 0) = ms"
    using ints_nth [of a "[]" "int ms" "[]"] assms by (simp add: to_uint_def)
  have len: "utarray_len a = 1" using ints_used [OF assms(1)] by (simp add: utarray_len_def)
  then have f: "utarray_front a = Some (length ([] :: int list))" by (simp add: utarray_front_def utarray_len_def)
  obtain a' where a': "timer_charge (sleep k ms) (utarray_front a) a = Some a'"
    "ints a' (charge_list (sleep k ms) [] [int ms])"
    using timer_charge_list [of a "[]" "int ms" "[]" "sleep k ms"] assms(1) f by auto
  have "TDB_timer_task junk arrive sleep k slept [] a =
      TDB_timer_task junk arrive sleep (k + 1) (slept + sleep k ms) [] a'"
    using a'(1) len by (subst TDB_timer_task.simps) (simp add: assms(3) u)
  then show ?thesis using a'(2) unfolding charge_single by blast
qed

lemma empty_alarms:
  "ints a [] \<Longrightarrow> arrive k = [] \<Longrightarrow> TDB_timer_task junk arrive sleep k slept [] a = Some (Alarm, k, slept)"
  using ints_used [of a "[]"] by (subst TDB_timer_task.simps) (simp add: utarray_len_def)

lemma zero_alarms:
  assumes quiet: "\<And>k. 0 < k \<Longrightarrow> arrive k = []" and tp: "\<And>k ms. int ms \<le> sleep k ms"
  shows "0 < sleep (k + j) 0 \<Longrightarrow> ints a [0] \<Longrightarrow> 0 < k \<Longrightarrow>
    \<exists>n t. TDB_timer_task junk arrive sleep k slept [] a = Some (Alarm, n, t) \<and> slept < t"
proof (induction j arbitrary: k slept a)
  case 0
  obtain a' where s: "TDB_timer_task junk arrive sleep k slept [] a =
      TDB_timer_task junk arrive sleep (k + 1) (slept + sleep k 0) [] a'"
    and i: "ints a' (if 0 < sleep k 0 then [] else [0 - sleep k 0])"
    using single_round [where arrive = arrive and k = k and ms = 0 and a = a and junk = junk and sleep = sleep and slept = slept]
      0 quiet by (auto cong: if_cong)
  then show ?case using 0 empty_alarms [of a' arrive "k + 1" junk sleep] quiet by auto
next
  case (Suc j)
  obtain a' where s: "TDB_timer_task junk arrive sleep k slept [] a =
      TDB_timer_task junk arrive sleep (k + 1) (slept + sleep k 0) [] a'"
    and i: "ints a' (if 0 < sleep k 0 then [] else [0 - sleep k 0])"
    using single_round [where arrive = arrive and k = k and ms = 0 and a = a and junk = junk and sleep = sleep and slept = slept]
      Suc.prems quiet by (auto cong: if_cong)
  have nn: "0 \<le> sleep k 0" using tp [of 0 k] by simp
  show ?case
  proof (cases "0 < sleep k 0")
    case True
    then show ?thesis using s i empty_alarms [of a' arrive "k + 1" junk sleep] quiet by auto
  next
    case False
    with nn have z: "sleep k 0 = 0" by simp
    have "\<exists>n t. TDB_timer_task junk arrive sleep (k + 1) slept [] a' = Some (Alarm, n, t) \<and> slept < t"
      using Suc.IH [of "k + 1" a' slept] Suc.prems i z by simp
    then show ?thesis using s z by simp
  qed
qed

text \<open>
  C28: A timer that is started and left alone ends by sending its alarm, and never early: the task has
  then slept longer than the time it was started with.
\<close>

theorem timer_fires:
  assumes "time_passes sleep" and "ms < 2 ^ 31"
  shows "\<exists>n t. TDB_timer_start junk (\<lambda>k. []) sleep ms [] (utarray_init int_icd) = Some (Alarm, n, t) \<and> int ms < t"
proof -
  have tp: "int m \<le> sleep k m" for k m using assms(1) by (simp add: time_passes_def)
  obtain a where a: "timer_drain junk [\<lparr>r = ms, cancel = False\<rparr>] (utarray_init int_icd) = Return (False, [], a)"
    "ints a [int ms]"
    using drain_one [OF ints_init, of junk ms] by auto
  have "TDB_timer_task junk (\<lambda>k. []) sleep 0 0 (TDB_timer_reset ms []) (utarray_init int_icd) =
      TDB_timer_task junk (\<lambda>k. []) sleep 0 0 [] a"
    by (subst (1 2) TDB_timer_task.simps) (simp add: TDB_timer_reset_def a(1) del: timer_drain.simps(2))
  moreover obtain a' where "TDB_timer_task junk (\<lambda>k. []) sleep 0 0 [] a =
      TDB_timer_task junk (\<lambda>k. []) sleep 1 (sleep 0 ms) [] a'"
    and i: "ints a' (if int ms < sleep 0 ms then [] else [int ms - sleep 0 ms])"
    using single_round [OF a(2), of "\<lambda>k. []" 0 junk sleep 0] assms(2) by auto
  ultimately have s: "TDB_timer_task junk (\<lambda>k. []) sleep 0 0 (TDB_timer_reset ms []) (utarray_init int_icd) =
      TDB_timer_task junk (\<lambda>k. []) sleep 1 (sleep 0 ms) [] a'" by simp
  have st: "TDB_timer_start junk (\<lambda>k. []) sleep ms [] (utarray_init int_icd) =
      TDB_timer_task junk (\<lambda>k. []) sleep 1 (sleep 0 ms) [] a'" using s by (simp add: TDB_timer_start_def)
  show ?thesis
  proof (cases "int ms < sleep 0 ms")
    case True
    then show ?thesis using i empty_alarms [of a' "\<lambda>k. []" 1 junk sleep] st by auto
  next
    case False
    with tp [of ms 0] have e: "sleep 0 ms = int ms" by simp
    obtain j where "0 < sleep (1 + j) 0" using assms(1) unfolding time_passes_def by blast
    with zero_alarms [where arrive = "\<lambda>k. []" and sleep = sleep and k = 1 and j = j and a = a' and junk = junk and slept = "int ms"]
      tp i e st show ?thesis by auto
  qed
qed

lemma timer_fires_witness:
  "\<exists>n t. TDB_timer_start (\<lambda>k. 0) (\<lambda>k. []) (\<lambda>k ms. int ms + int (k mod 2)) 5000 [] (utarray_init int_icd) =
      Some (Alarm, n, t) \<and> 5000 < t"
proof -
  have "time_passes (\<lambda>k ms. int ms + int (k mod 2))"
    unfolding time_passes_def
  proof (intro conjI allI)
    fix k :: nat
    have "(k + (if even k then 1 else 0)) mod 2 = 1" by (auto simp: odd_iff_mod_2_eq_one)
    then show "\<exists>j. 0 < int 0 + int ((k + j) mod 2)" by (metis int_ops(1) of_nat_0_less_iff plus_int_code(2) zero_less_one)
  qed simp
  from timer_fires [OF this, of 5000 "\<lambda>k. 0"] show ?thesis by simp
qed

end
