(* ===== verification/Replica.thy ===== *)
theory Replica
  imports Channel Timer
begin

text \<open>
  The replica task of src/src/tomatod: replica.c, leader.c, follower.c, candidate.c and consensus.c.
  A role waits once on an array of alts and handles the event it wakes up for.  The arrays are built
  as values of the channel model, so that waiting is \<open>chanalt\<close> on them; the result of the wait and the
  receiver's memory are arguments of the handlers.  The database (\<^verbatim>\<open>TDB_db_\<dots>\<close>, not in the sources) is
  an argument too.
\<close>

section \<open>The replica\<close>

record replica =
  rep_uuid :: "byte list"
  data_chan :: cptr
  vote_chan :: cptr
  append_chan :: cptr
  current_term :: nat
  last_log_index :: nat

text \<open>
  \<^verbatim>\<open>TDB_replica_init\<close>: three channels of pointers without buffer.  \<open>junk\<close> are the fields \<^verbatim>\<open>malloc\<close> leaves
  as they are, \<open>ms\<close> the memory for the channels; running out of it ends the process in \<^verbatim>\<open>chancreate\<close>.
\<close>

definition TDB_replica_init ::
    "replica option \<Rightarrow> cptr \<times> cptr \<times> cptr \<Rightarrow> byte list option \<times> byte list option \<times> byte list option \<Rightarrow>
     (cptr \<Rightarrow> channel) \<Rightarrow> (int \<times> replica option \<times> (cptr \<Rightarrow> channel)) outcome" where
  "TDB_replica_init junk cs ms chs =
     (case (junk, cs, ms) of
        (None, _) \<Rightarrow> Return (TDB_ERROR, None, chs)
      | (Some rep, (ca, cd, cv), (ma, md, mv)) \<Rightarrow>
          (case (chancreate 8 0 ma, chancreate 8 0 md, chancreate 8 0 mv) of
             (Return a, Return dt, Return v) \<Rightarrow>
               Return (TDB_SUCCESS,
                 Some (rep\<lparr>last_log_index := 0, current_term := 0, append_chan := ca, data_chan := cd, vote_chan := cv\<rparr>),
                 chs(ca := a, cd := dt, cv := v))
           | _ \<Rightarrow> Exit 1))"

definition TDB_replica_persist_state :: "replica \<Rightarrow> byte list list \<Rightarrow> nat \<Rightarrow> int" where
  "TDB_replica_persist_state rep log term_no = TDB_ERROR"

definition TDB_consensus_exec :: "nat \<Rightarrow> byte list \<Rightarrow> int" where
  "TDB_consensus_exec client op = TDB_ERROR"

section \<open>Waiting\<close>

definition recv_alt :: "cptr \<Rightarrow> vptr \<Rightarrow> alt" where
  "recv_alt c v = \<lparr>alt_c = c, alt_v = Some v, alt_op = CHANRCV, alt_task = 0, alt_xalt = (0, 0)\<rparr>"

text \<open>The last entry of the static arrays, all zero.\<close>

definition end_alt :: alt where
  "end_alt = \<lparr>alt_c = 0, alt_v = None, alt_op = CHANEND, alt_task = 0, alt_xalt = (0, 0)\<rparr>"

definition TDB_REPLICA_LEADER_ALT_DATA_KEY :: int where
  "TDB_REPLICA_LEADER_ALT_DATA_KEY = 0"

definition TDB_REPLICA_LEADER_ALT_TIMER_KEY :: int where
  "TDB_REPLICA_LEADER_ALT_TIMER_KEY = 1"

definition leader_alts :: "replica \<Rightarrow> cptr \<Rightarrow> vptr \<Rightarrow> vptr \<Rightarrow> alt list" where
  "leader_alts rep alarm v_data v_beat = [recv_alt (data_chan rep) v_data, recv_alt alarm v_beat, end_alt]"

text \<open>The arrays of a follower and of a candidate are alike: append, timer and vote.\<close>

definition follower_alts :: "replica \<Rightarrow> cptr \<Rightarrow> vptr \<Rightarrow> vptr \<Rightarrow> vptr \<Rightarrow> alt list" where
  "follower_alts rep alarm v_append v_timeout v_vote =
     [recv_alt (append_chan rep) v_append, recv_alt alarm v_timeout, recv_alt (vote_chan rep) v_vote, end_alt]"

definition candidate_alts :: "replica \<Rightarrow> cptr \<Rightarrow> vptr \<Rightarrow> vptr \<Rightarrow> vptr \<Rightarrow> alt list" where
  "candidate_alts rep alarm v_append v_timeout v_vote =
     [recv_alt (append_chan rep) v_append, recv_alt alarm v_timeout, recv_alt (vote_chan rep) v_vote, end_alt]"

section \<open>The leader\<close>

text \<open>
  The local \<^verbatim>\<open>TDB_attach_msg_t\<close>: three channel pointers and the message pointer, eight bytes each.  Only
  the message pointer is initialised.
\<close>

definition attach_msg_frame :: "byte list \<Rightarrow> byte list" where
  "attach_msg_frame junk = take 24 junk @ replicate 8 0"

definition frame_msg :: "byte list \<Rightarrow> byte list" where
  "frame_msg f = read_block 24 8 f"

definition frame_data_reply_chan :: "byte list \<Rightarrow> byte list" where
  "frame_data_reply_chan f = read_block 8 8 f"

text \<open>
  \<^verbatim>\<open>TDB_replica_leader\<close>: whether the timer could be made, the index \<^verbatim>\<open>chanalt\<close> returns and the frame it
  leaves; the result is the return code and the channel a response was sent to.
\<close>

definition TDB_replica_leader :: "bool \<Rightarrow> int \<Rightarrow> byte list \<Rightarrow> int \<times> byte list option" where
  "TDB_replica_leader timer_ok key f =
     (if \<not> timer_ok then (TDB_ERROR, None)
      else if key = TDB_REPLICA_LEADER_ALT_DATA_KEY then
        (if frame_msg f = replicate 8 0 then (TDB_SUCCESS, None)
         else (TDB_SUCCESS, Some (frame_data_reply_chan f)))
      else if key = TDB_REPLICA_LEADER_ALT_TIMER_KEY then (TDB_SUCCESS, None)
      else (TDB_SUCCESS, None))"

section \<open>Followers and candidates\<close>

text \<open>Every event is only logged; the result is the error whatever happened.\<close>

datatype role_event = Got_append | Got_alarm | Got_vote | Got_unknown

definition role_event_of :: "int \<Rightarrow> role_event" where
  "role_event_of key =
     (if key = 0 then Got_append else if key = 1 then Got_alarm else if key = 2 then Got_vote else Got_unknown)"

definition TDB_replica_follower :: "bool \<Rightarrow> int \<Rightarrow> int \<times> role_event option" where
  "TDB_replica_follower timer_ok key =
     (if \<not> timer_ok then (TDB_ERROR, None) else (TDB_ERROR, Some (role_event_of key)))"

definition TDB_replica_candidate :: "bool \<Rightarrow> int \<Rightarrow> int \<times> role_event option" where
  "TDB_replica_candidate timer_ok key =
     (if \<not> timer_ok then (TDB_ERROR, None) else (TDB_ERROR, Some (role_event_of key)))"

section \<open>The replica task\<close>

definition TDB_CONSENSUS_MD_STATE_LEADER :: char where "TDB_CONSENSUS_MD_STATE_LEADER = CHR ''L''"
definition TDB_CONSENSUS_MD_STATE_FOLLOWER :: char where "TDB_CONSENSUS_MD_STATE_FOLLOWER = CHR ''F''"
definition TDB_CONSENSUS_MD_STATE_CANDIDATE :: char where "TDB_CONSENSUS_MD_STATE_CANDIDATE = CHR ''C''"
definition TDB_CONSENSUS_MD_STATE_HALT :: char where "TDB_CONSENSUS_MD_STATE_HALT = CHR ''H''"

lemmas md_state_defs = TDB_CONSENSUS_MD_STATE_LEADER_def TDB_CONSENSUS_MD_STATE_FOLLOWER_def
  TDB_CONSENSUS_MD_STATE_CANDIDATE_def TDB_CONSENSUS_MD_STATE_HALT_def

datatype task_end = Task_exit int | Task_returns | Crash

text \<open>
  The \<open>k\<close>-th turn reads the role (\<open>role k\<close>) from the database; \<open>timer k\<close>, \<open>key k\<close> and \<open>frame k\<close> are what the
  role function of the turn meets.  \<^verbatim>\<open>EXIT_SUCCESS\<close> is 0, \<^verbatim>\<open>EXIT_FAILURE\<close> is 1.
\<close>

partial_function (option) TDB_replica_task ::
    "(nat \<Rightarrow> char option) \<Rightarrow> (nat \<Rightarrow> bool) \<Rightarrow> (nat \<Rightarrow> int) \<Rightarrow> (nat \<Rightarrow> byte list) \<Rightarrow> nat \<Rightarrow> (task_end \<times> nat) option"
where
  "TDB_replica_task role timer key frame k =
     (case role k of
        None \<Rightarrow> Some (Task_returns, k)
      | Some c \<Rightarrow>
          if c = TDB_CONSENSUS_MD_STATE_LEADER then
            (if fst (TDB_replica_leader (timer k) (key k) (frame k)) \<noteq> TDB_SUCCESS then Some (Task_exit 1, k)
             else TDB_replica_task role timer key frame (k + 1))
          else if c = TDB_CONSENSUS_MD_STATE_FOLLOWER then
            (if fst (TDB_replica_follower (timer k) (key k)) \<noteq> TDB_SUCCESS then Some (Task_exit 1, k)
             else TDB_replica_task role timer key frame (k + 1))
          else if c = TDB_CONSENSUS_MD_STATE_CANDIDATE then
            (if fst (TDB_replica_candidate (timer k) (key k)) \<noteq> TDB_SUCCESS then Some (Task_exit 1, k)
             else TDB_replica_task role timer key frame (k + 1))
          else if c = TDB_CONSENSUS_MD_STATE_HALT then Some (Task_exit 0, k)
          else Some (Task_exit 1, k))"

section \<open>What the tasks do\<close>

text \<open>The arrays are terminated and their active entries are the keys of the handlers.\<close>

lemma role_alts_active:
  assumes "alts s b = leader_alts rep alarm v1 v2"
  shows "alt_n s b = 2" and "active_alts s b = [(b, 0), (b, 1)]"
  using assms by (simp_all add: alt_n_def active_alts_def leader_alts_def recv_alt_def end_alt_def terminator_def
      upt_rec)

lemma follower_alts_active:
  assumes "alts s b = follower_alts rep alarm v1 v2 v3 \<or> alts s b = candidate_alts rep alarm v1 v2 v3"
  shows "alt_n s b = 3" and "active_alts s b = [(b, 0), (b, 1), (b, 2)]"
  using assms by (auto simp: alt_n_def active_alts_def follower_alts_def candidate_alts_def recv_alt_def end_alt_def
      terminator_def upt_rec)

text \<open>
  A leader answers no data message.  The channel carries pointers, so the receive into the local
  attach message fills only its first field; whatever pointer arrives, the message field is still
  null and the handler drops the event, while the replica keeps being a leader.
\<close>

theorem leader_answers_nothing:
  assumes "length junk \<ge> 24" and "length p = 8" and "m v = attach_msg_frame junk"
  shows "TDB_replica_leader True TDB_REPLICA_LEADER_ALT_DATA_KEY (amove_dst (Some v) p m v) = (TDB_SUCCESS, None)"
proof -
  have "frame_msg (write_block 0 p (attach_msg_frame junk)) = read_block 24 8 (attach_msg_frame junk)"
    unfolding frame_msg_def using assms by (intro read_write_after) (simp_all add: attach_msg_frame_def)
  also have "\<dots> = replicate 8 0" using assms(1) by (simp add: read_block_def attach_msg_frame_def)
  finally show ?thesis using assms(3) by (simp add: amove_dst_def TDB_replica_leader_def)
qed

lemma leader_answers_nothing_witness:
  "TDB_replica_leader True TDB_REPLICA_LEADER_ALT_DATA_KEY
     (amove_dst (Some 5) [1, 2, 3, 4, 5, 6, 7, 8] (\<lambda>v. attach_msg_frame (replicate 32 9)) 5) = (TDB_SUCCESS, None)"
  by (rule leader_answers_nothing [of "replicate 32 9"]) simp_all

text \<open>
  C29: How long a replica lives: it serves as a leader for as long as it reads the leader role and gets
  its timers, and what it reads next decides: nothing readable returns, the halt role exits with
  success, and any other role, follower and candidate included, exits with failure in its first turn.
\<close>

theorem replica_task_ends:
  assumes "\<And>k. k < n \<Longrightarrow> role k = Some TDB_CONSENSUS_MD_STATE_LEADER \<and> timer k"
    and "role n \<noteq> Some TDB_CONSENSUS_MD_STATE_LEADER"
  shows "TDB_replica_task role timer key frame 0 =
     Some (case role n of None \<Rightarrow> Task_returns
           | Some c \<Rightarrow> Task_exit (if c = TDB_CONSENSUS_MD_STATE_HALT then 0 else 1), n)"
proof -
  have "TDB_replica_task role timer key frame k =
     Some (case role n of None \<Rightarrow> Task_returns
           | Some c \<Rightarrow> Task_exit (if c = TDB_CONSENSUS_MD_STATE_HALT then 0 else 1), n)" if "k \<le> n" for k
    using that
  proof (induction k rule: inc_induct)
    case base
    show ?case using assms(2)
      by (subst TDB_replica_task.simps)
        (auto simp: TDB_replica_follower_def TDB_replica_candidate_def TDB_SUCCESS_def TDB_ERROR_def md_state_defs
          split: option.splits)
  next
    case (step k)
    then show ?case using assms(1) [of k]
      by (subst TDB_replica_task.simps) (simp add: TDB_replica_leader_def)
  qed
  then show ?thesis by simp
qed

lemma replica_task_ends_witness:
  "TDB_replica_task (\<lambda>k. if k < 3 then Some (CHR ''L'') else Some (CHR ''F'')) (\<lambda>k. True) (\<lambda>k. 1) (\<lambda>k. []) 0 =
     Some (Task_exit 1, 3)"
  using replica_task_ends [of 3 "\<lambda>k. if k < 3 then Some (CHR ''L'') else Some (CHR ''F'')" "\<lambda>k. True"]
  by (simp add: md_state_defs)

text \<open>A failing timer ends a leader at once.\<close>

lemma leader_without_timer:
  "role 0 = Some TDB_CONSENSUS_MD_STATE_LEADER \<Longrightarrow> \<not> timer 0 \<Longrightarrow>
   TDB_replica_task role timer key frame 0 = Some (Task_exit 1, 0)"
  by (subst TDB_replica_task.simps) (simp add: TDB_replica_leader_def TDB_SUCCESS_def TDB_ERROR_def)

end
