(* ===== verification/Attach.thy ===== *)
theory Attach
  imports Replica Proto
begin

text \<open>
  Connections between clients and replicas (src/src/tomatod/attach.c) and from a replica to a remote
  one (hook.c).  The message routines \<^verbatim>\<open>TDB_proto_\<dots>\<close> are not in the sources: their answers, call by call,
  are arguments, as are the indices \<^verbatim>\<open>chanalt\<close> returns and the results of the channel sends.
\<close>

section \<open>Attached clients\<close>

record attach =
  at_replica :: replica
  append_reply_chan :: cptr
  data_reply_chan :: cptr
  vote_reply_chan :: cptr
  exit_chan :: cptr
  remote_addr :: string
  remote_port :: int
  at_mode :: int
  at_fd :: int

definition TDB_ATTACH_CHANNEL_BACKLOG :: nat where
  "TDB_ATTACH_CHANNEL_BACKLOG = 10"

text \<open>What an attachment takes over from the router of the connection.\<close>

record router =
  rt_addr :: string
  rt_port :: int
  rt_fd :: int

text \<open>\<^verbatim>\<open>strncpy\<close> into a buffer of \<^verbatim>\<open>_POSIX_HOST_NAME_MAX\<close> characters: no NUL is added when it is full.\<close>

definition HOST_NAME_MAX :: nat where
  "HOST_NAME_MAX = 255"

definition strncpy_host :: "string \<Rightarrow> string" where
  "strncpy_host s = take HOST_NAME_MAX s @ replicate (HOST_NAME_MAX - length s) (CHR 0x00)"

text \<open>
  \<^verbatim>\<open>TDB_attach_init\<close>: \<open>mem1\<close> and \<open>mem2\<close> answer the two requests for memory, \<open>junk\<close> is what the structure
  held, \<open>cs\<close> the channels made.
\<close>

definition TDB_attach_init ::
    "bool \<Rightarrow> bool \<Rightarrow> attach \<Rightarrow> cptr \<times> cptr \<times> cptr \<times> cptr \<Rightarrow> router \<Rightarrow> replica \<Rightarrow> int \<Rightarrow> int \<times> attach option" where
  "TDB_attach_init mem1 mem2 junk cs rt rep mode =
     (if \<not> mem1 then (TDB_ERROR, None)
      else if \<not> mem2 then (TDB_ERROR, Some junk)
      else case cs of (ca, cd, cv, ce) \<Rightarrow>
        (TDB_SUCCESS,
         Some (junk\<lparr>remote_addr := strncpy_host (rt_addr rt), at_fd := rt_fd rt, remote_port := rt_port rt,
               at_replica := rep, at_mode := mode, append_reply_chan := ca, data_reply_chan := cd,
               vote_reply_chan := cv, exit_chan := ce\<rparr>)))"

section \<open>Receiving for a replica\<close>

text \<open>
  The receive loop: \<open>recv k\<close> is the \<open>k\<close>-th message read from the socket, or \<open>None\<close> when there is none,
  \<open>send k\<close> the result of handing it to the replica.  \<open>fwd\<close> are the messages handed over.
\<close>

partial_function (option) recv_loop ::
    "(nat \<Rightarrow> 'm option) \<Rightarrow> (nat \<Rightarrow> int) \<Rightarrow> nat \<Rightarrow> 'm list \<Rightarrow> (task_end \<times> 'm list) option" where
  "recv_loop recv send k fwd =
     (case recv k of
        None \<Rightarrow> Some (Task_exit TDB_ERROR, fwd)
      | Some msg \<Rightarrow>
          if send k \<noteq> 1 then Some (Task_exit TDB_ERROR, fwd)
          else recv_loop recv send (k + 1) (fwd @ [msg]))"

text \<open>
  Data messages.  The other two receivers test their memory the wrong way round: with memory they
  exit, without the attach message they store through a null pointer.
\<close>

definition TDB_attach_recv_data ::
    "bool \<Rightarrow> bool \<Rightarrow> (nat \<Rightarrow> 'm option) \<Rightarrow> (nat \<Rightarrow> int) \<Rightarrow> (task_end \<times> 'm list) option" where
  "TDB_attach_recv_data mem1 mem2 recv send =
     (if \<not> mem1 \<or> \<not> mem2 then Some (Task_exit TDB_ERROR, []) else recv_loop recv send 0 [])"

definition TDB_attach_recv_append ::
    "bool \<Rightarrow> bool \<Rightarrow> (nat \<Rightarrow> 'm option) \<Rightarrow> (nat \<Rightarrow> int) \<Rightarrow> (task_end \<times> 'm list) option" where
  "TDB_attach_recv_append mem1 mem2 recv send =
     (if mem1 \<and> mem2 then Some (Task_exit TDB_ERROR, [])
      else if \<not> mem2 then Some (Crash, [])
      else recv_loop recv send 0 [])"

definition TDB_attach_recv_vote ::
    "bool \<Rightarrow> bool \<Rightarrow> (nat \<Rightarrow> 'm option) \<Rightarrow> (nat \<Rightarrow> int) \<Rightarrow> (task_end \<times> 'm list) option" where
  "TDB_attach_recv_vote mem1 mem2 recv send =
     (if mem1 \<and> mem2 then Some (Task_exit TDB_ERROR, [])
      else if \<not> mem2 then Some (Crash, [])
      else recv_loop recv send 0 [])"

definition TDB_attach_recv ::
    "attach \<Rightarrow> bool \<Rightarrow> bool \<Rightarrow> (nat \<Rightarrow> 'm option) \<Rightarrow> (nat \<Rightarrow> int) \<Rightarrow> (task_end \<times> 'm list) option" where
  "TDB_attach_recv cl mem1 mem2 recv send =
     (if at_mode cl = control_action_code ATTACH_DATA then TDB_attach_recv_data mem1 mem2 recv send
      else if at_mode cl = control_action_code ATTACH_VOTE then TDB_attach_recv_vote mem1 mem2 recv send
      else if at_mode cl = control_action_code ATTACH_APPEND then TDB_attach_recv_append mem1 mem2 recv send
      else Some (Task_returns, []))"

text \<open>
  The attach task starts the task that sends replies and then receives; with a null client it stops at
  \<^verbatim>\<open>client->mode\<close>.
\<close>

definition TDB_attach_task ::
    "attach option \<Rightarrow> bool \<Rightarrow> bool \<Rightarrow> (nat \<Rightarrow> 'm option) \<Rightarrow> (nat \<Rightarrow> int) \<Rightarrow> (task_end \<times> 'm list) option" where
  "TDB_attach_task client mem1 mem2 recv send =
     (case client of None \<Rightarrow> Some (Crash, []) | Some cl \<Rightarrow> TDB_attach_recv cl mem1 mem2 recv send)"

text \<open>Replicas are reached through a table; attaching starts a task even when its set-up failed.\<close>

datatype spawned =
  Attach_task "attach option" | Replica_task "byte list" | Routing_task router | Hook_task "byte list"

definition TDB_replica_attach ::
    "(byte list \<rightharpoonup> replica) \<Rightarrow> bool \<Rightarrow> bool \<Rightarrow> attach \<Rightarrow> cptr \<times> cptr \<times> cptr \<times> cptr \<Rightarrow> router \<Rightarrow> byte list \<Rightarrow> int \<Rightarrow>
     int \<times> spawned list" where
  "TDB_replica_attach reps mem1 mem2 junk cs rt uuid mode =
     (case reps uuid of
        None \<Rightarrow> (TDB_ERROR, [])
      | Some rep \<Rightarrow>
          (case TDB_attach_init mem1 mem2 junk cs rt rep mode of
             (rc, cl) \<Rightarrow> (TDB_SUCCESS, [Attach_task cl])))"

section \<open>Sending replies\<close>

definition attach_send_alts :: "attach \<Rightarrow> vptr \<Rightarrow> vptr \<Rightarrow> vptr \<Rightarrow> vptr \<Rightarrow> alt list" where
  "attach_send_alts cl va vd ve vv =
     [recv_alt (append_reply_chan cl) va, recv_alt (data_reply_chan cl) vd, recv_alt (exit_chan cl) ve,
      recv_alt (vote_reply_chan cl) vv, end_alt]"

datatype reply = Reply_append | Reply_data | Reply_vote

text \<open>
  The endless loop of \<^verbatim>\<open>TDB_attach_send_task\<close>: \<open>key k\<close> is the index of the \<open>k\<close>-th event, \<open>put k\<close> whether the
  reply could be written; the replies written are collected.
\<close>

partial_function (option) TDB_attach_send_task ::
    "(nat \<Rightarrow> int) \<Rightarrow> (nat \<Rightarrow> bool) \<Rightarrow> nat \<Rightarrow> reply list \<Rightarrow> (task_end \<times> reply list) option" where
  "TDB_attach_send_task key put k out =
     (if key k = 0 then
        (if put k then TDB_attach_send_task key put (k + 1) (out @ [Reply_append]) else Some (Task_exit TDB_ERROR, out))
      else if key k = 1 then
        (if put k then TDB_attach_send_task key put (k + 1) (out @ [Reply_data]) else Some (Task_exit TDB_ERROR, out))
      else if key k = 2 then Some (Task_exit TDB_ERROR, out)
      else if key k = 3 then
        (if put k then TDB_attach_send_task key put (k + 1) (out @ [Reply_vote]) else Some (Task_exit TDB_ERROR, out))
      else TDB_attach_send_task key put (k + 1) out)"

section \<open>Hooks\<close>

record hook =
  hook_uuid :: "byte list"
  hook_port :: int
  hook_address :: string
  fd_append :: int
  fd_vote :: int
  h_append_chan :: cptr
  h_vote_chan :: cptr
  h_exit_chan :: cptr

definition TDB_hook_init ::
    "bool \<Rightarrow> bool \<Rightarrow> hook \<Rightarrow> cptr \<times> cptr \<times> cptr \<Rightarrow> byte list \<Rightarrow> int \<Rightarrow> string \<Rightarrow> int \<times> hook option \<times> spawned list" where
  "TDB_hook_init mem1 mem2 junk cs uuid port address =
     (if \<not> mem1 then (TDB_ERROR, None, [])
      else if \<not> mem2 then (TDB_ERROR, Some junk, [])
      else case cs of (ca, cv, ce) \<Rightarrow>
        (TDB_SUCCESS,
         Some (junk\<lparr>hook_port := port, hook_address := strncpy_host address, hook_uuid := uuid, fd_append := -1,
               fd_vote := -1, h_append_chan := ca, h_vote_chan := cv, h_exit_chan := ce\<rparr>),
         [Hook_task uuid]))"

text \<open>Dialing, then the connect and the control message; the descriptor is kept whatever happens.\<close>

definition TDB_hook_prepare :: "int \<Rightarrow> bool \<Rightarrow> bool \<Rightarrow> int \<times> int" where
  "TDB_hook_prepare fd conn ctl =
     (if fd < 1 then (TDB_ERROR, fd)
      else if \<not> conn then (TDB_ERROR, fd)
      else if \<not> ctl then (TDB_ERROR, fd)
      else (TDB_SUCCESS, fd))"

definition hook_alts :: "hook \<Rightarrow> vptr \<Rightarrow> vptr \<Rightarrow> vptr \<Rightarrow> alt list" where
  "hook_alts h va ve vv =
     [recv_alt (h_append_chan h) va, recv_alt (h_exit_chan h) ve, recv_alt (h_vote_chan h) vv, end_alt]"

partial_function (option) hook_loop ::
    "(nat \<Rightarrow> int) \<Rightarrow> (nat \<Rightarrow> bool) \<Rightarrow> nat \<Rightarrow> role_event list \<Rightarrow> (task_end \<times> role_event list) option" where
  "hook_loop key put k out =
     (if key k = 0 then
        (if put k then hook_loop key put (k + 1) (out @ [Got_append]) else Some (Task_exit 1, out))
      else if key k = 2 then
        (if put k then hook_loop key put (k + 1) (out @ [Got_vote]) else Some (Task_exit 1, out))
      else if key k = 1 then Some (Task_exit 0, out)
      else Some (Task_exit 1, out))"

definition TDB_hook_task ::
    "hook \<Rightarrow> int \<times> bool \<times> bool \<Rightarrow> int \<times> bool \<times> bool \<Rightarrow> (nat \<Rightarrow> int) \<Rightarrow> (nat \<Rightarrow> bool) \<Rightarrow>
     (hook \<times> task_end \<times> role_event list) option" where
  "TDB_hook_task h dial1 dial2 key put =
     (case dial1 of (fa, c1, k1) \<Rightarrow>
        (case TDB_hook_prepare fa c1 k1 of (rc1, fd1) \<Rightarrow>
           let h1 = h\<lparr>fd_append := fd1\<rparr> in
           if rc1 \<noteq> TDB_SUCCESS then Some (h1, Task_exit 1, [])
           else case dial2 of (fv, c2, k2) \<Rightarrow>
             (case TDB_hook_prepare fv c2 k2 of (rc2, fd2) \<Rightarrow>
                let h2 = h1\<lparr>fd_vote := fd2\<rparr> in
                if rc2 \<noteq> TDB_SUCCESS then Some (h2, Task_exit 1, [])
                else map_option (Pair h2) (hook_loop key put 0 []))))"

section \<open>What gets through\<close>

lemma recv_loop_forwards:
  assumes "\<And>k. k < n \<Longrightarrow> recv k = Some (msg k) \<and> send k = 1" and "recv n = None \<or> send n \<noteq> 1"
  shows "recv_loop recv send 0 [] = Some (Task_exit TDB_ERROR, map msg [0..<n])"
proof -
  have "recv_loop recv send k (map msg [0..<k]) = Some (Task_exit TDB_ERROR, map msg [0..<n])" if "k \<le> n" for k
    using that
  proof (induction k rule: inc_induct)
    case base
    show ?case using assms(2) by (subst recv_loop.simps) (auto split: option.splits)
  next
    case (step k)
    have "recv_loop recv send k (map msg [0..<k]) = recv_loop recv send (k + 1) (map msg [0..<k] @ [msg k])"
      using assms(1) [of k] step by (subst recv_loop.simps) simp
    then show ?case using step by simp
  qed
  from this [of 0] show ?thesis by simp
qed

text \<open>
  C30: What an attached client gets through to its replica.  A data client has its messages handed over
  one by one, in order, up to the first that cannot be read or handed over.  A client attached for
  votes or for appends gets nothing through when memory is available: its task exits at once.
\<close>

theorem attach_forwards_only_data:
  assumes "\<And>k. k < n \<Longrightarrow> recv k = Some (msg k) \<and> send k = 1" and "recv n = None \<or> send n \<noteq> 1"
  shows "TDB_attach_recv cl True True recv send =
    (if at_mode cl = control_action_code ATTACH_DATA then Some (Task_exit TDB_ERROR, map msg [0..<n])
     else if at_mode cl = control_action_code ATTACH_VOTE \<or> at_mode cl = control_action_code ATTACH_APPEND
     then Some (Task_exit TDB_ERROR, [])
     else Some (Task_returns, []))"
  using recv_loop_forwards [where msg = msg, OF assms]
  by (simp add: TDB_attach_recv_def TDB_attach_recv_data_def TDB_attach_recv_vote_def TDB_attach_recv_append_def)

definition demo_replica :: replica where
  "demo_replica = \<lparr>rep_uuid = [1], data_chan = 1, vote_chan = 2, append_chan = 3, current_term = 0, last_log_index = 0\<rparr>"

definition demo_attach :: "int \<Rightarrow> attach" where
  "demo_attach mode = \<lparr>at_replica = demo_replica, append_reply_chan = 4, data_reply_chan = 5, vote_reply_chan = 6,
     exit_chan = 7, remote_addr = ''::1'', remote_port = 9, at_mode = mode, at_fd = 3\<rparr>"

lemma attach_forwards_only_data_witness:
  "TDB_attach_recv (demo_attach 2) True True (\<lambda>k. if k < 2 then Some (k + 10) else None) (\<lambda>k. 1) =
     Some (Task_exit TDB_ERROR, [10, 11]) \<and>
   TDB_attach_recv (demo_attach 3) True True (\<lambda>k. if k < 2 then Some (k + 10) else None) (\<lambda>k. 1) =
     Some (Task_exit TDB_ERROR, [])"
  using attach_forwards_only_data [of 2 "\<lambda>k. if k < 2 then Some (k + 10) else None" "\<lambda>k. k + 10" "\<lambda>k. 1"]
  by (simp add: demo_attach_def numeral_2_eq_2)

text \<open>Attaching to an unknown replica starts nothing; otherwise one task starts, set up or not.\<close>

lemma attach_without_memory_crashes:
  assumes "reps uuid = Some rep"
  shows "TDB_replica_attach reps False mem2 junk cs rt uuid mode = (TDB_SUCCESS, [Attach_task None]) \<and>
         TDB_attach_task None m1 m2 recv send = Some (Crash, [])"
  using assms by (simp add: TDB_replica_attach_def TDB_attach_init_def TDB_attach_task_def)

lemma replica_attach_spawns:
  "TDB_replica_attach reps mem1 mem2 junk cs rt uuid mode =
     (if uuid \<in> dom reps
      then (TDB_SUCCESS, [Attach_task (snd (TDB_attach_init mem1 mem2 junk cs rt (the (reps uuid)) mode))])
      else (TDB_ERROR, []))"
  by (auto simp: TDB_replica_attach_def split: option.splits prod.splits)

end
