(* ===== verification/Settings.thy ===== *)
theory Settings
  imports Xtime Task_Print
begin

text \<open>
  The identity of a server process and its settings database (src/src/tomatod/settings.c).  The C
  library's files and the uuid library are arguments; what their documentation promises is collected in
  \<open>files_ok\<close> and \<open>uuids_ok\<close>.
\<close>

section \<open>Files and identifiers\<close>

text \<open>
  Files over a state of type \<open>'f\<close>: \<^verbatim>\<open>access\<close>, the contents \<^verbatim>\<open>fopen\<close>/\<^verbatim>\<open>fread\<close> find (\<open>None\<close> when the file
  cannot be opened), \<^verbatim>\<open>fopen\<close> for writing, which truncates, \<^verbatim>\<open>fwrite\<close> into the file just opened with the
  answer of \<^verbatim>\<open>ferror\<close>, \<^verbatim>\<open>unlink\<close>, \<^verbatim>\<open>stat\<close> and \<^verbatim>\<open>mkdir\<close>.
\<close>

record 'f files =
  fs_access :: "string \<Rightarrow> 'f \<Rightarrow> bool"
  fs_read :: "string \<Rightarrow> 'f \<Rightarrow> string option"
  fs_create :: "string \<Rightarrow> 'f \<Rightarrow> 'f option"
  fs_write :: "string \<Rightarrow> string \<Rightarrow> 'f \<Rightarrow> bool \<times> 'f"
  fs_unlink :: "string \<Rightarrow> 'f \<Rightarrow> 'f"
  fs_stat :: "string \<Rightarrow> 'f \<Rightarrow> stat_answer"
  fs_mkdir :: "string \<Rightarrow> 'f \<Rightarrow> bool \<times> 'f"

record uuids =
  uuid_parse :: "string \<Rightarrow> byte list option"
  uuid_unparse :: "byte list \<Rightarrow> string"

definition TDB_BASE_STATE_DIR :: string where
  "TDB_BASE_STATE_DIR = ''/var/lib/haven''"

definition TDB_SETTINGS_DB_PREFIX :: string where
  "TDB_SETTINGS_DB_PREFIX = ''/settings''"

definition TDB_DATA_DB_PREFIX :: string where
  "TDB_DATA_DB_PREFIX = ''/data''"

definition PROCESS_UUID_SETTINGS_PATH :: string where
  "PROCESS_UUID_SETTINGS_PATH = ''/process_uuid''"

definition settings_dir :: string where
  "settings_dir = TDB_BASE_STATE_DIR @ TDB_SETTINGS_DB_PREFIX"

definition uuid_file_path :: string where
  "uuid_file_path = TDB_BASE_STATE_DIR @ TDB_SETTINGS_DB_PREFIX @ PROCESS_UUID_SETTINGS_PATH"

section \<open>The operations\<close>

text \<open>
  Reading the identity.  The buffer holds exactly \<^verbatim>\<open>UUID_STR_LEN\<close> characters; \<open>beyond\<close> is what lies behind it
  in memory, which the string functions read when the file has no NUL.  The result is the code with the
  identity in the context afterwards.
\<close>

definition TDB_get_uuid_from_file ::
    "'f files \<Rightarrow> uuids \<Rightarrow> string \<Rightarrow> string \<Rightarrow> 'f \<Rightarrow> byte list \<Rightarrow> int \<times> byte list" where
  "TDB_get_uuid_from_file fl ul beyond path fs old =
     (case fs_read fl path fs of
        None \<Rightarrow> (TDB_ERROR, old)
      | Some contents \<Rightarrow>
          (let buf = take UUID_STR_LEN contents in
           if length buf \<noteq> UUID_STR_LEN then (TDB_ERROR, old)
           else case uuid_parse ul (c_string (buf @ beyond)) of
                  None \<Rightarrow> (TDB_ERROR, old)
                | Some u \<Rightarrow> (TDB_SUCCESS, u)))"

text \<open>\<open>gen\<close> is what \<^verbatim>\<open>uuid_generate_time_safe\<close> answers: whether it was safe, and the identifier it stores anyway.\<close>

definition TDB_generate_uuid :: "bool \<times> byte list \<Rightarrow> int \<times> byte list" where
  "TDB_generate_uuid gen = (if fst gen then TDB_SUCCESS else TDB_ERROR, snd gen)"

definition TDB_configure_new_process_uuid ::
    "'f files \<Rightarrow> uuids \<Rightarrow> bool \<times> byte list \<Rightarrow> string \<Rightarrow> 'f \<Rightarrow> int \<times> byte list \<times> 'f" where
  "TDB_configure_new_process_uuid fl ul gen path fs =
     (case TDB_generate_uuid gen of
        (result, u) \<Rightarrow>
          (case TDB_ensure_directory_exists (fs_stat fl) (fs_mkdir fl) settings_dir fs of
             (rc, fs1) \<Rightarrow>
               if rc \<noteq> TDB_SUCCESS then (TDB_ERROR, u, fs1)
               else case fs_create fl path fs1 of
                      None \<Rightarrow> (TDB_ERROR, u, fs1)
                    | Some fs2 \<Rightarrow>
                        if result \<noteq> TDB_SUCCESS then (TDB_ERROR, u, fs_unlink fl path fs2)
                        else case fs_write fl path (uuid_unparse ul u @ [CHR 0x00]) fs2 of
                               (ok, fs3) \<Rightarrow> (if ok then TDB_SUCCESS else TDB_ERROR, u, fs3)))"

definition TDB_set_process_uuid ::
    "'f files \<Rightarrow> uuids \<Rightarrow> string \<Rightarrow> bool \<times> byte list \<Rightarrow> 'f \<Rightarrow> byte list \<Rightarrow> int \<times> byte list \<times> 'f" where
  "TDB_set_process_uuid fl ul beyond gen fs old =
     (if fs_access fl uuid_file_path fs
      then (case TDB_get_uuid_from_file fl ul beyond uuid_file_path fs old of (rc, u) \<Rightarrow> (rc, u, fs))
      else TDB_configure_new_process_uuid fl ul gen uuid_file_path fs)"

text \<open>The settings database lies in a directory named after the process; \<open>db_init\<close> opens it.\<close>

definition TDB_prepare_settings_db ::
    "'f files \<Rightarrow> uuids \<Rightarrow> (string \<Rightarrow> 'f \<Rightarrow> int \<times> 'f) \<Rightarrow> byte list \<Rightarrow> 'f \<Rightarrow> int \<times> 'f" where
  "TDB_prepare_settings_db fl ul db_init u fs =
     (case TDB_ensure_directory_exists (fs_stat fl) (fs_mkdir fl) settings_dir fs of
        (rc, fs1) \<Rightarrow>
          if rc \<noteq> TDB_SUCCESS then (TDB_ERROR, fs1)
          else db_init (settings_dir @ ''/'' @ uuid_unparse ul u) fs1)"

section \<open>A configured identity is found again\<close>

text \<open>
  Documented behaviour: a successful write to a file just created is what reading returns, the file is
  then accessible, and after \<^verbatim>\<open>unlink\<close> it is not; an identifier prints as 36 characters without a NUL
  and parses back.
\<close>

definition files_ok :: "'f files \<Rightarrow> bool" where
  "files_ok fl =
     ((\<forall>p fs fs1 s fs2. fs_create fl p fs = Some fs1 \<and> fs_write fl p s fs1 = (True, fs2) \<longrightarrow>
         fs_access fl p fs2 \<and> fs_read fl p fs2 = Some s) \<and>
      (\<forall>p fs. \<not> fs_access fl p (fs_unlink fl p fs)))"

definition uuids_ok :: "uuids \<Rightarrow> byte list set \<Rightarrow> bool" where
  "uuids_ok ul us = (\<forall>u \<in> us. length (uuid_unparse ul u) = 36 \<and> CHR 0x00 \<notin> set (uuid_unparse ul u) \<and>
     uuid_parse ul (uuid_unparse ul u) = Some u)"

lemma c_string_terminated:
  "CHR 0x00 \<notin> set s \<Longrightarrow> c_string ((s @ [CHR 0x00]) @ r) = s"
  by (simp add: c_string_def takeWhile_append)

lemma get_uuid_after_write:
  assumes "fs_read fl p fs = Some (uuid_unparse ul u @ [CHR 0x00])" and "uuids_ok ul us" and "u \<in> us"
  shows "TDB_get_uuid_from_file fl ul beyond p fs old = (TDB_SUCCESS, u)"
proof -
  have "length (uuid_unparse ul u) = 36" "CHR 0x00 \<notin> set (uuid_unparse ul u)"
    "uuid_parse ul (uuid_unparse ul u) = Some u"
    using assms(2,3) by (auto simp: uuids_ok_def)
  then show ?thesis
    using assms(1) c_string_terminated [of "uuid_unparse ul u" beyond]
    by (simp add: TDB_get_uuid_from_file_def UUID_STR_LEN_def Let_def)
qed


text \<open>A file system with a map of files, all directories present, and a toy identifier library.\<close>

definition map_files :: "(string \<rightharpoonup> string) files" where
  "map_files = \<lparr>fs_access = (\<lambda>p fs. fs p \<noteq> None), fs_read = (\<lambda>p fs. fs p), fs_create = (\<lambda>p fs. Some (fs(p \<mapsto> []))),
     fs_write = (\<lambda>p s fs. (True, fs(p \<mapsto> s))), fs_unlink = (\<lambda>p fs. fs(p := None)), fs_stat = (\<lambda>p fs. Stat_dir),
     fs_mkdir = (\<lambda>p fs. (False, fs))\<rparr>"

definition letter_uuids :: uuids where
  "letter_uuids = \<lparr>uuid_parse = (\<lambda>s. if s = replicate 36 (CHR ''a'') then Some [7] else None),
     uuid_unparse = (\<lambda>u. replicate 36 (CHR ''a''))\<rparr>"

lemma map_files_ok: "files_ok map_files"
  by (simp add: files_ok_def map_files_def)

lemma letter_uuids_ok: "uuids_ok letter_uuids {[7]}"
  by (simp add: uuids_ok_def letter_uuids_def)

lemma first_start:
  "TDB_set_process_uuid map_files letter_uuids [] (True, [7]) Map.empty [] =
     (TDB_SUCCESS, [7], [uuid_file_path \<mapsto> replicate 36 (CHR ''a'') @ [CHR 0x00]])"
  by (simp add: TDB_set_process_uuid_def TDB_configure_new_process_uuid_def TDB_generate_uuid_def map_files_def
      letter_uuids_def TDB_ensure_directory_exists_def TDB_SUCCESS_def)


text \<open>
  What goes wrong at start-up.  A generator that is not safe leaves no identity file behind and
  fails.  An identity file that is too short, such as one left by a write that failed halfway, makes
  every start fail, without touching the file.
\<close>

theorem process_uuid_failures:
  assumes "files_ok fl" and "fs_access fl uuid_file_path fs2" and "fs_read fl uuid_file_path fs2 = Some s"
    and "length s < UUID_STR_LEN" and "\<not> fs_access fl uuid_file_path fs"
    and "TDB_ensure_directory_exists (fs_stat fl) (fs_mkdir fl) settings_dir fs = (TDB_SUCCESS, fs1)"
    and "fs_create fl uuid_file_path fs1 = Some fs1'"
  shows "TDB_set_process_uuid fl ul beyond gen fs2 old = (TDB_ERROR, old, fs2) \<and>
    (\<exists>fs'. TDB_set_process_uuid fl ul beyond (False, u) fs old = (TDB_ERROR, u, fs') \<and>
           \<not> fs_access fl uuid_file_path fs')"
proof -
  have "\<not> fs_access fl uuid_file_path (fs_unlink fl uuid_file_path fs1')"
    using assms(1) by (simp add: files_ok_def)
  moreover have "TDB_set_process_uuid fl ul beyond (False, u) fs old =
      (TDB_ERROR, u, fs_unlink fl uuid_file_path fs1')"
    using assms(5-7)
    by (simp add: TDB_set_process_uuid_def TDB_configure_new_process_uuid_def TDB_generate_uuid_def
        TDB_SUCCESS_def TDB_ERROR_def)
  ultimately show ?thesis using assms(2-4)
    by (simp add: TDB_set_process_uuid_def TDB_get_uuid_from_file_def)
qed

lemma process_uuid_failures_witness:
  "TDB_set_process_uuid map_files letter_uuids [] (True, [7]) [uuid_file_path \<mapsto> ''abc''] [9] =
     (TDB_ERROR, [9], [uuid_file_path \<mapsto> ''abc'']) \<and>
   (\<exists>fs'. TDB_set_process_uuid map_files letter_uuids [] (False, [7]) Map.empty [9] = (TDB_ERROR, [7], fs') \<and>
          \<not> fs_access map_files uuid_file_path fs')"
  by (rule process_uuid_failures [OF map_files_ok, where s = "''abc''" and ?fs1.0 = Map.empty])
    (simp_all add: map_files_def TDB_ensure_directory_exists_def UUID_STR_LEN_def)

end
