(* ===== verification/Daemon.thy ===== *)
theory Daemon
  imports Attach Settings
begin

text \<open>
  The server process: starting replicas (src/src/tomatod/bootstrap.c), routing a new connection
  (routing.c), and its life from the command line to the accept loop (context.c, tomatod.c).  The database
  and message layers these files include are not in the sources and are arguments.
\<close>

section \<open>Starting replicas\<close>

text \<open>
  A database of type \<open>'d\<close>: opening one at a path and the two stores used at bootstrap.  \<open>db_ok\<close> is what
  they promise, \<open>get\<close> being what a later read finds.
\<close>

datatype db_value = Db_char char | Db_uint64 nat

record 'd dblib =
  db_init :: "string \<Rightarrow> 'd option"
  db_put_char :: "string \<Rightarrow> char \<Rightarrow> 'd \<Rightarrow> bool \<times> 'd"
  db_put_uint64 :: "string \<Rightarrow> nat \<Rightarrow> 'd \<Rightarrow> bool \<times> 'd"

definition TDB_CONSENSUS_MD_STATE :: string where
  "TDB_CONSENSUS_MD_STATE = ''/.consensus/local/state''"

definition TDB_CONSENSUS_MD_TERM :: string where
  "TDB_CONSENSUS_MD_TERM = ''/.consensus/local/term''"

definition TDB_CONSENSUS_MD_LAST_LOG_INDEX :: string where
  "TDB_CONSENSUS_MD_LAST_LOG_INDEX = ''/.consensus/local/last_log_index''"

definition data_dir :: string where
  "data_dir = TDB_BASE_STATE_DIR @ TDB_DATA_DB_PREFIX"

type_synonym replicas = "byte list \<rightharpoonup> replica"

definition TDB_bootstrap_replica_db ::
    "'f files \<Rightarrow> uuids \<Rightarrow> 'd dblib \<Rightarrow> replica \<Rightarrow> 'f \<Rightarrow> int \<times> 'd option \<times> 'f" where
  "TDB_bootstrap_replica_db fl ul db rep fs =
     (case TDB_ensure_directory_exists (fs_stat fl) (fs_mkdir fl) data_dir fs of
        (rc, fs1) \<Rightarrow>
          if rc \<noteq> TDB_SUCCESS then (TDB_ERROR, None, fs1)
          else case db_init db (data_dir @ ''/'' @ uuid_unparse ul (rep_uuid rep)) of
                 None \<Rightarrow> (TDB_ERROR, None, fs1)
               | Some d \<Rightarrow> (TDB_SUCCESS, Some d, fs1))"

text \<open>
  \<^verbatim>\<open>TDB_bootstrap_follower\<close>: the code, the replica, its database as far as it got, the table of replicas, the
  task started and the files.  \<^verbatim>\<open>HASH_ADD\<close> adds the replica to the table; identifiers are fresh.
\<close>

definition TDB_bootstrap_follower ::
    "'f files \<Rightarrow> uuids \<Rightarrow> 'd dblib \<Rightarrow> bool \<times> byte list \<Rightarrow> replica \<Rightarrow> replicas \<Rightarrow> 'f \<Rightarrow>
     int \<times> replica \<times> 'd option \<times> replicas \<times> spawned list \<times> 'f" where
  "TDB_bootstrap_follower fl ul db gen rep reps fs =
     (case TDB_generate_uuid gen of
        (rc, u) \<Rightarrow>
          let rep1 = rep\<lparr>rep_uuid := u\<rparr> in
          if rc \<noteq> TDB_SUCCESS then (TDB_ERROR, rep1, None, reps, [], fs)
          else
            (case TDB_bootstrap_replica_db fl ul db rep1 fs of
               (rc, None, fs1) \<Rightarrow> (TDB_ERROR, rep1, None, reps, [], fs1)
             | (rc, Some d, fs1) \<Rightarrow>
                 (case db_put_char db TDB_CONSENSUS_MD_STATE TDB_CONSENSUS_MD_STATE_FOLLOWER d of
                    (False, d1) \<Rightarrow> (TDB_ERROR, rep1, Some d1, reps, [], fs1)
                  | (True, d1) \<Rightarrow>
                      (case db_put_uint64 db TDB_CONSENSUS_MD_TERM 0 d1 of
                         (False, d2) \<Rightarrow> (TDB_ERROR, rep1, Some d2, reps, [], fs1)
                       | (True, d2) \<Rightarrow>
                           (case db_put_uint64 db TDB_CONSENSUS_MD_LAST_LOG_INDEX 0 d2 of
                              (False, d3) \<Rightarrow> (TDB_ERROR, rep1, Some d3, reps, [], fs1)
                            | (True, d3) \<Rightarrow>
                                (TDB_SUCCESS, rep1, Some d3, reps(u \<mapsto> rep1), [Replica_task u], fs1))))))"

text \<open>
  The directory scan: \<open>new k\<close> is the replica \<^verbatim>\<open>TDB_replica_init\<close> makes the \<open>k\<close>-th time, or \<open>None\<close>.  The first
  entry that fails ends the scan with an error; replicas started before it go on.
\<close>

fun load_replicas ::
    "uuids \<Rightarrow> (string \<Rightarrow> 'd option) \<Rightarrow> (nat \<Rightarrow> replica option) \<Rightarrow> nat \<Rightarrow> string list \<Rightarrow> replicas \<Rightarrow> spawned list \<Rightarrow>
     int \<times> replicas \<times> spawned list" where
  "load_replicas ul init new k [] reps sp = (TDB_SUCCESS, reps, sp)"
| "load_replicas ul init new k (name # names) reps sp =
     (if length name = UUID_STR_LEN - 1 then
        (case new k of
           None \<Rightarrow> (TDB_ERROR, reps, sp)
         | Some rep \<Rightarrow>
             (case init (data_dir @ ''/'' @ name) of
                None \<Rightarrow> (TDB_ERROR, reps, sp)
              | Some d \<Rightarrow>
                  (case uuid_parse ul name of
                     None \<Rightarrow> (TDB_ERROR, reps, sp)
                   | Some u \<Rightarrow>
                       load_replicas ul init new (k + 1) names (reps(u \<mapsto> rep\<lparr>rep_uuid := u\<rparr>)) (sp @ [Replica_task u]))))
      else load_replicas ul init new k names reps sp)"

definition TDB_bootstrap_replicas_from_disk ::
    "uuids \<Rightarrow> (string \<Rightarrow> 'd option) \<Rightarrow> (nat \<Rightarrow> replica option) \<Rightarrow> string list option \<Rightarrow> replicas \<Rightarrow>
     int \<times> replicas \<times> spawned list" where
  "TDB_bootstrap_replicas_from_disk ul init new dir reps =
     (case dir of None \<Rightarrow> (TDB_SUCCESS, reps, []) | Some names \<Rightarrow> load_replicas ul init new 0 names reps [])"

section \<open>Routing a connection\<close>

definition TDB_init_router :: "bool \<Rightarrow> bool \<Rightarrow> string \<Rightarrow> int \<Rightarrow> int \<Rightarrow> int \<times> router option" where
  "TDB_init_router mem1 mem2 addr port fd =
     (if \<not> mem1 then (TDB_ERROR, None)
      else if \<not> mem2 then (TDB_ERROR, None)
      else (TDB_SUCCESS, Some \<lparr>rt_addr = strncpy_host addr, rt_port = port, rt_fd = fd\<rparr>))"

text \<open>The actions a control message can ask for; their codes come from a header that is not in the sources.\<close>

datatype ctrl =
  CTRL_ATTACH_APPEND | CTRL_ATTACH_DATA | CTRL_ATTACH_VOTE | CTRL_PROXY | CTRL_FOLLOWER | CTRL_LEADER |
  CTRL_LOCATION | CTRL_EXIT | CTRL_DESTROY

record control =
  ctl_action :: int
  ctl_uuid :: "byte list"
  ctl_path :: string

text \<open>
  What the routing task meets: the three message exchanges, the memory and channels of an attachment, the
  replica made for a new quorum, and the two bootstrap routines, which may change the table and start
  tasks.
\<close>

record routenv =
  re_connect :: bool
  re_control :: "control option"
  re_resp :: bool
  re_attach :: "bool \<times> bool \<times> attach \<times> (cptr \<times> cptr \<times> cptr \<times> cptr)"
  re_new :: "replica option"
  re_leader :: "replica option \<Rightarrow> string \<Rightarrow> replicas \<Rightarrow> int \<times> replicas \<times> spawned list"
  re_location :: "replica option \<Rightarrow> replicas \<Rightarrow> int \<times> replicas \<times> spawned list"

text \<open>The switch over the action, with whether the action is one the code knows.\<close>

definition route_action ::
    "(ctrl \<Rightarrow> int) \<Rightarrow> routenv \<Rightarrow> router \<Rightarrow> control \<Rightarrow> replicas \<Rightarrow> bool \<times> replicas \<times> spawned list" where
  "route_action code env rt msg reps =
     (let a = ctl_action msg in
      if a = code CTRL_ATTACH_APPEND \<or> a = code CTRL_ATTACH_DATA \<or> a = code CTRL_ATTACH_VOTE then
        (case re_attach env of (m1, m2, junk, cs) \<Rightarrow>
           (True, reps, snd (TDB_replica_attach reps m1 m2 junk cs rt (ctl_uuid msg) a)))
      else if a = code CTRL_PROXY \<or> a = code CTRL_FOLLOWER then (True, reps, [])
      else if a = code CTRL_LEADER then (True, snd (re_leader env (re_new env) (ctl_path msg) reps))
      else if a = code CTRL_LOCATION then (True, snd (re_location env (re_new env) reps))
      else if a = code CTRL_EXIT \<or> a = code CTRL_DESTROY then (True, reps, [])
      else (False, reps, []))"

text \<open>The routing task: how it ends, whether the router was freed, the table and the tasks started.\<close>

definition TDB_routing_task ::
    "(ctrl \<Rightarrow> int) \<Rightarrow> routenv \<Rightarrow> router \<Rightarrow> replicas \<Rightarrow> task_end \<times> bool \<times> replicas \<times> spawned list" where
  "TDB_routing_task code env rt reps =
     (if \<not> re_connect env then (Task_exit TDB_ERROR, False, reps, [])
      else case re_control env of
             None \<Rightarrow> (Task_exit TDB_ERROR, False, reps, [])
           | Some msg \<Rightarrow>
               if \<not> re_resp env then (Task_exit TDB_ERROR, False, reps, [])
               else case route_action code env rt msg reps of
                      (known, reps', sp) \<Rightarrow>
                        if known then (Task_exit TDB_SUCCESS, True, reps', sp)
                        else (Task_exit TDB_ERROR, False, reps', sp))"

section \<open>The command line\<close>

record ctx =
  listen_addr :: string
  listen_port :: int
  debug_level :: int

definition DEFAULT_LISTEN_ADDRESS :: string where
  "DEFAULT_LISTEN_ADDRESS = ''127.0.0.1''"

definition DEFAULT_LISTEN_PORT :: int where
  "DEFAULT_LISTEN_PORT = 7854"

datatype loglevel = LOG_FATAL | LOG_ERR | LOG_WARN | LOG_INFO | LOG_DBG

fun loglevel_code :: "loglevel \<Rightarrow> int" where
  "loglevel_code LOG_FATAL = 1"
| "loglevel_code LOG_ERR = 2"
| "loglevel_code LOG_WARN = 3"
| "loglevel_code LOG_INFO = 4"
| "loglevel_code LOG_DBG = 5"

text \<open>
  \<^verbatim>\<open>TDB_ctx_init\<close>: \<open>ok\<close> answers for the context, \<open>xdr\<close> for the record stream.  The address is a default and
  the level the one \<^verbatim>\<open>taskmain\<close> sets before.
\<close>

definition TDB_ctx_init :: "bool \<Rightarrow> bool \<Rightarrow> int \<times> ctx option" where
  "TDB_ctx_init ok xdr =
     (if \<not> ok then (TDB_ERROR, None)
      else if \<not> xdr then (TDB_ERROR, None)
      else (TDB_SUCCESS, Some \<lparr>listen_addr = DEFAULT_LISTEN_ADDRESS, listen_port = DEFAULT_LISTEN_PORT,
              debug_level = loglevel_code LOG_INFO\<rparr>))"

text \<open>\<^verbatim>\<open>atoi\<close>: \<^verbatim>\<open>strtol\<close> in base 10, which saturates, reduced to an \<^verbatim>\<open>int\<close>.\<close>

definition atoi :: "string \<Rightarrow> int" where
  "atoi s =
     (let q = dropWhile is_space s;
          neg = (q \<noteq> [] \<and> hd q = CHR ''-'');
          q1 = (if q \<noteq> [] \<and> (hd q = CHR ''-'' \<or> hd q = CHR ''+'') then tl q else q);
          v = int (fst (take_digits 10 0 q1));
          l = (if neg then max (- v) (- (2 ^ 63)) else min v (2 ^ 63 - 1))
      in sint (word_of_int l :: 32 word))"

text \<open>\<^verbatim>\<open>strncmp(optarg, p, strlen(p)) == 0\<close>.\<close>

definition starts_with :: "string \<Rightarrow> string \<Rightarrow> bool" where
  "starts_with p s \<longleftrightarrow> take (length p) s = p"

definition debug_option :: "string \<Rightarrow> int \<Rightarrow> int" where
  "debug_option s old =
     (if starts_with ''fatal'' s then loglevel_code LOG_FATAL
      else if starts_with ''err'' s then loglevel_code LOG_ERR
      else if starts_with ''warn'' s then loglevel_code LOG_WARN
      else if starts_with ''info'' s then loglevel_code LOG_INFO
      else if starts_with ''dbg'' s then loglevel_code LOG_DBG
      else old)"

text \<open>
  What \<^verbatim>\<open>getopt_long\<close> returns, one result after the other: an option with its argument, or an option it
  rejects.  The loop leaves the process on help, version and rejected options.
\<close>

datatype opt = Opt_a string | Opt_d string | Opt_p string | Opt_h | Opt_v | Opt_rejected char

fun TDB_handle_tomatod_cli_args :: "opt list \<Rightarrow> ctx \<Rightarrow> (task_end, ctx) sum" where
  "TDB_handle_tomatod_cli_args [] c = Inr c"
| "TDB_handle_tomatod_cli_args (Opt_a s # os) c = TDB_handle_tomatod_cli_args os (c\<lparr>listen_addr := strncpy_host s\<rparr>)"
| "TDB_handle_tomatod_cli_args (Opt_d s # os) c =
     TDB_handle_tomatod_cli_args os (c\<lparr>debug_level := debug_option s (debug_level c)\<rparr>)"
| "TDB_handle_tomatod_cli_args (Opt_p s # os) c = TDB_handle_tomatod_cli_args os (c\<lparr>listen_port := atoi s\<rparr>)"
| "TDB_handle_tomatod_cli_args (Opt_h # os) c = Inl (Task_exit 0)"
| "TDB_handle_tomatod_cli_args (Opt_v # os) c = Inl (Task_exit 0)"
| "TDB_handle_tomatod_cli_args (Opt_rejected x # os) c = Inl (Task_exit 1)"

section \<open>The server loop\<close>

text \<open>
  The accept loop: \<open>conn k\<close> is the \<open>k\<close>-th result of \<^verbatim>\<open>netaccept\<close> with the address and port it stores, \<open>ok k\<close>
  the memory for the router.  The result collects the routers started and the descriptors accepted that no
  router holds.
\<close>

partial_function (option) accept_loop ::
    "(nat \<Rightarrow> int \<times> string \<times> int) \<Rightarrow> (nat \<Rightarrow> bool \<times> bool) \<Rightarrow> nat \<Rightarrow> spawned list \<Rightarrow> (int \<times> spawned list \<times> int list) option"
  where
  "accept_loop conn ok k out =
     (case conn k of
        (fd, addr, port) \<Rightarrow>
          if fd < 0 then Some (TDB_SUCCESS, out, [])
          else case TDB_init_router (fst (ok k)) (snd (ok k)) addr port fd of
                 (rc, None) \<Rightarrow> Some (TDB_SUCCESS, out, [fd])
               | (rc, Some rt) \<Rightarrow> accept_loop conn ok (k + 1) (out @ [Routing_task rt]))"

definition TDB_listen_and_accept ::
    "bool \<Rightarrow> (nat \<Rightarrow> int \<times> string \<times> int) \<Rightarrow> (nat \<Rightarrow> bool \<times> bool) \<Rightarrow> (int \<times> spawned list \<times> int list) option" where
  "TDB_listen_and_accept noblock conn ok =
     (if \<not> noblock then Some (TDB_ERROR, [], []) else accept_loop conn ok 0 [])"

text \<open>
  \<^verbatim>\<open>taskmain\<close>.  The stages get the answers of their surroundings: memory, files, identifiers, the databases and
  the connections.  The result is how the task ends, with the tasks it started.
\<close>

record ('f, 'd) world =
  w_mem :: bool
  w_xdr :: bool
  w_files :: "'f files"
  w_uuids :: uuids
  w_beyond :: string
  w_gen :: "bool \<times> byte list"
  w_settings_db :: "string \<Rightarrow> 'f \<Rightarrow> int \<times> 'f"
  w_db :: "'d dblib"
  w_new :: "nat \<Rightarrow> replica option"
  w_dir :: "'f \<Rightarrow> string list option"
  w_noblock :: bool
  w_conn :: "nat \<Rightarrow> int \<times> string \<times> int"
  w_rtmem :: "nat \<Rightarrow> bool \<times> bool"

definition taskmain ::
    "('f, 'd) world \<Rightarrow> opt list \<Rightarrow> 'f \<Rightarrow> byte list \<Rightarrow> (task_end \<times> spawned list \<times> 'f) option" where
  "taskmain w opts fs junk =
     (case TDB_ctx_init (w_mem w) (w_xdr w) of
        (rc, None) \<Rightarrow> Some (Task_exit 1, [], fs)
      | (rc, Some c) \<Rightarrow>
          (case TDB_handle_tomatod_cli_args opts c of
             Inl e \<Rightarrow> Some (e, [], fs)
           | Inr c1 \<Rightarrow>
               (case TDB_set_process_uuid (w_files w) (w_uuids w) (w_beyond w) (w_gen w) fs junk of
                  (rc, u, fs1) \<Rightarrow>
                    if rc \<noteq> TDB_SUCCESS then Some (Task_exit 1, [], fs1)
                    else
                      (case TDB_prepare_settings_db (w_files w) (w_uuids w) (w_settings_db w) u fs1 of
                         (rc, fs2) \<Rightarrow>
                           if rc \<noteq> TDB_SUCCESS then Some (Task_exit 1, [], fs2)
                           else
                             (case TDB_bootstrap_replicas_from_disk (w_uuids w) (db_init (w_db w)) (w_new w)
                                     (w_dir w fs2) Map.empty of
                                (rc, reps, sp) \<Rightarrow>
                                  if rc \<noteq> TDB_SUCCESS then Some (Task_exit 1, sp, fs2)
                                  else
                                    (case TDB_listen_and_accept (w_noblock w) (w_conn w) (w_rtmem w) of
                                       None \<Rightarrow> None
                                     | Some (rc, rts, fds) \<Rightarrow>
                                         Some (Task_exit (if rc = TDB_SUCCESS then 0 else 1), sp @ rts, fs2)))))))"

section \<open>Bootstrapping\<close>

definition db_ok :: "'d dblib \<Rightarrow> ('d \<Rightarrow> string \<Rightarrow> db_value option) \<Rightarrow> bool" where
  "db_ok db get \<longleftrightarrow>
     (\<forall>k v d d'. db_put_char db k v d = (True, d') \<longrightarrow> get d' = (get d)(k \<mapsto> Db_char v)) \<and>
     (\<forall>k v d d'. db_put_uint64 db k v d = (True, d') \<longrightarrow> get d' = (get d)(k \<mapsto> Db_uint64 v))"

definition role_in :: "('d \<Rightarrow> string \<Rightarrow> db_value option) \<Rightarrow> 'd \<Rightarrow> char option" where
  "role_in get d = (case get d TDB_CONSENSUS_MD_STATE of Some (Db_char c) \<Rightarrow> Some c | _ \<Rightarrow> None)"

lemma follower_task_fails:
  "role 0 = Some TDB_CONSENSUS_MD_STATE_FOLLOWER \<Longrightarrow>
   TDB_replica_task role timer key frame 0 = Some (Task_exit 1, 0)"
  by (subst TDB_replica_task.simps) (simp add: TDB_replica_follower_def md_state_defs TDB_SUCCESS_def TDB_ERROR_def)


definition map_db :: "(string \<rightharpoonup> db_value) dblib" where
  "map_db = \<lparr>db_init = (\<lambda>p. Some Map.empty), db_put_char = (\<lambda>k v d. (True, d(k \<mapsto> Db_char v))),
     db_put_uint64 = (\<lambda>k v d. (True, d(k \<mapsto> Db_uint64 v)))\<rparr>"

lemma map_db_ok: "db_ok map_db (\<lambda>d. d)"
  by (simp add: db_ok_def map_db_def)


text \<open>Entries of the data directory that are taken for replicas, and the ones that can be loaded.\<close>

definition uuid_name :: "string \<Rightarrow> bool" where
  "uuid_name name \<longleftrightarrow> length name = 36"

definition loadable :: "uuids \<Rightarrow> (string \<Rightarrow> 'd option) \<Rightarrow> string \<Rightarrow> bool" where
  "loadable ul init name \<longleftrightarrow>
     (uuid_name name \<longrightarrow> init (data_dir @ ''/'' @ name) \<noteq> None \<and> uuid_parse ul name \<noteq> None)"

definition loaded_uuids :: "uuids \<Rightarrow> (string \<Rightarrow> 'd option) \<Rightarrow> string list \<Rightarrow> byte list list" where
  "loaded_uuids ul init names =
     List.map (\<lambda>n. the (uuid_parse ul n)) (filter uuid_name (takeWhile (loadable ul init) names))"

lemma load_replicas_names:
  assumes "\<And>k. new k \<noteq> None"
  shows "fst (load_replicas ul init new k names reps sp) =
      (if \<forall>n \<in> set names. loadable ul init n then TDB_SUCCESS else TDB_ERROR) \<and>
    dom (fst (snd (load_replicas ul init new k names reps sp))) =
      dom reps \<union> set (loaded_uuids ul init names) \<and>
    (\<forall>u \<in> set (loaded_uuids ul init names).
       rep_uuid (the (fst (snd (load_replicas ul init new k names reps sp)) u)) = u) \<and>
    (\<forall>u. u \<notin> set (loaded_uuids ul init names) \<longrightarrow>
       fst (snd (load_replicas ul init new k names reps sp)) u = reps u) \<and>
    snd (snd (load_replicas ul init new k names reps sp)) = sp @ List.map Replica_task (loaded_uuids ul init names)"
proof (induction names arbitrary: k reps sp)
  case Nil
  then show ?case by (simp add: loaded_uuids_def)
next
  case (Cons name names)
  obtain rep where rep: "new k = Some rep" using assms by blast
  show ?case
  proof (cases "uuid_name name \<and> loadable ul init name")
    case True
    then obtain d u where d: "init (data_dir @ ''/'' @ name) = Some d" "uuid_parse ul name = Some u"
      by (auto simp: loadable_def)
    define reps1 where "reps1 = reps(u \<mapsto> rep\<lparr>rep_uuid := u\<rparr>)"
    define r where "r = load_replicas ul init new (k + 1) names reps1 (sp @ [Replica_task u])"
    have lu: "loaded_uuids ul init (name # names) = u # loaded_uuids ul init names"
      using True d by (simp add: loaded_uuids_def)
    have step: "load_replicas ul init new k (name # names) reps sp = r"
      using True rep d by (simp add: uuid_name_def UUID_STR_LEN_def reps1_def r_def)
    have "dom reps1 = insert u (dom reps)" "rep_uuid (the (reps1 u)) = u" "\<And>v. v \<noteq> u \<Longrightarrow> reps1 v = reps v"
      by (auto simp: reps1_def)
    then show ?thesis
      using True Cons [of "k + 1" reps1 "sp @ [Replica_task u]", folded r_def] unfolding step lu
      by (cases "u \<in> set (loaded_uuids ul init names)") auto
  next
    case False
    then show ?thesis
    proof (cases "uuid_name name")
      case True
      then have "\<not> loadable ul init name" using False by simp
      then show ?thesis using True rep
        by (auto simp: loaded_uuids_def loadable_def uuid_name_def UUID_STR_LEN_def split: option.splits)
    next
      case other: False
      then have "loaded_uuids ul init (name # names) = loaded_uuids ul init names" "loadable ul init name"
        by (simp_all add: loaded_uuids_def loadable_def)
      then show ?thesis using other Cons [of k reps sp] by (simp add: uuid_name_def UUID_STR_LEN_def)
    qed
  qed
qed

text \<open>
  Starting the replicas on disk.  With memory, the entries of the data directory with 36 characters
  are loaded in order up to the first whose database does not open or whose name is no identifier: one
  task each, and the table holds exactly their identifiers, each with its replica.  The result is success
  exactly when there is no such entry; a directory that cannot be read is an empty one.
\<close>

theorem replicas_from_disk:
  assumes "\<And>k. new k \<noteq> None" and "names = (case dir of None \<Rightarrow> [] | Some ns \<Rightarrow> ns)"
    and "TDB_bootstrap_replicas_from_disk ul init new dir Map.empty = (rc, reps, sp)"
  shows "rc = (if \<forall>n \<in> set names. loadable ul init n then TDB_SUCCESS else TDB_ERROR) \<and>
    dom reps = set (loaded_uuids ul init names) \<and>
    (\<forall>u \<in> dom reps. rep_uuid (the (reps u)) = u) \<and>
    sp = List.map Replica_task (loaded_uuids ul init names)"
proof (cases dir)
  case None
  then show ?thesis using assms(2,3) by (auto simp: TDB_bootstrap_replicas_from_disk_def loaded_uuids_def)
next
  case (Some ns)
  then show ?thesis using load_replicas_names [where new = new and ul = ul and init = init, OF assms(1), where names = ns and k = 0 and reps = Map.empty and sp = "[]"]
      assms(2,3) by (simp add: TDB_bootstrap_replicas_from_disk_def)
qed

lemma replicas_from_disk_witness:
  "fst (TDB_bootstrap_replicas_from_disk letter_uuids (db_init map_db) (\<lambda>k. Some demo_replica)
     (Some [''.'', replicate 36 (CHR ''a''), replicate 36 (CHR ''b'')]) Map.empty) = TDB_ERROR"
  using replicas_from_disk [of "\<lambda>k. Some demo_replica" _
      "Some [''.'', replicate 36 (CHR ''a''), replicate 36 (CHR ''b'')]" letter_uuids "db_init map_db"]
  by (cases "TDB_bootstrap_replicas_from_disk letter_uuids (db_init map_db) (\<lambda>k. Some demo_replica)
      (Some [''.'', replicate 36 (CHR ''a''), replicate 36 (CHR ''b'')]) Map.empty")
    (simp add: loadable_def uuid_name_def letter_uuids_def map_db_def)

section \<open>Routing\<close>


fun demo_code :: "ctrl \<Rightarrow> int" where
  "demo_code CTRL_ATTACH_APPEND = 0"
| "demo_code CTRL_ATTACH_DATA = 2"
| "demo_code CTRL_ATTACH_VOTE = 3"
| "demo_code CTRL_PROXY = 4"
| "demo_code CTRL_FOLLOWER = 5"
| "demo_code CTRL_LEADER = 6"
| "demo_code CTRL_LOCATION = 7"
| "demo_code CTRL_EXIT = 8"
| "demo_code CTRL_DESTROY = 9"

lemma inj_demo_code: "inj demo_code"
proof (rule injI)
  fix a b assume "demo_code a = demo_code b"
  then show "a = b" by (cases a; cases b) simp_all
qed

definition demo_env :: "int \<Rightarrow> routenv" where
  "demo_env a = \<lparr>re_connect = True, re_control = Some \<lparr>ctl_action = a, ctl_uuid = [1], ctl_path = []\<rparr>, re_resp = True,
     re_attach = (True, True, demo_attach 0, (4, 5, 6, 7)), re_new = None,
     re_leader = (\<lambda>r p reps. (TDB_ERROR, reps, [])), re_location = (\<lambda>r reps. (TDB_ERROR, reps, []))\<rparr>"


section \<open>The command line and the server loop\<close>

lemma atoi_dec:
  assumes "n < 2 ^ 31"
  shows "atoi (dec n) = int n"
proof -
  have td: "take_digits 10 0 (dec n) = (n, [])" if "n \<noteq> 0"
    using take_digits_digits_of [of 10 0 n "[]"] that by (simp add: dec_def)
  have sint: "sint (word_of_int (int n) :: 32 word) = int n"
    using assms by (simp add: signed_of_nat signed_take_bit_int_eq_self)
  show ?thesis
  proof (cases "n = 0")
    case True
    then show ?thesis by (simp add: dec_def atoi_def is_space_def digit_in_def)
  next
    case False
    obtain d ds where ds: "digits_of 10 n = digit_char d # ds" and d: "0 < d" "d < 10"
      using hd_digits_of [of 10 n] False by auto
    then show ?thesis using td [OF False] False digit_char_props [OF d] assms sint
      by (simp add: atoi_def dec_def Let_def min_def)
  qed
qed

text \<open>The last argument given for an option, and the options that set something.\<close>

fun opt_addr :: "opt \<Rightarrow> string list" where
  "opt_addr (Opt_a s) = [s]"
| "opt_addr _ = []"

fun opt_port :: "opt \<Rightarrow> string list" where
  "opt_port (Opt_p s) = [s]"
| "opt_port _ = []"

fun setting :: "opt \<Rightarrow> bool" where
  "setting (Opt_a s) = True"
| "setting (Opt_d s) = True"
| "setting (Opt_p s) = True"
| "setting _ = False"

lemma cli_settings_applied:
  assumes "\<forall>x \<in> set os. setting x"
  shows "\<exists>c'. (\<forall>rest. TDB_handle_tomatod_cli_args (os @ rest) c = TDB_handle_tomatod_cli_args rest c') \<and>
    Some (listen_addr c') = last_or (Some (listen_addr c)) (List.map strncpy_host (concat (List.map opt_addr os))) \<and>
    Some (listen_port c') = last_or (Some (listen_port c)) (List.map atoi (concat (List.map opt_port os)))"
  using assms
proof (induction os arbitrary: c)
  case Nil
  then show ?case by auto
next
  case (Cons x os)
  have rest: "\<forall>x \<in> set os. setting x" using Cons.prems by simp
  show ?case
  proof (cases x)
    case (Opt_a s)
    then show ?thesis using Cons.IH [OF rest, of "c\<lparr>listen_addr := strncpy_host s\<rparr>"] by simp
  next
    case (Opt_d s)
    then show ?thesis using Cons.IH [OF rest, of "c\<lparr>debug_level := debug_option s (debug_level c)\<rparr>"] by simp
  next
    case (Opt_p s)
    then show ?thesis using Cons.IH [OF rest, of "c\<lparr>listen_port := atoi s\<rparr>"] by simp
  qed (use Cons.prems in simp_all)
qed

text \<open>
  What the command line sets.  The last listen address and the last listen port win, the defaults stay
  where there is none, and a port below \<open>2^31\<close> written in decimal is the port used; the first option that
  sets nothing ends the task, successfully for help and version, with a failure when it is rejected.
\<close>

theorem command_line:
  assumes "\<forall>x \<in> set os. setting x" and "n < 2 ^ 31"
  shows "(\<exists>c'. TDB_handle_tomatod_cli_args os c = Inr c' \<and>
       Some (listen_addr c') = last_or (Some (listen_addr c)) (List.map strncpy_host (concat (List.map opt_addr os))) \<and>
       Some (listen_port c') = last_or (Some (listen_port c)) (List.map atoi (concat (List.map opt_port os)))) \<and>
    (\<exists>c'. TDB_handle_tomatod_cli_args (os @ [Opt_p (dec n)]) c = Inr c' \<and> listen_port c' = int n) \<and>
    TDB_handle_tomatod_cli_args (os @ Opt_h # rest) c = Inl (Task_exit 0) \<and>
    TDB_handle_tomatod_cli_args (os @ Opt_v # rest) c = Inl (Task_exit 0) \<and>
    TDB_handle_tomatod_cli_args (os @ Opt_rejected x # rest) c = Inl (Task_exit 1)"
proof -
  obtain c' where c': "\<And>rest. TDB_handle_tomatod_cli_args (os @ rest) c = TDB_handle_tomatod_cli_args rest c'"
    "Some (listen_addr c') = last_or (Some (listen_addr c)) (List.map strncpy_host (concat (List.map opt_addr os)))"
    "Some (listen_port c') = last_or (Some (listen_port c)) (List.map atoi (concat (List.map opt_port os)))"
    using cli_settings_applied [OF assms(1)] by metis
  then show ?thesis using c'(1) [of "[]"] atoi_dec [OF assms(2)] by simp
qed

lemma command_line_witness:
  "\<exists>c'. TDB_handle_tomatod_cli_args ([Opt_d ''dbg'', Opt_p ''1''] @ [Opt_p (dec 7854)])
     \<lparr>listen_addr = ''::'', listen_port = 3, debug_level = 1\<rparr> = Inr c' \<and> listen_port c' = 7854"
  using command_line [of "[Opt_d ''dbg'', Opt_p ''1'']" 7854] by simp

lemma accept_loop_accepts:
  assumes "\<And>k. k < n \<Longrightarrow> fst (conn k) \<ge> 0 \<and> ok k = (True, True)" and "fst (conn n) < 0 \<or> ok n \<noteq> (True, True)"
  shows "accept_loop conn ok 0 [] = Some (TDB_SUCCESS,
    List.map (\<lambda>k. Routing_task \<lparr>rt_addr = strncpy_host (fst (snd (conn k))), rt_port = snd (snd (conn k)),
      rt_fd = fst (conn k)\<rparr>) [0..<n], if fst (conn n) < 0 then [] else [fst (conn n)])"
    (is "_ = Some (_, List.map ?rt _, ?left)")
proof -
  have "accept_loop conn ok k (List.map ?rt [0..<k]) = Some (TDB_SUCCESS, List.map ?rt [0..<n], ?left)" if "k \<le> n" for k
    using that
  proof (induction k rule: inc_induct)
    case base
    show ?case using assms(2)
      by (subst accept_loop.simps) (cases "ok n"; auto simp: TDB_init_router_def split: prod.splits)
  next
    case (step k)
    obtain fd addr port where ck: "conn k = (fd, addr, port)" by (cases "conn k")
    have "accept_loop conn ok k (List.map ?rt [0..<k]) = accept_loop conn ok (k + 1) (List.map ?rt [0..<k] @ [?rt k])"
      using assms(1) [of k] step ck by (subst accept_loop.simps) (simp add: TDB_init_router_def)
    then show ?case using step by simp
  qed
  from this [of 0] show ?thesis by simp
qed

text \<open>
  C34: The life of a server.  When the arguments are accepted, the identity and the settings database are
  there, the replicas load and the socket listens, the main task starts one routing task per accepted
  connection, in order, each with the address, port and descriptor of its connection, until an accept
  fails or there is no memory for a router; it then exits with success, also after that failure.
\<close>

theorem server_run:
  assumes "w_mem w" "w_xdr w" "w_noblock w" and "TDB_ctx_init True True = (TDB_SUCCESS, Some c)"
    and "TDB_handle_tomatod_cli_args opts c = Inr c1"
    and "TDB_set_process_uuid (w_files w) (w_uuids w) (w_beyond w) (w_gen w) fs junk = (TDB_SUCCESS, u, fs1)"
    and "TDB_prepare_settings_db (w_files w) (w_uuids w) (w_settings_db w) u fs1 = (TDB_SUCCESS, fs2)"
    and "TDB_bootstrap_replicas_from_disk (w_uuids w) (db_init (w_db w)) (w_new w) (w_dir w fs2) Map.empty =
         (TDB_SUCCESS, reps, sp)"
    and "\<And>k. k < n \<Longrightarrow> fst (w_conn w k) \<ge> 0 \<and> w_rtmem w k = (True, True)"
    and "fst (w_conn w n) < 0 \<or> w_rtmem w n \<noteq> (True, True)"
  shows "taskmain w opts fs junk = Some (Task_exit 0,
    sp @ List.map (\<lambda>k. Routing_task \<lparr>rt_addr = strncpy_host (fst (snd (w_conn w k))),
      rt_port = snd (snd (w_conn w k)), rt_fd = fst (w_conn w k)\<rparr>) [0..<n], fs2)"
  using assms(1-8) accept_loop_accepts [where conn = "w_conn w" and ok = "w_rtmem w", OF assms(9,10)]
  by (simp add: taskmain_def TDB_listen_and_accept_def)

definition demo_world :: "(string \<rightharpoonup> string, string \<rightharpoonup> db_value) world" where
  "demo_world = \<lparr>w_mem = True, w_xdr = True, w_files = map_files, w_uuids = letter_uuids, w_beyond = [],
     w_gen = (True, [7]), w_settings_db = (\<lambda>p fs. (TDB_SUCCESS, fs)), w_db = map_db, w_new = (\<lambda>k. None),
     w_dir = (\<lambda>fs. None), w_noblock = True,
     w_conn = (\<lambda>k. if k < 2 then (int k + 4, ''::1'', 80) else (-1, [], 0)), w_rtmem = (\<lambda>k. (True, True))\<rparr>"

lemma server_run_witness:
  "\<exists>r1 r2. taskmain demo_world [] Map.empty [] = Some (Task_exit 0, [Routing_task r1, Routing_task r2],
     [uuid_file_path \<mapsto> replicate 36 (CHR ''a'') @ [CHR 0x00]]) \<and> rt_fd r1 = 4 \<and> rt_fd r2 = 5"
proof -
  have "TDB_prepare_settings_db map_files letter_uuids (\<lambda>p fs. (TDB_SUCCESS, fs)) u fs = (TDB_SUCCESS, fs)" for u fs
    by (simp add: TDB_prepare_settings_db_def map_files_def TDB_ensure_directory_exists_def TDB_SUCCESS_def)
  then show ?thesis
    using server_run [of demo_world _ "[]" _ Map.empty "[]" "[7]"
        "[uuid_file_path \<mapsto> replicate 36 (CHR ''a'') @ [CHR 0x00]]"
        "[uuid_file_path \<mapsto> replicate 36 (CHR ''a'') @ [CHR 0x00]]" Map.empty "[]" 2]
    by (simp add: demo_world_def first_start TDB_bootstrap_replicas_from_disk_def TDB_ctx_init_def numeral_2_eq_2)
qed

text \<open>Memory for the context and a working listening socket are needed; failing there ends with status 1.\<close>

lemma start_up_failures:
  "\<not> w_mem w \<Longrightarrow> taskmain w opts fs junk = Some (Task_exit 1, [], fs)"
  "w_mem w \<Longrightarrow> \<not> w_xdr w \<Longrightarrow> taskmain w opts fs junk = Some (Task_exit 1, [], fs)"
  by (simp_all add: taskmain_def TDB_ctx_init_def)

end
