(* ===== verification/Linenoise.thy ===== *)
theory Linenoise
  imports Task_Print
begin

text \<open>
  The line editor of the client (src/src/tomato/linenoise.c) in its single line mode, the only one the
  client uses: history, editing operations, completion, redrawing, and the editing loop over what is
  typed.  What a terminal makes of the redrawing, and the multi line mode, are in Ln_Display.  A \<^verbatim>\<open>char\<close> is signed, as on the machines the program runs on.
\<close>

abbreviation (input) NUL :: char where
  "NUL \<equiv> CHR 0x00"

section \<open>History\<close>

text \<open>
  \<^verbatim>\<open>history\<close>, \<^verbatim>\<open>history_len\<close> and \<^verbatim>\<open>history_max_len\<close>: the entries, oldest first, or \<open>None\<close> before the first one
  is added.
\<close>

record history =
  entries :: "string list option"
  history_max_len :: nat

definition LINENOISE_DEFAULT_HISTORY_MAX_LEN :: nat where
  "LINENOISE_DEFAULT_HISTORY_MAX_LEN = 100"

definition history_start :: history where
  "history_start = \<lparr>entries = None, history_max_len = LINENOISE_DEFAULT_HISTORY_MAX_LEN\<rparr>"

definition lines_of :: "history \<Rightarrow> string list" where
  "lines_of h = (case entries h of None \<Rightarrow> [] | Some es \<Rightarrow> es)"

definition linenoiseHistoryAdd :: "bool \<Rightarrow> bool \<Rightarrow> string \<Rightarrow> history \<Rightarrow> int \<times> history" where
  "linenoiseHistoryAdd mem1 mem2 line h =
     (if history_max_len h = 0 then (0, h)
      else if entries h = None \<and> \<not> mem1 then (0, h)
      else
        let es = lines_of h; h1 = h\<lparr>entries := Some es\<rparr> in
        if \<not> mem2 then (0, h1)
        else
          let es1 = (if length es = history_max_len h then tl es else es) in
          (1, h1\<lparr>entries := Some (es1 @ [line])\<rparr>))"

definition linenoiseHistorySetMaxLen :: "bool \<Rightarrow> int \<Rightarrow> history \<Rightarrow> int \<times> history" where
  "linenoiseHistorySetMaxLen mem1 n h =
     (if n < 1 then (0, h)
      else case entries h of
             None \<Rightarrow> (1, h\<lparr>history_max_len := nat n\<rparr>)
           | Some es \<Rightarrow>
               if \<not> mem1 then (0, h)
               else
                 let tocopy = (if n < int (length es) then nat n else length es) in
                 (1, \<lparr>entries = Some (drop (length es - tocopy) es), history_max_len = nat n\<rparr>))"

text \<open>The file of a history, and \<^verbatim>\<open>fgets\<close> with a buffer of \<open>n\<close> characters, call after call.\<close>

definition linenoiseHistorySave :: "history \<Rightarrow> string" where
  "linenoiseHistorySave h = concat (map (\<lambda>s. s @ [CHR 0x0A]) (lines_of h))"

definition fgets_len :: "nat \<Rightarrow> string \<Rightarrow> nat" where
  "fgets_len n s = min (n - 1) (length (takeWhile (\<lambda>c. c \<noteq> CHR 0x0A) s) + 1)"

function fgets_lines :: "nat \<Rightarrow> string \<Rightarrow> string list" where
  "fgets_lines n s =
     (if s = [] \<or> n < 2 then [] else take (fgets_len n s) s # fgets_lines n (drop (fgets_len n s) s))"
  by pat_completeness auto
termination by (relation "measure (\<lambda>(n, s). length s)") (auto simp: fgets_len_def)

declare fgets_lines.simps [simp del]

text \<open>A line read is cut at its first carriage return, or, without one, at its first newline.\<close>

definition cut_line :: "string \<Rightarrow> string" where
  "cut_line b =
     (let s = c_string b in
      if CHR 0x0D \<in> set s then takeWhile (\<lambda>c. c \<noteq> CHR 0x0D) s else takeWhile (\<lambda>c. c \<noteq> CHR 0x0A) s)"

definition LINENOISE_MAX_LINE :: nat where
  "LINENOISE_MAX_LINE = 4096"

definition linenoiseHistoryLoad :: "string option \<Rightarrow> history \<Rightarrow> int \<times> history" where
  "linenoiseHistoryLoad file h =
     (case file of
        None \<Rightarrow> (-1, h)
      | Some s \<Rightarrow> (0, foldl (\<lambda>h b. snd (linenoiseHistoryAdd True True (cut_line b) h)) h (fgets_lines LINENOISE_MAX_LINE s)))"

section \<open>Editing\<close>

text \<open>
  \<^verbatim>\<open>struct linenoiseState\<close>.  \<open>lbuf\<close> is the memory from the start of the buffer on, which goes on behind the
  \<open>buflen\<close> characters of the buffer.
\<close>

record lnstate =
  lbuf :: string
  buflen :: nat
  plen :: nat
  pos :: nat
  len :: nat
  cols :: nat
  history_index :: int

text \<open>What an operation does to the screen: nothing, write one character, or redraw the line.\<close>

datatype draw = No_draw | Echo char | Redraw

definition linenoiseEditInsert :: "char \<Rightarrow> lnstate \<Rightarrow> lnstate \<times> draw" where
  "linenoiseEditInsert c l =
     (if len l < buflen l then
        if len l = pos l then
          let l1 = l\<lparr>lbuf := (lbuf l)[pos l := c, len l + 1 := NUL], pos := pos l + 1, len := len l + 1\<rparr>
          in (l1, if plen l1 + len l1 < cols l1 then Echo c else Redraw)
        else
          let b = write_block (pos l + 1) (read_block (pos l) (len l - pos l) (lbuf l)) (lbuf l)
          in (l\<lparr>lbuf := b[pos l := c, len l + 1 := NUL], len := len l + 1, pos := pos l + 1\<rparr>, Redraw)
      else (l, No_draw))"

definition linenoiseEditMoveLeft :: "lnstate \<Rightarrow> lnstate \<times> draw" where
  "linenoiseEditMoveLeft l = (if pos l > 0 then (l\<lparr>pos := pos l - 1\<rparr>, Redraw) else (l, No_draw))"

definition linenoiseEditMoveRight :: "lnstate \<Rightarrow> lnstate \<times> draw" where
  "linenoiseEditMoveRight l = (if pos l \<noteq> len l then (l\<lparr>pos := pos l + 1\<rparr>, Redraw) else (l, No_draw))"

datatype direction = HISTORY_NEXT | HISTORY_PREV

definition strncpy_to :: "nat \<Rightarrow> string \<Rightarrow> string \<Rightarrow> string" where
  "strncpy_to n s b = write_block 0 (take n s @ replicate (n - length s) NUL) b"

definition linenoiseEditHistoryNext :: "direction \<Rightarrow> lnstate \<Rightarrow> history \<Rightarrow> lnstate \<times> draw \<times> history" where
  "linenoiseEditHistoryNext dir l h =
     (let n = int (length (lines_of h)) in
      if n > 1 then
        let es = (lines_of h)[nat (n - 1 - history_index l) := c_string (lbuf l)];
            h1 = h\<lparr>entries := Some es\<rparr>;
            i = history_index l + (if dir = HISTORY_PREV then 1 else -1)
        in if i < 0 then (l\<lparr>history_index := 0\<rparr>, No_draw, h1)
           else if i \<ge> n then (l\<lparr>history_index := n - 1\<rparr>, No_draw, h1)
           else
             let b = (strncpy_to (buflen l) (es ! nat (n - 1 - i)) (lbuf l))[buflen l - 1 := NUL];
                 k = length (c_string b)
             in (l\<lparr>lbuf := b, history_index := i, len := k, pos := k\<rparr>, Redraw, h1)
      else (l, No_draw, h))"

definition linenoiseEditDelete :: "lnstate \<Rightarrow> lnstate \<times> draw" where
  "linenoiseEditDelete l =
     (if len l > 0 \<and> pos l < len l then
        let b = write_block (pos l) (read_block (pos l + 1) (len l - pos l - 1) (lbuf l)) (lbuf l)
        in (l\<lparr>lbuf := b[len l - 1 := NUL], len := len l - 1\<rparr>, Redraw)
      else (l, No_draw))"

definition linenoiseEditBackspace :: "lnstate \<Rightarrow> lnstate \<times> draw" where
  "linenoiseEditBackspace l =
     (if pos l > 0 \<and> len l > 0 then
        let b = write_block (pos l - 1) (read_block (pos l) (len l - pos l) (lbuf l)) (lbuf l)
        in (l\<lparr>lbuf := b[len l - 1 := NUL], pos := pos l - 1, len := len l - 1\<rparr>, Redraw)
      else (l, No_draw))"

text \<open>The two loops of \<^verbatim>\<open>linenoiseEditDeletePrevWord\<close>.\<close>

fun skip_blanks :: "string \<Rightarrow> nat \<Rightarrow> nat" where
  "skip_blanks b 0 = 0"
| "skip_blanks b (Suc p) = (if b ! p = CHR '' '' then skip_blanks b p else Suc p)"

fun skip_word :: "string \<Rightarrow> nat \<Rightarrow> nat" where
  "skip_word b 0 = 0"
| "skip_word b (Suc p) = (if b ! p \<noteq> CHR '' '' then skip_word b p else Suc p)"

definition linenoiseEditDeletePrevWord :: "lnstate \<Rightarrow> lnstate \<times> draw" where
  "linenoiseEditDeletePrevWord l =
     (let p = skip_word (lbuf l) (skip_blanks (lbuf l) (pos l));
          b = write_block p (read_block (pos l) (len l - pos l + 1) (lbuf l)) (lbuf l)
      in (l\<lparr>lbuf := b, pos := p, len := len l - (pos l - p)\<rparr>, Redraw))"

text \<open>The operations \<^verbatim>\<open>linenoiseEdit\<close> does itself: ctrl-t, ctrl-u, ctrl-k, ctrl-a and ctrl-e.\<close>

definition edit_swap :: "lnstate \<Rightarrow> lnstate \<times> draw" where
  "edit_swap l =
     (if pos l > 0 \<and> pos l < len l then
        let aux = lbuf l ! (pos l - 1);
            l1 = l\<lparr>lbuf := (lbuf l)[pos l - 1 := lbuf l ! pos l, pos l := aux]\<rparr>
        in (if pos l \<noteq> len l - 1 then l1\<lparr>pos := pos l + 1\<rparr> else l1, Redraw)
      else (l, No_draw))"

definition edit_clear :: "lnstate \<Rightarrow> lnstate \<times> draw" where
  "edit_clear l = (l\<lparr>lbuf := (lbuf l)[0 := NUL], pos := 0, len := 0\<rparr>, Redraw)"

definition edit_cut :: "lnstate \<Rightarrow> lnstate \<times> draw" where
  "edit_cut l = (l\<lparr>lbuf := (lbuf l)[pos l := NUL], len := pos l\<rparr>, Redraw)"

definition edit_home :: "lnstate \<Rightarrow> lnstate \<times> draw" where
  "edit_home l = (l\<lparr>pos := 0\<rparr>, Redraw)"

definition edit_end :: "lnstate \<Rightarrow> lnstate \<times> draw" where
  "edit_end l = (l\<lparr>pos := len l\<rparr>, Redraw)"

section \<open>Redrawing\<close>

text \<open>
  The two loops of \<^verbatim>\<open>refreshSingleLine\<close> over \<^verbatim>\<open>size_t\<close> values: the line is scrolled until the cursor is visible,
  then clipped at the right edge.
\<close>

partial_function (option) scroll ::
    "64 word \<Rightarrow> 64 word \<Rightarrow> nat \<Rightarrow> 64 word \<Rightarrow> 64 word \<Rightarrow> (nat \<times> 64 word \<times> 64 word) option" where
  "scroll pl cs off n p = (if cs \<le> pl + p then scroll pl cs (off + 1) (n - 1) (p - 1) else Some (off, n, p))"

partial_function (option) clip :: "64 word \<Rightarrow> 64 word \<Rightarrow> 64 word \<Rightarrow> 64 word option" where
  "clip pl cs n = (if cs < pl + n then clip pl cs (n - 1) else Some n)"

definition int_text :: "int \<Rightarrow> string" where
  "int_text v = (if v < 0 then ''-'' @ dec (nat (- v)) else dec (nat v))"

definition ESC :: char where
  "ESC = CHR 0x1B"

text \<open>What is written to the terminal, with the part of the buffer shown and the column of the cursor.\<close>

definition refreshSingleLine :: "string \<Rightarrow> lnstate \<Rightarrow> (string list \<times> nat \<times> nat \<times> nat) option" where
  "refreshSingleLine prompt l =
     (let pl = word_of_nat (length prompt); cs = word_of_nat (cols l) in
      case scroll pl cs 0 (word_of_nat (len l)) (word_of_nat (pos l)) of
        None \<Rightarrow> None
      | Some (off, n, p) \<Rightarrow>
          (case clip pl cs n of
             None \<Rightarrow> None
           | Some n' \<Rightarrow>
               Some ([[ESC] @ ''[0G'', prompt, take (unat n') (drop off (lbuf l)), [ESC] @ ''[0K'',
                      [ESC] @ ''[0G'' @ [ESC] @ ''['' @ int_text (sint (ucast (p + pl) :: 32 word)) @ ''C''],
                     off, unat n', unat p)))"

section \<open>Completion\<close>

text \<open>
  What is typed arrives in portions, as \<^verbatim>\<open>read\<close> delivers it; an empty portion is an error, and after the
  last one the input is at its end.  A read answers \<open>None\<close> for an error.
\<close>

fun read_keys :: "nat \<Rightarrow> string list \<Rightarrow> string option \<times> string list" where
  "read_keys n [] = (Some [], [])"
| "read_keys n ([] # bs) = (None, bs)"
| "read_keys n ((c # cs) # bs) = (Some (take n (c # cs)), if n < length (c # cs) then drop n (c # cs) # bs else bs)"

definition input_size :: "string list \<Rightarrow> nat" where
  "input_size inp = sum_list (map (\<lambda>b. length b + 1) inp)"

lemma read_keys_smaller:
  "read_keys (Suc n) inp = (r, inp') \<Longrightarrow> inp \<noteq> [] \<Longrightarrow> input_size inp' < input_size inp"
  by (cases "(Suc n, inp)" rule: read_keys.cases) (auto simp: input_size_def split: if_splits)

lemma read_keys_end: "read_keys n inp = (r, inp') \<Longrightarrow> input_size inp' \<le> input_size inp"
  by (cases "(n, inp)" rule: read_keys.cases) (auto simp: input_size_def split: if_splits)

text \<open>
  \<^verbatim>\<open>completeLine\<close>: \<open>lc\<close> are the completions the callback adds, \<open>i\<close> the one shown.  Showing one restores the state
  afterwards, so only a choice changes it.  The result is the character read last, as an \<^verbatim>\<open>int\<close>, or -1.
\<close>

definition as_int :: "char \<Rightarrow> int" where
  "as_int c = (let k = int (of_char c) in if k < 128 then k else k - 256)"

text \<open>\<^verbatim>\<open>snprintf(ls->buf, ls->buflen, "%s", s)\<close>, which answers the length of \<open>s\<close> whatever fits.\<close>

definition take_completion :: "string \<Rightarrow> lnstate \<Rightarrow> lnstate" where
  "take_completion s l =
     l\<lparr>lbuf := (if buflen l = 0 then lbuf l else write_block 0 (take (buflen l - 1) s @ [NUL]) (lbuf l)),
       len := length s, pos := length s\<rparr>"

function complete_loop :: "string list \<Rightarrow> nat \<Rightarrow> string list \<Rightarrow> lnstate \<Rightarrow> int \<times> lnstate \<times> string list" where
  "complete_loop lc i inp l =
     (case inp of
        [] \<Rightarrow> (-1, l, [])
      | b # bs \<Rightarrow>
          (case b of
             [] \<Rightarrow> (-1, l, bs)
           | c # cs \<Rightarrow>
               let inp' = snd (read_keys 1 inp) in
               if of_char c = (9 :: nat) then complete_loop lc ((i + 1) mod (length lc + 1)) inp' l
               else if of_char c = (27 :: nat) then (27, l, inp')
               else (as_int c, if i < length lc then take_completion (lc ! i) l else l, inp')))"
  by pat_completeness auto
termination
  by (relation "measure (\<lambda>(lc, i, inp, l). input_size inp)") (auto simp: input_size_def)

declare complete_loop.simps [simp del]

definition completeLine :: "(string \<Rightarrow> string list) \<Rightarrow> string list \<Rightarrow> lnstate \<Rightarrow> int \<times> lnstate \<times> string list" where
  "completeLine callback inp l =
     (let lc = callback (lbuf l) in if lc = [] then (0, l, inp) else complete_loop lc 0 inp l)"

section \<open>The editing loop\<close>

datatype key_result = Stop int lnstate | Crashed | Next lnstate "string list"

text \<open>\<^verbatim>\<open>history_len--; free(history[history_len])\<close>, which needs an entry.\<close>

definition drop_latest :: "history \<Rightarrow> history option" where
  "drop_latest h = (if lines_of h = [] then None else Some (h\<lparr>entries := Some (butlast (lines_of h))\<rparr>))"

definition stop_with :: "int \<Rightarrow> lnstate \<Rightarrow> history \<Rightarrow> key_result \<times> history" where
  "stop_with r l h = (case drop_latest h of None \<Rightarrow> (Crashed, h) | Some h1 \<Rightarrow> (Stop r l, h1))"

text \<open>
  An escape sequence: two further characters, of which those not delivered are what \<open>junk\<close> the array held,
  and two more for the extended ones.
\<close>

definition edit_escape :: "string \<Rightarrow> string list \<Rightarrow> lnstate \<Rightarrow> history \<Rightarrow> key_result \<times> history" where
  "edit_escape junk inp l h =
     (case read_keys 2 inp of
        (None, inp1) \<Rightarrow> (Next l inp1, h)
      | (Some got, inp1) \<Rightarrow>
          (let q = got @ drop (length got) junk; a = of_char (q ! 0) :: nat; b = of_char (q ! 1) :: nat in
           if a = 91 \<and> b = 68 then (Next (fst (linenoiseEditMoveLeft l)) inp1, h)
           else if a = 91 \<and> b = 67 then (Next (fst (linenoiseEditMoveRight l)) inp1, h)
           else if a = 91 \<and> (b = 65 \<or> b = 66) then
             (case linenoiseEditHistoryNext (if b = 65 then HISTORY_PREV else HISTORY_NEXT) l h of
                (l1, d, h1) \<Rightarrow> (Next l1 inp1, h1))
           else if a = 91 \<and> b > 48 \<and> b < 55 then
             (case read_keys 2 inp1 of
                (None, inp2) \<Rightarrow> (Next l inp2, h)
              | (Some got2, inp2) \<Rightarrow>
                  (let q2 = got2 @ drop (length got2) junk in
                   if b = 51 \<and> of_char (q2 ! 0) = (126 :: nat) then (Next (fst (linenoiseEditDelete l)) inp2, h)
                   else (Next l inp2, h)))
           else (Next l inp1, h)))"

text \<open>One key; \<open>wok\<close> tells whether the terminal takes the character echoed.\<close>

definition edit_key ::
    "bool \<Rightarrow> string \<Rightarrow> char \<Rightarrow> string list \<Rightarrow> lnstate \<Rightarrow> history \<Rightarrow> key_result \<times> history" where
  "edit_key wok junk c inp l h =
     (let k = of_char c :: nat in
      if k = 13 then stop_with (int (len l)) l h
      else if k = 3 then (Stop (-1) l, h)
      else if k = 127 \<or> k = 8 then (Next (fst (linenoiseEditBackspace l)) inp, h)
      else if k = 4 then
        (if len l > 0 then (Next (fst (linenoiseEditDelete l)) inp, h) else stop_with (-1) l h)
      else if k = 20 then (Next (fst (edit_swap l)) inp, h)
      else if k = 2 then (Next (fst (linenoiseEditMoveLeft l)) inp, h)
      else if k = 6 then (Next (fst (linenoiseEditMoveRight l)) inp, h)
      else if k = 16 then
        (case linenoiseEditHistoryNext HISTORY_PREV l h of (l1, d, h1) \<Rightarrow> (Next l1 inp, h1))
      else if k = 14 then
        (case linenoiseEditHistoryNext HISTORY_NEXT l h of (l1, d, h1) \<Rightarrow> (Next l1 inp, h1))
      else if k = 27 then edit_escape junk inp l h
      else if k = 21 then (Next (fst (edit_clear l)) inp, h)
      else if k = 11 then (Next (fst (edit_cut l)) inp, h)
      else if k = 1 then (Next (fst (edit_home l)) inp, h)
      else if k = 5 then (Next (fst (edit_end l)) inp, h)
      else if k = 12 then (Next l inp, h)
      else if k = 23 then (Next (fst (linenoiseEditDeletePrevWord l)) inp, h)
      else
        (case linenoiseEditInsert c l of
           (l1, Echo x) \<Rightarrow> if wok then (Next l1 inp, h) else (Stop (-1) l1, h)
         | (l1, d) \<Rightarrow> (Next l1 inp, h)))"

text \<open>The loop; \<open>cb\<close> is the completion callback, if there is one.\<close>

partial_function (option) edit_loop ::
    "(string \<Rightarrow> string list) option \<Rightarrow> bool \<Rightarrow> string \<Rightarrow> string list \<Rightarrow> lnstate \<Rightarrow> history \<Rightarrow>
     (int option \<times> lnstate \<times> history) option" where
  "edit_loop cb wok junk inp l h =
     (case read_keys 1 inp of
        (None, inp1) \<Rightarrow> Some (Some (int (len l)), l, h)
      | (Some [], inp1) \<Rightarrow> Some (Some (int (len l)), l, h)
      | (Some (c # cs), inp1) \<Rightarrow>
          (case (if of_char c = (9 :: nat) \<and> cb \<noteq> None then completeLine (the cb) inp1 l else (as_int c, l, inp1)) of
             (r, l1, inp2) \<Rightarrow>
               if of_char c = (9 :: nat) \<and> cb \<noteq> None \<and> r < 0 then Some (Some (int (len l1)), l1, h)
               else if of_char c = (9 :: nat) \<and> cb \<noteq> None \<and> r = 0 then edit_loop cb wok junk inp2 l1 h
               else
                 (case edit_key wok junk (char_of (r mod 256)) inp2 l1 h of
                    (Stop v l2, h1) \<Rightarrow> Some (Some v, l2, h1)
                  | (Crashed, h1) \<Rightarrow> Some (None, l1, h1)
                  | (Next l2 inp3, h1) \<Rightarrow> edit_loop cb wok junk inp3 l2 h1)))"

definition linenoiseEdit ::
    "(string \<Rightarrow> string list) option \<Rightarrow> bool \<Rightarrow> bool \<Rightarrow> bool \<Rightarrow> string \<Rightarrow> string list \<Rightarrow> string \<Rightarrow> nat \<Rightarrow> string \<Rightarrow> nat \<Rightarrow> history \<Rightarrow>
     (int option \<times> lnstate \<times> history) option" where
  "linenoiseEdit cb mem1 mem2 wok junk inp buf n prompt columns h =
     (let l = \<lparr>lbuf = buf[0 := NUL], buflen = n, plen = length prompt, pos = 0, len = 0, cols = columns,
               history_index = 0\<rparr>;
          h1 = snd (linenoiseHistoryAdd mem1 mem2 [] h)
      in if \<not> wok then Some (Some (-1), l, h1) else edit_loop cb wok junk inp l h1)"

section \<open>Reading a line\<close>

text \<open>
  The terminal: whether it is of an unsupported kind, a terminal at all, can be put in raw mode, and takes
  what is written; the text \<^verbatim>\<open>fgets\<close> finds, the keys typed, the indeterminate contents of the arrays, and the
  number of columns.
\<close>

record terminal =
  t_unsupported :: bool
  t_tty :: bool
  t_raw :: bool
  t_writes :: bool
  t_text :: string
  t_keys :: "string list"
  t_junk :: string
  t_stack :: string
  t_cols :: nat

datatype line_result = Line string | No_line | Line_crash

definition linenoiseRaw ::
    "(string \<Rightarrow> string list) option \<Rightarrow> bool \<Rightarrow> bool \<Rightarrow> terminal \<Rightarrow> nat \<Rightarrow> string \<Rightarrow> history \<Rightarrow> (line_result \<times> history) option" where
  "linenoiseRaw cb mem1 mem2 t n prompt h =
     (if n = 0 then Some (No_line, h)
      else if \<not> t_tty t then
        (if t_text t = [] then Some (No_line, h)
         else let s = c_string (take (fgets_len n (t_text t)) (t_text t)) in
              Some (Line (if s \<noteq> [] \<and> last s = CHR 0x0A then butlast s else s), h))
      else if \<not> t_raw t then Some (No_line, h)
      else case linenoiseEdit cb mem1 mem2 (t_writes t) (t_junk t) (t_keys t) (t_stack t) n prompt (t_cols t) h of
             None \<Rightarrow> None
           | Some (None, l, h1) \<Rightarrow> Some (Line_crash, h1)
           | Some (Some v, l, h1) \<Rightarrow> Some (if v = -1 then No_line else Line (c_string (lbuf l)), h1))"

definition strip_line_end :: "string \<Rightarrow> string" where
  "strip_line_end s = rev (dropWhile (\<lambda>c. c = CHR 0x0A \<or> c = CHR 0x0D) (rev s))"

definition linenoise ::
    "(string \<Rightarrow> string list) option \<Rightarrow> bool \<Rightarrow> bool \<Rightarrow> terminal \<Rightarrow> string \<Rightarrow> history \<Rightarrow> (line_result \<times> history) option" where
  "linenoise cb mem1 mem2 t prompt h =
     (if t_unsupported t then
        (if t_text t = [] then Some (No_line, h)
         else Some (Line (strip_line_end (c_string (take (fgets_len LINENOISE_MAX_LINE (t_text t)) (t_text t)))), h))
      else linenoiseRaw cb mem1 mem2 t LINENOISE_MAX_LINE prompt h)"

section \<open>Well-formed states\<close>

text \<open>
  The editor is well formed when the cursor is inside the text, the text inside the buffer and ended by a
  NUL, where the buffer may be followed by one more character, and the history entry edited exists.
\<close>

definition ln_ok :: "lnstate \<Rightarrow> bool" where
  "ln_ok l \<longleftrightarrow> pos l \<le> len l \<and> len l \<le> buflen l \<and> 0 < buflen l \<and> buflen l < length (lbuf l) \<and> lbuf l ! len l = NUL"

definition index_ok :: "lnstate \<Rightarrow> history \<Rightarrow> bool" where
  "index_ok l h \<longleftrightarrow> 0 \<le> history_index l \<and> (lines_of h \<noteq> [] \<longrightarrow> history_index l < int (length (lines_of h)))"

text \<open>What an operation keeps of the rest: sizes, index, and the memory behind the NUL that may follow the buffer.\<close>

definition same_frame :: "lnstate \<Rightarrow> lnstate \<Rightarrow> bool" where
  "same_frame l l' \<longleftrightarrow> buflen l' = buflen l \<and> length (lbuf l') = length (lbuf l) \<and>
     drop (buflen l + 1) (lbuf l') = drop (buflen l + 1) (lbuf l)"

text \<open>The text before the cursor and the text behind it.\<close>

definition before :: "lnstate \<Rightarrow> string" where
  "before l = take (pos l) (lbuf l)"

definition behind :: "lnstate \<Rightarrow> string" where
  "behind l = take (len l - pos l) (drop (pos l) (lbuf l))"

named_theorems edit_simps

lemmas [edit_simps] = ln_ok_def same_frame_def before_def behind_def Let_def

lemma nth_write_block:
  "off + length xs \<le> length b \<Longrightarrow> i < length b \<Longrightarrow>
   write_block off xs b ! i = (if i < off then b ! i else if i < off + length xs then xs ! (i - off) else b ! i)"
  by (auto simp: write_block_def nth_append min_def)

lemma nth_read_block: "i < n \<Longrightarrow> off + n \<le> length b \<Longrightarrow> read_block off n b ! i = b ! (off + i)"
  by (simp add: read_block_def)

lemmas block_simps = nth_write_block nth_read_block length_write_block length_read_block

lemma drop_write_block: "off + length xs \<le> n \<Longrightarrow> off + length xs \<le> length b \<Longrightarrow> drop n (write_block off xs b) = drop n b"
  by (simp add: write_block_def)

lemma take_write_block_end:
  "off + length xs \<le> length b \<Longrightarrow> off \<le> length b \<Longrightarrow> take (off + length xs) (write_block off xs b) = take off b @ xs"
  by (simp add: write_block_def)

section \<open>The operations on the text\<close>

text \<open>\<open>edits l (l', d) x y\<close>: a well-formed \<open>l\<close> becomes a well-formed \<open>l'\<close> with the text \<open>x\<close> before and \<open>y\<close> behind the cursor.\<close>

definition edits :: "lnstate \<Rightarrow> lnstate \<Rightarrow> string \<Rightarrow> string \<Rightarrow> bool" where
  "edits l l' x y \<longleftrightarrow> ln_ok l' \<and> same_frame l l' \<and> history_index l' = history_index l \<and> before l' = x \<and> behind l' = y"

lemma editsI:
  assumes "ln_ok l" and "lbuf l = s @ q" and "lbuf l' = x @ y @ NUL # m @ q"
    and "length s = length x + length y + 1 + length m" and "length s \<le> buflen l + 1"
    and "pos l' = length x" and "len l' = length x + length y"
    and "buflen l' = buflen l" and "history_index l' = history_index l"
  shows "edits l l' x y"
proof -
  have t: "lbuf l' = (x @ y @ NUL # m) @ q" "length (x @ y @ NUL # m) = length s" using assms(3,4) by simp_all
  have d: "drop n (u @ q) = drop (n - length u) q" if "length u \<le> n" for n and u :: string using that by simp
  have "drop (buflen l + 1) (lbuf l') = drop (buflen l + 1 - length s) q"
    unfolding t(1) t(2) [symmetric] by (rule d) (simp only: t(2) assms(5))
  also have "\<dots> = drop (buflen l + 1) (lbuf l)" using assms(2,5) by simp
  finally have "drop (buflen l + 1) (lbuf l') = drop (buflen l + 1) (lbuf l)" .
  moreover have "length (lbuf l') = length (lbuf l)" using t assms(2) by simp
  moreover have "lbuf l' ! len l' = NUL" using assms(3,7) by (simp add: nth_append)
  moreover have "take (pos l') (lbuf l') = x" "take (len l' - pos l') (drop (pos l') (lbuf l')) = y"
    using assms(3,6,7) by simp_all
  ultimately show ?thesis using assms by (auto simp: edits_def ln_ok_def same_frame_def before_def behind_def)
qed

lemma update_here: "length x = i \<Longrightarrow> (x @ a # y)[i := c] = x @ c # y"
  by (metis list_update_length)

lemma split_text:
  assumes "ln_ok l"
  obtains r where "lbuf l = before l @ behind l @ NUL # r" "length (before l) = pos l" "length (behind l) = len l - pos l"
    "length r = length (lbuf l) - len l - 1"
proof -
  have "lbuf l = take (len l) (lbuf l) @ NUL # drop (len l + 1) (lbuf l)"
    using assms id_take_nth_drop [of "len l" "lbuf l"] by (simp add: ln_ok_def)
  moreover have "take (len l) (lbuf l) = before l @ behind l"
    using assms take_add [of "pos l" "len l - pos l" "lbuf l"] by (simp add: before_def behind_def ln_ok_def)
  ultimately have "lbuf l = before l @ behind l @ NUL # drop (len l + 1) (lbuf l)" by (metis append_assoc)
  then show ?thesis using assms by (intro that) (auto simp: before_def behind_def ln_ok_def)
qed

text \<open>Moving the text behind position \<open>i\<close> of \<open>x @ y @ r\<close> by one place or more.\<close>

lemma move_up:
  "length x = i \<Longrightarrow> length y = n \<Longrightarrow>
   write_block (i + 1) (read_block i n (x @ y @ c # r)) (x @ y @ c # r) =
     x @ (if y = [] then c else hd y) # y @ (if y = [] then tl (c # r) else r)"
  by (cases y) (auto simp: write_block_def read_block_def)

lemma move_down:
  "length x = i \<Longrightarrow> length z = k \<Longrightarrow> length y = n \<Longrightarrow>
   write_block i (read_block (i + k) n (x @ z @ y @ r)) (x @ z @ y @ r) = x @ y @ drop n (z @ y) @ r"
  by (auto simp: write_block_def read_block_def)

lemma edit_insert:
  assumes ok: "ln_ok l" and room: "len l < buflen l"
  shows "edits l (fst (linenoiseEditInsert c l)) (before l @ [c]) (behind l)"
proof -
  obtain r where b: "lbuf l = before l @ behind l @ NUL # r" and lb: "length (before l) = pos l"
    and lh: "length (behind l) = len l - pos l" and lr: "length r = length (lbuf l) - len l - 1"
    using split_text [OF ok] .
  have o: "pos l \<le> len l" "buflen l < length (lbuf l)" using ok by (auto simp: ln_ok_def)
  then obtain d r' where r: "r = d # r'" using lr room by (cases r) auto
  show ?thesis
  proof (cases "len l = pos l")
    case True
    then have e: "behind l = []" using lh by simp
    have "(lbuf l)[pos l := c, len l + 1 := NUL] = before l @ c # NUL # r'"
      using True e b lb r update_here [of "before l @ [c]" "len l + 1" d r' NUL]
      by (simp add: update_here [OF lb])
    then show ?thesis using True e b lb lh room o r unfolding linenoiseEditInsert_def
      by (intro editsI [OF ok, where s = "before l @ behind l @ [NUL, d]" and q = r' and m = "[]"]) (auto simp: Let_def)
  next
    case False
    then have ne: "behind l \<noteq> []" using lh o by auto
    have "write_block (pos l + 1) (read_block (pos l) (len l - pos l) (lbuf l)) (lbuf l) =
        before l @ hd (behind l) # behind l @ d # r'"
      using move_up [OF lb lh, of NUL r] ne b r by simp
    moreover have "(before l @ hd (behind l) # behind l @ d # r')[pos l := c, len l + 1 := NUL] =
        before l @ c # behind l @ NUL # r'"
      using lb lh o update_here [of "before l @ c # behind l" "len l + 1" d r' NUL]
      by (simp add: update_here [OF lb])
    ultimately show ?thesis using False b lb lh room o r unfolding linenoiseEditInsert_def
      by (intro editsI [OF ok, where s = "before l @ behind l @ [NUL, d]" and q = r' and m = "[]"]) (auto simp: Let_def)
  qed
qed

lemma edits_same: "ln_ok l \<Longrightarrow> edits l l (before l) (behind l)"
  by (simp add: edits_def same_frame_def)

lemma edits_cursor:
  assumes "ln_ok l" and "x @ y = before l @ behind l"
  shows "edits l (l\<lparr>pos := length x\<rparr>) x y"
proof -
  obtain r where b: "lbuf l = before l @ behind l @ NUL # r" "length (before l) = pos l" "length (behind l) = len l - pos l"
    using split_text [OF assms(1)] by metis
  have "length x + length y = len l" using assms b by (metis length_append le_add_diff_inverse ln_ok_def)
  moreover have "lbuf l = x @ y @ NUL # r" using b(1) assms(2) by (metis append_assoc)
  ultimately show ?thesis using assms b
    by (intro editsI [OF assms(1), where s = "x @ y @ [NUL]" and q = r and m = "[]"]) (auto simp: ln_ok_def)
qed

lemma move_down1:
  "length x = i \<Longrightarrow> length y = n \<Longrightarrow>
   write_block i (read_block (i + 1) n (x @ c # y @ r)) (x @ c # y @ r) = x @ y @ last (c # y) # r"
  using move_down [of x i "[c]" 1 y n r] by (cases y rule: rev_cases) auto

lemma edit_delete:
  assumes ok: "ln_ok l"
  shows "edits l (fst (linenoiseEditDelete l)) (before l) (tl (behind l))"
proof (cases "pos l < len l")
  case True
  obtain r where b: "lbuf l = before l @ behind l @ NUL # r" "length (before l) = pos l" "length (behind l) = len l - pos l"
    using split_text [OF ok] by metis
  obtain c y where y: "behind l = c # y" using True b(3) by (cases "behind l") auto
  have "write_block (pos l) (read_block (pos l + 1) (len l - pos l - 1) (lbuf l)) (lbuf l) =
      before l @ y @ last (c # y) # NUL # r"
    using move_down1 [of "before l" "pos l" y "len l - pos l - 1" c "NUL # r"] b y by simp
  moreover have "(before l @ y @ last (c # y) # NUL # r)[len l - 1 := NUL] = before l @ y @ NUL # NUL # r"
    using update_here [of "before l @ y" "len l - 1" "last (c # y)" "NUL # r" NUL] b y True by simp
  ultimately show ?thesis using True b y ok unfolding linenoiseEditDelete_def
    by (intro editsI [OF ok, where s = "before l @ behind l @ [NUL]" and q = r and m = "[NUL]"])
      (auto simp: Let_def ln_ok_def)
next
  case False
  then have "behind l = []" using ok by (simp add: behind_def ln_ok_def)
  then show ?thesis using False edits_same [OF ok] by (simp add: linenoiseEditDelete_def)
qed

lemma edit_backspace:
  assumes ok: "ln_ok l"
  shows "edits l (fst (linenoiseEditBackspace l)) (butlast (before l)) (behind l)"
proof (cases "pos l > 0")
  case True
  obtain r where b: "lbuf l = before l @ behind l @ NUL # r" "length (before l) = pos l" "length (behind l) = len l - pos l"
    using split_text [OF ok] by metis
  obtain x c where x: "before l = x @ [c]" using True b(2) by (cases "before l" rule: rev_cases) auto
  have le: "pos l \<le> len l" "len l \<le> buflen l" using ok by (auto simp: ln_ok_def)
  have "write_block (pos l - 1) (read_block (pos l) (len l - pos l) (lbuf l)) (lbuf l) =
      x @ behind l @ last (c # behind l) # NUL # r"
    using move_down1 [of x "pos l - 1" "behind l" "len l - pos l" c "NUL # r"] b x True by simp
  moreover have "(x @ behind l @ last (c # behind l) # NUL # r)[len l - 1 := NUL] = x @ behind l @ NUL # NUL # r"
    using update_here [of "x @ behind l" "len l - 1" "last (c # behind l)" "NUL # r" NUL] b x le by simp
  ultimately show ?thesis using True b x le unfolding linenoiseEditBackspace_def
    by (intro editsI [OF ok, where s = "before l @ behind l @ [NUL]" and q = r and m = "[NUL]"]) (auto simp: Let_def)
next
  case False
  then have "before l = []" by (simp add: before_def)
  then show ?thesis using False edits_same [OF ok] by (simp add: linenoiseEditBackspace_def)
qed

text \<open>The text before the cursor without its last word.\<close>

definition drop_word :: "string \<Rightarrow> string" where
  "drop_word x = rev (dropWhile (\<lambda>c. c \<noteq> CHR '' '') (dropWhile (\<lambda>c. c = CHR '' '') (rev x)))"

lemma skip_blanks_take: "p \<le> length b \<Longrightarrow> skip_blanks b p = length (dropWhile (\<lambda>c. c = CHR '' '') (rev (take p b)))"
  by (induction p) (auto simp: take_Suc_conv_app_nth)

lemma skip_word_take: "p \<le> length b \<Longrightarrow> skip_word b p = length (dropWhile (\<lambda>c. c \<noteq> CHR '' '') (rev (take p b)))"
  by (induction p) (auto simp: take_Suc_conv_app_nth)

lemma dropWhile_rev_take: "rev (dropWhile P (rev xs)) = take (length (dropWhile P (rev xs))) xs"
proof -
  have "rev xs = takeWhile P (rev xs) @ dropWhile P (rev xs)" by simp
  then have "xs = rev (dropWhile P (rev xs)) @ rev (takeWhile P (rev xs))" by (metis rev_append rev_rev_ident)
  then show ?thesis by (metis append_eq_conv_conj length_rev)
qed

lemma edit_delete_word:
  assumes ok: "ln_ok l"
  shows "edits l (fst (linenoiseEditDeletePrevWord l)) (drop_word (before l)) (behind l)"
proof -
  obtain r where b: "lbuf l = before l @ behind l @ NUL # r" "length (before l) = pos l" "length (behind l) = len l - pos l"
    using split_text [OF ok] by metis
  define q where "q = skip_blanks (lbuf l) (pos l)"
  define p where "p = skip_word (lbuf l) q"
  have le: "pos l \<le> len l" "len l \<le> buflen l" "pos l \<le> length (lbuf l)" using ok by (auto simp: ln_ok_def)
  have q: "q = length (dropWhile (\<lambda>c. c = CHR '' '') (rev (before l)))"
    using skip_blanks_take [OF le(3)] by (simp add: q_def before_def)
  then have qp: "q \<le> pos l" using b(2) length_dropWhile_le [of _ "rev (before l)"] by simp
  have tq: "take q (lbuf l) = rev (dropWhile (\<lambda>c. c = CHR '' '') (rev (before l)))"
    unfolding dropWhile_rev_take q [symmetric] using qp by (simp add: before_def min_def)
  have p: "p = length (dropWhile (\<lambda>c. c \<noteq> CHR '' '') (rev (take q (lbuf l))))"
    using skip_word_take [of q "lbuf l"] qp le by (simp add: p_def)
  then have pq: "p \<le> q" using length_dropWhile_le [of _ "rev (take q (lbuf l))"] by simp
  have "drop_word (before l) = take p (take q (lbuf l))"
    using dropWhile_rev_take [of "\<lambda>c. c \<noteq> CHR '' ''" "take q (lbuf l)"]
    unfolding drop_word_def p [symmetric] by (simp only: tq rev_rev_ident)
  then have x: "drop_word (before l) = take p (before l)" using pq qp by (simp add: before_def min_def)
  define z where "z = drop p (before l)"
  have lb: "lbuf l = take p (before l) @ z @ (behind l @ [NUL]) @ r"
    using b(1) by (simp add: z_def)
  have "write_block p (read_block (p + (pos l - p)) (len l - pos l + 1) (lbuf l)) (lbuf l) =
      take p (before l) @ (behind l @ [NUL]) @ drop (len l - pos l + 1) (z @ behind l @ [NUL]) @ r"
    unfolding lb by (rule move_down) (use b(2,3) pq qp in \<open>simp_all add: z_def\<close>)
  then have "write_block p (read_block (pos l) (len l - pos l + 1) (lbuf l)) (lbuf l) =
      take p (before l) @ behind l @ NUL # drop (len l - pos l + 1) (z @ behind l @ [NUL]) @ r"
    using pq qp by simp
  then have "fst (linenoiseEditDeletePrevWord l) = l\<lparr>lbuf := take p (before l) @ behind l @ NUL #
      drop (len l - pos l + 1) (z @ behind l @ [NUL]) @ r, pos := p, len := len l - (pos l - p)\<rparr>"
    by (simp add: linenoiseEditDeletePrevWord_def Let_def p_def q_def)
  then show ?thesis using b le pq qp unfolding x
    by (intro editsI [OF ok, where s = "before l @ behind l @ [NUL]" and q = r
          and m = "drop (len l - pos l + 1) (z @ behind l @ [NUL])"]) (simp_all add: z_def)
qed

lemma edit_swap_text:
  assumes ok: "ln_ok l" and x: "before l = x @ [c]" and y: "behind l = d # y"
  shows "if y = [] then edits l (fst (edit_swap l)) (x @ [d]) [c] else edits l (fst (edit_swap l)) (x @ [d, c]) y"
proof -
  obtain r where b: "lbuf l = before l @ behind l @ NUL # r" "length (before l) = pos l" "length (behind l) = len l - pos l"
    using split_text [OF ok] by metis
  have p: "pos l = length x + 1" "len l = length x + length y + 2" "pos l < len l"
    using b x y ok by (auto simp: ln_ok_def)
  have lb: "lbuf l = x @ c # d # y @ NUL # r" using b(1) x y by simp
  have "(lbuf l)[pos l - 1 := lbuf l ! pos l, pos l := lbuf l ! (pos l - 1)] = x @ d # c # y @ NUL # r"
    unfolding lb using p by (simp add: nth_append list_update_append)
  then have "fst (edit_swap l) = l\<lparr>lbuf := x @ d # c # y @ NUL # r, pos := if y = [] then pos l else pos l + 1\<rparr>"
    using p by (cases y) (simp_all add: edit_swap_def Let_def)
  moreover have "len l \<le> buflen l" using ok by (simp add: ln_ok_def)
  ultimately show ?thesis using lb p
    by (auto intro!: editsI [OF ok, where s = "x @ c # d # y @ [NUL]" and q = r and m = "[]"])
qed

lemma edit_clear_text:
  assumes ok: "ln_ok l"
  shows "edits l (fst (edit_clear l)) [] []"
proof -
  obtain r where b: "lbuf l = before l @ behind l @ NUL # r" "length (before l) = pos l" "length (behind l) = len l - pos l"
    using split_text [OF ok] by metis
  obtain c m where m: "before l @ behind l @ [NUL] = c # m" by (cases "before l @ behind l @ [NUL]") auto
  have lb: "lbuf l = c # m @ r" using b(1) m by (metis append_Cons append_assoc append_Nil)
  have "length m = len l" using arg_cong [OF m, of length] b ok by (simp add: ln_ok_def)
  then show ?thesis using lb ok unfolding edit_clear_def
    by (intro editsI [OF ok, where s = "c # m" and q = r and m = m]) (auto simp: ln_ok_def)
qed

lemma edit_cut_text:
  assumes ok: "ln_ok l"
  shows "edits l (fst (edit_cut l)) (before l) []"
proof -
  obtain r where b: "lbuf l = before l @ behind l @ NUL # r" "length (before l) = pos l" "length (behind l) = len l - pos l"
    using split_text [OF ok] by metis
  obtain c m where m: "behind l @ [NUL] = c # m" by (cases "behind l @ [NUL]") auto
  have lb: "lbuf l = before l @ c # m @ r" using b(1) m by (metis append_Cons append_assoc append_Nil)
  have "length m = len l - pos l" using arg_cong [OF m, of length] b by simp
  then show ?thesis using lb b(2) ok unfolding edit_cut_def
    by (intro editsI [OF ok, where s = "before l @ c # m" and q = r and m = m])
      (auto simp: ln_ok_def update_here)
qed

lemma edit_cursor_texts:
  assumes ok: "ln_ok l"
  shows "edits l (fst (edit_home l)) [] (before l @ behind l)"
    and "edits l (fst (edit_end l)) (before l @ behind l) []"
    and "edits l (fst (linenoiseEditMoveLeft l)) (butlast (before l))
           (if before l = [] then behind l else last (before l) # behind l)"
    and "edits l (fst (linenoiseEditMoveRight l)) (before l @ take 1 (behind l)) (tl (behind l))"
proof -
  have lb: "length (before l) = pos l" "length (behind l) = len l - pos l" "pos l \<le> len l"
    using ok by (auto simp: ln_ok_def before_def behind_def)
  show "edits l (fst (edit_home l)) [] (before l @ behind l)"
    using edits_cursor [OF ok, of "[]" "before l @ behind l"] by (simp add: edit_home_def)
  show "edits l (fst (edit_end l)) (before l @ behind l) []"
    using edits_cursor [OF ok, of "before l @ behind l" "[]"] lb by (simp add: edit_end_def)
  show "edits l (fst (linenoiseEditMoveLeft l)) (butlast (before l))
      (if before l = [] then behind l else last (before l) # behind l)"
  proof (cases "before l" rule: rev_cases)
    case Nil
    then show ?thesis using lb edits_same [OF ok] by (simp add: linenoiseEditMoveLeft_def)
  next
    case (snoc x c)
    then have "pos l - 1 = length x" "pos l > 0" using lb(1) by auto
    then show ?thesis using snoc lb edits_cursor [OF ok, of x "c # behind l"] by (simp add: linenoiseEditMoveLeft_def)
  qed
  show "edits l (fst (linenoiseEditMoveRight l)) (before l @ take 1 (behind l)) (tl (behind l))"
  proof (cases "behind l")
    case Nil
    then show ?thesis using lb edits_same [OF ok] by (simp add: linenoiseEditMoveRight_def)
  next
    case (Cons c y)
    then have "pos l \<noteq> len l" using lb by auto
    then show ?thesis using Cons lb edits_cursor [OF ok, of "before l @ [c]" y] by (simp add: linenoiseEditMoveRight_def)
  qed
qed

text \<open>The editor seen from outside: operations on the text before and behind the cursor.\<close>

datatype edit_op =
  Op_insert char | Op_left | Op_right | Op_delete | Op_backspace | Op_delete_word | Op_swap | Op_clear |
  Op_cut | Op_home | Op_end

fun run_op :: "edit_op \<Rightarrow> lnstate \<Rightarrow> lnstate" where
  "run_op (Op_insert c) l = fst (linenoiseEditInsert c l)"
| "run_op Op_left l = fst (linenoiseEditMoveLeft l)"
| "run_op Op_right l = fst (linenoiseEditMoveRight l)"
| "run_op Op_delete l = fst (linenoiseEditDelete l)"
| "run_op Op_backspace l = fst (linenoiseEditBackspace l)"
| "run_op Op_delete_word l = fst (linenoiseEditDeletePrevWord l)"
| "run_op Op_swap l = fst (edit_swap l)"
| "run_op Op_clear l = fst (edit_clear l)"
| "run_op Op_cut l = fst (edit_cut l)"
| "run_op Op_home l = fst (edit_home l)"
| "run_op Op_end l = fst (edit_end l)"

fun text_op :: "nat \<Rightarrow> edit_op \<Rightarrow> string \<times> string \<Rightarrow> string \<times> string" where
  "text_op n (Op_insert c) (x, y) = (if length x + length y < n then (x @ [c], y) else (x, y))"
| "text_op n Op_left (x, y) = (if x = [] then ([], y) else (butlast x, last x # y))"
| "text_op n Op_right (x, y) = (if y = [] then (x, []) else (x @ [hd y], tl y))"
| "text_op n Op_delete (x, y) = (x, tl y)"
| "text_op n Op_backspace (x, y) = (butlast x, y)"
| "text_op n Op_delete_word (x, y) = (drop_word x, y)"
| "text_op n Op_swap (x, y) =
     (if x = [] \<or> y = [] then (x, y)
      else if tl y = [] then (butlast x @ [hd y], [last x])
      else (butlast x @ [hd y, last x], tl y))"
| "text_op n Op_clear (x, y) = ([], [])"
| "text_op n Op_cut (x, y) = (x, [])"
| "text_op n Op_home (x, y) = ([], x @ y)"
| "text_op n Op_end (x, y) = (x @ y, [])"

lemma run_op_edits:
  assumes ok: "ln_ok l"
  shows "edits l (run_op f l) (fst (text_op (buflen l) f (before l, behind l)))
    (snd (text_op (buflen l) f (before l, behind l)))"
proof (cases f)
  case (Op_insert c)
  have n: "length (before l) + length (behind l) = len l"
    using ok by (auto simp: ln_ok_def before_def behind_def)
  show ?thesis
  proof (cases "len l < buflen l")
    case True
    then show ?thesis using edit_insert [OF ok True, of c] n Op_insert by simp
  next
    case False
    then have "fst (linenoiseEditInsert c l) = l" by (simp add: linenoiseEditInsert_def)
    then show ?thesis using edits_same [OF ok] n False Op_insert by simp
  qed
next
  case Op_swap
  show ?thesis
  proof (cases "before l = [] \<or> behind l = []")
    case True
    then have "pos l = 0 \<or> \<not> pos l < len l" using ok by (auto simp: ln_ok_def before_def behind_def)
    then have "fst (edit_swap l) = l" by (auto simp: edit_swap_def)
    then show ?thesis using edits_same [OF ok] True Op_swap by auto
  next
    case False
    then obtain x c d y where "before l = x @ [c]" "behind l = d # y" by (metis list.exhaust rev_exhaust)
    then show ?thesis using edit_swap_text [OF ok, of x c d y] Op_swap by (auto split: if_splits)
  qed
next
  case Op_right
  then show ?thesis using edit_cursor_texts(4) [OF ok] by (cases "behind l") auto
next
  case Op_left
  then show ?thesis using edit_cursor_texts(3) [OF ok] by (cases "before l = []") auto
qed (use edit_delete edit_backspace edit_delete_word edit_clear_text edit_cut_text edit_cursor_texts ok in simp_all)

section \<open>Every key keeps the editor well formed\<close>

lemma c_string_NUL: "i < length b \<Longrightarrow> b ! i = NUL \<Longrightarrow> length (c_string b) \<le> i \<and> b ! length (c_string b) = NUL"
proof -
  assume i: "i < length b" "b ! i = NUL"
  have "length (c_string b) \<le> i"
  proof (rule ccontr)
    assume "\<not> length (c_string b) \<le> i"
    then have "c_string b ! i = b ! i" "i < length (c_string b)" by (auto simp: c_string_def takeWhile_nth)
    then show False using i nth_mem [of i "c_string b"] by (auto simp: c_string_def dest: set_takeWhileD)
  qed
  moreover have "b ! length (c_string b) = NUL"
    using nth_length_takeWhile [of "\<lambda>c. c \<noteq> NUL" b] calculation i by (simp add: c_string_def)
  ultimately show ?thesis ..
qed

lemma length_lines_update: "lines_of (h\<lparr>entries := Some es\<rparr>) = es"
  by (simp add: lines_of_def)

lemma strncpy_to_frame:
  assumes "n < length b"
  shows "length (strncpy_to n s b) = length b" and "drop (n + 1) (strncpy_to n s b) = drop (n + 1) b"
proof -
  have "length (take n s @ replicate (n - length s) NUL) = n" by simp
  then show "length (strncpy_to n s b) = length b" "drop (n + 1) (strncpy_to n s b) = drop (n + 1) b"
    unfolding strncpy_to_def using assms by (simp_all add: length_write_block drop_write_block del: length_append)
qed

lemma history_next_ok:
  assumes ok: "ln_ok l" and ix: "index_ok l h" and run: "linenoiseEditHistoryNext dir l h = (l', d, h')"
  shows "ln_ok l' \<and> same_frame l l' \<and> index_ok l' h' \<and> length (lines_of h') = length (lines_of h)"
proof -
  define n where "n = int (length (lines_of h))"
  define es where "es = (lines_of h)[nat (n - 1 - history_index l) := c_string (lbuf l)]"
  define i where "i = history_index l + (if dir = HISTORY_PREV then 1 else -1)"
  define b where "b = (strncpy_to (buflen l) (es ! nat (n - 1 - i)) (lbuf l))[buflen l - 1 := NUL]"
  have les: "length es = length (lines_of h)" by (simp add: es_def)
  have lb: "length b = length (lbuf l)" "drop (buflen l + 1) b = drop (buflen l + 1) (lbuf l)" "b ! (buflen l - 1) = NUL"
    using ok strncpy_to_frame [of "buflen l" "lbuf l" "es ! nat (n - 1 - i)"] by (auto simp: b_def ln_ok_def intro!: nth_list_update_eq)
  consider "n \<le> 1" | "n > 1" "i < 0" | "n > 1" "i \<ge> n" | "n > 1" "0 \<le> i" "i < n" by linarith
  then show ?thesis
  proof cases
    case 1
    then have "l' = l" "h' = h" using run by (simp_all add: linenoiseEditHistoryNext_def n_def [symmetric] Let_def)
    then show ?thesis using ok ix by (simp add: same_frame_def)
  next
    case 2
    then have "l' = l\<lparr>history_index := 0\<rparr>" "h' = h\<lparr>entries := Some es\<rparr>"
      using run by (simp_all add: linenoiseEditHistoryNext_def n_def [symmetric] es_def [symmetric] i_def [symmetric] Let_def)
    then show ?thesis using ok 2 les by (auto simp: ln_ok_def same_frame_def index_ok_def length_lines_update n_def)
  next
    case 3
    then have "l' = l\<lparr>history_index := n - 1\<rparr>" "h' = h\<lparr>entries := Some es\<rparr>"
      using run ix by (auto simp: linenoiseEditHistoryNext_def n_def [symmetric] es_def [symmetric] i_def [symmetric] Let_def)
    then show ?thesis using ok 3 les by (auto simp: ln_ok_def same_frame_def index_ok_def length_lines_update n_def)
  next
    case 4
    then have "l' = l\<lparr>lbuf := b, history_index := i, len := length (c_string b), pos := length (c_string b)\<rparr>"
      "h' = h\<lparr>entries := Some es\<rparr>"
      using run by (auto simp: linenoiseEditHistoryNext_def n_def [symmetric] es_def [symmetric] i_def [symmetric]
          b_def Let_def)
    moreover have "length (c_string b) \<le> buflen l - 1 \<and> b ! length (c_string b) = NUL"
      by (rule c_string_NUL) (use lb ok in \<open>auto simp: ln_ok_def\<close>)
    ultimately show ?thesis using ok 4 les lb
      by (auto simp: ln_ok_def same_frame_def index_ok_def length_lines_update n_def)
  qed
qed

text \<open>What holds between two keys.\<close>

definition key_inv :: "lnstate \<Rightarrow> history \<Rightarrow> lnstate \<Rightarrow> history \<Rightarrow> bool" where
  "key_inv l h l' h' \<longleftrightarrow>
     ln_ok l' \<and> same_frame l l' \<and> index_ok l' h' \<and> length (lines_of h') = length (lines_of h)"

lemma same_frame_trans: "same_frame l l' \<Longrightarrow> same_frame l' l'' \<Longrightarrow> same_frame l l''"
  by (auto simp: same_frame_def)

lemma key_inv_run: "ln_ok l \<Longrightarrow> index_ok l h \<Longrightarrow> key_inv l h (run_op f l) h"
  using run_op_edits [of l f] by (auto simp: edits_def key_inv_def index_ok_def)

lemma key_inv_refl: "ln_ok l \<Longrightarrow> index_ok l h \<Longrightarrow> key_inv l h l h"
  by (simp add: key_inv_def same_frame_def)

lemmas run_op_keys = key_inv_run [where f = Op_left] key_inv_run [where f = Op_right] key_inv_run [where f = Op_delete]
  key_inv_run [where f = Op_backspace] key_inv_run [where f = Op_delete_word] key_inv_run [where f = Op_swap]
  key_inv_run [where f = Op_clear] key_inv_run [where f = Op_cut] key_inv_run [where f = Op_home]
  key_inv_run [where f = Op_end]

lemma edit_escape_ok:
  assumes "ln_ok l" and "index_ok l h" and "edit_escape junk inp l h = (r, h')"
  shows "\<exists>l' inp'. r = Next l' inp' \<and> key_inv l h l' h' \<and> input_size inp' \<le> input_size inp"
proof -
  have hist: "key_inv l h l1 h1" if "linenoiseEditHistoryNext dir l h = (l1, d, h1)" for dir l1 d h1
    using history_next_ok [OF assms(1,2) that] by (simp add: key_inv_def)
  have "edit_escape junk inp l h = (r, h')" by fact
  moreover obtain g1 i1 where 1: "read_keys 2 inp = (g1, i1)" by (cases "read_keys 2 inp")
  moreover obtain g2 i2 where 2: "read_keys 2 i1 = (g2, i2)" by (cases "read_keys 2 i1")
  ultimately show ?thesis
    using key_inv_refl [OF assms(1,2)] run_op_keys [OF assms(1,2), unfolded run_op.simps] hist
      read_keys_end [OF 1] read_keys_end [OF 2]
    unfolding edit_escape_def Let_def
    by (auto split: option.splits if_splits prod.splits intro: order_trans)
qed

lemma edit_insert_inv:
  "ln_ok l \<Longrightarrow> index_ok l h \<Longrightarrow> linenoiseEditInsert c l = (l1, d) \<Longrightarrow> key_inv l h l1 h"
  using key_inv_run [of l h "Op_insert c"] by simp

lemma edit_key_ok:
  assumes ok: "ln_ok l" "index_ok l h" and ne: "lines_of h \<noteq> []" and run: "edit_key wok junk c inp l h = (r, h')"
  shows "(\<exists>l' inp'. r = Next l' inp' \<and> key_inv l h l' h' \<and> input_size inp' \<le> input_size inp) \<or>
    (\<exists>v l'. r = Stop v l' \<and> ln_ok l' \<and> same_frame l l' \<and> (v = -1 \<or> v = int (len l')))"
proof -
  have stop: "\<exists>h1. stop_with v l h = (Stop v l, h1)" for v
    using ne by (auto simp: stop_with_def drop_latest_def)
  have hist: "key_inv l h l1 h1" if "linenoiseEditHistoryNext dir l h = (l1, d, h1)" for dir l1 d h1
    using history_next_ok [OF ok that] by (simp add: key_inv_def)
  have same: "ln_ok l \<and> same_frame l l" using ok by (simp add: same_frame_def)
  have ins: "ln_ok l1 \<and> same_frame l l1" if "linenoiseEditInsert c l = (l1, d)" for l1 d
    using edit_insert_inv [OF ok that] by (simp add: key_inv_def)
  obtain l1 d where i: "linenoiseEditInsert c l = (l1, d)" by (cases "linenoiseEditInsert c l")
  show ?thesis using run key_inv_refl [OF ok] run_op_keys [OF ok, unfolded run_op.simps] hist same ins [OF i]
      edit_insert_inv [OF ok i] stop [of "int (len l)"] stop [of "-1"] edit_escape_ok [OF ok, of junk inp]
    unfolding edit_key_def Let_def i
    by (cases d) (auto split: if_splits prod.splits)
qed

definition completions_fit :: "nat \<Rightarrow> (string \<Rightarrow> string list) option \<Rightarrow> bool" where
  "completions_fit n cb \<longleftrightarrow> (case cb of None \<Rightarrow> True | Some f \<Rightarrow> \<forall>b. \<forall>s \<in> set (f b). length s < n)"

lemma take_completion_ok:
  assumes "ln_ok l" and "length s < buflen l"
  shows "ln_ok (take_completion s l) \<and> same_frame l (take_completion s l) \<and>
    history_index (take_completion s l) = history_index l"
proof -
  have t: "take (buflen l - 1) s @ [NUL] = s @ [NUL]" using assms(2) by simp
  have len: "0 + length (s @ [NUL]) \<le> length (lbuf l)" "0 + length (s @ [NUL]) \<le> buflen l + 1"
    using assms by (auto simp: ln_ok_def)
  have "length (write_block 0 (s @ [NUL]) (lbuf l)) = length (lbuf l)" by (rule length_write_block [OF len(1)])
  moreover have "drop (buflen l + 1) (write_block 0 (s @ [NUL]) (lbuf l)) = drop (buflen l + 1) (lbuf l)"
    by (rule drop_write_block [OF len(2,1)])
  moreover have "write_block 0 (s @ [NUL]) (lbuf l) ! length s = NUL" by (simp add: write_block_def nth_append)
  ultimately show ?thesis using assms unfolding take_completion_def t
    by (auto simp: ln_ok_def same_frame_def)
qed

lemma complete_loop_ok:
  assumes "ln_ok l" and "\<forall>s \<in> set lc. length s < buflen l" and "complete_loop lc i inp l = (r, l', inp')"
  shows "ln_ok l' \<and> same_frame l l' \<and> history_index l' = history_index l \<and> input_size inp' \<le> input_size inp"
  using assms
proof (induction lc i inp l arbitrary: r l' inp' rule: complete_loop.induct)
  case (1 lc i inp l)
  have same: "ln_ok l \<and> same_frame l l \<and> history_index l = history_index l" using 1(2) by (simp add: same_frame_def)
  show ?case
  proof (cases inp)
    case Nil
    then show ?thesis using 1(4) same by (simp add: complete_loop.simps)
  next
    case (Cons b bs)
    show ?thesis
    proof (cases b)
      case Nil
      then show ?thesis using 1(4) same Cons by (simp add: complete_loop.simps input_size_def)
    next
      case b: (Cons c cs)
      define i1 where "i1 = snd (read_keys 1 inp)"
      have i1: "input_size i1 \<le> input_size inp"
        using read_keys_end [of 1 inp "fst (read_keys 1 inp)" i1] by (simp add: i1_def)
      have run: "(if of_char c = (9 :: nat) then complete_loop lc ((i + 1) mod (length lc + 1)) i1 l
          else if of_char c = (27 :: nat) then (27, l, i1)
          else (as_int c, if i < length lc then take_completion (lc ! i) l else l, i1)) = (r, l', inp')"
        using 1(4) Cons b unfolding i1_def by (subst (asm) complete_loop.simps) (simp only: list.case Let_def)
      show ?thesis
      proof (cases "of_char c = (9 :: nat)")
        case True
        then have "complete_loop lc ((i + 1) mod (length lc + 1)) i1 l = (r, l', inp')" using run by simp
        then show ?thesis using "1.IH" [OF Cons b i1_def True 1(2,3)] i1 by fastforce
      next
        case False
        show ?thesis
        proof (cases "i < length lc \<and> of_char c \<noteq> (27 :: nat)")
          case True
          then have "length (lc ! i) < buflen l" using 1(3) by simp
          then show ?thesis using run True False i1 take_completion_ok [OF 1(2), of "lc ! i"] by auto
        next
          case 2: False
          then show ?thesis using run False i1 same by (auto split: if_splits)
        qed
      qed
    qed
  qed
qed

section \<open>The editor returns\<close>

lemma completeLine_ok:
  assumes "ln_ok l" and "completions_fit (buflen l) (Some f)" and "completeLine f inp l = (r, l', inp')"
  shows "ln_ok l' \<and> same_frame l l' \<and> history_index l' = history_index l \<and> input_size inp' \<le> input_size inp"
proof (cases "f (lbuf l) = []")
  case True
  then show ?thesis using assms by (simp add: completeLine_def same_frame_def)
next
  case False
  then have "complete_loop (f (lbuf l)) 0 inp l = (r, l', inp')" using assms(3) by (simp add: completeLine_def)
  then show ?thesis by (rule complete_loop_ok [OF assms(1), rotated]) (use assms(2) in \<open>simp add: completions_fit_def\<close>)
qed

lemma edit_loop_returns:
  assumes "ln_ok l" and "index_ok l h" and "lines_of h \<noteq> []" and "completions_fit (buflen l) cb"
  shows "\<exists>v l' h'. edit_loop cb wok junk inp l h = Some (Some v, l', h') \<and> ln_ok l' \<and> same_frame l l' \<and>
    (v = -1 \<or> v = int (len l'))"
  using assms
proof (induction "input_size inp" arbitrary: inp l h rule: less_induct)
  case less
  have same: "same_frame l l" by (simp add: same_frame_def)
  obtain g inp1 where g: "read_keys 1 inp = (g, inp1)" by (cases "read_keys 1 inp")
  show ?case
  proof (cases "\<exists>c cs. g = Some (c # cs)")
    case False
    then have "edit_loop cb wok junk inp l h = Some (Some (int (len l)), l, h)"
      using g by (subst edit_loop.simps) (auto split: option.splits list.splits)
    then show ?thesis using less same by simp
  next
    case True
    then obtain c cs where c: "g = Some (c # cs)" by blast
    have "inp \<noteq> []" using g c by auto
    then have sz: "input_size inp1 < input_size inp" using read_keys_smaller [of 0 inp g inp1] g by simp
    define tab where "tab \<longleftrightarrow> of_char c = (9 :: nat) \<and> cb \<noteq> None"
    obtain r l1 inp2 where r: "(if tab then completeLine (the cb) inp1 l else (as_int c, l, inp1)) = (r, l1, inp2)"
      by (rule prod_cases3)
    have l1: "ln_ok l1" "same_frame l l1" "history_index l1 = history_index l" "input_size inp2 \<le> input_size inp1"
      using r less.prems(1,4) same completeLine_ok [of l "the cb" inp1 r l1 inp2] by (auto simp: tab_def split: if_splits)
    then have i1: "index_ok l1 h" and fit: "completions_fit (buflen l1) cb"
      using less.prems by (auto simp: index_ok_def same_frame_def)
    have step: "edit_loop cb wok junk inp l h =
        (if tab \<and> r < 0 then Some (Some (int (len l1)), l1, h)
         else if tab \<and> r = 0 then edit_loop cb wok junk inp2 l1 h
         else case edit_key wok junk (char_of (r mod 256)) inp2 l1 h of
                (Stop v l2, h1) \<Rightarrow> Some (Some v, l2, h1)
              | (Crashed, h1) \<Rightarrow> Some (None, l1, h1)
              | (Next l2 inp3, h1) \<Rightarrow> edit_loop cb wok junk inp3 l2 h1)"
      using g c r unfolding tab_def by (subst edit_loop.simps) (cases cb; simp)
    obtain kr h1 where k: "edit_key wok junk (char_of (r mod 256)) inp2 l1 h = (kr, h1)"
      by (cases "edit_key wok junk (char_of (r mod 256)) inp2 l1 h")
    have go_on: "\<exists>v l' h'. edit_loop cb wok junk inp l h = Some (Some v, l', h') \<and> ln_ok l' \<and> same_frame l l' \<and>
        (v = -1 \<or> v = int (len l'))"
      if "edit_loop cb wok junk inp l h = edit_loop cb wok junk i x g" "input_size i < input_size inp" "ln_ok x"
        "index_ok x g" "lines_of g \<noteq> []" "completions_fit (buflen x) cb" "same_frame l x" for i x g
      using less.hyps [OF that(2-6)] that(1) same_frame_trans [OF that(7)] by metis
    consider "tab" "r < 0" | "tab" "r = 0" | "\<not> (tab \<and> r \<le> 0)" by linarith
    then show ?thesis
    proof cases
      case 1
      then show ?thesis using step l1 by simp
    next
      case 2
      then have "edit_loop cb wok junk inp l h = edit_loop cb wok junk inp2 l1 h" using step by simp
      then show ?thesis by (rule go_on) (use l1 i1 fit sz less.prems(3) in simp_all)
    next
      case 3
      then have "\<not> (tab \<and> r < 0)" "\<not> (tab \<and> r = 0)" by auto
      then have step3: "edit_loop cb wok junk inp l h =
          (case edit_key wok junk (char_of (r mod 256)) inp2 l1 h of
             (Stop v l2, h1) \<Rightarrow> Some (Some v, l2, h1)
           | (Crashed, h1) \<Rightarrow> Some (None, l1, h1)
           | (Next l2 inp3, h1) \<Rightarrow> edit_loop cb wok junk inp3 l2 h1)"
        using step by (simp only: if_False)
      from edit_key_ok [OF l1(1) i1 less.prems(3) k] show ?thesis
      proof (elim disjE exE conjE)
        fix l2 inp3 assume n: "kr = Next l2 inp3" "key_inv l1 h l2 h1" "input_size inp3 \<le> input_size inp2"
        then have "ln_ok l2" "index_ok l2 h1" "lines_of h1 \<noteq> []" "completions_fit (buflen l2) cb" "same_frame l l2"
          using less.prems(3) fit l1(2) by (auto simp: key_inv_def same_frame_def)
        moreover have "edit_loop cb wok junk inp l h = edit_loop cb wok junk inp3 l2 h1" using step3 k n(1) by simp
        ultimately show ?thesis by (intro go_on [of inp3 l2 h1]) (use sz l1(4) n(3) in simp_all)
      next
        fix v l2 assume "kr = Stop v l2" "ln_ok l2" "same_frame l1 l2" "v = -1"
        then show ?thesis using step3 k same_frame_trans [OF l1(2)] by simp
      next
        fix v l2 assume "kr = Stop v l2" "ln_ok l2" "same_frame l1 l2" "v = int (len l2)"
        then show ?thesis using step3 k same_frame_trans [OF l1(2)] by simp
      qed
    qed
  qed
qed

lemma history_add_nonempty:
  assumes "0 < history_max_len h"
  shows "lines_of (snd (linenoiseHistoryAdd True True s h)) \<noteq> []"
  using assms by (simp add: linenoiseHistoryAdd_def Let_def length_lines_update)

lemma linenoiseEdit_returns:
  assumes "0 < n" and "n < length buf" and "0 < history_max_len h" and "completions_fit n cb"
  shows "\<exists>v l' h'. linenoiseEdit cb True True wok junk inp buf n prompt columns h = Some (Some v, l', h') \<and>
    ln_ok l' \<and> buflen l' = n \<and> (v = -1 \<or> v = int (len l'))"
proof -
  define l where "l = \<lparr>lbuf = buf[0 := NUL], buflen = n, plen = length prompt, pos = 0, len = 0, cols = columns,
      history_index = 0\<rparr>"
  define h1 where "h1 = snd (linenoiseHistoryAdd True True [] h)"
  have "buf[0 := NUL] ! 0 = NUL" using assms(1,2) by (intro nth_list_update_eq) linarith
  then have "ln_ok l" using assms by (simp add: l_def ln_ok_def)
  moreover have "lines_of h1 \<noteq> []" using history_add_nonempty [OF assms(3)] by (simp add: h1_def)
  moreover have "index_ok l h1" by (auto simp: l_def index_ok_def)
  moreover have "completions_fit (buflen l) cb" using assms(4) by (simp add: l_def)
  ultimately obtain v l' h' where "edit_loop cb wok junk inp l h1 = Some (Some v, l', h')" "ln_ok l'" "same_frame l l'"
    "v = -1 \<or> v = int (len l')" using edit_loop_returns by metis
  moreover have "linenoiseEdit cb True True wok junk inp buf n prompt columns h =
      (if \<not> wok then Some (Some (-1), l, h1) else edit_loop cb wok junk inp l h1)"
    by (simp add: linenoiseEdit_def l_def h1_def)
  ultimately show ?thesis using \<open>ln_ok l\<close> by (auto simp: same_frame_def l_def)
qed

lemma line_is_read_lines:
  assumes "0 < history_max_len h" and "completions_fit LINENOISE_MAX_LINE cb" and "LINENOISE_MAX_LINE < length (t_stack t)"
  shows "\<exists>r h'. linenoise cb True True t prompt h = Some (r, h') \<and> r \<noteq> Line_crash \<and>
    (\<forall>s. r = Line s \<longrightarrow> length s \<le> LINENOISE_MAX_LINE)"
proof -
  have short: "length (c_string (take (fgets_len LINENOISE_MAX_LINE s) s)) \<le> LINENOISE_MAX_LINE" for s
    unfolding c_string_def by (rule order_trans [OF length_takeWhile_le]) (auto simp: fgets_len_def min_def)
  have strip: "length (strip_line_end s) \<le> length s" for s
    using length_dropWhile_le [of _ "rev s"] by (simp add: strip_line_end_def)
  obtain v l' h' where e: "linenoiseEdit cb True True (t_writes t) (t_junk t) (t_keys t) (t_stack t)
      LINENOISE_MAX_LINE prompt (t_cols t) h = Some (Some v, l', h')" "ln_ok l'" "buflen l' = LINENOISE_MAX_LINE"
    using linenoiseEdit_returns [OF _ assms(3,1,2)] by (metis LINENOISE_MAX_LINE_def zero_less_numeral)
  have "length (c_string (lbuf l')) \<le> len l'"
    using e(2) c_string_NUL [of "len l'" "lbuf l'"] by (auto simp: ln_ok_def)
  then have line: "length (c_string (lbuf l')) \<le> LINENOISE_MAX_LINE" using e(2,3) by (simp add: ln_ok_def)
  show ?thesis
    using e(1) line short [of "t_text t"] order_trans [OF strip short, of "t_text t"]
    by (auto simp: linenoise_def linenoiseRaw_def LINENOISE_MAX_LINE_def Let_def)
qed


section \<open>What is typed is what is read\<close>

text \<open>The keys that edit the text; the others end the line, move in the history, complete, or do nothing.\<close>

definition key_op :: "char \<Rightarrow> edit_op option" where
  "key_op c =
     (let k = of_char c :: nat in
      if k = 127 \<or> k = 8 then Some Op_backspace
      else if k = 20 then Some Op_swap
      else if k = 2 then Some Op_left
      else if k = 6 then Some Op_right
      else if k = 21 then Some Op_clear
      else if k = 11 then Some Op_cut
      else if k = 1 then Some Op_home
      else if k = 5 then Some Op_end
      else if k = 23 then Some Op_delete_word
      else if k \<in> {0, 3, 4, 9, 12, 13, 14, 16, 27} then None
      else Some (Op_insert c))"

lemma key_op_edit:
  assumes "key_op c = Some f"
  shows "edit_key True junk c inp l h = (Next (run_op f l) inp, h)" and "of_char c \<noteq> (9 :: nat)"
    and "f = Op_insert x \<Longrightarrow> x \<noteq> NUL"
proof -
  obtain l1 d where i: "linenoiseEditInsert c l = (l1, d)" by (cases "linenoiseEditInsert c l")
  show "edit_key True junk c inp l h = (Next (run_op f l) inp, h)"
    using assms i unfolding key_op_def edit_key_def Let_def by (cases d) (auto split: if_splits)
  show "of_char c \<noteq> (9 :: nat)" using assms unfolding key_op_def Let_def by (auto split: if_splits)
  show "f = Op_insert x \<Longrightarrow> x \<noteq> NUL" using assms unfolding key_op_def Let_def by (auto split: if_splits)
qed

lemma as_int_char: "char_of (as_int c mod 256) = c"
proof -
  have "int (of_char c) < 256" by simp
  then have "as_int c mod 256 = int (of_char c)" by (auto simp: as_int_def Let_def)
  then show ?thesis by simp
qed

lemma read_portions:
  assumes "[] \<notin> set inp" and "concat inp = c # cs"
  shows "\<exists>inp'. read_keys 1 inp = (Some [c], inp') \<and> [] \<notin> set inp' \<and> concat inp' = cs"
proof (cases inp)
  case (Cons b bs)
  then obtain b' where "b = c # b'" "concat inp = c # b' @ concat bs" using assms by (cases b) auto
  then show ?thesis using assms Cons by (cases b') auto
qed (use assms in simp)

abbreviation CR :: char where
  "CR \<equiv> CHR 0x0D"

definition text_ops :: "nat \<Rightarrow> edit_op list \<Rightarrow> string \<times> string \<Rightarrow> string \<times> string" where
  "text_ops n fs t = foldl (\<lambda>t f. text_op n f t) t fs"

lemma typed_line:
  assumes "ln_ok l" and "lines_of h \<noteq> []" and "[] \<notin> set inp" and "concat inp = cs @ CR # rest"
    and "list_all2 (\<lambda>c f. key_op c = Some f) cs fs"
  shows "\<exists>l' h'. edit_loop cb True junk inp l h = Some (Some (int (len l')), l', h') \<and> ln_ok l' \<and>
    (before l', behind l') = text_ops (buflen l) fs (before l, behind l)"
  using assms(5,1-4)
proof (induction arbitrary: inp l rule: list_all2_induct)
  case Nil
  obtain inp' where r: "read_keys 1 inp = (Some [CR], inp')" using read_portions [OF Nil(3), of CR rest] Nil(4) by auto
  have k: "edit_key True junk CR inp' l h = (Stop (int (len l)) l, h\<lparr>entries := Some (butlast (lines_of h))\<rparr>)"
    using Nil(2) by (simp add: edit_key_def stop_with_def drop_latest_def)
  have c: "char_of (as_int CR mod 256) = CR" by (rule as_int_char)
  show ?case using r k c Nil(1) by (subst edit_loop.simps) (simp add: text_ops_def)
next
  case (Cons c cs f fs)
  obtain inp' where r: "read_keys 1 inp = (Some [c], inp')" "[] \<notin> set inp'" "concat inp' = cs @ CR # rest"
    using read_portions [OF Cons.prems(3), of c "cs @ CR # rest"] Cons.prems(4) by auto
  have step: "edit_loop cb True junk inp l h = edit_loop cb True junk inp' (run_op f l) h"
    using r(1) key_op_edit(1,2) [OF Cons.hyps(1)] as_int_char [of c] by (subst edit_loop.simps) simp
  have e: "edits l (run_op f l) (fst (text_op (buflen l) f (before l, behind l)))
      (snd (text_op (buflen l) f (before l, behind l)))"
    by (rule run_op_edits [OF Cons.prems(1)])
  then have "ln_ok (run_op f l)" "buflen (run_op f l) = buflen l"
    "(before (run_op f l), behind (run_op f l)) = text_op (buflen l) f (before l, behind l)"
    by (simp_all add: edits_def same_frame_def)
  then show ?case using step Cons.IH [OF _ Cons.prems(2) r(2,3), of "run_op f l"] by (simp add: text_ops_def)
qed

lemma c_string_terminated_line: "NUL \<notin> set s \<Longrightarrow> c_string (s @ NUL # r) = s"
  by (simp add: c_string_def takeWhile_append)

text \<open>No operation brings in a NUL.\<close>

lemma set_drop_word: "set (drop_word x) \<subseteq> set x"
  by (auto simp: drop_word_def dest!: set_dropWhileD)

lemma text_op_no_NUL:
  assumes "NUL \<notin> set (fst t @ snd t)" and "\<And>c. f = Op_insert c \<Longrightarrow> c \<noteq> NUL"
  shows "NUL \<notin> set (fst (text_op n f t) @ snd (text_op n f t))"
proof -
  obtain x y where t: "t = (x, y)" by (cases t)
  show ?thesis using assms set_drop_word [of x] unfolding t
    by (cases f; cases y) (auto dest: in_set_butlastD last_in_set)
qed

lemma text_ops_no_NUL:
  assumes "list_all2 (\<lambda>c f. key_op c = Some f) cs fs" and "NUL \<notin> set (fst t @ snd t)"
  shows "NUL \<notin> set (fst (text_ops n fs t) @ snd (text_ops n fs t))"
  using assms
proof (induction arbitrary: t rule: list_all2_induct)
  case (Cons c cs f fs)
  then show ?case using text_op_no_NUL [of t f n] key_op_edit(3) [OF Cons.hyps(1)] by (simp add: text_ops_def)
qed (simp add: text_ops_def)

text \<open>
  C35: The editor refines an editor of two strings.  On a terminal, typing keys that edit and then return,
  delivered in any portions, makes the line read the text before the cursor followed by the text behind
  it, as the same operations on a pair of strings, starting with two empty ones, leave them.
\<close>

theorem typed_text_is_read:
  assumes "0 < history_max_len h" and "LINENOISE_MAX_LINE < length (t_stack t)"
    and "\<not> t_unsupported t \<and> t_tty t \<and> t_raw t \<and> t_writes t"
    and "[] \<notin> set (t_keys t)" and "concat (t_keys t) = cs @ CR # rest"
    and "list_all2 (\<lambda>c f. key_op c = Some f) cs fs" and "text_ops LINENOISE_MAX_LINE fs ([], []) = (x, y)"
  shows "\<exists>h'. linenoise cb True True t prompt h = Some (Line (x @ y), h')"
proof -
  define l where "l = \<lparr>lbuf = (t_stack t)[0 := NUL], buflen = LINENOISE_MAX_LINE, plen = length prompt, pos = 0, len = 0,
      cols = t_cols t, history_index = 0\<rparr>"
  define h1 where "h1 = snd (linenoiseHistoryAdd True True [] h)"
  have "(t_stack t)[0 := NUL] ! 0 = NUL" using assms(2) by (intro nth_list_update_eq) linarith
  then have ok: "ln_ok l" using assms(2) by (simp add: l_def ln_ok_def LINENOISE_MAX_LINE_def)
  have e: "(before l, behind l) = ([], [])" "buflen l = LINENOISE_MAX_LINE" by (simp_all add: l_def before_def behind_def)
  have "lines_of h1 \<noteq> []" using history_add_nonempty [OF assms(1)] by (simp add: h1_def)
  from typed_line [OF ok this assms(4,5,6), of cb "t_junk t"] obtain l' h' where
    loop: "edit_loop cb True (t_junk t) (t_keys t) l h1 = Some (Some (int (len l')), l', h')" and ok': "ln_ok l'"
    and xy: "(before l', behind l') = (x, y)"
    unfolding e assms(7) by auto
  obtain r where b: "lbuf l' = before l' @ behind l' @ NUL # r" using split_text [OF ok'] by metis
  have "NUL \<notin> set (x @ y)" using text_ops_no_NUL [OF assms(6), of "([], [])" LINENOISE_MAX_LINE] assms(7) by simp
  then have "c_string (lbuf l') = x @ y" using b xy c_string_terminated_line [of "x @ y" r] by simp
  moreover have "LINENOISE_MAX_LINE \<noteq> 0" by (simp add: LINENOISE_MAX_LINE_def)
  ultimately show ?thesis using loop assms(3)
    by (simp add: linenoise_def linenoiseRaw_def linenoiseEdit_def l_def [symmetric] h1_def [symmetric])
qed

definition demo_terminal :: "string list \<Rightarrow> terminal" where
  "demo_terminal keys = \<lparr>t_unsupported = False, t_tty = True, t_raw = True, t_writes = True, t_text = [],
     t_keys = keys, t_junk = [NUL, NUL], t_stack = replicate 5000 (CHR ''?''), t_cols = 80\<rparr>"

lemma typed_text_is_read_witness:
  "\<exists>h'. linenoise None True True (demo_terminal [''ac'', [CHR 0x02], ''b'' @ [CR]]) ''> '' history_start =
     Some (Line ''abc'', h')"
proof -
  have "text_ops LINENOISE_MAX_LINE [Op_insert (CHR ''a''), Op_insert (CHR ''c''), Op_left, Op_insert (CHR ''b'')] ([], []) =
      (''ab'', ''c'')"
    by (simp add: text_ops_def LINENOISE_MAX_LINE_def)
  from typed_text_is_read [where t = "demo_terminal [''ac'', [CHR 0x02], ''b'' @ [CR]]" and h = history_start
      and cs = "[CHR ''a'', CHR ''c'', CHR 0x02, CHR ''b'']" and rest = "[]", OF _ _ _ _ _ _ this]
  show ?thesis
    by (simp add: demo_terminal_def LINENOISE_MAX_LINE_def history_start_def LINENOISE_DEFAULT_HISTORY_MAX_LEN_def
        key_op_def)
qed


section \<open>The buffer is one character short\<close>

text \<open>
  The editor writes behind its buffer.  Typing as many characters as the buffer holds, at the end of
  the line, keeps them all and puts the NUL into the character behind the buffer, whatever it was; it
  never writes further than that.
\<close>

theorem editor_writes_behind_buffer:
  assumes "ln_ok l" and "pos l = len l" and "len l + length cs = buflen l"
  shows "take (buflen l) (lbuf (foldl (\<lambda>l c. fst (linenoiseEditInsert c l)) l cs)) = take (len l) (lbuf l) @ cs \<and>
    lbuf (foldl (\<lambda>l c. fst (linenoiseEditInsert c l)) l cs) ! buflen l = NUL \<and>
    drop (buflen l + 1) (lbuf (foldl (\<lambda>l c. fst (linenoiseEditInsert c l)) l cs)) = drop (buflen l + 1) (lbuf l)"
  using assms
proof (induction cs arbitrary: l)
  case Nil
  then show ?case by (simp add: ln_ok_def)
next
  case (Cons c cs)
  define l1 where "l1 = fst (linenoiseEditInsert c l)"
  have "edits l l1 (before l @ [c]) (behind l)"
    using edit_insert [OF Cons.prems(1)] Cons.prems(3) by (simp add: l1_def)
  moreover have "pos l1 = len l1" "len l1 = len l + 1"
    using Cons.prems by (simp_all add: l1_def linenoiseEditInsert_def Let_def)
  ultimately have l1: "ln_ok l1" "same_frame l l1" "take (len l1) (lbuf l1) = take (len l) (lbuf l) @ [c]"
    "pos l1 = len l1" "len l1 = len l + 1"
    using Cons.prems(2) by (simp_all add: edits_def before_def)
  then have "len l1 + length cs = buflen l1" using Cons.prems(3) by (simp add: same_frame_def)
  from Cons.IH [OF l1(1,4) this] show ?case using l1(2,3) by (simp add: l1_def [symmetric] same_frame_def)
qed

lemma editor_writes_behind_buffer_witness:
  "lbuf (foldl (\<lambda>l c. fst (linenoiseEditInsert c l))
     \<lparr>lbuf = [NUL, CHR ''?'', CHR ''?'', CHR ''?''], buflen = 2, plen = 0, pos = 0, len = 0, cols = 80, history_index = 0\<rparr>
     ''hi'') ! 2 = NUL"
  using editor_writes_behind_buffer
    [of "\<lparr>lbuf = [NUL, CHR ''?'', CHR ''?'', CHR ''?''], buflen = 2, plen = 0, pos = 0, len = 0, cols = 80, history_index = 0\<rparr>" "''hi''"]
  by (simp add: ln_ok_def)

section \<open>Keeping the history\<close>

definition latest :: "nat \<Rightarrow> 'a list \<Rightarrow> 'a list" where
  "latest n xs = drop (length xs - n) xs"

lemma latest_snoc: "latest n (latest n xs @ [x]) = latest n (xs @ [x])"
  by (cases "n \<le> length xs") (auto simp: latest_def Suc_diff_le)

lemma latest_short: "length xs \<le> n \<Longrightarrow> latest n xs = xs"
  by (simp add: latest_def)

lemma history_add_latest:
  assumes "length (lines_of h) \<le> history_max_len h" and "0 < history_max_len h"
  shows "lines_of (snd (linenoiseHistoryAdd True True s h)) = latest (history_max_len h) (lines_of h @ [s]) \<and>
    history_max_len (snd (linenoiseHistoryAdd True True s h)) = history_max_len h"
proof -
  have "latest (history_max_len h) (lines_of h @ [s]) =
      (if length (lines_of h) = history_max_len h then tl (lines_of h) else lines_of h) @ [s]"
    using assms by (cases "lines_of h") (auto simp: latest_def)
  then show ?thesis using assms by (simp add: linenoiseHistoryAdd_def Let_def length_lines_update)
qed

lemma history_add_all:
  assumes "length (lines_of h) \<le> history_max_len h" and "0 < history_max_len h"
  shows "lines_of (foldl (\<lambda>h s. snd (linenoiseHistoryAdd True True (f s) h)) h ss) =
    latest (history_max_len h) (lines_of h @ map f ss)"
proof (induction ss rule: rev_induct)
  case Nil
  then show ?case using assms by (simp add: latest_short)
next
  case (snoc s ss)
  define g where "g = foldl (\<lambda>h s. snd (linenoiseHistoryAdd True True (f s) h)) h ss"
  have m: "history_max_len g = history_max_len h"
    unfolding g_def by (induction ss rule: rev_induct) (simp_all add: linenoiseHistoryAdd_def Let_def)
  have g: "lines_of g = latest (history_max_len h) (lines_of h @ map f ss)" using snoc by (simp add: g_def)
  then have "length (lines_of g) \<le> history_max_len g" using m by (simp add: latest_def)
  then have "lines_of (snd (linenoiseHistoryAdd True True (f s) g)) = latest (history_max_len g) (lines_of g @ [f s])"
    using history_add_latest [of g "f s"] m assms(2) by simp
  then show ?case using g m latest_snoc [of "history_max_len h" "lines_of h @ map f ss"] by (simp add: g_def)
qed

text \<open>A line that survives a round through the history file: no line ends, no NUL, and room for the newline in the buffer.\<close>

definition plain_line :: "string \<Rightarrow> bool" where
  "plain_line s \<longleftrightarrow> CHR 0x0A \<notin> set s \<and> CR \<notin> set s \<and> NUL \<notin> set s \<and> length s + 2 \<le> LINENOISE_MAX_LINE"

lemma fgets_one:
  assumes "plain_line s"
  shows "fgets_lines LINENOISE_MAX_LINE ((s @ [CHR 0x0A]) @ r) = (s @ [CHR 0x0A]) # fgets_lines LINENOISE_MAX_LINE r"
proof -
  have "takeWhile (\<lambda>c. c \<noteq> CHR 0x0A) (s @ CHR 0x0A # r) = s"
    using assms by (simp add: plain_line_def takeWhile_append)
  then have n: "fgets_len LINENOISE_MAX_LINE ((s @ [CHR 0x0A]) @ r) = length s + 1"
    using assms by (simp add: fgets_len_def plain_line_def min_def) linarith
  have "\<not> LINENOISE_MAX_LINE < 2" by (simp add: LINENOISE_MAX_LINE_def)
  then show ?thesis by (subst fgets_lines.simps) (simp add: n [simplified])
qed

lemma fgets_saved: "list_all plain_line ss \<Longrightarrow>
  fgets_lines LINENOISE_MAX_LINE (concat (map (\<lambda>s. s @ [CHR 0x0A]) ss)) = map (\<lambda>s. s @ [CHR 0x0A]) ss"
proof (induction ss)
  case Nil
  then show ?case by (simp add: fgets_lines.simps)
next
  case (Cons s ss)
  then have "fgets_lines LINENOISE_MAX_LINE ((s @ [CHR 0x0A]) @ concat (map (\<lambda>s. s @ [CHR 0x0A]) ss)) =
      (s @ [CHR 0x0A]) # map (\<lambda>s. s @ [CHR 0x0A]) ss"
    by (subst fgets_one) simp_all
  then show ?case by simp
qed

lemma cut_plain: "plain_line s \<Longrightarrow> cut_line (s @ [CHR 0x0A]) = s"
  by (simp add: cut_line_def plain_line_def c_string_def takeWhile_append)

text \<open>
  C40: The history survives the program.  What one run saves, the next one loads: with an empty history that
  holds \<open>n\<close> entries it gets the latest \<open>n\<close> saved, in order, as long as the lines have no line ends or NUL and
  fit in the buffer with their newline.  Changing the length of the history keeps its latest entries too.
\<close>

theorem history_round_trip:
  assumes "list_all plain_line (lines_of h)" and "lines_of g = []" and "0 < history_max_len g" and "0 < n"
  shows "fst (linenoiseHistoryLoad (Some (linenoiseHistorySave h)) g) = 0 \<and>
    lines_of (snd (linenoiseHistoryLoad (Some (linenoiseHistorySave h)) g)) = latest (history_max_len g) (lines_of h) \<and>
    fst (linenoiseHistorySetMaxLen True (int n) h) = 1 \<and>
    lines_of (snd (linenoiseHistorySetMaxLen True (int n) h)) = latest n (lines_of h)"
proof -
  have "map cut_line (map (\<lambda>s. s @ [CHR 0x0A]) (lines_of h)) = lines_of h"
    using assms(1) by (induction "lines_of h") (auto simp: cut_plain list_all_iff intro!: map_idI)
  then have "lines_of (snd (linenoiseHistoryLoad (Some (linenoiseHistorySave h)) g)) =
      latest (history_max_len g) (lines_of h)"
    using history_add_all [of g cut_line "map (\<lambda>s. s @ [CHR 0x0A]) (lines_of h)"] assms(2,3)
    by (simp add: linenoiseHistoryLoad_def linenoiseHistorySave_def fgets_saved [OF assms(1)])
  moreover have "lines_of (snd (linenoiseHistorySetMaxLen True (int n) h)) = latest n (lines_of h)"
    using assms(4) by (auto simp: linenoiseHistorySetMaxLen_def lines_of_def latest_def Let_def split: option.splits)
  ultimately show ?thesis using assms(4)
    by (auto simp: linenoiseHistoryLoad_def linenoiseHistorySetMaxLen_def Let_def split: option.splits)
qed

lemma history_round_trip_witness:
  "lines_of (snd (linenoiseHistoryLoad
     (Some (linenoiseHistorySave \<lparr>entries = Some [''help'', ''exit''], history_max_len = 9\<rparr>)) history_start)) =
   [''help'', ''exit'']"
  using history_round_trip [of "\<lparr>entries = Some [''help'', ''exit''], history_max_len = 9\<rparr>" history_start 1]
  by (simp add: lines_of_def history_start_def plain_line_def LINENOISE_MAX_LINE_def latest_def
      LINENOISE_DEFAULT_HISTORY_MAX_LEN_def)

section \<open>The cursor stays visible\<close>

lemma unat_word64: "n < 2 ^ 64 \<Longrightarrow> unat (word_of_nat n :: 64 word) = n"
  by (simp add: unsigned_of_nat take_bit_nat_eq_self)

lemma le_of_nat: "a < 2 ^ 64 \<Longrightarrow> b < 2 ^ 64 \<Longrightarrow> (word_of_nat a \<le> (word_of_nat b :: 64 word)) = (a \<le> b)"
  by (simp add: word_le_nat_alt unat_word64)

lemma less_of_nat: "a < 2 ^ 64 \<Longrightarrow> b < 2 ^ 64 \<Longrightarrow> (word_of_nat a < (word_of_nat b :: 64 word)) = (a < b)"
  by (simp add: word_less_nat_alt unat_word64)

lemma scroll_nat:
  assumes "pl < cs" and "p \<le> n" and "pl + n < 2 ^ 64" and "cs < 2 ^ 64"
  shows "scroll (word_of_nat pl) (word_of_nat cs) off (word_of_nat n) (word_of_nat p) =
    Some (off + (pl + p + 1 - cs), word_of_nat (n - (pl + p + 1 - cs)), word_of_nat (p - (pl + p + 1 - cs)))"
  using assms
proof (induction p arbitrary: n off)
  case 0
  then show ?case by (subst scroll.simps) (simp add: le_of_nat)
next
  case (Suc p)
  have c: "(word_of_nat cs \<le> (word_of_nat pl + word_of_nat (Suc p) :: 64 word)) = (cs \<le> pl + Suc p)"
    using Suc.prems le_of_nat [of cs "pl + Suc p"] by (simp only: of_nat_add)
  show ?case
  proof (cases "cs \<le> pl + Suc p")
    case False
    then show ?thesis using c by (subst scroll.simps) simp
  next
    case True
    obtain m where n: "n = Suc m" using Suc.prems by (cases n) auto
    have "scroll (word_of_nat pl) (word_of_nat cs) off (word_of_nat n) (word_of_nat (Suc p)) =
        scroll (word_of_nat pl) (word_of_nat cs) (off + 1) (word_of_nat m) (word_of_nat p)"
      using c True n by (subst scroll.simps) simp
    also have "\<dots> = Some (off + 1 + (pl + p + 1 - cs), word_of_nat (m - (pl + p + 1 - cs)), word_of_nat (p - (pl + p + 1 - cs)))"
      using Suc.prems n by (intro Suc.IH) simp_all
    finally show ?thesis using True n by (simp add: Suc_diff_le)
  qed
qed

lemma clip_nat:
  assumes "pl \<le> cs" and "pl + n < 2 ^ 64" and "cs < 2 ^ 64"
  shows "clip (word_of_nat pl) (word_of_nat cs) (word_of_nat n) = Some (word_of_nat (min n (cs - pl)))"
  using assms
proof (induction n)
  case 0
  then show ?case by (subst clip.simps) (simp add: less_of_nat)
next
  case (Suc n)
  have c: "(word_of_nat cs < (word_of_nat pl + word_of_nat (Suc n) :: 64 word)) = (cs < pl + Suc n)"
    using Suc.prems less_of_nat [of cs "pl + Suc n"] by (simp only: of_nat_add)
  show ?case
  proof (cases "cs < pl + Suc n")
    case False
    then have "min (Suc n) (cs - pl) = Suc n" using Suc.prems(1) by (simp add: min_def)
    then show ?thesis using False c by (subst clip.simps) simp
  next
    case True
    have "clip (word_of_nat pl) (word_of_nat cs) (word_of_nat (Suc n)) = clip (word_of_nat pl) (word_of_nat cs) (word_of_nat n)"
      using c True by (subst clip.simps) simp
    also have "\<dots> = Some (word_of_nat (min n (cs - pl)))" using Suc by simp
    also have "min n (cs - pl) = min (Suc n) (cs - pl)" using True by linarith
    finally show ?thesis .
  qed
qed

text \<open>
  Redrawing shows the cursor.  With a prompt shorter than the terminal is wide, redrawing ends, shows a
  piece of the text that fits in the rest of the row, and leaves the cursor on the row at the character it
  is at in the text; the piece starts with the text unless the cursor is in the last column.
\<close>

theorem redraw_shows_cursor:
  assumes "ln_ok l" and "length prompt < cols l" and "cols l < 2 ^ 63" and "buflen l < 2 ^ 63"
  shows "\<exists>out off n p. refreshSingleLine prompt l = Some (out, off, n, p) \<and> out ! 2 = take n (drop off (lbuf l)) \<and>
    off + n \<le> len l \<and> length prompt + n \<le> cols l \<and> off + p = pos l \<and> p \<le> n \<and> length prompt + p < cols l \<and>
    (off = 0 \<or> length prompt + p + 1 = cols l)"
proof -
  define k where "k = length prompt + pos l + 1 - cols l"
  define n where "n = min (len l - k) (cols l - length prompt)"
  have o: "pos l \<le> len l" "len l < 2 ^ 63" using assms(1,4) by (auto simp: ln_ok_def)
  have k: "k \<le> pos l" using assms(2) by (simp add: k_def)
  have s: "scroll (word_of_nat (length prompt)) (word_of_nat (cols l)) 0 (word_of_nat (len l)) (word_of_nat (pos l)) =
      Some (k, word_of_nat (len l - k), word_of_nat (pos l - k))"
    using scroll_nat [of "length prompt" "cols l" "pos l" "len l" 0] assms o by (simp add: k_def)
  have c: "clip (word_of_nat (length prompt)) (word_of_nat (cols l)) (word_of_nat (len l - k)) = Some (word_of_nat n)"
    using clip_nat [of "length prompt" "cols l" "len l - k"] assms o by (simp add: n_def)
  have "unat (word_of_nat n :: 64 word) = n" "unat (word_of_nat (pos l - k) :: 64 word) = pos l - k"
    using o by (simp_all add: unat_word64 n_def min_def)
  then obtain out where "refreshSingleLine prompt l = Some (out, k, n, pos l - k)" "out ! 2 = take n (drop k (lbuf l))"
    using s c by (auto simp: refreshSingleLine_def Let_def numeral_2_eq_2)
  moreover have "k + n \<le> len l" "length prompt + n \<le> cols l" "pos l - k \<le> n" "length prompt + (pos l - k) < cols l"
    "k = 0 \<or> length prompt + (pos l - k) + 1 = cols l"
    using k o assms(2) by (auto simp: n_def k_def min_def)
  ultimately show ?thesis using k by (intro exI [of _ out] exI [of _ k] exI [of _ n] exI [of _ "pos l - k"]) simp
qed

lemma redraw_shows_cursor_witness:
  "\<exists>out off n p. refreshSingleLine ''> ''
     \<lparr>lbuf = ''abcdef'' @ [NUL, NUL], buflen = 7, plen = 2, pos = 5, len = 6, cols = 5, history_index = 0\<rparr> =
     Some (out, off, n, p) \<and> off + p = 5 \<and> p < 3"
  using redraw_shows_cursor [of "\<lparr>lbuf = ''abcdef'' @ [NUL, NUL], buflen = 7, plen = 2, pos = 5, len = 6, cols = 5,
    history_index = 0\<rparr>" "''> ''"]
  by (force simp: ln_ok_def)

section \<open>The length of the history\<close>

lemma history_add_max [simp]: "history_max_len (snd (linenoiseHistoryAdd mem1 mem2 s h)) = history_max_len h"
  by (simp add: linenoiseHistoryAdd_def Let_def)

lemma history_next_max: "linenoiseEditHistoryNext dir l h = (l', d, h') \<Longrightarrow> history_max_len h' = history_max_len h"
  by (auto simp: linenoiseEditHistoryNext_def Let_def split: if_splits)

lemma edit_escape_max: "edit_escape junk inp l h = (r, h') \<Longrightarrow> history_max_len h' = history_max_len h"
  unfolding edit_escape_def Let_def
  by (auto split: option.splits prod.splits if_splits dest: history_next_max)

lemma edit_key_max: "edit_key wok junk c inp l h = (r, h') \<Longrightarrow> history_max_len h' = history_max_len h"
  unfolding edit_key_def stop_with_def drop_latest_def Let_def
  by (auto split: option.splits prod.splits if_splits draw.splits dest: history_next_max edit_escape_max)

lemma edit_loop_max_aux:
  "edit_loop cb wok junk inp l h = Some y \<Longrightarrow> history_max_len (snd (snd y)) = history_max_len h"
proof (rule edit_loop.raw_induct [where P = "\<lambda>cb wok junk inp l h y. history_max_len (snd (snd y)) = history_max_len h"])
  fix f :: "(string \<Rightarrow> string list) option \<Rightarrow> bool \<Rightarrow> string \<Rightarrow> string list \<Rightarrow> lnstate \<Rightarrow> history \<Rightarrow>
      (int option \<times> lnstate \<times> history) option"
    and cb wok junk inp l h y
  assume "\<And>cb wok junk inp l h y. f cb wok junk inp l h = Some y \<Longrightarrow> history_max_len (snd (snd y)) = history_max_len h"
    and "(case read_keys 1 inp of
        (None, inp1) \<Rightarrow> Some (Some (int (len l)), l, h)
      | (Some [], inp1) \<Rightarrow> Some (Some (int (len l)), l, h)
      | (Some (c # cs), inp1) \<Rightarrow>
          (case (if of_char c = (9 :: nat) \<and> cb \<noteq> None then completeLine (the cb) inp1 l else (as_int c, l, inp1)) of
             (r, l1, inp2) \<Rightarrow>
               if of_char c = (9 :: nat) \<and> cb \<noteq> None \<and> r < 0 then Some (Some (int (len l1)), l1, h)
               else if of_char c = (9 :: nat) \<and> cb \<noteq> None \<and> r = 0 then f cb wok junk inp2 l1 h
               else
                 (case edit_key wok junk (char_of (r mod 256)) inp2 l1 h of
                    (Stop v l2, h1) \<Rightarrow> Some (Some v, l2, h1)
                  | (Crashed, h1) \<Rightarrow> Some (None, l1, h1)
                  | (Next l2 inp3, h1) \<Rightarrow> f cb wok junk inp3 l2 h1))) = Some y"
  then show "history_max_len (snd (snd y)) = history_max_len h"
    by (auto split: option.splits prod.splits list.splits if_splits key_result.splits dest!: edit_key_max)
qed

lemma edit_loop_max:
  "edit_loop cb wok junk inp l h = Some (v, l', h') \<Longrightarrow> history_max_len h' = history_max_len h"
  using edit_loop_max_aux by fastforce

lemma linenoise_max:
  "linenoise cb mem1 mem2 t prompt h = Some (r, h') \<Longrightarrow> history_max_len h' = history_max_len h"
  unfolding linenoise_def linenoiseRaw_def linenoiseEdit_def Let_def
  by (auto split: option.splits prod.splits if_splits dest: edit_loop_max)

lemma history_load_max: "history_max_len (snd (linenoiseHistoryLoad file h)) = history_max_len h"
proof -
  have "history_max_len (foldl (\<lambda>h b. snd (linenoiseHistoryAdd True True (cut_line b) h)) h bs) = history_max_len h" for bs
    by (induction bs arbitrary: h) simp_all
  then show ?thesis by (simp add: linenoiseHistoryLoad_def split: option.splits)
qed

lemma set_max_pos: "0 < history_max_len h \<Longrightarrow> 0 < history_max_len (snd (linenoiseHistorySetMaxLen mem1 n h))"
  by (auto simp: linenoiseHistorySetMaxLen_def Let_def split: option.splits)

text \<open>
  Every key keeps the editor well formed: the cursor stays inside the text and the text inside the
  buffer, ended by a NUL; nothing behind the place of that NUL changes; the index into the history stays
  in range and the history keeps its length.
\<close>

theorem keys_keep_editor_well_formed:
  assumes "ln_ok l" and "index_ok l h" and "lines_of h \<noteq> []"
    and "edit_key wok junk c inp l h = (Next l' inp', h')"
  shows "ln_ok l' \<and> index_ok l' h' \<and> length (lines_of h') = length (lines_of h) \<and> buflen l' = buflen l \<and>
    length (lbuf l') = length (lbuf l) \<and> drop (buflen l + 1) (lbuf l') = drop (buflen l + 1) (lbuf l)"
  using edit_key_ok [OF assms] by (auto simp: key_inv_def same_frame_def)

lemma keys_keep_editor_well_formed_witness:
  "\<exists>l'. edit_key True [] (CHR ''x'') []
     \<lparr>lbuf = [NUL, NUL, NUL], buflen = 2, plen = 0, pos = 0, len = 0, cols = 80, history_index = 0\<rparr>
     \<lparr>entries = Some [[]], history_max_len = 5\<rparr> = (Next l' [], \<lparr>entries = Some [[]], history_max_len = 5\<rparr>) \<and> ln_ok l'"
  using keys_keep_editor_well_formed
    [of "\<lparr>lbuf = [NUL, NUL, NUL], buflen = 2, plen = 0, pos = 0, len = 0, cols = 80, history_index = 0\<rparr>"
      "\<lparr>entries = Some [[]], history_max_len = 5\<rparr>" True "[]" "CHR ''x''" "[]"]
  by (simp add: edit_key_def linenoiseEditInsert_def ln_ok_def index_ok_def lines_of_def Let_def)

end
