(* ===== verification/Client.thy ===== *)
theory Client
  imports Daemon Linenoise
begin

text \<open>
  The command line client (src/src/tomato/tomato.c, repl.c, cmd.c, cmd_help.c): its arguments, its prompt, and
  the commands.  A command runs in a task of its own which never blocks, so that it has ended when the
  \<^verbatim>\<open>taskyield\<close> after its creation returns.
\<close>

section \<open>Commands\<close>

datatype help_topic = Help_bootstrap | Help_connect | Help_consensus | Help_control | Help_data | Help_general

text \<open>\<open>cmd\<close> is the memory from the command on; positions 5 and 8 are read whatever the length of the command.\<close>

definition TDB_cmd_help :: "string \<Rightarrow> help_topic" where
  "TDB_cmd_help cmd =
     (if cmd ! 5 = CHR ''b'' then Help_bootstrap
      else if cmd ! 5 = CHR ''c'' then
        (if cmd ! 8 = CHR ''n'' then Help_connect
         else if cmd ! 8 = CHR ''s'' then Help_consensus
         else if cmd ! 8 = CHR ''t'' then Help_control
         else Help_general)
      else if cmd ! 5 = CHR ''d'' then Help_data
      else Help_general)"

datatype cmd_result = Prints help_topic | Exits | Unknown_command

definition TDB_cmd_task :: "string \<Rightarrow> cmd_result" where
  "TDB_cmd_task cmd =
     (if starts_with ''help'' (c_string cmd) then Prints (TDB_cmd_help cmd)
      else if starts_with ''exit'' (c_string cmd) then Exits
      else Unknown_command)"

section \<open>The prompt\<close>

definition TDB_repl_completion :: "string \<Rightarrow> string list" where
  "TDB_repl_completion b =
     (if b ! 0 = CHR ''b'' then [''bootstrap'']
      else if b ! 0 = CHR ''c'' then [''connect'', ''consensus'', ''control'']
      else if b ! 0 = CHR ''d'' then [''data'']
      else if b ! 0 = CHR ''h'' then
        (if b ! 5 = CHR ''b'' then [''help bootstrap'']
         else if b ! 5 = CHR ''c'' then [''help connect'', ''help consensus'', ''help control'']
         else if b ! 5 = CHR ''d'' then [''help data'']
         else []) @ [''help'']
      else [])"

text \<open>
  The history file, in the home directory of the environment or of the password file; \<open>n\<close> is the size of the
  buffer for its path.  \<open>None\<close> when \<^verbatim>\<open>strcat\<close> runs over the end of it.
\<close>

definition TDB_repl_hist_path :: "nat \<Rightarrow> string option \<Rightarrow> string \<Rightarrow> (int \<times> string) option" where
  "TDB_repl_hist_path n home pw_dir =
     (let path = (case home of None \<Rightarrow> pw_dir | Some h \<Rightarrow> h) @ ''/.tomato_history'' in
      if length path < n then Some (TDB_SUCCESS, path) else None)"

datatype repl_event = Ran cmd_result | Set_history_len int | Unrecognized string

datatype repl_end = Repl_returns | Repl_exits int | Repl_crash

text \<open>
  The loop of \<^verbatim>\<open>TDB_repl_start\<close>: \<open>t k\<close> is the terminal as the \<open>k\<close>-th line is read, \<open>beyond k\<close> what lies in
  memory behind the copy of that line.  The file is rewritten after every command.
\<close>

partial_function (option) repl_loop ::
    "(nat \<Rightarrow> terminal) \<Rightarrow> (nat \<Rightarrow> string) \<Rightarrow> bool \<Rightarrow> nat \<Rightarrow> history \<Rightarrow> string option \<Rightarrow> repl_event list \<Rightarrow>
     (repl_end \<times> history \<times> string option \<times> repl_event list) option" where
  "repl_loop t beyond enabled k h file out =
     (case linenoise (Some TDB_repl_completion) True True (t k) ''tomato> '' h of
        None \<Rightarrow> None
      | Some (No_line, h1) \<Rightarrow> Some (Repl_returns, h1, file, out)
      | Some (Line_crash, h1) \<Rightarrow> Some (Repl_crash, h1, file, out)
      | Some (Line s, h1) \<Rightarrow>
          (if s \<noteq> [] \<and> hd s \<noteq> CHR ''/'' then
             let r = TDB_cmd_task (s @ NUL # beyond k) in
             if r = Exits then Some (Repl_exits 0, h1, file, out @ [Ran r])
             else if enabled then
               let h2 = snd (linenoiseHistoryAdd True True s h1) in
               repl_loop t beyond enabled (k + 1) h2 (Some (linenoiseHistorySave h2)) (out @ [Ran r])
             else repl_loop t beyond enabled (k + 1) h1 file (out @ [Ran r])
           else if starts_with ''/historylen'' s then
             let n = atoi (drop 11 s) in
             repl_loop t beyond enabled (k + 1) (snd (linenoiseHistorySetMaxLen True n h1)) file (out @ [Set_history_len n])
           else if s \<noteq> [] then repl_loop t beyond enabled (k + 1) h1 file (out @ [Unrecognized s])
           else repl_loop t beyond enabled (k + 1) h1 file out))"

definition TDB_repl_start ::
    "(nat \<Rightarrow> terminal) \<Rightarrow> (nat \<Rightarrow> string) \<Rightarrow> nat \<Rightarrow> string option \<Rightarrow> string \<Rightarrow> (string \<Rightarrow> string option) \<Rightarrow> history \<Rightarrow>
     (repl_end \<times> history \<times> string option \<times> repl_event list) option" where
  "TDB_repl_start t beyond n home pw_dir files h =
     (case TDB_repl_hist_path n home pw_dir of
        None \<Rightarrow> Some (Repl_crash, h, None, [])
      | Some (rc, path) \<Rightarrow>
          if rc = TDB_SUCCESS
          then repl_loop t beyond True 0 (snd (linenoiseHistoryLoad (files path) h)) (files path) []
          else repl_loop t beyond False 0 h None [])"

section \<open>The arguments\<close>

definition TDB_MAX_CMD_LEN :: nat where
  "TDB_MAX_CMD_LEN = 32768"

text \<open>The loop that joins the arguments in a buffer of \<open>n\<close> characters, \<open>at\<close> being the offset reached.\<close>

fun join_args :: "nat \<Rightarrow> nat \<Rightarrow> string \<Rightarrow> string list \<Rightarrow> string" where
  "join_args n at b [] = b"
| "join_args n at b (a # as) =
     (let k = n - at; s = a @ '' '';
          b' = (if k = 0 then b else take at b @ take (k - 1) s)
      in if k < length s then b' else join_args n (at + length s) b' as)"

text \<open>
  The debug option, with the level so far.  The log stream of the client is never set, so a message the
  level lets through is written to a null stream: \<open>None\<close>.
\<close>

definition client_debug :: "string \<Rightarrow> int \<Rightarrow> int option" where
  "client_debug s level =
     (let l = debug_option s level in if loglevel_code LOG_INFO \<le> l then None else Some l)"

datatype client_opt = Client_d string | Client_h | Client_p string | Client_s string | Client_v | Client_rejected

fun client_options :: "client_opt list \<Rightarrow> int \<Rightarrow> (repl_end, int) sum" where
  "client_options [] level = Inr level"
| "client_options (Client_d s # os) level =
     (case client_debug s level of None \<Rightarrow> Inl Repl_crash | Some l \<Rightarrow> client_options os l)"
| "client_options (Client_p s # os) level = client_options os level"
| "client_options (Client_s s # os) level = client_options os level"
| "client_options (Client_h # os) level = Inl (Repl_exits 0)"
| "client_options (Client_v # os) level = Inl (Repl_exits 0)"
| "client_options (Client_rejected # os) level = Inl (Repl_exits 1)"

text \<open>
  \<^verbatim>\<open>taskmain\<close>: \<open>args\<close> are the arguments behind the name of the program, \<open>opts\<close> the options found in them, and
  \<open>left\<close> tells whether an argument is left behind the options.  \<open>repl\<close> is the outcome of the prompt.
\<close>

definition client_main ::
    "string list \<Rightarrow> client_opt list \<Rightarrow> bool \<Rightarrow> string \<Rightarrow> (repl_end \<times> repl_event list) option \<Rightarrow> (repl_end \<times> repl_event list) option"
  where
  "client_main args opts left stack repl =
     (case client_options opts 0 of
        Inl e \<Rightarrow> Some (e, [])
      | Inr level \<Rightarrow>
          if left then
            let line = join_args TDB_MAX_CMD_LEN 0 [] args;
                r = TDB_cmd_task (line @ NUL # drop (length line + 1) stack)
            in Some (if r = Exits then Repl_exits 0 else Repl_returns, [Ran r])
          else repl)"

section \<open>Joining the arguments\<close>

lemma take_take_append: "length xs = at \<Longrightarrow> at < n \<Longrightarrow> take at xs @ take (n - at - 1) ys = take (n - 1) (xs @ ys)"
  by (simp add: take_append)

lemma take_long: "m \<le> length xs \<Longrightarrow> take m (xs @ ys) = take m xs"
  by simp

lemma join_args_take:
  assumes "at \<le> n" and "0 < n" and "b = take (n - 1) w" and "length w = at"
  shows "join_args n at b args = take (n - 1) (w @ concat (map (\<lambda>a. a @ '' '') args))"
  using assms
proof (induction args arbitrary: at b w)
  case Nil
  then show ?case by simp
next
  case (Cons a args)
  define k where "k = n - at"
  define b' where "b' = (if k = 0 then b else take at b @ take (k - 1) (a @ '' ''))"
  have step: "join_args n at b (a # args) =
      (if k < length (a @ '' '') then b' else join_args n (at + length (a @ '' '')) b' args)"
    by (simp only: join_args.simps Let_def k_def b'_def)
  have b': "b' = take (n - 1) (w @ a @ '' '')"
  proof (cases "k = 0")
    case True
    then have "n - 1 \<le> length w" using Cons.prems by (simp add: k_def)
    then show ?thesis using True Cons.prems(3) by (simp add: b'_def)
  next
    case False
    then have "take at b = w" using Cons.prems by (simp add: k_def)
    then show ?thesis using False Cons.prems(4) by (simp add: b'_def k_def)
  qed
  show ?case
  proof (cases "k < length (a @ '' '')")
    case True
    then have "n - 1 \<le> length (w @ a @ '' '')" using Cons.prems(4) by (simp add: k_def)
    then have "take (n - 1) ((w @ a @ '' '') @ concat (map (\<lambda>a. a @ '' '') args)) = take (n - 1) (w @ a @ '' '')"
      by (rule take_long)
    then show ?thesis unfolding step using True b' by simp
  next
    case False
    then have "at + length (a @ '' '') \<le> n" using Cons.prems(1) by (simp add: k_def)
    from Cons.IH [OF this Cons.prems(2) b'] show ?thesis
      unfolding step using False Cons.prems(4) by simp
  qed
qed

text \<open>
  The client joins its arguments as if it wrote them all, each followed by a blank, into one buffer of
  unlimited size and then cut it to what the real buffer holds besides the NUL.
\<close>

theorem arguments_joined:
  "join_args TDB_MAX_CMD_LEN 0 [] args = take (TDB_MAX_CMD_LEN - 1) (concat (map (\<lambda>a. a @ '' '') args))"
  using join_args_take [of 0 TDB_MAX_CMD_LEN "[]" "[]" args] by (simp add: TDB_MAX_CMD_LEN_def)

section \<open>Completions and commands\<close>

definition help_topics :: "(string \<times> help_topic) list" where
  "help_topics =
     [(''help bootstrap'', Help_bootstrap), (''help connect'', Help_connect), (''help consensus'', Help_consensus),
      (''help control'', Help_control), (''help data'', Help_data)]"

text \<open>
  What the completions offer is understood only for help: each \<^verbatim>\<open>help\<close> with a topic prints that topic,
  while the bare words complete to commands the client does not know.
\<close>

theorem completions_as_commands:
  "TDB_repl_completion b = [] \<or>
   (\<exists>topics. TDB_repl_completion b = topics @ [''help''] \<and>
      list_all (\<lambda>c. map_option Prints (map_of help_topics c) = Some (TDB_cmd_task (c @ NUL # rest))) topics) \<or>
   list_all (\<lambda>c. TDB_cmd_task (c @ NUL # rest) = Unknown_command) (TDB_repl_completion b)"
  by (simp add: TDB_repl_completion_def TDB_cmd_task_def TDB_cmd_help_def starts_with_def c_string_def help_topics_def)

text \<open>A bare \<^verbatim>\<open>help\<close> prints whatever the character behind the end of the command selects.\<close>

lemma bare_help_reads_on:
  "TDB_cmd_task (''help'' @ NUL # CHR ''b'' # rest) = Prints Help_bootstrap"
  "TDB_cmd_task (''help'' @ NUL # CHR ''?'' # rest) = Prints Help_general"
  by (simp_all add: TDB_cmd_task_def TDB_cmd_help_def starts_with_def c_string_def)

text \<open>
  Options in front of a command hide it: the joined line starts with the option, so the client runs no
  command but an unknown one, whatever follows.
\<close>

theorem options_hide_command:
  assumes "args = (CHR ''-'' # opt) # rest" and "client_options opts 0 = Inr level"
  shows "client_main args opts True stack repl = Some (Repl_returns, [Ran Unknown_command])"
proof -
  define line where "line = join_args TDB_MAX_CMD_LEN 0 [] args"
  have "line = take (TDB_MAX_CMD_LEN - 1) (concat (map (\<lambda>a. a @ '' '') args))"
    using join_args_take [of 0 TDB_MAX_CMD_LEN "[]" "[]" args] by (simp add: line_def TDB_MAX_CMD_LEN_def)
  then obtain tail where "line = CHR ''-'' # tail" using assms(1) by (auto simp: TDB_MAX_CMD_LEN_def)
  then have "TDB_cmd_task (line @ NUL # drop (length line + 1) stack) = Unknown_command"
    by (simp add: TDB_cmd_task_def starts_with_def c_string_def)
  then show ?thesis using assms(2) by (simp add: client_main_def line_def [symmetric] Let_def)
qed

lemma options_hide_command_witness:
  "client_main [''-d'', ''err'', ''help''] [Client_d ''err''] True [] None = Some (Repl_returns, [Ran Unknown_command])"
  by (rule options_hide_command [where level = 2])
    (simp_all add: client_debug_def debug_option_def starts_with_def)

section \<open>The prompt ends\<close>

lemma completions_fit_repl: "completions_fit LINENOISE_MAX_LINE (Some TDB_repl_completion)"
  by (auto simp: completions_fit_def TDB_repl_completion_def LINENOISE_MAX_LINE_def)

lemma end_of_input:
  "t_text t = [] \<Longrightarrow> \<not> t_tty t \<Longrightarrow> linenoise cb True True t prompt h = Some (No_line, h)"
  by (simp add: linenoise_def linenoiseRaw_def)

definition repl_done :: "(repl_end \<times> history \<times> string option \<times> repl_event list) option \<Rightarrow> bool" where
  "repl_done res \<longleftrightarrow> (\<exists>e h f out. res = Some (e, h, f, out) \<and>
     (e = Repl_exits 0 \<and> Ran Exits \<in> set out \<or> e = Repl_returns \<and> Ran Exits \<notin> set out))"

lemma repl_loop_ends:
  assumes "\<And>k. LINENOISE_MAX_LINE < length (t_stack (t k))" and "t_text (t n) = []" and "\<not> t_tty (t n)"
    and "k \<le> n" and "0 < history_max_len h" and "Ran Exits \<notin> set out"
  shows "repl_done (repl_loop t beyond enabled k h hf out)"
  using assms(4-6)
proof (induction k arbitrary: h hf out rule: inc_induct)
  case base
  then show ?case
    by (subst repl_loop.simps) (simp add: end_of_input [OF assms(2,3)] repl_done_def)
next
  case (step k)
  obtain r h1 where r: "linenoise (Some TDB_repl_completion) True True (t k) ''tomato> '' h = Some (r, h1)" "r \<noteq> Line_crash"
    using line_is_read_lines [OF step.prems(1) completions_fit_repl assms(1)] by blast
  have m: "0 < history_max_len h1" using linenoise_max [OF r(1)] step.prems(1) by simp
  note IH = step.IH
  show ?case
  proof (cases r)
    case No_line
    then show ?thesis using r step.prems(2) by (subst repl_loop.simps) (simp add: repl_done_def)
  next
    case (Line s)
    define c where "c = TDB_cmd_task (s @ NUL # beyond k)"
    have step_eq: "repl_loop t beyond enabled k h hf out =
        (if s \<noteq> [] \<and> hd s \<noteq> CHR ''/'' then
           if c = Exits then Some (Repl_exits 0, h1, hf, out @ [Ran c])
           else if enabled then
             repl_loop t beyond enabled (k + 1) (snd (linenoiseHistoryAdd True True s h1))
               (Some (linenoiseHistorySave (snd (linenoiseHistoryAdd True True s h1)))) (out @ [Ran c])
           else repl_loop t beyond enabled (k + 1) h1 hf (out @ [Ran c])
         else if starts_with ''/historylen'' s then
           repl_loop t beyond enabled (k + 1) (snd (linenoiseHistorySetMaxLen True (atoi (drop 11 s)) h1)) hf
             (out @ [Set_history_len (atoi (drop 11 s))])
         else if s \<noteq> [] then repl_loop t beyond enabled (k + 1) h1 hf (out @ [Unrecognized s])
         else repl_loop t beyond enabled (k + 1) h1 hf out)"
      using r Line by (subst repl_loop.simps) (simp add: Let_def c_def)
    show ?thesis unfolding step_eq
      using m step.prems(2) IH set_max_pos [OF m] by (auto simp: repl_done_def [of "Some _"])
  qed (use r in simp)
qed

text \<open>
  The prompt ends.  When the input comes to its end after some lines, whatever was typed before, the
  prompt returns, or exits with success exactly when an \<^verbatim>\<open>exit\<close> command ran; it never crashes, provided
  there is memory and the path of the history file fits.
\<close>

theorem repl_ends:
  assumes "\<And>k. LINENOISE_MAX_LINE < length (t_stack (t k))" and "t_text (t n) = []" and "\<not> t_tty (t n)"
    and "0 < history_max_len h" and "length (case home of None \<Rightarrow> pw_dir | Some d \<Rightarrow> d) + 16 < m"
  shows "\<exists>e h' f out. TDB_repl_start t beyond m home pw_dir files h = Some (e, h', f, out) \<and>
    (e = Repl_exits 0 \<and> Ran Exits \<in> set out \<or> e = Repl_returns \<and> Ran Exits \<notin> set out)"
proof -
  obtain path where path: "TDB_repl_hist_path m home pw_dir = Some (TDB_SUCCESS, path)"
    using assms(5) by (simp add: TDB_repl_hist_path_def Let_def)
  have "repl_done (repl_loop t beyond True 0 (snd (linenoiseHistoryLoad (files path) h)) (files path) [])"
    by (rule repl_loop_ends [where n = n]) (use assms(1-4) in \<open>simp_all add: history_load_max\<close>)
  then show ?thesis using path by (simp add: TDB_repl_start_def repl_done_def)
qed

lemma repl_ends_witness:
  "\<exists>e h' f out. TDB_repl_start (\<lambda>k. if k = 0 then demo_terminal [''exit'' @ [CR]] else (demo_terminal [])\<lparr>t_tty := False\<rparr>)
     (\<lambda>k. []) 256 (Some ''/root'') [] (\<lambda>p. None) history_start = Some (e, h', f, out) \<and>
     (e = Repl_exits 0 \<and> Ran Exits \<in> set out \<or> e = Repl_returns \<and> Ran Exits \<notin> set out)"
  by (rule repl_ends [where n = 1])
    (simp_all add: demo_terminal_def LINENOISE_MAX_LINE_def history_start_def LINENOISE_DEFAULT_HISTORY_MAX_LEN_def)

end
