(* ===== verification/Links.thy ===== *)
theory Links
  imports Tdb_Prelude
begin

text \<open>
  Linked structures over element pointers, for the list and hash macros of src/src/common/ut and the
  children lists of src/src/common/halloc: a segment followed through a \<^verbatim>\<open>next\<close> field, a segment linked both
  ways, and what pushing, appending, removing and splicing do to them.  The fields are given as
  functions from pointers, so that the lemmas serve every record that carries such links.
\<close>

section \<open>Segments\<close>

text \<open>Following \<open>nx\<close> from the first element of \<open>xs\<close> visits \<open>xs\<close> and then \<open>e\<close>.\<close>

fun nseg :: "('p \<Rightarrow> 'p option) \<Rightarrow> 'p list \<Rightarrow> 'p option \<Rightarrow> bool" where
  "nseg nx [] e = True"
| "nseg nx (x # xs) e = (nx x = first_or xs e \<and> nseg nx xs e)"

text \<open>Linked both ways, entered from \<open>p\<close> and left towards \<open>e\<close>.\<close>

fun dseg :: "('p \<Rightarrow> 'p option) \<Rightarrow> ('p \<Rightarrow> 'p option) \<Rightarrow> 'p option \<Rightarrow> 'p list \<Rightarrow> 'p option \<Rightarrow> bool" where
  "dseg nx pv p [] e = True"
| "dseg nx pv p (x # xs) e = (pv x = p \<and> nx x = first_or xs e \<and> dseg nx pv (Some x) xs e)"

lemma nseg_cong: "(\<And>x. x \<in> set xs \<Longrightarrow> nx' x = nx x) \<Longrightarrow> nseg nx' xs e = nseg nx xs e"
  by (induction xs) auto

lemma dseg_cong:
  "(\<And>x. x \<in> set xs \<Longrightarrow> nx' x = nx x) \<Longrightarrow> (\<And>x. x \<in> set xs \<Longrightarrow> pv' x = pv x) \<Longrightarrow>
   dseg nx' pv' p xs e = dseg nx pv p xs e"
  by (induction xs arbitrary: p) auto

lemma nseg_upd [link_simps]: "x \<notin> set xs \<Longrightarrow> nseg (nx(x := v)) xs e = nseg nx xs e"
  by (intro nseg_cong) auto

lemma dseg_upd_next [link_simps]: "x \<notin> set xs \<Longrightarrow> dseg (nx(x := v)) pv p xs e = dseg nx pv p xs e"
  by (intro dseg_cong) auto

lemma dseg_upd_prev [link_simps]: "x \<notin> set xs \<Longrightarrow> dseg nx (pv(x := v)) p xs e = dseg nx pv p xs e"
  by (intro dseg_cong) auto

lemma nseg_append [link_simps]:
  "nseg nx (xs @ ys) e \<longleftrightarrow> nseg nx xs (first_or ys e) \<and> nseg nx ys e"
  by (induction xs) (auto simp: link_simps)

lemma dseg_append [link_simps]:
  "dseg nx pv p (xs @ ys) e \<longleftrightarrow> dseg nx pv p xs (first_or ys e) \<and> dseg nx pv (last_or p xs) ys e"
  by (induction xs arbitrary: p) (auto simp: link_simps)

lemma dseg_nseg: "dseg nx pv p xs e \<Longrightarrow> nseg nx xs e"
  by (induction xs arbitrary: p) auto

lemma first_or_None_unique:
  "nseg nx xs None \<Longrightarrow> nseg nx ys None \<Longrightarrow> first_or xs None = first_or ys None \<Longrightarrow> xs = ys"
proof (induction xs arbitrary: ys)
  case Nil
  then show ?case by (cases ys) auto
next
  case (Cons x xs)
  then show ?case by (cases ys) auto
qed

text \<open>Following a null-ended chain never returns to its start: the elements are distinct.\<close>

lemma nseg_distinct: "nseg nx xs None \<Longrightarrow> distinct xs"
proof (induction xs)
  case Nil
  then show ?case by simp
next
  case (Cons x xs)
  have "x \<notin> set xs"
  proof
    assume "x \<in> set xs"
    then obtain us vs where xs: "xs = us @ x # vs" by (meson split_list)
    with Cons.prems have "nseg nx (x # vs) None" "nseg nx (x # us @ x # vs) None" by (auto simp: link_simps)
    then have "x # vs = x # us @ x # vs" by (rule first_or_None_unique) simp
    then show False by simp
  qed
  with Cons show ?case by simp
qed

lemma dseg_distinct: "dseg nx pv p xs None \<Longrightarrow> distinct xs"
  by (blast dest: dseg_nseg nseg_distinct)

section \<open>Pushing, appending, removing\<close>

text \<open>A new first element.\<close>

definition push_next :: "'p \<Rightarrow> 'p option \<Rightarrow> ('p \<Rightarrow> 'p option) \<Rightarrow> 'p \<Rightarrow> 'p option" where
  "push_next t h nx = nx(t := h)"

definition push_prev :: "'p \<Rightarrow> 'p option \<Rightarrow> ('p \<Rightarrow> 'p option) \<Rightarrow> 'p \<Rightarrow> 'p option" where
  "push_prev t h pv = (case h of None \<Rightarrow> pv(t := None) | Some u \<Rightarrow> (pv(t := None))(u := Some t))"

lemma dseg_push:
  assumes "dseg nx pv None xs None" and "t \<notin> set xs"
  shows "dseg (push_next t (first_or xs None) nx) (push_prev t (first_or xs None) pv) None (t # xs) None"
proof (cases xs)
  case Nil
  then show ?thesis by (simp add: push_next_def push_prev_def)
next
  case (Cons u us)
  with assms dseg_distinct [OF assms(1)] show ?thesis
    by (auto simp: push_next_def push_prev_def link_simps)
qed

text \<open>A new last element after the tail.\<close>

definition append_next :: "'p option \<Rightarrow> 'p \<Rightarrow> ('p \<Rightarrow> 'p option) \<Rightarrow> 'p \<Rightarrow> 'p option" where
  "append_next l t nx = (case l of None \<Rightarrow> nx(t := None) | Some u \<Rightarrow> (nx(t := None))(u := Some t))"

lemma dseg_snoc:
  assumes "dseg nx pv None xs None" and "t \<notin> set xs"
  shows "dseg (append_next (last_or None xs) t nx) (pv(t := last_or None xs)) None (xs @ [t]) None"
proof (cases xs rule: rev_cases)
  case Nil
  then show ?thesis by (simp add: append_next_def)
next
  case (snoc ys u)
  with assms dseg_distinct [OF assms(1)] show ?thesis
    by (auto simp: append_next_def link_simps)
qed

text \<open>Taking an element out: its neighbours are joined.\<close>

definition unlink_next :: "('p \<Rightarrow> 'p option) \<Rightarrow> ('p \<Rightarrow> 'p option) \<Rightarrow> 'p \<Rightarrow> 'p \<Rightarrow> 'p option" where
  "unlink_next nx pv t = (case pv t of None \<Rightarrow> nx | Some p \<Rightarrow> nx(p := nx t))"

definition unlink_prev :: "('p \<Rightarrow> 'p option) \<Rightarrow> ('p \<Rightarrow> 'p option) \<Rightarrow> 'p \<Rightarrow> 'p \<Rightarrow> 'p option" where
  "unlink_prev nx pv t = (case nx t of None \<Rightarrow> pv | Some n \<Rightarrow> pv(n := pv t))"

lemma dseg_join_next:
  assumes "dseg nx pv None xs (Some t)" and "distinct xs"
  shows "dseg (case last_or None xs of None \<Rightarrow> nx | Some p \<Rightarrow> nx(p := e)) pv None xs e"
proof (cases xs rule: rev_cases)
  case Nil
  then show ?thesis by simp
next
  case (snoc us p)
  with assms show ?thesis by (auto simp: link_simps)
qed

lemma dseg_join_prev:
  assumes "dseg nx pv (Some t) ys None"
  shows "dseg nx (case first_or ys None of None \<Rightarrow> pv | Some n \<Rightarrow> pv(n := p)) p ys None"
  using assms dseg_distinct [OF assms] by (cases ys) (auto simp: link_simps)

lemma dseg_unlink:
  assumes seg: "dseg nx pv None (xs @ t # ys) None"
  shows "dseg (unlink_next nx pv t) (unlink_prev nx pv t) None (xs @ ys) None"
proof -
  have d: "distinct (xs @ t # ys)" using seg by (rule dseg_distinct)
  have s: "dseg nx pv None xs (Some t)" "pv t = last_or None xs" "nx t = first_or ys None"
      "dseg nx pv (Some t) ys None"
    using seg by (auto simp: link_simps)
  have n: "unlink_next nx pv t = (case last_or None xs of None \<Rightarrow> nx | Some p \<Rightarrow> nx(p := first_or ys None))"
    and p: "unlink_prev nx pv t = (case first_or ys None of None \<Rightarrow> pv | Some n \<Rightarrow> pv(n := last_or None xs))"
    using s by (simp_all add: unlink_next_def unlink_prev_def cong: option.case_cong)
  have "dseg (unlink_next nx pv t) pv None xs (first_or ys None)"
    using dseg_join_next [OF s(1)] d by (simp add: n)
  moreover have "\<And>x. x \<in> set xs \<Longrightarrow> unlink_prev nx pv t x = pv x"
    using d by (cases ys) (auto simp: p)
  ultimately have "dseg (unlink_next nx pv t) (unlink_prev nx pv t) None xs (first_or ys None)"
    by (subst dseg_cong [where nx = "unlink_next nx pv t" and pv = pv]) auto
  moreover have "dseg nx (unlink_prev nx pv t) (last_or None xs) ys None"
    using dseg_join_prev [OF s(4)] by (simp add: p)
  moreover have "\<And>x. x \<in> set ys \<Longrightarrow> unlink_next nx pv t x = nx x"
    using d by (cases xs rule: rev_cases) (auto simp: n link_simps)
  ultimately have "dseg (unlink_next nx pv t) (unlink_prev nx pv t) None xs (first_or ys None)"
      "dseg (unlink_next nx pv t) (unlink_prev nx pv t) (last_or None xs) ys None"
    by (auto simp: dseg_cong [where nx' = "unlink_next nx pv t" and nx = nx])
  then show ?thesis by (simp add: link_simps)
qed

lemma first_or_remove:
  "dseg nx pv None (xs @ t # ys) None \<Longrightarrow>
   (if first_or (xs @ t # ys) None = Some t then nx t else first_or (xs @ t # ys) None) = first_or (xs @ ys) None"
  using dseg_distinct [of nx pv None "xs @ t # ys"] by (cases xs) (auto simp: link_simps)

lemma last_or_remove:
  assumes "dseg nx pv None (xs @ t # ys) None"
  shows "(if last_or None (xs @ t # ys) = Some t then pv t else last_or None (xs @ t # ys)) = last_or None (xs @ ys)"
proof (cases ys rule: rev_cases)
  case Nil
  with assms show ?thesis by (auto simp: link_simps)
next
  case (snoc vs v)
  with dseg_distinct [OF assms] show ?thesis by (auto simp: link_simps)
qed

text \<open>Elements other than the neighbours keep their links.\<close>

lemma unlink_next_other:
  "dseg nx pv None (xs @ t # ys) None \<Longrightarrow> x \<notin> set (xs @ ys) \<Longrightarrow> unlink_next nx pv t x = nx x"
  by (cases xs rule: rev_cases) (auto simp: unlink_next_def link_simps)

lemma unlink_prev_other:
  "dseg nx pv None (xs @ t # ys) None \<Longrightarrow> x \<notin> set (xs @ ys) \<Longrightarrow> unlink_prev nx pv t x = pv x"
  by (cases ys) (auto simp: unlink_prev_def link_simps)

end
