(* ===== verification/Ut_Hashfun.thy ===== *)
theory Ut_Hashfun
  imports Tdb_Prelude
begin

text \<open>
  The hash functions of src/src/common/ut/uthash.h, any of which can be given for \<^verbatim>\<open>HASH_FCN\<close>: each
  turns a key and a number of buckets into a hash value and a bucket.  The locale \<open>hash_function\<close> is what
  the table relies on; every function of the file is an interpretation of it.
\<close>

section \<open>The hash functions\<close>

text \<open>\<^verbatim>\<open>HASH_TO_BKT\<close>: the number of buckets is a power of two.\<close>

definition HASH_TO_BKT :: "32 word \<Rightarrow> 32 word \<Rightarrow> 32 word" where
  "HASH_TO_BKT hv num_bkts = hv AND (num_bkts - 1)"

text \<open>A key is hashed over its length as an \<^verbatim>\<open>unsigned\<close>; \<open>schar\<close> and \<open>uchar\<close> widen a character to one.\<close>

definition unsigned_len :: "byte list \<Rightarrow> byte list" where
  "unsigned_len key = take (take_bit 32 (length key)) key"

definition schar :: "byte \<Rightarrow> 32 word" where
  "schar b = of_int (sint b)"

definition uchar :: "byte \<Rightarrow> 32 word" where
  "uchar b = of_nat (unat b)"

text \<open>Byte \<open>i\<close> of the key, shifted; nothing past its end.\<close>

definition key_byte :: "byte list \<Rightarrow> nat \<Rightarrow> nat \<Rightarrow> 32 word" where
  "key_byte key i s = (if i < length key then push_bit s (uchar (key ! i)) else 0)"

definition HASH_BER :: "byte list \<Rightarrow> 32 word \<Rightarrow> 32 word \<times> 32 word" where
  "HASH_BER key num_bkts =
     (let hv = foldl (\<lambda>hv b. hv * 33 + schar b) 0 (unsigned_len key) in (hv, hv AND (num_bkts - 1)))"

definition HASH_SAX :: "byte list \<Rightarrow> 32 word \<Rightarrow> 32 word \<times> 32 word" where
  "HASH_SAX key num_bkts =
     (let hv = foldl (\<lambda>hv b. hv XOR (push_bit 5 hv + drop_bit 2 hv + schar b)) 0 (unsigned_len key)
      in (hv, hv AND (num_bkts - 1)))"

definition HASH_FNV :: "byte list \<Rightarrow> 32 word \<Rightarrow> 32 word \<times> 32 word" where
  "HASH_FNV key num_bkts =
     (let hv = foldl (\<lambda>hv b. (hv * 16777619) XOR schar b) 2166136261 (unsigned_len key)
      in (hv, hv AND (num_bkts - 1)))"

definition oat_step :: "32 word \<Rightarrow> byte \<Rightarrow> 32 word" where
  "oat_step hv b =
     (let hv1 = hv + schar b; hv2 = hv1 + push_bit 10 hv1 in hv2 XOR drop_bit 6 hv2)"

definition HASH_OAT :: "byte list \<Rightarrow> 32 word \<Rightarrow> 32 word \<times> 32 word" where
  "HASH_OAT key num_bkts =
     (let h0 = foldl oat_step 0 (unsigned_len key);
          h1 = h0 + push_bit 3 h0;
          h2 = h1 XOR drop_bit 11 h1;
          hv = h2 + push_bit 15 h2
      in (hv, hv AND (num_bkts - 1)))"

definition HASH_JEN_MIX :: "32 word \<times> 32 word \<times> 32 word \<Rightarrow> 32 word \<times> 32 word \<times> 32 word" where
  "HASH_JEN_MIX s =
     (case s of (a, b, c) \<Rightarrow>
        let a = (a - b - c) XOR drop_bit 13 c;
            b = (b - c - a) XOR push_bit 8 a;
            c = (c - a - b) XOR drop_bit 13 b;
            a = (a - b - c) XOR drop_bit 12 c;
            b = (b - c - a) XOR push_bit 16 a;
            c = (c - a - b) XOR drop_bit 5 b;
            a = (a - b - c) XOR drop_bit 3 c;
            b = (b - c - a) XOR push_bit 10 a;
            c = (c - a - b) XOR drop_bit 15 b
        in (a, b, c))"

text \<open>Blocks of twelve bytes.\<close>

fun jen_blocks :: "byte list \<Rightarrow> 32 word \<times> 32 word \<times> 32 word \<Rightarrow> byte list \<times> 32 word \<times> 32 word \<times> 32 word" where
  "jen_blocks key (i, j, hv) =
     (if 12 \<le> length key
      then jen_blocks (drop 12 key)
             (HASH_JEN_MIX
               (i + (key_byte key 0 0 + key_byte key 1 8 + key_byte key 2 16 + key_byte key 3 24),
                j + (key_byte key 4 0 + key_byte key 5 8 + key_byte key 6 16 + key_byte key 7 24),
                hv + (key_byte key 8 0 + key_byte key 9 8 + key_byte key 10 16 + key_byte key 11 24)))
      else (key, i, j, hv))"

declare jen_blocks.simps [simp del]

text \<open>The cases of the switch fall through: a byte is added whenever there is one.\<close>

definition HASH_JEN :: "byte list \<Rightarrow> 32 word \<Rightarrow> 32 word \<times> 32 word" where
  "HASH_JEN key num_bkts =
     (case jen_blocks (unsigned_len key) (0x9e3779b9, 0x9e3779b9, 0xfeedbeef) of
        (rest, i, j, hv) \<Rightarrow>
          let hv1 = hv + of_nat (length key) + key_byte rest 10 24 + key_byte rest 9 16 + key_byte rest 8 8;
              j1 = j + key_byte rest 7 24 + key_byte rest 6 16 + key_byte rest 5 8 + key_byte rest 4 0;
              i1 = i + key_byte rest 3 24 + key_byte rest 2 16 + key_byte rest 1 8 + key_byte rest 0 0
          in case HASH_JEN_MIX (i1, j1, hv1) of (i2, j2, hv2) \<Rightarrow> (hv2, hv2 AND (num_bkts - 1)))"

definition get16bits :: "byte list \<Rightarrow> nat \<Rightarrow> 32 word" where
  "get16bits key i = key_byte key (i + 1) 8 + key_byte key i 0"

fun sfh_blocks :: "byte list \<Rightarrow> 32 word \<Rightarrow> byte list \<times> 32 word" where
  "sfh_blocks key hv =
     (if 4 \<le> length key
      then let hv1 = hv + get16bits key 0;
               tmp = push_bit 11 (get16bits key 2) XOR hv1;
               hv2 = push_bit 16 hv1 XOR tmp
           in sfh_blocks (drop 4 key) (hv2 + drop_bit 11 hv2)
      else (key, hv))"

declare sfh_blocks.simps [simp del]

definition sfh_end :: "byte list \<Rightarrow> 32 word \<Rightarrow> 32 word" where
  "sfh_end key hv =
     (if length key = 3 then
        (let h1 = hv + get16bits key 0; h2 = h1 XOR push_bit 16 h1; h3 = h2 XOR key_byte key 2 18
         in h3 + drop_bit 11 h3)
      else if length key = 2 then
        (let h1 = hv + get16bits key 0; h2 = h1 XOR push_bit 11 h1 in h2 + drop_bit 17 h2)
      else if length key = 1 then
        (let h1 = hv + key_byte key 0 0; h2 = h1 XOR push_bit 10 h1 in h2 + drop_bit 1 h2)
      else hv)"

definition HASH_SFH :: "byte list \<Rightarrow> 32 word \<Rightarrow> 32 word \<times> 32 word" where
  "HASH_SFH key num_bkts =
     (case sfh_blocks (unsigned_len key) 0xcafebabe of (rest, hv) \<Rightarrow>
        let h0 = sfh_end rest hv;
            h1 = h0 XOR push_bit 3 h0;
            h2 = h1 + drop_bit 5 h1;
            h3 = h2 XOR push_bit 4 h2;
            h4 = h3 + drop_bit 17 h3;
            h5 = h4 XOR push_bit 25 h4;
            h6 = h5 + drop_bit 6 h5
        in (h6, h6 AND (num_bkts - 1)))"

definition MUR_ROTL32 :: "32 word \<Rightarrow> nat \<Rightarrow> 32 word" where
  "MUR_ROTL32 x r = push_bit r x OR drop_bit (32 - r) x"

definition MUR_FMIX :: "32 word \<Rightarrow> 32 word" where
  "MUR_FMIX h =
     (let h = h XOR drop_bit 16 h;
          h = h * 0x85ebca6b;
          h = h XOR drop_bit 13 h;
          h = h * 0xc2b2ae35
      in h XOR drop_bit 16 h)"

text \<open>Blocks of four bytes are read as little endian words, the case of the intel processors.\<close>

definition mur_scramble :: "32 word \<Rightarrow> 32 word" where
  "mur_scramble k = MUR_ROTL32 (k * 0xcc9e2d51) 15 * 0x1b873593"

fun mur_blocks :: "byte list \<Rightarrow> 32 word \<Rightarrow> byte list \<times> 32 word" where
  "mur_blocks key h =
     (if 4 \<le> length key
      then let k1 = key_byte key 0 0 + key_byte key 1 8 + key_byte key 2 16 + key_byte key 3 24
           in mur_blocks (drop 4 key) (MUR_ROTL32 (h XOR mur_scramble k1) 13 * 5 + 0xe6546b64)
      else (key, h))"

declare mur_blocks.simps [simp del]

definition HASH_MUR :: "byte list \<Rightarrow> 32 word \<Rightarrow> 32 word \<times> 32 word" where
  "HASH_MUR key num_bkts =
     (case mur_blocks key 0xf88D5353 of (rest, h1) \<Rightarrow>
        let h2 = (if rest = [] then h1
                  else h1 XOR mur_scramble (key_byte rest 2 16 XOR key_byte rest 1 8 XOR key_byte rest 0 0));
            hv = MUR_FMIX (h2 XOR of_nat (length key))
        in (hv, hv AND (num_bkts - 1)))"

text \<open>
  What the table needs of \<^verbatim>\<open>HASH_FCN\<close>: the hash value does not depend on the number of buckets, and the
  bucket is the one \<^verbatim>\<open>HASH_TO_BKT\<close> gives for it.
\<close>

locale hash_function =
  fixes fcn :: "byte list \<Rightarrow> 32 word \<Rightarrow> 32 word \<times> 32 word"
  assumes fcn_hash: "fst (fcn key n) = fst (fcn key n')"
    and fcn_bucket: "snd (fcn key n) = HASH_TO_BKT (fst (fcn key n)) n"

interpretation hash_ber: hash_function HASH_BER
  by unfold_locales (simp_all add: HASH_BER_def HASH_TO_BKT_def Let_def)

interpretation hash_sax: hash_function HASH_SAX
  by unfold_locales (simp_all add: HASH_SAX_def HASH_TO_BKT_def Let_def)

interpretation hash_fnv: hash_function HASH_FNV
  by unfold_locales (simp_all add: HASH_FNV_def HASH_TO_BKT_def Let_def)

interpretation hash_oat: hash_function HASH_OAT
  by unfold_locales (simp_all add: HASH_OAT_def HASH_TO_BKT_def Let_def)

interpretation hash_jen: hash_function HASH_JEN
  by unfold_locales (simp_all add: HASH_JEN_def HASH_TO_BKT_def Let_def split: prod.split)

interpretation hash_sfh: hash_function HASH_SFH
  by unfold_locales (simp_all add: HASH_SFH_def HASH_TO_BKT_def Let_def split: prod.split)

interpretation hash_mur: hash_function HASH_MUR
  by unfold_locales (simp_all add: HASH_MUR_def HASH_TO_BKT_def Let_def split: prod.split)

end
