(* ===== verification/Ut_Hash.thy ===== *)
theory Ut_Hash
  imports Links Ut_Hashfun
begin

text \<open>
  The hash table of src/src/common/ut/uthash.h, which holds the replicas of the server by uuid.  An
  element carries a handle with two pairs of links: one in the order the elements were added, one in
  the chain of its bucket.  The macros are functions on a state of the head pointer, the table and the
  handles; the hash function is an argument \<open>fcn\<close>.  Requests for memory are answered by \<open>mem\<close>.

  The lemmas show that the table represents a list of elements in the order they were added
  (\<open>hash_ok\<close>), through every expansion of the buckets, and that the macros are the operations of a map
  from keys to elements (locale \<open>key_map\<close>).
\<close>

section \<open>Handles, buckets and tables\<close>

type_synonym eptr = nat

record UT_hash_handle =
  hh_prev_elt :: "eptr option"
  hh_next_elt :: "eptr option"
  hh_prev :: "eptr option"
  hh_next :: "eptr option"
  hh_key :: "byte list"
  hh_keylen :: "32 word"
  hh_hashv :: "32 word"

type_synonym handles = "eptr \<Rightarrow> UT_hash_handle"

record UT_hash_bucket =
  hh_head :: "eptr option"
  bkt_count :: "32 word"
  expand_mult :: "32 word"

definition empty_bucket :: UT_hash_bucket where
  "empty_bucket = \<lparr>hh_head = None, bkt_count = 0, expand_mult = 0\<rparr>"

record UT_hash_table =
  buckets :: "UT_hash_bucket list"
  num_buckets :: "32 word"
  log2_num_buckets :: "32 word"
  num_items :: "32 word"
  ht_tail :: "eptr option"
  ideal_chain_maxlen :: "32 word"
  nonideal_items :: "32 word"
  ineff_expands :: "32 word"
  noexpand :: "32 word"

text \<open>The variable that is the head of the table, the table its handle points to, and all handles.\<close>

record uthash =
  ht_head :: "eptr option"
  ht_tbl :: UT_hash_table
  ht_hands :: handles

text \<open>
  The requests for memory the macros make, the last one for so many buckets; a failed one ends the
  process (\<^verbatim>\<open>uthash_fatal\<close>).
\<close>

datatype request = Table_mem | Buckets_mem | Expansion_mem "32 word"

definition HASH_INITIAL_NUM_BUCKETS :: nat where
  "HASH_INITIAL_NUM_BUCKETS = 32"

definition HASH_INITIAL_NUM_BUCKETS_LOG2 :: nat where
  "HASH_INITIAL_NUM_BUCKETS_LOG2 = 5"

definition HASH_BKT_CAPACITY_THRESH :: nat where
  "HASH_BKT_CAPACITY_THRESH = 10"

definition set_hh :: "eptr \<Rightarrow> (UT_hash_handle \<Rightarrow> UT_hash_handle) \<Rightarrow> handles \<Rightarrow> handles" where
  "set_hh e f hs = hs(e := f (hs e))"

section \<open>Lookup\<close>

text \<open>The walk along a chain; it returns only where the chain ends or holds the key.\<close>

partial_function (option) HASH_FIND_IN_BKT ::
    "handles \<Rightarrow> byte list \<Rightarrow> eptr option \<Rightarrow> eptr option option" where
  "HASH_FIND_IN_BKT hs key out =
     (case out of
        None \<Rightarrow> Some None
      | Some e \<Rightarrow>
          if unat (hh_keylen (hs e)) = length key \<and> take (length key) (hh_key (hs e)) = key
          then Some (Some e)
          else HASH_FIND_IN_BKT hs key (hh_next (hs e)))"

definition HASH_FIND :: "(byte list \<Rightarrow> 32 word \<Rightarrow> 32 word \<times> 32 word) \<Rightarrow> uthash \<Rightarrow> byte list \<Rightarrow> eptr option option" where
  "HASH_FIND fcn s key =
     (case ht_head s of
        None \<Rightarrow> Some None
      | Some h \<Rightarrow>
          (case fcn key (num_buckets (ht_tbl s)) of
             (hv, bkt) \<Rightarrow>
               HASH_FIND_IN_BKT (ht_hands s) key (hh_head (buckets (ht_tbl s) ! unat bkt))))"

section \<open>Adding\<close>

definition HASH_MAKE_TABLE :: "(request \<Rightarrow> bool) \<Rightarrow> eptr \<Rightarrow> UT_hash_table outcome" where
  "HASH_MAKE_TABLE mem h =
     (if \<not> mem Table_mem then Exit (-1)
      else if \<not> mem Buckets_mem then Exit (-1)
      else Return
        \<lparr>buckets = replicate HASH_INITIAL_NUM_BUCKETS empty_bucket,
         num_buckets = of_nat HASH_INITIAL_NUM_BUCKETS,
         log2_num_buckets = of_nat HASH_INITIAL_NUM_BUCKETS_LOG2,
         num_items = 0, ht_tail = Some h, ideal_chain_maxlen = 0, nonideal_items = 0,
         ineff_expands = 0, noexpand = 0\<rparr>)"

text \<open>The element becomes the first of its chain.\<close>

definition link_front :: "eptr \<Rightarrow> UT_hash_bucket \<Rightarrow> handles \<Rightarrow> UT_hash_bucket \<times> handles" where
  "link_front e b hs =
     (let hs1 = set_hh e (\<lambda>h. h\<lparr>hh_next := hh_head b, hh_prev := None\<rparr>) hs;
          hs2 = (case hh_head b of None \<Rightarrow> hs1 | Some u \<Rightarrow> set_hh u (\<lambda>h. h\<lparr>hh_prev := Some e\<rparr>) hs1)
      in (b\<lparr>hh_head := Some e\<rparr>, hs2))"

text \<open>
  Expansion moves the chains into twice as many buckets, one element after the other.  \<open>nb2\<close> is the new
  number of buckets, \<open>ideal\<close> the ideal length of a chain; the state holds the handles, the new buckets
  and the number of elements beyond the ideal length.  A division by zero ends the process.
\<close>

partial_function (option) move_chain ::
    "32 word \<Rightarrow> 32 word \<Rightarrow> eptr option \<Rightarrow> handles \<times> UT_hash_bucket list \<times> 32 word \<Rightarrow>
     (handles \<times> UT_hash_bucket list \<times> 32 word) outcome option" where
  "move_chain nb2 ideal thh st =
     (case thh of
        None \<Rightarrow> Some (Return st)
      | Some t \<Rightarrow>
          (case st of (hs, nbs, nonideal) \<Rightarrow>
             let nxt = hh_next (hs t);
                 bkt = unat (HASH_TO_BKT (hh_hashv (hs t)) nb2);
                 b = (nbs ! bkt)\<lparr>bkt_count := bkt_count (nbs ! bkt) + 1\<rparr>
             in if bkt_count b > ideal
                then if ideal = 0 then Some Abort
                     else (case link_front t (b\<lparr>expand_mult := bkt_count b div ideal\<rparr>) hs of
                             (b', hs') \<Rightarrow> move_chain nb2 ideal nxt (hs', nbs[bkt := b'], nonideal + 1))
                else (case link_front t b hs of
                        (b', hs') \<Rightarrow> move_chain nb2 ideal nxt (hs', nbs[bkt := b'], nonideal))))"

fun move_chains ::
    "32 word \<Rightarrow> 32 word \<Rightarrow> UT_hash_bucket list \<Rightarrow> handles \<times> UT_hash_bucket list \<times> 32 word \<Rightarrow>
     (handles \<times> UT_hash_bucket list \<times> 32 word) outcome option" where
  "move_chains nb2 ideal [] st = Some (Return st)"
| "move_chains nb2 ideal (b # bs) st =
     (case move_chain nb2 ideal (hh_head b) st of
        None \<Rightarrow> None
      | Some Abort \<Rightarrow> Some Abort
      | Some (Exit n) \<Rightarrow> Some (Exit n)
      | Some (Return st') \<Rightarrow> move_chains nb2 ideal bs st')"

definition HASH_EXPAND_BUCKETS ::
    "(request \<Rightarrow> bool) \<Rightarrow> UT_hash_table \<Rightarrow> handles \<Rightarrow> (UT_hash_table \<times> handles) outcome option" where
  "HASH_EXPAND_BUCKETS mem t hs =
     (if \<not> mem (Expansion_mem (2 * num_buckets t)) then Some (Exit (-1))
      else
        let nb2 = 2 * num_buckets t;
            ideal = drop_bit (unat (log2_num_buckets t + 1)) (num_items t) +
                    (if num_items t AND (nb2 - 1) \<noteq> 0 then 1 else 0)
        in case move_chains nb2 ideal (take (unat (num_buckets t)) (buckets t))
                  (hs, replicate (unat nb2) empty_bucket, 0) of
             None \<Rightarrow> None
           | Some Abort \<Rightarrow> Some Abort
           | Some (Exit n) \<Rightarrow> Some (Exit n)
           | Some (Return (hs', nbs, nonideal)) \<Rightarrow>
               let ineff = (if nonideal > drop_bit 1 (num_items t) then ineff_expands t + 1 else 0)
               in Some (Return
                    (t\<lparr>buckets := nbs, num_buckets := nb2, log2_num_buckets := log2_num_buckets t + 1,
                       ideal_chain_maxlen := ideal, nonideal_items := nonideal, ineff_expands := ineff,
                       noexpand := (if ineff > 1 then 1 else noexpand t)\<rparr>, hs')))"

definition HASH_ADD_TO_BKT ::
    "(request \<Rightarrow> bool) \<Rightarrow> UT_hash_table \<Rightarrow> handles \<Rightarrow> nat \<Rightarrow> eptr \<Rightarrow> (UT_hash_table \<times> handles) outcome option" where
  "HASH_ADD_TO_BKT mem t hs bkt e =
     (let b = (buckets t ! bkt)\<lparr>bkt_count := bkt_count (buckets t ! bkt) + 1\<rparr>
      in case link_front e b hs of
           (b', hs') \<Rightarrow>
             let t' = t\<lparr>buckets := (buckets t)[bkt := b']\<rparr>
             in if bkt_count b' \<ge> (expand_mult b' + 1) * of_nat HASH_BKT_CAPACITY_THRESH \<and> noexpand t' \<noteq> 1
                then HASH_EXPAND_BUCKETS mem t' hs'
                else Some (Return (t', hs')))"

text \<open>Appending to the list of elements, or starting it with a new table.\<close>

definition hash_append :: "(request \<Rightarrow> bool) \<Rightarrow> uthash \<Rightarrow> eptr \<Rightarrow> uthash outcome" where
  "hash_append mem s add =
     (case ht_head s of
        None \<Rightarrow>
          (case HASH_MAKE_TABLE mem add of
             Return t \<Rightarrow>
               Return (s\<lparr>ht_head := Some add, ht_tbl := t,
                         ht_hands := set_hh add (\<lambda>h. h\<lparr>hh_prev_elt := None\<rparr>) (ht_hands s)\<rparr>)
           | Abort \<Rightarrow> Abort
           | Exit n \<Rightarrow> Exit n)
      | Some h \<Rightarrow>
          (case ht_tail (ht_tbl s) of
             None \<Rightarrow> Abort
           | Some l \<Rightarrow>
               Return (s\<lparr>ht_tbl := (ht_tbl s)\<lparr>ht_tail := Some add\<rparr>,
                         ht_hands := set_hh add (\<lambda>h. h\<lparr>hh_prev_elt := Some l\<rparr>)
                                       (set_hh l (\<lambda>h. h\<lparr>hh_next_elt := Some add\<rparr>) (ht_hands s))\<rparr>)))"

definition HASH_ADD_KEYPTR ::
    "(byte list \<Rightarrow> 32 word \<Rightarrow> 32 word \<times> 32 word) \<Rightarrow> (request \<Rightarrow> bool) \<Rightarrow> uthash \<Rightarrow> byte list \<Rightarrow> eptr \<Rightarrow>
     uthash outcome option" where
  "HASH_ADD_KEYPTR fcn mem s key add =
     (let hs1 = set_hh add (\<lambda>h. h\<lparr>hh_next_elt := None, hh_key := key, hh_keylen := of_nat (length key)\<rparr>) (ht_hands s)
      in case hash_append mem (s\<lparr>ht_hands := hs1\<rparr>) add of
           Abort \<Rightarrow> Some Abort
         | Exit n \<Rightarrow> Some (Exit n)
         | Return s1 \<Rightarrow>
             let t = (ht_tbl s1)\<lparr>num_items := num_items (ht_tbl s1) + 1\<rparr>
             in case fcn key (num_buckets t) of
                  (hv, bkt) \<Rightarrow>
                    (case HASH_ADD_TO_BKT mem t (set_hh add (\<lambda>h. h\<lparr>hh_hashv := hv\<rparr>) (ht_hands s1)) (unat bkt) add of
                       None \<Rightarrow> None
                     | Some Abort \<Rightarrow> Some Abort
                     | Some (Exit n) \<Rightarrow> Some (Exit n)
                     | Some (Return (t', hs')) \<Rightarrow> Some (Return (s1\<lparr>ht_tbl := t', ht_hands := hs'\<rparr>))))"

section \<open>Deleting\<close>

definition HASH_DEL_IN_BKT :: "UT_hash_bucket \<Rightarrow> eptr \<Rightarrow> handles \<Rightarrow> UT_hash_bucket \<times> handles" where
  "HASH_DEL_IN_BKT b e hs =
     (let b1 = b\<lparr>bkt_count := bkt_count b - 1\<rparr>;
          b2 = (if hh_head b1 = Some e then b1\<lparr>hh_head := hh_next (hs e)\<rparr> else b1);
          hs1 = (case hh_prev (hs e) of None \<Rightarrow> hs | Some p \<Rightarrow> set_hh p (\<lambda>h. h\<lparr>hh_next := hh_next (hs e)\<rparr>) hs);
          hs2 = (case hh_next (hs1 e) of None \<Rightarrow> hs1 | Some n \<Rightarrow> set_hh n (\<lambda>h. h\<lparr>hh_prev := hh_prev (hs1 e)\<rparr>) hs1)
      in (b2, hs2))"

definition HASH_DELETE :: "uthash \<Rightarrow> eptr \<Rightarrow> uthash" where
  "HASH_DELETE s del =
     (let hs = ht_hands s; t = ht_tbl s
      in if hh_prev_elt (hs del) = None \<and> hh_next_elt (hs del) = None
         then s\<lparr>ht_head := None\<rparr>
         else
           let t1 = (if ht_tail t = Some del then t\<lparr>ht_tail := hh_prev_elt (hs del)\<rparr> else t);
               (h1, hs1) =
                 (case hh_prev_elt (hs del) of
                    Some p \<Rightarrow> (ht_head s, set_hh p (\<lambda>h. h\<lparr>hh_next_elt := hh_next_elt (hs del)\<rparr>) hs)
                  | None \<Rightarrow> (hh_next_elt (hs del), hs));
               hs2 =
                 (case hh_next_elt (hs1 del) of
                    Some n \<Rightarrow> set_hh n (\<lambda>h. h\<lparr>hh_prev_elt := hh_prev_elt (hs1 del)\<rparr>) hs1
                  | None \<Rightarrow> hs1);
               bkt = unat (HASH_TO_BKT (hh_hashv (hs2 del)) (num_buckets t1))
           in case HASH_DEL_IN_BKT (buckets t1 ! bkt) del hs2 of
                (b, hs3) \<Rightarrow>
                  s\<lparr>ht_head := h1,
                    ht_tbl := t1\<lparr>buckets := (buckets t1)[bkt := b], num_items := num_items t1 - 1\<rparr>,
                    ht_hands := hs3\<rparr>)"

text \<open>An element with the key in the table is deleted first, and given back.\<close>

definition HASH_REPLACE ::
    "(byte list \<Rightarrow> 32 word \<Rightarrow> 32 word \<times> 32 word) \<Rightarrow> (request \<Rightarrow> bool) \<Rightarrow> uthash \<Rightarrow> byte list \<Rightarrow> eptr \<Rightarrow>
     (eptr option \<times> uthash) outcome option" where
  "HASH_REPLACE fcn mem s key add =
     (case HASH_FIND fcn s key of
        None \<Rightarrow> None
      | Some replaced \<Rightarrow>
          (case HASH_ADD_KEYPTR fcn mem (case replaced of None \<Rightarrow> s | Some e \<Rightarrow> HASH_DELETE s e) key add of
             None \<Rightarrow> None
           | Some Abort \<Rightarrow> Some Abort
           | Some (Exit n) \<Rightarrow> Some (Exit n)
           | Some (Return s') \<Rightarrow> Some (Return (replaced, s'))))"

section \<open>The whole table\<close>

definition HASH_CLEAR :: "uthash \<Rightarrow> uthash" where
  "HASH_CLEAR s = (case ht_head s of None \<Rightarrow> s | Some h \<Rightarrow> s\<lparr>ht_head := None\<rparr>)"

definition HASH_CNT :: "uthash \<Rightarrow> 32 word" where
  "HASH_CNT s = (case ht_head s of None \<Rightarrow> 0 | Some h \<Rightarrow> num_items (ht_tbl s))"

text \<open>The elements \<^verbatim>\<open>HASH_ITER\<close> visits from \<open>el\<close> on.\<close>

partial_function (option) HASH_ITER :: "handles \<Rightarrow> eptr option \<Rightarrow> eptr list option" where
  "HASH_ITER hs el =
     (case el of
        None \<Rightarrow> Some []
      | Some e \<Rightarrow> Option.bind (HASH_ITER hs (hh_next_elt (hs e))) (\<lambda>es. Some (e # es)))"

section \<open>What a table represents\<close>

abbreviation next_elt :: "handles \<Rightarrow> eptr \<Rightarrow> eptr option" where
  "next_elt hs \<equiv> (\<lambda>e. hh_next_elt (hs e))"

abbreviation prev_elt :: "handles \<Rightarrow> eptr \<Rightarrow> eptr option" where
  "prev_elt hs \<equiv> (\<lambda>e. hh_prev_elt (hs e))"

abbreviation next_hh :: "handles \<Rightarrow> eptr \<Rightarrow> eptr option" where
  "next_hh hs \<equiv> (\<lambda>e. hh_next (hs e))"

abbreviation prev_hh :: "handles \<Rightarrow> eptr \<Rightarrow> eptr option" where
  "prev_hh hs \<equiv> (\<lambda>e. hh_prev (hs e))"

text \<open>A bucket with its chain \<open>c\<close>, and an array of buckets over the elements \<open>A\<close>.\<close>

definition bucket_ok :: "handles \<Rightarrow> UT_hash_bucket \<Rightarrow> eptr list \<Rightarrow> bool" where
  "bucket_ok hs b c \<longleftrightarrow>
     dseg (next_hh hs) (prev_hh hs) None c None \<and> hh_head b = first_or c None \<and>
     bkt_count b = of_nat (length c)"

definition elt_bkt :: "handles \<Rightarrow> nat \<Rightarrow> eptr \<Rightarrow> nat" where
  "elt_bkt hs n e = unat (HASH_TO_BKT (hh_hashv (hs e)) (of_nat n))"

definition buckets_ok :: "handles \<Rightarrow> UT_hash_bucket list \<Rightarrow> eptr set \<Rightarrow> bool" where
  "buckets_ok hs bs A \<longleftrightarrow>
     (\<forall>i < length bs. \<exists>c. bucket_ok hs (bs ! i) c \<and> set c = {e \<in> A. elt_bkt hs (length bs) e = i})"

definition table_ok :: "UT_hash_table \<Rightarrow> handles \<Rightarrow> eptr list \<Rightarrow> bool" where
  "table_ok t hs es \<longleftrightarrow>
     unat (log2_num_buckets t) < 32 \<and> length (buckets t) = 2 ^ unat (log2_num_buckets t) \<and>
     num_buckets t = of_nat (length (buckets t)) \<and> buckets_ok hs (buckets t) (set es) \<and>
     ht_tail t = last_or None es \<and> length es < 2 ^ 32 \<and> num_items t = of_nat (length es)"

text \<open>The same without the list: the buckets of the table hold the elements \<open>A\<close>.\<close>

definition chains_ok :: "UT_hash_table \<Rightarrow> handles \<Rightarrow> eptr set \<Rightarrow> bool" where
  "chains_ok t hs A \<longleftrightarrow>
     unat (log2_num_buckets t) < 32 \<and> length (buckets t) = 2 ^ unat (log2_num_buckets t) \<and>
     num_buckets t = of_nat (length (buckets t)) \<and> buckets_ok hs (buckets t) A"

lemma table_ok_chains:
  "table_ok t hs es \<longleftrightarrow>
   chains_ok t hs (set es) \<and> ht_tail t = last_or None es \<and> length es < 2 ^ 32 \<and> num_items t = of_nat (length es)"
  by (auto simp: table_ok_def chains_ok_def)

definition keys_ok :: "(byte list \<Rightarrow> 32 word \<Rightarrow> 32 word \<times> 32 word) \<Rightarrow> handles \<Rightarrow> eptr set \<Rightarrow> bool" where
  "keys_ok fcn hs A \<longleftrightarrow>
     (\<forall>e \<in> A. length (hh_key (hs e)) < 2 ^ 32 \<and> hh_keylen (hs e) = of_nat (length (hh_key (hs e))) \<and>
       hh_hashv (hs e) = fst (fcn (hh_key (hs e)) 0))"

text \<open>The table of \<open>s\<close> holds the elements \<open>es\<close>, in the order they were added.\<close>

definition hash_ok :: "(byte list \<Rightarrow> 32 word \<Rightarrow> 32 word \<times> 32 word) \<Rightarrow> uthash \<Rightarrow> eptr list \<Rightarrow> bool" where
  "hash_ok fcn s es \<longleftrightarrow>
     ht_head s = first_or es None \<and>
     dseg (next_elt (ht_hands s)) (prev_elt (ht_hands s)) None es None \<and>
     keys_ok fcn (ht_hands s) (set es) \<and> (es \<noteq> [] \<longrightarrow> table_ok (ht_tbl s) (ht_hands s) es)"

section \<open>Buckets and handles\<close>

lemma set_hh_same [link_simps]: "set_hh e f hs e = f (hs e)"
  by (simp add: set_hh_def)

lemma set_hh_other [link_simps]: "x \<noteq> e \<Longrightarrow> set_hh e f hs x = hs x"
  by (simp add: set_hh_def)

lemma HASH_TO_BKT_less:
  assumes "k < 32"
  shows "unat (HASH_TO_BKT v (of_nat (2 ^ k))) < 2 ^ k"
proof -
  have "HASH_TO_BKT v (of_nat (2 ^ k)) = take_bit k v"
    by (simp add: HASH_TO_BKT_def take_bit_eq_mask mask_eq_exp_minus_1)
  moreover have "unat (take_bit k v) < 2 ^ k"
    using assms by (simp add: unsigned_take_bit_eq)
  ultimately show ?thesis by simp
qed

lemma elt_bkt_less: "k < 32 \<Longrightarrow> elt_bkt hs (2 ^ k) e < 2 ^ k"
  using HASH_TO_BKT_less by (simp add: elt_bkt_def)

lemma bucket_ok_cong:
  assumes "\<And>e. e \<in> set c \<Longrightarrow> hh_next (hs' e) = hh_next (hs e) \<and> hh_prev (hs' e) = hh_prev (hs e)"
  shows "bucket_ok hs' b c = bucket_ok hs b c"
  using assms dseg_cong [of c "next_hh hs'" "next_hh hs" "prev_hh hs'" "prev_hh hs" None None]
  by (simp add: bucket_ok_def)

lemma bucket_ok_unique: "bucket_ok hs b c \<Longrightarrow> bucket_ok hs b c' \<Longrightarrow> c = c'"
  unfolding bucket_ok_def by (metis dseg_nseg first_or_None_unique)

lemma buckets_okD:
  assumes "buckets_ok hs bs A" and "i < length bs"
  obtains c where "bucket_ok hs (bs ! i) c" "set c = {e \<in> A. elt_bkt hs (length bs) e = i}"
  using assms by (auto simp: buckets_ok_def)

lemma buckets_ok_cong:
  assumes "buckets_ok hs bs A"
    and "\<And>e. e \<in> A \<Longrightarrow> hh_next (hs' e) = hh_next (hs e) \<and> hh_prev (hs' e) = hh_prev (hs e) \<and>
           hh_hashv (hs' e) = hh_hashv (hs e)"
  shows "buckets_ok hs' bs A"
  unfolding buckets_ok_def
proof (intro allI impI)
  fix i assume i: "i < length bs"
  obtain c where c: "bucket_ok hs (bs ! i) c" "set c = {e \<in> A. elt_bkt hs (length bs) e = i}"
    using assms(1) i by (rule buckets_okD)
  then have "bucket_ok hs' (bs ! i) c" using assms(2) by (subst bucket_ok_cong [of c hs' hs]) auto
  moreover have "set c = {e \<in> A. elt_bkt hs' (length bs) e = i}"
    using c(2) assms(2) by (auto simp: elt_bkt_def)
  ultimately show "\<exists>c. bucket_ok hs' (bs ! i) c \<and> set c = {e \<in> A. elt_bkt hs' (length bs) e = i}" by blast
qed

lemma bucket_ok_empty [simp]: "bucket_ok hs empty_bucket []"
  by (simp add: bucket_ok_def empty_bucket_def)

lemma buckets_ok_fresh: "buckets_ok hs (replicate n empty_bucket) {}"
  by (auto simp: buckets_ok_def intro!: exI [of _ "[]"])

text \<open>Everything but the links of the chains.\<close>

definition same_elts :: "handles \<Rightarrow> handles \<Rightarrow> bool" where
  "same_elts hs hs' \<longleftrightarrow>
     (\<forall>e. hh_next_elt (hs' e) = hh_next_elt (hs e) \<and> hh_prev_elt (hs' e) = hh_prev_elt (hs e) \<and>
          hh_key (hs' e) = hh_key (hs e) \<and> hh_keylen (hs' e) = hh_keylen (hs e) \<and>
          hh_hashv (hs' e) = hh_hashv (hs e))"

lemma same_elts_trans: "same_elts hs hs' \<Longrightarrow> same_elts hs' hs'' \<Longrightarrow> same_elts hs hs''"
  by (simp add: same_elts_def)

lemma same_elts_refl [simp]: "same_elts hs hs"
  by (simp add: same_elts_def)

lemma link_front_same: "link_front e b hs = (b', hs') \<Longrightarrow> same_elts hs hs'"
  by (auto simp: link_front_def Let_def same_elts_def set_hh_def split: option.splits)

lemma link_front_next:
  "link_front e b hs = (b', hs') \<Longrightarrow> next_hh hs' = push_next e (hh_head b) (next_hh hs)"
  by (rule ext) (auto simp: link_front_def Let_def set_hh_def push_next_def split: option.splits)

lemma link_front_prev:
  "link_front e b hs = (b', hs') \<Longrightarrow> prev_hh hs' = push_prev e (hh_head b) (prev_hh hs)"
  by (rule ext) (auto simp: link_front_def Let_def set_hh_def push_prev_def split: option.splits)

lemma link_front_bucket: "link_front e b hs = (b', hs') \<Longrightarrow> b' = b\<lparr>hh_head := Some e\<rparr>"
  by (auto simp: link_front_def Let_def)

lemma link_front_frame:
  "link_front e b hs = (b', hs') \<Longrightarrow> x \<noteq> e \<Longrightarrow> hh_head b \<noteq> Some x \<Longrightarrow> hs' x = hs x"
  by (auto simp: link_front_def Let_def set_hh_def split: option.splits)

lemma bucket_ok_push:
  assumes l: "link_front e b' hs = (b'', hs')" and b: "bucket_ok hs b c" and e: "e \<notin> set c"
    and h: "hh_head b' = hh_head b" and n: "bkt_count b' = bkt_count b + 1"
  shows "bucket_ok hs' b'' (e # c)"
proof -
  have seg: "dseg (next_hh hs) (prev_hh hs) None c None" and hd: "hh_head b' = first_or c None"
    and n': "bkt_count b' = of_nat (length (e # c))"
    using b h n by (auto simp: bucket_ok_def algebra_simps)
  show ?thesis
    unfolding bucket_ok_def link_front_next [OF l] link_front_prev [OF l] link_front_bucket [OF l] hd
    using dseg_push [OF seg e] n' by simp
qed

lemma buckets_ok_push:
  assumes ok: "buckets_ok hs bs A" and e: "e \<notin> A" and i: "elt_bkt hs (length bs) e = i" "i < length bs"
    and h: "hh_head b = hh_head (bs ! i)" and n: "bkt_count b = bkt_count (bs ! i) + 1"
    and l: "link_front e b hs = (b', hs')"
  shows "buckets_ok hs' (bs[i := b']) (insert e A)"
    and "\<And>x. x \<notin> insert e A \<Longrightarrow> hs' x = hs x"
proof -
  obtain c where c: "bucket_ok hs (bs ! i) c" "set c = {e \<in> A. elt_bkt hs (length bs) e = i}"
    using ok i(2) by (rule buckets_okD)
  have hd: "\<And>x. hh_head b = Some x \<Longrightarrow> x \<in> set c"
    using c(1) h by (cases c) (auto simp: bucket_ok_def)
  have bkt: "elt_bkt hs' m x = elt_bkt hs m x" for m x
    using link_front_same [OF l] by (simp add: elt_bkt_def same_elts_def)
  show "\<And>x. x \<notin> insert e A \<Longrightarrow> hs' x = hs x"
    using link_front_frame [OF l] hd c(2) by auto
  show "buckets_ok hs' (bs[i := b']) (insert e A)"
    unfolding buckets_ok_def
  proof (intro allI impI)
    fix j assume j: "j < length (bs[i := b'])"
    show "\<exists>c. bucket_ok hs' (bs[i := b'] ! j) c \<and>
            set c = {x \<in> insert e A. elt_bkt hs' (length (bs[i := b'])) x = j}"
    proof (cases "j = i")
      case True
      have "bucket_ok hs' b' (e # c)" using c e by (intro bucket_ok_push [OF l c(1) _ h n]) auto
      moreover have "set (e # c) = {x \<in> insert e A. elt_bkt hs (length bs) x = i}" using c(2) i(1) by auto
      ultimately show ?thesis using True i by (intro exI [of _ "e # c"]) (simp add: bkt)
    next
      case False
      obtain d where d: "bucket_ok hs (bs ! j) d" "set d = {x \<in> A. elt_bkt hs (length bs) x = j}"
        using ok j by (auto elim: buckets_okD)
      have "hs' x = hs x" if "x \<in> set d" for x
        using that link_front_frame [OF l, of x] hd [of x] c(2) d(2) e False by auto
      then have "bucket_ok hs' (bs ! j) d" using d(1) by (subst bucket_ok_cong [of d hs' hs]) auto
      then show ?thesis using False i d(2) by (intro exI [of _ d]) (auto simp: bkt)
    qed
  qed
qed

section \<open>Expansion keeps the elements\<close>

lemma same_elts_bkt: "same_elts hs hs' \<Longrightarrow> elt_bkt hs' n e = elt_bkt hs n e"
  by (simp add: elt_bkt_def same_elts_def)

text \<open>One chain: its elements join those already moved.\<close>

lemma move_chain_moves:
  assumes "k < 32" and "ideal \<noteq> 0"
  shows "nseg (next_hh hs) xs None \<Longrightarrow> distinct xs \<Longrightarrow> set xs \<inter> A = {} \<Longrightarrow> length nbs = 2 ^ k \<Longrightarrow>
    buckets_ok hs nbs A \<Longrightarrow>
    \<exists>hs' nbs' m. move_chain (of_nat (2 ^ k)) ideal (first_or xs None) (hs, nbs, n) = Some (Return (hs', nbs', m)) \<and>
      length nbs' = 2 ^ k \<and> buckets_ok hs' nbs' (A \<union> set xs) \<and> same_elts hs hs' \<and>
      (\<forall>e. e \<notin> A \<union> set xs \<longrightarrow> hs' e = hs e)"
proof (induction xs arbitrary: hs nbs n A)
  case Nil
  then show ?case by (subst move_chain.simps) simp
next
  case (Cons t xs)
  define i where "i = elt_bkt hs (2 ^ k) t"
  define b where "b = (nbs ! i)\<lparr>bkt_count := bkt_count (nbs ! i) + 1\<rparr>"
  define c where "c = (if bkt_count b > ideal then b\<lparr>expand_mult := bkt_count b div ideal\<rparr> else b)"
  define n' where "n' = (if bkt_count b > ideal then n + 1 else n)"
  obtain b' hs1 where l: "link_front t c hs = (b', hs1)" by fastforce
  have i: "i < length nbs" using Cons.prems assms(1) elt_bkt_less by (simp add: i_def)
  have t: "t \<notin> A" using Cons.prems by simp
  have hc: "hh_head c = hh_head (nbs ! i)" "bkt_count c = bkt_count (nbs ! i) + 1"
    by (simp_all add: c_def b_def)
  note push = buckets_ok_push [OF Cons.prems(5) t _ i hc l]
  have ok: "buckets_ok hs1 (nbs[i := b']) (insert t A)" and fr: "\<And>x. x \<notin> insert t A \<Longrightarrow> hs1 x = hs x"
    using push Cons.prems by (simp_all add: i_def)
  have nx: "nseg (next_hh hs1) xs None"
  proof -
    have "hs1 x = hs x" if "x \<in> set xs" for x
    proof (rule fr)
      show "x \<notin> insert t A" using that Cons.prems(2,3) by auto
    qed
    then show ?thesis using Cons.prems(1) by (subst nseg_cong [of xs _ "next_hh hs"]) auto
  qed
  have i_eq: "unat (HASH_TO_BKT (hh_hashv (hs t)) (2 ^ k)) = i"
    by (simp add: i_def elt_bkt_def)
  have step: "move_chain (of_nat (2 ^ k)) ideal (Some t) (hs, nbs, n) =
      move_chain (of_nat (2 ^ k)) ideal (first_or xs None) (hs1, nbs[i := b'], n')"
    using Cons.prems(1) assms(2) l i_eq
    by (subst move_chain.simps, cases "ideal < bkt_count b") (simp_all add: Let_def b_def c_def n'_def)
  from Cons.IH [of hs1 "insert t A" "nbs[i := b']" n'] nx ok Cons.prems
  obtain hs' nbs' m where r:
      "move_chain (of_nat (2 ^ k)) ideal (first_or xs None) (hs1, nbs[i := b'], n') = Some (Return (hs', nbs', m))"
      "length nbs' = 2 ^ k" "buckets_ok hs' nbs' (insert t A \<union> set xs)" "same_elts hs1 hs'"
      "\<forall>e. e \<notin> insert t A \<union> set xs \<longrightarrow> hs' e = hs1 e"
    by auto
  moreover have "same_elts hs hs'" using link_front_same [OF l] r(4) by (rule same_elts_trans)
  ultimately show ?case using step fr by (intro exI [of _ hs'] exI [of _ nbs'] exI [of _ m]) simp
qed

text \<open>All chains, from bucket \<open>i\<close> on: what is still to move is untouched.\<close>

lemma move_chains_moves:
  assumes "k < 32" and "ideal \<noteq> 0"
  shows "\<forall>i < length bs. bucket_ok hs (bs ! i) (cs i) \<Longrightarrow>
    \<forall>i < length bs. \<forall>j < length bs. i \<noteq> j \<longrightarrow> set (cs i) \<inter> set (cs j) = {} \<Longrightarrow>
    \<forall>i < length bs. set (cs i) \<inter> A = {} \<Longrightarrow> length nbs = 2 ^ k \<Longrightarrow> buckets_ok hs nbs A \<Longrightarrow>
    \<exists>hs' nbs' m. move_chains (of_nat (2 ^ k)) ideal bs (hs, nbs, n) = Some (Return (hs', nbs', m)) \<and>
      length nbs' = 2 ^ k \<and> buckets_ok hs' nbs' (A \<union> (\<Union>i < length bs. set (cs i))) \<and> same_elts hs hs' \<and>
      (\<forall>e. e \<notin> A \<union> (\<Union>i < length bs. set (cs i)) \<longrightarrow> hs' e = hs e)"
proof (induction bs arbitrary: hs nbs n A cs)
  case Nil
  then show ?case by simp
next
  case (Cons b bs)
  have b: "bucket_ok hs b (cs 0)" using Cons.prems(1) by force
  then have seg: "nseg (next_hh hs) (cs 0) None" "distinct (cs 0)" "hh_head b = first_or (cs 0) None"
    by (auto simp: bucket_ok_def dest: dseg_nseg dseg_distinct)
  have "set (cs 0) \<inter> A = {}" using Cons.prems(3) by simp
  from move_chain_moves [OF assms seg(1,2) this Cons.prems(4,5), of n] seg(3)
  obtain hs1 nbs1 m1 where one: "move_chain (of_nat (2 ^ k)) ideal (hh_head b) (hs, nbs, n) = Some (Return (hs1, nbs1, m1))"
      "length nbs1 = 2 ^ k" "buckets_ok hs1 nbs1 (A \<union> set (cs 0))" "same_elts hs hs1"
      "\<forall>e. e \<notin> A \<union> set (cs 0) \<longrightarrow> hs1 e = hs e"
    by auto
  have apart: "set (cs (Suc i)) \<inter> (A \<union> set (cs 0)) = {}" if "i < length bs" for i
    using Cons.prems(2,3) that by (force simp: Int_Un_distrib)
  have "bucket_ok hs1 (bs ! i) (cs (Suc i))" if "i < length bs" for i
  proof -
    have "bucket_ok hs (bs ! i) (cs (Suc i))" using Cons.prems(1) that by force
    moreover have "hs1 e = hs e" if "e \<in> set (cs (Suc i))" for e
      using one(5) apart [OF \<open>i < length bs\<close>] that by blast
    ultimately show ?thesis by (subst bucket_ok_cong [of _ hs1 hs]) auto
  qed
  with Cons.IH [of hs1 "\<lambda>i. cs (Suc i)" "A \<union> set (cs 0)" nbs1 m1] Cons.prems(2) apart one(2,3)
  obtain hs' nbs' m where two: "move_chains (of_nat (2 ^ k)) ideal bs (hs1, nbs1, m1) = Some (Return (hs', nbs', m))"
      "length nbs' = 2 ^ k" "buckets_ok hs' nbs' (A \<union> set (cs 0) \<union> (\<Union>i < length bs. set (cs (Suc i))))"
      "same_elts hs1 hs'" "\<forall>e. e \<notin> A \<union> set (cs 0) \<union> (\<Union>i < length bs. set (cs (Suc i))) \<longrightarrow> hs' e = hs1 e"
    by auto
  have un: "A \<union> (\<Union>i < length (b # bs). set (cs i)) = A \<union> set (cs 0) \<union> (\<Union>i < length bs. set (cs (Suc i)))"
    by (auto simp: lessThan_Suc_eq_insert_0)
  have "\<forall>e. e \<notin> A \<union> set (cs 0) \<union> (\<Union>i < length bs. set (cs (Suc i))) \<longrightarrow> hs' e = hs e"
    using two(5) one(5) by simp
  moreover have "same_elts hs hs'" using one(4) two(4) by (rule same_elts_trans)
  moreover have "move_chains (of_nat (2 ^ k)) ideal (b # bs) (hs, nbs, n) = Some (Return (hs', nbs', m))"
    using one(1) two(1) by simp
  ultimately show ?case unfolding un using two(2,3) by blast
qed

text \<open>The ideal length of a chain is not zero when there are elements.\<close>

lemma ideal_nonzero:
  fixes n :: "32 word"
  assumes "n \<noteq> 0" and "k < 32"
  shows "drop_bit k n + (if n AND (of_nat (2 ^ k) - 1) \<noteq> 0 then 1 else 0) \<noteq> 0"
proof (cases "n AND (of_nat (2 ^ k) - 1) = 0")
  case True
  have "take_bit k n = 0" using True by (simp add: take_bit_eq_mask mask_eq_exp_minus_1)
  then have "drop_bit k n \<noteq> 0" using assms(1) by (metis bits_ident add_0 push_bit_of_0)
  with True show ?thesis by simp
next
  case False
  then have "k \<noteq> 0" by (cases k) auto
  then have le: "unat n div 2 ^ k \<le> unat n div 2"
    using power_increasing [of 1 k "2 :: nat"] by (intro div_le_mono2) auto
  have "unat (drop_bit k n) = unat n div 2 ^ k"
    using unsigned_less [of n, where ?'a = nat]
    by (simp only: unsigned_drop_bit_eq) (simp add: drop_bit_eq_div take_bit_nat_eq_self)
  with le have "unat (drop_bit k n) < 2 ^ 32 - 1"
    using unsigned_less [of n, where ?'a = nat] by simp
  then have "unat (drop_bit k n + 1) = unat (drop_bit k n) + 1"
    by (simp add: unat_word_ariths)
  then show ?thesis using False by force
qed

lemma unat_small: "n < 2 ^ 32 \<Longrightarrow> unat (of_nat n :: 32 word) = n"
  by (simp add: unsigned_of_nat take_bit_nat_eq_self)

lemma unat_power: "k < 32 \<Longrightarrow> unat (of_nat (2 ^ k) :: 32 word) = 2 ^ k"
  using power_strict_increasing [of k 32 "2 :: nat"] by (intro unat_small) simp

lemma HASH_EXPAND_BUCKETS_ok:
  assumes t: "chains_ok t hs A" and ne: "num_items t \<noteq> 0" and l: "unat (log2_num_buckets t) < 31"
    and mem: "mem (Expansion_mem (2 * num_buckets t))"
  shows "\<exists>t' hs'. HASH_EXPAND_BUCKETS mem t hs = Some (Return (t', hs')) \<and> chains_ok t' hs' A \<and>
           ht_tail t' = ht_tail t \<and> num_items t' = num_items t \<and>
           same_elts hs hs' \<and> (\<forall>e. e \<notin> A \<longrightarrow> hs' e = hs e)"
proof -
  define k where "k = unat (log2_num_buckets t)"
  have k: "k < 31" "length (buckets t) = 2 ^ k" "num_buckets t = of_nat (2 ^ k)" "buckets_ok hs (buckets t) A"
    using t l by (auto simp: chains_ok_def k_def)
  have nb: "unat (num_buckets t) = 2 ^ k" unfolding k(3) using k(1) by (intro unat_power) simp
  have nb2: "2 * num_buckets t = of_nat (2 ^ Suc k)" unfolding k(3) by simp
  have nb2': "unat (of_nat (2 ^ Suc k) :: 32 word) = 2 ^ Suc k" using k(1) by (intro unat_power) simp
  have lg: "unat (log2_num_buckets t + 1) = Suc k"
    using k(1) by (simp add: unat_word_ariths k_def)
  define ideal where "ideal = drop_bit (Suc k) (num_items t) + (if num_items t AND (of_nat (2 ^ Suc k) - 1) \<noteq> 0 then 1 else 0)"
  have ideal: "ideal \<noteq> 0" unfolding ideal_def using ne k(1) by (intro ideal_nonzero) auto
  have "\<forall>i. \<exists>c. i < 2 ^ k \<longrightarrow> bucket_ok hs (buckets t ! i) c \<and> set c = {e \<in> A. elt_bkt hs (2 ^ k) e = i}"
    using k(2,4) by (auto simp: buckets_ok_def)
  then obtain cs where cs: "\<And>i. i < 2 ^ k \<Longrightarrow> bucket_ok hs (buckets t ! i) (cs i)"
      "\<And>i. i < 2 ^ k \<Longrightarrow> set (cs i) = {e \<in> A. elt_bkt hs (2 ^ k) e = i}"
    by metis
  have un: "(\<Union>i < 2 ^ k. set (cs i)) = A"
    using cs(2) elt_bkt_less [of k hs] k(1) by auto
  have "\<exists>hs' nbs' m. move_chains (of_nat (2 ^ Suc k)) ideal (buckets t) (hs, replicate (2 ^ Suc k) empty_bucket, 0) =
      Some (Return (hs', nbs', m)) \<and> length nbs' = 2 ^ Suc k \<and>
      buckets_ok hs' nbs' ({} \<union> (\<Union>i < length (buckets t). set (cs i))) \<and> same_elts hs hs' \<and>
      (\<forall>e. e \<notin> {} \<union> (\<Union>i < length (buckets t). set (cs i)) \<longrightarrow> hs' e = hs e)"
    using k(1) ideal by (intro move_chains_moves) (auto simp: k(2) cs buckets_ok_fresh)
  then obtain hs' nbs m where mv: "move_chains (of_nat (2 ^ Suc k)) ideal (buckets t) (hs, replicate (2 ^ Suc k) empty_bucket, 0) =
      Some (Return (hs', nbs, m))" "length nbs = 2 ^ Suc k" "buckets_ok hs' nbs A" "same_elts hs hs'"
      "\<forall>e. e \<notin> A \<longrightarrow> hs' e = hs e"
    unfolding k(2) un by auto
  define ineff where "ineff = (if m > drop_bit 1 (num_items t) then ineff_expands t + 1 else 0)"
  define t' where "t' = t\<lparr>buckets := nbs, num_buckets := 2 * num_buckets t, log2_num_buckets := log2_num_buckets t + 1,
     ideal_chain_maxlen := ideal, nonideal_items := m, ineff_expands := ineff,
     noexpand := (if ineff > 1 then 1 else noexpand t)\<rparr>"
  have eq: "HASH_EXPAND_BUCKETS mem t hs = Some (Return (t', hs'))"
    unfolding HASH_EXPAND_BUCKETS_def Let_def nb lg nb2 nb2' ideal_def [symmetric]
    using mem [unfolded nb2] mv(1) k(2) by (simp add: t'_def ineff_def nb2 del: of_nat_power power_Suc)
  have "chains_ok t' hs' A" "ht_tail t' = ht_tail t" "num_items t' = num_items t"
    using t mv k(1) lg nb2 by (simp_all add: chains_ok_def t'_def)
  with eq mv(4,5) show ?thesis by blast
qed

section \<open>Adding an element\<close>

text \<open>
  The new element joins its chain.  A chain that is full makes the table grow, for which the table must
  count an element already; the first element of a new table goes into an empty bucket.
\<close>

lemma HASH_ADD_TO_BKT_chains:
  assumes t: "chains_ok t hs A" and l: "unat (log2_num_buckets t) = k" "k < 31" and e: "e \<notin> A"
    and ne: "num_items t \<noteq> 0 \<or> buckets t ! bkt = empty_bucket" and bkt: "bkt = elt_bkt hs (2 ^ k) e"
  shows "(\<exists>t' hs'. HASH_ADD_TO_BKT mem t hs bkt e = Some (Return (t', hs')) \<and> chains_ok t' hs' (insert e A) \<and>
           ht_tail t' = ht_tail t \<and> num_items t' = num_items t \<and>
           same_elts hs hs' \<and> (\<forall>x. x \<notin> insert e A \<longrightarrow> hs' x = hs x)) \<or>
         (HASH_ADD_TO_BKT mem t hs bkt e = Some (Exit (-1)) \<and> \<not> mem (Expansion_mem (2 * num_buckets t)))"
proof -
  have len: "length (buckets t) = 2 ^ k" and ok: "buckets_ok hs (buckets t) A" using t l by (auto simp: chains_ok_def)
  define b where "b = (buckets t ! bkt)\<lparr>bkt_count := bkt_count (buckets t ! bkt) + 1\<rparr>"
  obtain b' hs1 where lf: "link_front e b hs = (b', hs1)" by fastforce
  define t1 where "t1 = t\<lparr>buckets := (buckets t)[bkt := b']\<rparr>"
  have b: "bkt < length (buckets t)" "hh_head b = hh_head (buckets t ! bkt)"
      "bkt_count b = bkt_count (buckets t ! bkt) + 1"
    using elt_bkt_less [of k hs e] l(2) by (simp_all add: bkt len b_def)
  have bk: "elt_bkt hs (length (buckets t)) e = bkt" by (simp add: len bkt)
  note push = buckets_ok_push [OF ok e bk b lf]
  have t1: "chains_ok t1 hs1 (insert e A)" "ht_tail t1 = ht_tail t" "num_items t1 = num_items t"
    using push(1) t by (simp_all add: chains_ok_def t1_def)
  have eq: "HASH_ADD_TO_BKT mem t hs bkt e =
      (if bkt_count b' \<ge> (expand_mult b' + 1) * of_nat HASH_BKT_CAPACITY_THRESH \<and> noexpand t1 \<noteq> 1
       then HASH_EXPAND_BUCKETS mem t1 hs1 else Some (Return (t1, hs1)))"
    using lf by (simp add: HASH_ADD_TO_BKT_def b_def [symmetric] t1_def Let_def)
  have s1: "same_elts hs hs1" using lf by (rule link_front_same)
  have l1: "unat (log2_num_buckets t1) < 31" "num_buckets t1 = num_buckets t" using l by (simp_all add: t1_def)
  show ?thesis
  proof (cases "bkt_count b' \<ge> (expand_mult b' + 1) * of_nat HASH_BKT_CAPACITY_THRESH \<and> noexpand t1 \<noteq> 1")
    case grow: True
    have ne1: "num_items t1 \<noteq> 0"
      using ne grow link_front_bucket [OF lf]
      by (auto simp: t1(3) b_def empty_bucket_def HASH_BKT_CAPACITY_THRESH_def word_le_nat_alt)
    show ?thesis
    proof (cases "mem (Expansion_mem (2 * num_buckets t))")
      case True
      with l1(2) have "mem (Expansion_mem (2 * num_buckets t1))" by simp
      from HASH_EXPAND_BUCKETS_ok [where mem = mem, OF t1(1) ne1 l1(1) this]
      obtain t2 hs2 where ex: "HASH_EXPAND_BUCKETS mem t1 hs1 = Some (Return (t2, hs2))" "chains_ok t2 hs2 (insert e A)"
          "ht_tail t2 = ht_tail t1" "num_items t2 = num_items t1"
          "same_elts hs1 hs2" "\<forall>x. x \<notin> insert e A \<longrightarrow> hs2 x = hs1 x"
        by auto
      have fr: "hs2 x = hs x" if "x \<notin> insert e A" for x
        using ex(6) push(2) [of x] that by auto
      show ?thesis using eq grow ex(1-4) t1(2,3) same_elts_trans [OF s1 ex(5)] fr by (metis (no_types, lifting))
    next
      case False
      with eq grow l1(2) show ?thesis by (simp add: HASH_EXPAND_BUCKETS_def)
    qed
  next
    case False
    then show ?thesis using eq t1 s1 push(2) by (metis (no_types, lifting))
  qed
qed

lemma HASH_ADD_TO_BKT_ok:
  assumes l: "unat (log2_num_buckets t) = k" "k < 31" and len: "length (buckets t) = 2 ^ k"
    and nb: "num_buckets t = of_nat (2 ^ k)" and ok: "buckets_ok hs (buckets t) (set es)" and e: "e \<notin> set es"
    and tl: "ht_tail t = Some e" and n: "length es + 1 < 2 ^ 32" "num_items t = of_nat (length es + 1)"
    and bkt: "bkt = elt_bkt hs (2 ^ k) e"
  shows "(\<exists>t' hs'. HASH_ADD_TO_BKT mem t hs bkt e = Some (Return (t', hs')) \<and> table_ok t' hs' (es @ [e]) \<and>
           same_elts hs hs' \<and> (\<forall>x. x \<notin> insert e (set es) \<longrightarrow> hs' x = hs x)) \<or>
         (HASH_ADD_TO_BKT mem t hs bkt e = Some (Exit (-1)) \<and> \<not> mem (Expansion_mem (2 * num_buckets t)))"
proof -
  have t: "chains_ok t hs (set es)" using l len nb ok by (simp add: chains_ok_def)
  have "unat (num_items t) = length es + 1" unfolding n(2) using n(1) by (rule unat_small)
  then have "num_items t \<noteq> 0 \<or> buckets t ! bkt = empty_bucket" by auto
  from HASH_ADD_TO_BKT_chains [where mem = mem, OF t l e this bkt] consider
    (fine) t' hs' where "HASH_ADD_TO_BKT mem t hs bkt e = Some (Return (t', hs'))" "chains_ok t' hs' (insert e (set es))"
      "ht_tail t' = ht_tail t" "num_items t' = num_items t" "same_elts hs hs'" "\<forall>x. x \<notin> insert e (set es) \<longrightarrow> hs' x = hs x"
  | (out) "HASH_ADD_TO_BKT mem t hs bkt e = Some (Exit (-1))" "\<not> mem (Expansion_mem (2 * num_buckets t))"
    by blast
  then show ?thesis
  proof cases
    case fine
    then have "table_ok t' hs' (es @ [e])" using tl n by (simp add: table_ok_chains link_simps)
    with fine show ?thesis by blast
  qed simp
qed

lemma keys_ok_cong:
  "keys_ok fcn hs A \<Longrightarrow>
   (\<And>e. e \<in> A \<Longrightarrow> hh_key (hs' e) = hh_key (hs e) \<and> hh_keylen (hs' e) = hh_keylen (hs e) \<and>
     hh_hashv (hs' e) = hh_hashv (hs e)) \<Longrightarrow> keys_ok fcn hs' A"
  by (simp add: keys_ok_def)

text \<open>There is room for one more element, and for doubling the buckets.\<close>

definition hash_room :: "uthash \<Rightarrow> eptr list \<Rightarrow> bool" where
  "hash_room s es \<longleftrightarrow>
     length es + 1 < 2 ^ 32 \<and> (es \<noteq> [] \<longrightarrow> unat (log2_num_buckets (ht_tbl s)) < 31)"

text \<open>What the first half of \<^verbatim>\<open>HASH_ADD_KEYPTR\<close> does to the list of elements.\<close>

lemma hash_append_ok:
  assumes ok: "hash_ok fcn s es" and add: "add \<notin> set es" and mem: "es = [] \<longrightarrow> mem Table_mem \<and> mem Buckets_mem"
    and hs: "hs = set_hh add (\<lambda>h. h\<lparr>hh_next_elt := None, hh_key := key, hh_keylen := kl\<rparr>) (ht_hands s)"
  shows "\<exists>s1. hash_append mem (s\<lparr>ht_hands := hs\<rparr>) add = Return s1 \<and> ht_head s1 = first_or (es @ [add]) None \<and>
    dseg (next_elt (ht_hands s1)) (prev_elt (ht_hands s1)) None (es @ [add]) None \<and>
    ht_tail (ht_tbl s1) = Some add \<and>
    (\<forall>x. (ht_hands s1 x)\<lparr>hh_next_elt := None, hh_prev_elt := None\<rparr> = (hs x)\<lparr>hh_next_elt := None, hh_prev_elt := None\<rparr>) \<and>
    (\<forall>x. x \<notin> set (es @ [add]) \<longrightarrow> ht_hands s1 x = ht_hands s x) \<and>
    (if es = [] then HASH_MAKE_TABLE mem add = Return (ht_tbl s1) else ht_tbl s1 = (ht_tbl s)\<lparr>ht_tail := Some add\<rparr>)"
proof -
  have seg: "dseg (next_elt (ht_hands s)) (prev_elt (ht_hands s)) None es None"
    and hd: "ht_head s = first_or es None" and tl: "es \<noteq> [] \<Longrightarrow> ht_tail (ht_tbl s) = last_or None es"
    using ok by (auto simp: hash_ok_def table_ok_def)
  note sn = dseg_snoc [OF seg add]
  show ?thesis
  proof (cases es rule: rev_cases)
    case Nil
    obtain t where t: "HASH_MAKE_TABLE mem add = Return t" "ht_tail t = Some add"
      using mem Nil by (auto simp: HASH_MAKE_TABLE_def)
    show ?thesis
      using t hd Nil by (simp add: hash_append_def hs set_hh_def)
  next
    case (snoc us u)
    with hd obtain h where h: "ht_head s = Some h" by (cases us) auto
    have u: "ht_tail (ht_tbl s) = Some u" "u \<noteq> add" using tl snoc add by (auto simp: link_simps)
    define hs1 where "hs1 = set_hh add (\<lambda>h. h\<lparr>hh_prev_elt := Some u\<rparr>) (set_hh u (\<lambda>h. h\<lparr>hh_next_elt := Some add\<rparr>) hs)"
    have app: "hash_append mem (s\<lparr>ht_hands := hs\<rparr>) add =
        Return (s\<lparr>ht_tbl := (ht_tbl s)\<lparr>ht_tail := Some add\<rparr>, ht_hands := hs1\<rparr>)"
      by (simp add: hash_append_def h u hs1_def)
    have nx: "next_elt hs1 = append_next (last_or None es) add (next_elt (ht_hands s))"
      and pv: "prev_elt hs1 = (prev_elt (ht_hands s))(add := last_or None es)"
      using u(2) snoc by (auto simp: hs1_def hs set_hh_def append_next_def link_simps fun_eq_iff)
    have fr: "hs1 x = ht_hands s x" if "x \<notin> set (es @ [add])" for x
      using that snoc by (auto simp: hs1_def hs set_hh_def)
    have dt: "(hs1 x)\<lparr>hh_next_elt := None, hh_prev_elt := None\<rparr> = (hs x)\<lparr>hh_next_elt := None, hh_prev_elt := None\<rparr>" for x
      by (simp add: hs1_def set_hh_def)
    have sg: "dseg (next_elt hs1) (prev_elt hs1) None (es @ [add]) None"
      unfolding nx pv by (rule sn)
    have "ht_head s = first_or (es @ [add]) None" "es \<noteq> []" using hd snoc by (simp_all add: link_simps)
    with app sg fr dt show ?thesis by simp
  qed
qed

lemma hash_fields_same:
  assumes "(h' :: UT_hash_handle)\<lparr>hh_next_elt := None, hh_prev_elt := None\<rparr> = h\<lparr>hh_next_elt := None, hh_prev_elt := None\<rparr>"
  shows "hh_prev h' = hh_prev h" "hh_next h' = hh_next h" "hh_key h' = hh_key h" "hh_keylen h' = hh_keylen h"
    "hh_hashv h' = hh_hashv h"
  using assms by (cases h; cases h'; simp)+

lemma HASH_MAKE_TABLE_facts:
  "HASH_MAKE_TABLE mem h = Return t \<Longrightarrow>
   log2_num_buckets t = 5 \<and> buckets t = replicate 32 empty_bucket \<and> num_buckets t = 32 \<and> num_items t = 0"
  by (auto simp: HASH_MAKE_TABLE_def HASH_INITIAL_NUM_BUCKETS_def HASH_INITIAL_NUM_BUCKETS_LOG2_def split: if_splits)

context hash_function
begin

lemma fcn_split: "fcn key n = (fst (fcn key 0), HASH_TO_BKT (fst (fcn key 0)) n)"
  using fcn_hash [of key n 0] fcn_bucket [of key n] by (metis prod.collapse)

text \<open>A new element is appended, whatever its key, unless memory is refused.\<close>

lemma hash_add:
  assumes ok: "hash_ok fcn s es" and add: "add \<notin> set es" and key: "length key < 2 ^ 32"
    and room: "hash_room s es" and tab: "es = [] \<longrightarrow> mem Table_mem \<and> mem Buckets_mem"
  shows "(\<exists>s'. HASH_ADD_KEYPTR fcn mem s key add = Some (Return s') \<and> hash_ok fcn s' (es @ [add]) \<and>
    hh_key (ht_hands s' add) = key \<and> (\<forall>x. x \<noteq> add \<longrightarrow> hh_key (ht_hands s' x) = hh_key (ht_hands s x)) \<and>
    (\<forall>x. x \<notin> set (es @ [add]) \<longrightarrow> ht_hands s' x = ht_hands s x)) \<or>
    (HASH_ADD_KEYPTR fcn mem s key add = Some (Exit (-1)) \<and>
     \<not> mem (Expansion_mem (2 * (if es = [] then 32 else num_buckets (ht_tbl s)))))"
proof -
  define hs0 where "hs0 = set_hh add (\<lambda>h. h\<lparr>hh_next_elt := None, hh_key := key, hh_keylen := of_nat (length key)\<rparr>) (ht_hands s)"
  obtain s1 where s1: "hash_append mem (s\<lparr>ht_hands := hs0\<rparr>) add = Return s1" "ht_head s1 = first_or (es @ [add]) None"
      "dseg (next_elt (ht_hands s1)) (prev_elt (ht_hands s1)) None (es @ [add]) None" "ht_tail (ht_tbl s1) = Some add"
      "\<And>x. (ht_hands s1 x)\<lparr>hh_next_elt := None, hh_prev_elt := None\<rparr> = (hs0 x)\<lparr>hh_next_elt := None, hh_prev_elt := None\<rparr>"
      "\<And>x. x \<notin> set (es @ [add]) \<Longrightarrow> ht_hands s1 x = ht_hands s x"
      "if es = [] then HASH_MAKE_TABLE mem add = Return (ht_tbl s1) else ht_tbl s1 = (ht_tbl s)\<lparr>ht_tail := Some add\<rparr>"
    using hash_append_ok [OF ok add, where mem = mem, OF tab hs0_def] by blast
  define t where "t = (ht_tbl s1)\<lparr>num_items := num_items (ht_tbl s1) + 1\<rparr>"
  define hv where "hv = fst (fcn key 0)"
  define hs1 where "hs1 = set_hh add (\<lambda>h. h\<lparr>hh_hashv := hv\<rparr>) (ht_hands s1)"
  define k where "k = unat (log2_num_buckets t)"
  have fld: "hh_next (hs1 x) = hh_next (ht_hands s x)" "hh_prev (hs1 x) = hh_prev (ht_hands s x)"
      "hh_key (hs1 x) = (if x = add then key else hh_key (ht_hands s x))"
      "hh_keylen (hs1 x) = (if x = add then of_nat (length key) else hh_keylen (ht_hands s x))"
      "hh_hashv (hs1 x) = (if x = add then hv else hh_hashv (ht_hands s x))" for x
    using hash_fields_same [OF s1(5) [of x]] by (simp_all add: hs1_def hs0_def set_hh_def split: if_split_asm)
  have t: "k < 31" "length (buckets t) = 2 ^ k" "num_buckets t = of_nat (2 ^ k)"
      "buckets_ok hs1 (buckets t) (set es)" "num_items t = of_nat (length es + 1)"
  proof -
    have "k < 31 \<and> length (buckets t) = 2 ^ k \<and> num_buckets t = of_nat (2 ^ k) \<and>
        buckets_ok hs1 (buckets t) (set es) \<and> num_items t = of_nat (length es + 1)"
    proof (cases "es = []")
      case True
      with s1(7) HASH_MAKE_TABLE_facts [of mem add "ht_tbl s1"] show ?thesis
        by (auto simp: k_def t_def buckets_ok_def intro!: exI [of _ "[]"])
    next
      case False
      with ok have tab: "table_ok (ht_tbl s) (ht_hands s) es" by (simp add: hash_ok_def)
      then have "buckets_ok (ht_hands s) (buckets (ht_tbl s)) (set es)" by (simp add: table_ok_def)
      then have "buckets_ok hs1 (buckets (ht_tbl s)) (set es)"
        using add by (rule_tac buckets_ok_cong) (auto simp: fld)
      with False s1(7) room tab show ?thesis by (simp add: k_def t_def table_ok_def hash_room_def)
    qed
    then show "k < 31" "length (buckets t) = 2 ^ k" "num_buckets t = of_nat (2 ^ k)"
      "buckets_ok hs1 (buckets t) (set es)" "num_items t = of_nat (length es + 1)" by auto
  qed
  have tl: "ht_tail t = Some add" using s1(4) by (simp add: t_def)
  have len: "length es + 1 < 2 ^ 32" using room by (simp add: hash_room_def)
  have bkt: "unat (HASH_TO_BKT hv (num_buckets t)) = elt_bkt hs1 (2 ^ k) add"
    by (simp add: elt_bkt_def fld t(3))
  have nb: "num_buckets t = (if es = [] then 32 else num_buckets (ht_tbl s))"
    using s1(7) by (auto simp: t_def dest: HASH_MAKE_TABLE_facts)
  have def1: "HASH_ADD_KEYPTR fcn mem s key add =
      (case HASH_ADD_TO_BKT mem t hs1 (unat (HASH_TO_BKT hv (num_buckets t))) add of
         None \<Rightarrow> None
       | Some Abort \<Rightarrow> Some Abort
       | Some (Exit n) \<Rightarrow> Some (Exit n)
       | Some (Return (t', hs')) \<Rightarrow> Some (Return (s1\<lparr>ht_tbl := t', ht_hands := hs'\<rparr>)))"
    using s1(1) by (simp add: HASH_ADD_KEYPTR_def hs0_def [symmetric] t_def [symmetric] fcn_split [of key "num_buckets t"]
        hv_def [symmetric] hs1_def [symmetric])
  show ?thesis
  proof (cases "HASH_ADD_TO_BKT mem t hs1 (unat (HASH_TO_BKT hv (num_buckets t))) add = Some (Exit (-1)) \<and>
      \<not> mem (Expansion_mem (2 * num_buckets t))")
    case True
    then show ?thesis using def1 by (simp add: nb)
  next
    case False
  with HASH_ADD_TO_BKT_ok [where mem = mem, OF _ t(1) t(2) t(3) t(4) add tl len t(5) bkt]
  obtain t' hs' where r: "HASH_ADD_TO_BKT mem t hs1 (unat (HASH_TO_BKT hv (num_buckets t))) add = Some (Return (t', hs'))"
      "table_ok t' hs' (es @ [add])" "same_elts hs1 hs'" "\<forall>x. x \<notin> insert add (set es) \<longrightarrow> hs' x = hs1 x"
    by (auto simp: k_def)
  define s' where "s' = s1\<lparr>ht_tbl := t', ht_hands := hs'\<rparr>"
  have eq: "HASH_ADD_KEYPTR fcn mem s key add = Some (Return s')"
    using def1 r(1) by (simp add: s'_def)
  have sm: "hh_next_elt (hs' x) = hh_next_elt (ht_hands s1 x)" "hh_prev_elt (hs' x) = hh_prev_elt (ht_hands s1 x)"
      "hh_key (hs' x) = hh_key (hs1 x)" "hh_keylen (hs' x) = hh_keylen (hs1 x)" "hh_hashv (hs' x) = hh_hashv (hs1 x)" for x
    using r(3) by (simp_all add: same_elts_def hs1_def set_hh_def)
  have "keys_ok fcn (ht_hands s) (set es)" using ok by (simp add: hash_ok_def)
  then have keys: "keys_ok fcn hs' (set (es @ [add]))"
    using key by (auto simp: keys_ok_def sm fld hv_def)
  have "dseg (next_elt hs') (prev_elt hs') None (es @ [add]) None"
    using s1(3) by (simp add: sm)
  then have "hash_ok fcn s' (es @ [add])"
    using s1(2) keys r(2) by (simp add: hash_ok_def s'_def)
  moreover have "ht_hands s' x = ht_hands s x" if "x \<notin> set (es @ [add])" for x
    using r(4) s1(6) [of x] that by (simp add: s'_def hs1_def set_hh_def)
  ultimately show ?thesis using eq by (simp add: s'_def sm fld)
  qed
qed

end

section \<open>Finding, deleting, iterating\<close>

text \<open>The walk along a chain that ends is a search through its elements.\<close>

lemma HASH_FIND_IN_BKT_search:
  assumes "nseg (next_hh hs) c None"
    and "\<And>e. e \<in> set c \<Longrightarrow> length (hh_key (hs e)) < 2 ^ 32 \<and> hh_keylen (hs e) = of_nat (length (hh_key (hs e)))"
  shows "HASH_FIND_IN_BKT hs key (first_or c None) = Some (List.find (\<lambda>e. hh_key (hs e) = key) c)"
  using assms
proof (induction c)
  case Nil
  then show ?case by (subst HASH_FIND_IN_BKT.simps) simp
next
  case (Cons e c)
  have "unat (hh_keylen (hs e)) = length (hh_key (hs e))" using Cons.prems(2) by (simp add: unat_small)
  then have m: "unat (hh_keylen (hs e)) = length key \<and> take (length key) (hh_key (hs e)) = key \<longleftrightarrow> hh_key (hs e) = key"
    by auto
  then show ?case using Cons by (subst HASH_FIND_IN_BKT.simps) (simp add: m)
qed

lemma HASH_ITER_visits: "nseg (next_elt hs) es None \<Longrightarrow> HASH_ITER hs (first_or es None) = Some es"
proof (induction es)
  case Nil
  then show ?case by (subst HASH_ITER.simps) simp
next
  case (Cons e es)
  then show ?case by (subst HASH_ITER.simps) simp
qed

text \<open>Taking an element out of its chain, as in \<^verbatim>\<open>HASH_DEL_IN_BKT\<close>.\<close>

lemma HASH_DEL_IN_BKT_ok:
  assumes b: "bucket_ok hs b (xs @ e # ys)" and d: "HASH_DEL_IN_BKT b e hs = (b', hs')"
  shows "bucket_ok hs' b' (xs @ ys)" and "same_elts hs hs'" and "\<And>x. x \<notin> set (xs @ ys) \<Longrightarrow> hs' x = hs x"
proof -
  have seg: "dseg (next_hh hs) (prev_hh hs) None (xs @ e # ys) None"
    and hd: "hh_head b = first_or (xs @ e # ys) None" and n: "bkt_count b = of_nat (length (xs @ e # ys))"
    using b by (auto simp: bucket_ok_def)
  have dist: "distinct (xs @ e # ys)" using seg by (rule dseg_distinct)
  have pe: "hh_prev (hs e) = last_or None xs" and ne: "hh_next (hs e) = first_or ys None"
    using seg by (auto simp: link_simps)
  define hs1 where "hs1 = (case hh_prev (hs e) of None \<Rightarrow> hs | Some p \<Rightarrow> set_hh p (\<lambda>h. h\<lparr>hh_next := hh_next (hs e)\<rparr>) hs)"
  have pne: "hh_prev (hs e) \<noteq> Some e" using pe dist by (cases xs rule: rev_cases) (auto simp: link_simps)
  have e1: "hs1 e = hs e" using pne by (auto simp: hs1_def set_hh_def split: option.splits)
  have hs': "hs' = (case hh_next (hs e) of None \<Rightarrow> hs1 | Some n \<Rightarrow> set_hh n (\<lambda>h. h\<lparr>hh_prev := hh_prev (hs e)\<rparr>) hs1)"
    and b': "b' = (if hh_head b = Some e then b\<lparr>bkt_count := bkt_count b - 1, hh_head := hh_next (hs e)\<rparr>
                   else b\<lparr>bkt_count := bkt_count b - 1\<rparr>)"
    using d by (auto simp: HASH_DEL_IN_BKT_def Let_def hs1_def [symmetric] e1 cong: option.case_cong)
  have nx: "next_hh hs' = unlink_next (next_hh hs) (prev_hh hs) e"
    and pv: "prev_hh hs' = unlink_prev (next_hh hs) (prev_hh hs) e"
    by (rule ext, auto simp: hs' hs1_def set_hh_def unlink_next_def unlink_prev_def split: option.splits)+
  show "same_elts hs hs'"
    by (auto simp: same_elts_def hs' hs1_def set_hh_def split: option.splits)
  have "hh_head b' = first_or (xs @ ys) None"
    using first_or_remove [OF seg] hd by (auto simp: b' split: if_splits)
  moreover have "bkt_count b' = of_nat (length (xs @ ys))" using n by (simp add: b')
  ultimately show "bucket_ok hs' b' (xs @ ys)"
    unfolding bucket_ok_def nx pv using dseg_unlink [OF seg] by simp
  have "hh_prev (hs e) = Some x \<Longrightarrow> x \<in> set (xs @ ys)" "hh_next (hs e) = Some x \<Longrightarrow> x \<in> set (xs @ ys)" for x
    using pe ne by (cases xs rule: rev_cases, auto simp: link_simps) (cases ys, auto)
  then show "hs' x = hs x" if "x \<notin> set (xs @ ys)" for x
    using that by (auto simp: hs' hs1_def set_hh_def split: option.splits)
qed

lemma buckets_ok_del:
  assumes ok: "buckets_ok hs bs A" and e: "e \<in> A" "elt_bkt hs (length bs) e < length bs"
    and d: "HASH_DEL_IN_BKT (bs ! elt_bkt hs (length bs) e) e hs = (b', hs')"
  shows "buckets_ok hs' (bs[elt_bkt hs (length bs) e := b']) (A - {e}) \<and> same_elts hs hs' \<and>
    (\<forall>x. x \<notin> A - {e} \<longrightarrow> hs' x = hs x)"
proof -
  define i where "i = elt_bkt hs (length bs) e"
  obtain c where c: "bucket_ok hs (bs ! i) c" "set c = {x \<in> A. elt_bkt hs (length bs) x = i}"
    using ok e(2) unfolding i_def by (rule buckets_okD)
  then have "e \<in> set c" using e(1) by (simp add: i_def)
  then obtain xs ys where xs: "c = xs @ e # ys" by (meson split_list)
  note del = HASH_DEL_IN_BKT_ok [OF c(1) [unfolded xs] d [folded i_def]]
  have "distinct c" using c(1) by (auto simp: bucket_ok_def dest: dseg_distinct)
  then have s: "set (xs @ ys) = {x \<in> A - {e}. elt_bkt hs (length bs) x = i}" using c(2) by (auto simp: xs)
  have bkt: "elt_bkt hs' m x = elt_bkt hs m x" for m x using del(2) by (rule same_elts_bkt)
  have fr: "\<forall>x. x \<notin> A - {e} \<longrightarrow> hs' x = hs x"
  proof (intro allI impI del(3))
    fix x assume "x \<notin> A - {e}"
    then show "x \<notin> set (xs @ ys)" unfolding s by blast
  qed
  have "buckets_ok hs' (bs[i := b']) (A - {e})"
    unfolding buckets_ok_def
  proof (intro allI impI)
    fix j assume j: "j < length (bs[i := b'])"
    show "\<exists>c. bucket_ok hs' (bs[i := b'] ! j) c \<and> set c = {x \<in> A - {e}. elt_bkt hs' (length (bs[i := b'])) x = j}"
    proof (cases "j = i")
      case True
      then show ?thesis using del(1) s j by (intro exI [of _ "xs @ ys"]) (simp add: bkt)
    next
      case False
      obtain f where f: "bucket_ok hs (bs ! j) f" "set f = {x \<in> A. elt_bkt hs (length bs) x = j}"
        using ok j by (auto elim: buckets_okD)
      have "hs' x = hs x" if "x \<in> set f" for x using that f(2) s False by (intro del(3)) auto
      then have "bucket_ok hs' (bs ! j) f" using f(1) by (subst bucket_ok_cong [of f hs' hs]) auto
      then show ?thesis using False f(2) by (intro exI [of _ f]) (auto simp: bkt i_def)
    qed
  qed
  with del(2) fr show ?thesis by (simp add: i_def)
qed

lemma hash_okD:
  assumes "hash_ok fcn s es"
  shows "ht_head s = first_or es None" "dseg (next_elt (ht_hands s)) (prev_elt (ht_hands s)) None es None"
    "keys_ok fcn (ht_hands s) (set es)" "es \<noteq> [] \<Longrightarrow> table_ok (ht_tbl s) (ht_hands s) es" "distinct es"
  using assms dseg_distinct by (auto simp: hash_ok_def)

text \<open>Deleting an element: the order of the others stays, and so do their keys.\<close>

lemma hash_delete:
  assumes ok: "hash_ok fcn s (xs @ e # ys)"
  shows "hash_ok fcn (HASH_DELETE s e) (xs @ ys)"
    and "\<forall>x. hh_key (ht_hands (HASH_DELETE s e) x) = hh_key (ht_hands s x)"
    and "xs @ ys \<noteq> [] \<longrightarrow> log2_num_buckets (ht_tbl (HASH_DELETE s e)) = log2_num_buckets (ht_tbl s)"
proof -
  define hs where "hs = ht_hands s"
  define t where "t = ht_tbl s"
  note h = hash_okD [OF ok, folded hs_def t_def]
  have seg: "dseg (next_elt hs) (prev_elt hs) None (xs @ e # ys) None" by (rule h(2))
  have pe: "hh_prev_elt (hs e) = last_or None xs" and ne: "hh_next_elt (hs e) = first_or ys None"
    using seg by (auto simp: link_simps)
  have t: "table_ok t hs (xs @ e # ys)" using h(4) by simp
  have "hash_ok fcn (HASH_DELETE s e) (xs @ ys) \<and>
      (\<forall>x. hh_key (ht_hands (HASH_DELETE s e) x) = hh_key (ht_hands s x)) \<and>
      (xs @ ys \<noteq> [] \<longrightarrow> log2_num_buckets (ht_tbl (HASH_DELETE s e)) = log2_num_buckets (ht_tbl s))"
  proof (cases "xs = [] \<and> ys = []")
    case True
    then have "HASH_DELETE s e = s\<lparr>ht_head := None\<rparr>"
      using pe ne by (simp add: HASH_DELETE_def Let_def hs_def)
    with True show ?thesis by (simp add: hash_ok_def keys_ok_def)
  next
    case False
    define t1 where "t1 = (if ht_tail t = Some e then t\<lparr>ht_tail := hh_prev_elt (hs e)\<rparr> else t)"
    define hs1 where "hs1 = (case hh_prev_elt (hs e) of
        Some p \<Rightarrow> set_hh p (\<lambda>h. h\<lparr>hh_next_elt := hh_next_elt (hs e)\<rparr>) hs | None \<Rightarrow> hs)"
    define h1 where "h1 = (case hh_prev_elt (hs e) of Some p \<Rightarrow> ht_head s | None \<Rightarrow> hh_next_elt (hs e))"
    have "hh_prev_elt (hs e) \<noteq> Some e" using pe h(5) by (cases xs rule: rev_cases) (auto simp: link_simps)
    then have e1: "hs1 e = hs e" by (auto simp: hs1_def set_hh_def split: option.splits)
    define hs2 where "hs2 = (case hh_next_elt (hs e) of
        Some n \<Rightarrow> set_hh n (\<lambda>h. h\<lparr>hh_prev_elt := hh_prev_elt (hs e)\<rparr>) hs1 | None \<Rightarrow> hs1)"
    have sm: "hh_next (hs2 x) = hh_next (hs x)" "hh_prev (hs2 x) = hh_prev (hs x)" "hh_key (hs2 x) = hh_key (hs x)"
        "hh_keylen (hs2 x) = hh_keylen (hs x)" "hh_hashv (hs2 x) = hh_hashv (hs x)" for x
      by (auto simp: hs2_def hs1_def set_hh_def split: option.splits)
    have nx: "next_elt hs2 = unlink_next (next_elt hs) (prev_elt hs) e"
      and pv: "prev_elt hs2 = unlink_prev (next_elt hs) (prev_elt hs) e"
      by (rule ext, auto simp: hs2_def hs1_def set_hh_def unlink_next_def unlink_prev_def split: option.splits)+
    define k where "k = unat (log2_num_buckets t)"
    have k: "k < 32" "length (buckets t) = 2 ^ k" "num_buckets t = of_nat (2 ^ k)" "buckets_ok hs (buckets t) (set (xs @ e # ys))"
        "ht_tail t = last_or None (xs @ e # ys)" "length (xs @ e # ys) < 2 ^ 32" "num_items t = of_nat (length (xs @ e # ys))"
      using t by (simp_all add: table_ok_def k_def)
    have t1: "buckets t1 = buckets t" "num_buckets t1 = num_buckets t" "num_items t1 = num_items t"
        "log2_num_buckets t1 = log2_num_buckets t" by (simp_all add: t1_def)
    have bkt: "unat (HASH_TO_BKT (hh_hashv (hs2 e)) (num_buckets t)) = elt_bkt hs2 (2 ^ k) e"
      by (simp add: elt_bkt_def k(3))
    obtain b hs3 where d: "HASH_DEL_IN_BKT (buckets t ! elt_bkt hs2 (2 ^ k) e) e hs2 = (b, hs3)" by fastforce
    define s' where "s' = s\<lparr>ht_head := h1,
        ht_tbl := t1\<lparr>buckets := (buckets t)[elt_bkt hs2 (2 ^ k) e := b], num_items := num_items t - 1\<rparr>, ht_hands := hs3\<rparr>"
    have "\<not> (hh_prev_elt (hs e) = None \<and> hh_next_elt (hs e) = None)" using False pe ne by (auto simp: link_simps)
    moreover have "(case hh_prev_elt (hs e) of
          Some p \<Rightarrow> (ht_head s, set_hh p (\<lambda>h. h\<lparr>hh_next_elt := hh_next_elt (hs e)\<rparr>) hs)
        | None \<Rightarrow> (hh_next_elt (hs e), hs)) = (h1, hs1)"
      by (simp add: h1_def hs1_def split: option.split)
    moreover have "(case hh_next_elt (hs1 e) of
          Some n \<Rightarrow> set_hh n (\<lambda>h. h\<lparr>hh_prev_elt := hh_prev_elt (hs1 e)\<rparr>) hs1 | None \<Rightarrow> hs1) = hs2"
      by (simp add: hs2_def e1 cong: option.case_cong)
    ultimately have eq: "HASH_DELETE s e = s'"
      unfolding HASH_DELETE_def Let_def hs_def [symmetric] t_def [symmetric] t1_def [symmetric]
      using d by (simp add: s'_def t1 bkt) auto
    have "buckets_ok hs2 (buckets t) (set (xs @ e # ys))" using k(4) by (rule buckets_ok_cong) (simp add: sm)
    from buckets_ok_del [OF this, of e b hs3] d k(1,2) elt_bkt_less [of k hs2 e]
    have del: "buckets_ok hs3 ((buckets t)[elt_bkt hs2 (2 ^ k) e := b]) (set (xs @ e # ys) - {e})" "same_elts hs2 hs3"
      by simp_all
    have "set (xs @ e # ys) - {e} = set (xs @ ys)" using h(5) by auto
    moreover have "ht_tail t1 = last_or None (xs @ ys)"
      using last_or_remove [OF seg] k(5) by (auto simp: t1_def split: if_splits)
    ultimately have tab: "table_ok (ht_tbl s') (ht_hands s') (xs @ ys)"
      using del(1) k by (simp add: table_ok_def s'_def t1 k_def)
    have "dseg (next_elt hs2) (prev_elt hs2) None (xs @ ys) None" unfolding nx pv using seg by (rule dseg_unlink)
    then have "dseg (next_elt hs3) (prev_elt hs3) None (xs @ ys) None" using del(2) by (simp add: same_elts_def)
    moreover have "h1 = first_or (xs @ ys) None"
      using h(1) pe ne by (cases xs rule: rev_cases) (auto simp: h1_def link_simps)
    moreover have "keys_ok fcn hs3 (set (xs @ ys))"
      using h(3) del(2) by (auto simp: keys_ok_def same_elts_def sm)
    ultimately have "hash_ok fcn s' (xs @ ys)" using tab by (simp add: hash_ok_def s'_def)
    moreover have "hh_key (hs3 x) = hh_key (hs x)" for x using del(2) by (simp add: same_elts_def sm)
    ultimately show ?thesis by (simp add: eq s'_def hs_def t1 t_def [symmetric])
  qed
  then show "hash_ok fcn (HASH_DELETE s e) (xs @ ys)"
    and "\<forall>x. hh_key (ht_hands (HASH_DELETE s e) x) = hh_key (ht_hands s x)"
    and "xs @ ys \<noteq> [] \<longrightarrow> log2_num_buckets (ht_tbl (HASH_DELETE s e)) = log2_num_buckets (ht_tbl s)" by auto
qed

section \<open>The table as a map\<close>

text \<open>
  The keys of the elements are distinct, at most \<open>n\<close> elements have been added and \<open>m\<close> is the map.  There
  are at most \<open>2 ^ 30\<close> buckets, because no machine has the 32 GiB for an array of \<open>2 ^ 31\<close> (\<open>alloc_ok\<close>).
\<close>

definition alloc_ok :: "(request \<Rightarrow> bool) \<Rightarrow> bool" where
  "alloc_ok mem \<longleftrightarrow> (\<forall>n. mem (Expansion_mem n) \<longrightarrow> unat n < 2 ^ 31)"

text \<open>Memory was refused that a table after \<open>n\<close> additions may ask for.\<close>

definition refused :: "(request \<Rightarrow> bool) \<Rightarrow> nat \<Rightarrow> bool" where
  "refused mem n \<longleftrightarrow> (\<exists>req. \<not> mem req \<and> (\<forall>b. req = Expansion_mem b \<longrightarrow> unat b \<le> 2 ^ (6 + n)))"

definition hash_maps ::
    "(byte list \<Rightarrow> 32 word \<Rightarrow> 32 word \<times> 32 word) \<Rightarrow> nat \<Rightarrow> uthash \<Rightarrow> (byte list \<rightharpoonup> eptr) \<Rightarrow> bool" where
  "hash_maps fcn n s m \<longleftrightarrow>
     (\<exists>es. hash_ok fcn s es \<and> length es \<le> n \<and> (es \<noteq> [] \<longrightarrow> unat (log2_num_buckets (ht_tbl s)) \<le> min 30 (5 + n)) \<and>
       inj_on (\<lambda>e. hh_key (ht_hands s e)) (set es) \<and>
       (\<forall>key e. m key = Some e \<longleftrightarrow> e \<in> set es \<and> hh_key (ht_hands s e) = key))"

lemma hash_maps_empty: "ht_head s = None \<Longrightarrow> hash_maps fcn n s Map.empty"
  by (auto simp: hash_maps_def hash_ok_def keys_ok_def intro!: exI [of _ "[]"])

lemma find_matches:
  "List.find P xs = None \<Longrightarrow> x \<in> set xs \<Longrightarrow> \<not> P x"
  "List.find P xs = Some y \<Longrightarrow> y \<in> set xs \<and> P y"
  by (auto simp: find_None_iff find_Some_iff)

lemma HASH_EXPAND_BUCKETS_log2:
  "HASH_EXPAND_BUCKETS mem t hs = Some (Return (t', hs')) \<Longrightarrow>
   log2_num_buckets t' = log2_num_buckets t + 1 \<and> mem (Expansion_mem (2 * num_buckets t))"
  by (auto simp: HASH_EXPAND_BUCKETS_def Let_def split: if_splits option.splits outcome.splits)

lemma HASH_ADD_TO_BKT_log2:
  "HASH_ADD_TO_BKT mem t hs b e = Some (Return (t', hs')) \<Longrightarrow>
   log2_num_buckets t' = log2_num_buckets t \<or>
   log2_num_buckets t' = log2_num_buckets t + 1 \<and> mem (Expansion_mem (2 * num_buckets t))"
  by (auto simp: HASH_ADD_TO_BKT_def Let_def dest: HASH_EXPAND_BUCKETS_log2 split: prod.splits if_splits)

text \<open>An element added doubles the buckets at most once, and no further than memory allows.\<close>

lemma HASH_ADD_KEYPTR_log2:
  assumes add: "HASH_ADD_KEYPTR fcn mem s key add = Some (Return s')" and mem: "alloc_ok mem"
    and k: "k = (if ht_head s = None then 5 else unat (log2_num_buckets (ht_tbl s)))" "k \<le> 30"
    and nb: "ht_head s \<noteq> None \<Longrightarrow> num_buckets (ht_tbl s) = of_nat (2 ^ k)"
  shows "unat (log2_num_buckets (ht_tbl s')) \<le> min 30 (k + 1)"
proof -
  obtain s1 where s1: "hash_append mem (s\<lparr>ht_hands := set_hh add (\<lambda>h. h\<lparr>hh_next_elt := None, hh_key := key,
        hh_keylen := of_nat (length key)\<rparr>) (ht_hands s)\<rparr>) add = Return s1"
    using add by (auto simp: HASH_ADD_KEYPTR_def Let_def split: outcome.splits)
  obtain t hs b t' hs' where t: "HASH_ADD_TO_BKT mem t hs b add = Some (Return (t', hs'))"
      "log2_num_buckets t = log2_num_buckets (ht_tbl s1)" "num_buckets t = num_buckets (ht_tbl s1)" "ht_tbl s' = t'"
    using add s1 by (fastforce simp: HASH_ADD_KEYPTR_def Let_def split: prod.splits option.splits outcome.splits)
  have "unat (log2_num_buckets (ht_tbl s1)) = k \<and> num_buckets (ht_tbl s1) = of_nat (2 ^ k)"
    using s1 k nb by (auto simp: hash_append_def dest: HASH_MAKE_TABLE_facts split: option.splits outcome.splits)
  then have lg: "unat (log2_num_buckets t) = k" and nbt: "2 * num_buckets t = of_nat (2 ^ Suc k)" using t by simp_all
  show ?thesis
  proof (cases "log2_num_buckets t' = log2_num_buckets t")
    case True
    then show ?thesis using lg k(2) t(4) by simp
  next
    case False
    with HASH_ADD_TO_BKT_log2 [OF t(1)] have up: "log2_num_buckets t' = log2_num_buckets t + 1"
        "mem (Expansion_mem (2 * num_buckets t))" by auto
    from up(2) mem have "unat (of_nat (2 ^ Suc k) :: 32 word) < 2 ^ 31" by (simp only: nbt alloc_ok_def)
    moreover have "unat (of_nat (2 ^ Suc k) :: 32 word) = 2 ^ Suc k" using k(2) by (intro unat_power) simp
    ultimately have "2 ^ Suc k < (2 :: nat) ^ 31" by simp
    then have "Suc k < 31" by (rule power_less_imp_less_exp [rotated]) simp
    moreover have "unat (log2_num_buckets t + 1) = Suc k" using lg k(2) by (simp add: unat_word_ariths)
    ultimately show ?thesis using up(1) t(4) by simp
  qed
qed

context hash_function
begin

lemma hash_find:
  assumes ok: "hash_ok fcn s es"
  shows "\<exists>res. HASH_FIND fcn s key = Some res \<and>
    (res = None \<longrightarrow> (\<forall>e \<in> set es. hh_key (ht_hands s e) \<noteq> key)) \<and>
    (\<forall>e. res = Some e \<longrightarrow> e \<in> set es \<and> hh_key (ht_hands s e) = key)"
proof (cases es)
  case Nil
  with hash_okD(1) [OF ok] show ?thesis by (simp add: HASH_FIND_def)
next
  case (Cons h hs)
  define k where "k = unat (log2_num_buckets (ht_tbl s))"
  have t: "k < 32" "length (buckets (ht_tbl s)) = 2 ^ k" "num_buckets (ht_tbl s) = of_nat (2 ^ k)"
      "buckets_ok (ht_hands s) (buckets (ht_tbl s)) (set es)"
    using hash_okD(4) [OF ok] Cons by (simp_all add: table_ok_def k_def)
  define i where "i = unat (HASH_TO_BKT (fst (fcn key 0)) (of_nat (2 ^ k)))"
  have i: "i < length (buckets (ht_tbl s))" using HASH_TO_BKT_less [OF t(1)] by (simp only: i_def t(2))
  obtain c where c: "bucket_ok (ht_hands s) (buckets (ht_tbl s) ! i) c"
      "set c = {e \<in> set es. elt_bkt (ht_hands s) (2 ^ k) e = i}"
    using t(4) i by (auto simp: t(2) elim: buckets_okD)
  have ko: "length (hh_key (ht_hands s e)) < 2 ^ 32 \<and> hh_keylen (ht_hands s e) = of_nat (length (hh_key (ht_hands s e)))"
    and hv: "hh_hashv (ht_hands s e) = fst (fcn (hh_key (ht_hands s e)) 0)" if "e \<in> set es" for e
    using hash_okD(3) [OF ok] that by (simp_all add: keys_ok_def)
  have "HASH_FIND fcn s key = HASH_FIND_IN_BKT (ht_hands s) key (hh_head (buckets (ht_tbl s) ! i))"
    using hash_okD(1) [OF ok] Cons by (simp add: HASH_FIND_def fcn_split [of key "2 ^ k"] t(3) i_def)
  also have "\<dots> = HASH_FIND_IN_BKT (ht_hands s) key (first_or c None)" using c(1) by (simp add: bucket_ok_def)
  also have "\<dots> = Some (List.find (\<lambda>e. hh_key (ht_hands s e) = key) c)"
    using c ko by (intro HASH_FIND_IN_BKT_search) (auto simp: bucket_ok_def dest: dseg_nseg)
  finally have f: "HASH_FIND fcn s key = Some (List.find (\<lambda>e. hh_key (ht_hands s e) = key) c)" .
  have "e \<in> set c" if "e \<in> set es" "hh_key (ht_hands s e) = key" for e
    using that hv by (simp add: c(2) elt_bkt_def i_def)
  then have all: "e \<in> set es \<Longrightarrow> hh_key (ht_hands s e) = key \<Longrightarrow> e \<in> set c" for e by blast
  define res where "res = List.find (\<lambda>e. hh_key (ht_hands s e) = key) c"
  have "res = None \<longrightarrow> (\<forall>e \<in> set es. hh_key (ht_hands s e) \<noteq> key)"
    using all by (auto simp: res_def find_None_iff)
  moreover have "e \<in> set es \<and> hh_key (ht_hands s e) = key" if "res = Some e" for e
    using find_matches(2) [OF that [unfolded res_def]] c(2) by simp
  ultimately show ?thesis using f [folded res_def] by blast
qed

lemma hash_maps_snoc:
  assumes ok: "hash_ok fcn s' (es @ [e])" and len: "length es \<le> n"
    and lg: "unat (log2_num_buckets (ht_tbl s')) \<le> min 30 (5 + Suc n)"
    and inj: "inj_on (\<lambda>e. hh_key (ht_hands s e)) (set es)"
    and m: "\<And>key e. m key = Some e \<longleftrightarrow> e \<in> set es \<and> hh_key (ht_hands s e) = key"
    and e: "e \<notin> set es" "m key = None" "hh_key (ht_hands s' e) = key"
    and other: "\<And>x. x \<noteq> e \<Longrightarrow> hh_key (ht_hands s' x) = hh_key (ht_hands s x)"
  shows "hash_maps fcn (Suc n) s' (m(key \<mapsto> e))"
proof -
  have same: "hh_key (ht_hands s' x) = hh_key (ht_hands s x)" if "x \<in> set es" for x
    using that e(1) by (intro other) auto
  have absent: "hh_key (ht_hands s x) \<noteq> key" if "x \<in> set es" for x
    using m [of key x] e(2) that by auto
  have "inj_on (\<lambda>e. hh_key (ht_hands s' e)) (set es)"
    using inj same by (simp add: inj_on_def)
  moreover have "key \<notin> (\<lambda>e. hh_key (ht_hands s' e)) ` set es"
    using absent same by (auto simp: image_iff)
  ultimately have "inj_on (\<lambda>e. hh_key (ht_hands s' e)) (set (es @ [e]))"
    using e(3) by (auto simp: inj_on_insert)
  moreover have "(m(key \<mapsto> e)) k = Some x \<longleftrightarrow> x \<in> set (es @ [e]) \<and> hh_key (ht_hands s' x) = k" for k x
  proof (cases "x = e")
    case True
    then show ?thesis using e(1,3) m [of k e] by simp
  next
    case False
    then show ?thesis using m [of k x] absent [of x] same [of x] by auto
  qed
  ultimately show ?thesis
    using ok len lg by (auto simp: hash_maps_def intro!: exI [of _ "es @ [e]"])
qed

lemma hash_find_maps: "hash_maps fcn n s m \<Longrightarrow> HASH_FIND fcn s key = Some (m key)"
proof -
  assume "hash_maps fcn n s m"
  then obtain es where es: "hash_ok fcn s es" "inj_on (\<lambda>e. hh_key (ht_hands s e)) (set es)"
      "\<And>key e. m key = Some e \<longleftrightarrow> e \<in> set es \<and> hh_key (ht_hands s e) = key"
    by (auto simp: hash_maps_def)
  obtain res where f: "HASH_FIND fcn s key = Some res" and res: "res = None \<Longrightarrow> \<forall>e \<in> set es. hh_key (ht_hands s e) \<noteq> key"
      "\<And>e. res = Some e \<Longrightarrow> e \<in> set es \<and> hh_key (ht_hands s e) = key"
    using hash_find [OF es(1), of key] by blast
  have "res = m key"
  proof (cases res)
    case None
    with res(1) es(3) [of key] show ?thesis by (cases "m key") auto
  next
    case (Some e)
    with res(2) es(3) [of key e] show ?thesis by simp
  qed
  with f show ?thesis by simp
qed

lemma hash_add_maps:
  assumes mem: "alloc_ok mem" and rep: "hash_maps fcn n s m" and n: "n < 2 ^ 32 - 2"
    and key: "length key < 2 ^ 32" "m key = None" and e: "e \<notin> ran m"
  shows "(\<exists>s'. HASH_ADD_KEYPTR fcn mem s key e = Some (Return s') \<and> hash_maps fcn (Suc n) s' (m(key \<mapsto> e))) \<or>
    (HASH_ADD_KEYPTR fcn mem s key e = Some (Exit (-1)) \<and> refused mem n)"
proof -
  obtain es where es: "hash_ok fcn s es" "length es \<le> n" "es \<noteq> [] \<Longrightarrow> unat (log2_num_buckets (ht_tbl s)) \<le> min 30 (5 + n)"
      "inj_on (\<lambda>e. hh_key (ht_hands s e)) (set es)"
      "\<And>key e. m key = Some e \<longleftrightarrow> e \<in> set es \<and> hh_key (ht_hands s e) = key"
    using rep by (auto simp: hash_maps_def)
  define k where "k = (if ht_head s = None then 5 else unat (log2_num_buckets (ht_tbl s)))"
  have nil: "ht_head s = None \<longleftrightarrow> es = []" using hash_okD(1) [OF es(1)] by (simp add: link_simps)
  have k: "k \<le> min 30 (5 + n)" using es(3) nil by (auto simp: k_def)
  have nb: "es \<noteq> [] \<Longrightarrow> num_buckets (ht_tbl s) = of_nat (2 ^ k)"
    using hash_okD(4) [OF es(1)] nil by (auto simp: table_ok_def k_def)
  have ne: "e \<notin> set es" using e es(5) by (auto simp: ran_def)
  have room: "hash_room s es" using es(2,3) n by (auto simp: hash_room_def)
  show ?thesis
  proof (cases "(es = [] \<longrightarrow> mem Table_mem \<and> mem Buckets_mem) \<and> HASH_ADD_KEYPTR fcn mem s key e \<noteq> Some (Exit (-1))")
    case True
    with hash_add [where mem = mem, OF es(1) ne key(1) room]
    obtain s' where s': "HASH_ADD_KEYPTR fcn mem s key e = Some (Return s')" "hash_ok fcn s' (es @ [e])"
        "hh_key (ht_hands s' e) = key" "\<And>x. x \<noteq> e \<Longrightarrow> hh_key (ht_hands s' x) = hh_key (ht_hands s x)"
      by blast
    have "unat (log2_num_buckets (ht_tbl s')) \<le> min 30 (k + 1)"
      using k nb nil by (intro HASH_ADD_KEYPTR_log2 [OF s'(1) mem k_def]) auto
    with k have lg: "unat (log2_num_buckets (ht_tbl s')) \<le> min 30 (5 + Suc n)" by linarith
    show ?thesis using hash_maps_snoc [OF s'(2) es(2) lg es(4,5) ne key(2) s'(3,4)] s'(1) by simp
  next
    case False
    have "refused mem n \<and> HASH_ADD_KEYPTR fcn mem s key e = Some (Exit (-1))"
    proof (cases "es = [] \<longrightarrow> mem Table_mem \<and> mem Buckets_mem")
      case True
      with False hash_add [where mem = mem, OF es(1) ne key(1) room] nb
      have ex: "HASH_ADD_KEYPTR fcn mem s key e = Some (Exit (-1))" "\<not> mem (Expansion_mem (2 * of_nat (2 ^ k)))"
        using nil by (auto simp: k_def split: if_splits)
      have "unat (2 * of_nat (2 ^ k) :: 32 word) = 2 ^ Suc k"
        using k unat_power [of "Suc k"] by simp
      also have "\<dots> \<le> 2 ^ (6 + n)" using k by (intro power_increasing) simp_all
      finally show ?thesis using ex by (auto simp: refused_def)
    next
      case none: False
      then have "\<exists>req. \<not> mem req \<and> (\<forall>b. req \<noteq> Expansion_mem b)" by blast
      then show ?thesis
        using none nil by (auto simp: refused_def HASH_ADD_KEYPTR_def hash_append_def HASH_MAKE_TABLE_def Let_def)
    qed
    then show ?thesis by simp
  qed
qed

lemma hash_delete_maps:
  assumes rep: "hash_maps fcn n s m" and e: "m key = Some e"
  shows "hash_maps fcn n (HASH_DELETE s e) (m(key := None))"
proof -
  obtain es where es: "hash_ok fcn s es" "length es \<le> n" "es \<noteq> [] \<Longrightarrow> unat (log2_num_buckets (ht_tbl s)) \<le> min 30 (5 + n)"
      "inj_on (\<lambda>e. hh_key (ht_hands s e)) (set es)"
      "\<And>key e. m key = Some e \<longleftrightarrow> e \<in> set es \<and> hh_key (ht_hands s e) = key"
    using rep by (auto simp: hash_maps_def)
  have "e \<in> set es" using e es(5) by blast
  then obtain xs ys where xs: "es = xs @ e # ys" by (meson split_list)
  note del = hash_delete [OF es(1) [unfolded xs]]
  have d: "distinct es" using es(1) by (rule hash_okD)
  have "inj_on (\<lambda>x. hh_key (ht_hands (HASH_DELETE s e) x)) (set (xs @ ys))"
    using es(4) del(2) by (simp add: xs inj_on_def)
  moreover have "(m(key := None)) k = Some x \<longleftrightarrow> x \<in> set (xs @ ys) \<and> hh_key (ht_hands (HASH_DELETE s e) x) = k" for k x
  proof -
    have "hh_key (ht_hands s e) = key" using e es(5) by blast
    moreover have "x \<in> set (xs @ ys) \<longleftrightarrow> x \<in> set es \<and> x \<noteq> e" using d by (auto simp: xs)
    moreover have "x \<noteq> e \<and> x \<in> set es \<Longrightarrow> hh_key (ht_hands s x) \<noteq> key"
      using es(5) [of key x] e by auto
    ultimately show ?thesis using es(5) [of k x] del(2) by auto
  qed
  moreover have "xs @ ys \<noteq> [] \<longrightarrow> unat (log2_num_buckets (ht_tbl (HASH_DELETE s e))) \<le> min 30 (5 + n)"
    using del(3) es(3) by (auto simp: xs)
  ultimately show ?thesis
    using del(1) es(2) by (auto simp: hash_maps_def xs intro!: exI [of _ "xs @ ys"])
qed

end

section \<open>The contract of a keyed table\<close>

text \<open>
  What a client of the table relies on: lookups answer like a map, adding and replacing update it or
  end the process when memory is refused, deleting an element removes its key.  \<open>rep n s m\<close> says that
  the table \<open>s\<close> represents \<open>m\<close> after at most \<open>n\<close> additions, of which there are no more than \<open>limit\<close>, and
  \<open>short n\<close> that memory is refused to such a table.
\<close>

locale key_map =
  fixes rep :: "nat \<Rightarrow> 's \<Rightarrow> (byte list \<rightharpoonup> 'e) \<Rightarrow> bool"
    and find_key :: "'s \<Rightarrow> byte list \<Rightarrow> 'e option option"
    and add_key :: "'s \<Rightarrow> byte list \<Rightarrow> 'e \<Rightarrow> 's outcome option"
    and replace_key :: "'s \<Rightarrow> byte list \<Rightarrow> 'e \<Rightarrow> ('e option \<times> 's) outcome option"
    and del_elt :: "'s \<Rightarrow> 'e \<Rightarrow> 's"
    and limit :: nat
    and short :: "nat \<Rightarrow> bool"
  assumes find_rep: "rep n s m \<Longrightarrow> find_key s k = Some (m k)"
    and add_rep: "rep n s m \<Longrightarrow> n < limit \<Longrightarrow> length k < 2 ^ 32 \<Longrightarrow> m k = None \<Longrightarrow> e \<notin> ran m \<Longrightarrow>
      (\<exists>s'. add_key s k e = Some (Return s') \<and> rep (Suc n) s' (m(k \<mapsto> e))) \<or>
      (add_key s k e = Some (Exit (-1)) \<and> short n)"
    and short_mono: "short n \<Longrightarrow> n \<le> n' \<Longrightarrow> short n'"
    and del_rep: "rep n s m \<Longrightarrow> m k = Some e \<Longrightarrow> rep n (del_elt s e) (m(k := None))"
    and replace_eq: "replace_key s k e =
      (case find_key s k of
         None \<Rightarrow> None
       | Some old \<Rightarrow>
           (case add_key (case old of None \<Rightarrow> s | Some x \<Rightarrow> del_elt s x) k e of
              None \<Rightarrow> None
            | Some Abort \<Rightarrow> Some Abort
            | Some (Exit c) \<Rightarrow> Some (Exit c)
            | Some (Return s') \<Rightarrow> Some (Return (old, s'))))"
begin

lemma replace_rep:
  assumes rep: "rep n s m" and n: "n < limit" and k: "length k < 2 ^ 32" and e: "e \<notin> ran (m(k := None))"
  shows "(\<exists>s'. replace_key s k e = Some (Return (m k, s')) \<and> rep (Suc n) s' (m(k \<mapsto> e))) \<or>
    (replace_key s k e = Some (Exit (-1)) \<and> short n)"
proof -
  define s0 where "s0 = (case m k of None \<Rightarrow> s | Some x \<Rightarrow> del_elt s x)"
  have "rep n s0 (m(k := None))"
  proof (cases "m k")
    case None
    then have "m(k := None) = m" by (metis fun_upd_triv)
    with None rep show ?thesis by (simp add: s0_def)
  next
    case (Some x)
    with rep show ?thesis by (simp add: s0_def del_rep)
  qed
  from add_rep [OF this n k _ e]
  have "(\<exists>s'. add_key s0 k e = Some (Return s') \<and> rep (Suc n) s' (m(k \<mapsto> e))) \<or>
      (add_key s0 k e = Some (Exit (-1)) \<and> short n)" by simp
  then show ?thesis using rep by (auto simp: replace_eq find_rep s0_def [symmetric])
qed

end

text \<open>Sequences of operations on a table, and on the map it stands for.\<close>

datatype 'e map_op = Op_replace "byte list" 'e | Op_remove "byte list" | Op_find "byte list"

primrec map_step :: "'e map_op \<Rightarrow> (byte list \<rightharpoonup> 'e) \<Rightarrow> 'e option \<times> (byte list \<rightharpoonup> 'e)" where
  "map_step (Op_replace k e) m = (m k, m(k \<mapsto> e))"
| "map_step (Op_remove k) m = (m k, m(k := None))"
| "map_step (Op_find k) m = (m k, m)"

fun map_run :: "'e map_op list \<Rightarrow> (byte list \<rightharpoonup> 'e) \<Rightarrow> 'e option list \<times> (byte list \<rightharpoonup> 'e)" where
  "map_run [] m = ([], m)"
| "map_run (op # ops) m =
     (case map_step op m of (ans, m') \<Rightarrow> case map_run ops m' of (as, m'') \<Rightarrow> (ans # as, m''))"

text \<open>Keys have a length that fits an \<^verbatim>\<open>unsigned\<close>, and an element is in the table once.\<close>

primrec op_valid :: "'e map_op \<Rightarrow> (byte list \<rightharpoonup> 'e) \<Rightarrow> bool" where
  "op_valid (Op_replace k e) m = (length k < 2 ^ 32 \<and> e \<notin> ran (m(k := None)))"
| "op_valid (Op_remove k) m = True"
| "op_valid (Op_find k) m = True"

fun ops_valid :: "'e map_op list \<Rightarrow> (byte list \<rightharpoonup> 'e) \<Rightarrow> bool" where
  "ops_valid [] m = True"
| "ops_valid (op # ops) m = (op_valid op m \<and> ops_valid ops (snd (map_step op m)))"

primrec op_step ::
    "('s \<Rightarrow> byte list \<Rightarrow> 'e option option) \<Rightarrow> ('s \<Rightarrow> byte list \<Rightarrow> 'e \<Rightarrow> ('e option \<times> 's) outcome option) \<Rightarrow>
     ('s \<Rightarrow> 'e \<Rightarrow> 's) \<Rightarrow> 'e map_op \<Rightarrow> 's \<Rightarrow> ('e option \<times> 's) outcome option" where
  "op_step fnd rpl del (Op_replace k e) s = rpl s k e"
| "op_step fnd rpl del (Op_remove k) s =
     (case fnd s k of
        None \<Rightarrow> None
      | Some None \<Rightarrow> Some (Return (None, s))
      | Some (Some e) \<Rightarrow> Some (Return (Some e, del s e)))"
| "op_step fnd rpl del (Op_find k) s =
     (case fnd s k of None \<Rightarrow> None | Some ans \<Rightarrow> Some (Return (ans, s)))"

fun op_run ::
    "('s \<Rightarrow> byte list \<Rightarrow> 'e option option) \<Rightarrow> ('s \<Rightarrow> byte list \<Rightarrow> 'e \<Rightarrow> ('e option \<times> 's) outcome option) \<Rightarrow>
     ('s \<Rightarrow> 'e \<Rightarrow> 's) \<Rightarrow> 'e map_op list \<Rightarrow> 's \<Rightarrow> ('e option list \<times> 's) outcome option" where
  "op_run fnd rpl del [] s = Some (Return ([], s))"
| "op_run fnd rpl del (op # ops) s =
     (case op_step fnd rpl del op s of
        None \<Rightarrow> None
      | Some Abort \<Rightarrow> Some Abort
      | Some (Exit c) \<Rightarrow> Some (Exit c)
      | Some (Return (ans, s')) \<Rightarrow>
          (case op_run fnd rpl del ops s' of
             None \<Rightarrow> None
           | Some Abort \<Rightarrow> Some Abort
           | Some (Exit c) \<Rightarrow> Some (Exit c)
           | Some (Return (as, s'')) \<Rightarrow> Some (Return (ans # as, s''))))"

context key_map
begin

lemma step_rep:
  assumes "rep n s m" and "n < limit" and "op_valid op m"
  shows "(\<exists>s'. op_step find_key replace_key del_elt op s = Some (Return (fst (map_step op m), s')) \<and>
    (rep n s' (snd (map_step op m)) \<or> rep (Suc n) s' (snd (map_step op m)))) \<or>
    (op_step find_key replace_key del_elt op s = Some (Exit (-1)) \<and> short n)"
proof (cases op)
  case (Op_replace k e)
  with assms show ?thesis using replace_rep [of n s m k e] by auto
next
  case (Op_remove k)
  show ?thesis
  proof (cases "m k")
    case None
    then have "m(k := None) = m" by (metis fun_upd_triv)
    with None Op_remove assms(1) show ?thesis by (simp add: find_rep)
  next
    case (Some e)
    with Op_remove assms(1) show ?thesis by (simp add: find_rep del_rep)
  qed
next
  case (Op_find k)
  with assms(1) show ?thesis by (simp add: find_rep)
qed

lemma run_rep:
  "rep n s m \<Longrightarrow> n + length ops \<le> limit \<Longrightarrow> ops_valid ops m \<Longrightarrow>
   (\<exists>s' n'. op_run find_key replace_key del_elt ops s = Some (Return (fst (map_run ops m), s')) \<and>
     rep n' s' (snd (map_run ops m)) \<and> n' \<le> n + length ops) \<or>
   (op_run find_key replace_key del_elt ops s = Some (Exit (-1)) \<and> short (n + length ops))"
proof (induction ops arbitrary: n s m)
  case Nil
  then show ?case by auto
next
  case (Cons op ops)
  have "n < limit" "op_valid op m" using Cons.prems(2,3) by simp_all
  note st = step_rep [OF Cons.prems(1) this]
  show ?case
  proof (cases "op_step find_key replace_key del_elt op s = Some (Exit (-1))")
    case True
    with st short_mono [of n "n + length (op # ops)"] show ?thesis by simp
  next
    case False
    with st obtain s1 where s1: "op_step find_key replace_key del_elt op s = Some (Return (fst (map_step op m), s1))"
        "rep n s1 (snd (map_step op m)) \<or> rep (Suc n) s1 (snd (map_step op m))"
      by blast
    from s1(2) obtain n1 where n1: "rep n1 s1 (snd (map_step op m))" "n1 \<le> Suc n"
      using le_SucI [OF order_refl [of n]] order_refl [of "Suc n"] by blast
    have "n1 + length ops \<le> limit" "ops_valid ops (snd (map_step op m))" using Cons.prems(2,3) n1(2) by simp_all
    from Cons.IH [OF n1(1) this] consider
      (fine) s' n' where "op_run find_key replace_key del_elt ops s1 = Some (Return (fst (map_run ops (snd (map_step op m))), s'))"
        "rep n' s' (snd (map_run ops (snd (map_step op m))))" "n' \<le> n1 + length ops"
    | (out) "op_run find_key replace_key del_elt ops s1 = Some (Exit (-1))" "short (n1 + length ops)"
      by blast
    then show ?thesis
    proof cases
      case fine
      with s1(1) n1(2) show ?thesis
        by (intro disjI1 exI [of _ s'] exI [of _ n']) (auto split: prod.split)
    next
      case out
      with s1(1) n1(2) short_mono [of "n1 + length ops" "n + length (op # ops)"] show ?thesis by simp
    qed
  qed
qed

end

lemma refused_mono: "refused mem n \<Longrightarrow> n \<le> n' \<Longrightarrow> refused mem n'"
  unfolding refused_def by (meson add_le_mono1 le_trans nat_add_left_cancel_le one_le_numeral power_increasing)

sublocale hash_function < table: key_map
  "\<lambda>n s m. alloc_ok mem \<and> hash_maps fcn n s m" "HASH_FIND fcn" "HASH_ADD_KEYPTR fcn mem" "HASH_REPLACE fcn mem" HASH_DELETE
  "2 ^ 32 - 2" "refused mem"
  for mem
  using hash_find_maps hash_add_maps hash_delete_maps refused_mono
  by unfold_locales (auto simp: HASH_REPLACE_def)

text \<open>Counting and iterating.\<close>

lemma HASH_CNT_ok: "hash_ok fcn s es \<Longrightarrow> HASH_CNT s = of_nat (length es)"
  by (cases es) (auto simp: HASH_CNT_def hash_ok_def table_ok_def)

lemma HASH_ITER_ok: "hash_ok fcn s es \<Longrightarrow> HASH_ITER (ht_hands s) (ht_head s) = Some es"
  by (auto simp: hash_ok_def intro!: HASH_ITER_visits dest: dseg_nseg)

lemma hash_maps_contents:
  assumes "hash_maps fcn n s m"
  shows "\<exists>es. HASH_ITER (ht_hands s) (ht_head s) = Some es \<and> set es = ran m \<and> distinct es \<and>
    HASH_CNT s = of_nat (card (dom m)) \<and> (\<forall>e \<in> set es. m (hh_key (ht_hands s e)) = Some e)"
proof -
  obtain es where es: "hash_ok fcn s es" "inj_on (\<lambda>e. hh_key (ht_hands s e)) (set es)"
      "\<And>key e. m key = Some e \<longleftrightarrow> e \<in> set es \<and> hh_key (ht_hands s e) = key"
    using assms by (auto simp: hash_maps_def)
  have d: "distinct es" using es(1) by (rule hash_okD)
  have "dom m = (\<lambda>e. hh_key (ht_hands s e)) ` set es" using es(3) by (auto simp: dom_def)
  then have "card (dom m) = length es" using es(2) d by (simp add: card_image distinct_card)
  moreover have "ran m = set es" using es(3) by (auto simp: ran_def)
  ultimately show ?thesis
    using HASH_ITER_ok [OF es(1)] HASH_CNT_ok [OF es(1)] d es(3) by auto
qed

text \<open>
  C17: The hash table is a map.  Starting from an empty table, any sequence of fewer than \<open>2 ^ 32 - 2\<close>
  operations with \<^verbatim>\<open>HASH_REPLACE\<close>, \<^verbatim>\<open>HASH_DELETE\<close> of what \<^verbatim>\<open>HASH_FIND\<close> found, and \<^verbatim>\<open>HASH_FIND\<close>, hashed with
  \<^verbatim>\<open>HASH_JEN\<close>, returns and gives the answers of a map, whatever expansions it causes: afterwards
  \<^verbatim>\<open>HASH_COUNT\<close> is the number of keys and \<^verbatim>\<open>HASH_ITER\<close> visits every element of the map once, under its key.
  The only exception is that the process exits with \<open>-1\<close>, and only when memory is refused that so many
  operations may ask for.
\<close>

theorem hash_table_is_map:
  assumes "alloc_ok mem" and "ht_head s = None" and "length ops \<le> 2 ^ 32 - 2" and "ops_valid ops Map.empty"
  shows "(\<exists>s' es. op_run (HASH_FIND HASH_JEN) (HASH_REPLACE HASH_JEN mem) HASH_DELETE ops s =
      Some (Return (fst (map_run ops Map.empty), s')) \<and>
    (\<forall>key. HASH_FIND HASH_JEN s' key = Some (snd (map_run ops Map.empty) key)) \<and>
    HASH_CNT s' = of_nat (card (dom (snd (map_run ops Map.empty)))) \<and>
    HASH_ITER (ht_hands s') (ht_head s') = Some es \<and> distinct es \<and>
    set es = ran (snd (map_run ops Map.empty)) \<and>
    (\<forall>e \<in> set es. snd (map_run ops Map.empty) (hh_key (ht_hands s' e)) = Some e)) \<or>
   (op_run (HASH_FIND HASH_JEN) (HASH_REPLACE HASH_JEN mem) HASH_DELETE ops s = Some (Exit (-1)) \<and>
    refused mem (length ops))"
proof -
  have "alloc_ok mem \<and> hash_maps HASH_JEN 0 s Map.empty" using assms(1,2) by (simp add: hash_maps_empty)
  from hash_jen.table.run_rep [OF this _ assms(4)] assms(3) consider
    (fine) s' n' where "op_run (HASH_FIND HASH_JEN) (HASH_REPLACE HASH_JEN mem) HASH_DELETE ops s =
        Some (Return (fst (map_run ops Map.empty), s'))" "hash_maps HASH_JEN n' s' (snd (map_run ops Map.empty))"
  | (out) "op_run (HASH_FIND HASH_JEN) (HASH_REPLACE HASH_JEN mem) HASH_DELETE ops s = Some (Exit (-1))"
      "refused mem (length ops)"
    by auto
  then show ?thesis
  proof cases
    case fine
    with hash_maps_contents [OF fine(2)] hash_jen.hash_find_maps [OF fine(2)] show ?thesis by metis
  qed simp
qed

definition demo_table :: uthash where
  "demo_table = \<lparr>ht_head = None,
     ht_tbl = \<lparr>buckets = [], num_buckets = 0, log2_num_buckets = 0, num_items = 0, ht_tail = None,
       ideal_chain_maxlen = 0, nonideal_items = 0, ineff_expands = 0, noexpand = 0\<rparr>,
     ht_hands = (\<lambda>_. \<lparr>hh_prev_elt = None, hh_next_elt = None, hh_prev = None, hh_next = None, hh_key = [],
       hh_keylen = 0, hh_hashv = 0\<rparr>)\<rparr>"

definition demo_ops :: "eptr map_op list" where
  "demo_ops = [Op_replace [1, 2] 7, Op_replace [3] 8, Op_find [1, 2], Op_replace [1, 2] 9, Op_remove [3], Op_find [3]]"

text \<open>A machine that can hold an array of a million buckets.\<close>

definition demo_mem :: "request \<Rightarrow> bool" where
  "demo_mem req = (case req of Expansion_mem n \<Rightarrow> n \<le> 0x100000 | _ \<Rightarrow> True)"

lemma hash_table_is_map_witness:
  "\<exists>s' es. op_run (HASH_FIND HASH_JEN) (HASH_REPLACE HASH_JEN demo_mem) HASH_DELETE demo_ops demo_table =
      Some (Return ([None, None, Some 7, Some 7, Some 8, None], s')) \<and>
    HASH_FIND HASH_JEN s' [1, 2] = Some (Some 9) \<and> HASH_CNT s' = 1 \<and> set es = {9} \<and>
    HASH_ITER (ht_hands s') (ht_head s') = Some es"
proof -
  have v: "ops_valid demo_ops Map.empty" by (auto simp: demo_ops_def ran_def)
  have run: "map_run demo_ops Map.empty = ([None, None, Some 7, Some 7, Some 8, None], [[1, 2] \<mapsto> 9])"
    by (auto simp: demo_ops_def fun_eq_iff)
  have mo: "alloc_ok demo_mem" by (auto simp: alloc_ok_def demo_mem_def word_le_nat_alt)
  have granted: "\<not> refused demo_mem (length demo_ops)"
    by (auto simp: refused_def demo_mem_def demo_ops_def word_le_nat_alt split: request.splits)
  have "ht_head demo_table = None" "length demo_ops \<le> 2 ^ 32 - 2" by (simp_all add: demo_table_def demo_ops_def)
  from hash_table_is_map [OF mo this v, unfolded run fst_conv snd_conv] granted
  obtain s' es where *: "op_run (HASH_FIND HASH_JEN) (HASH_REPLACE HASH_JEN demo_mem) HASH_DELETE demo_ops demo_table =
      Some (Return ([None, None, Some 7, Some 7, Some 8, None], s'))"
      "\<forall>key. HASH_FIND HASH_JEN s' key = Some ([[1, 2 :: byte] \<mapsto> 9 :: eptr] key)"
      "HASH_CNT s' = of_nat (card (dom [[1, 2 :: byte] \<mapsto> 9 :: eptr]))" "HASH_ITER (ht_hands s') (ht_head s') = Some es"
      "set es = ran [[1, 2 :: byte] \<mapsto> 9 :: eptr]"
    by blast
  from *(2) have "HASH_FIND HASH_JEN s' [1, 2] = Some (Some 9)" by (simp only: fun_upd_same)
  moreover have "HASH_CNT s' = 1" "set es = {9}" using *(3,5) by (simp_all add: ran_def)
  ultimately show ?thesis using *(1,4) by blast
qed

end
