(* ===== verification/Replica_Table.thy ===== *)
theory Replica_Table
  imports Ut_Hash Daemon
begin

text \<open>
  The replicas of the server in their hash table.  The bootstrap (src/src/tomatod/bootstrap.c) and the
  attach handler (attach.c) are modelled in the theories Daemon and Attach over a map from uuids to
  replicas; here they run on the table of uthash.h, with the replicas in memory behind pointers, and are
  shown to refine the map.  The table is used through the contract \<open>key_map\<close> only.
\<close>

section \<open>The handlers on a table\<close>

text \<open>
  The directory scan: the \<open>k\<close>-th replica is made at the address \<open>addr k\<close>, \<open>obj\<close> are the replicas in
  memory, \<open>hadd\<close> is \<^verbatim>\<open>HASH_ADD\<close>, which may end the process.
\<close>

fun load_table ::
    "('s \<Rightarrow> byte list \<Rightarrow> 'e \<Rightarrow> 's outcome option) \<Rightarrow> uuids \<Rightarrow> (string \<Rightarrow> 'd option) \<Rightarrow> (nat \<Rightarrow> replica option) \<Rightarrow>
     (nat \<Rightarrow> 'e) \<Rightarrow> nat \<Rightarrow> string list \<Rightarrow> 's \<Rightarrow> ('e \<Rightarrow> replica) \<Rightarrow> spawned list \<Rightarrow>
     (int \<times> 's \<times> ('e \<Rightarrow> replica) \<times> spawned list) outcome option" where
  "load_table hadd ul init new addr k [] s obj sp = Some (Return (TDB_SUCCESS, s, obj, sp))"
| "load_table hadd ul init new addr k (name # names) s obj sp =
     (if length name = UUID_STR_LEN - 1 then
        (case new k of
           None \<Rightarrow> Some (Return (TDB_ERROR, s, obj, sp))
         | Some rep \<Rightarrow>
             (case init (data_dir @ ''/'' @ name) of
                None \<Rightarrow> Some (Return (TDB_ERROR, s, obj(addr k := rep), sp))
              | Some d \<Rightarrow>
                  (case uuid_parse ul name of
                     None \<Rightarrow> Some (Return (TDB_ERROR, s, obj(addr k := rep), sp))
                   | Some u \<Rightarrow>
                       (case hadd s u (addr k) of
                          None \<Rightarrow> None
                        | Some Abort \<Rightarrow> Some Abort
                        | Some (Exit c) \<Rightarrow> Some (Exit c)
                        | Some (Return s') \<Rightarrow>
                            load_table hadd ul init new addr (k + 1) names s' (obj(addr k := rep\<lparr>rep_uuid := u\<rparr>))
                              (sp @ [Replica_task u])))))
      else load_table hadd ul init new addr k names s obj sp)"

definition bootstrap_table ::
    "('s \<Rightarrow> byte list \<Rightarrow> 'e \<Rightarrow> 's outcome option) \<Rightarrow> uuids \<Rightarrow> (string \<Rightarrow> 'd option) \<Rightarrow> (nat \<Rightarrow> replica option) \<Rightarrow>
     (nat \<Rightarrow> 'e) \<Rightarrow> string list option \<Rightarrow> 's \<Rightarrow> ('e \<Rightarrow> replica) \<Rightarrow>
     (int \<times> 's \<times> ('e \<Rightarrow> replica) \<times> spawned list) outcome option" where
  "bootstrap_table hadd ul init new addr dir s obj =
     (case dir of
        None \<Rightarrow> Some (Return (TDB_SUCCESS, s, obj, []))
      | Some names \<Rightarrow> load_table hadd ul init new addr 0 names s obj [])"

text \<open>Attaching looks the replica up by its identifier.\<close>

definition attach_table ::
    "('s \<Rightarrow> byte list \<Rightarrow> 'e option option) \<Rightarrow> 's \<Rightarrow> ('e \<Rightarrow> replica) \<Rightarrow> bool \<Rightarrow> bool \<Rightarrow> attach \<Rightarrow>
     cptr \<times> cptr \<times> cptr \<times> cptr \<Rightarrow> router \<Rightarrow> byte list \<Rightarrow> int \<Rightarrow> (int \<times> spawned list) option" where
  "attach_table hfind s obj mem1 mem2 junk cs rt uuid mode =
     (case hfind s uuid of
        None \<Rightarrow> None
      | Some None \<Rightarrow> Some (TDB_ERROR, [])
      | Some (Some e) \<Rightarrow>
          (case TDB_attach_init mem1 mem2 junk cs rt (obj e) mode of
             (rc, cl) \<Rightarrow> Some (TDB_SUCCESS, [Attach_task cl])))"

section \<open>They refine the map\<close>

text \<open>The replicas the table leads to.\<close>

definition table_replicas :: "(byte list \<rightharpoonup> 'e) \<Rightarrow> ('e \<Rightarrow> replica) \<Rightarrow> replicas" where
  "table_replicas m obj = (\<lambda>u. map_option obj (m u))"

lemma table_replicas_other:
  assumes "e \<notin> ran m"
  shows "table_replicas m (obj(e := rep)) = table_replicas m obj"
proof
  fix u
  show "table_replicas m (obj(e := rep)) u = table_replicas m obj u"
  proof (cases "m u")
    case (Some x)
    with assms have "x \<noteq> e" by (auto simp: ran_def)
    with Some show ?thesis by (simp add: table_replicas_def)
  qed (simp add: table_replicas_def)
qed

lemma table_replicas_add:
  assumes "e \<notin> ran m"
  shows "table_replicas (m(u \<mapsto> e)) (obj(e := rep)) = (table_replicas m obj)(u \<mapsto> rep)"
  using table_replicas_other [OF assms, of obj rep] by (auto simp: table_replicas_def fun_eq_iff)

text \<open>
  The scan: with distinct identifiers, none of them in the table, and fresh addresses, loading into the
  table is loading into the map.
\<close>

context key_map
begin

lemma attach_table_refines:
  assumes "rep n s m"
  shows "attach_table find_key s obj mem1 mem2 junk cs rt uuid mode =
    Some (TDB_replica_attach (table_replicas m obj) mem1 mem2 junk cs rt uuid mode)"
  using assms
  by (auto simp: attach_table_def TDB_replica_attach_def table_replicas_def find_rep split: option.split prod.split)

lemma load_table_refines:
  "rep n s m \<Longrightarrow> n + length names \<le> limit \<Longrightarrow> inj addr \<Longrightarrow> \<forall>i \<ge> k. addr i \<notin> ran m \<Longrightarrow>
   distinct (loaded_uuids ul init names) \<Longrightarrow> set (loaded_uuids ul init names) \<inter> dom m = {} \<Longrightarrow>
   \<forall>u \<in> set (loaded_uuids ul init names). length u < 2 ^ 32 \<Longrightarrow>
   (\<exists>rc s' obj' sp' m' n'. load_table add_key ul init new addr k names s obj sp = Some (Return (rc, s', obj', sp')) \<and>
     rep n' s' m' \<and>
     load_replicas ul init new k names (table_replicas m obj) sp = (rc, table_replicas m' obj', sp')) \<or>
   (load_table add_key ul init new addr k names s obj sp = Some (Exit (-1)) \<and> short (n + length names))"
proof (induction names arbitrary: n s m k obj sp)
  case Nil
  then show ?case by auto
next
  case (Cons name names)
  show ?case
  proof (cases "length name = UUID_STR_LEN - 1")
    case False
    then have "loaded_uuids ul init (name # names) = loaded_uuids ul init names"
      by (simp add: loaded_uuids_def loadable_def uuid_name_def UUID_STR_LEN_def)
    with False Cons.prems Cons.IH [of n s m k obj sp] short_mono [of "n + length names" "n + length (name # names)"]
    show ?thesis by (simp split: if_splits) blast
  next
    case name: True
    show ?thesis
    proof (cases "new k")
      case None
      with name Cons.prems(1) show ?thesis by auto
    next
      case (Some rp)
      have fresh: "addr k \<notin> ran m" using Cons.prems(4) by simp
      show ?thesis
      proof (cases "init (data_dir @ ''/'' @ name) = None \<or> uuid_parse ul name = None")
        case True
        then have "load_table add_key ul init new addr k (name # names) s obj sp = Some (Return (TDB_ERROR, s, obj(addr k := rp), sp))"
            "load_replicas ul init new k (name # names) (table_replicas m obj) sp = (TDB_ERROR, table_replicas m obj, sp)"
          using name Some by (auto split: option.split)
        with Cons.prems(1) table_replicas_other [OF fresh] show ?thesis by auto
      next
        case False
        then obtain d u where d: "init (data_dir @ ''/'' @ name) = Some d" "uuid_parse ul name = Some u" by auto
        have lu: "loaded_uuids ul init (name # names) = u # loaded_uuids ul init names"
          using d name by (simp add: loaded_uuids_def loadable_def uuid_name_def UUID_STR_LEN_def)
        have u: "m u = None" "length u < 2 ^ 32" using Cons.prems(6,7) by (auto simp: lu)
        define obj1 where "obj1 = obj(addr k := rp\<lparr>rep_uuid := u\<rparr>)"
        have "n < limit" using Cons.prems(2) by simp
        from add_rep [OF Cons.prems(1) this u(2,1) fresh] consider
          (added) s1 where "add_key s u (addr k) = Some (Return s1)" "rep (Suc n) s1 (m(u \<mapsto> addr k))"
        | (out) "add_key s u (addr k) = Some (Exit (-1))" "short n"
          by blast
        then show ?thesis
        proof cases
          case added
          have fr1: "\<forall>i \<ge> k + 1. addr i \<notin> ran (m(u \<mapsto> addr k))"
            using Cons.prems(3,4) u(1) by (auto simp: ran_def inj_eq)
          have di1: "set (loaded_uuids ul init names) \<inter> dom (m(u \<mapsto> addr k)) = {}"
            using Cons.prems(5,6) by (auto simp: lu)
          have pr: "Suc n + length names \<le> limit" "distinct (loaded_uuids ul init names)"
              "\<forall>u \<in> set (loaded_uuids ul init names). length u < 2 ^ 32"
            using Cons.prems(2,5,7) by (auto simp: lu)
          have IH: "(\<exists>rc s' obj' sp' m' n'. load_table add_key ul init new addr (k + 1) names s1 obj1 (sp @ [Replica_task u]) =
                Some (Return (rc, s', obj', sp')) \<and> rep n' s' m' \<and>
                load_replicas ul init new (k + 1) names (table_replicas (m(u \<mapsto> addr k)) obj1) (sp @ [Replica_task u]) =
                  (rc, table_replicas m' obj', sp')) \<or>
              (load_table add_key ul init new addr (k + 1) names s1 obj1 (sp @ [Replica_task u]) = Some (Exit (-1)) \<and>
               short (Suc n + length names))"
            using Cons.IH [OF added(2) pr(1) Cons.prems(3) fr1 pr(2) di1 pr(3)] by blast
          have ld: "load_table add_key ul init new addr k (name # names) s obj sp =
              load_table add_key ul init new addr (k + 1) names s1 obj1 (sp @ [Replica_task u])"
            using name Some d added(1) by (simp add: obj1_def)
          have lr: "load_replicas ul init new k (name # names) (table_replicas m obj) sp =
              load_replicas ul init new (k + 1) names (table_replicas (m(u \<mapsto> addr k)) obj1) (sp @ [Replica_task u])"
            using name Some d table_replicas_add [OF fresh] by (simp add: obj1_def)
          show ?thesis using IH unfolding ld lr by simp
        next
          case out
          with name Some d short_mono [of n "n + length (name # names)"] show ?thesis by simp
        qed
      qed
    qed
  qed
qed

end

text \<open>
  C18: The replica table of the server.  The directory scan on an empty hash table, with entries whose
  identifiers are distinct and of 16 bytes, ends like the scan over the map of replicas, with the same
  result and the same tasks, and afterwards the attach handler on the table answers for every identifier
  as it does over that map; unless the process exits for want of memory.
\<close>

theorem replica_table_refines_map:
  assumes "alloc_ok alloc" and "ht_head s = None" and "inj addr" and "length names \<le> 2 ^ 32 - 2"
    and "distinct (loaded_uuids ul init names)" and "\<forall>u \<in> set (loaded_uuids ul init names). length u = 16"
  shows "(\<exists>rc s' obj' reps sp. bootstrap_table (HASH_ADD_KEYPTR HASH_JEN alloc) ul init new addr (Some names) s obj =
        Some (Return (rc, s', obj', sp)) \<and>
      TDB_bootstrap_replicas_from_disk ul init new (Some names) Map.empty = (rc, reps, sp) \<and>
      (\<forall>mem1 mem2 junk cs rt uuid mode.
        attach_table (HASH_FIND HASH_JEN) s' obj' mem1 mem2 junk cs rt uuid mode =
          Some (TDB_replica_attach reps mem1 mem2 junk cs rt uuid mode))) \<or>
    (bootstrap_table (HASH_ADD_KEYPTR HASH_JEN alloc) ul init new addr (Some names) s obj = Some (Exit (-1)) \<and>
     refused alloc (length names))"
proof -
  have r0: "alloc_ok alloc \<and> hash_maps HASH_JEN 0 s Map.empty" using assms(1,2) by (simp add: hash_maps_empty)
  have "(\<exists>rc s' obj' sp' m' n'. load_table (HASH_ADD_KEYPTR HASH_JEN alloc) ul init new addr 0 names s obj [] =
        Some (Return (rc, s', obj', sp')) \<and> (alloc_ok alloc \<and> hash_maps HASH_JEN n' s' m') \<and>
      load_replicas ul init new 0 names (table_replicas Map.empty obj) [] = (rc, table_replicas m' obj', sp')) \<or>
    (load_table (HASH_ADD_KEYPTR HASH_JEN alloc) ul init new addr 0 names s obj [] = Some (Exit (-1)) \<and>
     refused alloc (0 + length names))"
    using assms by (intro hash_jen.table.load_table_refines [OF r0]) auto
  then consider
    (fine) rc s' obj' sp' m' n' where
      "load_table (HASH_ADD_KEYPTR HASH_JEN alloc) ul init new addr 0 names s obj [] = Some (Return (rc, s', obj', sp'))"
      "alloc_ok alloc \<and> hash_maps HASH_JEN n' s' m'"
      "load_replicas ul init new 0 names (table_replicas Map.empty obj) [] = (rc, table_replicas m' obj', sp')"
  | (out) "load_table (HASH_ADD_KEYPTR HASH_JEN alloc) ul init new addr 0 names s obj [] = Some (Exit (-1))"
      "refused alloc (length names)"
    by auto
  then show ?thesis
  proof cases
    case fine
    have "table_replicas Map.empty obj = Map.empty" by (simp add: table_replicas_def fun_eq_iff)
    then have "TDB_bootstrap_replicas_from_disk ul init new (Some names) Map.empty = (rc, table_replicas m' obj', sp')"
      using fine(3) by (simp add: TDB_bootstrap_replicas_from_disk_def)
    moreover have "attach_table (HASH_FIND HASH_JEN) s' obj' mem1 mem2 junk cs rt uuid mode =
        Some (TDB_replica_attach (table_replicas m' obj') mem1 mem2 junk cs rt uuid mode)" for mem1 mem2 junk cs rt uuid mode
      using fine(2) by (rule hash_jen.table.attach_table_refines)
    ultimately show ?thesis using fine(1) by (auto simp: bootstrap_table_def)
  qed (simp add: bootstrap_table_def)
qed

text \<open>Two entries of the directory, whose names are identifiers.\<close>

definition two_uuids :: uuids where
  "two_uuids = \<lparr>uuid_parse = [replicate 36 (CHR ''a'') \<mapsto> replicate 16 7, replicate 36 (CHR ''b'') \<mapsto> replicate 16 8],
     uuid_unparse = (\<lambda>u. [])\<rparr>"

definition two_names :: "string list" where
  "two_names = [''.'', replicate 36 (CHR ''a''), replicate 36 (CHR ''b'')]"

lemma replica_table_refines_map_witness:
  "\<exists>s' obj'. bootstrap_table (HASH_ADD_KEYPTR HASH_JEN demo_mem) two_uuids (db_init map_db) (\<lambda>k. Some demo_replica)
       (\<lambda>k. k + 100) (Some two_names) demo_table (\<lambda>e. demo_replica) =
      Some (Return (TDB_SUCCESS, s', obj', [Replica_task (replicate 16 7), Replica_task (replicate 16 8)])) \<and>
    (\<forall>rt. attach_table (HASH_FIND HASH_JEN) s' obj' False True (demo_attach 2) (4, 5, 6, 7) rt (replicate 16 8) 2 =
      Some (TDB_SUCCESS, [Attach_task None])) \<and>
    (\<forall>rt. attach_table (HASH_FIND HASH_JEN) s' obj' False True (demo_attach 2) (4, 5, 6, 7) rt (replicate 16 9) 2 =
      Some (TDB_ERROR, []))"
proof -
  have ab: "replicate 36 (CHR ''a'') \<noteq> replicate 36 (CHR ''b'')" "replicate 16 (7 :: byte) \<noteq> replicate 16 8"
    "replicate 16 (9 :: byte) \<noteq> replicate 16 8" "replicate 16 (9 :: byte) \<noteq> replicate 16 7"
    by (simp_all add: replicate_eq_replicate)
  have ids: "loaded_uuids two_uuids (db_init map_db) two_names = [replicate 16 7, replicate 16 8]"
    using ab by (simp add: loaded_uuids_def loadable_def uuid_name_def two_uuids_def two_names_def map_db_def)
  have mo: "alloc_ok demo_mem" by (auto simp: alloc_ok_def demo_mem_def word_le_nat_alt)
  have granted: "\<not> refused demo_mem (length two_names)"
    by (auto simp: refused_def demo_mem_def two_names_def word_le_nat_alt split: request.splits)
  have scan: "TDB_bootstrap_replicas_from_disk two_uuids (db_init map_db) (\<lambda>k. Some demo_replica) (Some two_names) Map.empty =
      (TDB_SUCCESS, [replicate 16 7 \<mapsto> demo_replica\<lparr>rep_uuid := replicate 16 7\<rparr>,
         replicate 16 8 \<mapsto> demo_replica\<lparr>rep_uuid := replicate 16 8\<rparr>],
       [Replica_task (replicate 16 7), Replica_task (replicate 16 8)])"
    using ab by (simp add: TDB_bootstrap_replicas_from_disk_def two_names_def two_uuids_def map_db_def UUID_STR_LEN_def)
  have len: "length two_names \<le> 2 ^ 32 - 2" by (simp add: two_names_def)
  have "ht_head demo_table = None" "inj (\<lambda>k :: nat. k + 100)" "length two_names \<le> 2 ^ 32 - 2"
      "distinct (loaded_uuids two_uuids (db_init map_db) two_names)"
      "\<forall>u \<in> set (loaded_uuids two_uuids (db_init map_db) two_names). length u = 16"
    using ab(2) len by (simp_all add: demo_table_def inj_def ids)
  from replica_table_refines_map [OF mo this, of "\<lambda>k. Some demo_replica" "\<lambda>e. demo_replica"] granted scan
  obtain s' obj' where t: "bootstrap_table (HASH_ADD_KEYPTR HASH_JEN demo_mem) two_uuids (db_init map_db) (\<lambda>k. Some demo_replica)
       (\<lambda>k. k + 100) (Some two_names) demo_table (\<lambda>e. demo_replica) =
      Some (Return (TDB_SUCCESS, s', obj', [Replica_task (replicate 16 7), Replica_task (replicate 16 8)]))"
    and at: "\<And>mem1 mem2 junk cs rt uuid mode. attach_table (HASH_FIND HASH_JEN) s' obj' mem1 mem2 junk cs rt uuid mode =
      Some (TDB_replica_attach [replicate 16 7 \<mapsto> demo_replica\<lparr>rep_uuid := replicate 16 7\<rparr>,
         replicate 16 8 \<mapsto> demo_replica\<lparr>rep_uuid := replicate 16 8\<rparr>] mem1 mem2 junk cs rt uuid mode)"
    by auto
  show ?thesis
  proof (intro exI conjI)
    show "bootstrap_table (HASH_ADD_KEYPTR HASH_JEN demo_mem) two_uuids (db_init map_db) (\<lambda>k. Some demo_replica)
       (\<lambda>k. k + 100) (Some two_names) demo_table (\<lambda>e. demo_replica) =
      Some (Return (TDB_SUCCESS, s', obj', [Replica_task (replicate 16 7), Replica_task (replicate 16 8)]))" by (rule t)
  qed (use ab in \<open>simp_all add: at TDB_replica_attach_def TDB_attach_init_def\<close>)
qed

end
