(* ===== verification/Ut_Sort.thy ===== *)
theory Ut_Sort
  imports Links "HOL-Library.Sorting_Algorithms"
begin

text \<open>
  The merge sort of src/src/common/ut/utlist.h and uthash.h, written out there four times: for singly
  linked, doubly linked and circular lists and for the elements of a hash table.  The four texts differ
  in which links they set and in how a pass starts and ends (\<open>list_kind\<close>); the loops are modelled once.
  The lemmas show that sorting the linked list is the stable sort of the list it represents.
\<close>

section \<open>Linked elements\<close>

record 'e links =
  lnext :: "'e \<Rightarrow> 'e option"
  lprev :: "'e \<Rightarrow> 'e option"

datatype list_kind = Singly | Doubly | Circular | Hash_order

text \<open>
  The successor of an element within a pass: in a circular list, coming back to the old head is the
  end.
\<close>

definition follow :: "list_kind \<Rightarrow> 'e option \<Rightarrow> 'e links \<Rightarrow> 'e \<Rightarrow> 'e option" where
  "follow kind oldhead m x =
     (if kind = Circular \<and> lnext m x = oldhead then None else lnext m x)"

section \<open>The loops\<close>

text \<open>Counting off a run of at most \<open>insize\<close> elements.\<close>

primrec skip_run :: "list_kind \<Rightarrow> 'e option \<Rightarrow> 'e links \<Rightarrow> nat \<Rightarrow> 'e option \<Rightarrow> nat \<times> 'e option" where
  "skip_run kind old m 0 q = (0, q)"
| "skip_run kind old m (Suc n) q =
     (case q of
        None \<Rightarrow> (0, None)
      | Some x \<Rightarrow>
          (case follow kind old m x of
             None \<Rightarrow> (1, None)
           | Some y \<Rightarrow> (case skip_run kind old m n (Some y) of (psize, q') \<Rightarrow> (Suc psize, q'))))"

text \<open>Which element comes next, and what is left of the two runs; \<open>None\<close> would be a null dereference.\<close>

definition pick ::
    "list_kind \<Rightarrow> ('e \<Rightarrow> 'e \<Rightarrow> int) \<Rightarrow> 'e option \<Rightarrow> 'e links \<Rightarrow> 'e option \<Rightarrow> nat \<Rightarrow> 'e option \<Rightarrow> nat \<Rightarrow>
     ('e \<times> 'e option \<times> nat \<times> 'e option \<times> nat) option" where
  "pick kind cmp old m p psize q qsize =
     (if psize = 0 then
        (case q of None \<Rightarrow> None | Some y \<Rightarrow> Some (y, p, psize, follow kind old m y, qsize - 1))
      else
        (case p of
           None \<Rightarrow> None
         | Some x \<Rightarrow>
             if qsize = 0 \<or> q = None then Some (x, follow kind old m x, psize - 1, q, qsize)
             else if cmp x (the q) \<le> 0 then Some (x, follow kind old m x, psize - 1, q, qsize)
             else Some (the q, p, psize, follow kind old m (the q), qsize - 1)))"

text \<open>Appending the picked element to the new list.\<close>

definition link_elt :: "list_kind \<Rightarrow> 'e option \<Rightarrow> 'e \<Rightarrow> 'e links \<Rightarrow> 'e links" where
  "link_elt kind tail e m =
     (let m1 = (case tail of None \<Rightarrow> m | Some t \<Rightarrow> m\<lparr>lnext := (lnext m)(t := Some e)\<rparr>)
      in if kind = Singly then m1 else m1\<lparr>lprev := (lprev m1)(e := tail)\<rparr>)"

partial_function (option) merge_runs ::
    "list_kind \<Rightarrow> ('e \<Rightarrow> 'e \<Rightarrow> int) \<Rightarrow> 'e option \<Rightarrow> 'e links \<Rightarrow> 'e option \<Rightarrow> nat \<Rightarrow> 'e option \<Rightarrow> nat \<Rightarrow>
     'e option \<Rightarrow> 'e option \<Rightarrow> ('e links \<times> 'e option \<times> 'e option \<times> 'e option) option" where
  "merge_runs kind cmp old m p psize q qsize lst tail =
     (if psize > 0 \<or> (qsize > 0 \<and> q \<noteq> None)
      then Option.bind (pick kind cmp old m p psize q qsize)
             (\<lambda>(e, p', psize', q', qsize').
                merge_runs kind cmp old (link_elt kind tail e m) p' psize' q' qsize'
                  (if tail = None then Some e else lst) (Some e))
      else Some (m, q, lst, tail))"

partial_function (option) merge_pass ::
    "list_kind \<Rightarrow> ('e \<Rightarrow> 'e \<Rightarrow> int) \<Rightarrow> 'e option \<Rightarrow> nat \<Rightarrow> 'e links \<Rightarrow> 'e option \<Rightarrow> 'e option \<Rightarrow> 'e option \<Rightarrow> nat \<Rightarrow>
     ('e links \<times> 'e option \<times> 'e option \<times> nat) option" where
  "merge_pass kind cmp old insize m p lst tail nmerges =
     (case p of
        None \<Rightarrow> Some (m, lst, tail, nmerges)
      | Some x \<Rightarrow>
          (case skip_run kind old m insize p of
             (psize, q) \<Rightarrow>
               (case merge_runs kind cmp old m p psize q insize lst tail of
                  None \<Rightarrow> None
                | Some (m', q', lst', tail') \<Rightarrow>
                    merge_pass kind cmp old insize m' q' lst' tail' (nmerges + 1))))"

text \<open>The end of a pass closes the new list.\<close>

definition close_list :: "list_kind \<Rightarrow> 'e option \<Rightarrow> 'e option \<Rightarrow> 'e links \<Rightarrow> 'e links" where
  "close_list kind lst tail m =
     (let m1 = (if kind = Doubly \<or> kind = Circular
                then (case lst of None \<Rightarrow> m | Some h \<Rightarrow> m\<lparr>lprev := (lprev m)(h := tail)\<rparr>) else m)
      in case tail of
           None \<Rightarrow> m1
         | Some t \<Rightarrow> m1\<lparr>lnext := (lnext m1)(t := (if kind = Circular then lst else None))\<rparr>)"

partial_function (option) sort_loop ::
    "list_kind \<Rightarrow> ('e \<Rightarrow> 'e \<Rightarrow> int) \<Rightarrow> nat \<Rightarrow> 'e links \<Rightarrow> 'e option \<Rightarrow> ('e links \<times> 'e option \<times> 'e option) option" where
  "sort_loop kind cmp insize m lst =
     (case merge_pass kind cmp lst insize m lst None None 0 of
        None \<Rightarrow> None
      | Some (m', lst', tail', nmerges) \<Rightarrow>
          if nmerges \<le> 1 then Some (close_list kind lst' tail' m', lst', tail')
          else sort_loop kind cmp (2 * insize) (close_list kind lst' tail' m') lst')"

definition sort_links ::
    "list_kind \<Rightarrow> ('e \<Rightarrow> 'e \<Rightarrow> int) \<Rightarrow> 'e links \<Rightarrow> 'e option \<Rightarrow> ('e links \<times> 'e option \<times> 'e option) option" where
  "sort_links kind cmp m lst =
     (case lst of None \<Rightarrow> Some (m, None, None) | Some h \<Rightarrow> sort_loop kind cmp 1 m lst)"

section \<open>The four macros\<close>

text \<open>The links and the new head.\<close>

definition LL_SORT :: "('e \<Rightarrow> 'e \<Rightarrow> int) \<Rightarrow> 'e links \<Rightarrow> 'e option \<Rightarrow> ('e links \<times> 'e option) option" where
  "LL_SORT cmp m lst = map_option (\<lambda>(m', lst', tail'). (m', lst')) (sort_links Singly cmp m lst)"

definition DL_SORT :: "('e \<Rightarrow> 'e \<Rightarrow> int) \<Rightarrow> 'e links \<Rightarrow> 'e option \<Rightarrow> ('e links \<times> 'e option) option" where
  "DL_SORT cmp m lst = map_option (\<lambda>(m', lst', tail'). (m', lst')) (sort_links Doubly cmp m lst)"

definition CDL_SORT :: "('e \<Rightarrow> 'e \<Rightarrow> int) \<Rightarrow> 'e links \<Rightarrow> 'e option \<Rightarrow> ('e links \<times> 'e option) option" where
  "CDL_SORT cmp m lst = map_option (\<lambda>(m', lst', tail'). (m', lst')) (sort_links Circular cmp m lst)"

section \<open>The list a head stands for\<close>

text \<open>The elements are linked backwards, from \<open>p\<close> on.\<close>

fun pseg :: "('e \<Rightarrow> 'e option) \<Rightarrow> 'e option \<Rightarrow> 'e list \<Rightarrow> bool" where
  "pseg pv p [] = True"
| "pseg pv p (x # xs) = (pv x = p \<and> pseg pv (Some x) xs)"

lemma pseg_cong: "(\<And>x. x \<in> set xs \<Longrightarrow> pv' x = pv x) \<Longrightarrow> pseg pv' p xs = pseg pv p xs"
  by (induction xs arbitrary: p) auto

lemma pseg_append [link_simps]: "pseg pv p (xs @ ys) \<longleftrightarrow> pseg pv p xs \<and> pseg pv (last_or p xs) ys"
  by (induction xs arbitrary: p) auto

lemma pseg_upd [link_simps]: "x \<notin> set xs \<Longrightarrow> pseg (pv(x := v)) p xs = pseg pv p xs"
  by (intro pseg_cong) auto

lemma dseg_parts: "dseg nx pv p xs e \<longleftrightarrow> nseg nx xs e \<and> pseg pv p xs"
  by (induction xs arbitrary: p) auto

text \<open>
  A singly linked list ends in null, a doubly linked one also keeps its last element in the \<^verbatim>\<open>prev\<close> of the
  first, a circular one is closed both ways; the elements of a hash table end in null both ways.
\<close>

definition is_list :: "list_kind \<Rightarrow> 'e links \<Rightarrow> 'e option \<Rightarrow> 'e list \<Rightarrow> bool" where
  "is_list kind m h xs \<longleftrightarrow>
     h = first_or xs None \<and> distinct xs \<and>
     nseg (lnext m) xs (if kind = Circular then first_or xs None else None) \<and>
     (kind = Doubly \<or> kind = Circular \<longrightarrow> pseg (lprev m) (last_or None xs) xs) \<and>
     (kind = Hash_order \<longrightarrow> pseg (lprev m) None xs)"

text \<open>The new list of a pass, whose last link is not set yet.\<close>

definition open_list :: "list_kind \<Rightarrow> 'e links \<Rightarrow> 'e option \<Rightarrow> 'e option \<Rightarrow> 'e list \<Rightarrow> bool" where
  "open_list kind m lst tail xs \<longleftrightarrow>
     lst = first_or xs None \<and> tail = last_or None xs \<and> nseg (lnext m) (butlast xs) tail \<and>
     (kind \<noteq> Singly \<longrightarrow> pseg (lprev m) None xs)"

lemma nseg_last_free: "nseg nx (xs @ [x]) e \<longleftrightarrow> nseg nx xs (Some x) \<and> nx x = e"
  by (simp add: nseg_append)

lemma open_list_empty [simp]: "open_list kind m None None []"
  by (simp add: open_list_def)

lemma open_list_link:
  assumes "open_list kind m lst tail xs" and "e \<notin> set xs" and d: "distinct xs"
  shows "open_list kind (link_elt kind tail e m) (if tail = None then Some e else lst) (Some e) (xs @ [e])"
proof (cases xs rule: rev_cases)
  case Nil
  with assms show ?thesis by (simp add: open_list_def link_elt_def)
next
  case (snoc ys t)
  with assms have *: "lst = first_or ys (Some t)" "tail = Some t" "nseg (lnext m) ys (Some t)" "t \<notin> set ys" "e \<notin> set ys" "e \<noteq> t"
      "kind \<noteq> Singly \<longrightarrow> pseg (lprev m) None ys \<and> lprev m t = last_or None ys"
    by (auto simp: open_list_def link_simps)
  then show ?thesis
    by (auto simp: open_list_def link_elt_def snoc link_simps butlast_append Let_def)
qed

lemma link_elt_next:
  "y \<notin> set xs \<Longrightarrow> open_list kind m lst tail xs \<Longrightarrow> lnext (link_elt kind tail e m) y = lnext m y"
  by (auto simp: link_elt_def Let_def open_list_def dest: last_or_in split: option.splits)

lemma close_list_ok:
  assumes "open_list kind m lst tail xs" and "distinct xs"
  shows "is_list kind (close_list kind lst tail m) lst xs"
proof (cases xs rule: rev_cases)
  case Nil
  with assms show ?thesis by (simp add: open_list_def is_list_def close_list_def)
next
  case (snoc ys t)
  show ?thesis
  proof (cases ys)
    case Nil
    with assms snoc show ?thesis
      by (auto simp: open_list_def is_list_def close_list_def Let_def)
  next
    case (Cons y zs)
    with assms snoc show ?thesis
      by (auto simp: open_list_def is_list_def close_list_def Let_def link_simps butlast_append)
  qed
qed

text \<open>What a pass starts from: following the elements visits them all and ends.\<close>

lemma is_list_follow:
  assumes "is_list kind m h xs"
  shows "nseg (follow kind h m) xs None"
proof (cases "kind = Circular")
  case True
  have "nseg (lnext m) ys h \<Longrightarrow> \<forall>y \<in> set (tl ys). Some y \<noteq> h \<Longrightarrow> nseg (follow kind h m) ys None" for ys
  proof (induction ys)
    case Nil
    then show ?case by simp
  next
    case (Cons y ys)
    show ?case
    proof (cases ys)
      case Nil
      with Cons.prems True show ?thesis by (simp add: follow_def)
    next
      case (Cons z zs)
      with Cons.prems Cons.IH True show ?thesis by (auto simp: follow_def)
    qed
  qed
  moreover have "nseg (lnext m) xs h" "\<forall>y \<in> set (tl xs). Some y \<noteq> h"
    using assms True by (cases xs; auto simp: is_list_def)+
  ultimately show ?thesis by blast
next
  case False
  with assms have "nseg (lnext m) xs None" by (simp add: is_list_def)
  then show ?thesis using False by (subst nseg_cong [of xs _ "lnext m"]) (auto simp: follow_def)
qed

section \<open>Sorting lists by merging\<close>

text \<open>The comparison function of the C code agrees with a comparator.\<close>

definition compares :: "('e \<Rightarrow> 'e \<Rightarrow> int) \<Rightarrow> 'e comparator \<Rightarrow> bool" where
  "compares cmp c \<longleftrightarrow> (\<forall>x y. cmp x y \<le> 0 \<longleftrightarrow> compare c x y \<noteq> Greater)"

text \<open>A pass over a list: neighbouring runs of \<open>n\<close> elements are merged.\<close>

function list_pass :: "'e comparator \<Rightarrow> nat \<Rightarrow> 'e list \<Rightarrow> 'e list" where
  "list_pass c n xs =
     (if xs = [] \<or> n = 0 then xs
      else Sorting_Algorithms.merge c (take n xs) (take n (drop n xs)) @ list_pass c n (drop n (drop n xs)))"
  by pat_completeness auto
termination by (relation "measure (\<lambda>(c, n, xs). length xs)") auto

declare list_pass.simps [simp del]

function runs_sorted :: "'e comparator \<Rightarrow> nat \<Rightarrow> 'e list \<Rightarrow> bool" where
  "runs_sorted c n xs = (if xs = [] \<or> n = 0 then True else sorted c (take n xs) \<and> runs_sorted c n (drop n xs))"
  by pat_completeness auto
termination by (relation "measure (\<lambda>(c, n, xs). length xs)") auto

declare runs_sorted.simps [simp del]

text \<open>The number of merges of a pass.\<close>

function merges :: "nat \<Rightarrow> 'e list \<Rightarrow> nat" where
  "merges n xs = (if xs = [] \<or> n = 0 then 0 else Suc (merges n (drop n (drop n xs))))"
  by pat_completeness auto
termination by (relation "measure (\<lambda>(n, xs). length xs)") auto

declare merges.simps [simp del]

lemma length_merge [simp]: "length (Sorting_Algorithms.merge c xs ys) = length xs + length ys"
  by (metis mset_merge size_mset size_union)

lemma list_pass_mset [simp]: "mset (list_pass c n xs) = mset xs"
proof (induction c n xs rule: list_pass.induct)
  case (1 c n xs)
  show ?case
  proof (cases "xs = [] \<or> n = 0")
    case True
    then show ?thesis by (subst list_pass.simps) auto
  next
    case False
    have "mset (list_pass c n xs) = mset (take n xs) + (mset (take n (drop n xs)) + mset (drop n (drop n xs)))"
      using False 1 by (subst list_pass.simps) (simp add: mset_merge)
    also have "mset (take n (drop n xs)) + mset (drop n (drop n xs)) = mset (drop n xs)"
      by (metis append_take_drop_id mset_append)
    finally show ?thesis by (metis append_take_drop_id mset_append)
  qed
qed

lemma list_pass_set [simp]: "set (list_pass c n xs) = set xs"
  by (metis list_pass_mset set_mset_mset)

lemma list_pass_length [simp]: "length (list_pass c n xs) = length xs"
  by (metis list_pass_mset size_mset)

lemma list_pass_distinct [simp]: "distinct (list_pass c n xs) = distinct xs"
  by (metis list_pass_mset mset_eq_imp_distinct_iff)

lemma runs_sorted_append:
  "runs_sorted c n ys \<Longrightarrow> length xs = n \<Longrightarrow> sorted c xs \<Longrightarrow> runs_sorted c n (xs @ ys)"
  by (subst runs_sorted.simps) auto

lemma runs_sorted_short: "length xs \<le> n \<Longrightarrow> runs_sorted c n xs \<longleftrightarrow> n = 0 \<or> sorted c xs"
  by (subst runs_sorted.simps) (auto simp: runs_sorted.simps [of c n "[]"])

lemma runs_sorted_1: "runs_sorted c 1 xs"
proof (induction xs)
  case Nil
  show ?case by (subst runs_sorted.simps) simp
next
  case (Cons x xs)
  then show ?case by (subst runs_sorted.simps) simp
qed

lemma runs_sorted_drop: "runs_sorted c n xs \<Longrightarrow> n \<noteq> 0 \<Longrightarrow> sorted c (take n xs) \<and> runs_sorted c n (drop n xs)"
  by (subst (asm) runs_sorted.simps) (auto simp: runs_sorted.simps [of c n "[]"] split: if_splits)

text \<open>A pass doubles the length of the sorted runs and keeps equivalent elements in order.\<close>

lemma list_pass_runs: "runs_sorted c n xs \<Longrightarrow> runs_sorted c (2 * n) (list_pass c n xs)"
proof (induction c n xs rule: list_pass.induct)
  case (1 c n xs)
  show ?case
  proof (cases "xs = [] \<or> n = 0")
    case True
    then show ?thesis by (auto simp: list_pass.simps runs_sorted.simps [of c _ "[]"] runs_sorted.simps [of c 0])
  next
    case False
    define ms where "ms = Sorting_Algorithms.merge c (take n xs) (take n (drop n xs))"
    have s: "sorted c (take n xs)" "sorted c (take n (drop n xs))" "runs_sorted c n (drop n (drop n xs))"
      using runs_sorted_drop [OF "1.prems"] runs_sorted_drop [of c n "drop n xs"] False by auto
    have sm: "sorted c ms" using s by (simp add: ms_def sorted_merge)
    have IH: "runs_sorted c (2 * n) (list_pass c n (drop n (drop n xs)))" using "1.IH" False s(3) by blast
    have eq: "list_pass c n xs = ms @ list_pass c n (drop n (drop n xs))"
      using False by (subst list_pass.simps) (simp add: ms_def)
    show ?thesis
    proof (cases "length xs \<ge> 2 * n")
      case True
      then have "length ms = 2 * n" by (simp add: ms_def)
      then show ?thesis unfolding eq by (rule runs_sorted_append [OF IH _ sm])
    next
      case short: False
      then have d: "drop n (drop n xs) = []" by simp
      have "list_pass c n xs = ms" unfolding eq d by (simp add: list_pass.simps)
      moreover have "length ms \<le> 2 * n" using short by (simp add: ms_def)
      ultimately show ?thesis using sm by (simp add: runs_sorted_short)
    qed
  qed
qed

lemma list_pass_stable:
  "runs_sorted c n xs \<Longrightarrow> filter (\<lambda>y. compare c x y = Equiv) (list_pass c n xs) = filter (\<lambda>y. compare c x y = Equiv) xs"
proof (induction c n xs rule: list_pass.induct)
  case (1 c n xs)
  let ?P = "filter (\<lambda>y. compare c x y = Equiv)"
  show ?case
  proof (cases "xs = [] \<or> n = 0")
    case True
    then show ?thesis by (subst list_pass.simps) auto
  next
    case False
    have s: "sorted c (take n xs)" "sorted c (take n (drop n xs))" "runs_sorted c n (drop n (drop n xs))"
      using runs_sorted_drop [OF "1.prems"] runs_sorted_drop [of c n "drop n xs"] False by auto
    have IH: "?P (list_pass c n (drop n (drop n xs))) = ?P (drop n (drop n xs))" using "1.IH" False s(3) by blast
    have "?P (list_pass c n xs) = ?P (take n xs) @ ?P (take n (drop n xs)) @ ?P (drop n (drop n xs))"
      using False IH s(1,2) by (subst list_pass.simps) (simp add: filter_merge merge_stable_segments)
    also have "\<dots> = ?P (take n xs @ take n (drop n xs) @ drop n (drop n xs))" by simp
    also have "\<dots> = ?P xs" by (simp only: append_take_drop_id)
    finally show ?thesis .
  qed
qed

lemma merges_le_1: "n \<noteq> 0 \<Longrightarrow> merges n xs \<le> 1 \<longleftrightarrow> length xs \<le> 2 * n"
  by (subst merges.simps, subst merges.simps) auto

section \<open>The loops merge the lists\<close>

lemma skip_run_ok:
  "nseg (follow kind old m) xs None \<Longrightarrow> xs \<noteq> [] \<Longrightarrow>
   skip_run kind old m n (first_or xs None) = (length (take n xs), first_or (drop n xs) None)"
proof (induction n arbitrary: xs)
  case 0
  then show ?case by simp
next
  case (Suc n)
  then obtain x ys where xs: "xs = x # ys" by (cases xs) auto
  show ?case
  proof (cases ys)
    case Nil
    with Suc.prems xs show ?thesis by simp
  next
    case (Cons y zs)
    with Suc.prems xs Suc.IH [of ys] show ?thesis by simp
  qed
qed

lemma follow_cong: "lnext m' x = lnext m x \<Longrightarrow> follow kind old m' x = follow kind old m x"
  by (simp add: follow_def)

lemma nseg_follow_link:
  assumes "nseg (follow kind old m) ys e'" and "open_list kind m lst tail xs" and "set xs \<inter> set ys = {}"
  shows "nseg (follow kind old (link_elt kind tail e m)) ys e'"
proof -
  have "follow kind old (link_elt kind tail e m) y = follow kind old m y" if "y \<in> set ys" for y
    using assms(2,3) that by (intro follow_cong link_elt_next [where xs = xs]) auto
  then show ?thesis using assms(1) by (subst nseg_cong [of ys _ "follow kind old m"]) auto
qed

text \<open>One round of the merge: the element picked is the next one of the merged list.\<close>

lemma merge_runs_take:
  assumes "pick kind cmp old m p ps q qs = Some (e, p', ps', q', qs')" and "ps > 0 \<or> (qs > 0 \<and> q \<noteq> None)"
  shows "merge_runs kind cmp old m p ps q qs lst tail =
    merge_runs kind cmp old (link_elt kind tail e m) p' ps' q' qs' (if tail = None then Some e else lst) (Some e)"
  using assms by (subst merge_runs.simps) simp

lemma merge_runs_ok:
  assumes c: "compares cmp c"
  shows "open_list kind m lst tail xs \<Longrightarrow> nseg (follow kind old m) ps pe \<Longrightarrow> nseg (follow kind old m) qs None \<Longrightarrow>
    distinct (xs @ ps @ qs) \<Longrightarrow>
    \<exists>m' lst' tail'. merge_runs kind cmp old m (first_or ps pe) (length ps) (first_or qs None) n lst tail =
        Some (m', first_or (drop n qs) None, lst', tail') \<and>
      open_list kind m' lst' tail' (xs @ Sorting_Algorithms.merge c ps (take n qs)) \<and>
      (\<forall>y. y \<notin> set xs \<union> set ps \<union> set (take n qs) \<longrightarrow> lnext m' y = lnext m y)"
proof (induction "length ps + length qs" arbitrary: m lst tail xs ps qs n)
  case 0
  then show ?case by (subst merge_runs.simps) simp
next
  case (Suc k)
  have go_on: ?case if e: "pick kind cmp old m (first_or ps pe) (length ps) (first_or qs None) n =
        Some (e, first_or ps' pe, length ps', first_or qs' None, n')"
      "length ps > 0 \<or> (n > 0 \<and> first_or qs None \<noteq> None)"
      "e \<in> set ps \<union> set (take n qs)" "e \<notin> set ps' \<union> set qs'" "e \<notin> set xs" "distinct (ps' @ qs')" "set ps' \<subseteq> set ps"
      "set qs' \<subseteq> set qs" "set (take n' qs') \<subseteq> set (take n qs)"
      "length ps' + length qs' = k" "nseg (follow kind old m) ps' pe" "nseg (follow kind old m) qs' None"
      "Sorting_Algorithms.merge c ps (take n qs) = e # Sorting_Algorithms.merge c ps' (take n' qs')" "drop n qs = drop n' qs'"
    for e ps' qs' n'
  proof -
    define m1 where "m1 = link_elt kind tail e m"
    have d: "distinct ((xs @ [e]) @ ps' @ qs')" using Suc.prems(4) e(4-8) by auto
    have o: "open_list kind m1 (if tail = None then Some e else lst) (Some e) (xs @ [e])"
      unfolding m1_def using Suc.prems(1,4) e(5) by (intro open_list_link) auto
    have "nseg (follow kind old m1) ps' pe" "nseg (follow kind old m1) qs' None"
      unfolding m1_def using d e(11,12) by (auto intro!: nseg_follow_link [OF _ Suc.prems(1)])
    from Suc.hyps(1) [OF e(10) [symmetric] o this d, of n'] obtain m' lst' tail' where r:
        "merge_runs kind cmp old m1 (first_or ps' pe) (length ps') (first_or qs' None) n'
          (if tail = None then Some e else lst) (Some e) = Some (m', first_or (drop n' qs') None, lst', tail')"
        "open_list kind m' lst' tail' ((xs @ [e]) @ Sorting_Algorithms.merge c ps' (take n' qs'))"
        "\<forall>y. y \<notin> set (xs @ [e]) \<union> set ps' \<union> set (take n' qs') \<longrightarrow> lnext m' y = lnext m1 y"
      by blast
    have "lnext m' y = lnext m y" if "y \<notin> set xs \<union> set ps \<union> set (take n qs)" for y
    proof -
      have "lnext m' y = lnext m1 y" using r(3) that e(3,7,9) by auto
      also have "\<dots> = lnext m y" unfolding m1_def using that by (intro link_elt_next [OF _ Suc.prems(1)]) auto
      finally show ?thesis .
    qed
    moreover have "merge_runs kind cmp old m (first_or ps pe) (length ps) (first_or qs None) n lst tail =
        Some (m', first_or (drop n qs) None, lst', tail')"
      using merge_runs_take [OF e(1,2), of lst tail] r(1) e(14) by (simp add: m1_def)
    ultimately show ?thesis using r(2) e(13) by auto
  qed
  show ?case
  proof (cases "ps = []")
    case True
    note psN = this
    show ?thesis
    proof (cases "n = 0 \<or> qs = []")
      case True
      with psN Suc.prems(1) show ?thesis by (subst merge_runs.simps) auto
    next
      case False
      then obtain y ys n' where q: "qs = y # ys" "n = Suc n'" by (cases qs; cases n) auto
      show ?thesis
        using psN q Suc.prems Suc.hyps(2)
        by (intro go_on [of y "[]" ys n']) (auto simp: pick_def)
    qed
  next
    case False
    then obtain x us where p: "ps = x # us" by (cases ps) auto
    show ?thesis
    proof (cases "n = 0 \<or> qs = []")
      case True
      with p Suc.prems Suc.hyps(2) show ?thesis
        by (intro go_on [of x us qs n]) (auto simp: pick_def)
    next
      case False
      then obtain y ys n' where q: "qs = y # ys" "n = Suc n'" by (cases qs; cases n) auto
      show ?thesis
      proof (cases "cmp x y \<le> 0")
        case True
        then have "compare c x y \<noteq> Greater" using c by (simp add: compares_def)
        with True p q Suc.prems Suc.hyps(2) show ?thesis
          by (intro go_on [of x us qs n]) (auto simp: pick_def)
      next
        case False
        then have "compare c x y = Greater" using c by (auto simp: compares_def)
        with False p q Suc.prems Suc.hyps(2) show ?thesis
          by (intro go_on [of y ps ys n']) (auto simp: pick_def)
      qed
    qed
  qed
qed

text \<open>One pass, and all of them.\<close>

lemma merge_pass_ok:
  assumes c: "compares cmp c" and n: "n \<noteq> 0"
  shows "open_list kind m lst tail xs \<Longrightarrow> nseg (follow kind old m) ys None \<Longrightarrow> distinct (xs @ ys) \<Longrightarrow>
    \<exists>m' lst' tail'. merge_pass kind cmp old n m (first_or ys None) lst tail k =
        Some (m', lst', tail', k + merges n ys) \<and> open_list kind m' lst' tail' (xs @ list_pass c n ys)"
proof (induction "length ys" arbitrary: m lst tail xs ys k rule: less_induct)
  case less
  show ?case
  proof (cases "ys = []")
    case True
    with less.prems show ?thesis by (subst merge_pass.simps) (simp add: list_pass.simps merges.simps)
  next
    case False
    define ps where "ps = take n ys"
    define qs where "qs = drop n ys"
    have ys: "ys = ps @ qs" by (simp add: ps_def qs_def)
    have sg: "nseg (follow kind old m) ps (first_or qs None)" "nseg (follow kind old m) qs None"
      using less.prems(2) by (auto simp: ys nseg_append)
    have d: "distinct (xs @ ps @ qs)" using less.prems(3) by (simp add: ys)
    from merge_runs_ok [OF c less.prems(1) sg d, of n] obtain m1 lst1 tail1 where r:
        "merge_runs kind cmp old m (first_or ps (first_or qs None)) (length ps) (first_or qs None) n lst tail =
          Some (m1, first_or (drop n qs) None, lst1, tail1)"
        "open_list kind m1 lst1 tail1 (xs @ Sorting_Algorithms.merge c ps (take n qs))"
        "\<forall>y. y \<notin> set xs \<union> set ps \<union> set (take n qs) \<longrightarrow> lnext m1 y = lnext m y"
      by blast
    have apart: "set (drop n qs) \<inter> (set xs \<union> set ps \<union> set (take n qs)) = {}"
      using d by (auto dest: in_set_dropD) (metis disjoint_iff set_take_disj_set_drop_if_distinct order_refl)
    have "nseg (follow kind old m) (drop n qs) None"
      using sg(2) by (metis append_take_drop_id nseg_append)
    then have "nseg (follow kind old m1) (drop n qs) None"
      using r(3) apart by (subst nseg_cong [of _ _ "follow kind old m"]) (auto intro!: follow_cong)
    moreover have "distinct ((xs @ Sorting_Algorithms.merge c ps (take n qs)) @ drop n qs)"
    proof -
      have "mset ((xs @ Sorting_Algorithms.merge c ps (take n qs)) @ drop n qs) = mset (xs @ ps @ (take n qs @ drop n qs))"
        by (simp only: mset_append mset_merge) (simp add: ac_simps)
      then show ?thesis using d by (metis append_take_drop_id mset_eq_imp_distinct_iff)
    qed
    moreover have "length (drop n qs) < length ys" using False n by (simp add: qs_def)
    ultimately obtain m2 lst2 tail2 where p:
        "merge_pass kind cmp old n m1 (first_or (drop n qs) None) lst1 tail1 (k + 1) =
          Some (m2, lst2, tail2, k + 1 + merges n (drop n qs))"
        "open_list kind m2 lst2 tail2 ((xs @ Sorting_Algorithms.merge c ps (take n qs)) @ list_pass c n (drop n qs))"
      using less.hyps [OF _ r(2), of "drop n qs" "k + 1"] by blast
    obtain x where x: "first_or ys None = Some x" using False by (cases ys) auto
    then have x': "first_or ps (first_or qs None) = Some x" by (simp add: ys first_or_append)
    have sk: "skip_run kind old m n (Some x) = (length ps, first_or qs None)"
      using skip_run_ok [OF less.prems(2) False, of n] by (simp add: x ps_def qs_def)
    have "merge_pass kind cmp old n m (Some x) lst tail k = Some (m2, lst2, tail2, k + 1 + merges n (drop n qs))"
      using r(1) p(1) sk by (subst merge_pass.simps) (simp add: x')
    then have "merge_pass kind cmp old n m (first_or ys None) lst tail k =
        Some (m2, lst2, tail2, k + 1 + merges n (drop n qs))" by (simp only: x)
    moreover have "merges n ys = Suc (merges n (drop n qs))" using False n by (subst merges.simps) (simp add: qs_def)
    moreover have "list_pass c n ys = Sorting_Algorithms.merge c ps (take n qs) @ list_pass c n (drop n qs)"
      using False n by (subst list_pass.simps) (simp add: ps_def qs_def)
    ultimately show ?thesis using p(2) by simp
  qed
qed

lemma sort_loop_ok:
  assumes c: "compares cmp c"
  shows "is_list kind m h xs \<Longrightarrow> n \<noteq> 0 \<Longrightarrow> runs_sorted c n xs \<Longrightarrow>
    \<exists>m' h' t'. sort_loop kind cmp n m h = Some (m', h', t') \<and> is_list kind m' h' (sort c xs) \<and>
      t' = last_or None (sort c xs)"
proof (induction "length xs - n" arbitrary: m h xs n rule: less_induct)
  case less
  note l = less.prems
  have d: "distinct xs" and h: "h = first_or xs None" using l(1) by (auto simp: is_list_def)
  from merge_pass_ok [OF c l(2) open_list_empty is_list_follow [OF l(1)], of 0] d
  obtain m1 h1 t1 where p: "merge_pass kind cmp h n m h None None 0 = Some (m1, h1, t1, merges n xs)"
      "open_list kind m1 h1 t1 (list_pass c n xs)"
    by (auto simp: h)
  have cl: "is_list kind (close_list kind h1 t1 m1) h1 (list_pass c n xs)" using p(2) d by (intro close_list_ok) auto
  have runs: "runs_sorted c (2 * n) (list_pass c n xs)" using l(3) by (rule list_pass_runs)
  have st: "sort c (list_pass c n xs) = sort c xs"
    using l(3) by (intro sort_eqI) (auto simp: list_pass_stable stable_sort)
  show ?case
  proof (cases "merges n xs \<le> 1")
    case True
    then have "length xs \<le> 2 * n" using l(2) merges_le_1 by blast
    then have "sorted c (list_pass c n xs)" using runs l(2) by (simp add: runs_sorted_short)
    then have "sort c (list_pass c n xs) = list_pass c n xs" by (intro sort_eqI) auto
    then show ?thesis using True p cl st by (subst sort_loop.simps) (auto simp: open_list_def)
  next
    case False
    then have "length xs > 2 * n" using l(2) merges_le_1 [of n xs] by linarith
    then have "length (list_pass c n xs) - 2 * n < length xs - n" using l(2) by simp
    from less.hyps [OF this cl _ runs] l(2) False p(1) st show ?thesis
      by (subst sort_loop.simps) simp
  qed
qed

lemma sort_links_ok:
  assumes "compares cmp c" and "is_list kind m h xs"
  shows "\<exists>m' h'. sort_links kind cmp m h = Some (m', h', last_or None (sort c xs)) \<and> is_list kind m' h' (sort c xs)"
proof (cases xs)
  case Nil
  with assms(2) show ?thesis by (simp add: sort_links_def is_list_def)
next
  case (Cons x ys)
  then have "sort_links kind cmp m h = sort_loop kind cmp 1 m h"
    using assms(2) by (simp add: sort_links_def is_list_def)
  then show ?thesis using sort_loop_ok [OF assms _ runs_sorted_1] by auto
qed

section \<open>The macros sort\<close>

text \<open>
  C25: The sort macros sort stably.  With a comparison function that agrees with a comparator, \<^verbatim>\<open>LL_SORT\<close>,
  \<^verbatim>\<open>DL_SORT\<close> and \<^verbatim>\<open>CDL_SORT\<close> return, and the links they leave represent, in the form of their kind of list,
  the stable sort of the elements the list held.
\<close>

theorem list_sorts_are_stable:
  assumes "compares cmp c"
  shows "(is_list Singly m h xs \<longrightarrow>
      (\<exists>m' h'. LL_SORT cmp m h = Some (m', h') \<and> is_list Singly m' h' (sort c xs))) \<and>
    (is_list Doubly m h xs \<longrightarrow>
      (\<exists>m' h'. DL_SORT cmp m h = Some (m', h') \<and> is_list Doubly m' h' (sort c xs))) \<and>
    (is_list Circular m h xs \<longrightarrow>
      (\<exists>m' h'. CDL_SORT cmp m h = Some (m', h') \<and> is_list Circular m' h' (sort c xs)))"
  using sort_links_ok [OF assms, of Singly m h xs] sort_links_ok [OF assms, of Doubly m h xs]
    sort_links_ok [OF assms, of Circular m h xs]
  by (auto simp: LL_SORT_def DL_SORT_def CDL_SORT_def)

text \<open>The elements 7, 8 and 9, compared by their last binary digit, in a circular list.\<close>

definition ring_789 :: "nat links" where
  "ring_789 = \<lparr>lnext = [7 \<mapsto> 8, 8 \<mapsto> 9, 9 \<mapsto> 7], lprev = [7 \<mapsto> 9, 8 \<mapsto> 7, 9 \<mapsto> 8]\<rparr>"

definition parity_cmp :: "nat \<Rightarrow> nat \<Rightarrow> int" where
  "parity_cmp x y = int (x mod 2) - int (y mod 2)"

lemma list_sorts_are_stable_witness:
  "\<exists>m' h'. CDL_SORT parity_cmp ring_789 (Some 7) = Some (m', h') \<and> is_list Circular m' h' [8, 7, 9]"
proof -
  have c: "compares parity_cmp (key (\<lambda>x. x mod 2) default)"
    by (auto simp: compares_def parity_cmp_def)
  have "is_list Circular ring_789 (Some 7) [7, 8, 9]"
    by (simp add: is_list_def ring_789_def)
  moreover have "sort (key (\<lambda>x. x mod 2) default) [7, 8, 9] = [8, 7, 9 :: nat]"
    by (intro sort_eqI) auto
  ultimately show ?thesis
    using list_sorts_are_stable [OF c, of ring_789 "Some 7" "[7, 8, 9]"] by simp
qed

end
