(* ===== verification/Ut_Hash_Ops.thy ===== *)
theory Ut_Hash_Ops
  imports Ut_Hash Ut_Sort
begin

text \<open>
  The operations of src/src/common/ut/uthash.h on a whole table: sorting its elements (\<^verbatim>\<open>HASH_SORT\<close>),
  and the integrity check \<^verbatim>\<open>HASH_FSCK\<close> that a build with \<^verbatim>\<open>HASH_DEBUG\<close> makes after every change.
\<close>

section \<open>Sorting the elements\<close>

text \<open>Only the order links and the tail change.\<close>

definition HASH_SRT :: "(eptr \<Rightarrow> eptr \<Rightarrow> int) \<Rightarrow> uthash \<Rightarrow> uthash option" where
  "HASH_SRT cmp s =
     (case ht_head s of
        None \<Rightarrow> Some s
      | Some h \<Rightarrow>
          (case sort_links Hash_order cmp \<lparr>lnext = next_elt (ht_hands s), lprev = prev_elt (ht_hands s)\<rparr> (Some h) of
             None \<Rightarrow> None
           | Some (m', h', tail') \<Rightarrow>
               Some (s\<lparr>ht_head := h', ht_tbl := (ht_tbl s)\<lparr>ht_tail := tail'\<rparr>,
                       ht_hands := (\<lambda>e. (ht_hands s e)\<lparr>hh_next_elt := lnext m' e, hh_prev_elt := lprev m' e\<rparr>)\<rparr>)))"

lemma hash_srt_ok:
  assumes ok: "hash_ok fcn s es" and c: "compares cmp c"
  shows "\<exists>s'. HASH_SRT cmp s = Some s' \<and> hash_ok fcn s' (sort c es) \<and>
    (\<forall>e. hh_key (ht_hands s' e) = hh_key (ht_hands s e)) \<and>
    buckets (ht_tbl s') = buckets (ht_tbl s) \<and> num_buckets (ht_tbl s') = num_buckets (ht_tbl s)"
proof (cases es)
  case Nil
  with ok show ?thesis by (auto simp: HASH_SRT_def hash_ok_def)
next
  case (Cons h hs)
  define m where "m = \<lparr>lnext = next_elt (ht_hands s), lprev = prev_elt (ht_hands s)\<rparr>"
  note o = hash_okD [OF ok]
  have "is_list Hash_order m (Some h) es"
    using o(2,5) Cons by (simp add: is_list_def m_def dseg_parts)
  from sort_links_ok [OF c this] obtain m' h' where r:
      "sort_links Hash_order cmp m (Some h) = Some (m', h', last_or None (sort c es))"
      "is_list Hash_order m' h' (sort c es)"
    by blast
  define hs' where "hs' = (\<lambda>e. (ht_hands s e)\<lparr>hh_next_elt := lnext m' e, hh_prev_elt := lprev m' e\<rparr>)"
  have seg: "dseg (next_elt hs') (prev_elt hs') None (sort c es) None" "h' = first_or (sort c es) None"
    using r(2) by (simp_all add: is_list_def dseg_parts hs'_def)
  have "buckets_ok hs' (buckets (ht_tbl s)) (set es)"
  proof (rule buckets_ok_cong)
    show "buckets_ok (ht_hands s) (buckets (ht_tbl s)) (set es)" using o(4) Cons by (simp add: table_ok_def)
  qed (simp add: hs'_def)
  then have "table_ok ((ht_tbl s)\<lparr>ht_tail := last_or None (sort c es)\<rparr>) hs' (sort c es)"
    using o(4) Cons by (simp add: table_ok_def)
  moreover have "keys_ok fcn hs' (set (sort c es))" using o(3) by (simp add: keys_ok_def hs'_def)
  moreover define s' where
    "s' = s\<lparr>ht_head := h', ht_tbl := (ht_tbl s)\<lparr>ht_tail := last_or None (sort c es)\<rparr>, ht_hands := hs'\<rparr>"
  ultimately have "hash_ok fcn s' (sort c es)"
    using seg by (simp add: hash_ok_def)
  moreover have "HASH_SRT cmp s = Some s'"
    using o(1) Cons r(1) by (simp add: HASH_SRT_def m_def hs'_def s'_def)
  moreover have "\<forall>e. hh_key (ht_hands s' e) = hh_key (ht_hands s e)" "buckets (ht_tbl s') = buckets (ht_tbl s)"
      "num_buckets (ht_tbl s') = num_buckets (ht_tbl s)"
    by (simp_all add: s'_def hs'_def)
  ultimately show ?thesis by blast
qed

section \<open>The integrity check\<close>

text \<open>Walking a chain: back links must lead where the walk came from (\<^verbatim>\<open>HASH_OOPS\<close> exits).\<close>

partial_function (option) fsck_chain ::
    "handles \<Rightarrow> eptr option \<Rightarrow> eptr option \<Rightarrow> 32 word \<Rightarrow> 32 word outcome option" where
  "fsck_chain hs prev thh n =
     (case thh of
        None \<Rightarrow> Some (Return n)
      | Some t \<Rightarrow>
          if hh_prev (hs t) \<noteq> prev then Some (Exit (-1))
          else fsck_chain hs (Some t) (hh_next (hs t)) (n + 1))"

fun fsck_buckets :: "handles \<Rightarrow> UT_hash_bucket list \<Rightarrow> 32 word \<Rightarrow> 32 word outcome option" where
  "fsck_buckets hs [] cnt = Some (Return cnt)"
| "fsck_buckets hs (b # bs) cnt =
     (case fsck_chain hs None (hh_head b) 0 of
        None \<Rightarrow> None
      | Some Abort \<Rightarrow> Some Abort
      | Some (Exit c) \<Rightarrow> Some (Exit c)
      | Some (Return n) \<Rightarrow>
          if bkt_count b \<noteq> n then Some (Exit (-1)) else fsck_buckets hs bs (cnt + n))"

partial_function (option) fsck_order ::
    "handles \<Rightarrow> eptr option \<Rightarrow> eptr option \<Rightarrow> 32 word \<Rightarrow> 32 word outcome option" where
  "fsck_order hs prev thh n =
     (case thh of
        None \<Rightarrow> Some (Return n)
      | Some t \<Rightarrow>
          if hh_prev_elt (hs t) \<noteq> prev then Some (Exit (-1))
          else fsck_order hs (Some t) (hh_next_elt (hs t)) (n + 1))"

definition HASH_FSCK :: "uthash \<Rightarrow> unit outcome option" where
  "HASH_FSCK s =
     (case ht_head s of
        None \<Rightarrow> Some (Return ())
      | Some h \<Rightarrow>
          (case fsck_buckets (ht_hands s) (take (unat (num_buckets (ht_tbl s))) (buckets (ht_tbl s))) 0 of
             None \<Rightarrow> None
           | Some Abort \<Rightarrow> Some Abort
           | Some (Exit c) \<Rightarrow> Some (Exit c)
           | Some (Return cnt) \<Rightarrow>
               if cnt \<noteq> num_items (ht_tbl s) then Some (Exit (-1))
               else
                 (case fsck_order (ht_hands s) None (Some h) 0 of
                    None \<Rightarrow> None
                  | Some Abort \<Rightarrow> Some Abort
                  | Some (Exit c) \<Rightarrow> Some (Exit c)
                  | Some (Return n) \<Rightarrow>
                      if n \<noteq> num_items (ht_tbl s) then Some (Exit (-1)) else Some (Return ()))))"

lemma fsck_chain_ok:
  "dseg (next_hh hs) (prev_hh hs) p c None \<Longrightarrow>
   fsck_chain hs p (first_or c None) n = Some (Return (n + of_nat (length c)))"
proof (induction c arbitrary: p n)
  case Nil
  then show ?case by (subst fsck_chain.simps) simp
next
  case (Cons t c)
  then show ?case by (subst fsck_chain.simps) (simp add: algebra_simps)
qed

lemma fsck_order_ok:
  "dseg (next_elt hs) (prev_elt hs) p es None \<Longrightarrow>
   fsck_order hs p (first_or es None) n = Some (Return (n + of_nat (length es)))"
proof (induction es arbitrary: p n)
  case Nil
  then show ?case by (subst fsck_order.simps) simp
next
  case (Cons t es)
  then show ?case by (subst fsck_order.simps) (simp add: algebra_simps)
qed

lemma fsck_buckets_ok:
  "\<forall>i < length bs. bucket_ok hs (bs ! i) (cs i) \<Longrightarrow>
   fsck_buckets hs bs cnt = Some (Return (cnt + of_nat (\<Sum>i < length bs. length (cs i))))"
proof (induction bs arbitrary: cnt cs)
  case Nil
  then show ?case by simp
next
  case (Cons b bs)
  have "bucket_ok hs b (cs 0)" using Cons.prems by force
  moreover have "\<forall>i < length bs. bucket_ok hs (bs ! i) (cs (Suc i))" using Cons.prems by force
  ultimately show ?case
    using Cons.IH [of "\<lambda>i. cs (Suc i)"] fsck_chain_ok [of hs None "cs 0" 0]
    by (simp add: bucket_ok_def sum.lessThan_Suc_shift algebra_simps del: sum.lessThan_Suc)
qed

text \<open>The chains partition the elements.\<close>

lemma buckets_count:
  assumes ok: "buckets_ok hs bs (set es)" and d: "distinct es" and k: "length bs = 2 ^ k" "k < 32"
  shows "\<exists>cs. (\<forall>i < length bs. bucket_ok hs (bs ! i) (cs i)) \<and> (\<Union>i < length bs. set (cs i)) = set es \<and>
    (\<Sum>i < length bs. length (cs i)) = length es"
proof -
  have "\<forall>i. \<exists>c. i < length bs \<longrightarrow> bucket_ok hs (bs ! i) c \<and> set c = {e \<in> set es. elt_bkt hs (length bs) e = i}"
    using ok by (auto simp: buckets_ok_def)
  then obtain cs where cs: "\<And>i. i < length bs \<Longrightarrow> bucket_ok hs (bs ! i) (cs i)"
      "\<And>i. i < length bs \<Longrightarrow> set (cs i) = {e \<in> set es. elt_bkt hs (length bs) e = i}"
    by metis
  have "(\<Sum>i < length bs. length (cs i)) = (\<Sum>i < length bs. card (set (cs i)))"
  proof (intro sum.cong refl)
    fix i assume "i \<in> {..<length bs}"
    then have "distinct (cs i)" using cs(1) [of i] dseg_distinct by (auto simp: bucket_ok_def)
    then show "length (cs i) = card (set (cs i))" by (simp add: distinct_card)
  qed
  also have "\<dots> = card (\<Union>i < length bs. set (cs i))"
    by (intro card_UN_disjoint [symmetric]) (auto simp: cs(2))
  also have un: "(\<Union>i < length bs. set (cs i)) = set es"
    using elt_bkt_less [OF k(2), of hs] by (auto simp: cs(2) k(1))
  finally have "(\<Sum>i < length bs. length (cs i)) = length es" using d by (simp add: distinct_card)
  with cs(1) un show ?thesis by blast
qed

lemma HASH_FSCK_ok:
  assumes ok: "hash_ok fcn s es"
  shows "HASH_FSCK s = Some (Return ())"
proof (cases es)
  case Nil
  with hash_okD(1) [OF ok] show ?thesis by (simp add: HASH_FSCK_def)
next
  case (Cons h hs)
  define k where "k = unat (log2_num_buckets (ht_tbl s))"
  have t: "k < 32" "length (buckets (ht_tbl s)) = 2 ^ k" "num_buckets (ht_tbl s) = of_nat (2 ^ k)"
      "buckets_ok (ht_hands s) (buckets (ht_tbl s)) (set es)" "num_items (ht_tbl s) = of_nat (length es)"
    using hash_okD(4) [OF ok] Cons by (simp_all add: table_ok_def k_def)
  obtain cs where cs: "\<forall>i < length (buckets (ht_tbl s)). bucket_ok (ht_hands s) (buckets (ht_tbl s) ! i) (cs i)"
      "(\<Sum>i < length (buckets (ht_tbl s)). length (cs i)) = length es"
    using buckets_count [OF t(4) hash_okD(5) [OF ok] t(2,1)] by blast
  have "unat (num_buckets (ht_tbl s)) = 2 ^ k" unfolding t(3) using t(1) by (rule unat_power)
  then have tk: "take (unat (num_buckets (ht_tbl s))) (buckets (ht_tbl s)) = buckets (ht_tbl s)" using t(2) by simp
  have b: "fsck_buckets (ht_hands s) (buckets (ht_tbl s)) 0 = Some (Return (num_items (ht_tbl s)))"
    using fsck_buckets_ok [OF cs(1), of 0] by (simp add: cs(2) t(5))
  have o: "fsck_order (ht_hands s) None (Some h) 0 = Some (Return (num_items (ht_tbl s)))"
    using fsck_order_ok [OF hash_okD(2) [OF ok], of 0] Cons by (simp add: t(5))
  have "ht_head s = Some h" using hash_okD(1) [OF ok] Cons by simp
  then show ?thesis by (simp add: HASH_FSCK_def tk b o)
qed

text \<open>
  C19: Changes keep the table sound.  Adding an element with memory available, deleting one, and sorting
  turn a table that holds the elements \<open>es\<close> in order into one that holds \<open>es @ [e]\<close>, \<open>es\<close> without the
  element, and the stable sort of \<open>es\<close>; such a table passes \<^verbatim>\<open>HASH_FSCK\<close>, the library's own integrity check
  of all links and counts.
\<close>

theorem hash_changes_pass_fsck:
  assumes ok: "hash_ok HASH_JEN s es" and c: "compares cmp c"
  shows "HASH_FSCK s = Some (Return ()) \<and>
    (e \<notin> set es \<longrightarrow> length ky < 2 ^ 32 \<longrightarrow> hash_room s es \<longrightarrow>
      (\<exists>s'. HASH_ADD_KEYPTR HASH_JEN (\<lambda>_. True) s ky e = Some (Return s') \<and>
        hash_ok HASH_JEN s' (es @ [e]) \<and> HASH_FSCK s' = Some (Return ()))) \<and>
    (e \<in> set es \<longrightarrow>
      hash_ok HASH_JEN (HASH_DELETE s e) (remove1 e es) \<and> HASH_FSCK (HASH_DELETE s e) = Some (Return ())) \<and>
    (\<exists>s'. HASH_SRT cmp s = Some s' \<and> hash_ok HASH_JEN s' (sort c es) \<and> HASH_FSCK s' = Some (Return ()))"
proof (intro conjI impI)
  show "HASH_FSCK s = Some (Return ())" using ok by (rule HASH_FSCK_ok)
  show "\<exists>s'. HASH_ADD_KEYPTR HASH_JEN (\<lambda>_. True) s ky e = Some (Return s') \<and>
      hash_ok HASH_JEN s' (es @ [e]) \<and> HASH_FSCK s' = Some (Return ())"
    if "e \<notin> set es" "length ky < 2 ^ 32" "hash_room s es"
    using hash_jen.hash_add [OF ok that, of "\<lambda>_. True"] HASH_FSCK_ok by blast
  show "\<exists>s'. HASH_SRT cmp s = Some s' \<and> hash_ok HASH_JEN s' (sort c es) \<and> HASH_FSCK s' = Some (Return ())"
    using hash_srt_ok [OF ok c] HASH_FSCK_ok by blast
  assume "e \<in> set es"
  then obtain xs ys where es: "es = xs @ e # ys" "e \<notin> set xs" by (meson split_list_first)
  from hash_delete(1) [OF ok [unfolded es(1)]] es
  show del: "hash_ok HASH_JEN (HASH_DELETE s e) (remove1 e es)" by (simp add: remove1_append)
  from del show "HASH_FSCK (HASH_DELETE s e) = Some (Return ())" by (rule HASH_FSCK_ok)
qed

lemma hash_changes_pass_fsck_witness:
  "\<exists>s'. HASH_ADD_KEYPTR HASH_JEN (\<lambda>_. True) demo_table [1, 2] 7 = Some (Return s') \<and>
     hash_ok HASH_JEN s' [7] \<and> HASH_FSCK s' = Some (Return ())"
proof -
  have ok: "hash_ok HASH_JEN demo_table []" by (simp add: hash_ok_def demo_table_def keys_ok_def)
  have c: "compares parity_cmp (key (\<lambda>x. x mod 2) default)"
    by (auto simp: compares_def parity_cmp_def)
  show ?thesis
    using hash_changes_pass_fsck [OF ok c, of 7 "[1, 2]"] by (simp add: hash_room_def)
qed

end
