(* ===== verification/Ut_Hash_Select.thy ===== *)
theory Ut_Hash_Select
  imports Ut_Hash_Ops
begin

text \<open>
  Selecting elements into a second table (\<^verbatim>\<open>HASH_SELECT\<close> of src/src/common/ut/uthash.h), and the Bloom filter
  that a build with \<^verbatim>\<open>HASH_BLOOM\<close> puts in front of every lookup.  The lemmas say what the second table is,
  up to the tail that the macro leaves at its first element, and that the filter changes no answer of a
  table, except after a selection, which does not fill it.
\<close>

section \<open>Selecting\<close>

text \<open>
  The second table has handles of its own in the same elements; \<open>src\<close> are those of the first.  The state is
  the second table with the last element selected so far (\<^verbatim>\<open>_last_elt\<close>).
\<close>

definition select_elt ::
    "(request \<Rightarrow> bool) \<Rightarrow> handles \<Rightarrow> eptr \<Rightarrow> uthash \<times> eptr option \<Rightarrow> (uthash \<times> eptr option) outcome option" where
  "select_elt mem src e st =
     (case st of (dst, last_elt) \<Rightarrow>
        let hs1 = set_hh e (\<lambda>h. h\<lparr>hh_key := hh_key (src e), hh_keylen := hh_keylen (src e),
                    hh_hashv := hh_hashv (src e), hh_prev_elt := last_elt, hh_next_elt := None\<rparr>) (ht_hands dst);
            hs2 = (case last_elt of None \<Rightarrow> hs1 | Some l \<Rightarrow> set_hh l (\<lambda>h. h\<lparr>hh_next_elt := Some e\<rparr>) hs1)
        in case (case ht_head dst of None \<Rightarrow> HASH_MAKE_TABLE mem e | Some h \<Rightarrow> Return (ht_tbl dst)) of
             Abort \<Rightarrow> Some Abort
           | Exit n \<Rightarrow> Some (Exit n)
           | Return t \<Rightarrow>
               (case HASH_ADD_TO_BKT mem t hs2 (unat (HASH_TO_BKT (hh_hashv (src e)) (num_buckets t))) e of
                  None \<Rightarrow> None
                | Some Abort \<Rightarrow> Some Abort
                | Some (Exit n) \<Rightarrow> Some (Exit n)
                | Some (Return (t', hs')) \<Rightarrow>
                    Some (Return
                      (dst\<lparr>ht_head := (case ht_head dst of None \<Rightarrow> Some e | Some h \<Rightarrow> Some h),
                           ht_tbl := t'\<lparr>num_items := num_items t' + 1\<rparr>, ht_hands := hs'\<rparr>, Some e))))"

text \<open>The walk along a chain of the first table.\<close>

partial_function (option) select_chain ::
    "(request \<Rightarrow> bool) \<Rightarrow> (eptr \<Rightarrow> bool) \<Rightarrow> handles \<Rightarrow> eptr option \<Rightarrow> uthash \<times> eptr option \<Rightarrow>
     (uthash \<times> eptr option) outcome option" where
  "select_chain mem cond src src_hh st =
     (case src_hh of
        None \<Rightarrow> Some (Return st)
      | Some e \<Rightarrow>
          if cond e
          then (case select_elt mem src e st of
                  None \<Rightarrow> None
                | Some Abort \<Rightarrow> Some Abort
                | Some (Exit n) \<Rightarrow> Some (Exit n)
                | Some (Return st') \<Rightarrow> select_chain mem cond src (hh_next (src e)) st')
          else select_chain mem cond src (hh_next (src e)) st)"

fun select_buckets ::
    "(request \<Rightarrow> bool) \<Rightarrow> (eptr \<Rightarrow> bool) \<Rightarrow> handles \<Rightarrow> UT_hash_bucket list \<Rightarrow> uthash \<times> eptr option \<Rightarrow>
     (uthash \<times> eptr option) outcome option" where
  "select_buckets mem cond src [] st = Some (Return st)"
| "select_buckets mem cond src (b # bs) st =
     (case select_chain mem cond src (hh_head b) st of
        None \<Rightarrow> None
      | Some Abort \<Rightarrow> Some Abort
      | Some (Exit n) \<Rightarrow> Some (Exit n)
      | Some (Return st') \<Rightarrow> select_buckets mem cond src bs st')"

definition HASH_SELECT :: "(request \<Rightarrow> bool) \<Rightarrow> (eptr \<Rightarrow> bool) \<Rightarrow> uthash \<Rightarrow> uthash \<Rightarrow> uthash outcome option" where
  "HASH_SELECT mem cond src dst =
     (case ht_head src of
        None \<Rightarrow> Some (Return dst)
      | Some h \<Rightarrow>
          (case select_buckets mem cond (ht_hands src)
                  (take (unat (num_buckets (ht_tbl src))) (buckets (ht_tbl src))) (dst, None) of
             None \<Rightarrow> None
           | Some Abort \<Rightarrow> Some Abort
           | Some (Exit n) \<Rightarrow> Some (Exit n)
           | Some (Return (dst', last_elt)) \<Rightarrow> Some (Return dst')))"

text \<open>
  What the second table is after the elements \<open>xs\<close>: everything of a table that holds them in this order
  but its tail, which stays at the first.
\<close>

definition selected :: "handles \<Rightarrow> uthash \<times> eptr option \<Rightarrow> eptr list \<Rightarrow> bool" where
  "selected src st xs \<longleftrightarrow>
     (case st of (dst, last_elt) \<Rightarrow>
        ht_head dst = first_or xs None \<and> last_elt = last_or None xs \<and>
        dseg (next_elt (ht_hands dst)) (prev_elt (ht_hands dst)) None xs None \<and>
        (\<forall>x \<in> set xs. hh_key (ht_hands dst x) = hh_key (src x) \<and> hh_keylen (ht_hands dst x) = hh_keylen (src x) \<and>
           hh_hashv (ht_hands dst x) = hh_hashv (src x)) \<and>
        (xs \<noteq> [] \<longrightarrow> chains_ok (ht_tbl dst) (ht_hands dst) (set xs) \<and> ht_tail (ht_tbl dst) = Some (hd xs) \<and>
           num_items (ht_tbl dst) = of_nat (length xs) \<and> unat (log2_num_buckets (ht_tbl dst)) \<le> 30))"

lemma selected_none: "ht_head dst = None \<Longrightarrow> selected src (dst, None) []"
  by (simp add: selected_def)

text \<open>Enough memory for the buckets never means that they could not be counted.\<close>

lemma add_to_bkt_log2_bound:
  assumes r: "HASH_ADD_TO_BKT mem t hs b e = Some (Return (t', hs'))" and m: "alloc_ok mem"
    and k: "unat (log2_num_buckets t) \<le> 30" "num_buckets t = of_nat (2 ^ unat (log2_num_buckets t))"
  shows "unat (log2_num_buckets t') \<le> 30"
proof (cases "log2_num_buckets t' = log2_num_buckets t")
  case False
  with HASH_ADD_TO_BKT_log2 [OF r] have up: "log2_num_buckets t' = log2_num_buckets t + 1"
      "mem (Expansion_mem (2 * num_buckets t))" by auto
  define j where "j = unat (log2_num_buckets t)"
  have nb: "2 * num_buckets t = of_nat (2 ^ Suc j)" using k(2) by (simp add: j_def)
  have "unat (of_nat (2 ^ Suc j) :: 32 word) < 2 ^ 31"
    using up(2) m by (simp only: nb alloc_ok_def)
  moreover have "unat (of_nat (2 ^ Suc j) :: 32 word) = 2 ^ Suc j" using k(1) by (intro unat_power) (simp add: j_def)
  ultimately have "2 ^ Suc j < (2 :: nat) ^ 31" by simp
  then have "Suc j < 31" by (rule power_less_imp_less_exp [rotated]) simp
  moreover have "unat (log2_num_buckets t + 1) = Suc j" using k(1) by (simp add: unat_word_ariths j_def)
  ultimately show ?thesis using up(1) by simp
qed (use k in simp)

lemma select_elt_ok:
  assumes sel: "selected src st xs" and e: "e \<notin> set xs" and n: "length xs + 1 < 2 ^ 32" and mem: "alloc_ok mem"
  shows "(\<exists>st'. select_elt mem src e st = Some (Return st') \<and> selected src st' (xs @ [e])) \<or>
    (select_elt mem src e st = Some (Exit (-1)) \<and> (\<exists>req. \<not> mem req))"
proof -
  obtain dst l where st: "st = (dst, l)" by (cases st)
  have i: "ht_head dst = first_or xs None" "l = last_or None xs"
      "dseg (next_elt (ht_hands dst)) (prev_elt (ht_hands dst)) None xs None"
      "\<And>x. x \<in> set xs \<Longrightarrow> hh_key (ht_hands dst x) = hh_key (src x) \<and> hh_keylen (ht_hands dst x) = hh_keylen (src x) \<and>
         hh_hashv (ht_hands dst x) = hh_hashv (src x)"
      "xs \<noteq> [] \<Longrightarrow> chains_ok (ht_tbl dst) (ht_hands dst) (set xs) \<and> ht_tail (ht_tbl dst) = Some (hd xs) \<and>
         num_items (ht_tbl dst) = of_nat (length xs) \<and> unat (log2_num_buckets (ht_tbl dst)) \<le> 30"
    using sel by (simp_all add: selected_def st)
  define hs1 where "hs1 = set_hh e (\<lambda>h. h\<lparr>hh_key := hh_key (src e), hh_keylen := hh_keylen (src e),
      hh_hashv := hh_hashv (src e), hh_prev_elt := l, hh_next_elt := None\<rparr>) (ht_hands dst)"
  define hs2 where "hs2 = (case l of None \<Rightarrow> hs1 | Some u \<Rightarrow> set_hh u (\<lambda>h. h\<lparr>hh_next_elt := Some e\<rparr>) hs1)"
  have le: "l \<noteq> Some e" using e i(2) by (cases xs rule: rev_cases) (auto simp: link_simps)
  have nx: "next_elt hs2 = append_next (last_or None xs) e (next_elt (ht_hands dst))"
    and pv: "prev_elt hs2 = (prev_elt (ht_hands dst))(e := last_or None xs)"
    using le unfolding i(2) [symmetric]
    by (auto simp: hs2_def hs1_def set_hh_def append_next_def fun_eq_iff split: option.splits)
  have seg: "dseg (next_elt hs2) (prev_elt hs2) None (xs @ [e]) None"
    unfolding nx pv using i(3) e by (rule dseg_snoc)
  have fld: "hh_next (hs2 x) = hh_next (ht_hands dst x)" if "x \<noteq> e" for x
    using that by (auto simp: hs2_def hs1_def set_hh_def split: option.splits)
  have fld': "hh_prev (hs2 x) = hh_prev (ht_hands dst x)" if "x \<noteq> e" for x
    using that by (auto simp: hs2_def hs1_def set_hh_def split: option.splits)
  have ky: "hh_key (hs2 x) = hh_key (src x)" "hh_keylen (hs2 x) = hh_keylen (src x)" "hh_hashv (hs2 x) = hh_hashv (src x)"
    if "x \<in> set (xs @ [e])" for x
    using that i(4) [of x] le by (auto simp: hs2_def hs1_def set_hh_def split: option.splits)
  define mk where "mk = (case ht_head dst of None \<Rightarrow> HASH_MAKE_TABLE mem e | Some h \<Rightarrow> Return (ht_tbl dst))"
  have se: "select_elt mem src e st =
     (case mk of Abort \<Rightarrow> Some Abort | Exit n \<Rightarrow> Some (Exit n)
      | Return t \<Rightarrow>
          (case HASH_ADD_TO_BKT mem t hs2 (unat (HASH_TO_BKT (hh_hashv (src e)) (num_buckets t))) e of
             None \<Rightarrow> None | Some Abort \<Rightarrow> Some Abort | Some (Exit n) \<Rightarrow> Some (Exit n)
           | Some (Return (t', hs')) \<Rightarrow>
               Some (Return (dst\<lparr>ht_head := (case ht_head dst of None \<Rightarrow> Some e | Some h \<Rightarrow> Some h),
                  ht_tbl := t'\<lparr>num_items := num_items t' + 1\<rparr>, ht_hands := hs'\<rparr>, Some e))))"
    unfolding select_elt_def st prod.case Let_def hs1_def [symmetric] hs2_def [symmetric] mk_def [symmetric] by (rule refl)
  show ?thesis
  proof (cases "xs = [] \<and> (\<not> mem Table_mem \<or> \<not> mem Buckets_mem)")
    case True
    then have "mk = Exit (-1)" using i(1) by (auto simp: mk_def HASH_MAKE_TABLE_def)
    then show ?thesis using True by (auto simp: se)
  next
    case False
    obtain t where t: "mk = Return t" "chains_ok t hs2 (set xs)" "ht_tail t = Some (hd (xs @ [e]))"
      "num_items t = of_nat (length xs)" "unat (log2_num_buckets t) \<le> 30"
      "\<And>b. b < 32 \<Longrightarrow> num_items t \<noteq> 0 \<or> buckets t ! b = empty_bucket" "xs = [] \<Longrightarrow> num_buckets t = 32"
    proof (cases xs)
      case Nil
      with False obtain t where mt: "HASH_MAKE_TABLE mem e = Return t" "ht_tail t = Some e"
        by (auto simp: HASH_MAKE_TABLE_def)
      have "mk = Return t" using mt(1) Nil i(1) by (simp add: mk_def)
      moreover have "chains_ok t hs2 (set xs)"
        using HASH_MAKE_TABLE_facts [OF mt(1)] Nil by (auto simp: chains_ok_def buckets_ok_def intro!: exI [of _ "[]"])
      ultimately show ?thesis using mt(2) HASH_MAKE_TABLE_facts [OF mt(1)] Nil by (intro that [of t]) simp_all
    next
      case (Cons h hs)
      then have ne: "xs \<noteq> []" by simp
      note f = i(5) [OF ne]
      have "buckets_ok (ht_hands dst) (buckets (ht_tbl dst)) (set xs)" using f by (simp add: chains_ok_def)
      moreover have "hh_next (hs2 x) = hh_next (ht_hands dst x) \<and> hh_prev (hs2 x) = hh_prev (ht_hands dst x) \<and>
          hh_hashv (hs2 x) = hh_hashv (ht_hands dst x)" if "x \<in> set xs" for x
      proof -
        have "x \<noteq> e" using that e by blast
        then show ?thesis using fld fld' ky(3) [of x] i(4) [OF that] that by simp
      qed
      ultimately have "buckets_ok hs2 (buckets (ht_tbl dst)) (set xs)" by (rule buckets_ok_cong)
      then have "chains_ok (ht_tbl dst) hs2 (set xs)" using f by (simp add: chains_ok_def)
      moreover have "unat (num_items (ht_tbl dst)) = length xs"
        using f n by (simp add: unat_small)
      then have "num_items (ht_tbl dst) \<noteq> 0" using ne by auto
      ultimately show ?thesis using f Cons i(1) by (intro that [of "ht_tbl dst"]) (simp_all add: mk_def)
    qed
    define k where "k = unat (log2_num_buckets t)"
    have k: "k < 31" "num_buckets t = of_nat (2 ^ k)" using t(2,5) by (simp_all add: k_def chains_ok_def)
    have bkt: "unat (HASH_TO_BKT (hh_hashv (src e)) (num_buckets t)) = elt_bkt hs2 (2 ^ k) e"
      by (simp add: elt_bkt_def k(2) ky)
    have nz: "num_items t \<noteq> 0 \<or> buckets t ! unat (HASH_TO_BKT (hh_hashv (src e)) (num_buckets t)) = empty_bucket"
    proof (cases "xs = []")
      case True
      then show ?thesis using t(6,7) HASH_TO_BKT_less [of 5 "hh_hashv (src e)"] by simp
    next
      case False
      then have "unat (num_items t) = length xs" using t(4) n by (simp add: unat_small)
      then show ?thesis using False by auto
    qed
    from HASH_ADD_TO_BKT_chains [where mem = mem, OF t(2) k_def [symmetric] k(1) e nz bkt] consider
      (fine) t' hs' where "HASH_ADD_TO_BKT mem t hs2 (unat (HASH_TO_BKT (hh_hashv (src e)) (num_buckets t))) e = Some (Return (t', hs'))"
        "chains_ok t' hs' (insert e (set xs))" "ht_tail t' = ht_tail t" "num_items t' = num_items t" "same_elts hs2 hs'"
    | (out) "HASH_ADD_TO_BKT mem t hs2 (unat (HASH_TO_BKT (hh_hashv (src e)) (num_buckets t))) e = Some (Exit (-1))"
        "\<not> mem (Expansion_mem (2 * num_buckets t))"
      by blast
    then show ?thesis
    proof cases
      case fine
      define dst' where "dst' = dst\<lparr>ht_head := (case ht_head dst of None \<Rightarrow> Some e | Some h \<Rightarrow> Some h),
          ht_tbl := t'\<lparr>num_items := num_items t' + 1\<rparr>, ht_hands := hs'\<rparr>"
      have sm: "hh_next_elt (hs' x) = hh_next_elt (hs2 x)" "hh_prev_elt (hs' x) = hh_prev_elt (hs2 x)"
          "hh_key (hs' x) = hh_key (hs2 x)" "hh_keylen (hs' x) = hh_keylen (hs2 x)" "hh_hashv (hs' x) = hh_hashv (hs2 x)" for x
        using fine(5) by (simp_all add: same_elts_def)
      have lg: "unat (log2_num_buckets t') \<le> 30"
        using add_to_bkt_log2_bound [OF fine(1) mem t(5)] k(2) by (simp add: k_def)
      have hd: "ht_head dst' = first_or (xs @ [e]) None" using i(1) by (cases xs) (simp_all add: dst'_def)
      have ch: "chains_ok (ht_tbl dst') (ht_hands dst') (set (xs @ [e]))" using fine(2) by (simp add: dst'_def chains_ok_def)
      have "selected src (dst', Some e) (xs @ [e])"
        using hd ch seg ky sm fine(3,4) t(3,4) lg by (simp add: selected_def dst'_def link_simps)
      moreover have "select_elt mem src e st = Some (Return (dst', Some e))"
        by (simp add: se t(1) fine(1) dst'_def)
      ultimately show ?thesis by blast
    next
      case out
      then show ?thesis by (auto simp: se t(1))
    qed
  qed
qed

lemma select_chain_ok:
  "selected src st xs \<Longrightarrow> nseg (next_hh src) c None \<Longrightarrow> distinct (xs @ c) \<Longrightarrow> length (xs @ c) < 2 ^ 32 \<Longrightarrow> alloc_ok mem \<Longrightarrow>
   (\<exists>st'. select_chain mem cond src (first_or c None) st = Some (Return st') \<and> selected src st' (xs @ filter cond c)) \<or>
   (select_chain mem cond src (first_or c None) st = Some (Exit (-1)) \<and> (\<exists>req. \<not> mem req))"
proof (induction c arbitrary: st xs)
  case Nil
  then show ?case by (subst (1 2) select_chain.simps) simp
next
  case (Cons e c)
  have nx: "hh_next (src e) = first_or c None" "nseg (next_hh src) c None" using Cons.prems(2) by simp_all
  have eq: "select_chain mem cond src (first_or (e # c) None) st =
      (if cond e then (case select_elt mem src e st of None \<Rightarrow> None | Some Abort \<Rightarrow> Some Abort | Some (Exit n) \<Rightarrow> Some (Exit n)
         | Some (Return st') \<Rightarrow> select_chain mem cond src (first_or c None) st')
       else select_chain mem cond src (first_or c None) st)"
    by (subst select_chain.simps) (simp only: first_or.simps option.case nx(1))
  show ?case
  proof (cases "cond e")
    case True
    from select_elt_ok [OF Cons.prems(1) _ _ Cons.prems(5), of e] Cons.prems(3,4) consider
      (fine) st' where "select_elt mem src e st = Some (Return st')" "selected src st' (xs @ [e])"
    | (out) "select_elt mem src e st = Some (Exit (-1))" "\<exists>req. \<not> mem req" by auto
    then show ?thesis
    proof cases
      case fine
      then show ?thesis
        unfolding eq using Cons.IH [OF fine(2) nx(2) _ _ Cons.prems(5)] Cons.prems(3,4) True by simp
    next
      case out
      then show ?thesis unfolding eq using True by simp
    qed
  next
    case False
    then show ?thesis
      unfolding eq using Cons.IH [OF Cons.prems(1) nx(2) _ _ Cons.prems(5)] Cons.prems(3,4) by simp
  qed
qed

lemma select_buckets_ok:
  "selected src st xs \<Longrightarrow> list_all2 (bucket_ok src) bs css \<Longrightarrow> distinct (xs @ concat css) \<Longrightarrow>
   length (xs @ concat css) < 2 ^ 32 \<Longrightarrow> alloc_ok mem \<Longrightarrow>
   (\<exists>st'. select_buckets mem cond src bs st = Some (Return st') \<and> selected src st' (xs @ filter cond (concat css))) \<or>
   (select_buckets mem cond src bs st = Some (Exit (-1)) \<and> (\<exists>req. \<not> mem req))"
proof (induction bs arbitrary: st xs css)
  case Nil
  then show ?case by simp
next
  case (Cons b bs)
  obtain c css' where css: "css = c # css'" "bucket_ok src b c" "list_all2 (bucket_ok src) bs css'"
    using Cons.prems(2) by (auto simp: list_all2_Cons1)
  have c: "nseg (next_hh src) c None" "hh_head b = first_or c None"
    using css(2) by (auto simp: bucket_ok_def dest: dseg_nseg)
  have d: "distinct (xs @ c)" "length (xs @ c) < 2 ^ 32" using Cons.prems(3,4) css(1) by auto
  have d': "distinct ((xs @ filter cond c) @ concat css')"
    using Cons.prems(3) css(1) by auto
  have l': "length ((xs @ filter cond c) @ concat css') < 2 ^ 32"
    using Cons.prems(4) css(1) length_filter_le [of cond c] by (simp del: length_filter_le)
  from select_chain_ok [OF Cons.prems(1) c(1) d Cons.prems(5), of cond] consider
    (fine) st' where "select_chain mem cond src (hh_head b) st = Some (Return st')" "selected src st' (xs @ filter cond c)"
  | (out) "select_chain mem cond src (hh_head b) st = Some (Exit (-1))" "\<exists>req. \<not> mem req"
    unfolding c(2) by blast
  then show ?case
  proof cases
    case fine
    from Cons.IH [OF fine(2) css(3) d' l' Cons.prems(5)] fine(1) show ?thesis by (simp add: css(1))
  qed simp
qed

text \<open>
  A selection into a new table: the elements that meet the condition, in the order of the chains.  The
  second table is the table of these elements, except that its tail is the first of them.
\<close>

lemma HASH_SELECT_ok:
  assumes ok: "hash_ok fcn src es" and new: "ht_head dst = None" and mem: "alloc_ok mem"
  shows "(\<exists>dst' xs. HASH_SELECT mem cond src dst = Some (Return dst') \<and>
      set xs = {e \<in> set es. cond e} \<and>
      hash_ok fcn (dst'\<lparr>ht_tbl := (ht_tbl dst')\<lparr>ht_tail := last_or None xs\<rparr>\<rparr>) xs \<and>
      (xs \<noteq> [] \<longrightarrow> ht_tail (ht_tbl dst') = Some (hd xs) \<and> unat (log2_num_buckets (ht_tbl dst')) \<le> 30) \<and>
      (\<forall>e \<in> set xs. hh_key (ht_hands dst' e) = hh_key (ht_hands src e))) \<or>
    (HASH_SELECT mem cond src dst = Some (Exit (-1)) \<and> (\<exists>req. \<not> mem req))"
proof (cases es)
  case Nil
  then have "HASH_SELECT mem cond src dst = Some (Return dst)" using hash_okD(1) [OF ok] by (simp add: HASH_SELECT_def)
  moreover have "hash_ok fcn (dst\<lparr>ht_tbl := (ht_tbl dst)\<lparr>ht_tail := last_or None []\<rparr>\<rparr>) []"
    using new by (simp add: hash_ok_def keys_ok_def)
  ultimately show ?thesis using Nil by (intro disjI1 exI [of _ dst] exI [of _ "[]"]) simp
next
  case (Cons h hs)
  define k where "k = unat (log2_num_buckets (ht_tbl src))"
  have t: "k < 32" "length (buckets (ht_tbl src)) = 2 ^ k" "num_buckets (ht_tbl src) = of_nat (2 ^ k)"
      "buckets_ok (ht_hands src) (buckets (ht_tbl src)) (set es)" "length es < 2 ^ 32"
    using hash_okD(4) [OF ok] Cons by (simp_all add: table_ok_def k_def)
  obtain cs where cs: "\<forall>i < length (buckets (ht_tbl src)). bucket_ok (ht_hands src) (buckets (ht_tbl src) ! i) (cs i)"
      "(\<Union>i < length (buckets (ht_tbl src)). set (cs i)) = set es"
      "(\<Sum>i < length (buckets (ht_tbl src)). length (cs i)) = length es"
    using buckets_count [OF t(4) hash_okD(5) [OF ok] t(2,1)] by blast
  define css where "css = map cs [0..<2 ^ k]"
  have all: "list_all2 (bucket_ok (ht_hands src)) (buckets (ht_tbl src)) css"
    using cs(1) by (simp add: list_all2_conv_all_nth css_def t(2))
  have st: "set (concat css) = set es" using cs(2) by (simp add: css_def t(2) atLeast0LessThan)
  have "length (concat css) = length es"
    using cs(3) by (simp add: css_def t(2) length_concat interv_sum_list_conv_sum_set_nat atLeast0LessThan o_def)
  then have d: "length (concat css) < 2 ^ 32" "distinct (concat css)"
    using hash_okD(5) [OF ok] st t(5) by (simp, metis card_distinct distinct_card)
  have "unat (num_buckets (ht_tbl src)) = 2 ^ k" unfolding t(3) using t(1) by (rule unat_power)
  then have tk: "take (unat (num_buckets (ht_tbl src))) (buckets (ht_tbl src)) = buckets (ht_tbl src)" using t(2) by simp
  have hd: "ht_head src = Some h" using hash_okD(1) [OF ok] Cons by simp
  define xs where "xs = filter cond (concat css)"
  from select_buckets_ok [OF selected_none [OF new] all _ _ mem, of cond] d consider
    (fine) dst' l where "select_buckets mem cond (ht_hands src) (buckets (ht_tbl src)) (dst, None) = Some (Return (dst', l))"
      "selected (ht_hands src) (dst', l) xs"
  | (out) "select_buckets mem cond (ht_hands src) (buckets (ht_tbl src)) (dst, None) = Some (Exit (-1))" "\<exists>req. \<not> mem req"
    by (auto simp: xs_def)
  then show ?thesis
  proof cases
    case fine
    have sub: "set xs = {e \<in> set es. cond e}" using st by (auto simp: xs_def)
    have len: "length xs < 2 ^ 32" using d(1) length_filter_le [of cond "concat css"] by (simp add: xs_def del: length_filter_le)
    have "keys_ok fcn (ht_hands dst') (set xs)"
      using hash_okD(3) [OF ok] fine(2) sub by (auto simp: keys_ok_def selected_def)
    then have "hash_ok fcn (dst'\<lparr>ht_tbl := (ht_tbl dst')\<lparr>ht_tail := last_or None xs\<rparr>\<rparr>) xs"
      using fine(2) len by (auto simp: hash_ok_def selected_def table_ok_chains chains_ok_def)
    moreover have "HASH_SELECT mem cond src dst = Some (Return dst')"
      using fine(1) by (simp add: HASH_SELECT_def hd tk)
    ultimately show ?thesis using fine(2) sub by (auto simp: selected_def)
  next
    case out
    then show ?thesis by (simp add: HASH_SELECT_def hd tk)
  qed
qed

text \<open>
  So lookups, the count, the iteration and the integrity check answer as for any table of these elements:
  none of them reads the tail.
\<close>

lemma hash_select_answers:
  assumes ok: "hash_ok HASH_JEN src es" and new: "ht_head dst = None" and mem: "alloc_ok mem"
  shows "(\<exists>dst' xs. HASH_SELECT mem cond src dst = Some (Return dst') \<and> set xs = {e \<in> set es. cond e} \<and> distinct xs \<and>
      HASH_ITER (ht_hands dst') (ht_head dst') = Some xs \<and> HASH_CNT dst' = of_nat (length xs) \<and>
      HASH_FSCK dst' = Some (Return ()) \<and>
      (\<forall>key. \<exists>res. HASH_FIND HASH_JEN dst' key = Some res \<and>
         (res = None \<longrightarrow> (\<forall>e \<in> set xs. hh_key (ht_hands src e) \<noteq> key)) \<and>
         (\<forall>e. res = Some e \<longrightarrow> e \<in> set xs \<and> hh_key (ht_hands src e) = key))) \<or>
    (HASH_SELECT mem cond src dst = Some (Exit (-1)) \<and> (\<exists>req. \<not> mem req))"
  using HASH_SELECT_ok [OF ok new mem, of cond]
proof (elim disjE exE conjE)
  fix dst' xs
  assume r: "HASH_SELECT mem cond src dst = Some (Return dst')" "set xs = {e \<in> set es. cond e}"
    and ok': "hash_ok HASH_JEN (dst'\<lparr>ht_tbl := (ht_tbl dst')\<lparr>ht_tail := last_or None xs\<rparr>\<rparr>) xs"
    and ky: "\<forall>e \<in> set xs. hh_key (ht_hands dst' e) = hh_key (ht_hands src e)"
  define fixed where "fixed = dst'\<lparr>ht_tbl := (ht_tbl dst')\<lparr>ht_tail := last_or None xs\<rparr>\<rparr>"
  have f: "ht_hands fixed = ht_hands dst'" "ht_head fixed = ht_head dst'" "buckets (ht_tbl fixed) = buckets (ht_tbl dst')"
    "num_buckets (ht_tbl fixed) = num_buckets (ht_tbl dst')" "num_items (ht_tbl fixed) = num_items (ht_tbl dst')"
    by (simp_all add: fixed_def)
  have same: "HASH_FIND HASH_JEN dst' key = HASH_FIND HASH_JEN fixed key" "HASH_CNT dst' = HASH_CNT fixed"
    "HASH_FSCK dst' = HASH_FSCK fixed" "ht_hands dst' = ht_hands fixed" "ht_head dst' = ht_head fixed" for key
    unfolding HASH_FIND_def HASH_CNT_def HASH_FSCK_def f by (rule refl)+
  note ok'' = ok' [folded fixed_def]
  have find: "\<exists>res. HASH_FIND HASH_JEN dst' key = Some res \<and>
      (res = None \<longrightarrow> (\<forall>e \<in> set xs. hh_key (ht_hands src e) \<noteq> key)) \<and>
      (\<forall>e. res = Some e \<longrightarrow> e \<in> set xs \<and> hh_key (ht_hands src e) = key)" for key
  proof -
    obtain res where "HASH_FIND HASH_JEN fixed key = Some res" "res = None \<longrightarrow> (\<forall>e \<in> set xs. hh_key (ht_hands fixed e) \<noteq> key)"
      "\<forall>e. res = Some e \<longrightarrow> e \<in> set xs \<and> hh_key (ht_hands fixed e) = key"
      using hash_jen.hash_find [OF ok'', of key] by blast
    then show ?thesis using ky by (cases res) (auto simp: same(1) f(1))
  qed
  have "HASH_ITER (ht_hands dst') (ht_head dst') = Some xs" using HASH_ITER_ok [OF ok''] by (simp only: f)
  moreover have "HASH_CNT dst' = of_nat (length xs)" using HASH_CNT_ok [OF ok''] by (simp only: same)
  moreover have "HASH_FSCK dst' = Some (Return ())" using HASH_FSCK_ok [OF ok''] by (simp only: same)
  ultimately show ?thesis
    using r find hash_okD(5) [OF ok''] by (intro disjI1 exI [of _ dst'] exI [of _ xs] conjI allI)
qed blast

text \<open>
  The tail is read by the next addition: it is linked behind the first selected element, and all others
  drop out of the order, which the integrity check reports.
\<close>

lemma select_then_add_cuts_order:
  assumes sel: "selected src (dst, l) (x # y # xs)" and n: "length xs + 3 < 2 ^ 32"
    and e: "e \<notin> set (x # y # xs)" "length ky < 2 ^ 32" and mem: "\<forall>req. mem req"
  shows "\<exists>s'. HASH_ADD_KEYPTR HASH_JEN mem dst ky e = Some (Return s') \<and>
    HASH_ITER (ht_hands s') (ht_head s') = Some [x, e] \<and> HASH_CNT s' = of_nat (length xs + 3)"
proof -
  have i: "ht_head dst = Some x" "chains_ok (ht_tbl dst) (ht_hands dst) (set (x # y # xs))"
      "ht_tail (ht_tbl dst) = Some x" "num_items (ht_tbl dst) = of_nat (length xs + 2)" "unat (log2_num_buckets (ht_tbl dst)) \<le> 30"
    using sel by (auto simp: selected_def)
  define hs0 where "hs0 = set_hh e (\<lambda>h. h\<lparr>hh_next_elt := None, hh_key := ky, hh_keylen := of_nat (length ky)\<rparr>) (ht_hands dst)"
  define hs1 where "hs1 = set_hh e (\<lambda>h. h\<lparr>hh_prev_elt := Some x\<rparr>) (set_hh x (\<lambda>h. h\<lparr>hh_next_elt := Some e\<rparr>) hs0)"
  define t where "t = (ht_tbl dst)\<lparr>ht_tail := Some e, num_items := num_items (ht_tbl dst) + 1\<rparr>"
  define hv where "hv = fst (HASH_JEN ky 0)"
  define hs2 where "hs2 = set_hh e (\<lambda>h. h\<lparr>hh_hashv := hv\<rparr>) hs1"
  define k where "k = unat (log2_num_buckets t)"
  have k: "k < 31" "num_buckets t = of_nat (2 ^ k)" using i(2,5) by (simp_all add: k_def t_def chains_ok_def)
  have xe: "x \<noteq> e" using e(1) by auto
  have cut: "hh_next_elt (hs2 x) = Some e" "hh_next_elt (hs2 e) = None"
    using xe by (simp_all add: hs2_def hs1_def hs0_def set_hh_def)
  have "hh_next (hs2 a) = hh_next (ht_hands dst a) \<and> hh_prev (hs2 a) = hh_prev (ht_hands dst a) \<and>
      hh_hashv (hs2 a) = hh_hashv (ht_hands dst a)" if "a \<in> set (x # y # xs)" for a
    using that e(1) by (auto simp: hs2_def hs1_def hs0_def set_hh_def)
  moreover have "buckets_ok (ht_hands dst) (buckets (ht_tbl dst)) (set (x # y # xs))" using i(2) by (simp add: chains_ok_def)
  ultimately have "buckets_ok hs2 (buckets (ht_tbl dst)) (set (x # y # xs))" by (rule_tac buckets_ok_cong)
  then have ch: "chains_ok t hs2 (set (x # y # xs))" using i(2) by (simp add: chains_ok_def t_def)
  have cnt: "num_items t = of_nat (length xs + 3)" by (simp add: t_def i(4))
  have "unat (num_items t) = length xs + 3" unfolding cnt using n by (rule unat_small)
  then have nz: "num_items t \<noteq> 0 \<or> buckets t ! unat (HASH_TO_BKT hv (num_buckets t)) = empty_bucket" by auto
  have bkt: "unat (HASH_TO_BKT hv (num_buckets t)) = elt_bkt hs2 (2 ^ k) e"
    by (simp add: elt_bkt_def k(2) hs2_def set_hh_def)
  from HASH_ADD_TO_BKT_chains [where mem = mem, OF ch k_def [symmetric] k(1) e(1) nz bkt] mem
  obtain t' hs' where r: "HASH_ADD_TO_BKT mem t hs2 (unat (HASH_TO_BKT hv (num_buckets t))) e = Some (Return (t', hs'))"
      "num_items t' = num_items t" "same_elts hs2 hs'"
    by blast
  have "hash_append mem (dst\<lparr>ht_hands := hs0\<rparr>) e = Return (dst\<lparr>ht_tbl := (ht_tbl dst)\<lparr>ht_tail := Some e\<rparr>, ht_hands := hs1\<rparr>)"
    by (simp add: hash_append_def i(1,3) hs1_def)
  then have "HASH_ADD_KEYPTR HASH_JEN mem dst ky e = Some (Return (dst\<lparr>ht_tbl := t', ht_hands := hs'\<rparr>))"
    using r(1) by (simp add: HASH_ADD_KEYPTR_def hs0_def [symmetric] hash_jen.fcn_split [of ky "num_buckets t"]
        hash_jen.fcn_split [of ky "num_buckets (ht_tbl dst)"] hv_def [symmetric] hs2_def [symmetric] t_def)
  moreover have "HASH_ITER hs' (Some x) = Some [x, e]"
    using cut r(3) by (simp add: HASH_ITER.simps same_elts_def)
  ultimately show ?thesis using r(2) cnt i(1) by (simp add: HASH_CNT_def)
qed

section \<open>The Bloom filter\<close>

text \<open>The filter of a table: its size as a power of two, and the array of its bits.\<close>

record bloom =
  bloom_nbits :: nat
  bloom_bv :: "byte list"

definition HASH_BLOOM_BITLEN :: "nat \<Rightarrow> nat" where
  "HASH_BLOOM_BITLEN nbits = 2 ^ nbits"

definition HASH_BLOOM_BYTELEN :: "nat \<Rightarrow> nat" where
  "HASH_BLOOM_BYTELEN nbits = HASH_BLOOM_BITLEN nbits div 8 + (if HASH_BLOOM_BITLEN nbits mod 8 \<noteq> 0 then 1 else 0)"

definition HASH_BLOOM_MAKE :: "bool \<Rightarrow> nat \<Rightarrow> bloom outcome" where
  "HASH_BLOOM_MAKE got nbits =
     (if got then Return \<lparr>bloom_nbits = nbits, bloom_bv = replicate (HASH_BLOOM_BYTELEN nbits) 0\<rparr> else Exit (-1))"

text \<open>A bit of the array is named by an unsigned index.\<close>

definition HASH_BLOOM_BITSET :: "byte list \<Rightarrow> 32 word \<Rightarrow> byte list" where
  "HASH_BLOOM_BITSET bv idx =
     bv[unat (idx div 8) := (bv ! unat (idx div 8)) OR push_bit (unat (idx mod 8)) 1]"

definition HASH_BLOOM_BITTEST :: "byte list \<Rightarrow> 32 word \<Rightarrow> bool" where
  "HASH_BLOOM_BITTEST bv idx \<longleftrightarrow> (bv ! unat (idx div 8)) AND push_bit (unat (idx mod 8)) 1 \<noteq> 0"

text \<open>The bit of a hash value.\<close>

definition bloom_index :: "nat \<Rightarrow> 32 word \<Rightarrow> 32 word" where
  "bloom_index nbits hashv = hashv AND ucast (push_bit nbits (1 :: 64 word) - 1)"

definition HASH_BLOOM_ADD :: "bloom \<Rightarrow> 32 word \<Rightarrow> bloom" where
  "HASH_BLOOM_ADD bl hashv = bl\<lparr>bloom_bv := HASH_BLOOM_BITSET (bloom_bv bl) (bloom_index (bloom_nbits bl) hashv)\<rparr>"

definition HASH_BLOOM_TEST :: "bloom \<Rightarrow> 32 word \<Rightarrow> bool" where
  "HASH_BLOOM_TEST bl hashv = HASH_BLOOM_BITTEST (bloom_bv bl) (bloom_index (bloom_nbits bl) hashv)"

text \<open>
  The macros of a build with the filter.  A table is made with a filter, which its deletion frees; of the
  refused requests for memory it does not matter which comes first, each ends the process alike.
\<close>

definition BLOOM_FIND ::
    "(byte list \<Rightarrow> 32 word \<Rightarrow> 32 word \<times> 32 word) \<Rightarrow> uthash \<times> bloom \<Rightarrow> byte list \<Rightarrow> eptr option option" where
  "BLOOM_FIND fcn sb ky =
     (case ht_head (fst sb) of
        None \<Rightarrow> Some None
      | Some h \<Rightarrow>
          (case fcn ky (num_buckets (ht_tbl (fst sb))) of
             (hv, bkt) \<Rightarrow>
               if HASH_BLOOM_TEST (snd sb) hv
               then HASH_FIND_IN_BKT (ht_hands (fst sb)) ky (hh_head (buckets (ht_tbl (fst sb)) ! unat bkt))
               else Some None))"

definition BLOOM_ADD_KEYPTR ::
    "(byte list \<Rightarrow> 32 word \<Rightarrow> 32 word \<times> 32 word) \<Rightarrow> (request \<Rightarrow> bool) \<Rightarrow> bool \<Rightarrow> nat \<Rightarrow> uthash \<times> bloom \<Rightarrow>
     byte list \<Rightarrow> eptr \<Rightarrow> (uthash \<times> bloom) outcome option" where
  "BLOOM_ADD_KEYPTR fcn mem got nbits sb ky e =
     (case (if ht_head (fst sb) = None then HASH_BLOOM_MAKE got nbits else Return (snd sb)) of
        Abort \<Rightarrow> Some Abort
      | Exit n \<Rightarrow> Some (Exit n)
      | Return bl \<Rightarrow>
          (case HASH_ADD_KEYPTR fcn mem (fst sb) ky e of
             None \<Rightarrow> None
           | Some Abort \<Rightarrow> Some Abort
           | Some (Exit n) \<Rightarrow> Some (Exit n)
           | Some (Return s') \<Rightarrow> Some (Return (s', HASH_BLOOM_ADD bl (hh_hashv (ht_hands s' e))))))"

definition BLOOM_DELETE :: "uthash \<times> bloom \<Rightarrow> eptr \<Rightarrow> uthash \<times> bloom" where
  "BLOOM_DELETE sb e = (HASH_DELETE (fst sb) e, snd sb)"

definition BLOOM_REPLACE ::
    "(byte list \<Rightarrow> 32 word \<Rightarrow> 32 word \<times> 32 word) \<Rightarrow> (request \<Rightarrow> bool) \<Rightarrow> bool \<Rightarrow> nat \<Rightarrow> uthash \<times> bloom \<Rightarrow>
     byte list \<Rightarrow> eptr \<Rightarrow> (eptr option \<times> uthash \<times> bloom) outcome option" where
  "BLOOM_REPLACE fcn mem got nbits sb ky e =
     (case BLOOM_FIND fcn sb ky of
        None \<Rightarrow> None
      | Some old \<Rightarrow>
          (case BLOOM_ADD_KEYPTR fcn mem got nbits (case old of None \<Rightarrow> sb | Some x \<Rightarrow> BLOOM_DELETE sb x) ky e of
             None \<Rightarrow> None
           | Some Abort \<Rightarrow> Some Abort
           | Some (Exit n) \<Rightarrow> Some (Exit n)
           | Some (Return sb') \<Rightarrow> Some (Return (old, sb'))))"

definition BLOOM_SELECT ::
    "(request \<Rightarrow> bool) \<Rightarrow> bool \<Rightarrow> nat \<Rightarrow> (eptr \<Rightarrow> bool) \<Rightarrow> uthash \<Rightarrow> uthash \<times> bloom \<Rightarrow> (uthash \<times> bloom) outcome option" where
  "BLOOM_SELECT mem got nbits cond src sb =
     (case HASH_SELECT mem cond src (fst sb) of
        None \<Rightarrow> None
      | Some Abort \<Rightarrow> Some Abort
      | Some (Exit n) \<Rightarrow> Some (Exit n)
      | Some (Return s') \<Rightarrow>
          (case (if ht_head (fst sb) = None \<and> ht_head s' \<noteq> None then HASH_BLOOM_MAKE got nbits else Return (snd sb)) of
             Abort \<Rightarrow> Some Abort
           | Exit n \<Rightarrow> Some (Exit n)
           | Return bl \<Rightarrow> Some (Return (s', bl))))"

text \<open>The array has a byte for every index, and a bit set is a bit that tests as set, and stays so.\<close>

definition bloom_ok :: "bloom \<Rightarrow> bool" where
  "bloom_ok bl \<longleftrightarrow> bloom_nbits bl < 64 \<and> length (bloom_bv bl) = HASH_BLOOM_BYTELEN (bloom_nbits bl)"

lemma bloom_index_less:
  assumes "nbits < 64"
  shows "unat (bloom_index nbits hv div 8) < HASH_BLOOM_BYTELEN nbits"
proof -
  have m: "push_bit nbits (1 :: 64 word) - 1 = mask nbits" by (simp add: mask_eq_exp_minus_1 push_bit_eq_mult)
  have "bloom_index nbits hv = take_bit nbits hv"
    unfolding bloom_index_def m by (rule bit_word_eqI) (auto simp: bit_simps)
  then have "unat (bloom_index nbits hv) = take_bit nbits (unat hv)" by (simp add: unsigned_take_bit_eq)
  also have "\<dots> < 2 ^ nbits" by simp
  finally have "unat (bloom_index nbits hv) < 2 ^ nbits" .
  moreover have "unat (bloom_index nbits hv div 8) = unat (bloom_index nbits hv) div 8" by (simp add: unat_div)
  ultimately show ?thesis
    unfolding HASH_BLOOM_BYTELEN_def HASH_BLOOM_BITLEN_def
    by (auto simp: div_less_iff_less_mult dvd_eq_mod_eq_0 [symmetric] elim!: dvdE)
qed

lemma HASH_BLOOM_BITTEST_bit: "HASH_BLOOM_BITTEST bv i = bit (bv ! unat (i div 8)) (unat (i mod 8))"
  by (simp add: HASH_BLOOM_BITTEST_def bit_iff_and_push_bit_not_eq_0)

lemma HASH_BLOOM_ADD_test:
  assumes "bloom_ok bl"
  shows "bloom_ok (HASH_BLOOM_ADD bl hv)" "HASH_BLOOM_TEST (HASH_BLOOM_ADD bl hv) hv"
    "HASH_BLOOM_TEST bl w \<Longrightarrow> HASH_BLOOM_TEST (HASH_BLOOM_ADD bl hv) w"
proof -
  define i where "i = bloom_index (bloom_nbits bl) hv"
  have i: "unat (i div 8) < length (bloom_bv bl)"
    using bloom_index_less [of "bloom_nbits bl" hv] assms by (simp add: bloom_ok_def i_def)
  have m: "unat (i mod 8) < 8" by (simp add: unat_mod)
  show "bloom_ok (HASH_BLOOM_ADD bl hv)"
    using assms by (simp add: bloom_ok_def HASH_BLOOM_ADD_def HASH_BLOOM_BITSET_def)
  show "HASH_BLOOM_TEST (HASH_BLOOM_ADD bl hv) hv"
    using i m by (simp add: HASH_BLOOM_TEST_def HASH_BLOOM_ADD_def HASH_BLOOM_BITSET_def HASH_BLOOM_BITTEST_bit i_def [symmetric]
        bit_simps)
  show "HASH_BLOOM_TEST (HASH_BLOOM_ADD bl hv) w" if "HASH_BLOOM_TEST bl w"
    using that i
    by (cases "unat (i div 8) = unat (bloom_index (bloom_nbits bl) w div 8)")
      (simp_all add: HASH_BLOOM_TEST_def HASH_BLOOM_ADD_def HASH_BLOOM_BITSET_def HASH_BLOOM_BITTEST_bit i_def [symmetric]
        bit_simps)
qed

lemma HASH_BLOOM_MAKE_ok: "nbits < 64 \<Longrightarrow> HASH_BLOOM_MAKE got nbits = Return bl \<Longrightarrow> bloom_ok bl"
  by (auto simp: HASH_BLOOM_MAKE_def bloom_ok_def split: if_splits)

lemma HASH_BLOOM_MAKE_empty:
  assumes "nbits < 64" and "HASH_BLOOM_MAKE got nbits = Return bl"
  shows "\<not> HASH_BLOOM_TEST bl hv"
proof -
  have "bl = \<lparr>bloom_nbits = nbits, bloom_bv = replicate (HASH_BLOOM_BYTELEN nbits) 0\<rparr>"
    using assms(2) by (simp add: HASH_BLOOM_MAKE_def split: if_splits)
  then show ?thesis using bloom_index_less [OF assms(1), of hv] by (simp add: HASH_BLOOM_TEST_def HASH_BLOOM_BITTEST_bit)
qed

text \<open>A table with a filter stands for a map if the table does and every key of the map has its bit set.\<close>

definition bloom_maps ::
    "(byte list \<Rightarrow> 32 word \<Rightarrow> 32 word \<times> 32 word) \<Rightarrow> nat \<Rightarrow> uthash \<times> bloom \<Rightarrow> (byte list \<rightharpoonup> eptr) \<Rightarrow> bool" where
  "bloom_maps fcn n sb m \<longleftrightarrow>
     hash_maps fcn n (fst sb) m \<and> (ht_head (fst sb) \<noteq> None \<longrightarrow> bloom_ok (snd sb)) \<and>
     (\<forall>ky e. m ky = Some e \<longrightarrow> HASH_BLOOM_TEST (snd sb) (fst (fcn ky 0)))"

lemma hash_maps_headless:
  assumes "hash_maps fcn n s m" and "ht_head s = None"
  shows "m ky = None"
proof -
  obtain es where es: "hash_ok fcn s es" "\<And>ky e. m ky = Some e \<longleftrightarrow> e \<in> set es \<and> hh_key (ht_hands s e) = ky"
    using assms(1) by (auto simp: hash_maps_def)
  have "es = []" using hash_okD(1) [OF es(1)] assms(2) by (cases es) auto
  then show ?thesis using es(2) [of ky] by (cases "m ky") auto
qed

context hash_function
begin

lemma bloom_find_maps:
  assumes "bloom_maps fcn n sb m"
  shows "BLOOM_FIND fcn sb ky = Some (m ky)"
proof (cases "ht_head (fst sb)")
  case None
  have "hash_maps fcn n (fst sb) m" using assms by (simp add: bloom_maps_def)
  from hash_maps_headless [OF this None, of ky] None show ?thesis by (simp add: BLOOM_FIND_def)
next
  case (Some h)
  have f: "HASH_FIND fcn (fst sb) ky = Some (m ky)" using assms hash_find_maps [of n "fst sb" m ky] by (simp add: bloom_maps_def)
  show ?thesis
  proof (cases "m ky")
    case None
    then show ?thesis using f Some fcn_split [of ky "num_buckets (ht_tbl (fst sb))"] by (simp add: BLOOM_FIND_def HASH_FIND_def)
  next
    case (Some e)
    then have "HASH_BLOOM_TEST (snd sb) (fst (fcn ky 0))" using assms by (simp add: bloom_maps_def)
    then show ?thesis
      using f \<open>ht_head (fst sb) = Some h\<close> fcn_split [of ky "num_buckets (ht_tbl (fst sb))"]
      by (simp add: BLOOM_FIND_def HASH_FIND_def)
  qed
qed

lemma bloom_add_maps:
  assumes mem: "alloc_ok mem" and nb: "nbits < 64" and rep: "bloom_maps fcn n sb m" and n: "n < 2 ^ 32 - 2"
    and ky: "length ky < 2 ^ 32" "m ky = None" and e: "e \<notin> ran m"
  shows "(\<exists>sb'. BLOOM_ADD_KEYPTR fcn mem got nbits sb ky e = Some (Return sb') \<and> bloom_maps fcn (Suc n) sb' (m(ky \<mapsto> e))) \<or>
    (BLOOM_ADD_KEYPTR fcn mem got nbits sb ky e = Some (Exit (-1)) \<and> (refused mem n \<or> \<not> got))"
proof (cases "ht_head (fst sb) = None \<and> \<not> got")
  case True
  then show ?thesis by (simp add: BLOOM_ADD_KEYPTR_def HASH_BLOOM_MAKE_def)
next
  case False
  then obtain bl where bl: "(if ht_head (fst sb) = None then HASH_BLOOM_MAKE got nbits else Return (snd sb)) = Return bl"
    by (cases "ht_head (fst sb)") (auto simp: HASH_BLOOM_MAKE_def)
  have ok: "bloom_ok bl"
    using bl rep HASH_BLOOM_MAKE_ok [OF nb] by (auto simp: bloom_maps_def split: if_splits)
  have old: "HASH_BLOOM_TEST bl (fst (fcn k 0))" if "m k = Some x" for k x
  proof -
    have "ht_head (fst sb) \<noteq> None" using that rep hash_maps_headless [of fcn n "fst sb" m k] by (auto simp: bloom_maps_def)
    then have "bl = snd sb" using bl by (auto split: if_splits)
    then show ?thesis using that rep by (auto simp: bloom_maps_def)
  qed
  have hm: "hash_maps fcn n (fst sb) m" using rep by (simp add: bloom_maps_def)
  from hash_add_maps [OF mem hm n ky e] consider
    (fine) s' where "HASH_ADD_KEYPTR fcn mem (fst sb) ky e = Some (Return s')" "hash_maps fcn (Suc n) s' (m(ky \<mapsto> e))"
  | (out) "HASH_ADD_KEYPTR fcn mem (fst sb) ky e = Some (Exit (-1))" "refused mem n" by blast
  then show ?thesis
  proof cases
    case fine
    obtain es where es: "hash_ok fcn s' es" "\<And>k x. (m(ky \<mapsto> e)) k = Some x \<longleftrightarrow> x \<in> set es \<and> hh_key (ht_hands s' x) = k"
      using fine(2) by (auto simp: hash_maps_def simp del: fun_upd_apply)
    then have "e \<in> set es" "hh_key (ht_hands s' e) = ky" using es(2) [of ky e] by simp_all
    then have hv: "hh_hashv (ht_hands s' e) = fst (fcn ky 0)" using hash_okD(3) [OF es(1)] by (auto simp: keys_ok_def)
    define bl' where "bl' = HASH_BLOOM_ADD bl (fst (fcn ky 0))"
    have "BLOOM_ADD_KEYPTR fcn mem got nbits sb ky e = Some (Return (s', bl'))"
      unfolding BLOOM_ADD_KEYPTR_def bl by (simp add: fine(1) hv bl'_def)
    moreover have "bloom_maps fcn (Suc n) (s', bl') (m(ky \<mapsto> e))"
      using fine(2) HASH_BLOOM_ADD_test [OF ok] old by (auto simp: bloom_maps_def bl'_def)
    ultimately show ?thesis by blast
  next
    case out
    then show ?thesis unfolding BLOOM_ADD_KEYPTR_def bl by simp
  qed
qed

lemma bloom_delete_maps:
  assumes rep: "bloom_maps fcn n sb m" and e: "m ky = Some e"
  shows "bloom_maps fcn n (BLOOM_DELETE sb e) (m(ky := None))"
proof -
  have hm: "hash_maps fcn n (fst sb) m" using rep by (simp add: bloom_maps_def)
  have "ht_head (fst sb) \<noteq> None" using hash_maps_headless [OF hm, of ky] e by auto
  then show ?thesis
    using rep hash_delete_maps [OF hm e] by (auto simp: bloom_maps_def BLOOM_DELETE_def)
qed

end

text \<open>So the filter changes no answer: with it, the table is a map as well.\<close>

sublocale hash_function \<subseteq> bloom: key_map
  "\<lambda>n sb m. alloc_ok mem \<and> nbits < 64 \<and> bloom_maps fcn n sb m" "BLOOM_FIND fcn" "BLOOM_ADD_KEYPTR fcn mem got nbits"
  "BLOOM_REPLACE fcn mem got nbits" BLOOM_DELETE "2 ^ 32 - 2" "\<lambda>n. refused mem n \<or> \<not> got"
  for mem got nbits
  using bloom_find_maps bloom_add_maps bloom_delete_maps refused_mono
  by unfold_locales (auto simp: BLOOM_REPLACE_def)

lemma bloom_table_is_map:
  assumes "alloc_ok mem" and "nbits < 64" and "ht_head s = None" and "length ops \<le> 2 ^ 32 - 2" and "ops_valid ops Map.empty"
  shows "(\<exists>sb' n. op_run (BLOOM_FIND HASH_JEN) (BLOOM_REPLACE HASH_JEN mem got nbits) BLOOM_DELETE ops (s, bl) =
      Some (Return (fst (map_run ops Map.empty), sb')) \<and> bloom_maps HASH_JEN n sb' (snd (map_run ops Map.empty))) \<or>
   (op_run (BLOOM_FIND HASH_JEN) (BLOOM_REPLACE HASH_JEN mem got nbits) BLOOM_DELETE ops (s, bl) = Some (Exit (-1)) \<and>
    (refused mem (length ops) \<or> \<not> got))"
proof -
  have "alloc_ok mem \<and> nbits < 64 \<and> bloom_maps HASH_JEN 0 (s, bl) Map.empty"
    using assms(1-3) by (simp add: bloom_maps_def hash_maps_empty)
  from hash_jen.bloom.run_rep [OF this _ assms(5)] assms(4) show ?thesis by auto
qed

text \<open>
  A selection makes the filter of the new table and never sets a bit in it, so no lookup in that table finds
  any element.
\<close>

lemma bloom_select_finds_nothing:
  assumes sel: "BLOOM_SELECT mem got nbits cond src (dst, bl) = Some (Return sb')" and new: "ht_head dst = None"
    and nb: "nbits < 64"
  shows "BLOOM_FIND fcn sb' ky = Some None"
proof (cases "ht_head (fst sb')")
  case None
  then show ?thesis by (simp add: BLOOM_FIND_def)
next
  case (Some h)
  then have "HASH_BLOOM_MAKE got nbits = Return (snd sb')"
    using sel new by (auto simp: BLOOM_SELECT_def split: option.splits outcome.splits if_splits)
  with nb have "\<not> HASH_BLOOM_TEST (snd sb') hv" for hv by (rule HASH_BLOOM_MAKE_empty)
  then show ?thesis using Some by (simp add: BLOOM_FIND_def split: prod.splits)
qed

end
