(* ===== verification/Ut_List.thy ===== *)
theory Ut_List
  imports Ut_Sort
begin

text \<open>
  The list macros of src/src/common/ut/utlist.h: prepending, appending, concatenating, deleting,
  replacing, inserting before an element, counting and searching, for singly linked, doubly linked and
  circular lists of elements that carry their own links.  A macro is a function from the links and the
  head to the new links and head, or \<open>None\<close> where the code would dereference null or fail an assertion.
  The locale \<open>linked_list\<close> is the contract the three kinds share.
\<close>

section \<open>Links\<close>

definition set_lnext :: "'e \<Rightarrow> 'e option \<Rightarrow> 'e links \<Rightarrow> 'e links" where
  "set_lnext x v m = m\<lparr>lnext := (lnext m)(x := v)\<rparr>"

definition set_lprev :: "'e \<Rightarrow> 'e option \<Rightarrow> 'e links \<Rightarrow> 'e links" where
  "set_lprev x v m = m\<lparr>lprev := (lprev m)(x := v)\<rparr>"

lemma set_links_simps [link_simps]:
  "lnext (set_lnext x v m) = (lnext m)(x := v)" "lprev (set_lnext x v m) = lprev m"
  "lnext (set_lprev x v m) = lnext m" "lprev (set_lprev x v m) = (lprev m)(x := v)"
  by (simp_all add: set_lnext_def set_lprev_def)

section \<open>Singly linked lists\<close>

definition LL_PREPEND :: "'e links \<Rightarrow> 'e option \<Rightarrow> 'e \<Rightarrow> ('e links \<times> 'e option) option" where
  "LL_PREPEND m head add = Some (set_lnext add head m, Some add)"

text \<open>The loops that look for the last element, and for the one before \<open>del\<close>.\<close>

partial_function (option) ll_last :: "'e links \<Rightarrow> 'e \<Rightarrow> 'e option" where
  "ll_last m tmp = (case lnext m tmp of None \<Rightarrow> Some tmp | Some y \<Rightarrow> ll_last m y)"

partial_function (option) ll_before :: "'e links \<Rightarrow> 'e \<Rightarrow> 'e \<Rightarrow> 'e option" where
  "ll_before m tmp del =
     (case lnext m tmp of
        None \<Rightarrow> Some tmp
      | Some y \<Rightarrow> if y = del then Some tmp else ll_before m y del)"

definition LL_CONCAT :: "'e links \<Rightarrow> 'e option \<Rightarrow> 'e option \<Rightarrow> ('e links \<times> 'e option) option" where
  "LL_CONCAT m head1 head2 =
     (case head1 of
        None \<Rightarrow> Some (m, head2)
      | Some h \<Rightarrow> map_option (\<lambda>t. (set_lnext t head2 m, head1)) (ll_last m h))"

definition LL_APPEND :: "'e links \<Rightarrow> 'e option \<Rightarrow> 'e \<Rightarrow> ('e links \<times> 'e option) option" where
  "LL_APPEND m head add =
     (let m1 = set_lnext add None m
      in case head of
           None \<Rightarrow> Some (m1, Some add)
         | Some h \<Rightarrow> map_option (\<lambda>t. (set_lnext t (Some add) m1, head)) (ll_last m1 h))"

definition LL_DELETE :: "'e links \<Rightarrow> 'e option \<Rightarrow> 'e \<Rightarrow> ('e links \<times> 'e option) option" where
  "LL_DELETE m head del =
     (if head = Some del then Some (m, lnext m del)
      else
        (case head of
           None \<Rightarrow> None
         | Some h \<Rightarrow>
             map_option
               (\<lambda>t. (if lnext m t \<noteq> None then set_lnext t (lnext m del) m else m, head))
               (ll_before m h del)))"

text \<open>
  The replacements for compilers without \<^verbatim>\<open>decltype\<close>: the new element's \<^verbatim>\<open>next\<close> serves as the loop variable,
  or the head itself does and is put back at the end.
\<close>

partial_function (option) vs_walk :: "'e links \<Rightarrow> 'e \<Rightarrow> 'e links option" where
  "vs_walk m add =
     (case lnext m add of
        None \<Rightarrow> None
      | Some t \<Rightarrow> (case lnext m t of None \<Rightarrow> Some m | Some u \<Rightarrow> vs_walk (set_lnext add (Some u) m) add))"

definition LL_APPEND_VS2008 :: "'e links \<Rightarrow> 'e option \<Rightarrow> 'e \<Rightarrow> ('e links \<times> 'e option) option" where
  "LL_APPEND_VS2008 m head add =
     (case head of
        None \<Rightarrow> Some (set_lnext add None m, Some add)
      | Some h \<Rightarrow>
          Option.bind (vs_walk (set_lnext add head m) add) (\<lambda>m1.
            case lnext m1 add of
              None \<Rightarrow> None
            | Some t \<Rightarrow> Some (set_lnext add None (set_lnext t (Some add) m1), head)))"

partial_function (option) vs_before :: "'e links \<Rightarrow> 'e \<Rightarrow> 'e \<Rightarrow> 'e option" where
  "vs_before m head del =
     (if lnext m head \<noteq> None \<and> lnext m head \<noteq> Some del then vs_before m (the (lnext m head)) del else Some head)"

definition LL_DELETE_VS2008 :: "'e links \<Rightarrow> 'e option \<Rightarrow> 'e \<Rightarrow> ('e links \<times> 'e option) option" where
  "LL_DELETE_VS2008 m head del =
     (if head = Some del then Some (m, lnext m del)
      else
        (case head of
           None \<Rightarrow> None
         | Some h \<Rightarrow>
             map_option (\<lambda>h1. (if lnext m h1 \<noteq> None then set_lnext h1 (lnext m del) m else m, head)) (vs_before m h del)))"

definition LL_REPLACE_ELEM :: "'e links \<Rightarrow> 'e option \<Rightarrow> 'e \<Rightarrow> 'e \<Rightarrow> ('e links \<times> 'e option) option" where
  "LL_REPLACE_ELEM m head el add =
     (let m1 = set_lnext add (lnext m el) m
      in if head = Some el then Some (m1, Some add)
         else
           (case head of
              None \<Rightarrow> None
            | Some h \<Rightarrow>
                map_option
                  (\<lambda>t. (if lnext m1 t \<noteq> None then set_lnext t (Some add) m1 else m1, head))
                  (ll_before m1 h el)))"

definition LL_PREPEND_ELEM :: "'e links \<Rightarrow> 'e option \<Rightarrow> 'e \<Rightarrow> 'e \<Rightarrow> ('e links \<times> 'e option) option" where
  "LL_PREPEND_ELEM m head el add =
     (let m1 = set_lnext add (Some el) m
      in if head = Some el then Some (m1, Some add)
         else
           (case head of
              None \<Rightarrow> None
            | Some h \<Rightarrow>
                map_option
                  (\<lambda>t. (if lnext m1 t \<noteq> None then set_lnext t (Some add) m1 else m1, head))
                  (ll_before m1 h el)))"

text \<open>\<^verbatim>\<open>LL_FOREACH\<close> collects what it visits, \<^verbatim>\<open>LL_COUNT\<close> counts it, \<^verbatim>\<open>LL_SEARCH\<close> stops at the first match.\<close>

partial_function (option) LL_FOREACH :: "'e links \<Rightarrow> 'e option \<Rightarrow> 'e list option" where
  "LL_FOREACH m el =
     (case el of
        None \<Rightarrow> Some []
      | Some x \<Rightarrow> Option.bind (LL_FOREACH m (lnext m x)) (\<lambda>xs. Some (x # xs)))"

definition LL_COUNT :: "'e links \<Rightarrow> 'e option \<Rightarrow> nat option" where
  "LL_COUNT m head = map_option length (LL_FOREACH m head)"

partial_function (option) LL_SEARCH :: "'e links \<Rightarrow> 'e option \<Rightarrow> ('e \<Rightarrow> bool) \<Rightarrow> 'e option option" where
  "LL_SEARCH m out hit =
     (case out of
        None \<Rightarrow> Some None
      | Some x \<Rightarrow> if hit x then Some (Some x) else LL_SEARCH m (lnext m x) hit)"

section \<open>Doubly linked lists\<close>

definition DL_PREPEND :: "'e links \<Rightarrow> 'e option \<Rightarrow> 'e \<Rightarrow> ('e links \<times> 'e option) option" where
  "DL_PREPEND m head add =
     (let m1 = set_lnext add head m
      in case head of
           None \<Rightarrow> Some (set_lprev add (Some add) m1, Some add)
         | Some h \<Rightarrow> Some (set_lprev h (Some add) (set_lprev add (lprev m1 h) m1), Some add))"

definition DL_APPEND :: "'e links \<Rightarrow> 'e option \<Rightarrow> 'e \<Rightarrow> ('e links \<times> 'e option) option" where
  "DL_APPEND m head add =
     (case head of
        None \<Rightarrow> Some (set_lnext add None (set_lprev add (Some add) m), Some add)
      | Some h \<Rightarrow>
          (let m1 = set_lprev add (lprev m h) m
           in case lprev m1 h of
                None \<Rightarrow> None
              | Some t \<Rightarrow>
                  Some (set_lnext add None (set_lprev h (Some add) (set_lnext t (Some add) m1)), head)))"

definition DL_CONCAT :: "'e links \<Rightarrow> 'e option \<Rightarrow> 'e option \<Rightarrow> ('e links \<times> 'e option) option" where
  "DL_CONCAT m head1 head2 =
     (case head2 of
        None \<Rightarrow> Some (m, head1)
      | Some h2 \<Rightarrow>
          (case head1 of
             None \<Rightarrow> Some (m, head2)
           | Some h1 \<Rightarrow>
               (let tmp = lprev m h2; m1 = set_lprev h2 (lprev m h1) m
                in case lprev m1 h1 of
                     None \<Rightarrow> None
                   | Some t \<Rightarrow> Some (set_lprev h1 tmp (set_lnext t head2 m1), head1))))"

definition DL_DELETE :: "'e links \<Rightarrow> 'e option \<Rightarrow> 'e \<Rightarrow> ('e links \<times> 'e option) option" where
  "DL_DELETE m head del =
     (if lprev m del = None then None
      else if lprev m del = Some del then Some (m, None)
      else if head = Some del then
        (case lnext m del of
           None \<Rightarrow> None
         | Some n \<Rightarrow> (let m1 = set_lprev n (lprev m del) m in Some (m1, lnext m1 del)))
      else
        (case lprev m del of
           None \<Rightarrow> None
         | Some p \<Rightarrow>
             (let m1 = set_lnext p (lnext m del) m
              in case lnext m1 del of
                   Some n \<Rightarrow> Some (set_lprev n (lprev m1 del) m1, head)
                 | None \<Rightarrow>
                     (case head of None \<Rightarrow> None | Some h \<Rightarrow> Some (set_lprev h (lprev m1 del) m1, head)))))"

definition DL_REPLACE_ELEM :: "'e links \<Rightarrow> 'e option \<Rightarrow> 'e \<Rightarrow> 'e \<Rightarrow> ('e links \<times> 'e option) option" where
  "DL_REPLACE_ELEM m head el add =
     (case head of
        None \<Rightarrow> None
      | Some h \<Rightarrow>
          (let m1 = set_lnext add (lnext m el) m
           in if h = el then
                (case lnext m1 el of
                   None \<Rightarrow> Some (set_lprev add (Some add) m1, Some add)
                 | Some n \<Rightarrow> Some (set_lprev n (Some add) (set_lprev add (lprev m1 el) m1), Some add))
              else
                (let m2 = set_lprev add (lprev m1 el) m1
                 in case lprev m2 add of
                      None \<Rightarrow> None
                    | Some p \<Rightarrow>
                        (let m3 = set_lnext p (Some add) m2
                         in case lnext m3 el of
                              None \<Rightarrow> Some (set_lprev h (Some add) m3, head)
                            | Some n \<Rightarrow> Some (set_lprev n (Some add) m3, head)))))"

definition DL_PREPEND_ELEM :: "'e links \<Rightarrow> 'e option \<Rightarrow> 'e \<Rightarrow> 'e \<Rightarrow> ('e links \<times> 'e option) option" where
  "DL_PREPEND_ELEM m head el add =
     (case head of
        None \<Rightarrow> None
      | Some h \<Rightarrow>
          (let m1 = set_lprev add (lprev m el) (set_lnext add (Some el) m);
               m2 = set_lprev el (Some add) m1
           in if h = el then Some (m2, Some add)
              else (case lprev m2 add of None \<Rightarrow> None | Some p \<Rightarrow> Some (set_lnext p (Some add) m2, head))))"

section \<open>Circular lists\<close>

definition CDL_PREPEND :: "'e links \<Rightarrow> 'e option \<Rightarrow> 'e \<Rightarrow> ('e links \<times> 'e option) option" where
  "CDL_PREPEND m head add =
     (case head of
        None \<Rightarrow> Some (set_lnext add (Some add) (set_lprev add (Some add) m), Some add)
      | Some h \<Rightarrow>
          (let m1 = set_lprev h (Some add) (set_lnext add (Some h) (set_lprev add (lprev m h) m))
           in case lprev m1 add of None \<Rightarrow> None | Some p \<Rightarrow> Some (set_lnext p (Some add) m1, Some add)))"

definition CDL_DELETE :: "'e links \<Rightarrow> 'e option \<Rightarrow> 'e \<Rightarrow> ('e links \<times> 'e option) option" where
  "CDL_DELETE m head del =
     (if head = Some del \<and> lnext m del = head then Some (m, None)
      else
        (case lnext m del of
           None \<Rightarrow> None
         | Some n \<Rightarrow>
             (let m1 = set_lprev n (lprev m del) m
              in case lprev m1 del of
                   None \<Rightarrow> None
                 | Some p \<Rightarrow>
                     (let m2 = set_lnext p (lnext m1 del) m1
                      in Some (m2, if Some del = head then lnext m2 del else head)))))"

definition CDL_REPLACE_ELEM :: "'e links \<Rightarrow> 'e option \<Rightarrow> 'e \<Rightarrow> 'e \<Rightarrow> ('e links \<times> 'e option) option" where
  "CDL_REPLACE_ELEM m head el add =
     (if head = None then None
      else if lnext m el = Some el then
        Some (set_lprev add (Some add) (set_lnext add (Some add) m), Some add)
      else
        (let m1 = set_lprev add (lprev m el) (set_lnext add (lnext m el) m)
         in case lnext m1 add of
              None \<Rightarrow> None
            | Some n \<Rightarrow>
                (let m2 = set_lprev n (Some add) m1
                 in case lprev m2 add of
                      None \<Rightarrow> None
                    | Some p \<Rightarrow> Some (set_lnext p (Some add) m2, if head = Some el then Some add else head))))"

definition CDL_PREPEND_ELEM :: "'e links \<Rightarrow> 'e option \<Rightarrow> 'e \<Rightarrow> 'e \<Rightarrow> ('e links \<times> 'e option) option" where
  "CDL_PREPEND_ELEM m head el add =
     (if head = None then None
      else
        (let m1 = set_lprev el (Some add) (set_lprev add (lprev m el) (set_lnext add (Some el) m))
         in case lprev m1 add of
              None \<Rightarrow> None
            | Some p \<Rightarrow> Some (set_lnext p (Some add) m1, if head = Some el then Some add else head)))"

text \<open>\<^verbatim>\<open>CDL_FOREACH\<close> stops where the next element is the head.\<close>

partial_function (option) CDL_FOREACH :: "'e links \<Rightarrow> 'e option \<Rightarrow> 'e option \<Rightarrow> 'e list option" where
  "CDL_FOREACH m head el =
     (case el of
        None \<Rightarrow> Some []
      | Some x \<Rightarrow>
          Option.bind (CDL_FOREACH m head (if lnext m x = head then None else lnext m x)) (\<lambda>xs. Some (x # xs)))"

definition CDL_COUNT :: "'e links \<Rightarrow> 'e option \<Rightarrow> nat option" where
  "CDL_COUNT m head = map_option length (CDL_FOREACH m head head)"

partial_function (option) CDL_SEARCH :: "'e links \<Rightarrow> 'e option \<Rightarrow> 'e option \<Rightarrow> ('e \<Rightarrow> bool) \<Rightarrow> 'e option option" where
  "CDL_SEARCH m head out hit =
     (case out of
        None \<Rightarrow> Some None
      | Some x \<Rightarrow>
          if hit x then Some (Some x)
          else CDL_SEARCH m head (if lnext m x = head then None else lnext m x) hit)"

section \<open>Singly linked lists represent lists\<close>

lemma ll_last_ok: "nseg (lnext m) (xs @ [t]) None \<Longrightarrow> first_or (xs @ [t]) None = Some x \<Longrightarrow> ll_last m x = Some t"
proof (induction xs arbitrary: x)
  case Nil
  then show ?case by (subst ll_last.simps) simp
next
  case (Cons y ys)
  then obtain z where z: "first_or (ys @ [t]) None = Some z" by (cases ys) auto
  with Cons show ?case by (subst ll_last.simps) (auto simp: first_or_append split: option.splits)
qed

lemma ll_before_ok:
  "nseg (lnext m) (xs @ [t]) (Some del) \<Longrightarrow> del \<notin> set xs \<Longrightarrow> del \<noteq> t \<Longrightarrow>
   first_or (xs @ [t]) None = Some x \<Longrightarrow> ll_before m x del = Some t"
proof (induction xs arbitrary: x)
  case Nil
  then show ?case by (subst ll_before.simps) simp
next
  case (Cons y ys)
  then obtain z where z: "first_or (ys @ [t]) None = Some z" by (cases ys) auto
  with Cons.prems have "lnext m y = Some z" "z \<noteq> del" "x = y" by (cases ys; auto)+
  moreover have "ll_before m z del = Some t" using Cons z by auto
  ultimately show ?case by (subst ll_before.simps) simp
qed

lemma LL_PREPEND_ok:
  "is_list Singly m h xs \<Longrightarrow> a \<notin> set xs \<Longrightarrow>
   \<exists>m' h'. LL_PREPEND m h a = Some (m', h') \<and> is_list Singly m' h' (a # xs)"
  by (auto simp: LL_PREPEND_def is_list_def link_simps)

lemma LL_APPEND_ok:
  assumes "is_list Singly m h xs" and "a \<notin> set xs"
  shows "\<exists>m' h'. LL_APPEND m h a = Some (m', h') \<and> is_list Singly m' h' (xs @ [a])"
proof (cases xs rule: rev_cases)
  case Nil
  with assms show ?thesis by (auto simp: LL_APPEND_def is_list_def link_simps Let_def)
next
  case (snoc us t)
  then obtain x where x: "first_or xs None = Some x" by (cases us) auto
  have "nseg (lnext (set_lnext a None m)) (us @ [t]) None"
    using assms snoc by (simp add: is_list_def link_simps)
  then have "ll_last (set_lnext a None m) x = Some t" using x snoc by (intro ll_last_ok [of m' us for m']) simp_all
  then show ?thesis using assms x
    by (cases us) (auto simp: snoc LL_APPEND_def is_list_def link_simps Let_def)
qed

text \<open>The element before the one given is found, unless that one is the head.\<close>

lemma ll_before_split:
  assumes "is_list Singly m h (xs @ x # ys)" and "xs = us @ [t]" and "h = Some y"
  shows "ll_before m y x = Some t"
  using assms by (intro ll_before_ok [of m us]) (auto simp: is_list_def link_simps)

lemma LL_DELETE_ok:
  assumes "is_list Singly m h (xs @ x # ys)"
  shows "\<exists>m' h'. LL_DELETE m h x = Some (m', h') \<and> is_list Singly m' h' (xs @ ys)"
proof (cases xs rule: rev_cases)
  case Nil
  with assms show ?thesis by (auto simp: LL_DELETE_def is_list_def link_simps Let_def)
next
  case (snoc us t)
  with assms obtain y where y: "h = Some y" "y \<noteq> x" by (cases us) (auto simp: is_list_def)
  with ll_before_split [OF assms snoc y(1)] assms show ?thesis
    by (cases us) (auto simp: snoc LL_DELETE_def is_list_def link_simps Let_def)
qed

lemma ll_before_upd:
  assumes "is_list Singly m h (xs @ x # ys)" and "xs = us @ [t]" and "h = Some y" and "a \<notin> set (xs @ x # ys)"
  shows "ll_before (set_lnext a v m) y x = Some t"
  using assms by (intro ll_before_ok [of _ us]) (auto simp: is_list_def link_simps)

lemma LL_REPLACE_ELEM_ok:
  assumes "is_list Singly m h (xs @ x # ys)" and "a \<notin> set (xs @ x # ys)"
  shows "\<exists>m' h'. LL_REPLACE_ELEM m h x a = Some (m', h') \<and> is_list Singly m' h' (xs @ a # ys)"
proof (cases xs rule: rev_cases)
  case Nil
  with assms show ?thesis by (auto simp: LL_REPLACE_ELEM_def is_list_def link_simps Let_def)
next
  case (snoc us t)
  with assms obtain y where y: "h = Some y" "y \<noteq> x" by (cases us) (auto simp: is_list_def)
  with ll_before_upd [OF assms(1) snoc y(1) assms(2)] assms show ?thesis
    by (cases us) (auto simp: snoc LL_REPLACE_ELEM_def is_list_def link_simps Let_def)
qed

lemma LL_PREPEND_ELEM_ok:
  assumes "is_list Singly m h (xs @ x # ys)" and "a \<notin> set (xs @ x # ys)"
  shows "\<exists>m' h'. LL_PREPEND_ELEM m h x a = Some (m', h') \<and> is_list Singly m' h' (xs @ a # x # ys)"
proof (cases xs rule: rev_cases)
  case Nil
  with assms show ?thesis by (auto simp: LL_PREPEND_ELEM_def is_list_def link_simps Let_def)
next
  case (snoc us t)
  with assms obtain y where y: "h = Some y" "y \<noteq> x" by (cases us) (auto simp: is_list_def)
  with ll_before_upd [OF assms(1) snoc y(1) assms(2)] assms show ?thesis
    by (cases us) (auto simp: snoc LL_PREPEND_ELEM_def is_list_def link_simps Let_def)
qed

text \<open>The replacements do exactly what the macros they replace do.\<close>

lemma vs_walk_ok:
  "nseg (lnext m) (xs @ [t]) None \<Longrightarrow> add \<notin> set (xs @ [t]) \<Longrightarrow> lnext m add = first_or (xs @ [t]) None \<Longrightarrow>
   vs_walk m add = Some (set_lnext add (Some t) m)"
proof (induction xs arbitrary: m)
  case Nil
  then show ?case by (subst vs_walk.simps) (simp add: set_lnext_def fun_upd_idem)
next
  case (Cons x xs)
  then obtain y where y: "first_or (xs @ [t]) None = Some y" by (cases xs) auto
  have "vs_walk (set_lnext add (Some y) m) add = Some (set_lnext add (Some t) (set_lnext add (Some y) m))"
  proof (rule Cons.IH)
    show "nseg (lnext (set_lnext add (Some y) m)) (xs @ [t]) None"
      using Cons.prems nseg_upd [of add "xs @ [t]" "lnext m" "Some y" None] by (simp add: set_lnext_def)
  qed (use Cons.prems y in \<open>auto simp: set_lnext_def\<close>)
  then show ?case using Cons.prems y by (subst vs_walk.simps) (simp add: set_lnext_def)
qed

lemma LL_APPEND_VS2008_same:
  assumes "is_list Singly m h xs" and "a \<notin> set xs"
  shows "LL_APPEND_VS2008 m h a = LL_APPEND m h a"
proof (cases xs rule: rev_cases)
  case Nil
  with assms show ?thesis by (simp add: LL_APPEND_VS2008_def LL_APPEND_def is_list_def)
next
  case (snoc us t)
  then obtain x where x: "first_or xs None = Some x" by (cases us) auto
  have seg: "nseg (lnext (set_lnext a v m)) (us @ [t]) None" for v
    using assms snoc nseg_upd [of a xs "lnext m" v None] by (simp add: is_list_def set_lnext_def)
  have "ll_last (set_lnext a None m) x = Some t" using x snoc seg by (intro ll_last_ok [of m' us for m']) simp_all
  moreover have "vs_walk (set_lnext a (Some x) m) a = Some (set_lnext a (Some t) (set_lnext a (Some x) m))"
    using x snoc seg assms(2) by (intro vs_walk_ok [of _ us]) (simp_all add: link_simps)
  ultimately show ?thesis using assms x snoc
    by (auto simp: LL_APPEND_VS2008_def LL_APPEND_def is_list_def set_lnext_def Let_def fun_upd_twist)
qed

lemma vs_before_ok:
  "nseg (lnext m) (xs @ [t]) (Some del) \<Longrightarrow> del \<notin> set xs \<Longrightarrow> del \<noteq> t \<Longrightarrow>
   first_or (xs @ [t]) None = Some x \<Longrightarrow> vs_before m x del = Some t"
proof (induction xs arbitrary: x)
  case Nil
  then show ?case by (subst vs_before.simps) simp
next
  case (Cons y ys)
  then obtain z where z: "first_or (ys @ [t]) None = Some z" by (cases ys) auto
  with Cons.prems have "lnext m y = Some z" "z \<noteq> del" "x = y" by (cases ys; auto)+
  moreover have "vs_before m z del = Some t" using Cons z by auto
  ultimately show ?case by (subst vs_before.simps) simp
qed

lemma LL_DELETE_VS2008_same:
  assumes l: "is_list Singly m h (xs @ x # ys)"
  shows "LL_DELETE_VS2008 m h x = LL_DELETE m h x"
proof (cases xs rule: rev_cases)
  case Nil
  with l show ?thesis by (simp add: LL_DELETE_VS2008_def LL_DELETE_def is_list_def)
next
  case (snoc us t)
  with l obtain y where y: "h = Some y" by (cases us) (auto simp: is_list_def)
  have "vs_before m y x = Some t"
    using l snoc y by (intro vs_before_ok [of m us]) (auto simp: is_list_def link_simps)
  then show ?thesis
    using ll_before_split [OF l snoc y] y by (simp add: LL_DELETE_VS2008_def LL_DELETE_def)
qed

section \<open>Doubly linked lists represent lists\<close>

lemma DL_PREPEND_ok:
  "is_list Doubly m h xs \<Longrightarrow> a \<notin> set xs \<Longrightarrow>
   \<exists>m' h'. DL_PREPEND m h a = Some (m', h') \<and> is_list Doubly m' h' (a # xs)"
  by (cases xs) (auto simp: DL_PREPEND_def is_list_def link_simps)

lemma DL_APPEND_ok:
  assumes "is_list Doubly m h xs" and "a \<notin> set xs"
  shows "\<exists>m' h'. DL_APPEND m h a = Some (m', h') \<and> is_list Doubly m' h' (xs @ [a])"
proof (cases xs rule: rev_cases)
  case Nil
  with assms show ?thesis by (auto simp: DL_APPEND_def is_list_def link_simps Let_def)
next
  case (snoc us t)
  with assms show ?thesis
    by (cases us) (auto simp: DL_APPEND_def is_list_def link_simps Let_def)
qed

lemma DL_DELETE_ok:
  assumes "is_list Doubly m h (xs @ x # ys)"
  shows "\<exists>m' h'. DL_DELETE m h x = Some (m', h') \<and> is_list Doubly m' h' (xs @ ys)"
proof (cases xs rule: rev_cases)
  case Nil
  with assms show ?thesis
    by (cases ys rule: rev_cases; cases "butlast ys") (auto simp: DL_DELETE_def is_list_def link_simps Let_def)
next
  case (snoc us t)
  with assms show ?thesis
    by (cases us; cases ys) (auto simp: DL_DELETE_def is_list_def link_simps Let_def)
qed

lemma DL_REPLACE_ELEM_ok:
  assumes "is_list Doubly m h (xs @ x # ys)" and "a \<notin> set (xs @ x # ys)"
  shows "\<exists>m' h'. DL_REPLACE_ELEM m h x a = Some (m', h') \<and> is_list Doubly m' h' (xs @ a # ys)"
proof (cases xs rule: rev_cases)
  case Nil
  with assms show ?thesis
    by (cases ys) (auto simp: DL_REPLACE_ELEM_def is_list_def link_simps Let_def)
next
  case (snoc us t)
  with assms show ?thesis
    by (cases us; cases ys) (auto simp: DL_REPLACE_ELEM_def is_list_def link_simps Let_def)
qed

lemma DL_PREPEND_ELEM_ok:
  assumes "is_list Doubly m h (xs @ x # ys)" and "a \<notin> set (xs @ x # ys)"
  shows "\<exists>m' h'. DL_PREPEND_ELEM m h x a = Some (m', h') \<and> is_list Doubly m' h' (xs @ a # x # ys)"
proof (cases xs rule: rev_cases)
  case Nil
  with assms show ?thesis
    by (cases ys) (auto simp: DL_PREPEND_ELEM_def is_list_def link_simps Let_def)
next
  case (snoc us t)
  with assms show ?thesis
    by (cases us; cases ys) (auto simp: DL_PREPEND_ELEM_def is_list_def link_simps Let_def)
qed

section \<open>Circular lists represent lists\<close>

lemma CDL_PREPEND_ok:
  assumes "is_list Circular m h xs" and "a \<notin> set xs"
  shows "\<exists>m' h'. CDL_PREPEND m h a = Some (m', h') \<and> is_list Circular m' h' (a # xs)"
proof (cases xs rule: rev_cases)
  case Nil
  with assms show ?thesis by (auto simp: CDL_PREPEND_def is_list_def link_simps Let_def)
next
  case (snoc us t)
  with assms show ?thesis
    by (cases us) (auto simp: CDL_PREPEND_def is_list_def link_simps Let_def)
qed

lemma CDL_DELETE_ok:
  assumes "is_list Circular m h (xs @ x # ys)"
  shows "\<exists>m' h'. CDL_DELETE m h x = Some (m', h') \<and> is_list Circular m' h' (xs @ ys)"
proof (cases xs rule: rev_cases)
  case Nil
  with assms show ?thesis
    by (cases ys rule: rev_cases; cases "butlast ys") (auto simp: CDL_DELETE_def is_list_def link_simps Let_def)
next
  case (snoc us t)
  with assms show ?thesis
    by (cases us; cases ys) (auto simp: CDL_DELETE_def is_list_def link_simps Let_def)
qed

lemma CDL_REPLACE_ELEM_ok:
  assumes "is_list Circular m h (xs @ x # ys)" and "a \<notin> set (xs @ x # ys)"
  shows "\<exists>m' h'. CDL_REPLACE_ELEM m h x a = Some (m', h') \<and> is_list Circular m' h' (xs @ a # ys)"
proof (cases xs rule: rev_cases)
  case Nil
  with assms show ?thesis
    by (cases ys rule: rev_cases; cases "butlast ys") (auto simp: CDL_REPLACE_ELEM_def is_list_def link_simps Let_def)
next
  case (snoc us t)
  with assms show ?thesis
    by (cases us; cases ys) (auto simp: CDL_REPLACE_ELEM_def is_list_def link_simps Let_def)
qed

lemma CDL_PREPEND_ELEM_ok:
  assumes "is_list Circular m h (xs @ x # ys)" and "a \<notin> set (xs @ x # ys)"
  shows "\<exists>m' h'. CDL_PREPEND_ELEM m h x a = Some (m', h') \<and> is_list Circular m' h' (xs @ a # x # ys)"
proof (cases xs rule: rev_cases)
  case Nil
  with assms show ?thesis
    by (cases ys rule: rev_cases; cases "butlast ys") (auto simp: CDL_PREPEND_ELEM_def is_list_def link_simps Let_def)
next
  case (snoc us t)
  with assms show ?thesis
    by (cases us; cases ys) (auto simp: CDL_PREPEND_ELEM_def is_list_def link_simps Let_def)
qed

section \<open>The contract of the list macros\<close>

datatype 'e list_op =
  Prepend 'e | Append 'e | Delete 'e
| Replace 'e 'e
| Insert_before 'e 'e

text \<open>The macros of one kind of list; circular lists have no append.\<close>

record 'e list_macros =
  m_prepend :: "'e links \<Rightarrow> 'e option \<Rightarrow> 'e \<Rightarrow> ('e links \<times> 'e option) option"
  m_append :: "('e links \<Rightarrow> 'e option \<Rightarrow> 'e \<Rightarrow> ('e links \<times> 'e option) option) option"
  m_delete :: "'e links \<Rightarrow> 'e option \<Rightarrow> 'e \<Rightarrow> ('e links \<times> 'e option) option"
  m_replace :: "'e links \<Rightarrow> 'e option \<Rightarrow> 'e \<Rightarrow> 'e \<Rightarrow> ('e links \<times> 'e option) option"
  m_insert :: "'e links \<Rightarrow> 'e option \<Rightarrow> 'e \<Rightarrow> 'e \<Rightarrow> ('e links \<times> 'e option) option"

fun macro_step :: "'e list_macros \<Rightarrow> 'e list_op \<Rightarrow> 'e links \<Rightarrow> 'e option \<Rightarrow> ('e links \<times> 'e option) option" where
  "macro_step ops (Prepend a) m h = m_prepend ops m h a"
| "macro_step ops (Append a) m h = (case m_append ops of None \<Rightarrow> None | Some f \<Rightarrow> f m h a)"
| "macro_step ops (Delete x) m h = m_delete ops m h x"
| "macro_step ops (Replace x a) m h = m_replace ops m h x a"
| "macro_step ops (Insert_before x a) m h = m_insert ops m h x a"

fun macro_run :: "'e list_macros \<Rightarrow> 'e list_op list \<Rightarrow> 'e links \<Rightarrow> 'e option \<Rightarrow> ('e links \<times> 'e option) option" where
  "macro_run ops [] m h = Some (m, h)"
| "macro_run ops (x # xs) m h =
     (case macro_step ops x m h of None \<Rightarrow> None | Some (m', h') \<Rightarrow> macro_run ops xs m' h')"

text \<open>
  What the caller has to observe (a new element is not in the list, an old one is), and the list that
  results.
\<close>

fun op_allowed :: "'e list_macros \<Rightarrow> 'e list_op \<Rightarrow> 'e list \<Rightarrow> bool" where
  "op_allowed ops (Prepend a) xs = (a \<notin> set xs)"
| "op_allowed ops (Append a) xs = (a \<notin> set xs \<and> m_append ops \<noteq> None)"
| "op_allowed ops (Delete x) xs = (x \<in> set xs)"
| "op_allowed ops (Replace x a) xs = (x \<in> set xs \<and> a \<notin> set xs)"
| "op_allowed ops (Insert_before x a) xs = (x \<in> set xs \<and> a \<notin> set xs)"

fun insert_before :: "'e \<Rightarrow> 'e \<Rightarrow> 'e list \<Rightarrow> 'e list" where
  "insert_before x a [] = []"
| "insert_before x a (y # ys) = (if y = x then a # y # ys else y # insert_before x a ys)"

fun op_list :: "'e list_op \<Rightarrow> 'e list \<Rightarrow> 'e list" where
  "op_list (Prepend a) xs = a # xs"
| "op_list (Append a) xs = xs @ [a]"
| "op_list (Delete x) xs = remove1 x xs"
| "op_list (Replace x a) xs = map (\<lambda>y. if y = x then a else y) xs"
| "op_list (Insert_before x a) xs = insert_before x a xs"

fun ops_allowed :: "'e list_macros \<Rightarrow> 'e list_op list \<Rightarrow> 'e list \<Rightarrow> bool" where
  "ops_allowed ops [] xs = True"
| "ops_allowed ops (x # os) xs = (op_allowed ops x xs \<and> ops_allowed ops os (op_list x xs))"

lemma op_list_split:
  assumes "distinct (xs @ x # ys)"
  shows "remove1 x (xs @ x # ys) = xs @ ys"
    "map (\<lambda>y. if y = x then a else y) (xs @ x # ys) = xs @ a # ys"
    "insert_before x a (xs @ x # ys) = xs @ a # x # ys"
proof -
  have x: "x \<notin> set xs" "x \<notin> set ys" using assms by auto
  then show "remove1 x (xs @ x # ys) = xs @ ys" by (simp add: remove1_append)
  have "map (\<lambda>y. if y = x then a else y) xs = xs" "map (\<lambda>y. if y = x then a else y) ys = ys"
    using x by (auto intro!: map_idI)
  then show "map (\<lambda>y. if y = x then a else y) (xs @ x # ys) = xs @ a # ys" by simp
  show "insert_before x a (xs @ x # ys) = xs @ a # x # ys" using x(1) by (induction xs) auto
qed

locale linked_list =
  fixes represents :: "'e links \<Rightarrow> 'e option \<Rightarrow> 'e list \<Rightarrow> bool" and ops :: "'e list_macros"
  assumes no_repeats: "represents m h xs \<Longrightarrow> distinct xs"
    and prepend_ok: "represents m h xs \<Longrightarrow> a \<notin> set xs \<Longrightarrow>
      \<exists>m' h'. m_prepend ops m h a = Some (m', h') \<and> represents m' h' (a # xs)"
    and append_ok: "represents m h xs \<Longrightarrow> a \<notin> set xs \<Longrightarrow> m_append ops = Some f \<Longrightarrow>
      \<exists>m' h'. f m h a = Some (m', h') \<and> represents m' h' (xs @ [a])"
    and delete_ok: "represents m h (xs @ x # ys) \<Longrightarrow>
      \<exists>m' h'. m_delete ops m h x = Some (m', h') \<and> represents m' h' (xs @ ys)"
    and replace_ok: "represents m h (xs @ x # ys) \<Longrightarrow> a \<notin> set (xs @ x # ys) \<Longrightarrow>
      \<exists>m' h'. m_replace ops m h x a = Some (m', h') \<and> represents m' h' (xs @ a # ys)"
    and insert_ok: "represents m h (xs @ x # ys) \<Longrightarrow> a \<notin> set (xs @ x # ys) \<Longrightarrow>
      \<exists>m' h'. m_insert ops m h x a = Some (m', h') \<and> represents m' h' (xs @ a # x # ys)"
begin

lemma step_ok:
  assumes r: "represents m h xs" and a: "op_allowed ops p xs"
  shows "\<exists>m' h'. macro_step ops p m h = Some (m', h') \<and> represents m' h' (op_list p xs)"
proof (cases p)
  case (Append b)
  with a obtain f where "m_append ops = Some f" "b \<notin> set xs" by auto
  with append_ok [OF r] Append show ?thesis by simp
next
  case (Delete x)
  with a have "x \<in> set xs" by simp
  then obtain us vs where "xs = us @ x # vs" by (meson split_list)
  with r delete_ok [of m h us x vs] no_repeats [OF r] Delete show ?thesis
    by (simp add: op_list_split)
next
  case (Replace x b)
  with a have "x \<in> set xs" by simp
  then obtain us vs where "xs = us @ x # vs" by (meson split_list)
  with r a replace_ok [of m h us x vs b] no_repeats [OF r] Replace show ?thesis
    by (simp only: op_list_split macro_step.simps op_list.simps op_allowed.simps simp_thms)
next
  case (Insert_before x b)
  with a have "x \<in> set xs" by simp
  then obtain us vs where "xs = us @ x # vs" by (meson split_list)
  with r a insert_ok [of m h us x vs b] no_repeats [OF r] Insert_before show ?thesis
    by (simp only: op_list_split macro_step.simps op_list.simps op_allowed.simps simp_thms)
qed (use r a prepend_ok in simp)

theorem run_ok:
  "represents m h xs \<Longrightarrow> ops_allowed ops ps xs \<Longrightarrow>
   \<exists>m' h'. macro_run ops ps m h = Some (m', h') \<and> represents m' h' (fold op_list ps xs)"
proof (induction ps arbitrary: m h xs)
  case Nil
  then show ?case by simp
next
  case (Cons p ps)
  then obtain m1 h1 where "macro_step ops p m h = Some (m1, h1)" "represents m1 h1 (op_list p xs)"
    using step_ok [of m h xs p] by auto
  with Cons show ?case by simp
qed

end

definition LL_macros :: "'e list_macros" where
  "LL_macros = \<lparr>m_prepend = LL_PREPEND, m_append = Some LL_APPEND, m_delete = LL_DELETE,
     m_replace = LL_REPLACE_ELEM, m_insert = LL_PREPEND_ELEM\<rparr>"

definition DL_macros :: "'e list_macros" where
  "DL_macros = \<lparr>m_prepend = DL_PREPEND, m_append = Some DL_APPEND, m_delete = DL_DELETE,
     m_replace = DL_REPLACE_ELEM, m_insert = DL_PREPEND_ELEM\<rparr>"

definition CDL_macros :: "'e list_macros" where
  "CDL_macros = \<lparr>m_prepend = CDL_PREPEND, m_append = None, m_delete = CDL_DELETE,
     m_replace = CDL_REPLACE_ELEM, m_insert = CDL_PREPEND_ELEM\<rparr>"

lemma is_list_distinct: "is_list kind m h xs \<Longrightarrow> distinct xs"
  by (simp add: is_list_def)

interpretation ll: linked_list "is_list Singly" LL_macros
  by unfold_locales
    (auto simp: LL_macros_def is_list_distinct LL_PREPEND_ok LL_APPEND_ok LL_DELETE_ok LL_REPLACE_ELEM_ok LL_PREPEND_ELEM_ok)

interpretation dl: linked_list "is_list Doubly" DL_macros
  by unfold_locales
    (auto simp: DL_macros_def is_list_distinct DL_PREPEND_ok DL_APPEND_ok DL_DELETE_ok DL_REPLACE_ELEM_ok DL_PREPEND_ELEM_ok)

interpretation cdl: linked_list "is_list Circular" CDL_macros
  by unfold_locales
    (auto simp: CDL_macros_def is_list_distinct CDL_PREPEND_ok CDL_DELETE_ok CDL_REPLACE_ELEM_ok CDL_PREPEND_ELEM_ok)

section \<open>Walking and searching\<close>

lemma LL_FOREACH_ok: "nseg (lnext m) xs None \<Longrightarrow> LL_FOREACH m (first_or xs None) = Some xs"
  by (induction xs) (subst LL_FOREACH.simps, simp)+

lemma LL_SEARCH_ok: "nseg (lnext m) xs None \<Longrightarrow> LL_SEARCH m (first_or xs None) hit = Some (find hit xs)"
  by (induction xs) (subst LL_SEARCH.simps, simp)+

lemma CDL_FOREACH_ok:
  "nseg (follow Circular h m) xs None \<Longrightarrow> CDL_FOREACH m h (first_or xs None) = Some xs"
  by (induction xs) (subst CDL_FOREACH.simps, simp add: follow_def)+

lemma CDL_SEARCH_ok:
  "nseg (follow Circular h m) xs None \<Longrightarrow> CDL_SEARCH m h (first_or xs None) hit = Some (find hit xs)"
  by (induction xs) (subst CDL_SEARCH.simps, simp add: follow_def)+

text \<open>Loops over a whole list, by kind.\<close>

lemma list_walks:
  "is_list Singly m h xs \<Longrightarrow> LL_FOREACH m h = Some xs \<and> LL_COUNT m h = Some (length xs) \<and> LL_SEARCH m h hit = Some (find hit xs)"
  "is_list Doubly m h xs \<Longrightarrow> LL_FOREACH m h = Some xs \<and> LL_COUNT m h = Some (length xs) \<and> LL_SEARCH m h hit = Some (find hit xs)"
  "is_list Circular m h xs \<Longrightarrow>
   CDL_FOREACH m h h = Some xs \<and> CDL_COUNT m h = Some (length xs) \<and> CDL_SEARCH m h h hit = Some (find hit xs)"
    apply (auto simp: is_list_def LL_COUNT_def LL_FOREACH_ok LL_SEARCH_ok)[2]
  using is_list_follow [of Circular m h xs]
  by (auto simp: is_list_def CDL_COUNT_def CDL_FOREACH_ok CDL_SEARCH_ok)

section \<open>Concatenation\<close>

lemma LL_CONCAT_ok:
  assumes "is_list Singly m h xs" and "is_list Singly m k ys" and "set xs \<inter> set ys = {}"
  shows "\<exists>m' h'. LL_CONCAT m h k = Some (m', h') \<and> is_list Singly m' h' (xs @ ys)"
proof (cases xs rule: rev_cases)
  case Nil
  with assms show ?thesis by (auto simp: LL_CONCAT_def is_list_def)
next
  case (snoc us t)
  then obtain x where x: "first_or xs None = Some x" by (cases us) auto
  have "ll_last m x = Some t" using x snoc assms(1) by (intro ll_last_ok [of m us]) (simp_all add: is_list_def)
  then show ?thesis using assms x
    by (cases us) (auto simp: snoc LL_CONCAT_def is_list_def link_simps)
qed

lemma DL_CONCAT_ok:
  assumes "is_list Doubly m h xs" and "is_list Doubly m k ys" and "set xs \<inter> set ys = {}"
  shows "\<exists>m' h'. DL_CONCAT m h k = Some (m', h') \<and> is_list Doubly m' h' (xs @ ys)"
proof (cases xs rule: rev_cases)
  case Nil
  with assms show ?thesis by (cases ys) (auto simp: DL_CONCAT_def is_list_def)
next
  case (snoc us t)
  with assms show ?thesis
    by (cases us; cases ys) (auto simp: DL_CONCAT_def is_list_def link_simps Let_def)
qed

section \<open>The macros are the list operations\<close>

text \<open>
  C24: The list macros are the operations on lists.  From links that represent a list, in the form of
  their kind, any sequence of prepend, append, delete, replace and insert-before macros whose new
  elements are new and whose old ones are in the list runs without a null dereference or a failed
  assertion, represents the list the operations give, and the loop over the result visits that list.
\<close>

theorem list_macros_are_operations:
  "(is_list Singly m h xs \<and> ops_allowed LL_macros ps xs \<longrightarrow>
      (\<exists>m' h'. macro_run LL_macros ps m h = Some (m', h') \<and> is_list Singly m' h' (fold op_list ps xs) \<and>
        LL_FOREACH m' h' = Some (fold op_list ps xs))) \<and>
   (is_list Doubly m h xs \<and> ops_allowed DL_macros ps xs \<longrightarrow>
      (\<exists>m' h'. macro_run DL_macros ps m h = Some (m', h') \<and> is_list Doubly m' h' (fold op_list ps xs) \<and>
        LL_FOREACH m' h' = Some (fold op_list ps xs))) \<and>
   (is_list Circular m h xs \<and> ops_allowed CDL_macros ps xs \<longrightarrow>
      (\<exists>m' h'. macro_run CDL_macros ps m h = Some (m', h') \<and> is_list Circular m' h' (fold op_list ps xs) \<and>
        CDL_FOREACH m' h' h' = Some (fold op_list ps xs)))"
  using ll.run_ok [of m h xs ps] dl.run_ok [of m h xs ps] cdl.run_ok [of m h xs ps] list_walks by blast

text \<open>A list of numbers, emptied at the head and filled at the end.\<close>

definition list_demo :: "nat list_op list" where
  "list_demo = [Append 1, Append 2, Append 3, Delete 1, Replace 3 4, Insert_before 4 5, Prepend 6]"

lemma list_macros_are_operations_witness:
  "\<exists>m' h'. macro_run DL_macros list_demo \<lparr>lnext = Map.empty, lprev = Map.empty\<rparr> None = Some (m', h') \<and>
     LL_FOREACH m' h' = Some [6, 2, 5, 4]"
proof -
  have "is_list Doubly \<lparr>lnext = Map.empty, lprev = Map.empty\<rparr> None ([] :: nat list)" by (simp add: is_list_def)
  moreover have "ops_allowed DL_macros list_demo []" by (simp add: list_demo_def DL_macros_def)
  moreover have "fold op_list list_demo [] = [6, 2, 5, 4]" by (simp add: list_demo_def)
  ultimately show ?thesis
    using list_macros_are_operations [of "\<lparr>lnext = Map.empty, lprev = Map.empty\<rparr>" None "[]" list_demo] by auto
qed

end
