(* ===== verification/Ut_Search.thy ===== *)
theory Ut_Search
  imports Tdb_Prelude "HOL-Library.Sublist"
begin

text \<open>
  The substring searches of src/src/common/ut/utstring.h: the Knuth-Morris-Pratt tables, built from the
  left and from the right, and the two searches that use them.  Every array access of the code is checked
  against the array's bounds; a loop that ran forever would be \<open>None\<close>, as an access out of bounds is.
  The code's \<^verbatim>\<open>long\<close> indices stay between -1 and the lengths, so they are integers here; the comparisons
  with \<^verbatim>\<open>(int)\<close> casts and in \<^verbatim>\<open>size_t\<close> arithmetic are written out.
\<close>

section \<open>Checked array accesses\<close>

definition rd :: "'a list \<Rightarrow> int \<Rightarrow> 'a option" where
  "rd xs i = (if 0 \<le> i \<and> i < int (length xs) then Some (xs ! nat i) else None)"

definition wr :: "'a list \<Rightarrow> int \<Rightarrow> 'a \<Rightarrow> 'a list option" where
  "wr xs i v = (if 0 \<le> i \<and> i < int (length xs) then Some (xs[nat i := v]) else None)"

text \<open>\<^verbatim>\<open>(int)\<close> applied to a size, and \<^verbatim>\<open>size_t\<close> arithmetic.\<close>

definition as_int :: "int \<Rightarrow> int" where
  "as_int x = signed_take_bit 31 x"

definition as_size :: "int \<Rightarrow> int" where
  "as_size x = x mod 2 ^ 64"

section \<open>From left to right\<close>

text \<open>The inner loop of both functions: fall back along the table until the characters agree.\<close>

partial_function (option) fall_back ::
    "byte list \<Rightarrow> byte list \<Rightarrow> int \<Rightarrow> int list \<Rightarrow> int \<Rightarrow> int option" where
  "fall_back needle txt pos tab i =
     (if i > -1 then
        Option.bind (rd needle i) (\<lambda>a. Option.bind (rd txt pos) (\<lambda>b.
          if a \<noteq> b then Option.bind (rd tab i) (\<lambda>i'. fall_back needle txt pos tab i') else Some i))
      else Some i)"

text \<open>The value stored for index \<open>i\<close>.\<close>

definition table_entry :: "byte list \<Rightarrow> int \<Rightarrow> int list \<Rightarrow> int \<Rightarrow> int \<Rightarrow> int option" where
  "table_entry needle nlen tab i j =
     (if i < nlen then
        Option.bind (rd needle i) (\<lambda>a. Option.bind (rd needle j) (\<lambda>b. if a = b then rd tab j else Some j))
      else Some j)"

partial_function (option) table_loop ::
    "byte list \<Rightarrow> int \<Rightarrow> int \<Rightarrow> int \<Rightarrow> int list \<Rightarrow> int list option" where
  "table_loop needle nlen i j tab =
     (if i < nlen then
        Option.bind (fall_back needle needle i tab j) (\<lambda>j'.
        Option.bind (table_entry needle nlen tab (i + 1) (j' + 1)) (\<lambda>v.
        Option.bind (wr tab (i + 1) v) (\<lambda>tab'. table_loop needle nlen (i + 1) (j' + 1) tab')))
      else Some tab)"

definition utstring_BuildTable :: "byte list \<Rightarrow> int \<Rightarrow> int list \<Rightarrow> int list option" where
  "utstring_BuildTable needle nlen tab =
     Option.bind (wr tab 0 (-1)) (\<lambda>tab'. table_loop needle nlen 0 (-1) tab')"

partial_function (option) find_loop ::
    "byte list \<Rightarrow> int \<Rightarrow> byte list \<Rightarrow> int \<Rightarrow> int list \<Rightarrow> int \<Rightarrow> int \<Rightarrow> int option" where
  "find_loop hay hlen needle nlen tab i j =
     (if j < as_int hlen \<and> as_size (hlen - j + i) \<ge> nlen then
        Option.bind (fall_back needle hay j tab i) (\<lambda>i'.
          if i' + 1 \<ge> as_int nlen then Some (j + 1 - (i' + 1))
          else find_loop hay hlen needle nlen tab (i' + 1) (j + 1))
      else Some (-1))"

definition utstring_find_multi :: "byte list \<Rightarrow> int \<Rightarrow> byte list \<Rightarrow> int \<Rightarrow> int list \<Rightarrow> int option" where
  "utstring_find_multi hay hlen needle nlen tab = find_loop hay hlen needle nlen tab 0 0"

section \<open>From right to left\<close>

partial_function (option) fall_backR ::
    "byte list \<Rightarrow> int \<Rightarrow> byte list \<Rightarrow> int \<Rightarrow> int list \<Rightarrow> int \<Rightarrow> int option" where
  "fall_backR needle bound txt pos tab i =
     (if i < bound then
        Option.bind (rd needle i) (\<lambda>a. Option.bind (rd txt pos) (\<lambda>b.
          if a \<noteq> b then Option.bind (rd tab (i + 1)) (\<lambda>i'. fall_backR needle bound txt pos tab i') else Some i))
      else Some i)"

definition table_entryR :: "byte list \<Rightarrow> int list \<Rightarrow> int \<Rightarrow> int \<Rightarrow> int option" where
  "table_entryR needle tab i j =
     (if i \<ge> 0 then
        Option.bind (rd needle i) (\<lambda>a. Option.bind (rd needle j) (\<lambda>b. if a = b then rd tab (j + 1) else Some j))
      else Some j)"

partial_function (option) table_loopR ::
    "byte list \<Rightarrow> int \<Rightarrow> int \<Rightarrow> int \<Rightarrow> int list \<Rightarrow> int list option" where
  "table_loopR needle nlen i j tab =
     (if i \<ge> 0 then
        Option.bind (fall_backR needle nlen needle i tab j) (\<lambda>j'.
        Option.bind (table_entryR needle tab (i - 1) (j' - 1)) (\<lambda>v.
        Option.bind (wr tab (i - 1 + 1) v) (\<lambda>tab'. table_loopR needle nlen (i - 1) (j' - 1) tab')))
      else Some tab)"

definition utstring_BuildTableR :: "byte list \<Rightarrow> int \<Rightarrow> int list \<Rightarrow> int list option" where
  "utstring_BuildTableR needle nlen tab =
     Option.bind (wr tab (nlen - 1 + 1) (nlen - 1 + 1)) (\<lambda>tab'. table_loopR needle nlen (nlen - 1) (nlen - 1 + 1) tab')"

partial_function (option) findR_loop ::
    "byte list \<Rightarrow> byte list \<Rightarrow> int \<Rightarrow> int list \<Rightarrow> int \<Rightarrow> int \<Rightarrow> int option" where
  "findR_loop hay needle nlen tab i j =
     (if j \<ge> 0 \<and> j \<ge> i then
        Option.bind (fall_backR needle (as_int nlen) hay j tab i) (\<lambda>i'.
          if i' - 1 < 0 then Some (j - 1 + 1) else findR_loop hay needle nlen tab (i' - 1) (j - 1))
      else Some (-1))"

definition utstring_findR_multi :: "byte list \<Rightarrow> int \<Rightarrow> byte list \<Rightarrow> int \<Rightarrow> int list \<Rightarrow> int option" where
  "utstring_findR_multi hay hlen needle nlen tab = findR_loop hay needle nlen tab (nlen - 1) (hlen - 1)"

section \<open>Prefixes that end a text\<close>

abbreviation ends :: "byte list \<Rightarrow> nat \<Rightarrow> byte list \<Rightarrow> bool" where
  "ends p k w \<equiv> suffix (take k p) w"

lemma ends_nest: "ends p k w \<Longrightarrow> ends p i w \<Longrightarrow> k \<le> i \<Longrightarrow> i \<le> length p \<Longrightarrow> ends p k (take i p)"
  by (rule suffix_length_suffix) auto

lemma ends_trans: "ends p k (take i p) \<Longrightarrow> ends p i w \<Longrightarrow> ends p k w"
  by (rule suffix_order.trans)

lemma ends_Suc:
  "k < length p \<Longrightarrow> j < length w \<Longrightarrow> ends p (Suc k) (take (Suc j) w) \<longleftrightarrow> p ! k = w ! j \<and> ends p k (take j w)"
  by (simp add: take_Suc_conv_app_nth snoc_suffix_snoc)

lemma suffix_drop_tail:
  assumes "suffix (xs @ ys) (us @ vs)" and "length ys = length vs"
  shows "suffix xs us"
proof -
  from assms(1) obtain zs where "us @ vs = (zs @ xs) @ ys" by (auto simp: suffix_def)
  with assms(2) have "us = zs @ xs" using append_eq_append_conv [of us "zs @ xs" vs ys] by simp
  then show ?thesis by (simp add: suffix_def)
qed

lemma ends_before:
  assumes "suffix p (take e w)" and "j \<le> e" and "e \<le> length w" and "e - j \<le> length p"
  shows "ends p (length p - (e - j)) (take j w)"
proof (rule suffix_drop_tail)
  have "take e w = take j w @ take (e - j) (drop j w)"
    using assms(2) by (metis le_add_diff_inverse take_add)
  with assms(1) show "suffix (take (length p - (e - j)) p @ drop (length p - (e - j)) p) (take j w @ take (e - j) (drop j w))"
    by simp
  show "length (drop (length p - (e - j)) p) = length (take (e - j) (drop j w))" using assms(2-4) by simp
qed

section \<open>The table from the left\<close>

text \<open>
  An entry is the longest proper border at which the search can still match: every longer one is followed
  by the character that has just failed.
\<close>

definition good_entry :: "byte list \<Rightarrow> int list \<Rightarrow> nat \<Rightarrow> bool" where
  "good_entry p tab k \<longleftrightarrow>
     k < length tab \<and> -1 \<le> tab ! k \<and> tab ! k < int k \<and>
     (0 \<le> tab ! k \<longrightarrow> ends p (nat (tab ! k)) (take k p)) \<and>
     (\<forall>r. tab ! k < int r \<and> r < k \<and> ends p r (take k p) \<longrightarrow> k < length p \<and> p ! r = p ! k)"

lemma fall_back_ok:
  assumes t: "\<And>k. k \<le> lim \<Longrightarrow> good_entry p tab k" and pos: "pos < length w"
  shows "-1 \<le> i \<Longrightarrow> i \<le> int lim \<Longrightarrow> i < int (length p) \<Longrightarrow>
    \<exists>r. fall_back p w (int pos) tab i = Some r \<and> -1 \<le> r \<and> r \<le> i \<and>
      (0 \<le> r \<longrightarrow> p ! nat r = w ! pos \<and> ends p (nat r) (take (nat i) p)) \<and>
      (\<forall>k. r < int k \<and> int k \<le> i \<and> ends p k (take (nat i) p) \<longrightarrow> p ! k \<noteq> w ! pos)"
proof (induction "nat (i + 1)" arbitrary: i rule: less_induct)
  case less
  show ?case
  proof (cases "i = -1")
    case True
    then show ?thesis by (subst fall_back.simps) auto
  next
    case False
    then obtain n where i: "i = int n" using less.prems(1) by (cases i) auto
    with less.prems have n: "n \<le> lim" "n < length p" by auto
    have g: "good_entry p tab n" using t n(1) .
    have rds: "rd p i = Some (p ! n)" "rd w (int pos) = Some (w ! pos)" "rd tab i = Some (tab ! n)"
      using n pos g by (auto simp: rd_def i good_entry_def)
    show ?thesis
    proof (cases "p ! n = w ! pos")
      case True
      then have "fall_back p w (int pos) tab i = Some i" using rds i by (subst fall_back.simps) simp
      with True show ?thesis by (intro exI [of _ i]) (auto simp: i)
    next
      case False
      define q where "q = tab ! n"
      have q: "-1 \<le> q" "q < int n" "0 \<le> q \<Longrightarrow> ends p (nat q) (take n p)"
        using g by (auto simp: good_entry_def q_def)
      have st: "fall_back p w (int pos) tab i = fall_back p w (int pos) tab q"
        using rds i False by (subst fall_back.simps) (simp add: q_def)
      have "nat (q + 1) < nat (i + 1)" "q \<le> int lim" "q < int (length p)" using q n i by auto
      from less.hyps [OF this(1) q(1) this(2,3)] obtain r where r:
          "fall_back p w (int pos) tab q = Some r" "-1 \<le> r" "r \<le> q"
          "0 \<le> r \<longrightarrow> p ! nat r = w ! pos \<and> ends p (nat r) (take (nat q) p)"
          "\<forall>k. r < int k \<and> int k \<le> q \<and> ends p k (take (nat q) p) \<longrightarrow> p ! k \<noteq> w ! pos"
        by blast
      have "p ! k \<noteq> w ! pos" if k: "r < int k" "k \<le> n" "ends p k (take n p)" for k
      proof -
        consider "k = n" | "k < n" "q < int k" | "int k \<le> q" using k(2) by linarith
        then show ?thesis
        proof cases
          case 2
          then have "p ! k = p ! n" using g k(3) by (auto simp: good_entry_def q_def)
          with False show ?thesis by simp
        next
          case 3
          then have "ends p k (take (nat q) p)" using ends_nest [OF k(3) q(3)] q(2) n by simp
          with 3 k(1) r(5) show ?thesis by blast
        qed (use False in simp)
      qed
      moreover have "0 \<le> r \<Longrightarrow> ends p (nat r) (take n p)"
        using r(3,4) q(3) by (auto intro: ends_trans)
      ultimately show ?thesis using r(1-4) st q(2) by (intro exI [of _ r]) (auto simp: i)
    qed
  qed
qed

text \<open>One round of the loop: the longest border of the next prefix, and its entry.\<close>

definition table_state :: "byte list \<Rightarrow> nat \<Rightarrow> int \<Rightarrow> int list \<Rightarrow> bool" where
  "table_state p i j tab \<longleftrightarrow>
     length tab = length p + 1 \<and> i \<le> length p \<and> (\<forall>k \<le> i. good_entry p tab k) \<and> -1 \<le> j \<and> j < int i \<and>
     (0 \<le> j \<longrightarrow> ends p (nat j) (take i p)) \<and> (\<forall>k. j < int k \<and> k < i \<longrightarrow> \<not> ends p k (take i p))"

lemma good_entry_upd: "k \<noteq> i \<Longrightarrow> good_entry p (tab[i := v]) k = good_entry p tab k"
  by (simp add: good_entry_def)

lemma next_border:
  assumes st: "table_state p i j tab" and i: "i < length p" and r: "-1 \<le> r" "r \<le> j"
    "0 \<le> r \<longrightarrow> p ! nat r = p ! i \<and> ends p (nat r) (take (nat j) p)"
    "\<forall>k. r < int k \<and> int k \<le> j \<and> ends p k (take (nat j) p) \<longrightarrow> p ! k \<noteq> p ! i"
  shows "ends p (nat (r + 1)) (take (Suc i) p)" and "\<And>k. r + 1 < int k \<Longrightarrow> k < Suc i \<Longrightarrow> \<not> ends p k (take (Suc i) p)"
proof -
  have j: "j < int i" "0 \<le> j \<Longrightarrow> ends p (nat j) (take i p)" using st by (auto simp: table_state_def)
  show "ends p (nat (r + 1)) (take (Suc i) p)"
  proof (cases "r = -1")
    case True
    then show ?thesis by simp
  next
    case False
    then have "0 \<le> r" "nat (r + 1) = Suc (nat r)" using r(1) by auto
    moreover have "ends p (nat r) (take i p)" using r(2,3) j(2) \<open>0 \<le> r\<close> by (auto intro: ends_trans)
    ultimately show ?thesis using r(2,3) j(1) i by (simp add: ends_Suc)
  qed
  fix k assume k: "r + 1 < int k" "k < Suc i"
  show "\<not> ends p k (take (Suc i) p)"
  proof
    assume e: "ends p k (take (Suc i) p)"
    from k r(1) obtain l where l: "k = Suc l" by (cases k) auto
    with e k i have s: "p ! l = p ! i" "ends p l (take i p)" by (auto simp: ends_Suc)
    moreover have "\<And>k. j < int k \<Longrightarrow> k < i \<Longrightarrow> \<not> ends p k (take i p)" using st by (simp add: table_state_def)
    ultimately have "int l \<le> j" using k l by (meson Suc_less_eq not_le_imp_less)
    then have "ends p l (take (nat j) p)" using ends_nest [OF s(2) j(2)] j(1) i by simp
    then show False using r(4) \<open>int l \<le> j\<close> s(1) k l by auto
  qed
qed

lemma table_entry_ok:
  assumes g: "\<And>k. k \<le> i \<Longrightarrow> good_entry p tab k" and len: "length tab = length p + 1" "i < length p" and b: "b \<le> i"
    and e: "ends p b (take (Suc i) p)" and lg: "\<And>k. b < k \<Longrightarrow> k < Suc i \<Longrightarrow> \<not> ends p k (take (Suc i) p)"
  shows "\<exists>v. table_entry p (int (length p)) tab (int (Suc i)) (int b) = Some v \<and> good_entry p (tab[Suc i := v]) (Suc i)"
proof (cases "Suc i < length p \<and> p ! Suc i = p ! b")
  case True
  have gb: "good_entry p tab b" using g b by blast
  have n: "nat (1 + int i) = Suc i" by simp
  have "table_entry p (int (length p)) tab (int (Suc i)) (int b) = Some (tab ! b)"
    using True b len by (simp add: table_entry_def rd_def n)
  moreover have "good_entry p (tab[Suc i := tab ! b]) (Suc i)"
    unfolding good_entry_def
  proof (intro conjI allI impI)
    show "0 \<le> tab[Suc i := tab ! b] ! Suc i \<Longrightarrow> ends p (nat (tab[Suc i := tab ! b] ! Suc i)) (take (Suc i) p)"
      using gb len e by (auto simp: good_entry_def intro: ends_trans)
    fix r assume r: "tab[Suc i := tab ! b] ! Suc i < int r \<and> r < Suc i \<and> ends p r (take (Suc i) p)"
    then have r': "tab ! b < int r" "r < Suc i" "ends p r (take (Suc i) p)" using len by auto
    then have "r \<le> b" using lg [of r] by (cases "b < r") auto
    show "p ! r = p ! Suc i"
    proof (cases "r = b")
      case False
      then have "ends p r (take b p)" using ends_nest [OF r'(3) e] \<open>r \<le> b\<close> b len by simp
      then show ?thesis using gb r'(1) \<open>r \<le> b\<close> False True by (auto simp: good_entry_def)
    qed (use True in simp)
  qed (use gb len b True in \<open>auto simp: good_entry_def\<close>)
  ultimately show ?thesis by blast
next
  case False
  have n: "nat (1 + int i) = Suc i" by simp
  have "table_entry p (int (length p)) tab (int (Suc i)) (int b) = Some (int b)"
    using False b len by (auto simp: table_entry_def rd_def n)
  moreover have "good_entry p (tab[Suc i := int b]) (Suc i)"
    unfolding good_entry_def
  proof (intro conjI allI impI)
    fix r assume "tab[Suc i := int b] ! Suc i < int r \<and> r < Suc i \<and> ends p r (take (Suc i) p)"
    then show "Suc i < length p" and "p ! r = p ! Suc i" using lg [of r] len by auto
  qed (use e len b in auto)
  ultimately show ?thesis by blast
qed

lemma table_loop_ok:
  "table_state p i j tab \<Longrightarrow> \<exists>tab' j'. table_loop p (int (length p)) (int i) j tab = Some tab' \<and> table_state p (length p) j' tab'"
proof (induction "length p - i" arbitrary: i j tab rule: less_induct)
  case less
  note st = less.prems
  show ?case
  proof (cases "i < length p")
    case False
    then have "i = length p" using st by (simp add: table_state_def)
    with st show ?thesis by (subst table_loop.simps) auto
  next
    case True
    have "\<exists>r. fall_back p p (int i) tab j = Some r \<and> -1 \<le> r \<and> r \<le> j \<and>
        (0 \<le> r \<longrightarrow> p ! nat r = p ! i \<and> ends p (nat r) (take (nat j) p)) \<and>
        (\<forall>k. r < int k \<and> int k \<le> j \<and> ends p k (take (nat j) p) \<longrightarrow> p ! k \<noteq> p ! i)"
      using st True by (intro fall_back_ok [of i]) (auto simp: table_state_def)
    then obtain r where r: "fall_back p p (int i) tab j = Some r" "-1 \<le> r" "r \<le> j"
        "0 \<le> r \<longrightarrow> p ! nat r = p ! i \<and> ends p (nat r) (take (nat j) p)"
        "\<forall>k. r < int k \<and> int k \<le> j \<and> ends p k (take (nat j) p) \<longrightarrow> p ! k \<noteq> p ! i"
      by blast
    define b where "b = nat (r + 1)"
    have b: "int b = r + 1" "b \<le> i" using r(2,3) st by (auto simp: b_def table_state_def)
    note nb = next_border [OF st True r(2-5)]
    have e: "ends p b (take (Suc i) p)" and lg: "\<And>k. b < k \<Longrightarrow> k < Suc i \<Longrightarrow> \<not> ends p k (take (Suc i) p)"
      using nb(1) nb(2) b by (auto simp: b_def)
    have g: "\<And>k. k \<le> i \<Longrightarrow> good_entry p tab k" and len: "length tab = length p + 1" using st by (auto simp: table_state_def)
    from table_entry_ok [OF g len True b(2) e lg] obtain v where
        v: "table_entry p (int (length p)) tab (int (Suc i)) (int b) = Some v" "good_entry p (tab[Suc i := v]) (Suc i)"
      by blast
    have "table_state p (Suc i) (int b) (tab[Suc i := v])"
      using v(2) g e lg b(2) len True by (auto simp: table_state_def le_Suc_eq good_entry_upd)
    moreover have "length p - Suc i < length p - i" using True by simp
    ultimately obtain tab' j' where
        "table_loop p (int (length p)) (int (Suc i)) (int b) (tab[Suc i := v]) = Some tab'" "table_state p (length p) j' tab'"
      using less.hyps by blast
    moreover have "table_loop p (int (length p)) (int i) j tab =
        table_loop p (int (length p)) (int (Suc i)) (int b) (tab[Suc i := v])"
      using True r(1) v(1) len by (subst table_loop.simps) (simp add: b wr_def add.commute nat_add_distrib)
    ultimately show ?thesis by auto
  qed
qed

lemma build_table_ok:
  assumes "length tab = length p + 1"
  shows "\<exists>tab'. utstring_BuildTable p (int (length p)) tab = Some tab' \<and> length tab' = length p + 1 \<and>
    (\<forall>k \<le> length p. good_entry p tab' k)"
proof -
  have "table_state p 0 (-1) (tab[0 := -1])" using assms by (cases tab) (auto simp: table_state_def good_entry_def)
  from table_loop_ok [OF this] assms show ?thesis
    by (cases tab) (auto simp: utstring_BuildTable_def wr_def table_state_def)
qed

section \<open>The loops from the right mirror those from the left\<close>

text \<open>Texts are reversed; an index, and a table entry, counts from the other end.\<close>

definition flip :: "nat \<Rightarrow> int \<Rightarrow> int" where
  "flip m x = int m - 1 - x"

definition flip_table :: "nat \<Rightarrow> int list \<Rightarrow> int list" where
  "flip_table m tab = map (flip m) (rev tab)"

lemma rd_rev: "length xs = m \<Longrightarrow> rd (rev xs) (flip m i) = rd xs i"
  by (auto simp: rd_def rev_nth flip_def nat_diff_distrib intro!: arg_cong [where f = "\<lambda>k. xs ! k"])

lemma rd_flip_table: "length tab = m + 1 \<Longrightarrow> rd (flip_table m tab) (flip m i + 1) = map_option (flip m) (rd tab i)"
  by (auto simp: rd_def rev_nth flip_table_def flip_def nat_diff_distrib intro!: arg_cong [where f = "\<lambda>k. tab ! k"])

lemma wr_flip_table:
  "length tab = m + 1 \<Longrightarrow> wr (flip_table m tab) (flip m i + 1) (flip m v) = map_option (flip_table m) (wr tab i v)"
  by (auto simp: wr_def rev_nth flip_table_def flip_def nat_diff_distrib map_update rev_update)

lemma flip_ineq: "flip m i < int m \<longleftrightarrow> i > -1" "flip m i \<ge> 0 \<longleftrightarrow> i < int m"
  by (auto simp: flip_def)

lemma fall_back_flip:
  assumes "fall_back p w pos tab i = Some r"
  shows "length p = m \<Longrightarrow> length w = n \<Longrightarrow> length tab = m + 1 \<Longrightarrow>
    fall_backR (rev p) (int m) (rev w) (flip n pos) (flip_table m tab) (flip m i) = Some (flip m r)"
  using assms
proof (induction rule: fall_back.raw_induct [rotated -1, consumes 1, case_names 1])
  case (1 fb p w pos tab i r)
  show ?case
  proof (cases "i > -1")
    case False
    then show ?thesis using "1.hyps" by (subst fall_backR.simps) (simp add: flip_ineq)
  next
    case True
    with "1.hyps" obtain a b where ab: "rd p i = Some a" "rd w pos = Some b"
        "(if a \<noteq> b then Option.bind (rd tab i) (fb p w pos tab) else Some i) = Some r"
      by (auto simp: bind_eq_Some_conv)
    show ?thesis
    proof (cases "a = b")
      case True
      then show ?thesis using ab "1.prems" \<open>i > -1\<close>
        by (subst fall_backR.simps) (simp add: flip_ineq rd_rev)
    next
      case False
      with ab(3) obtain i' where i': "rd tab i = Some i'" "fb p w pos tab i' = Some r"
        by (auto simp: bind_eq_Some_conv)
      show ?thesis using ab(1,2) i' False "1.prems" "1.IH" [OF i'(2)] \<open>i > -1\<close>
        by (subst fall_backR.simps) (simp add: flip_ineq rd_rev rd_flip_table)
    qed
  qed
qed

lemma table_entry_flip:
  "table_entry p (int m) tab i j = Some v \<Longrightarrow> length p = m \<Longrightarrow> length tab = m + 1 \<Longrightarrow>
   table_entryR (rev p) (flip_table m tab) (flip m i) (flip m j) = Some (flip m v)"
  by (auto simp: table_entry_def table_entryR_def flip_ineq rd_rev rd_flip_table bind_eq_Some_conv split: if_splits)

lemma flip_Suc: "flip m (i + 1) = flip m i - 1" "flip m i - 1 + 1 = flip m i"
  by (simp_all add: flip_def)

lemma wr_length: "wr tab i v = Some tab' \<Longrightarrow> length tab' = length tab"
  by (auto simp: wr_def split: if_splits)

lemma table_loop_flip:
  assumes "table_loop p nlen i j tab = Some tab'"
  shows "nlen = int m \<Longrightarrow> length p = m \<Longrightarrow> length tab = m + 1 \<Longrightarrow>
    table_loopR (rev p) nlen (flip m i) (flip m j) (flip_table m tab) = Some (flip_table m tab')"
  using assms
proof (induction rule: table_loop.raw_induct [rotated -1, consumes 1, case_names 1])
  case (1 tl p nlen i j tab tab')
  show ?case
  proof (cases "i < nlen")
    case False
    then show ?thesis using "1.prems" "1.hyps" by (subst table_loopR.simps) (simp add: flip_ineq)
  next
    case True
    with "1.hyps" obtain j' v tab1 where s: "fall_back p p i tab j = Some j'"
        "table_entry p nlen tab (i + 1) (j' + 1) = Some v" "wr tab (i + 1) v = Some tab1"
        "tl p nlen (i + 1) (j' + 1) tab1 = Some tab'"
      by (auto simp: bind_eq_Some_conv)
    have "fall_backR (rev p) (int m) (rev p) (flip m i) (flip_table m tab) (flip m j) = Some (flip m j')"
      using fall_back_flip [OF s(1)] "1.prems" by simp
    moreover have "table_entryR (rev p) (flip_table m tab) (flip m i - 1) (flip m j' - 1) = Some (flip m v)"
      using table_entry_flip [of p m tab "i + 1" "j' + 1" v] s(2) "1.prems" by (simp add: flip_Suc)
    moreover have "wr (flip_table m tab) (flip m i - 1 + 1) (flip m v) = Some (flip_table m tab1)"
      using wr_flip_table [of tab m "i + 1" v] s(3) "1.prems"(3) by (simp only: flip_Suc) simp
    moreover have "table_loopR (rev p) nlen (flip m i - 1) (flip m j' - 1) (flip_table m tab1) = Some (flip_table m tab')"
      using "1.IH" [OF s(4) "1.prems"(1,2)] wr_length [OF s(3)] "1.prems"(3) by (simp add: flip_Suc)
    ultimately show ?thesis using True "1.prems"(1) by (subst table_loopR.simps) (simp add: flip_ineq)
  qed
qed

lemma build_table_flip:
  assumes "utstring_BuildTable p (int m) tab = Some tab'" and "length p = m" and "length tab = m + 1"
  shows "utstring_BuildTableR (rev p) (int m) (flip_table m tab) = Some (flip_table m tab')"
proof -
  from assms(1) obtain t where t: "wr tab 0 (-1) = Some t" "table_loop p (int m) 0 (-1) t = Some tab'"
    by (auto simp: utstring_BuildTable_def bind_eq_Some_conv)
  have f: "flip m 0 = int m - 1" "flip m (-1) = int m" by (simp_all add: flip_def)
  have "wr (flip_table m tab) (int m) (int m) = Some (flip_table m t)"
    using wr_flip_table [OF assms(3), of 0 "-1"] t(1) by (simp add: f)
  moreover have "table_loopR (rev p) (int m) (int m - 1) (int m) (flip_table m t) = Some (flip_table m tab')"
    using table_loop_flip [OF t(2) refl assms(2)] wr_length [OF t(1)] assms(3) by (simp add: f)
  ultimately show ?thesis by (simp add: utstring_BuildTableR_def)
qed

section \<open>The searches\<close>

text \<open>Where a text occurs, and the first such place.\<close>

definition occurs_at :: "byte list \<Rightarrow> byte list \<Rightarrow> nat \<Rightarrow> bool" where
  "occurs_at p w k \<longleftrightarrow> k + length p \<le> length w \<and> take (length p) (drop k w) = p"

definition first_occurrence :: "byte list \<Rightarrow> byte list \<Rightarrow> int" where
  "first_occurrence p w = (case find (occurs_at p w) [0..<Suc (length w)] of None \<Rightarrow> -1 | Some k \<Rightarrow> int k)"

definition last_occurrence :: "byte list \<Rightarrow> byte list \<Rightarrow> int" where
  "last_occurrence p w = (case find (occurs_at p w) (rev [0..<Suc (length w)]) of None \<Rightarrow> -1 | Some k \<Rightarrow> int k)"

lemma first_occurrenceI:
  assumes "occurs_at p w k" and "\<And>j. j < k \<Longrightarrow> \<not> occurs_at p w j"
  shows "first_occurrence p w = int k"
proof -
  have "k < Suc (length w)" using assms(1) by (simp add: occurs_at_def)
  then have "find (occurs_at p w) [0..<Suc (length w)] = Some k"
    unfolding find_Some_iff using assms by (intro exI [of _ k]) (auto simp del: upt_Suc)
  then show ?thesis by (simp add: first_occurrence_def del: upt_Suc)
qed

lemma first_occurrence_none: "(\<And>j. \<not> occurs_at p w j) \<Longrightarrow> first_occurrence p w = -1"
  by (simp add: first_occurrence_def find_None_iff [THEN iffD2] del: upt_Suc)

lemma occurs_ends:
  assumes "e \<le> length w"
  shows "suffix p (take e w) \<longleftrightarrow> length p \<le> e \<and> occurs_at p w (e - length p)"
proof
  assume s: "suffix p (take e w)"
  then have l: "length p \<le> e" using suffix_length_le [OF s] by simp
  from s have "p = drop (length (take e w) - length p) (take e w)" by (metis suffix_def suffix_take append_eq_conv_conj diff_diff_cancel suffix_length_le length_append add_diff_cancel_right')
  then have "p = drop (e - length p) (take e w)" using assms by simp
  then have "p = take (length p) (drop (e - length p) w)" using l by (simp add: drop_take)
  then show "length p \<le> e \<and> occurs_at p w (e - length p)" using l assms by (simp add: occurs_at_def)
next
  assume o: "length p \<le> e \<and> occurs_at p w (e - length p)"
  then have "take e w = take (e - length p) w @ p"
    by (metis le_add_diff_inverse2 occurs_at_def take_add)
  then show "suffix p (take e w)" by (simp add: suffix_def)
qed

definition seen :: "byte list \<Rightarrow> byte list \<Rightarrow> nat \<Rightarrow> nat \<Rightarrow> bool" where
  "seen p w i j \<longleftrightarrow> i < length p \<and> j \<le> length w \<and> i \<le> j \<and> ends p i (take j w) \<and>
     (\<forall>k \<le> length p. ends p k (take j w) \<longrightarrow> k \<le> j \<longrightarrow> k \<le> i) \<and> (\<forall>e \<le> j. \<not> suffix p (take e w))"

text \<open>One character: fall back, then advance.\<close>

lemma seen_step:
  assumes sn: "seen p w i j" and j: "j < length w" and r: "-1 \<le> r" "r \<le> int i"
    "0 \<le> r \<longrightarrow> p ! nat r = w ! j \<and> ends p (nat r) (take i p)"
    "\<forall>k. r < int k \<and> k \<le> i \<and> ends p k (take i p) \<longrightarrow> p ! k \<noteq> w ! j"
  shows "ends p (nat (r + 1)) (take (Suc j) w)"
    and "\<And>k. k \<le> length p \<Longrightarrow> ends p k (take (Suc j) w) \<Longrightarrow> k \<le> nat (r + 1)"
proof -
  have i: "i < length p" "ends p i (take j w)" "i \<le> j"
      "\<And>k. k \<le> length p \<Longrightarrow> ends p k (take j w) \<Longrightarrow> k \<le> j \<Longrightarrow> k \<le> i"
    using sn by (auto simp: seen_def)
  show "ends p (nat (r + 1)) (take (Suc j) w)"
  proof (cases "r = -1")
    case False
    then have "0 \<le> r" "nat (r + 1) = Suc (nat r)" using r(1) by auto
    moreover have "ends p (nat r) (take j w)" using r(2,3) i(2) \<open>0 \<le> r\<close> by (auto intro: ends_trans)
    ultimately show ?thesis using r(2,3) i(1) j by (simp add: ends_Suc)
  qed simp
  fix k assume k: "k \<le> length p" "ends p k (take (Suc j) w)"
  show "k \<le> nat (r + 1)"
  proof (cases k)
    case (Suc l)
    with k j have s: "p ! l = w ! j" "ends p l (take j w)" by (auto simp: ends_Suc)
    have "l \<le> j" using suffix_length_le [OF s(2)] k(1) Suc j by simp
    with s(2) i(4) k(1) Suc have "l \<le> i" by simp
    then have "ends p l (take i p)" using ends_nest [OF s(2) i(2)] i(1) by simp
    then have "\<not> r < int l" using r(4) s(1) \<open>l \<le> i\<close> by blast
    then show ?thesis using Suc by simp
  qed simp
qed

lemma find_loops_stop:
  assumes "\<not> (j < length w \<and> length w - j + i \<ge> length p)" and "i < length p" and "j \<le> length w"
    and "length w < 2 ^ 31" "length p < 2 ^ 31"
  shows "find_loop w (int (length w)) p (int (length p)) tab (int i) (int j) = Some (-1)"
    and "findR_loop (rev w) (rev p) (int (length p)) tab' (flip (length p) (int i)) (flip (length w) (int j)) = Some (-1)"
proof -
  have "as_int (int (length w)) = int (length w)" using assms(4) by (simp add: as_int_def signed_take_bit_int_eq_self)
  moreover have "as_size (int (length w) - int j + int i) = int (length w) - int j + int i"
    using assms(2-5) by (simp add: as_size_def)
  ultimately show "find_loop w (int (length w)) p (int (length p)) tab (int i) (int j) = Some (-1)"
    using assms(1,3) by (subst find_loop.simps) auto
  show "findR_loop (rev w) (rev p) (int (length p)) tab' (flip (length p) (int i)) (flip (length w) (int j)) = Some (-1)"
    using assms(1,3) by (subst findR_loop.simps) (auto simp: flip_def)
qed

lemma find_loops_step:
  assumes go: "j < length w \<and> length w - j + i \<ge> length p" and i: "i < length p"
    and len: "length w < 2 ^ 31" "length p < 2 ^ 31" "length tab = length p + 1"
    and fb: "fall_back p w (int j) tab (int i) = Some (int k - 1)" and k: "k \<le> length p"
  shows "find_loop w (int (length w)) p (int (length p)) tab (int i) (int j) =
      (if k = length p then Some (int (Suc j) - int k)
       else find_loop w (int (length w)) p (int (length p)) tab (int k) (int (Suc j)))"
    and "findR_loop (rev w) (rev p) (int (length p)) (flip_table (length p) tab) (flip (length p) (int i)) (flip (length w) (int j)) =
      (if k = length p then Some (flip (length w) (int j))
       else findR_loop (rev w) (rev p) (int (length p)) (flip_table (length p) tab) (flip (length p) (int k)) (flip (length w) (int (Suc j))))"
proof -
  have cast: "as_int (int (length w)) = int (length w)" "as_int (int (length p)) = int (length p)"
    using len by (auto simp: as_int_def signed_take_bit_int_eq_self)
  have sz: "as_size (int (length w) - int j + int i) = int (length w) - int j + int i"
    using go i len by (simp add: as_size_def)
  have go': "int j < int (length w) \<and> int (length p) \<le> int (length w) - int j + int i" using go by linarith
  have sj: "int (Suc j) = int j + 1" by simp
  show "find_loop w (int (length w)) p (int (length p)) tab (int i) (int j) =
      (if k = length p then Some (int (Suc j) - int k)
       else find_loop w (int (length w)) p (int (length p)) tab (int k) (int (Suc j)))"
    using k by (subst find_loop.simps) (use go' in \<open>simp add: cast sz fb sj del: of_nat_Suc\<close>)
  have fbR: "fall_backR (rev p) (int (length p)) (rev w) (flip (length w) (int j)) (flip_table (length p) tab) (flip (length p) (int i)) =
      Some (flip (length p) (int k - 1))"
    using fall_back_flip [OF fb] len by simp
  have f: "flip (length w) (int j) \<ge> 0" "flip (length p) (int i) \<le> flip (length w) (int j)"
      "flip (length p) (int k - 1) = flip (length p) (int k) + 1" "flip (length p) (int k) < 0 \<longleftrightarrow> k = length p"
      "flip (length w) (int (Suc j)) = flip (length w) (int j) - 1"
    using go' k by (auto simp: flip_def)
  show "findR_loop (rev w) (rev p) (int (length p)) (flip_table (length p) tab) (flip (length p) (int i)) (flip (length w) (int j)) =
      (if k = length p then Some (flip (length w) (int j))
       else findR_loop (rev w) (rev p) (int (length p)) (flip_table (length p) tab) (flip (length p) (int k)) (flip (length w) (int (Suc j))))"
    by (subst findR_loop.simps) (cases "k = length p"; use f in \<open>simp add: cast fbR del: of_nat_Suc\<close>)
qed

text \<open>The place of an occurrence, counted from the right.\<close>

definition from_right :: "byte list \<Rightarrow> byte list \<Rightarrow> int \<Rightarrow> int" where
  "from_right p w x = (if x = -1 then -1 else int (length w) - int (length p) - x)"

lemma find_loop_ok:
  assumes g: "\<And>k. k \<le> length p \<Longrightarrow> good_entry p tab k"
    and len: "length w < 2 ^ 31" "length p < 2 ^ 31" "length tab = length p + 1"
  shows "seen p w i j \<Longrightarrow>
    find_loop w (int (length w)) p (int (length p)) tab (int i) (int j) = Some (first_occurrence p w) \<and>
    findR_loop (rev w) (rev p) (int (length p)) (flip_table (length p) tab) (flip (length p) (int i)) (flip (length w) (int j)) =
      Some (from_right p w (first_occurrence p w))"
proof (induction "length w - j" arbitrary: i j rule: less_induct)
  case less
  have sn: "i < length p" "j \<le> length w" "i \<le> j" "ends p i (take j w)" "\<And>e. e \<le> j \<Longrightarrow> \<not> suffix p (take e w)"
      "\<And>k. k \<le> length p \<Longrightarrow> ends p k (take j w) \<Longrightarrow> k \<le> j \<Longrightarrow> k \<le> i"
    using less.prems by (auto simp: seen_def)
  show ?case
  proof (cases "j < length w \<and> length w - j + i \<ge> length p")
    case False
    note stop = find_loops_stop [OF False sn(1,2) len(1,2)]
    have "\<not> occurs_at p w k" for k
    proof
      assume o: "occurs_at p w k"
      define e where "e = k + length p"
      have e: "e \<le> length w" "suffix p (take e w)" using o by (auto simp: e_def occurs_at_def occurs_ends)
      have "j < e" using sn(5) e(2) by (meson not_le_imp_less)
      moreover have "e - j \<le> length p" using False e(1) \<open>j < e\<close> sn(1) by auto
      ultimately have "ends p (length p - (e - j)) (take j w)" using ends_before [OF e(2)] e(1) by simp
      then have "length p - (e - j) \<le> i" using sn(6) suffix_length_le sn(2) by fastforce
      then show False using False e(1) \<open>j < e\<close> \<open>e - j \<le> length p\<close> sn(1) by auto
    qed
    then show ?thesis by (simp add: stop first_occurrence_none from_right_def)
  next
    case True
    have "\<exists>r. fall_back p w (int j) tab (int i) = Some r \<and> -1 \<le> r \<and> r \<le> int i \<and>
        (0 \<le> r \<longrightarrow> p ! nat r = w ! j \<and> ends p (nat r) (take (nat (int i)) p)) \<and>
        (\<forall>k. r < int k \<and> int k \<le> int i \<and> ends p k (take (nat (int i)) p) \<longrightarrow> p ! k \<noteq> w ! j)"
      using True sn(1) g by (intro fall_back_ok [of "length p"]) auto
    then obtain r where r: "fall_back p w (int j) tab (int i) = Some r" "-1 \<le> r" "r \<le> int i"
        "0 \<le> r \<longrightarrow> p ! nat r = w ! j \<and> ends p (nat r) (take i p)"
        "\<forall>k. r < int k \<and> k \<le> i \<and> ends p k (take i p) \<longrightarrow> p ! k \<noteq> w ! j"
      by auto
    define k where "k = nat (r + 1)"
    have k: "r = int k - 1" "k \<le> Suc i" using r(2,3) by (auto simp: k_def)
    have j: "j < length w" using True by simp
    note ss = seen_step [OF less.prems j r(2-5)]
    have e1: "ends p k (take (Suc j) w)" using ss(1) by (simp add: k_def)
    have "k \<le> length p" using k(2) sn(1) by simp
    note step = find_loops_step [OF True sn(1) len r(1) [unfolded k(1)] this]
    show ?thesis
    proof (cases "k = length p")
      case True
      then have s: "suffix p (take (Suc j) w)" using e1 by simp
      then have l: "length p \<le> Suc j" using j by (simp add: occurs_ends)
      have "first_occurrence p w = int (Suc j - length p)"
      proof (rule first_occurrenceI)
        show "occurs_at p w (Suc j - length p)" using s j by (simp add: occurs_ends)
        fix x assume x: "x < Suc j - length p"
        then have "\<not> suffix p (take (x + length p) w)" by (intro sn(5)) simp
        then show "\<not> occurs_at p w x" using x j by (simp add: occurs_ends)
      qed
      then show ?thesis using step True l by (auto simp: of_nat_diff from_right_def flip_def)
    next
      case False
      have "\<not> suffix p (take e w)" if "e \<le> Suc j" for e
      proof (cases "e = Suc j")
        case True
        then show ?thesis using ss(2) [of "length p"] False \<open>k \<le> length p\<close> by (auto simp: k_def)
      next
        case False
        with that show ?thesis by (intro sn(5)) simp
      qed
      then have "seen p w k (Suc j)"
        using False e1 ss(2) k(2) sn(1,3) j by (auto simp: seen_def k_def)
      then show ?thesis using less.hyps [of "Suc j" k] step False j by simp
    qed
  qed
qed

lemma last_occurrenceI:
  assumes "occurs_at p w k" and "\<And>j. k < j \<Longrightarrow> \<not> occurs_at p w j"
  shows "last_occurrence p w = int k"
proof -
  have k: "k < Suc (length w)" using assms(1) by (simp add: occurs_at_def)
  have "find (occurs_at p w) (rev [0..<Suc (length w)]) = Some k"
    unfolding find_Some_iff using assms k
    by (intro exI [of _ "length w - k"]) (auto simp: rev_nth simp del: upt_Suc)
  then show ?thesis by (simp add: last_occurrence_def del: upt_Suc)
qed

lemma last_occurrence_none: "(\<And>j. \<not> occurs_at p w j) \<Longrightarrow> last_occurrence p w = -1"
  by (simp add: last_occurrence_def find_None_iff [THEN iffD2] del: upt_Suc)

lemma occurs_at_rev:
  "occurs_at (rev p) (rev w) k \<longleftrightarrow> k + length p \<le> length w \<and> occurs_at p w (length w - length p - k)"
proof (cases "k + length p \<le> length w")
  case True
  define k' where "k' = length w - length p - k"
  have w: "take (length p) (drop k (rev w)) = rev (take (length p) (drop k' w))"
    using True by (intro nth_equalityI) (auto simp: k'_def rev_nth intro!: arg_cong [where f = "\<lambda>i. w ! i"])
  show ?thesis using True by (simp add: occurs_at_def w flip: k'_def) (simp add: k'_def)
qed (simp add: occurs_at_def)

lemma last_occurrence_rev:
  "last_occurrence (rev p) (rev w) = from_right p w (first_occurrence p w)"
proof (cases "\<exists>k. occurs_at p w k")
  case False
  then show ?thesis by (simp add: last_occurrence_none first_occurrence_none occurs_at_rev from_right_def)
next
  case True
  define k where "k = (LEAST k. occurs_at p w k)"
  have k: "occurs_at p w k" "\<And>j. j < k \<Longrightarrow> \<not> occurs_at p w j"
    using True by (auto simp: k_def intro: LeastI dest: not_less_Least)
  then have l: "k + length p \<le> length w" by (simp add: occurs_at_def)
  have "last_occurrence (rev p) (rev w) = int (length w - length p - k)"
  proof (rule last_occurrenceI)
    show "occurs_at (rev p) (rev w) (length w - length p - k)" using k(1) l by (simp add: occurs_at_rev)
    fix j assume j: "length w - length p - k < j"
    show "\<not> occurs_at (rev p) (rev w) j"
    proof
      assume "occurs_at (rev p) (rev w) j"
      then have o: "j + length p \<le> length w" "occurs_at p w (length w - length p - j)" by (auto simp: occurs_at_rev)
      have "length w - length p - j < k" using o(1) j l by arith
      then show False using k(2) o(2) by blast
    qed
  qed
  then show ?thesis using first_occurrenceI [OF k] l by (simp add: from_right_def of_nat_diff)
qed

text \<open>Both searches, with the tables their functions build.\<close>

lemma find_multi_ok:
  assumes len: "length w < 2 ^ 31" "length p < 2 ^ 31" and p: "p \<noteq> []" and t: "length tab = length p + 1"
  shows "\<exists>tab'. utstring_BuildTable p (int (length p)) tab = Some tab' \<and>
      utstring_find_multi w (int (length w)) p (int (length p)) tab' = Some (first_occurrence p w)"
    and "\<exists>tab'. utstring_BuildTableR p (int (length p)) tab = Some tab' \<and>
      utstring_findR_multi w (int (length w)) p (int (length p)) tab' = Some (last_occurrence p w)"
proof -
  obtain tab' where b: "utstring_BuildTable p (int (length p)) tab = Some tab'" "length tab' = length p + 1"
      "\<And>k. k \<le> length p \<Longrightarrow> good_entry p tab' k"
    using build_table_ok [OF t] by blast
  have "seen p w 0 0" using p by (auto simp: seen_def)
  from find_loop_ok [OF b(3) len b(2) this] b(1)
  show "\<exists>tab'. utstring_BuildTable p (int (length p)) tab = Some tab' \<and>
      utstring_find_multi w (int (length w)) p (int (length p)) tab' = Some (first_occurrence p w)"
    by (simp add: utstring_find_multi_def)
  define q where "q = rev p"
  define u where "u = flip_table (length p) tab"
  have inv: "flip_table (length q) u = tab"
    by (simp add: u_def q_def flip_table_def flip_def rev_map o_def)
  have lu: "length u = length q + 1" using t by (simp add: u_def q_def flip_table_def)
  obtain tabr where br: "utstring_BuildTable q (int (length q)) u = Some tabr" "length tabr = length q + 1"
      "\<And>k. k \<le> length q \<Longrightarrow> good_entry q tabr k"
    using build_table_ok [OF lu] by blast
  have "utstring_BuildTableR (rev q) (int (length q)) (flip_table (length q) u) = Some (flip_table (length q) tabr)"
    by (rule build_table_flip [OF br(1) refl lu])
  moreover have "seen q (rev w) 0 0" using p by (auto simp: seen_def q_def)
  moreover have "last_occurrence p w = from_right q (rev w) (first_occurrence q (rev w))"
    using last_occurrence_rev [of q "rev w"] p by (simp add: q_def)
  ultimately show "\<exists>tab'. utstring_BuildTableR p (int (length p)) tab = Some tab' \<and>
      utstring_findR_multi w (int (length w)) p (int (length p)) tab' = Some (last_occurrence p w)"
    using find_loop_ok [OF br(3) _ _ br(2), of "rev w" 0 0] len
    by (simp add: inv) (simp add: q_def utstring_findR_multi_def flip_def)
qed

end
