(* ===== verification/Ut_String.thy ===== *)
theory Ut_String
  imports Ut_Search
begin

text \<open>
  The dynamic strings of src/src/common/ut/utstring.h.  A string is its block (\<^verbatim>\<open>d\<close>, \<open>None\<close> for null), the
  allocated size \<^verbatim>\<open>n\<close> and the index \<^verbatim>\<open>i\<close> of the first unused byte.  \<open>ok\<close> is whether the allocator succeeds (when
  it does not the macro \<^verbatim>\<open>oom\<close> exits with -1), \<open>junk\<close> is what fresh memory holds.  An access outside the
  block is \<open>Abort\<close>.  Releasing the memory (\<^verbatim>\<open>utstring_done\<close>, \<^verbatim>\<open>utstring_free\<close>) is not modelled.
\<close>

section \<open>Representation and operations\<close>

record UT_string =
  str_d :: "byte list option"
  str_n :: nat
  str_i :: nat

definition size_sub :: "nat \<Rightarrow> nat \<Rightarrow> nat" where
  "size_sub a b = (a + 2 ^ 64 - b) mod 2 ^ 64"

definition size_add :: "nat \<Rightarrow> nat \<Rightarrow> nat" where
  "size_add a b = (a + b) mod 2 ^ 64"

text \<open>\<^verbatim>\<open>realloc\<close>: the old contents, as far as they fit, then \<open>junk\<close>.\<close>

definition resized :: "(nat \<Rightarrow> byte) \<Rightarrow> byte list option \<Rightarrow> nat \<Rightarrow> byte list" where
  "resized junk d n = (let old = take n (case d of None \<Rightarrow> [] | Some bs \<Rightarrow> bs) in old @ map junk [length old..<n])"

definition utstring_reserve :: "bool \<Rightarrow> (nat \<Rightarrow> byte) \<Rightarrow> nat \<Rightarrow> UT_string \<Rightarrow> UT_string outcome" where
  "utstring_reserve ok junk amt s =
     (if size_sub (str_n s) (str_i s) < amt then
        (if ok then
           Return (s\<lparr>str_d := Some (resized junk (str_d s) (size_add (str_n s) amt)), str_n := size_add (str_n s) amt\<rparr>)
         else Exit (-1))
      else Return s)"

text \<open>Copying bytes into the block.\<close>

definition put_bytes :: "nat \<Rightarrow> byte list \<Rightarrow> UT_string \<Rightarrow> UT_string outcome" where
  "put_bytes k xs s =
     (case str_d s of
        None \<Rightarrow> Abort
      | Some bs \<Rightarrow> if k + length xs \<le> length bs then Return (s\<lparr>str_d := Some (write_block k xs bs)\<rparr>) else Abort)"

definition utstring_init :: "bool \<Rightarrow> (nat \<Rightarrow> byte) \<Rightarrow> UT_string outcome" where
  "utstring_init ok junk =
     (case utstring_reserve ok junk 100 \<lparr>str_d = None, str_n = 0, str_i = 0\<rparr> of
        Return s \<Rightarrow> put_bytes 0 [0] s
      | r \<Rightarrow> r)"

text \<open>\<open>ok1\<close>: the allocation of the structure.\<close>

definition utstring_new :: "bool \<Rightarrow> bool \<Rightarrow> (nat \<Rightarrow> byte) \<Rightarrow> UT_string outcome" where
  "utstring_new ok1 ok junk = (if ok1 then utstring_init ok junk else Exit (-1))"

definition utstring_clear :: "UT_string \<Rightarrow> UT_string outcome" where
  "utstring_clear s = put_bytes 0 [0] (s\<lparr>str_i := 0\<rparr>)"

definition utstring_renew :: "bool \<Rightarrow> bool \<Rightarrow> (nat \<Rightarrow> byte) \<Rightarrow> UT_string option \<Rightarrow> UT_string outcome" where
  "utstring_renew ok1 ok junk s = (case s of Some t \<Rightarrow> utstring_clear t | None \<Rightarrow> utstring_new ok1 ok junk)"

text \<open>The end of \<^verbatim>\<open>utstring_bincpy\<close> and \<^verbatim>\<open>utstring_concat\<close>: copy \<open>b\<close> if it is not empty, advance, terminate.\<close>

definition append_bytes :: "byte list \<Rightarrow> UT_string \<Rightarrow> UT_string outcome" where
  "append_bytes b s =
     (case (if b \<noteq> [] then put_bytes (str_i s) b s else Return s) of
        Return s1 \<Rightarrow> (let s2 = s1\<lparr>str_i := size_add (str_i s1) (length b)\<rparr> in put_bytes (str_i s2) [0] s2)
      | r \<Rightarrow> r)"

definition utstring_bincpy :: "bool \<Rightarrow> (nat \<Rightarrow> byte) \<Rightarrow> byte list \<Rightarrow> UT_string \<Rightarrow> UT_string outcome" where
  "utstring_bincpy ok junk b s =
     (case utstring_reserve ok junk (length b + 1) s of
        Return s1 \<Rightarrow> append_bytes b s1
      | r \<Rightarrow> r)"

definition utstring_concat :: "bool \<Rightarrow> (nat \<Rightarrow> byte) \<Rightarrow> UT_string \<Rightarrow> UT_string \<Rightarrow> UT_string outcome" where
  "utstring_concat ok junk src dst =
     (case utstring_reserve ok junk (str_i src + 1) dst of
        Return s1 \<Rightarrow>
          (case str_d src of
             None \<Rightarrow> if str_i src = 0 then append_bytes [] s1 else Abort
           | Some bs \<Rightarrow> if str_i src \<le> length bs then append_bytes (take (str_i src) bs) s1 else Abort)
      | r \<Rightarrow> r)"

definition utstring_len :: "UT_string \<Rightarrow> nat" where
  "utstring_len s = str_i s mod 2 ^ 32"

definition utstring_body :: "UT_string \<Rightarrow> byte list option" where
  "utstring_body s = str_d s"

text \<open>
  \<open>vsn\<close> is \<^verbatim>\<open>vsnprintf\<close> for the format and the arguments: from the room it is given, its result and the
  bytes it writes.
\<close>

partial_function (option) utstring_printf_va ::
    "bool \<Rightarrow> (nat \<Rightarrow> byte) \<Rightarrow> (nat \<Rightarrow> int \<times> byte list) \<Rightarrow> UT_string \<Rightarrow> UT_string outcome option" where
  "utstring_printf_va ok junk vsn s =
     (let room = size_sub (str_n s) (str_i s); n = fst (vsn room)
      in case put_bytes (str_i s) (snd (vsn room)) s of
           Return s1 \<Rightarrow>
             if n > -1 \<and> n < as_int (int room) then Some (Return (s1\<lparr>str_i := size_add (str_i s1) (nat n)\<rparr>))
             else
               (case (if n > -1 then utstring_reserve ok junk (nat (n + 1)) s1
                      else utstring_reserve ok junk (str_n s1 * 2 mod 2 ^ 64) s1) of
                  Return s2 \<Rightarrow> utstring_printf_va ok junk vsn s2
                | r \<Rightarrow> Some r)
         | r \<Rightarrow> Some r)"

text \<open>\<^verbatim>\<open>vsnprintf\<close> of C99 for an output: as much as fits, terminated, and the whole length.\<close>

definition C_vsnprintf :: "byte list \<Rightarrow> nat \<Rightarrow> int \<times> byte list" where
  "C_vsnprintf out room = (int (length out), if room = 0 then [] else take (room - 1) out @ [0])"

text \<open>
  The one-time searches; \<open>tab\<close> is the table's fresh memory, \<open>None\<close> when it cannot be had.  A haystack that
  starts before the block is out of bounds.
\<close>

definition start_position :: "UT_string \<Rightarrow> int \<Rightarrow> int" where
  "start_position s p = (if p < 0 then int (str_i s) + p else p)"

definition utstring_find :: "int list option \<Rightarrow> UT_string \<Rightarrow> int \<Rightarrow> byte list \<Rightarrow> int \<Rightarrow> int option" where
  "utstring_find tab s p needle nlen =
     (let start = start_position s p; hlen = int (str_i s) - start
      in if hlen \<ge> nlen \<and> nlen > 0 then
           (case tab of
              None \<Rightarrow> Some (-1)
            | Some t \<Rightarrow>
                (case str_d s of
                   None \<Rightarrow> None
                 | Some bs \<Rightarrow>
                     if start < 0 then None
                     else Option.bind (utstring_BuildTable needle nlen t) (\<lambda>t'.
                       map_option (\<lambda>x. if x \<ge> 0 then x + start else x)
                         (utstring_find_multi (drop (nat start) bs) hlen needle nlen t'))))
         else Some (-1))"

definition utstring_findR :: "int list option \<Rightarrow> UT_string \<Rightarrow> int \<Rightarrow> byte list \<Rightarrow> int \<Rightarrow> int option" where
  "utstring_findR tab s p needle nlen =
     (let start = start_position s p; hlen = start + 1
      in if hlen \<ge> nlen \<and> nlen > 0 then
           (case tab of
              None \<Rightarrow> Some (-1)
            | Some t \<Rightarrow>
                (case str_d s of
                   None \<Rightarrow> None
                 | Some bs \<Rightarrow>
                     Option.bind (utstring_BuildTableR needle nlen t) (\<lambda>t'. utstring_findR_multi bs hlen needle nlen t')))
         else Some (-1))"

section \<open>A string holds its text\<close>

text \<open>The text, its terminator, and a block of less than \<open>N\<close> bytes around them.\<close>

definition holds_text :: "nat \<Rightarrow> UT_string \<Rightarrow> byte list \<Rightarrow> bool" where
  "holds_text N s bs \<longleftrightarrow>
     (\<exists>blk. str_d s = Some blk \<and> length blk = str_n s \<and> str_i s = length bs \<and> str_i s < str_n s \<and> str_n s < N \<and>
        take (length bs) blk = bs \<and> blk ! length bs = 0)"

text \<open>Between the two steps of an operation: room for \<open>amt\<close> more bytes, and no terminator.\<close>

definition has_room :: "nat \<Rightarrow> nat \<Rightarrow> UT_string \<Rightarrow> byte list \<Rightarrow> bool" where
  "has_room N amt s bs \<longleftrightarrow>
     (\<exists>blk. str_d s = Some blk \<and> length blk = str_n s \<and> str_i s = length bs \<and> str_i s + amt \<le> str_n s \<and> str_n s < N \<and>
        take (length bs) blk = bs)"

lemma size_sub_eq: "b \<le> a \<Longrightarrow> a < 2 ^ 64 \<Longrightarrow> size_sub a b = a - b"
  by (simp add: size_sub_def mod_if)

lemma size_add_eq: "a + b < 2 ^ 64 \<Longrightarrow> size_add a b = a + b"
  by (simp add: size_add_def)

lemma holds_room: "holds_text N s bs \<Longrightarrow> has_room N 0 s bs"
  by (auto simp: holds_text_def has_room_def)

lemma take_resized: "length blk \<le> n \<Longrightarrow> k \<le> length blk \<Longrightarrow> take k (resized junk (Some blk) n) = take k blk"
  by (simp add: resized_def Let_def)

lemma length_resized [simp]: "length (resized junk d n) = n"
  by (simp add: resized_def Let_def)

lemma reserve_ok:
  assumes "has_room N 0 s bs" and "N + amt \<le> 2 ^ 63"
  shows "\<exists>s'. utstring_reserve True junk amt s = Return s' \<and> has_room (N + amt) amt s' bs"
proof -
  from assms obtain blk where b: "str_d s = Some blk" "length blk = str_n s" "str_i s = length bs"
      "str_i s \<le> str_n s" "str_n s < N" "take (length bs) blk = bs"
    by (auto simp: has_room_def)
  have "size_sub (str_n s) (str_i s) = str_n s - str_i s" "size_add (str_n s) amt = str_n s + amt"
    using b assms(2) by (auto intro: size_sub_eq size_add_eq)
  then show ?thesis using b take_resized [of blk "str_n s + amt" "length bs" junk]
    by (auto simp: utstring_reserve_def has_room_def)
qed

lemma put_terminator:
  assumes "has_room N 1 s bs"
  shows "\<exists>s'. put_bytes (length bs) [0] s = Return s' \<and> holds_text N s' bs"
  using assms by (auto simp: has_room_def holds_text_def put_bytes_def write_block_def nth_append)

lemma append_bytes_ok:
  assumes r: "has_room N (length b + 1) s bs" and n: "N \<le> 2 ^ 63"
  shows "\<exists>s'. append_bytes b s = Return s' \<and> holds_text N s' (bs @ b)"
proof -
  from r obtain blk where b: "str_d s = Some blk" "length blk = str_n s" "str_i s = length bs"
      "str_i s + length b + 1 \<le> str_n s" "str_n s < N" "take (length bs) blk = bs"
    by (auto simp: has_room_def)
  define s2 where "s2 = s\<lparr>str_d := Some (write_block (length bs) b blk), str_i := length bs + length b\<rparr>"
  have "size_add (length bs) (length b) = length bs + length b" using b n by (intro size_add_eq) simp
  then have "append_bytes b s = put_bytes (length bs + length b) [0] s2"
    using b by (auto simp: append_bytes_def put_bytes_def s2_def Let_def write_block_def)
  moreover have "has_room N 1 s2 (bs @ b)" using b by (auto simp: has_room_def s2_def write_block_def)
  ultimately show ?thesis using put_terminator [of N s2 "bs @ b"] by simp
qed

lemma utstring_init_ok: "\<exists>s. utstring_init True junk = Return s \<and> holds_text 101 s []"
  by (simp add: utstring_init_def utstring_reserve_def put_bytes_def holds_text_def size_sub_def size_add_def write_block_def)

lemma utstring_clear_ok:
  assumes "holds_text N s bs"
  shows "\<exists>s'. utstring_clear s = Return s' \<and> holds_text N s' []"
proof -
  have "has_room N 1 (s\<lparr>str_i := 0\<rparr>) []" using assms by (auto simp: holds_text_def has_room_def)
  from put_terminator [OF this] show ?thesis by (simp add: utstring_clear_def)
qed

lemma utstring_bincpy_ok:
  assumes "holds_text N s bs" and n: "N + length b + 1 \<le> 2 ^ 63"
  shows "\<exists>s'. utstring_bincpy True junk b s = Return s' \<and> holds_text (N + length b + 1) s' (bs @ b)"
proof -
  from reserve_ok [OF holds_room [OF assms(1)], of "length b + 1" junk] n obtain s1 where
    s1: "utstring_reserve True junk (length b + 1) s = Return s1" "has_room (N + (length b + 1)) (length b + 1) s1 bs" by auto
  from append_bytes_ok [OF s1(2)] n s1(1) show ?thesis by (simp add: utstring_bincpy_def)
qed

lemma utstring_concat_ok:
  assumes "holds_text N s bs" and t: "holds_text M t b" and n: "N + length b + 1 \<le> 2 ^ 63"
  shows "\<exists>s'. utstring_concat True junk t s = Return s' \<and> holds_text (N + length b + 1) s' (bs @ b)"
proof -
  from t obtain blk where tb: "str_d t = Some blk" "str_i t = length b" "length b \<le> length blk" "take (length b) blk = b"
    by (auto simp: holds_text_def)
  from reserve_ok [OF holds_room [OF assms(1)], of "length b + 1" junk] n obtain s1 where
    s1: "utstring_reserve True junk (length b + 1) s = Return s1" "has_room (N + (length b + 1)) (length b + 1) s1 bs" by auto
  from append_bytes_ok [OF s1(2)] n s1(1) tb show ?thesis by (simp add: utstring_concat_def)
qed

text \<open>Printing: at most one retry.\<close>

lemma printf_fits:
  assumes r: "has_room N (length out + 1) s bs" and n: "N \<le> 2 ^ 31"
  shows "\<exists>s'. utstring_printf_va ok junk (C_vsnprintf out) s = Some (Return s') \<and> holds_text N s' (bs @ out)"
proof -
  from r obtain blk where b: "str_d s = Some blk" "length blk = str_n s" "str_i s = length bs"
      "str_i s + length out + 1 \<le> str_n s" "str_n s < N" "take (length bs) blk = bs"
    by (auto simp: has_room_def)
  define room where "room = str_n s - str_i s"
  have rm: "size_sub (str_n s) (str_i s) = room" "length out < room" "room < 2 ^ 31"
    using b n by (auto simp: room_def intro: size_sub_eq)
  have c: "C_vsnprintf out room = (int (length out), out @ [0])" "as_int (int room) = int room"
    using rm by (auto simp: C_vsnprintf_def as_int_def signed_take_bit_int_eq_self)
  define s1 where "s1 = s\<lparr>str_d := Some (write_block (length bs) (out @ [0]) blk)\<rparr>"
  have p: "put_bytes (str_i s) (out @ [0]) s = Return s1" using b by (auto simp: put_bytes_def s1_def)
  have "size_add (str_i s1) (length out) = length bs + length out"
    using b n by (auto simp: s1_def intro: size_add_eq)
  then have "utstring_printf_va ok junk (C_vsnprintf out) s = Some (Return (s1\<lparr>str_i := length bs + length out\<rparr>))"
    using rm c p by (subst utstring_printf_va.simps) (simp add: Let_def)
  moreover have "holds_text N (s1\<lparr>str_i := length bs + length out\<rparr>) (bs @ out)"
    using b by (auto simp: holds_text_def s1_def write_block_def nth_append)
  ultimately show ?thesis by simp
qed

lemma printf_retries:
  assumes r: "has_room N 0 s bs" and n: "N \<le> 2 ^ 31" and long: "str_n s \<le> str_i s + length out"
  shows "\<exists>s1. has_room N 0 s1 bs \<and> utstring_printf_va ok junk (C_vsnprintf out) s =
    (case utstring_reserve ok junk (length out + 1) s1 of
       Return s2 \<Rightarrow> utstring_printf_va ok junk (C_vsnprintf out) s2 | x \<Rightarrow> Some x)"
proof -
  from r obtain blk where b: "str_d s = Some blk" "length blk = str_n s" "str_i s = length bs"
      "str_i s \<le> str_n s" "str_n s < N" "take (length bs) blk = bs"
    by (auto simp: has_room_def)
  define room where "room = str_n s - str_i s"
  define xs where "xs = snd (C_vsnprintf out room)"
  have rm: "size_sub (str_n s) (str_i s) = room" "\<not> length out < room" "room < 2 ^ 31"
    using b n long by (auto simp: room_def intro: size_sub_eq)
  have x: "length xs \<le> room" "fst (C_vsnprintf out room) = int (length out)" "as_int (int room) = int room"
    using rm by (auto simp: xs_def C_vsnprintf_def as_int_def signed_take_bit_int_eq_self)
  define s1 where "s1 = s\<lparr>str_d := Some (write_block (length bs) xs blk)\<rparr>"
  have p: "put_bytes (str_i s) xs s = Return s1" using b x(1) by (auto simp: put_bytes_def s1_def room_def)
  have "nat (1 + int (length out)) = Suc (length out)" by simp
  then have "utstring_printf_va ok junk (C_vsnprintf out) s =
    (case utstring_reserve ok junk (length out + 1) s1 of
       Return s2 \<Rightarrow> utstring_printf_va ok junk (C_vsnprintf out) s2 | y \<Rightarrow> Some y)"
    using rm x p by (subst utstring_printf_va.simps) (simp add: Let_def add.commute flip: xs_def)
  moreover have "has_room N 0 s1 bs"
    using b x(1) by (auto simp: has_room_def s1_def write_block_def room_def)
  ultimately show ?thesis by blast
qed

lemma utstring_printf_ok:
  assumes h: "holds_text N s bs" and n: "N + length out + 1 \<le> 2 ^ 31"
  shows "\<exists>s'. utstring_printf_va True junk (C_vsnprintf out) s = Some (Return s') \<and>
    holds_text (N + length out + 1) s' (bs @ out)"
proof (cases "length out < str_n s - str_i s")
  case True
  then have "has_room (N + length out + 1) (length out + 1) s bs" using h by (auto simp: holds_text_def has_room_def)
  from printf_fits [OF this n] show ?thesis by simp
next
  case False
  then have "str_n s \<le> str_i s + length out" by linarith
  moreover have "N \<le> 2 ^ 31" using n by linarith
  ultimately obtain s1 where s1: "has_room N 0 s1 bs" "utstring_printf_va True junk (C_vsnprintf out) s =
      (case utstring_reserve True junk (length out + 1) s1 of
         Return s2 \<Rightarrow> utstring_printf_va True junk (C_vsnprintf out) s2 | x \<Rightarrow> Some x)"
    using printf_retries [OF holds_room [OF h], of out True junk] by blast
  from reserve_ok [OF s1(1), of "length out + 1" junk] n obtain s2 where
      "utstring_reserve True junk (length out + 1) s1 = Return s2" "has_room (N + (length out + 1)) (length out + 1) s2 bs"
    by auto
  with printf_fits [OF this(2)] n s1(2) show ?thesis by simp
qed

section \<open>Sequences of operations\<close>

datatype string_op = Bincpy "byte list" | Concat UT_string | Printf "byte list" | Clear | Renew

fun string_step :: "(nat \<Rightarrow> byte) \<Rightarrow> string_op \<Rightarrow> UT_string \<Rightarrow> UT_string outcome option" where
  "string_step junk (Bincpy b) s = Some (utstring_bincpy True junk b s)"
| "string_step junk (Concat t) s = Some (utstring_concat True junk t s)"
| "string_step junk (Printf out) s = utstring_printf_va True junk (C_vsnprintf out) s"
| "string_step junk Clear s = Some (utstring_clear s)"
| "string_step junk Renew s = Some (utstring_renew True True junk (Some s))"

fun string_run :: "(nat \<Rightarrow> byte) \<Rightarrow> string_op list \<Rightarrow> UT_string \<Rightarrow> UT_string outcome option" where
  "string_run junk [] s = Some (Return s)"
| "string_run junk (x # xs) s =
     (case string_step junk x s of Some (Return s') \<Rightarrow> string_run junk xs s' | r \<Rightarrow> r)"

text \<open>What an operation appends; the text after it; the strings it concatenates are strings.\<close>

definition text_of :: "UT_string \<Rightarrow> byte list" where
  "text_of t = (case str_d t of None \<Rightarrow> [] | Some bs \<Rightarrow> take (str_i t) bs)"

fun op_text :: "string_op \<Rightarrow> byte list \<Rightarrow> byte list" where
  "op_text (Bincpy b) bs = bs @ b"
| "op_text (Concat t) bs = bs @ text_of t"
| "op_text (Printf out) bs = bs @ out"
| "op_text Clear bs = []"
| "op_text Renew bs = []"

fun op_cost :: "string_op \<Rightarrow> nat" where
  "op_cost (Bincpy b) = length b + 1"
| "op_cost (Concat t) = length (text_of t) + 1"
| "op_cost (Printf out) = length out + 1"
| "op_cost Clear = 0"
| "op_cost Renew = 0"

fun op_valid :: "string_op \<Rightarrow> bool" where
  "op_valid (Concat t) = holds_text (2 ^ 31) t (text_of t)"
| "op_valid x = True"

lemma holds_text_mono: "holds_text N s bs \<Longrightarrow> N \<le> M \<Longrightarrow> holds_text M s bs"
  by (auto simp: holds_text_def)

lemma string_step_ok:
  assumes "holds_text N s bs" and "N + op_cost x \<le> 2 ^ 31" and "op_valid x"
  shows "\<exists>s'. string_step junk x s = Some (Return s') \<and> holds_text (N + op_cost x) s' (op_text x bs)"
proof (cases x)
  case (Bincpy b)
  with utstring_bincpy_ok [OF assms(1), of b junk] assms(2) show ?thesis by simp
next
  case (Concat t)
  with utstring_concat_ok [OF assms(1), of "2 ^ 31" t "text_of t" junk] assms(2,3) show ?thesis by simp
next
  case (Printf out)
  with utstring_printf_ok [OF assms(1), of out junk] assms(2) show ?thesis by simp
qed (use utstring_clear_ok [OF assms(1)] in \<open>simp_all add: utstring_renew_def\<close>)

lemma string_run_ok:
  "holds_text N s bs \<Longrightarrow> N + sum_list (map op_cost xs) \<le> 2 ^ 31 \<Longrightarrow> list_all op_valid xs \<Longrightarrow>
   \<exists>s'. string_run junk xs s = Some (Return s') \<and> holds_text (2 ^ 31) s' (fold op_text xs bs)"
proof (induction xs arbitrary: N s bs)
  case Nil
  then show ?case by (auto intro: holds_text_mono)
next
  case (Cons x xs)
  then obtain s' where "string_step junk x s = Some (Return s')" "holds_text (N + op_cost x) s' (op_text x bs)"
    using string_step_ok [of N s bs x junk] by auto
  with Cons.IH [of "N + op_cost x" s' "op_text x bs"] Cons.prems show ?case by simp
qed

section \<open>Searching\<close>

text \<open>What lies behind the haystack does not matter.\<close>

lemma rd_more: "rd xs i = Some a \<Longrightarrow> rd (xs @ ys) i = Some a"
  by (auto simp: rd_def nth_append split: if_splits)

lemma fall_back_more:
  assumes "fall_back p w pos tab i = Some r"
  shows "fall_back p (w @ v) pos tab i = Some r"
  using assms
proof (induction rule: fall_back.raw_induct [rotated -1, consumes 1, case_names round])
  case (round fb p w pos tab i r)
  then show ?case
    by (subst fall_back.simps) (auto simp: bind_eq_Some_conv rd_more split: if_splits)
qed

lemma fall_backR_more:
  assumes "fall_backR p b w pos tab i = Some r"
  shows "fall_backR p b (w @ v) pos tab i = Some r"
  using assms
proof (induction rule: fall_backR.raw_induct [rotated -1, consumes 1, case_names round])
  case (round fb p b w pos tab i r)
  then show ?case
    by (subst fall_backR.simps) (auto simp: bind_eq_Some_conv rd_more split: if_splits)
qed

lemma find_loop_more:
  assumes "find_loop w hlen p nlen tab i j = Some r"
  shows "find_loop (w @ v) hlen p nlen tab i j = Some r"
  using assms
proof (induction rule: find_loop.raw_induct [rotated -1, consumes 1, case_names round])
  case (round fl w hlen p nlen tab i j r)
  then show ?case
    by (subst find_loop.simps) (auto simp: bind_eq_Some_conv fall_back_more split: if_splits)
qed

lemma findR_loop_more:
  assumes "findR_loop w p nlen tab i j = Some r"
  shows "findR_loop (w @ v) p nlen tab i j = Some r"
  using assms
proof (induction rule: findR_loop.raw_induct [rotated -1, consumes 1, case_names round])
  case (round fl w p nlen tab i j r)
  then show ?case
    by (subst findR_loop.simps) (auto simp: bind_eq_Some_conv fall_backR_more split: if_splits)
qed

lemma occurrence_short:
  assumes "length w < length p"
  shows "first_occurrence p w = -1" and "last_occurrence p w = -1"
  using assms by (auto intro!: first_occurrence_none last_occurrence_none simp: occurs_at_def)

lemma first_occurrence_range: "-1 \<le> first_occurrence p w"
  by (simp add: first_occurrence_def split: option.splits)

lemma utstring_find_ok:
  assumes h: "holds_text (2 ^ 31) s bs" and p: "p \<noteq> []" "length p < 2 ^ 31" and t: "length tab = length p + 1"
    and k: "- int (length bs) \<le> k"
  shows "utstring_find (Some tab) s k p (int (length p)) =
    Some (let start = start_position s k; x = first_occurrence p (drop (nat start) bs) in if x \<ge> 0 then x + start else -1)"
proof -
  obtain blk where b: "str_d s = Some blk" "str_i s = length bs" "length bs < 2 ^ 31" "take (length bs) blk = bs" "length bs \<le> length blk"
    using h by (auto simp: holds_text_def)
  define start where "start = start_position s k"
  have st: "0 \<le> start" using k b by (auto simp: start_def start_position_def)
  define w where "w = drop (nat start) bs"
  show ?thesis
  proof (cases "int (length bs) - start \<ge> int (length p)")
    case False
    then have "length w < length p" using st p(1) by (cases p) (auto simp: w_def)
    then show ?thesis using False b by (simp add: utstring_find_def Let_def occurrence_short flip: start_def w_def)
  next
    case True
    have lw: "int (length bs) - start = int (length w)" "length w < 2 ^ 31"
      using True st b(3) p(1) by (auto simp: w_def)
    have split: "drop (nat start) blk = w @ drop (length bs) blk"
    proof -
      have "nat start \<le> length bs" using True by auto
      then show ?thesis using b(4,5)
        by (metis append_take_drop_id drop_append drop_eq_Nil2 drop_take length_take min.absorb2 diff_is_0_eq drop0 append_Nil w_def)
    qed
    from find_multi_ok(1) [OF lw(2) p(2,1) t] obtain tab' where t': "utstring_BuildTable p (int (length p)) tab = Some tab'"
        "utstring_find_multi w (int (length w)) p (int (length p)) tab' = Some (first_occurrence p w)" by blast
    have "utstring_find_multi (drop (nat start) blk) (int (length w)) p (int (length p)) tab' = Some (first_occurrence p w)"
      using t'(2) find_loop_more by (simp add: utstring_find_multi_def split)
    then show ?thesis using True p(1) st b t'(1) lw(1) first_occurrence_range [of p w]
      by (simp add: utstring_find_def Let_def flip: start_def w_def)
  qed
qed

lemma utstring_findR_ok:
  assumes h: "holds_text (2 ^ 31) s bs" and p: "p \<noteq> []" "length p < 2 ^ 31" and t: "length tab = length p + 1"
    and k: "k < int (length bs)"
  shows "utstring_findR (Some tab) s k p (int (length p)) = Some (last_occurrence p (take (nat (start_position s k + 1)) bs))"
proof -
  obtain blk where b: "str_d s = Some blk" "str_i s = length bs" "length bs < 2 ^ 31" "take (length bs) blk = bs" "length bs \<le> length blk"
    using h by (auto simp: holds_text_def)
  define start where "start = start_position s k"
  have st: "start < int (length bs)" using k b by (auto simp: start_def start_position_def)
  define w where "w = take (nat (start + 1)) bs"
  show ?thesis
  proof (cases "start + 1 \<ge> int (length p)")
    case False
    then have "length w < length p" using st p(1) by (cases p) (auto simp: w_def)
    then show ?thesis using False b by (simp add: utstring_findR_def Let_def occurrence_short flip: start_def w_def)
  next
    case True
    have lw: "start + 1 = int (length w)" "length w < 2 ^ 31"
      using True st b(3) p(1) by (auto simp: w_def)
    have "blk = bs @ drop (length bs) blk" using b(4) by (metis append_take_drop_id)
    then have split: "blk = w @ (drop (nat (start + 1)) bs @ drop (length bs) blk)"
      unfolding w_def by (metis append.assoc append_take_drop_id)
    have wt: "take (length w) bs = w" using lw(1) by (metis nat_int w_def)
    from find_multi_ok(2) [OF lw(2) p(2,1) t] obtain tab' where t': "utstring_BuildTableR p (int (length p)) tab = Some tab'"
        "utstring_findR_multi w (int (length w)) p (int (length p)) tab' = Some (last_occurrence p w)" by blast
    have "utstring_findR_multi blk (int (length w)) p (int (length p)) tab' = Some (last_occurrence p w)"
      by (subst split) (use t'(2) findR_loop_more in \<open>simp add: utstring_findR_multi_def\<close>)
    then show ?thesis using True p(1) st b t'(1) lw(1) wt
      by (simp add: utstring_findR_def Let_def flip: start_def w_def)
  qed
qed

section \<open>What the strings promise\<close>

text \<open>
  C27: A dynamic string holds the text its operations built.  Starting from \<^verbatim>\<open>utstring_new\<close>, with memory
  available and the text below 2 GB, every sequence of copies, concatenations, prints and clears returns
  (printing after at most one retry), without an access outside the block, and leaves a terminated block
  that holds the text of the sequence; \<^verbatim>\<open>utstring_len\<close> is its length.
\<close>

theorem strings_hold_their_text:
  assumes "list_all op_valid ops" and "101 + sum_list (map op_cost ops) \<le> 2 ^ 31"
  shows "\<exists>s0 s. utstring_new True True junk = Return s0 \<and> string_run junk ops s0 = Some (Return s) \<and>
    holds_text (2 ^ 31) s (fold op_text ops []) \<and> utstring_len s = length (fold op_text ops [])"
proof -
  obtain s0 where s0: "utstring_new True True junk = Return s0" "holds_text 101 s0 []"
    using utstring_init_ok by (auto simp: utstring_new_def)
  from string_run_ok [OF s0(2) assms(2,1)] obtain s where
      s: "string_run junk ops s0 = Some (Return s)" "holds_text (2 ^ 31) s (fold op_text ops [])" by blast
  then have "utstring_len s = length (fold op_text ops [])"
    by (auto simp: utstring_len_def holds_text_def)
  with s0 s show ?thesis by blast
qed

lemma strings_hold_their_text_witness:
  "\<exists>s0 s. utstring_new True True (\<lambda>_. 255) = Return s0 \<and>
     string_run (\<lambda>_. 255) [Bincpy [104, 105], Printf [33], Bincpy [], Clear, Bincpy [97]] s0 = Some (Return s) \<and>
     utstring_len s = 1"
  using strings_hold_their_text [of "[Bincpy [104, 105], Printf [33], Bincpy [], Clear, Bincpy [97]]" "\<lambda>_. 255"] by auto

text \<open>
  C26: The searches find the needle.  In a string that holds a text, for a needle that is not empty,
  \<^verbatim>\<open>utstring_find\<close> from any position not before the text gives the first place at or behind that position
  where the needle occurs, and \<^verbatim>\<open>utstring_findR\<close> from any position inside the text the last place where it
  occurs within the text up to and including that position, -1 meaning nowhere; the table and the two
  loops terminate and stay within their arrays.
\<close>

theorem searches_find_occurrences:
  assumes "holds_text (2 ^ 31) s bs" and "p \<noteq> []" and "length p < 2 ^ 31" and "length tab = length p + 1"
  shows "(- int (length bs) \<le> k \<longrightarrow>
      utstring_find (Some tab) s k p (int (length p)) =
        Some (let start = start_position s k; x = first_occurrence p (drop (nat start) bs) in if x \<ge> 0 then x + start else -1)) \<and>
    (k < int (length bs) \<longrightarrow>
      utstring_findR (Some tab) s k p (int (length p)) = Some (last_occurrence p (take (nat (start_position s k + 1)) bs)))"
  using utstring_find_ok [OF assms] utstring_findR_ok [OF assms] by blast

definition abcab :: UT_string where
  "abcab = \<lparr>str_d = Some [97, 98, 99, 97, 98, 0, 98, 99], str_n = 8, str_i = 5\<rparr>"

lemma searches_find_occurrences_witness:
  "utstring_find (Some [0, 0, 0]) abcab 1 [97, 98] 2 = Some 3 \<and>
   utstring_findR (Some [0, 0, 0]) abcab (-2) [97, 98] 2 = Some 0"
proof -
  have h: "holds_text (2 ^ 31) abcab [97, 98, 99, 97, 98]" by (simp add: holds_text_def abcab_def)
  have "first_occurrence [97, 98] [98, 99, 97, 98] = 2" "last_occurrence [97, 98] [97, 98, 99, 97] = 0"
    by (simp_all add: first_occurrence_def last_occurrence_def occurs_at_def upt_rec)
  then show ?thesis
    using searches_find_occurrences [OF h, of "[97, 98]" "[0, 0, 0]" 1]
      searches_find_occurrences [OF h, of "[97, 98]" "[0, 0, 0]" "-2"]
    by (simp add: start_position_def abcab_def)
qed

text \<open>
  A position further back than the text is long starts the search in front of the block, and a position
  behind the text lets \<^verbatim>\<open>utstring_findR\<close> find what is not part of it.
\<close>

lemma find_before_start: "utstring_find (Some [0, 0]) abcab (-6) [97] 1 = None"
  by (simp add: utstring_find_def start_position_def abcab_def)

lemma findR_behind_text: "utstring_findR (Some [0, 0, 0]) abcab 7 [98, 99] 2 = Some 6"
proof -
  have "last_occurrence [98, 99] [97, 98, 99, 97, 98, 0, 98, 99 :: byte] = 6"
    by (simp add: last_occurrence_def occurs_at_def upt_rec)
  with find_multi_ok(2) [of "[97, 98, 99, 97, 98, 0, 98, 99]" "[98, 99]" "[0, 0, 0]"] show ?thesis
    by (auto simp: utstring_findR_def start_position_def abcab_def)
qed

end
