(* ===== verification/Halloc.thy ===== *)
theory Halloc
  imports Tdb_Prelude
begin

text \<open>
  The hierarchical allocator, src/src/common/halloc/src/halloc.c and hlist.h.  Every block has a header with
  its place in the list of its parent's children and the list of its own children; releasing a block
  releases its descendants.  A list item points back to the cell that points to it: the \<^verbatim>\<open>next\<close> of the
  previous item or the head in the parent.  The blocks that are allocated are known to the model, so that an
  access to any other is seen: an operation is \<open>None\<close> when it reads or writes the header of a block that is
  not allocated, and \<open>Abort\<close> when an assertion fails.  The shared sentinel \<^verbatim>\<open>hlist_null\<close> is \<open>None\<close>; what is
  stored in its back pointer is never read.
\<close>

section \<open>Blocks\<close>

datatype 'p cell = Next_of 'p | Kids_of 'p

record 'p hheap =
  h_live :: "'p set"
  h_magic :: "'p \<Rightarrow> bool"
  h_next :: "'p \<Rightarrow> 'p option"
  h_prev :: "'p \<Rightarrow> 'p cell"
  h_kids :: "'p \<Rightarrow> 'p option"
  h_data :: "'p \<Rightarrow> byte list"

type_synonym 'a result = "'a outcome option"

definition sizeof_hblock :: nat where
  "sizeof_hblock = 32"

section \<open>Lists of siblings\<close>

fun store_cell :: "'p cell \<Rightarrow> 'p option \<Rightarrow> 'p hheap \<Rightarrow> 'p hheap option" where
  "store_cell (Next_of p) v h = (if p \<in> h_live h then Some (h\<lparr>h_next := (h_next h)(p := v)\<rparr>) else None)"
| "store_cell (Kids_of p) v h = (if p \<in> h_live h then Some (h\<lparr>h_kids := (h_kids h)(p := v)\<rparr>) else None)"

definition store_prev :: "'p option \<Rightarrow> 'p cell \<Rightarrow> 'p hheap \<Rightarrow> 'p hheap option" where
  "store_prev i c h =
     (case i of
        None \<Rightarrow> Some h
      | Some p \<Rightarrow> if p \<in> h_live h then Some (h\<lparr>h_prev := (h_prev h)(p := c)\<rparr>) else None)"

definition hlist_init :: "'p \<Rightarrow> 'p hheap \<Rightarrow> 'p hheap" where
  "hlist_init p h = h\<lparr>h_kids := (h_kids h)(p := None)\<rparr>"

definition hlist_init_item :: "'p \<Rightarrow> 'p hheap \<Rightarrow> 'p hheap" where
  "hlist_init_item b h = h\<lparr>h_prev := (h_prev h)(b := Next_of b), h_next := (h_next h)(b := None)\<rparr>"

definition hlist_add :: "'p \<Rightarrow> 'p \<Rightarrow> 'p hheap \<Rightarrow> 'p hheap option" where
  "hlist_add p b h =
     (let nx = h_kids h p; h1 = h\<lparr>h_next := (h_next h)(b := nx)\<rparr>
      in map_option
           (\<lambda>h2. h2\<lparr>h_kids := (h_kids h2)(p := Some b), h_prev := (h_prev h2)(b := Kids_of p)\<rparr>)
           (store_prev nx (Next_of b) h1))"

definition hlist_del :: "'p \<Rightarrow> 'p hheap \<Rightarrow> 'p hheap option" where
  "hlist_del b h =
     (let nx = h_next h b
      in Option.bind (store_prev nx (h_prev h b) h) (\<lambda>h1.
           map_option (hlist_init_item b) (store_cell (h_prev h1 b) nx h1)))"

definition hlist_relink :: "'p \<Rightarrow> 'p hheap \<Rightarrow> 'p hheap option" where
  "hlist_relink b h =
     Option.bind (store_cell (h_prev h b) (Some b) h) (\<lambda>h1. store_prev (h_next h1 b) (Next_of b) h1)"

definition hlist_relink_head :: "'p \<Rightarrow> 'p hheap \<Rightarrow> 'p hheap option" where
  "hlist_relink_head p h = store_prev (h_kids h p) (Kids_of p) h"

section \<open>Operations\<close>

text \<open>
  \<^verbatim>\<open>_set_allocator\<close>: whether \<^verbatim>\<open>malloc(1)\<close> succeeds and whether \<^verbatim>\<open>realloc(p, 0)\<close> then gives null.
\<close>

datatype allocator = Plain_realloc | Freeing_realloc

definition set_allocator :: "bool \<Rightarrow> bool \<Rightarrow> allocator" where
  "set_allocator malloc_ok realloc_null =
     (if \<not> malloc_ok then Plain_realloc else if realloc_null then Plain_realloc else Freeing_realloc)"

text \<open>
  \<^verbatim>\<open>_relate\<close> as one loop: is \<open>b\<close> among the items from \<open>i\<close> on, or below one of them?
\<close>

partial_function (option) relate_from :: "'p hheap \<Rightarrow> 'p \<Rightarrow> 'p option \<Rightarrow> bool option" where
  "relate_from h b i =
     (case i of
        None \<Rightarrow> Some False
      | Some q \<Rightarrow>
          if q \<notin> h_live h then None
          else if q = b then Some True
          else Option.bind (relate_from h b (h_kids h q)) (\<lambda>r.
                 if r then Some True else relate_from h b (h_next h q)))"

definition hrelate :: "'p hheap \<Rightarrow> 'p \<Rightarrow> 'p \<Rightarrow> bool option" where
  "hrelate h b p = relate_from h b (h_kids h p)"

definition hattach :: "'p option \<Rightarrow> 'p option \<Rightarrow> 'p hheap \<Rightarrow> 'p hheap result" where
  "hattach block parent h =
     (case block of
        None \<Rightarrow> Some (if parent = None then Return h else Abort)
      | Some b \<Rightarrow>
          if b \<notin> h_live h then None
          else if \<not> h_magic h b then Some Abort
          else Option.bind (hlist_del b h) (\<lambda>h1.
            case parent of
              None \<Rightarrow> Some (Return h1)
            | Some p \<Rightarrow>
                if p \<notin> h_live h1 then None
                else if \<not> h_magic h1 p then Some Abort
                else if b = p then Some Abort
                else Option.bind (hrelate h1 p b) (\<lambda>r.
                  if r then Some Abort else map_option Return (hlist_add p b h1))))"

text \<open>Releasing a list of siblings with all that is below them.\<close>

definition release :: "'p \<Rightarrow> 'p hheap \<Rightarrow> 'p hheap" where
  "release q h = h\<lparr>h_live := h_live h - {q}\<rparr>"

partial_function (option) free_list :: "'p hheap \<Rightarrow> 'p option \<Rightarrow> 'p hheap outcome option" where
  "free_list h i =
     (case i of
        None \<Rightarrow> Some (Return h)
      | Some q \<Rightarrow>
          if q \<notin> h_live h then None
          else if \<not> h_magic h q then Some Abort
          else Option.bind (free_list (h\<lparr>h_magic := (h_magic h)(q := False)\<rparr>) (h_kids h q)) (\<lambda>r.
                 case r of
                   Return h1 \<Rightarrow> if q \<notin> h_live h1 then None else free_list (release q h1) (h_next h q)
                 | x \<Rightarrow> Some x))"

definition free_children :: "'p \<Rightarrow> 'p hheap \<Rightarrow> 'p hheap result" where
  "free_children p h =
     (if \<not> h_magic h p then Some Abort
      else free_list (h\<lparr>h_magic := (h_magic h)(p := False)\<rparr>) (h_kids h p))"

text \<open>
  The allocator: from the size asked for, the address and what fresh memory holds, or null.  A request
  whose size wraps to less than a header leaves no room for it.
\<close>

type_synonym 'p alloc = "nat \<Rightarrow> ('p \<times> (nat \<Rightarrow> byte)) option"

definition block_size :: "nat \<Rightarrow> nat" where
  "block_size len = (len + sizeof_hblock) mod 2 ^ 64"

definition halloc_new :: "'p alloc \<Rightarrow> nat \<Rightarrow> 'p hheap \<Rightarrow> ('p option \<times> 'p hheap) result" where
  "halloc_new alloc len h =
     (if len = 0 then Some (Return (None, h))
      else
        case alloc (block_size len) of
          None \<Rightarrow> Some (Return (None, h))
        | Some (q, junk) \<Rightarrow>
            if block_size len < sizeof_hblock then None
            else Some (Return (Some q, hlist_init_item q (hlist_init q
                   (h\<lparr>h_live := insert q (h_live h), h_magic := (h_magic h)(q := True),
                      h_data := (h_data h)(q := map junk [0..<block_size len - sizeof_hblock])\<rparr>)))))"

text \<open>Moving a block from \<open>p\<close> to \<open>q\<close> copies the header and as much of the data as fits.\<close>

definition move_block :: "'p \<Rightarrow> 'p \<Rightarrow> byte list \<Rightarrow> 'p hheap \<Rightarrow> 'p hheap" where
  "move_block p q bs h =
     h\<lparr>h_live := insert q (h_live h - {p}), h_magic := (h_magic h)(q := h_magic h p),
       h_next := (h_next h)(q := h_next h p), h_prev := (h_prev h)(q := h_prev h p),
       h_kids := (h_kids h)(q := h_kids h p), h_data := (h_data h)(q := bs)\<rparr>"

definition halloc_move :: "'p alloc \<Rightarrow> 'p \<Rightarrow> nat \<Rightarrow> 'p hheap \<Rightarrow> ('p option \<times> 'p hheap) result" where
  "halloc_move alloc p len h =
     (case alloc (block_size len) of
        None \<Rightarrow> Some (Return (None, h))
      | Some (q, junk) \<Rightarrow>
          if block_size len < sizeof_hblock then None
          else
            let n = block_size len - sizeof_hblock; old = take n (h_data h p);
                h1 = move_block p q (old @ map junk [length old..<n]) h
            in Option.bind (hlist_relink q h1) (\<lambda>h2.
                 map_option (\<lambda>h3. Return (Some q, h3)) (hlist_relink_head q h2)))"

definition halloc_free :: "'p \<Rightarrow> 'p hheap \<Rightarrow> ('p option \<times> 'p hheap) result" where
  "halloc_free p h =
     (case free_children p h of
        Some (Return h1) \<Rightarrow> map_option (\<lambda>h2. Return (None, release p h2)) (hlist_del p h1)
      | None \<Rightarrow> None
      | Some Abort \<Rightarrow> Some Abort
      | Some (Exit v) \<Rightarrow> Some (Exit v))"

definition halloc :: "'p alloc \<Rightarrow> 'p option \<Rightarrow> nat \<Rightarrow> 'p hheap \<Rightarrow> ('p option \<times> 'p hheap) result" where
  "halloc alloc ptr len h =
     (case ptr of
        None \<Rightarrow> halloc_new alloc len h
      | Some p \<Rightarrow>
          if p \<notin> h_live h then None
          else if \<not> h_magic h p then Some Abort
          else if len \<noteq> 0 then halloc_move alloc p len h
          else halloc_free p h)"

definition h_malloc :: "'p alloc \<Rightarrow> nat \<Rightarrow> 'p hheap \<Rightarrow> ('p option \<times> 'p hheap) result" where
  "h_malloc alloc len h = halloc alloc None len h"

definition h_realloc :: "'p alloc \<Rightarrow> 'p option \<Rightarrow> nat \<Rightarrow> 'p hheap \<Rightarrow> ('p option \<times> 'p hheap) result" where
  "h_realloc alloc ptr len h = halloc alloc ptr len h"

definition h_free :: "'p alloc \<Rightarrow> 'p option \<Rightarrow> 'p hheap \<Rightarrow> ('p option \<times> 'p hheap) result" where
  "h_free alloc ptr h = halloc alloc ptr 0 h"

text \<open>Filling a block from its start; past its end is out of bounds.\<close>

definition fill_block :: "byte list \<Rightarrow> ('p option \<times> 'p hheap) result \<Rightarrow> ('p option \<times> 'p hheap) result" where
  "fill_block bs r =
     (case r of
        Some (Return (Some q, h)) \<Rightarrow>
          if length bs \<le> length (h_data h q)
          then Some (Return (Some q, h\<lparr>h_data := (h_data h)(q := write_block 0 bs (h_data h q))\<rparr>)) else None
      | _ \<Rightarrow> r)"

definition h_calloc :: "'p alloc \<Rightarrow> nat \<Rightarrow> nat \<Rightarrow> 'p hheap \<Rightarrow> ('p option \<times> 'p hheap) result" where
  "h_calloc alloc n len h =
     (let total = (len * n) mod 2 ^ 64 in fill_block (replicate total 0) (halloc alloc None total h))"

definition h_strdup :: "'p alloc \<Rightarrow> byte list \<Rightarrow> 'p hheap \<Rightarrow> ('p option \<times> 'p hheap) result" where
  "h_strdup alloc str h = fill_block (cstr str @ [0]) (halloc alloc None (length (cstr str) + 1) h)"

section \<open>The hierarchy the headers stand for\<close>

text \<open>The items \<open>xs\<close>, entered through the cell \<open>c\<close> and left towards \<open>e\<close>.\<close>

fun hseg :: "'p hheap \<Rightarrow> 'p cell \<Rightarrow> 'p list \<Rightarrow> 'p option \<Rightarrow> bool" where
  "hseg h c [] e = True"
| "hseg h c (x # xs) e = (h_prev h x = c \<and> h_next h x = first_or xs e \<and> hseg h (Next_of x) xs e)"

definition cell_after :: "'p cell \<Rightarrow> 'p list \<Rightarrow> 'p cell" where
  "cell_after c xs = (case last_or None xs of None \<Rightarrow> c | Some x \<Rightarrow> Next_of x)"

lemma cell_after_simps [simp]:
  "cell_after c [] = c" "cell_after c (xs @ [x]) = Next_of x"
  by (simp_all add: cell_after_def link_simps)

lemma cell_after_Cons [simp]: "cell_after c (x # xs) = cell_after (Next_of x) xs"
  by (cases xs rule: rev_cases) (simp_all add: cell_after_def link_simps)

lemma hseg_append [link_simps]:
  "hseg h c (xs @ ys) e \<longleftrightarrow> hseg h c xs (first_or ys e) \<and> hseg h (cell_after c xs) ys e"
  by (induction xs arbitrary: c) (auto simp: link_simps)

lemma hseg_cong:
  "(\<And>x. x \<in> set xs \<Longrightarrow> h_next h' x = h_next h x) \<Longrightarrow> (\<And>x. x \<in> set xs \<Longrightarrow> h_prev h' x = h_prev h x) \<Longrightarrow>
   hseg h' c xs e = hseg h c xs e"
  by (induction xs arbitrary: c) auto

definition child :: "('p \<Rightarrow> 'p list) \<Rightarrow> ('p \<times> 'p) set" where
  "child C = {(p, q). q \<in> set (C p)}"

definition descendants :: "('p \<Rightarrow> 'p list) \<Rightarrow> 'p \<Rightarrow> 'p set" where
  "descendants C p = {q. (p, q) \<in> (child C)\<^sup>*}"

text \<open>
  \<open>C\<close> gives the children of every block, first to last: they are allocated, a block is a child at most once
  and never below itself, and a block without a parent is linked to itself (resizing it also makes it its own
  successor).
\<close>

definition hierarchy :: "'p hheap \<Rightarrow> ('p \<Rightarrow> 'p list) \<Rightarrow> bool" where
  "hierarchy h C \<longleftrightarrow>
     finite (h_live h) \<and> (\<forall>p \<in> h_live h. h_magic h p \<and> h_kids h p = first_or (C p) None \<and> hseg h (Kids_of p) (C p) None) \<and>
     (\<forall>p. set (C p) \<subseteq> h_live h \<and> distinct (C p)) \<and> (\<forall>p. p \<notin> h_live h \<longrightarrow> C p = []) \<and>
     (\<forall>p q. p \<noteq> q \<longrightarrow> set (C p) \<inter> set (C q) = {}) \<and>
     (\<forall>r \<in> h_live h. (\<forall>p. r \<notin> set (C p)) \<longrightarrow> h_prev h r = Next_of r \<and> h_next h r \<in> {None, Some r}) \<and>
     acyclic (child C)"

lemma hierarchyD:
  assumes "hierarchy h C"
  shows "finite (h_live h)" "p \<in> h_live h \<Longrightarrow> h_magic h p" "p \<in> h_live h \<Longrightarrow> h_kids h p = first_or (C p) None"
    "p \<in> h_live h \<Longrightarrow> hseg h (Kids_of p) (C p) None" "set (C p) \<subseteq> h_live h" "distinct (C p)"
    "p \<notin> h_live h \<Longrightarrow> C p = []" "p \<noteq> q \<Longrightarrow> set (C p) \<inter> set (C q) = {}"
    "r \<in> h_live h \<Longrightarrow> (\<And>p. r \<notin> set (C p)) \<Longrightarrow> h_prev h r = Next_of r \<and> h_next h r \<in> {None, Some r}"
    "acyclic (child C)"
  using assms unfolding hierarchy_def by blast+

text \<open>Detaching: the block leaves the list it is in.\<close>

definition detached :: "'p \<Rightarrow> ('p \<Rightarrow> 'p list) \<Rightarrow> 'p \<Rightarrow> 'p list" where
  "detached b C = (\<lambda>p. remove1 b (C p))"

lemma child_detached: "child (detached b C) \<subseteq> child C"
  by (auto simp: child_def detached_def dest: set_remove1_subset [THEN subsetD])

text \<open>The result of \<^verbatim>\<open>hlist_del\<close>, link by link.\<close>

definition unlinked :: "'p \<Rightarrow> 'p \<Rightarrow> 'p list \<Rightarrow> 'p list \<Rightarrow> 'p hheap \<Rightarrow> 'p hheap" where
  "unlinked p b xs ys h =
     (let pv = (case first_or ys None of None \<Rightarrow> h_prev h | Some n \<Rightarrow> (h_prev h)(n := cell_after (Kids_of p) xs))
      in hlist_init_item b
           (case last_or None xs of
              None \<Rightarrow> h\<lparr>h_prev := pv, h_kids := (h_kids h)(p := first_or ys None)\<rparr>
            | Some l \<Rightarrow> h\<lparr>h_prev := pv, h_next := (h_next h)(l := first_or ys None)\<rparr>))"

lemma hlist_del_child:
  assumes p: "p \<in> h_live h" and seg: "hseg h (Kids_of p) (xs @ b # ys) None"
    and l: "set (xs @ b # ys) \<subseteq> h_live h" "distinct (xs @ b # ys)"
  shows "hlist_del b h = Some (unlinked p b xs ys h)"
proof -
  have b: "h_prev h b = cell_after (Kids_of p) xs" "h_next h b = first_or ys None" using seg by (auto simp: link_simps)
  have "store_prev (first_or ys None) (cell_after (Kids_of p) xs) h =
      Some (h\<lparr>h_prev := (case first_or ys None of None \<Rightarrow> h_prev h | Some n \<Rightarrow> (h_prev h)(n := cell_after (Kids_of p) xs))\<rparr>)"
    using l by (cases ys) (auto simp: store_prev_def)
  moreover have "(case first_or ys None of None \<Rightarrow> h_prev h | Some n \<Rightarrow> (h_prev h)(n := cell_after (Kids_of p) xs)) b = cell_after (Kids_of p) xs"
    using l(2) b by (cases ys) auto
  moreover have "store_cell (cell_after (Kids_of p) xs) (first_or ys None) g =
      Some (case last_or None xs of None \<Rightarrow> g\<lparr>h_kids := (h_kids g)(p := first_or ys None)\<rparr>
        | Some l \<Rightarrow> g\<lparr>h_next := (h_next g)(l := first_or ys None)\<rparr>)" if "h_live g = h_live h" for g
    using l p that by (cases xs rule: rev_cases) (auto simp: cell_after_def link_simps)
  ultimately show ?thesis
    using b by (simp add: hlist_del_def unlinked_def Let_def option.map_comp split: option.split)
qed

lemma hlist_del_self:
  "h_prev h b = Next_of b \<Longrightarrow> h_next h b \<in> {None, Some b} \<Longrightarrow> b \<in> h_live h \<Longrightarrow>
   hlist_del b h = Some (h\<lparr>h_next := (h_next h)(b := None)\<rparr>)"
  by (auto simp: hlist_del_def store_prev_def hlist_init_item_def fun_upd_idem)

lemma unlinked_sel:
  "h_live (unlinked p b xs ys h) = h_live h" "h_magic (unlinked p b xs ys h) = h_magic h" "h_data (unlinked p b xs ys h) = h_data h"
  "h_kids (unlinked p b xs ys h) x = (if x = p \<and> xs = [] then first_or ys None else h_kids h x)"
  "h_next (unlinked p b xs ys h) x =
     (if x = b then None else if last_or None xs = Some x then first_or ys None else h_next h x)"
  "h_prev (unlinked p b xs ys h) x =
     (if x = b then Next_of b else if first_or ys None = Some x then cell_after (Kids_of p) xs else h_prev h x)"
  by (auto simp: unlinked_def Let_def hlist_init_item_def link_simps split: option.splits)

lemma unlinked_seg:
  assumes "hseg h (Kids_of p) (xs @ b # ys) None" and d: "distinct (xs @ b # ys)"
  shows "hseg (unlinked p b xs ys h) (Kids_of p) (xs @ ys) None"
proof -
  define g where "g = unlinked p b xs ys h"
  have s: "hseg h (Kids_of p) xs (Some b)" "hseg h (Next_of b) ys None" using assms by (auto simp: link_simps)
  have "hseg g (Kids_of p) xs (first_or ys None)"
  proof (cases xs rule: rev_cases)
    case (snoc us l)
    have "first_or ys None \<noteq> Some u" if "u \<in> set xs" for u using d that by (cases ys) auto
    then have "hseg g (Kids_of p) us (Some l)"
      using s(1) d snoc by (subst hseg_cong [of _ g h]) (auto simp: g_def unlinked_sel link_simps)
    then show ?thesis using s(1) d snoc by (cases ys) (auto simp: link_simps g_def unlinked_sel)
  qed simp
  moreover have "hseg g (cell_after (Kids_of p) xs) ys None"
  proof (cases ys)
    case (Cons y zs)
    have lz: "last_or None xs \<noteq> Some z" if "z \<in> set ys" for z using d that last_or_in by fastforce
    have "h_prev g y = cell_after (Kids_of p) xs" "h_next g y = h_next h y"
      using lz d Cons by (auto simp: g_def unlinked_sel)
    moreover have "hseg g (Next_of y) zs None = hseg h (Next_of y) zs None"
      using lz d Cons by (intro hseg_cong) (auto simp: g_def unlinked_sel)
    ultimately show ?thesis using s(2) Cons by simp
  qed simp
  ultimately show ?thesis by (simp add: g_def link_simps)
qed


lemma unlinked_other:
  assumes h: "hierarchy h C" and c: "C p = xs @ b # ys" and q: "q \<noteq> p"
  shows "hseg (unlinked p b xs ys h) (Kids_of q) (C q) None = hseg h (Kids_of q) (C q) None"
proof (rule hseg_cong)
  fix x assume x: "x \<in> set (C q)"
  then have "x \<notin> set (xs @ b # ys)" using hierarchyD(8) [OF h q] c by auto
  then have "x \<noteq> b" "last_or None xs \<noteq> Some x" "first_or ys None \<noteq> Some x"
    using last_or_in [of xs x] by (auto elim: first_or_SomeE)
  then show "h_next (unlinked p b xs ys h) x = h_next h x" "h_prev (unlinked p b xs ys h) x = h_prev h x"
    by (simp_all add: unlinked_sel)
qed

lemma hlist_del_ok:
  assumes h: "hierarchy h C" and b: "b \<in> h_live h"
  shows "\<exists>h'. hlist_del b h = Some h' \<and> hierarchy h' (detached b C) \<and> h_live h' = h_live h \<and> h_data h' = h_data h"
proof (cases "\<exists>p. b \<in> set (C p)")
  case False
  note hD = hierarchyD [OF h]
  define g where "g = h\<lparr>h_next := (h_next h)(b := None)\<rparr>"
  have "hlist_del b h = Some g" unfolding g_def by (rule hlist_del_self) (use hD(9) [OF b] False b in auto)
  moreover have "hseg g (Kids_of x) (C x) None = hseg h (Kids_of x) (C x) None" for x
    using False by (intro hseg_cong) (auto simp: g_def)
  then have "hierarchy g C"
    using h unfolding hierarchy_def by (simp add: g_def)
  moreover have "detached b C = C" using False by (auto simp: detached_def remove1_idem)
  ultimately show ?thesis by (simp add: g_def)
next
  case True
  note hD = hierarchyD [OF h]
  from True obtain p where "b \<in> set (C p)" by blast
  then obtain xs ys where c: "C p = xs @ b # ys" by (meson split_list)
  define g where "g = unlinked p b xs ys h"
  have lv: "h_live g = h_live h" "h_magic g = h_magic h" by (simp_all add: g_def unlinked_sel)
  have d: "distinct (xs @ b # ys)" using hD(6) [of p] c by simp
  have Cp: "detached b C p = xs @ ys" using d c by (simp add: detached_def remove1_append)
  have Cq: "detached b C q = C q" if "q \<noteq> p" for q
    using hD(8) [OF that] c by (auto simp: detached_def intro!: remove1_idem)
  have sub: "set (detached b C q) \<subseteq> set (C q)" for q by (simp add: detached_def set_remove1_subset)
  have p: "p \<in> h_live h" using hD(7) [of p] c by auto
  have "h_kids g q = first_or (detached b C q) None \<and> hseg g (Kids_of q) (detached b C q) None" if q: "q \<in> h_live h" for q
  proof (cases "q = p")
    case True
    have "hseg g (Kids_of p) (xs @ ys) None" unfolding g_def by (rule unlinked_seg) (use hD(4) [OF p] c d in auto)
    then show ?thesis using True Cp hD(3) [OF p] c by (cases xs) (auto simp: g_def unlinked_sel)
  next
    case False
    then show ?thesis using unlinked_other [OF h c False] hD(3,4) [OF q] by (simp add: Cq g_def unlinked_sel)
  qed
  moreover have "h_prev g r = Next_of r \<and> h_next g r \<in> {None, Some r}"
    if r: "r \<in> h_live h" "\<And>q. r \<notin> set (detached b C q)" for r
  proof (cases "r = b")
    case False
    have n: "r \<notin> set (C q)" for q
      using r(2) [of q] Cp Cq [of q] False c by (cases "q = p") auto
    then have "r \<notin> set (xs @ ys)" using c by (metis UnCI set_append set_ConsD list.set_intros(2) Un_iff)
    then have "last_or None xs \<noteq> Some r" "first_or ys None \<noteq> Some r" using last_or_in [of xs r] by (auto elim: first_or_SomeE)
    then show ?thesis using hD(9) [OF r(1) n] False by (simp add: g_def unlinked_sel)
  qed (simp add: g_def unlinked_sel)
  moreover have "acyclic (child (detached b C))" using hD(10) child_detached by (rule acyclic_subset)
  moreover have "set (detached b C q) \<subseteq> h_live h" "distinct (detached b C q)" for q
    using sub hD(5,6) [of q] by (auto simp: detached_def)
  moreover have "q \<noteq> r \<Longrightarrow> set (detached b C q) \<inter> set (detached b C r) = {}" for q r
    using sub [of q] sub [of r] hD(8) [of q r] by blast
  moreover have "q \<notin> h_live h \<Longrightarrow> detached b C q = []" for q using hD(7) [of q] by (simp add: detached_def)
  ultimately have "hierarchy g (detached b C)"
    using hD(1,2) lv unfolding hierarchy_def by simp
  moreover have "hlist_del b h = Some g"
    unfolding g_def by (rule hlist_del_child) (use p hD(4) [OF p] hD(5) [of p] d c in auto)
  ultimately show ?thesis by (simp add: g_def unlinked_sel)
qed

section \<open>Attaching\<close>

definition attached :: "'p \<Rightarrow> 'p \<Rightarrow> ('p \<Rightarrow> 'p list) \<Rightarrow> 'p \<Rightarrow> 'p list" where
  "attached b p C = C(p := b # C p)"

lemma child_attached: "child (attached b p C) = insert (p, b) (child C)"
  by (auto simp: child_def attached_def split: if_splits)

lemma hlist_add_ok:
  assumes h: "hierarchy h C" and b: "b \<in> h_live h" "p \<in> h_live h" "\<And>q. b \<notin> set (C q)" "p \<notin> descendants C b"
  shows "\<exists>h'. hlist_add p b h = Some h' \<and> hierarchy h' (attached b p C) \<and> h_live h' = h_live h \<and> h_data h' = h_data h"
proof -
  note hD = hierarchyD [OF h]
  define g where "g = (h\<lparr>h_next := (h_next h)(b := first_or (C p) None),
      h_prev := (case first_or (C p) None of None \<Rightarrow> h_prev h | Some n \<Rightarrow> (h_prev h)(n := Next_of b))(b := Kids_of p),
      h_kids := (h_kids h)(p := Some b)\<rparr>)"
  have a: "hlist_add p b h = Some g"
    using hD(3) [OF b(2)] hD(5) [of p] by (cases "C p") (auto simp: hlist_add_def store_prev_def g_def Let_def)
  have bp: "b \<noteq> p" using b(4) by (auto simp: descendants_def)
  have nb: "b \<notin> set (C q)" for q using b(3) .
  have pv: "h_prev g x = (if x = b then Kids_of p else if first_or (C p) None = Some x then Next_of b else h_prev h x)" for x
    by (auto simp: g_def split: option.split)
  have nx: "h_next g x = (if x = b then first_or (C p) None else h_next h x)" for x by (simp add: g_def)
  have fo: "first_or (C p) None = Some x \<Longrightarrow> x \<in> set (C p)" for x by (auto elim: first_or_SomeE)
  have "hseg g (Kids_of q) (attached b p C q) None \<and> h_kids g q = first_or (attached b p C q) None" if q: "q \<in> h_live h" for q
  proof (cases "q = p")
    case True
    have "hseg g (Next_of b) (C p) None"
    proof (cases "C p")
      case (Cons y ys)
      then have "h_next g y = h_next h y" "h_prev g y = Next_of b" using nb [of p] by (auto simp: nx pv)
      moreover have "hseg g (Next_of y) ys None = hseg h (Next_of y) ys None"
        using hD(6) [of p] nb [of p] Cons by (intro hseg_cong) (auto simp: nx pv)
      ultimately show ?thesis using hD(4) [OF b(2)] Cons by simp
    qed simp
    then show ?thesis using True by (simp add: attached_def nx pv) (simp add: g_def)
  next
    case False
    have "hseg g (Kids_of q) (C q) None"
      using hD(4) [OF q] nb [of q] hD(8) [OF False] fo by (subst hseg_cong [of _ g h]) (auto simp: nx pv)
    then show ?thesis using False hD(3) [OF q] by (simp add: attached_def g_def)
  qed
  moreover have "h_prev g r = Next_of r \<and> h_next g r \<in> {None, Some r}" if r: "r \<in> h_live h" "\<And>q. r \<notin> set (attached b p C q)" for r
  proof -
    have "r \<noteq> b" using r(2) [of p] by (auto simp: attached_def)
    moreover have n: "r \<notin> set (C q)" for q using r(2) [of q] by (auto simp: attached_def split: if_splits)
    moreover have "first_or (C p) None \<noteq> Some r" using n [of p] fo by blast
    ultimately show ?thesis using hD(9) [OF r(1) n] by (simp add: nx pv)
  qed
  moreover have "acyclic (child (attached b p C))"
    using hD(10) b(4) by (simp add: child_attached descendants_def)
  moreover have "set (attached b p C q) \<subseteq> h_live h" "distinct (attached b p C q)" for q
    using hD(5,6) [of q] b(1) nb [of q] by (auto simp: attached_def)
  moreover have "q \<noteq> r \<Longrightarrow> set (attached b p C q) \<inter> set (attached b p C r) = {}" for q r
    using hD(8) [of q r] nb by (auto simp: attached_def)
  moreover have "q \<notin> h_live h \<Longrightarrow> attached b p C q = []" for q using hD(7) [of q] b(2) by (auto simp: attached_def)
  moreover have "h_live g = h_live h" "h_magic g = h_magic h" "h_data g = h_data h" by (simp_all add: g_def)
  ultimately have "hierarchy g (attached b p C)"
    using hD(1,2) unfolding hierarchy_def by simp
  then show ?thesis using a by (simp add: g_def)
qed

section \<open>Searching and releasing what is below a block\<close>

lemma descendants_self [simp]: "p \<in> descendants C p"
  by (simp add: descendants_def)

lemma descendants_unfold: "descendants C q = insert q (\<Union>x \<in> set (C q). descendants C x)"
proof
  show "descendants C q \<subseteq> insert q (\<Union>x \<in> set (C q). descendants C x)"
    unfolding descendants_def child_def by (auto elim: converse_rtranclE)
  show "insert q (\<Union>x \<in> set (C q). descendants C x) \<subseteq> descendants C q"
    unfolding descendants_def child_def by (auto intro: converse_rtrancl_into_rtrancl)
qed

lemma child_wf:
  assumes h: "hierarchy h C"
  shows "wf ((child C)\<inverse>)"
proof (rule finite_acyclic_wf_converse)
  have "child C \<subseteq> h_live h \<times> h_live h" using hierarchyD(5,7) [OF h] by (fastforce simp: child_def)
  then show "finite (child C)" using hierarchyD(1) [OF h] by (auto intro: finite_subset)
  show "acyclic (child C)" using h by (rule hierarchyD(10))
qed

lemma descendants_live: "hierarchy h C \<Longrightarrow> p \<in> h_live h \<Longrightarrow> descendants C p \<subseteq> h_live h"
proof
  fix z assume h: "hierarchy h C" "p \<in> h_live h" and "z \<in> descendants C p"
  then have "(p, z) \<in> (child C)\<^sup>*" by (simp add: descendants_def)
  then show "z \<in> h_live h" using h hierarchyD(5) [OF h(1)] by (induction rule: rtrancl_induct) (auto simp: child_def)
qed

lemma not_below_child:
  assumes h: "hierarchy h C" and x: "x \<in> set (C p)"
  shows "p \<notin> descendants C x"
proof
  assume "p \<in> descendants C x"
  then have "(p, p) \<in> (child C)\<^sup>+"
    using x by (auto simp: descendants_def child_def intro: rtrancl_into_trancl2)
  then show False using hierarchyD(10) [OF h] by (simp add: acyclic_def)
qed

lemma one_parent:
  assumes "hierarchy h C" and "(p, x) \<in> child C" and "(q, x) \<in> child C"
  shows "p = q"
  using hierarchyD(8) [OF assms(1), of p q] assms(2,3) by (auto simp: child_def)

lemma ancestors_comparable:
  assumes h: "hierarchy h C" and y: "(y, z) \<in> (child C)\<^sup>*"
  shows "(x, z) \<in> (child C)\<^sup>* \<Longrightarrow> (x, y) \<in> (child C)\<^sup>* \<or> (y, x) \<in> (child C)\<^sup>*"
  using y
proof (induction rule: rtrancl_induct)
  case base
  then show ?case by simp
next
  case (step w z)
  from step.prems show ?case
  proof (cases rule: rtranclE)
    case base
    then show ?thesis using step.hyps by (auto intro: rtrancl_into_rtrancl)
  next
    case (step v)
    then show ?thesis using step.IH one_parent [OF h, of v z w] \<open>(w, z) \<in> child C\<close> by auto
  qed
qed

lemma siblings_disjoint:
  assumes h: "hierarchy h C" and x: "x \<in> set (C p)" "y \<in> set (C p)" "x \<noteq> y"
  shows "descendants C x \<inter> descendants C y = {}"
proof -
  have up: False if "(x, y) \<in> (child C)\<^sup>*" "x \<in> set (C p)" "y \<in> set (C p)" "x \<noteq> y" for x y
  proof -
    from that(1,4) obtain w where w: "(x, w) \<in> (child C)\<^sup>*" "(w, y) \<in> child C" by (auto elim: rtranclE)
    then have "w = p" using one_parent [OF h w(2), of p] that(3) by (auto simp: child_def)
    then show False using not_below_child [OF h that(2)] w(1) by (simp add: descendants_def)
  qed
  then show ?thesis using ancestors_comparable [OF h] x up [of y x] unfolding descendants_def by blast
qed

lemma relate_from_ok:
  assumes h: "hierarchy h C"
  shows "C p = ys @ xs \<Longrightarrow> relate_from h b (first_or xs None) = Some (\<exists>x \<in> set xs. b \<in> descendants C x)"
proof (induction p arbitrary: xs ys rule: wf_induct_rule [OF child_wf [OF h]])
  case (1 p)
  from "1.prems" show ?case
  proof (induction xs arbitrary: ys)
    case Nil
    then show ?case by (subst relate_from.simps) simp
  next
    case (Cons q xs)
    have p: "p \<in> h_live h" using hierarchyD(7) [OF h, of p] Cons.prems by auto
    have q: "q \<in> h_live h" using hierarchyD(5) [OF h, of p] Cons.prems by auto
    have nx: "h_next h q = first_or xs None" using hierarchyD(4) [OF h p] Cons.prems by (auto simp: link_simps)
    have below: "relate_from h b (h_kids h q) = Some (\<exists>x \<in> set (C q). b \<in> descendants C x)"
      using "1.IH" [of q "[]" "C q"] Cons.prems hierarchyD(3) [OF h q] by (simp add: child_def)
    have "relate_from h b (first_or xs None) = Some (\<exists>x \<in> set xs. b \<in> descendants C x)"
      using Cons.IH [of "ys @ [q]"] Cons.prems by simp
    then show ?case using q nx below descendants_unfold [of C q]
      by (subst relate_from.simps) auto
  qed
qed

lemma hrelate_ok:
  assumes h: "hierarchy h C" and b: "b \<in> h_live h" and p: "p \<noteq> b"
  shows "hrelate h p b = Some (p \<in> descendants C b)"
  using relate_from_ok [OF h, of b "[]" "C b" p] hierarchyD(3) [OF h b] descendants_unfold [of C b] p
  by (auto simp: hrelate_def)

definition all_below :: "('p \<Rightarrow> 'p list) \<Rightarrow> 'p list \<Rightarrow> 'p set" where
  "all_below C xs = (\<Union>x \<in> set xs. descendants C x)"

definition without :: "'p set \<Rightarrow> 'p hheap \<Rightarrow> 'p hheap" where
  "without D h = h\<lparr>h_magic := (\<lambda>x. x \<notin> D \<and> h_magic h x), h_live := h_live h - D\<rparr>"

lemma free_list_ok:
  assumes h: "hierarchy h C"
  shows "C p = ys @ xs \<Longrightarrow> h_next g = h_next h \<Longrightarrow> h_kids g = h_kids h \<Longrightarrow>
    all_below C xs \<subseteq> h_live g \<Longrightarrow> (\<forall>x \<in> all_below C xs. h_magic g x) \<Longrightarrow>
    free_list g (first_or xs None) = Some (Return (without (all_below C xs) g))"
proof (induction p arbitrary: xs ys g rule: wf_induct_rule [OF child_wf [OF h]])
  case (1 p)
  from "1.prems" show ?case
  proof (induction xs arbitrary: ys g)
    case Nil
    then show ?case by (subst free_list.simps) (simp add: without_def all_below_def)
  next
    case (Cons q xs)
    note pr = Cons.prems
    have p: "p \<in> h_live h" using hierarchyD(7) [OF h, of p] pr(1) by auto
    have q: "q \<in> h_live h" using hierarchyD(5) [OF h, of p] pr(1) by auto
    have nx: "h_next g q = first_or xs None" using hierarchyD(4) [OF h p] pr(1,2) by (auto simp: link_simps)
    have kd: "h_kids g q = first_or (C q) None" using hierarchyD(3) [OF h q] pr(3) by simp
    define K where "K = all_below C (C q)"
    have dq: "descendants C q = insert q K" using descendants_unfold [of C q] by (simp add: K_def all_below_def)
    have qK: "q \<notin> K" using not_below_child [OF h] by (auto simp: K_def all_below_def)
    have dis: "insert q K \<inter> all_below C xs = {}"
    proof -
      have "x \<noteq> q \<and> x \<in> set (C p)" if "x \<in> set xs" for x
        using hierarchyD(6) [OF h, of p] pr(1) that by auto
      then show ?thesis using siblings_disjoint [OF h, of q p] pr(1) unfolding dq [symmetric]
        by (fastforce simp: all_below_def)
    qed
    have ab: "all_below C (q # xs) = insert q K \<union> all_below C xs" by (simp add: all_below_def dq)
    define g1 where "g1 = g\<lparr>h_magic := (h_magic g)(q := False)\<rparr>"
    have "free_list g1 (first_or (C q) None) = Some (Return (without K g1))"
      unfolding K_def
      by (rule "1.IH" [of q "[]"]) (use pr ab qK in \<open>auto simp: child_def g1_def K_def [symmetric]\<close>)
    moreover have "free_list (release q (without K g1)) (first_or xs None) =
        Some (Return (without (all_below C xs) (release q (without K g1))))"
      by (rule Cons.IH [of "ys @ [q]"]) (use pr ab dis in \<open>auto simp: release_def without_def g1_def\<close>)
    moreover have "without (all_below C xs) (release q (without K g1)) = without (all_below C (q # xs)) g"
      unfolding without_def release_def g1_def ab by (intro hheap.equality) auto
    moreover have "q \<in> h_live g" "h_magic g q" "q \<in> h_live (without K g1)"
      using pr(4,5) ab qK by (auto simp: without_def g1_def)
    ultimately show ?case using nx kd
      by (subst free_list.simps) (simp add: g1_def)
  qed
qed

definition removed :: "'p set \<Rightarrow> ('p \<Rightarrow> 'p list) \<Rightarrow> 'p \<Rightarrow> 'p list" where
  "removed D C = (\<lambda>x. if x \<in> D then [] else C x)"

lemma below_step: "y \<in> set (C x) \<Longrightarrow> x \<in> descendants C p \<Longrightarrow> y \<in> descendants C p"
  unfolding descendants_def child_def by (auto intro: rtrancl_into_rtrancl)

lemma below_parent:
  assumes h: "hierarchy h C" and y: "y \<in> set (C x)" "y \<in> descendants C p" "y \<noteq> p"
  shows "x \<in> descendants C p"
proof -
  from y(2,3) obtain w where w: "(p, w) \<in> (child C)\<^sup>*" "(w, y) \<in> child C"
    by (auto simp: descendants_def elim: rtranclE)
  then have "w = x" using one_parent [OF h w(2), of x] y(1) by (auto simp: child_def)
  then show ?thesis using w(1) by (simp add: descendants_def)
qed

lemma hierarchy_removed:
  assumes h: "hierarchy h C" and root: "\<And>q. p \<notin> set (C q)"
    and g: "h_next g = h_next h" "h_prev g = h_prev h" "h_live g = h_live h - descendants C p"
      "\<And>x. x \<notin> descendants C p \<Longrightarrow> h_kids g x = h_kids h x \<and> h_magic g x = h_magic h x"
  shows "hierarchy g (removed (descendants C p) C)"
proof -
  note hD = hierarchyD [OF h]
  define D where "D = descendants C p"
  have out: "y \<notin> D" if "y \<in> set (C x)" "x \<notin> D" for x y
    using below_parent [OF h that(1)] root that unfolding D_def by auto
  have sub: "child (removed D C) \<subseteq> child C" by (auto simp: child_def removed_def split: if_splits)
  have seg: "hseg g c xs e = hseg h c xs e" for c xs e by (rule hseg_cong) (simp_all add: g)
  have "h_magic g q \<and> h_kids g q = first_or (removed D C q) None \<and> hseg g (Kids_of q) (removed D C q) None"
    if "q \<in> h_live h - D" for q
    using that hD(2-4) [of q] g(4) [of q] by (simp add: removed_def seg D_def)
  moreover have "h_prev g r = Next_of r \<and> h_next g r \<in> {None, Some r}"
    if r: "r \<in> h_live h - D" "\<And>q. r \<notin> set (removed D C q)" for r
  proof -
    have "r \<notin> set (C q)" for q
    proof (cases "q \<in> D")
      case True
      then show ?thesis using below_step [of r C q p] r(1) by (auto simp: D_def)
    next
      case False
      then show ?thesis using r(2) [of q] by (simp add: removed_def)
    qed
    then show ?thesis using hD(9) [of r] r(1) by (simp add: g)
  qed
  moreover have "set (removed D C q) \<subseteq> h_live h - D" for q
    using hD(5) [of q] out [of _ q] by (auto simp: removed_def)
  moreover have "distinct (removed D C q)" for q using hD(6) [of q] by (simp add: removed_def)
  moreover have "q \<noteq> r \<Longrightarrow> set (removed D C q) \<inter> set (removed D C r) = {}" for q r
    using hD(8) [of q r] by (simp add: removed_def)
  moreover have "q \<notin> h_live h - D \<Longrightarrow> removed D C q = []" for q using hD(7) [of q] by (auto simp: removed_def)
  moreover have "acyclic (child (removed D C))" using hD(10) sub by (rule acyclic_subset)
  ultimately show ?thesis
    using hD(1) unfolding hierarchy_def D_def [symmetric] g(3) [folded D_def] by simp
qed

lemma descendants_detached:
  assumes h: "hierarchy h C"
  shows "descendants (detached p C) p = descendants C p"
proof
  show "descendants (detached p C) p \<subseteq> descendants C p"
    using rtrancl_mono [OF child_detached, of p C] by (auto simp: descendants_def)
  show "descendants C p \<subseteq> descendants (detached p C) p"
  proof
    fix z assume "z \<in> descendants C p"
    then have "(p, z) \<in> (child C)\<^sup>*" by (simp add: descendants_def)
    then have "(p, z) \<in> (child (detached p C))\<^sup>*"
    proof (induction rule: rtrancl_induct)
      case (step y z)
      have "z \<noteq> p" using not_below_child [OF h, of z y] step.hyps by (auto simp: child_def descendants_def)
      then have "(y, z) \<in> child (detached p C)"
        using step.hyps(2) hierarchyD(6) [OF h, of y] by (auto simp: child_def detached_def set_remove1_eq)
      with step.IH show ?case by (rule rtrancl_into_rtrancl)
    qed simp
    then show "z \<in> descendants (detached p C) p" by (simp add: descendants_def)
  qed
qed

text \<open>Releasing a block releases exactly its descendants.\<close>

definition after_free :: "'p \<Rightarrow> ('p \<Rightarrow> 'p list) \<Rightarrow> 'p \<Rightarrow> 'p list" where
  "after_free p C = removed (descendants C p) (detached p C)"

lemma halloc_free_ok:
  assumes h: "hierarchy h C" and p: "p \<in> h_live h"
  shows "\<exists>h'. halloc_free p h = Some (Return (None, h')) \<and> hierarchy h' (after_free p C) \<and>
    h_live h' = h_live h - descendants C p \<and> h_data h' = h_data h"
proof -
  note hD = hierarchyD [OF h]
  define K where "K = all_below C (C p)"
  have D: "descendants C p = insert p K" using descendants_unfold [of C p] by (simp add: K_def all_below_def)
  have pK: "p \<notin> K" using not_below_child [OF h] by (auto simp: K_def all_below_def)
  have KL: "K \<subseteq> h_live h" using descendants_live [OF h p] D by blast
  define h0 where "h0 = h\<lparr>h_magic := (h_magic h)(p := False)\<rparr>"
  define h1 where "h1 = without K h0"
  have "free_list h0 (first_or (C p) None) = Some (Return h1)"
    unfolding h1_def K_def
    by (rule free_list_ok [OF h, of p "[]"]) (use KL pK hD(2) in \<open>auto simp: h0_def K_def [symmetric]\<close>)
  then have fc: "free_children p h = Some (Return h1)"
    using hD(2,3) [OF p] by (simp add: free_children_def h0_def)
  have same: "h_next h1 = h_next h" "h_prev h1 = h_prev h" "h_kids h1 = h_kids h" "h_data h1 = h_data h" "h_live h1 = h_live h - K"
    "\<And>x. x \<notin> descendants C p \<Longrightarrow> h_magic h1 x = h_magic h x"
    by (auto simp: h1_def h0_def without_def D)
  obtain g where g: "hlist_del p h = Some g" "hierarchy g (detached p C)" "h_live g = h_live h" "h_data g = h_data h"
    using hlist_del_ok [OF h p] by blast
  have root: "p \<notin> set (detached p C q)" for q using hD(6) [of q] by (simp add: detached_def set_remove1_eq)
  have "\<exists>g1. hlist_del p h1 = Some g1 \<and> h_next g1 = h_next g \<and> h_prev g1 = h_prev g \<and> h_kids g1 = h_kids g \<and>
      h_live g1 = h_live h1 \<and> h_magic g1 = h_magic h1 \<and> h_data g1 = h_data h1 \<and> h_magic g = h_magic h"
  proof (cases "\<exists>q. p \<in> set (C q)")
    case False
    then have s: "h_prev h p = Next_of p" "h_next h p \<in> {None, Some p}" using hD(9) [OF p] by auto
    have "hlist_del p h1 = Some (h1\<lparr>h_next := (h_next h1)(p := None)\<rparr>)"
      using s p pK by (intro hlist_del_self) (auto simp: same)
    moreover have "g = h\<lparr>h_next := (h_next h)(p := None)\<rparr>" using hlist_del_self [OF s p] g(1) by simp
    ultimately show ?thesis by (simp add: same)
  next
    case True
    then obtain q where q: "p \<in> set (C q)" by blast
    then obtain xs ys where c: "C q = xs @ p # ys" by (meson split_list)
    have ql: "q \<in> h_live h" using hD(7) [of q] q by (cases "q \<in> h_live h") auto
    have d: "set (xs @ p # ys) \<subseteq> h_live h" "distinct (xs @ p # ys)" using hD(5,6) [of q] c by auto
    have seg: "hseg h (Kids_of q) (xs @ p # ys) None" using hD(4) [OF ql] c by simp
    have "x \<notin> K" if "x \<in> set (xs @ p # ys)" for x
    proof (cases "x = p")
      case False
      then have "descendants C x \<inter> descendants C p = {}" using siblings_disjoint [OF h, of x q p] that c by simp
      then show ?thesis unfolding D using descendants_self [of x C] by blast
    qed (use pK in simp)
    moreover have "q \<notin> K" using not_below_child [OF h q] D by simp
    ultimately have l1: "q \<in> h_live h1" "set (xs @ p # ys) \<subseteq> h_live h1" using ql d(1) by (auto simp: same)
    have "hseg h1 (Kids_of q) (xs @ p # ys) None" using seg by (subst hseg_cong [of _ h1 h]) (simp_all add: same)
    from hlist_del_child [OF l1(1) this l1(2) d(2)] have "hlist_del p h1 = Some (unlinked q p xs ys h1)" .
    moreover have "g = unlinked q p xs ys h" using hlist_del_child [OF ql seg d] g(1) by simp
    ultimately show ?thesis by (auto simp: unlinked_sel same fun_eq_iff)
  qed
  then obtain g1 where g1: "hlist_del p h1 = Some g1" "h_next g1 = h_next g" "h_prev g1 = h_prev g" "h_kids g1 = h_kids g"
      "h_live g1 = h_live h1" "h_magic g1 = h_magic h1" "h_data g1 = h_data h1" "h_magic g = h_magic h" by blast
  have "hierarchy (release p g1) (removed (descendants (detached p C) p) (detached p C))"
    by (rule hierarchy_removed [OF g(2) root])
      (auto simp: release_def g1 same g(3) descendants_detached [OF h] D)
  then show ?thesis
    using fc g1 same D by (auto simp: halloc_free_def after_free_def descendants_detached [OF h] release_def)
qed

section \<open>Attaching, allocating, resizing\<close>

definition after_attach :: "'p \<Rightarrow> 'p option \<Rightarrow> ('p \<Rightarrow> 'p list) \<Rightarrow> 'p \<Rightarrow> 'p list" where
  "after_attach b parent C = (case parent of None \<Rightarrow> detached b C | Some p \<Rightarrow> attached b p (detached b C))"

lemma hattach_ok:
  assumes h: "hierarchy h C" and b: "b \<in> h_live h" and p: "\<And>p. parent = Some p \<Longrightarrow> p \<in> h_live h"
  shows "if (\<exists>p. parent = Some p \<and> p \<in> descendants C b) then hattach (Some b) parent h = Some Abort
    else \<exists>h'. hattach (Some b) parent h = Some (Return h') \<and> hierarchy h' (after_attach b parent C) \<and>
      h_live h' = h_live h \<and> h_data h' = h_data h"
proof -
  obtain g where g: "hlist_del b h = Some g" "hierarchy g (detached b C)" "h_live g = h_live h" "h_data g = h_data h"
    using hlist_del_ok [OF h b] by blast
  have m: "h_magic h b" using hierarchyD(2) [OF h b] .
  show ?thesis
  proof (cases parent)
    case None
    then show ?thesis using g b m by (simp add: hattach_def after_attach_def)
  next
    case (Some p)
    have pl: "p \<in> h_live g" "h_magic g p" using assms(3) [OF Some] g(3) hierarchyD(2) [OF g(2), of p] by auto
    show ?thesis
    proof (cases "p = b")
      case True
      then show ?thesis using Some g b m pl by (simp add: hattach_def)
    next
      case False
      have r: "hrelate g p b = Some (p \<in> descendants C b)"
        using hrelate_ok [OF g(2), of b p] b g(3) False descendants_detached [OF h, of b] by simp
      show ?thesis
      proof (cases "p \<in> descendants C b")
        case True
        then show ?thesis using Some g b m pl False r by (simp add: hattach_def)
      next
        case below: False
        have nb: "b \<notin> set (detached b C q)" for q
          using hierarchyD(6) [OF h, of q] by (simp add: detached_def set_remove1_eq)
        have "p \<notin> descendants (detached b C) b" using below descendants_detached [OF h, of b] by simp
        from hlist_add_ok [OF g(2) _ pl(1) nb this] b g(3,4) obtain g' where
          "hlist_add p b g = Some g'" "hierarchy g' (attached b p (detached b C))" "h_live g' = h_live h" "h_data g' = h_data h"
          by auto
        then show ?thesis using Some g b m pl False r below by (auto simp: hattach_def after_attach_def)
      qed
    qed
  qed
qed

lemma halloc_new_ok:
  assumes h: "hierarchy h C" and q: "alloc (block_size len) = Some (q, junk)" "q \<notin> h_live h" and n: "0 < len" "len < 2 ^ 63"
  shows "\<exists>h'. halloc_new alloc len h = Some (Return (Some q, h')) \<and> hierarchy h' C \<and> h_live h' = insert q (h_live h) \<and>
    length (h_data h' q) = len"
proof -
  note hD = hierarchyD [OF h]
  have sz: "block_size len = len + 32" using n by (simp add: block_size_def sizeof_hblock_def)
  define g where "g = hlist_init_item q (hlist_init q
      (h\<lparr>h_live := insert q (h_live h), h_magic := (h_magic h)(q := True),
         h_data := (h_data h)(q := map junk [0..<block_size len - sizeof_hblock])\<rparr>))"
  have f: "h_live g = insert q (h_live h)" "h_magic g = (h_magic h)(q := True)" "h_kids g = (h_kids h)(q := None)"
      "h_prev g = (h_prev h)(q := Next_of q)" "h_next g = (h_next h)(q := None)"
    by (simp_all add: g_def hlist_init_item_def hlist_init_def)
  have Cq: "C q = []" using hD(7) q(2) .
  have nq: "q \<notin> set (C x)" for x using hD(5) [of x] q(2) by blast
  have "hseg g (Kids_of x) (C x) None = hseg h (Kids_of x) (C x) None" for x
    using nq [of x] by (intro hseg_cong) (auto simp: f)
  then have "hierarchy g C"
    unfolding hierarchy_def using h Cq unfolding hierarchy_def by (auto simp: f)
  then show ?thesis using n q sz by (simp add: halloc_new_def g_def sizeof_hblock_def hlist_init_item_def hlist_init_def)
qed

text \<open>Resizing a block where it is.\<close>

lemma relink_head_same:
  assumes h: "hierarchy h C" and p: "p \<in> h_live h"
  shows "hlist_relink_head p h = Some h"
  using hierarchyD(3,4) [OF h p] hierarchyD(5) [OF h, of p]
  by (cases "C p") (auto simp: hlist_relink_head_def store_prev_def fun_upd_idem)

text \<open>A block that moves takes the place of the old one, above and below.\<close>

definition renamed :: "'p \<Rightarrow> 'p \<Rightarrow> ('p \<Rightarrow> 'p list) \<Rightarrow> 'p \<Rightarrow> 'p list" where
  "renamed p q C = (if p = q then C
     else (\<lambda>x. if x = p then [] else map (\<lambda>y. if y = p then q else y) (if x = q then C p else C x)))"

definition moved_child :: "'p \<Rightarrow> 'p \<Rightarrow> 'p list \<Rightarrow> 'p list \<Rightarrow> 'p \<Rightarrow> 'p list \<Rightarrow> 'p hheap \<Rightarrow> 'p hheap \<Rightarrow> bool" where
  "moved_child p par xs ys q cs h g \<longleftrightarrow>
     h_live g = insert q (h_live h - {p}) \<and> (\<forall>x. h_magic g x = (if x = q then h_magic h p else h_magic h x)) \<and>
     (\<forall>x. h_next g x = (if x = q then first_or ys None else if last_or None xs = Some x then Some q else h_next h x)) \<and>
     (\<forall>x. h_prev g x = (if first_or cs None = Some x then Kids_of q else if first_or ys None = Some x then Next_of q
        else if x = q then cell_after (Kids_of par) xs else h_prev h x)) \<and>
     (\<forall>x. h_kids g x = (if x = q then first_or cs None else if x = par \<and> xs = [] then Some q else h_kids h x))"

lemma relink_moved:
  assumes h: "hierarchy h C" and c: "C par = xs @ p # ys" and q: "q = p \<or> q \<notin> h_live h"
  shows "\<exists>g. Option.bind (hlist_relink q (move_block p q bs h)) (hlist_relink_head q) = Some g \<and>
    moved_child p par xs ys q (C p) h g \<and> h_data g = (h_data h)(q := bs)"
proof -
  note hD = hierarchyD [OF h]
  have pc: "p \<in> set (C par)" using c by simp
  have par: "par \<in> h_live h" using hD(7) [of par] pc by (cases "par \<in> h_live h") auto
  have p: "p \<in> h_live h" using hD(5) [of par] pc by auto
  have pp: "par \<noteq> p" using not_below_child [OF h pc] by auto
  have np: "p \<notin> set (C p)" using not_below_child [OF h, of p p] by auto
  have d: "set (xs @ p # ys) \<subseteq> h_live h" "distinct (xs @ p # ys)" using hD(5,6) [of par] c by auto
  have cp: "set (C p) \<subseteq> h_live h" using hD(5) .
  have s: "h_prev h p = cell_after (Kids_of par) xs" "h_next h p = first_or ys None"
    using hD(4) [OF par] c by (auto simp: link_simps)
  have k: "h_kids h p = first_or (C p) None" using hD(3) [OF p] .
  have ne: "par \<noteq> q" using par pp q by auto
  define h1 where "h1 = move_block p q bs h"
  have h1: "h_live h1 = insert q (h_live h - {p})" "h_prev h1 q = cell_after (Kids_of par) xs" "h_next h1 q = first_or ys None"
      "h_kids h1 q = first_or (C p) None"
    by (simp_all add: h1_def move_block_def s k)
  define h2 where "h2 = (case last_or None xs of None \<Rightarrow> h1\<lparr>h_kids := (h_kids h1)(par := Some q)\<rparr>
      | Some l \<Rightarrow> h1\<lparr>h_next := (h_next h1)(l := Some q)\<rparr>)"
  have lx: "last_or None xs = Some l \<Longrightarrow> l \<in> h_live h \<and> l \<noteq> p \<and> l \<noteq> q" for l
    using last_or_in [of xs l] d q by auto
  have r1: "store_cell (cell_after (Kids_of par) xs) (Some q) h1 = Some h2"
    using lx par pp h1(1) by (cases "last_or None xs") (auto simp: cell_after_def h2_def)
  have h2: "h_live h2 = h_live h1" "h_next h2 q = first_or ys None" "h_kids h2 q = first_or (C p) None" "h_prev h2 = h_prev h1"
    using lx h1 ne by (auto simp: h2_def split: option.split)
  define h3 where "h3 = (case first_or ys None of None \<Rightarrow> h2 | Some n \<Rightarrow> h2\<lparr>h_prev := (h_prev h2)(n := Next_of q)\<rparr>)"
  have fy: "first_or ys None = Some n \<Longrightarrow> n \<in> h_live h1" for n
    using d h1(1) by (auto elim!: first_or_SomeE)
  have r2: "store_prev (first_or ys None) (Next_of q) h2 = Some h3"
    using fy h2(1) by (auto simp: store_prev_def h3_def split: option.split)
  have h3: "h_live h3 = h_live h1" "h_kids h3 q = first_or (C p) None" using h2 by (auto simp: h3_def split: option.split)
  define h4 where "h4 = (case first_or (C p) None of None \<Rightarrow> h3 | Some n \<Rightarrow> h3\<lparr>h_prev := (h_prev h3)(n := Kids_of q)\<rparr>)"
  have fc: "first_or (C p) None = Some n \<Longrightarrow> n \<in> h_live h1" for n
    using cp np h1(1) by (auto elim!: first_or_SomeE)
  have r3: "store_prev (first_or (C p) None) (Kids_of q) h3 = Some h4"
    using fc h3(1) by (auto simp: store_prev_def h4_def split: option.split)
  have "Option.bind (hlist_relink q h1) (hlist_relink_head q) = Some h4"
    using r1 r2 r3 by (simp add: hlist_relink_def hlist_relink_head_def h1 h2 h3)
  moreover have "moved_child p par xs ys q (C p) h h4"
    unfolding moved_child_def using ne
    by (auto simp: h4_def h3_def h2_def h1_def move_block_def s k link_simps split: option.split dest: lx)
  moreover have "h_data h4 = (h_data h)(q := bs)"
    by (simp add: h4_def h3_def h2_def h1_def move_block_def split: option.split)
  ultimately show ?thesis by (auto simp: h1_def)
qed

lemma moved_seg:
  assumes m: "moved_child p par xs ys q cs h g" and z: "q \<notin> set zs" "set zs \<inter> set (xs @ ys) = {}" "set zs \<inter> set cs = {}"
  shows "hseg g c zs e = hseg h c zs e"
proof (rule hseg_cong)
  fix x assume x: "x \<in> set zs"
  then have "last_or None xs \<noteq> Some x" "first_or ys None \<noteq> Some x" "first_or cs None \<noteq> Some x" "x \<noteq> q"
    using z last_or_in [of xs x] by (auto elim!: first_or_SomeE)
  then show "h_next g x = h_next h x" "h_prev g x = h_prev h x" using m by (simp_all add: moved_child_def)
qed

lemma moved_hierarchy:
  assumes h: "hierarchy h C" and c: "C par = xs @ p # ys" and q: "q = p \<or> q \<notin> h_live h"
    and m: "moved_child p par xs ys q (C p) h g"
  shows "hierarchy g (renamed p q C)"
proof -
  note hD = hierarchyD [OF h]
  define \<rho> where "\<rho> = (\<lambda>y. if y = p then q else y)"
  have pc: "p \<in> set (C par)" using c by simp
  have par: "par \<in> h_live h" using hD(7) [of par] pc by (cases "par \<in> h_live h") auto
  have p: "p \<in> h_live h" using hD(5) [of par] pc by auto
  have pp: "par \<noteq> p" using not_below_child [OF h pc] by auto
  have np: "p \<notin> set (C p)" "p \<notin> set xs" "p \<notin> set ys" using not_below_child [OF h, of p p] hD(6) [of par] c by auto
  have qx: "q \<noteq> par" using par pp q by auto
  have qn: "q \<noteq> p \<Longrightarrow> q \<notin> set (C x)" for x using hD(5) [of x] q by auto
  have R: "renamed p q C x = (if x = q then C p else if x = p then [] else if x = par then xs @ q # ys else C x)" for x
  proof -
    have "map \<rho> (C x) = C x" if "x \<noteq> par" for x
      using hD(8) [OF that] pc by (auto simp: \<rho>_def intro!: map_idI)
    moreover have "map \<rho> (C par) = xs @ q # ys" using np c by (auto simp: \<rho>_def intro!: map_idI)
    ultimately show ?thesis
      using pp qx c by (auto simp: renamed_def \<rho>_def [symmetric])
  qed
  have live: "h_live g = insert q (h_live h - {p})" using m by (simp add: moved_child_def)
  have dis: "set (C x) \<inter> set (C y) = {}" if "x \<noteq> y" for x y using hD(8) [OF that] .
  have own: "h_magic g x \<and> h_kids g x = first_or (renamed p q C x) None \<and> hseg g (Kids_of x) (renamed p q C x) None"
    if x: "x \<in> h_live g" for x
  proof -
    consider "x = q" | "x = par" "x \<noteq> q" | "x \<in> h_live h" "x \<noteq> p" "x \<noteq> par" "x \<noteq> q" using x live by auto
    then show ?thesis
    proof cases
      case 1
      have "hseg g (Kids_of q) (C p) None"
      proof (cases "C p")
        case (Cons z zs)
        have "q \<noteq> p \<Longrightarrow> q \<notin> set (C p)" "q = p \<Longrightarrow> q \<notin> set (C p)" using qn [of p] np by auto
        then have qz: "q \<notin> set (C p)" by blast
        have d: "set (C p) \<inter> set (xs @ ys) = {}" using dis [of p par] pp c by auto
        then have zf: "last_or None xs \<noteq> Some w" "first_or ys None \<noteq> Some w" if "w \<in> set (C p)" for w
          using that last_or_in [of xs w] by (auto elim!: first_or_SomeE)
        have "h_next g z = h_next h z" "h_prev g z = Kids_of q" using m Cons zf [of z] qz by (auto simp: moved_child_def)
        moreover have "hseg g (Next_of z) zs None = hseg h (Next_of z) zs None"
          using m Cons zf qz hD(6) [of p] by (intro hseg_cong) (auto simp: moved_child_def)
        ultimately show ?thesis using hD(4) [OF p] Cons by simp
      qed simp
      then show ?thesis using 1 m hD(2) [OF p] by (auto simp: R moved_child_def)
    next
      case 2
      have dp: "set (xs @ p # ys) \<inter> set (C p) = {}" using dis [of p par] pp c by auto
      have d: "distinct (xs @ p # ys)" using hD(6) [of par] c by simp
      have s: "hseg h (Kids_of par) xs (Some p)" "hseg h (Next_of p) ys None" using hD(4) [OF par] c by (auto simp: link_simps)
      have qxy: "q \<notin> set xs" "q \<notin> set ys" using qn [of par] np c by (cases "q = p"; auto)+
      have fcs: "first_or (C p) None \<noteq> Some w" if "w \<in> set (xs @ p # ys)" for w
        using that dp by (auto elim!: first_or_SomeE)
      have "hseg g (Kids_of par) xs (Some q)"
      proof (cases xs rule: rev_cases)
        case (snoc us l)
        have fy: "first_or ys None \<noteq> Some w" if "w \<in> set xs" for w using d that by (auto elim!: first_or_SomeE)
        have "hseg g (Kids_of par) us (Some l) = hseg h (Kids_of par) us (Some l)"
          using m snoc fy fcs qxy d by (intro hseg_cong) (auto simp: moved_child_def link_simps)
        moreover have "h_next g l = Some q" "h_prev g l = h_prev h l"
          using m snoc fy fcs qxy by (auto simp: moved_child_def link_simps)
        ultimately show ?thesis using s(1) snoc by (simp add: link_simps)
      qed simp
      moreover have "h_next g q = first_or ys None" "h_prev g q = cell_after (Kids_of par) xs"
      proof -
        have "first_or (C p) None \<noteq> Some q" "first_or ys None \<noteq> Some q"
          using qn [of p] np qxy by (cases "q = p"; auto elim!: first_or_SomeE)+
        then show "h_next g q = first_or ys None" "h_prev g q = cell_after (Kids_of par) xs"
          using m by (simp_all add: moved_child_def)
      qed
      moreover have "hseg g (Next_of q) ys None"
      proof (cases ys)
        case (Cons y zs)
        have lx: "last_or None xs \<noteq> Some w" if "w \<in> set ys" for w using d that last_or_in [of xs w] by auto
        have "hseg g (Next_of y) zs None = hseg h (Next_of y) zs None"
          using m Cons lx fcs qxy d by (intro hseg_cong) (auto simp: moved_child_def)
        moreover have "h_next g y = h_next h y" "h_prev g y = Next_of q"
          using m Cons lx fcs qxy by (auto simp: moved_child_def)
        ultimately show ?thesis using s(2) Cons by simp
      qed simp
      ultimately have "hseg g (Kids_of par) (xs @ q # ys) None" by (simp add: link_simps)
      moreover have "h_kids g par = first_or (xs @ q # ys) None"
        using m qx hD(3) [OF par] c by (cases xs) (auto simp: moved_child_def)
      ultimately show ?thesis using 2 m hD(2) [OF par] pp by (simp add: R moved_child_def)
    next
      case 3
      have "hseg g (Kids_of x) (C x) None = hseg h (Kids_of x) (C x) None"
        by (rule moved_seg [OF m]) (use 3 dis [of x par] dis [of x p] c qn [of x] pc in \<open>cases "q = p"; auto\<close>)+
      then show ?thesis using 3 m hD(2-4) [OF 3(1)] by (simp add: R moved_child_def)
    qed
  qed
  have sub: "set (renamed p q C x) \<subseteq> h_live g" for x
    using hD(5) [of x] hD(5) [of p] hD(5) [of par] c np dis [of x par] by (auto simp: R live)
  have dst: "distinct (renamed p q C x)" for x
    using hD(6) [of x] hD(6) [of p] hD(6) [of par] c qn [of par] unfolding R by (cases "q = p") auto
  have two: "set (renamed p q C x) \<inter> set (renamed p q C y) = {}" if "x \<noteq> y" for x y
    using that dis [of x y] dis [of x p] dis [of p y] dis [of x par] dis [of par y] dis [of p par] pp c np qn [of x] qn [of y] qn [of p]
    unfolding R by (cases "q = p") (auto split: if_splits)
  have out: "x \<notin> h_live g \<Longrightarrow> renamed p q C x = []" for x
    using hD(7) [of x] par pp unfolding R live by auto
  have roots: "h_prev g r = Next_of r \<and> h_next g r \<in> {None, Some r}"
    if r: "r \<in> h_live g" "\<And>x. r \<notin> set (renamed p q C x)" for r
  proof -
    have rq: "r \<noteq> q" using r(2) [of par] qx pp by (auto simp: R)
    then have rl: "r \<in> h_live h" "r \<noteq> p" using r(1) live by auto
    have n: "r \<notin> set (C x)" for x
      using r(2) [of x] r(2) [of q] r(2) [of par] rl rq c qx pp hD(7) [of q] q by (cases "x = p"; cases "x = q"; cases "x = par"; auto simp: R)
    then have "r \<notin> set (xs @ ys)" "r \<notin> set (C p)" using n [of par] c by auto
    then have "last_or None xs \<noteq> Some r" "first_or ys None \<noteq> Some r" "first_or (C p) None \<noteq> Some r"
      using last_or_in [of xs r] by (auto elim!: first_or_SomeE)
    then show ?thesis using hD(9) [OF rl(1) n] m rq by (simp add: moved_child_def)
  qed
  define \<sigma> where "\<sigma> = (\<lambda>y. if y = q then p else y)"
  have "child (renamed p q C) \<subseteq> inv_image (child C) \<sigma>"
    using qn np qx c unfolding child_def R \<sigma>_def by (cases "q = p") (auto simp: in_inv_image split: if_splits)
  then have "(child (renamed p q C))\<inverse> \<subseteq> inv_image ((child C)\<inverse>) \<sigma>" by (auto simp: in_inv_image)
  then have "wf ((child (renamed p q C))\<inverse>)" using wf_inv_image [OF child_wf [OF h]] by (rule wf_subset [rotated])
  then have "acyclic (child (renamed p q C))" by (metis acyclic_converse wf_acyclic)
  moreover have "finite (h_live g)" using hD(1) live by simp
  ultimately show ?thesis using own sub dst two out roots unfolding hierarchy_def by simp
qed

text \<open>
  Resizing: a block with a parent may move; one without a parent must stay where it is, since the code
  writes to the header it has left.
\<close>

definition resized_data :: "nat \<Rightarrow> (nat \<Rightarrow> byte) \<Rightarrow> byte list \<Rightarrow> byte list" where
  "resized_data len junk bs = take len bs @ map junk [length (take len bs)..<len]"

lemma halloc_move_ok:
  assumes h: "hierarchy h C" and p: "p \<in> h_live h" and n: "len < 2 ^ 63"
    and a: "alloc (block_size len) = Some (q, junk)" and q: "q = p \<or> q \<notin> h_live h"
  shows "if q = p \<or> (\<exists>r. p \<in> set (C r))
    then \<exists>h'. halloc_move alloc p len h = Some (Return (Some q, h')) \<and> hierarchy h' (renamed p q C) \<and>
      h_live h' = insert q (h_live h - {p}) \<and> h_data h' = (h_data h)(q := resized_data len junk (h_data h p))
    else halloc_move alloc p len h = None"
proof -
  note hD = hierarchyD [OF h]
  have sz: "block_size len = len + 32" using n by (simp add: block_size_def sizeof_hblock_def)
  define bs where "bs = resized_data len junk (h_data h p)"
  have hm: "halloc_move alloc p len h = Option.bind (hlist_relink q (move_block p q bs h)) (\<lambda>h2.
      map_option (\<lambda>h3. Return (Some q, h3)) (hlist_relink_head q h2))"
    using a sz unfolding halloc_move_def bs_def resized_data_def by (simp add: sizeof_hblock_def Let_def)
  show ?thesis
  proof (cases "\<exists>r. p \<in> set (C r)")
    case True
    then obtain r where "p \<in> set (C r)" by blast
    then obtain xs ys where c: "C r = xs @ p # ys" by (meson split_list)
    from relink_moved [OF h c q, of bs] obtain g where g: "Option.bind (hlist_relink q (move_block p q bs h)) (hlist_relink_head q) = Some g"
        "moved_child p r xs ys q (C p) h g" "h_data g = (h_data h)(q := bs)" by blast
    have "halloc_move alloc p len h = Some (Return (Some q, g))" using g(1) hm by (auto simp: bind_eq_Some_conv)
    moreover have "hierarchy g (renamed p q C)" by (rule moved_hierarchy [OF h c q g(2)])
    ultimately show ?thesis using True g(2,3) by (auto simp: moved_child_def bs_def)
  next
    case False
    then have s: "h_prev h p = Next_of p" "h_next h p \<in> {None, Some p}" using hD(9) [OF p] by auto
    show ?thesis
    proof (cases "q = p")
      case True
      define g where "g = h\<lparr>h_next := (h_next h)(p := Some p), h_data := (h_data h)(p := bs)\<rparr>"
      have "move_block p p bs h = h\<lparr>h_data := (h_data h)(p := bs)\<rparr>"
        using p by (simp add: move_block_def insert_absorb fun_upd_idem)
      then have "hlist_relink p (move_block p p bs h) = Some g"
        using s p by (simp add: hlist_relink_def store_prev_def fun_upd_idem g_def)
      moreover have "hseg g (Kids_of x) (C x) None = hseg h (Kids_of x) (C x) None" for x
        using False by (intro hseg_cong) (auto simp: g_def)
      then have "hierarchy g C" using h s unfolding hierarchy_def by (auto simp: g_def)
      moreover from relink_head_same [OF this, of p] have "hlist_relink_head p g = Some g" using p by (simp add: g_def)
      ultimately show ?thesis using True p hm by (auto simp: renamed_def g_def bs_def)
    next
      case q': False
      then have "hlist_relink q (move_block p q bs h) = None"
        using s by (simp add: hlist_relink_def move_block_def)
      then show ?thesis using False q' hm by simp
    qed
  qed
qed

section \<open>What the allocator promises\<close>

text \<open>
  An operation with the answer of the underlying allocator, what the caller and that allocator have to
  observe, and the hierarchy that results; \<open>L\<close> are the allocated blocks.
\<close>

datatype 'p halloc_op =
  Alloc nat 'p "nat \<Rightarrow> byte"
| Adopt 'p "'p option"
| Resize 'p nat 'p "nat \<Rightarrow> byte"
| Release 'p

fun halloc_step :: "'p halloc_op \<Rightarrow> 'p hheap \<Rightarrow> 'p hheap result" where
  "halloc_step (Alloc len q junk) h = map_option (map_outcome snd) (h_malloc (\<lambda>_. Some (q, junk)) len h)"
| "halloc_step (Adopt b parent) h = hattach (Some b) parent h"
| "halloc_step (Resize p len q junk) h = map_option (map_outcome snd) (h_realloc (\<lambda>_. Some (q, junk)) (Some p) len h)"
| "halloc_step (Release p) h = map_option (map_outcome snd) (h_free (\<lambda>_. None) (Some p) h)"

fun halloc_run :: "'p halloc_op list \<Rightarrow> 'p hheap \<Rightarrow> 'p hheap result" where
  "halloc_run [] h = Some (Return h)"
| "halloc_run (x # xs) h = (case halloc_step x h of Some (Return h') \<Rightarrow> halloc_run xs h' | r \<Rightarrow> r)"

fun halloc_allowed :: "'p halloc_op \<Rightarrow> 'p set \<Rightarrow> ('p \<Rightarrow> 'p list) \<Rightarrow> bool" where
  "halloc_allowed (Alloc len q junk) L C = (q \<notin> L \<and> 0 < len \<and> len < 2 ^ 63)"
| "halloc_allowed (Adopt b parent) L C =
     (b \<in> L \<and> (case parent of None \<Rightarrow> True | Some p \<Rightarrow> p \<in> L \<and> p \<notin> descendants C b))"
| "halloc_allowed (Resize p len q junk) L C =
     (p \<in> L \<and> 0 < len \<and> len < 2 ^ 63 \<and> (q = p \<or> q \<notin> L \<and> (\<exists>r \<in> L. p \<in> set (C r))))"
| "halloc_allowed (Release p) L C = (p \<in> L)"

fun halloc_blocks :: "'p halloc_op \<Rightarrow> 'p set \<Rightarrow> ('p \<Rightarrow> 'p list) \<Rightarrow> 'p set" where
  "halloc_blocks (Alloc len q junk) L C = insert q L"
| "halloc_blocks (Adopt b parent) L C = L"
| "halloc_blocks (Resize p len q junk) L C = insert q (L - {p})"
| "halloc_blocks (Release p) L C = L - descendants C p"

fun halloc_children :: "'p halloc_op \<Rightarrow> ('p \<Rightarrow> 'p list) \<Rightarrow> 'p \<Rightarrow> 'p list" where
  "halloc_children (Alloc len q junk) C = C"
| "halloc_children (Adopt b parent) C = after_attach b parent C"
| "halloc_children (Resize p len q junk) C = renamed p q C"
| "halloc_children (Release p) C = after_free p C"

fun all_allowed :: "'p halloc_op list \<Rightarrow> 'p set \<Rightarrow> ('p \<Rightarrow> 'p list) \<Rightarrow> bool" where
  "all_allowed [] L C = True"
| "all_allowed (x # xs) L C = (halloc_allowed x L C \<and> all_allowed xs (halloc_blocks x L C) (halloc_children x C))"

fun final_blocks :: "'p halloc_op list \<Rightarrow> 'p set \<Rightarrow> ('p \<Rightarrow> 'p list) \<Rightarrow> 'p set" where
  "final_blocks [] L C = L"
| "final_blocks (x # xs) L C = final_blocks xs (halloc_blocks x L C) (halloc_children x C)"

lemma halloc_step_ok:
  assumes h: "hierarchy h C" and a: "halloc_allowed x (h_live h) C"
  shows "\<exists>h'. halloc_step x h = Some (Return h') \<and> hierarchy h' (halloc_children x C) \<and>
    h_live h' = halloc_blocks x (h_live h) C"
proof (cases x)
  case (Alloc len q junk)
  then show ?thesis using a halloc_new_ok [OF h, of "\<lambda>_. Some (q, junk)" len q junk]
    by (auto simp: h_malloc_def halloc_def)
next
  case (Adopt b parent)
  then show ?thesis using a hattach_ok [OF h, of b parent] by (cases parent) auto
next
  case (Resize p len q junk)
  have m: "h_magic h p" using a Resize hierarchyD(2) [OF h, of p] by simp
  show ?thesis using a Resize m halloc_move_ok [OF h, of p len "\<lambda>_. Some (q, junk)" q junk]
    by (auto simp: h_realloc_def halloc_def split: if_splits)
next
  case (Release p)
  have m: "h_magic h p" using a Release hierarchyD(2) [OF h, of p] by simp
  then show ?thesis using a Release halloc_free_ok [OF h, of p] by (auto simp: h_free_def halloc_def)
qed

lemma halloc_run_ok:
  "hierarchy h C \<Longrightarrow> all_allowed xs (h_live h) C \<Longrightarrow>
   \<exists>h'. halloc_run xs h = Some (Return h') \<and> hierarchy h' (fold halloc_children xs C) \<and>
     h_live h' = final_blocks xs (h_live h) C"
proof (induction xs arbitrary: h C)
  case Nil
  then show ?case by simp
next
  case (Cons x xs)
  then obtain h1 where h1: "halloc_step x h = Some (Return h1)" "hierarchy h1 (halloc_children x C)"
      "h_live h1 = halloc_blocks x (h_live h) C"
    using halloc_step_ok [of h C x] by auto
  with Cons.IH [OF h1(2)] Cons.prems show ?case by auto
qed

text \<open>
  C23: The allocator keeps its hierarchy.  From headers that represent a hierarchy, every sequence of
  allocations, attachments, resizings and releases that respects the interface (no block below itself, no
  move of a block without a parent) runs without an access to the header of a block that is not allocated
  and without a failed assertion; the headers then represent the hierarchy the operations describe, in which
  a release has freed the block and exactly its descendants.
\<close>

theorem halloc_keeps_hierarchy:
  assumes "hierarchy h C" and "all_allowed ops (h_live h) C"
  shows "\<exists>h'. halloc_run ops h = Some (Return h') \<and> hierarchy h' (fold halloc_children ops C) \<and>
    h_live h' = final_blocks ops (h_live h) C"
  using halloc_run_ok [OF assms] .

definition empty_hheap :: "nat hheap" where
  "empty_hheap = \<lparr>h_live = {}, h_magic = (\<lambda>_. False), h_next = Map.empty, h_prev = Next_of, h_kids = Map.empty, h_data = (\<lambda>_. [])\<rparr>"

definition halloc_demo :: "nat halloc_op list" where
  "halloc_demo = [Alloc 8 10 (\<lambda>_. 0), Alloc 8 20 (\<lambda>_. 0), Alloc 8 30 (\<lambda>_. 0), Adopt 20 (Some 10), Release 10]"

lemma halloc_keeps_hierarchy_witness:
  "\<exists>h'. halloc_run halloc_demo empty_hheap = Some (Return h') \<and> h_live h' = {30}"
proof -
  have h: "hierarchy empty_hheap (\<lambda>_. [])"
    by (simp add: hierarchy_def empty_hheap_def child_def acyclic_def)
  have e: "descendants (\<lambda>_. []) x = {x}" for x :: nat by (subst descendants_unfold) simp
  define C where "C = after_attach 20 (Some 10) (\<lambda>_. [] :: nat list)"
  have "C 10 = [20]" "C 20 = []" by (simp_all add: C_def after_attach_def attached_def detached_def)
  then have "descendants C 10 = {10, 20}" by (subst descendants_unfold, simp, subst descendants_unfold, simp)
  moreover have "h_live empty_hheap = {}" by (simp add: empty_hheap_def)
  ultimately have "all_allowed halloc_demo (h_live empty_hheap) (\<lambda>_. [])" "final_blocks halloc_demo (h_live empty_hheap) (\<lambda>_. []) = {30}"
    by (auto simp: halloc_demo_def e C_def [symmetric])
  with halloc_keeps_hierarchy [OF h, of halloc_demo] show ?thesis by auto
qed

text \<open>A block without a parent that the allocator moves: the code writes to the header it has left.\<close>

lemma moved_root_lost:
  assumes "hierarchy h C" and "p \<in> h_live h" and "\<And>r. p \<notin> set (C r)" and "0 < len" and "len < 2 ^ 63"
    and "alloc (block_size len) = Some (q, junk)" and "q \<notin> h_live h"
  shows "h_realloc alloc (Some p) len h = None"
  using halloc_move_ok [where alloc = alloc, OF assms(1,2,5,6)] assms hierarchyD(2) [OF assms(1,2)]
  by (auto simp: h_realloc_def halloc_def split: if_splits)

section \<open>Contents\<close>

lemma h_strdup_ok:
  assumes h: "hierarchy h C" and q: "alloc (block_size (length (cstr str) + 1)) = Some (q, junk)" "q \<notin> h_live h"
    and n: "length (cstr str) + 1 < 2 ^ 63"
  shows "\<exists>h'. h_strdup alloc str h = Some (Return (Some q, h')) \<and> h_data h' q = cstr str @ [0]"
  using halloc_new_ok [where alloc = alloc, OF h q _ n] by (auto simp: h_strdup_def fill_block_def halloc_def write_block_def)

text \<open>\<^verbatim>\<open>h_calloc\<close> does not look at the overflow of the product.\<close>

lemma h_calloc_wraps:
  assumes "hierarchy h C" and "alloc 36 = Some (q, junk)" and "q \<notin> h_live h"
  shows "\<exists>h'. h_calloc alloc 4 (2 ^ 62 + 1) h = Some (Return (Some q, h')) \<and> length (h_data h' q) = 4"
  using halloc_new_ok [OF assms(1), of alloc 4 q junk] assms(2,3)
  by (auto simp: h_calloc_def fill_block_def halloc_def write_block_def block_size_def sizeof_hblock_def)

text \<open>The allocator chosen releases a block resized to nothing, unless the probe had no memory to work with.\<close>

lemma set_allocator_frees: "malloc_ok \<Longrightarrow> set_allocator malloc_ok realloc_null = Freeing_realloc \<longleftrightarrow> \<not> realloc_null"
  by (simp add: set_allocator_def)

end
