(* ===== verification/Ln_Display.thy ===== *)
theory Ln_Display
  imports Linenoise
begin

text \<open>
  What the line editor shows (src/src/tomato/linenoise.c): a terminal that carries out the control sequences
  the comment at the head of the source describes, the redrawing of a line over several rows
  (\<^verbatim>\<open>refreshMultiLine\<close>), the choice between the two ways of redrawing, and the proof that after every
  operation the terminal shows the text that is edited, with the cursor where the next operation applies.
\<close>

section \<open>A terminal\<close>

text \<open>
  The screen as the comment at the head of the source has it: rows of \<open>sc_width\<close> characters, as many as are
  needed, and a cursor.  A character written into the last column leaves the cursor there; the next one goes
  to the row below (\<open>sc_wrap\<close>).
\<close>

record screen =
  sc_cell :: "nat \<Rightarrow> nat \<Rightarrow> char"
  sc_width :: nat
  sc_row :: nat
  sc_col :: nat
  sc_wrap :: bool

abbreviation BLANK :: char where
  "BLANK \<equiv> CHR '' ''"

abbreviation LF :: char where
  "LF \<equiv> CHR 0x0A"

definition put_char :: "char \<Rightarrow> screen \<Rightarrow> screen" where
  "put_char x s =
     (let s1 = (if sc_wrap s then s\<lparr>sc_row := sc_row s + 1, sc_col := 0, sc_wrap := False\<rparr> else s);
          s2 = s1\<lparr>sc_cell := (sc_cell s1)(sc_row s1 := (sc_cell s1 (sc_row s1))(sc_col s1 := x))\<rparr>
      in if sc_col s1 + 1 < sc_width s1 then s2\<lparr>sc_col := sc_col s1 + 1\<rparr> else s2\<lparr>sc_wrap := True\<rparr>)"

text \<open>
  The sequence \<^verbatim>\<open>ESC [ n k\<close>; a missing \<open>n\<close> is 0, and the movements take 0 for 1.  Erasing to the end of the
  line begins with the character the cursor is on.
\<close>

definition control :: "nat \<Rightarrow> char \<Rightarrow> screen \<Rightarrow> screen" where
  "control n k s =
     (if k = CHR ''G'' then s\<lparr>sc_col := min (max 1 n) (sc_width s) - 1, sc_wrap := False\<rparr>
      else if k = CHR ''C'' then s\<lparr>sc_col := min (sc_col s + max 1 n) (sc_width s - 1), sc_wrap := False\<rparr>
      else if k = CHR ''A'' then s\<lparr>sc_row := sc_row s - max 1 n, sc_wrap := False\<rparr>
      else if k = CHR ''B'' then s\<lparr>sc_row := sc_row s + max 1 n, sc_wrap := False\<rparr>
      else if k = CHR ''K'' \<and> n = 0 then
        s\<lparr>sc_cell := (sc_cell s)(sc_row s := (\<lambda>j. if sc_col s \<le> j then BLANK else sc_cell s (sc_row s) j))\<rparr>
      else if k = CHR ''H'' \<and> n = 0 then s\<lparr>sc_row := 0, sc_col := 0, sc_wrap := False\<rparr>
      else if k = CHR ''J'' \<and> n = 2 then s\<lparr>sc_cell := (\<lambda>i j. BLANK)\<rparr>
      else s)"

lemma take_digits_shorter: "take_digits b a cs = (n, r) \<Longrightarrow> length r \<le> length cs"
  by (induction cs arbitrary: a) (auto split: option.splits dest: le_SucI)

text \<open>What the terminal makes of a text: control sequences, line feeds (the output is not processed), and characters.\<close>

function term_out :: "string \<Rightarrow> screen \<Rightarrow> screen" where
  "term_out [] s = s"
| "term_out (c # cs) s =
     (if c = ESC \<and> cs \<noteq> [] \<and> hd cs = CHR ''['' then
        (case take_digits 10 0 (tl cs) of
           (n, []) \<Rightarrow> s
         | (n, k # r) \<Rightarrow> term_out r (control n k s))
      else if c = LF then term_out cs (s\<lparr>sc_row := sc_row s + 1, sc_wrap := False\<rparr>)
      else term_out cs (put_char c s))"
  by pat_completeness auto
termination
  by (relation "measure (\<lambda>(t, s). length t)") (auto simp: neq_Nil_conv dest!: take_digits_shorter [OF sym])

section \<open>Redrawing over several rows\<close>

text \<open>
  The two fields of \<^verbatim>\<open>struct linenoiseState\<close> that only the multi line mode uses, beside the others.
\<close>

record mlstate =
  mline :: lnstate
  oldpos :: nat
  maxrows :: nat

text \<open>A \<^verbatim>\<open>size_t\<close> assigned to an \<^verbatim>\<open>int\<close>, and the remainder of signed integers.\<close>

definition int_of_size :: "64 word \<Rightarrow> int" where
  "int_of_size w = sint (ucast w :: 32 word)"

definition c_rem :: "int \<Rightarrow> int \<Rightarrow> int" where
  "c_rem a b = sgn a * (\<bar>a\<bar> mod \<bar>b\<bar>)"

text \<open>
  Writes until one fails: \<open>wr\<close> is the number of writes the terminal takes, \<open>None\<close> if it takes all.
\<close>

definition taken :: "nat option \<Rightarrow> string list \<Rightarrow> string list" where
  "taken wr xs = (case wr of None \<Rightarrow> xs | Some n \<Rightarrow> take n xs)"

definition all_taken :: "nat option \<Rightarrow> string list \<Rightarrow> bool" where
  "all_taken wr xs \<longleftrightarrow> (case wr of None \<Rightarrow> True | Some n \<Rightarrow> length xs \<le> n)"

text \<open>The writes: clearing the rows used before and writing the line, a new row at the end, and placing the cursor.\<close>

definition multi_start :: "int \<Rightarrow> int \<Rightarrow> string \<Rightarrow> string \<Rightarrow> string list" where
  "multi_start old_rows rpos prompt text =
     (if old_rows - rpos > 0 then [[ESC] @ ''['' @ int_text (old_rows - rpos) @ ''B''] else []) @
     replicate (nat (old_rows - 1)) ([ESC] @ ''[0G'' @ [ESC] @ ''[0K'' @ [ESC] @ ''[1A'') @
     [[ESC] @ ''[0G'' @ [ESC] @ ''[0K'', prompt, text]"

definition multi_newline :: "bool \<Rightarrow> string list" where
  "multi_newline at_end = (if at_end then [[LF], [ESC] @ ''[0G''] else [])"

definition multi_finish :: "int \<Rightarrow> int \<Rightarrow> int \<Rightarrow> string list" where
  "multi_finish rows rpos2 col =
     (if rows - rpos2 > 0 then [[ESC] @ ''['' @ int_text (rows - rpos2) @ ''A''] else []) @
     [[ESC] @ ''['' @ int_text (1 + col) @ ''G'']"

definition refreshMultiLine :: "nat option \<Rightarrow> string \<Rightarrow> mlstate \<Rightarrow> string list \<times> mlstate" where
  "refreshMultiLine wr prompt l =
     (let b = mline l;
          pl = int_of_size (word_of_nat (length prompt));
          cs = word_of_nat (cols b) :: 64 word;
          rows = int_of_size ((word_of_int pl + word_of_nat (len b) + cs - 1) div cs);
          rpos = int_of_size ((word_of_int pl + word_of_nat (oldpos l) + cs) div cs);
          old_rows = int_of_size (word_of_nat (maxrows l));
          l1 = (if rows > int_of_size (word_of_nat (maxrows l))
                then l\<lparr>maxrows := unat (word_of_int rows :: 64 word)\<rparr> else l);
          start = multi_start old_rows rpos prompt (take (len b) (lbuf b));
          at_end = (pos b \<noteq> 0 \<and> pos b = len b \<and> (word_of_nat (pos b) + word_of_int pl) mod cs = 0);
          rows2 = (if at_end then rows + 1 else rows);
          l2 = (if at_end \<and> rows2 > int_of_size (word_of_nat (maxrows l1))
                then l1\<lparr>maxrows := unat (word_of_int rows2 :: 64 word)\<rparr> else l1);
          rpos2 = int_of_size ((word_of_int pl + word_of_nat (pos b) + cs) div cs);
          finish = multi_finish rows2 rpos2 (c_rem (pl + int_of_size (word_of_nat (pos b))) (int_of_size cs))
      in if \<not> all_taken wr (start @ multi_newline at_end) then (taken wr (start @ multi_newline at_end), l1)
         else if \<not> all_taken wr (start @ multi_newline at_end @ finish)
         then (taken wr (start @ multi_newline at_end @ finish), l2)
         else (start @ multi_newline at_end @ finish, l2\<lparr>oldpos := pos b\<rparr>))"

text \<open>
  \<^verbatim>\<open>refreshLine\<close>, and what an operation shows: a character is written alone only in the single line mode.
\<close>

definition refreshLine :: "bool \<Rightarrow> nat option \<Rightarrow> string \<Rightarrow> mlstate \<Rightarrow> (string list \<times> mlstate) option" where
  "refreshLine mlmode wr prompt l =
     (if mlmode then Some (refreshMultiLine wr prompt l)
      else case refreshSingleLine prompt (mline l) of
             None \<Rightarrow> None
           | Some (out, shown) \<Rightarrow> Some (taken wr out, l))"

definition show_draw :: "bool \<Rightarrow> nat option \<Rightarrow> string \<Rightarrow> lnstate \<times> draw \<Rightarrow> mlstate \<Rightarrow> (string list \<times> mlstate) option" where
  "show_draw mlmode wr prompt bd l =
     (let l1 = l\<lparr>mline := fst bd\<rparr> in
      case snd bd of
        No_draw \<Rightarrow> Some ([], l1)
      | Echo c \<Rightarrow> if mlmode then refreshLine mlmode wr prompt l1 else Some (taken wr [[c]], l1)
      | Redraw \<Rightarrow> refreshLine mlmode wr prompt l1)"

section \<open>What the terminal makes of a redrawing\<close>

text \<open>Characters that take one place: the printable ones of ASCII.\<close>

definition printable :: "char \<Rightarrow> bool" where
  "printable c \<longleftrightarrow> 32 \<le> (of_char c :: nat) \<and> (of_char c :: nat) < 127"

lemma printable_plain: "printable c \<Longrightarrow> c \<noteq> ESC \<and> c \<noteq> LF \<and> c \<noteq> NUL"
  by (auto simp: printable_def ESC_def)

lemma term_out_text: "\<forall>c \<in> set t. printable c \<Longrightarrow> term_out (t @ r) s = term_out r (fold put_char t s)"
  by (induction t arbitrary: s) (auto dest: printable_plain)

lemma dec_digits: "take_digits 10 0 (dec n @ r) = take_digits 10 n r"
proof (cases "n = 0")
  case True
  then show ?thesis by (simp add: dec_def digit_in_def)
next
  case False
  then show ?thesis using take_digits_digits_of [of 10 0 n r] by (simp add: dec_def)
qed

lemma term_out_control:
  assumes "digit_in 10 k = None"
  shows "term_out (ESC # CHR ''['' # dec n @ k # r) s = term_out r (control n k s)"
  using assms dec_digits [of n "k # r"] by (simp add: ESC_def)

declare term_out.simps(2) [simp del]

lemma dec_0: "dec 0 = ''0''"
  by (simp add: dec_def)

lemma dec_1: "dec 1 = ''1''"
  by (simp add: dec_def digits_of.simps digit_char_def)

lemma letters_no_digits: "k \<in> {CHR ''A'', CHR ''B'', CHR ''C'', CHR ''G'', CHR ''K''} \<Longrightarrow> digit_in 10 k = None"
  by (auto simp: digit_in_def)

lemma term_out_home: "term_out (ESC # ''[0G'' @ r) s = term_out r (s\<lparr>sc_col := 0, sc_wrap := False\<rparr>)"
  if "0 < sc_width s"
  using term_out_control [of "CHR ''G''" 0 r s] that by (simp add: dec_0 letters_no_digits control_def min_def max_def)

definition erase_right :: "screen \<Rightarrow> screen" where
  "erase_right s =
     s\<lparr>sc_cell := (sc_cell s)(sc_row s := (\<lambda>j. if sc_col s \<le> j then BLANK else sc_cell s (sc_row s) j))\<rparr>"

lemma term_out_erase: "term_out (ESC # ''[0K'' @ r) s = term_out r (erase_right s)"
  using term_out_control [of "CHR ''K''" 0 r s] by (simp add: dec_0 letters_no_digits control_def erase_right_def)

lemma term_out_up: "term_out (ESC # CHR ''['' # dec n @ CHR ''A'' # r) s =
    term_out r (s\<lparr>sc_row := sc_row s - max 1 n, sc_wrap := False\<rparr>)"
  using term_out_control [of "CHR ''A''" n r s] by (simp add: letters_no_digits control_def)

lemma term_out_down: "term_out (ESC # CHR ''['' # dec n @ CHR ''B'' # r) s =
    term_out r (s\<lparr>sc_row := sc_row s + max 1 n, sc_wrap := False\<rparr>)"
  using term_out_control [of "CHR ''B''" n r s] by (simp add: letters_no_digits control_def)

lemma term_out_right: "term_out (ESC # CHR ''['' # dec n @ CHR ''C'' # r) s =
    term_out r (s\<lparr>sc_col := min (sc_col s + max 1 n) (sc_width s - 1), sc_wrap := False\<rparr>)"
  using term_out_control [of "CHR ''C''" n r s] by (simp add: letters_no_digits control_def)

lemma term_out_column: "term_out (ESC # CHR ''['' # dec n @ CHR ''G'' # r) s =
    term_out r (s\<lparr>sc_col := min (max 1 n) (sc_width s) - 1, sc_wrap := False\<rparr>)"
  using term_out_control [of "CHR ''G''" n r s] by (simp add: letters_no_digits control_def)

text \<open>
  The place of the cursor counted in characters from the start of the screen: \<open>at_place s g\<close> says that the
  next character goes to place \<open>g\<close>.
\<close>

definition at_place :: "screen \<Rightarrow> nat \<Rightarrow> bool" where
  "at_place s g \<longleftrightarrow> sc_col s < sc_width s \<and>
     (if sc_wrap s then sc_col s + 1 = sc_width s \<and> g = sc_row s * sc_width s + sc_col s + 1
      else g = sc_row s * sc_width s + sc_col s)"

definition put_at :: "nat \<Rightarrow> string \<Rightarrow> screen \<Rightarrow> nat \<Rightarrow> nat \<Rightarrow> char" where
  "put_at g t s i j =
     (let k = i * sc_width s + j in if g \<le> k \<and> k < g + length t then t ! (k - g) else sc_cell s i j)"

lemma place_unique:
  fixes j :: nat
  assumes "j < w" "j' < w" "i * w + j = i' * w + j'"
  shows "i = i' \<and> j = j'"
proof -
  have "(i * w + j) div w = i" "(i' * w + j') div w = i'" "(i * w + j) mod w = j" "(i' * w + j') mod w = j'"
    using assms(1,2) by simp_all
  then show ?thesis using assms(3) by metis
qed

lemma put_char_place:
  assumes "at_place s g"
  shows "at_place (put_char x s) (Suc g)" and "sc_width (put_char x s) = sc_width s"
    and "j < sc_width s \<Longrightarrow> sc_cell (put_char x s) i j = put_at g [x] s i j"
    and "sc_wrap (put_char x s) \<longleftrightarrow> Suc g mod sc_width s = 0"
proof -
  define r where "r = (if sc_wrap s then sc_row s + 1 else sc_row s)"
  define c where "c = (if sc_wrap s then 0 else sc_col s)"
  have c: "c < sc_width s" "g = r * sc_width s + c" using assms by (auto simp: at_place_def r_def c_def split: if_splits)
  have p: "put_char x s = (if c + 1 < sc_width s then
      s\<lparr>sc_row := r, sc_col := c + 1, sc_wrap := False, sc_cell := (sc_cell s)(r := (sc_cell s r)(c := x))\<rparr>
    else s\<lparr>sc_row := r, sc_col := c, sc_wrap := True, sc_cell := (sc_cell s)(r := (sc_cell s r)(c := x))\<rparr>)"
    by (auto simp: put_char_def Let_def r_def c_def)
  show "at_place (put_char x s) (Suc g)" using c by (auto simp: p at_place_def)
  show "sc_width (put_char x s) = sc_width s" by (simp add: p)
  show "j < sc_width s \<Longrightarrow> sc_cell (put_char x s) i j = put_at g [x] s i j"
    using c place_unique [of j "sc_width s" c i r] by (auto simp: p put_at_def Let_def)
  have "Suc g mod sc_width s = (if c + 1 < sc_width s then c + 1 else 0)" using c
    by (auto simp: mod_simps Suc_lessI mod_Suc)
  then show "sc_wrap (put_char x s) \<longleftrightarrow> Suc g mod sc_width s = 0" by (auto simp: p)
qed

lemma put_text_place:
  assumes "at_place s g"
  shows "at_place (fold put_char t s) (g + length t)" and "sc_width (fold put_char t s) = sc_width s"
    and "j < sc_width s \<Longrightarrow> sc_cell (fold put_char t s) i j = put_at g t s i j"
    and "t \<noteq> [] \<Longrightarrow> sc_wrap (fold put_char t s) \<longleftrightarrow> (g + length t) mod sc_width s = 0"
proof -
  have "at_place (fold put_char t s) (g + length t) \<and> sc_width (fold put_char t s) = sc_width s \<and>
    (\<forall>i j. j < sc_width s \<longrightarrow> sc_cell (fold put_char t s) i j = put_at g t s i j) \<and>
    (t \<noteq> [] \<longrightarrow> (sc_wrap (fold put_char t s) \<longleftrightarrow> (g + length t) mod sc_width s = 0))"
    using assms
  proof (induction t arbitrary: s g)
    case Nil
    then show ?case by (auto simp: put_at_def Let_def)
  next
    case (Cons x t)
    have "put_at (Suc g) t (put_char x s) i j = put_at g (x # t) s i j" if "j < sc_width s" for i j
      using put_char_place(2,3) [OF Cons.prems] that
      by (auto simp: put_at_def Let_def nth_Cons' Suc_le_eq)
    then show ?case using Cons.IH [OF put_char_place(1) [OF Cons.prems], of x] put_char_place(2,4) [OF Cons.prems, of x]
      by (cases t) auto
  qed
  then show "at_place (fold put_char t s) (g + length t)" "sc_width (fold put_char t s) = sc_width s"
    "j < sc_width s \<Longrightarrow> sc_cell (fold put_char t s) i j = put_at g t s i j"
    "t \<noteq> [] \<Longrightarrow> sc_wrap (fold put_char t s) \<longleftrightarrow> (g + length t) mod sc_width s = 0"
    by auto
qed

lemma at_place_row:
  assumes "at_place s (r * sc_width s + m)" and "0 < m" and "m \<le> sc_width s"
    and "sc_wrap s \<longleftrightarrow> (r * sc_width s + m) mod sc_width s = 0"
  shows "sc_row s = r" and "sc_col s = min m (sc_width s - 1)"
proof -
  have w: "sc_wrap s \<longleftrightarrow> m = sc_width s" using assms(2-4) by auto
  have "sc_row s = r \<and> sc_col s = min m (sc_width s - 1)"
  proof (cases "m = sc_width s")
    case True
    have c: "sc_col s + 1 = sc_width s" "r * sc_width s + m = sc_row s * sc_width s + sc_col s + 1"
      using assms(1) w True by (simp_all add: at_place_def)
    then have "r * sc_width s + sc_col s = sc_row s * sc_width s + sc_col s" using True by linarith
    then show ?thesis using c True by auto
  next
    case False
    then have "sc_col s < sc_width s" "r * sc_width s + m = sc_row s * sc_width s + sc_col s" "m < sc_width s"
      using assms w by (auto simp: at_place_def)
    then show ?thesis using place_unique [of m "sc_width s" "sc_col s" r "sc_row s"] by auto
  qed
  then show "sc_row s = r" "sc_col s = min m (sc_width s - 1)" by blast+
qed

text \<open>
  \<open>line_shown s r t c\<close>: row \<open>r\<close> shows \<open>t\<close> and blanks, with the cursor in column \<open>c\<close>.
\<close>

definition row_shows :: "screen \<Rightarrow> nat \<Rightarrow> string \<Rightarrow> bool" where
  "row_shows s r t \<longleftrightarrow> (\<forall>j < sc_width s. sc_cell s r j = (if j < length t then t ! j else BLANK))"

definition line_shown :: "screen \<Rightarrow> nat \<Rightarrow> string \<Rightarrow> nat \<Rightarrow> bool" where
  "line_shown s r t c \<longleftrightarrow> sc_row s = r \<and> sc_col s = c \<and> \<not> sc_wrap s \<and> row_shows s r t"

definition other_rows_kept :: "screen \<Rightarrow> nat \<Rightarrow> screen \<Rightarrow> bool" where
  "other_rows_kept s r s' \<longleftrightarrow> sc_width s' = sc_width s \<and> (\<forall>i j. i \<noteq> r \<longrightarrow> j < sc_width s \<longrightarrow> sc_cell s' i j = sc_cell s i j)"

lemma fresh_line_text:
  assumes "sc_col s = 0" and "\<not> sc_wrap s" and "0 < length t" and "length t \<le> sc_width s"
  defines "s' \<equiv> erase_right (fold put_char t s)"
  shows "row_shows s' (sc_row s) (take (sc_width s - 1) t)" and "other_rows_kept s (sc_row s) s'" and "sc_row s' = sc_row s"
proof -
  define f where "f = fold put_char t s"
  define w where "w = sc_width s"
  have "0 < sc_width s" using assms(3,4) by linarith
  then have a: "at_place s (sc_row s * w)" using assms(1,2) by (simp add: at_place_def w_def)
  note p = put_text_place [OF a, where t = t, folded f_def w_def]
  have wf: "sc_width f = w" by (rule p(2))
  have "t \<noteq> []" using assms by auto
  then have rc: "sc_row f = sc_row s" "sc_col f = min (length t) (w - 1)"
    using at_place_row [of f "sc_row s" "length t"] p(1,4) assms wf by (simp_all add: w_def)
  have put: "put_at (sc_row s * w) t s (sc_row s) j = (if j < length t then t ! j else sc_cell s (sc_row s) j)" if "j < w" for j
    by (auto simp: put_at_def Let_def w_def)
  have other: "put_at (sc_row s * w) t s i j = sc_cell s i j" if "j < w" "i \<noteq> sc_row s" for i j
  proof (rule ccontr)
    assume "\<not> ?thesis"
    then have k: "sc_row s * w \<le> i * w + j" "i * w + j < sc_row s * w + length t"
      by (auto simp: put_at_def Let_def w_def split: if_splits)
    then obtain m where m: "i * w + j = sc_row s * w + m" "m < length t" using le_Suc_ex by fastforce
    then have "m < w" using assms(4) by (simp add: w_def)
    then show False using m(1) that place_unique [of j w m i "sc_row s"] by simp
  qed
  show "sc_row s' = sc_row s" using rc by (simp add: s'_def erase_right_def f_def)
  show "other_rows_kept s (sc_row s) s'"
    using p(3) other rc wf by (auto simp: other_rows_kept_def s'_def erase_right_def f_def w_def)
  show "row_shows s' (sc_row s) (take (sc_width s - 1) t)"
    unfolding row_shows_def
  proof (intro allI impI)
    fix j assume "j < sc_width s'"
    then have j: "j < w" using wf by (simp add: s'_def erase_right_def f_def)
    have "sc_cell s' (sc_row s) j = (if sc_col f \<le> j then BLANK else sc_cell f (sc_row s) j)"
      using rc by (simp add: s'_def erase_right_def f_def [symmetric])
    then show "sc_cell s' (sc_row s) j = (if j < length (take (sc_width s - 1) t) then take (sc_width s - 1) t ! j else BLANK)"
      using rc(2) p(3) [OF j] put [OF j] j assms(4) by (auto simp: w_def min_def)
  qed
qed

lemma int_of_size_small: "n < 2 ^ 31 \<Longrightarrow> int_of_size (word_of_nat n) = int n"
proof -
  assume n: "n < 2 ^ 31"
  have u: "ucast (word_of_nat n :: 64 word) = (word_of_nat n :: 32 word)"
    using n by (simp add: unsigned_of_nat take_bit_nat_eq_self)
  have "sint (word_of_nat n :: 32 word) = int n"
    using n by (simp add: signed_of_nat signed_take_bit_int_eq_self)
  then show ?thesis by (simp add: int_of_size_def u)
qed

lemma int_text_nat [simp]: "int_text (int n) = dec n"
  by (simp add: int_text_def)

text \<open>The single line mode: the row shows the prompt and the part of the text around the cursor.\<close>

definition shown_from :: "string \<Rightarrow> lnstate \<Rightarrow> nat" where
  "shown_from prompt l = length prompt + pos l + 1 - cols l"

definition text_of :: "lnstate \<Rightarrow> string" where
  "text_of l = take (len l) (lbuf l)"

definition single_shown :: "screen \<Rightarrow> nat \<Rightarrow> string \<Rightarrow> lnstate \<Rightarrow> bool" where
  "single_shown s r prompt l \<longleftrightarrow>
     line_shown s r (take (cols l - 1) (prompt @ drop (shown_from prompt l) (text_of l)))
       (length prompt + pos l - shown_from prompt l)"

definition drawable :: "string \<Rightarrow> lnstate \<Rightarrow> bool" where
  "drawable prompt l \<longleftrightarrow> ln_ok l \<and> prompt \<noteq> [] \<and> length prompt < cols l \<and> plen l = length prompt \<and>
     cols l < 2 ^ 16 \<and> buflen l < 2 ^ 16 \<and> (\<forall>c \<in> set (prompt @ text_of l). printable c)"

lemma refreshSingleLine_text:
  assumes "ln_ok l" and "length prompt < cols l" and "cols l < 2 ^ 16" and "buflen l < 2 ^ 16"
  defines "k \<equiv> shown_from prompt l"
  shows "\<exists>n p. refreshSingleLine prompt l =
    Some ([[ESC] @ ''[0G'', prompt, take (cols l - length prompt) (drop k (text_of l)), [ESC] @ ''[0K'',
      [ESC] @ ''[0G'' @ [ESC] @ ''['' @ dec (length prompt + pos l - k) @ ''C''], k, n, p)"
proof -
  define n where "n = min (len l - k) (cols l - length prompt)"
  have o: "pos l \<le> len l" "len l < 2 ^ 16" using assms(1,4) by (auto simp: ln_ok_def)
  have k: "k \<le> pos l" using assms(2) by (simp add: k_def shown_from_def)
  have s: "scroll (word_of_nat (length prompt)) (word_of_nat (cols l)) 0 (word_of_nat (len l)) (word_of_nat (pos l)) =
      Some (k, word_of_nat (len l - k), word_of_nat (pos l - k))"
    using scroll_nat [of "length prompt" "cols l" "pos l" "len l" 0] assms o by (simp add: k_def shown_from_def)
  have c: "clip (word_of_nat (length prompt)) (word_of_nat (cols l)) (word_of_nat (len l - k)) = Some (word_of_nat n)"
    using clip_nat [of "length prompt" "cols l" "len l - k"] assms o by (simp add: n_def)
  have u: "unat (word_of_nat n :: 64 word) = n"
    using o by (simp add: unat_word64 n_def min_def)
  have t: "take n (drop k (lbuf l)) = take (cols l - length prompt) (drop k (text_of l))"
    using k o by (simp add: text_of_def n_def drop_take min.commute)
  have "pos l - k + length prompt = length prompt + pos l - k" using k by simp
  moreover have "length prompt + pos l - k < 2 ^ 31" using assms(2,3) by (simp add: k_def shown_from_def)
  ultimately have i: "sint (ucast (word_of_nat (pos l - k) + word_of_nat (length prompt) :: 64 word) :: 32 word) =
      int (length prompt + pos l - k)"
    using int_of_size_small [of "length prompt + pos l - k"] by (simp only: int_of_size_def of_nat_add [symmetric])
  show ?thesis using s c u t i by (simp add: refreshSingleLine_def Let_def del: of_nat_add)
qed

lemma refresh_single_shows:
  assumes d: "drawable prompt l" and w: "sc_width s = cols l" "sc_row s = r" and run: "refreshSingleLine prompt l = Some (out, z)"
  shows "single_shown (term_out (concat out) s) r prompt l \<and> other_rows_kept s r (term_out (concat out) s)"
proof -
  define k where "k = shown_from prompt l"
  define t where "t = prompt @ take (cols l - length prompt) (drop k (text_of l))"
  define c where "c = length prompt + pos l - k"
  define s1 where "s1 = s\<lparr>sc_col := 0, sc_wrap := False\<rparr>"
  define s2 where "s2 = erase_right (fold put_char t s1)"
  define s3 where "s3 = s2\<lparr>sc_col := 0, sc_wrap := False\<rparr>"
  have d': "ln_ok l" "length prompt < cols l" "cols l < 2 ^ 16" "buflen l < 2 ^ 16" "prompt \<noteq> []"
    using d by (auto simp: drawable_def)
  obtain n p where out: "out = [[ESC] @ ''[0G'', prompt, take (cols l - length prompt) (drop k (text_of l)), [ESC] @ ''[0K'',
      [ESC] @ ''[0G'' @ [ESC] @ ''['' @ dec c @ ''C'']"
    using refreshSingleLine_text [OF d'(1-4)] run by (auto simp: k_def c_def)
  have pr: "\<forall>x \<in> set t. printable x" using d unfolding drawable_def t_def by (auto dest!: in_set_takeD in_set_dropD)
  have lt: "0 < length t" "length t \<le> sc_width s1" using d' w(1) by (auto simp: t_def s1_def)
  note f = fresh_line_text [of s1 t, OF _ _ lt, folded s2_def]
  have s1: "sc_col s1 = 0" "\<not> sc_wrap s1" "sc_row s1 = r" "sc_width s1 = cols l" using w by (simp_all add: s1_def)
  have w2: "sc_width s2 = cols l" using f(2) s1 by (simp add: other_rows_kept_def)
  have "0 < length prompt" using d'(5) by simp
  then have c: "0 < c" "c < cols l" unfolding c_def k_def shown_from_def using d'(2) by linarith+
  have w0: "0 < sc_width s" using w d' by simp
  have "term_out (concat out) s =
      term_out (t @ ([ESC] @ ''[0K'' @ [ESC] @ ''[0G'' @ [ESC] @ ''['' @ dec c @ ''C'')) s1"
    using term_out_home [OF w0] by (simp add: out t_def s1_def)
  also have "\<dots> = term_out ([ESC] @ ''[0G'' @ [ESC] @ ''['' @ dec c @ ''C'') s2"
    using term_out_erase by (simp only: term_out_text [OF pr] s2_def append_Cons append_Nil)
  also have "\<dots> = term_out ([ESC] @ ''['' @ dec c @ ''C'') s3"
    using term_out_home [of s2 "[ESC] @ ''['' @ dec c @ ''C''"] w2 d' by (simp add: s3_def)
  also have "\<dots> = s3\<lparr>sc_col := c\<rparr>"
    using term_out_right [of c "[]" s3] c w2 by (simp add: s3_def)
  finally have e: "term_out (concat out) s = s3\<lparr>sc_col := c\<rparr>" .
  have tt: "take (cols l - 1) t = take (cols l - 1) (prompt @ drop k (text_of l))"
    using d'(2) by (simp add: t_def min_def)
  have same: "row_shows (s3\<lparr>sc_col := c\<rparr>) r x = row_shows s2 r x" for x by (simp add: row_shows_def s3_def)
  have "row_shows s2 r (take (cols l - 1) (prompt @ drop k (text_of l)))" using f(1) s1 tt by simp
  moreover have "other_rows_kept s r (s3\<lparr>sc_col := c\<rparr>)"
    using f(2) s1 by (simp add: other_rows_kept_def s3_def s1_def)
  ultimately show ?thesis using f(3) s1 unfolding e
    by (simp add: single_shown_def line_shown_def same k_def [symmetric] c_def [symmetric]) (simp add: s3_def)
qed

text \<open>The multi line mode: the numbers it computes.\<close>

lemma size_div: "a < 2 ^ 31 \<Longrightarrow> b < 2 ^ 31 \<Longrightarrow> int_of_size (word_of_nat a div word_of_nat b) = int (a div b)"
proof -
  assume a: "a < 2 ^ 31" "b < 2 ^ 31"
  have le: "a div b < 2 ^ 64" using a(1) by (simp add: le_less_trans [OF div_le_dividend])
  have "(word_of_nat a div word_of_nat b :: 64 word) = word_of_nat (a div b)"
    by (rule unsigned_word_eqI [where ?'a = nat]) (use a le in \<open>simp add: unat_div unat_word64\<close>)
  moreover have "a div b < 2 ^ 31" using a(1) by (metis div_le_dividend le_less_trans)
  ultimately show ?thesis using int_of_size_small by simp
qed

lemma size_mod: "a < 2 ^ 31 \<Longrightarrow> b < 2 ^ 31 \<Longrightarrow> (word_of_nat a mod word_of_nat b = (0 :: 64 word)) = (a mod b = 0)"
proof -
  assume a: "a < 2 ^ 31" "b < 2 ^ 31"
  have "unat (word_of_nat a mod word_of_nat b :: 64 word) = a mod b"
    using a by (simp add: unat_mod unat_word64)
  then show ?thesis by (metis unat_eq_zero)
qed

lemma c_rem_nat: "c_rem (int a) (int b) = int (a mod b)"
  by (cases "a = 0") (simp_all add: c_rem_def zmod_int)

lemma rows_up: "0 < w \<Longrightarrow> (m + w - 1) div w = (if m mod w = 0 then m div w else m div w + 1)" for m w :: nat
proof -
  assume w: "0 < w"
  define q r where "q = m div w" and "r = m mod w"
  have m: "m = q * w + r" "r < w" using w by (simp_all add: q_def r_def)
  show ?thesis
  proof (cases "r = 0")
    case True
    then have "m + w - 1 = (w - 1) + q * w" using w m by simp
    moreover have "((w - 1) + q * w) div w = q + (w - 1) div w" by (rule div_mult_self1) (use w in simp)
    ultimately have "(m + w - 1) div w = q + (w - 1) div w" by simp
    then show ?thesis using True w by (simp add: q_def r_def)
  next
    case False
    then have "m + w - 1 = (r - 1) + (q + 1) * w" using w m by simp
    moreover have "((r - 1) + (q + 1) * w) div w = (q + 1) + (r - 1) div w" by (rule div_mult_self1) (use w in simp)
    ultimately have "(m + w - 1) div w = (q + 1) + (r - 1) div w" by simp
    then show ?thesis using False m(2) by (simp add: q_def r_def)
  qed
qed

lemma row_before: "0 < w \<Longrightarrow> 0 < m \<Longrightarrow> (m - 1) div w + 1 = (m + w - 1) div w" for m w :: nat
  using div_add_self2 [of w "m - 1"] by simp

definition at_line_end :: "string \<Rightarrow> lnstate \<Rightarrow> bool" where
  "at_line_end prompt b \<longleftrightarrow> pos b \<noteq> 0 \<and> pos b = len b \<and> (length prompt + pos b) mod cols b = 0"

definition rows_used :: "string \<Rightarrow> lnstate \<Rightarrow> nat" where
  "rows_used prompt b = (length prompt + len b + cols b - 1) div cols b"

definition last_row :: "string \<Rightarrow> lnstate \<Rightarrow> nat" where
  "last_row prompt b = rows_used prompt b + (if at_line_end prompt b then 1 else 0)"

lemma refreshMultiLine_text:
  assumes b: "b = mline l" and small: "length prompt < 2 ^ 16" "len b < 2 ^ 16" "pos b < 2 ^ 16" "oldpos l < 2 ^ 16"
    "cols b < 2 ^ 16" "0 < cols b" "maxrows l < 2 ^ 18"
  shows "refreshMultiLine None prompt l =
    (multi_start (int (maxrows l)) (int ((length prompt + oldpos l) div cols b + 1)) prompt (text_of b) @
     multi_newline (at_line_end prompt b) @
     multi_finish (int (last_row prompt b)) (int ((length prompt + pos b) div cols b + 1))
       (int ((length prompt + pos b) mod cols b)),
     l\<lparr>maxrows := max (maxrows l) (last_row prompt b), oldpos := pos b\<rparr>)"
proof -
  define R where "R = rows_used prompt b"
  have pl: "int_of_size (word_of_nat (length prompt)) = int (length prompt)"
    "int_of_size (word_of_nat (pos b)) = int (pos b)" "int_of_size (word_of_nat (cols b)) = int (cols b)"
    "int_of_size (word_of_nat (maxrows l)) = int (maxrows l)"
    using small by (simp_all add: int_of_size_small)
  have rows: "int_of_size ((word_of_nat (length prompt) + word_of_nat (len b) + word_of_nat (cols b) - 1) div word_of_nat (cols b)) = int R"
  proof -
    have "(word_of_nat (length prompt) + word_of_nat (len b) + word_of_nat (cols b) - 1 :: 64 word) =
        word_of_nat (length prompt + len b + cols b - 1)"
      using small(6) by (simp add: of_nat_diff)
    then show ?thesis using size_div [of "length prompt + len b + cols b - 1" "cols b"] small by (simp add: R_def rows_used_def)
  qed
  have rp: "int_of_size ((word_of_nat (length prompt) + word_of_nat x + word_of_nat (cols b)) div word_of_nat (cols b)) =
      int ((length prompt + x) div cols b + 1)" if "x < 2 ^ 16" for x
  proof -
    have "(word_of_nat (length prompt) + word_of_nat x + word_of_nat (cols b) :: 64 word) = word_of_nat (length prompt + x + cols b)"
      by simp
    then show ?thesis using size_div [of "length prompt + x + cols b" "cols b"] small that by (simp add: div_add_self2)
  qed
  have ae: "((word_of_nat (pos b) + word_of_nat (length prompt)) mod word_of_nat (cols b) = (0 :: 64 word)) =
      ((length prompt + pos b) mod cols b = 0)"
    using size_mod [of "length prompt + pos b" "cols b"] small by (simp add: add.commute)
  have col: "c_rem (int (length prompt) + int (pos b)) (int (cols b)) = int ((length prompt + pos b) mod cols b)"
    using c_rem_nat [of "length prompt + pos b" "cols b"] by simp
  have Rs: "R < 2 ^ 18" "R + 1 < 2 ^ 31"
  proof -
    have "R \<le> length prompt + len b + cols b - 1" by (simp add: R_def rows_used_def)
    then show "R < 2 ^ 18" "R + 1 < 2 ^ 31" using small by simp_all
  qed
  have u: "unat (word_of_int (int x) :: 64 word) = x" "int_of_size (word_of_int (int x)) = int x" if "x < 2 ^ 31" for x
    using that int_of_size_small [OF that] by (simp_all add: unat_word64)
  have tk: "taken None xs = xs" "all_taken None xs = True" for xs by (simp_all add: taken_def all_taken_def)
  define ae' where "ae' = at_line_end prompt b"
  define l1 where "l1 = (if int R > int (maxrows l) then l\<lparr>maxrows := R\<rparr> else l)"
  have m1: "int_of_size (word_of_nat (maxrows l1)) = int (maxrows l1)"
    using pl(4) Rs int_of_size_small by (simp add: l1_def)
  have r2: "(if ae' then int R + 1 else int R) = int (last_row prompt b)"
    by (simp add: ae'_def last_row_def R_def)
  have l2: "(if ae' \<and> int (last_row prompt b) > int (maxrows l1) then l1\<lparr>maxrows := last_row prompt b\<rparr> else l1) =
      l\<lparr>maxrows := max (maxrows l) (last_row prompt b)\<rparr>"
    by (auto simp: l1_def last_row_def R_def [symmetric] ae'_def max_def)
  have L: "last_row prompt b < 2 ^ 31" using Rs by (simp add: last_row_def R_def)
  have l1w: "(if int R > int (maxrows l) then l\<lparr>maxrows := unat (word_of_int (int R) :: 64 word)\<rparr> else l) = l1"
    using u(1) [of R] Rs by (simp add: l1_def)
  have ae2: "(pos b \<noteq> 0 \<and> pos b = len b \<and> (length prompt + pos b) mod cols b = 0) = ae'"
    by (simp add: ae'_def at_line_end_def)
  show ?thesis
    unfolding refreshMultiLine_def Let_def b [symmetric] pl tk of_int_of_nat_eq rows rp [OF small(3)] rp [OF small(4)] ae col
    unfolding l1w [unfolded of_int_of_nat_eq] m1 ae2 r2 ae'_def [symmetric] text_of_def [symmetric]
    by (simp only: not_True_eq_False if_False u(1) [OF L] l2)
qed

text \<open>The multi line mode: what the screen shows, from row \<open>r\<close> on, with the cursor at place \<open>g\<close> of the text.\<close>

definition rows_show :: "screen \<Rightarrow> nat \<Rightarrow> string \<Rightarrow> bool" where
  "rows_show s r t \<longleftrightarrow>
     (\<forall>i j. j < sc_width s \<longrightarrow> sc_cell s (r + i) j =
        (if i * sc_width s + j < length t then t ! (i * sc_width s + j) else BLANK))"

definition cursor_in :: "screen \<Rightarrow> nat \<Rightarrow> nat \<Rightarrow> bool" where
  "cursor_in s r g \<longleftrightarrow> sc_row s = r + g div sc_width s \<and> sc_col s = g mod sc_width s \<and> \<not> sc_wrap s"

definition rows_above_kept :: "screen \<Rightarrow> nat \<Rightarrow> screen \<Rightarrow> bool" where
  "rows_above_kept s r s' \<longleftrightarrow>
     sc_width s' = sc_width s \<and> (\<forall>i j. i < r \<longrightarrow> j < sc_width s \<longrightarrow> sc_cell s' i j = sc_cell s i j)"

lemma rows_above_kept_trans: "rows_above_kept s r s' \<Longrightarrow> rows_above_kept s' r s'' \<Longrightarrow> rows_above_kept s r s''"
  by (simp add: rows_above_kept_def)

text \<open>Clearing rows upwards.\<close>

lemma clear_rows:
  assumes "sc_row s = r + n" and "0 < sc_width s"
  shows "\<exists>s'. term_out (concat (replicate n ([ESC] @ ''[0G'' @ [ESC] @ ''[0K'' @ [ESC] @ ''[1A'')) @ t) s = term_out t s' \<and>
    sc_row s' = r \<and> sc_width s' = sc_width s \<and>
    (\<forall>i j. sc_cell s' i j = (if r < i \<and> i \<le> r + n then BLANK else sc_cell s i j))"
  using assms
proof (induction n arbitrary: s)
  case 0
  then show ?case by auto
next
  case (Suc n)
  define s1 where "s1 = s\<lparr>sc_col := 0, sc_wrap := False\<rparr>"
  define s2 where "s2 = (erase_right s1)\<lparr>sc_row := r + n, sc_wrap := False\<rparr>"
  define q where "q = concat (replicate n ([ESC] @ ''[0G'' @ [ESC] @ ''[0K'' @ [ESC] @ ''[1A'')) @ t"
  have w: "0 < sc_width s" by fact
  have r: "sc_row (erase_right s1) - max 1 1 = r + n" using Suc.prems(1) by (simp add: s1_def erase_right_def)
  have "term_out (concat (replicate (Suc n) ([ESC] @ ''[0G'' @ [ESC] @ ''[0K'' @ [ESC] @ ''[1A'')) @ t) s =
      term_out (ESC # ''[0G'' @ (ESC # ''[0K'' @ (ESC # CHR ''['' # dec 1 @ CHR ''A'' # q))) s"
    by (simp add: q_def dec_1 [simplified])
  also have "\<dots> = term_out (ESC # CHR ''['' # dec 1 @ CHR ''A'' # q) (erase_right s1)"
    unfolding term_out_home [OF w] term_out_erase s1_def ..
  also have "\<dots> = term_out q s2" unfolding term_out_up r s2_def ..
  finally have e: "term_out (concat (replicate (Suc n) ([ESC] @ ''[0G'' @ [ESC] @ ''[0K'' @ [ESC] @ ''[1A'')) @ t) s = term_out q s2" .
  have p: "sc_row s2 = r + n" "sc_width s2 = sc_width s" by (simp_all add: s2_def erase_right_def s1_def)
  obtain s' where s': "term_out q s2 = term_out t s'" "sc_row s' = r" "sc_width s' = sc_width s2"
    "\<forall>i j. sc_cell s' i j = (if r < i \<and> i \<le> r + n then BLANK else sc_cell s2 i j)"
    using Suc.IH [OF p(1)] p(2) w unfolding q_def by metis
  have "sc_cell s2 i j = (if i = r + Suc n then BLANK else sc_cell s i j)" for i j
    using Suc.prems(1) by (simp add: s2_def erase_right_def s1_def)
  then show ?case using e s' p by (intro exI [of _ s']) auto
qed

text \<open>Writing a text from the start of a row whose rows below are blank.\<close>

lemma blank_rows_text:
  assumes "sc_row s = r" and "sc_col s = 0" and "\<not> sc_wrap s" and "t \<noteq> []" and "0 < sc_width s"
    and "rows_show s r []"
  shows "rows_show (fold put_char t s) r t" and "rows_above_kept s r (fold put_char t s)"
    and "sc_wrap (fold put_char t s) \<longleftrightarrow> length t mod sc_width s = 0"
    and "sc_row (fold put_char t s) = r + (length t - 1) div sc_width s"
proof -
  define f where "f = fold put_char t s"
  define w where "w = sc_width s"
  have a: "at_place s (r * w)" using assms by (simp add: at_place_def w_def)
  note p = put_text_place [OF a, where t = t, folded f_def w_def]
  show wr: "sc_wrap f \<longleftrightarrow> length t mod w = 0" using p(4) assms(4) by simp
  show "rows_show f r t"
    unfolding rows_show_def p(2)
  proof (intro allI impI)
    fix i j assume j: "j < w"
    have "(r + i) * w + j = r * w + (i * w + j)" by (simp add: algebra_simps)
    then have "put_at (r * w) t s (r + i) j = (if i * w + j < length t then t ! (i * w + j) else sc_cell s (r + i) j)"
      by (simp add: put_at_def Let_def w_def [symmetric])
    moreover have "sc_cell s (r + i) j = BLANK" using assms(6) j by (simp add: rows_show_def w_def)
    ultimately show "sc_cell f (r + i) j = (if i * w + j < length t then t ! (i * w + j) else BLANK)"
      using p(3) [OF j] by simp
  qed
  show "rows_above_kept s r f"
    unfolding rows_above_kept_def
  proof (intro conjI allI impI)
    show "sc_width f = sc_width s" using p(2) by (simp add: w_def)
    fix i j assume "i < r" "j < sc_width s"
    then have "i * w + j < r * w" using slot_in_array [of i r w] by (simp add: w_def)
    then show "sc_cell f i j = sc_cell s i j" using p(3) [of j i] \<open>j < sc_width s\<close>
      by (simp add: put_at_def Let_def w_def)
  qed
  define m where "m = length t - 1"
  have m: "length t = Suc m" using assms(4) by (simp add: m_def)
  have "sc_col f < w \<and> r * w + m = sc_row f * w + sc_col f \<or> sc_col f < w \<and> 0 < sc_col f \<and> r * w + m = sc_row f * w + (sc_col f - 1)
      \<or> sc_col f < w \<and> sc_col f = 0 \<and> \<not> sc_wrap f"
    using p(1) m by (auto simp: at_place_def p(2) split: if_splits)
  moreover have "\<not> (sc_col f = 0 \<and> \<not> sc_wrap f)"
  proof
    assume z: "sc_col f = 0 \<and> \<not> sc_wrap f"
    then have "r * w + length t = sc_row f * w" using p(1) by (simp add: at_place_def p(2))
    then have "(r * w + length t) mod w = 0" by simp
    then show False using z wr by simp
  qed
  ultimately obtain c where "c < w" "sc_row f * w + c = r * w + m" by (metis less_imp_diff_less)
  then have "(r * w + m) div w = sc_row f" by (metis add.commute div_mult_self3 div_less assms(5) w_def add_cancel_right_right less_not_refl3)
  moreover have "(r * w + m) div w = r + m div w" using assms(5) by (simp add: w_def)
  ultimately show "sc_row f = r + (length t - 1) div w" by (simp add: m_def)
qed

text \<open>
  \<open>multi_shown s r prompt l\<close>: from row \<open>r\<close> on the screen shows the prompt and the text, with the cursor in the
  text, and the fields that remember the last redrawing are right.
\<close>

definition multi_shown :: "screen \<Rightarrow> nat \<Rightarrow> string \<Rightarrow> mlstate \<Rightarrow> bool" where
  "multi_shown s r prompt l \<longleftrightarrow>
     (let b = mline l; m = length prompt + len b; g = length prompt + pos b in
      sc_width s = cols b \<and> rows_show s r (prompt @ text_of b) \<and> cursor_in s r g \<and> oldpos l = pos b \<and> maxrows l < 2 ^ 18 \<and>
      (maxrows l = 0 \<and> m < cols b \<or> m \<le> maxrows l * cols b \<and> g div cols b < maxrows l))"

lemma multi_rows:
  assumes "drawable prompt b"
  defines "m \<equiv> length prompt + len b" and "g \<equiv> length prompt + pos b"
  shows "m \<le> last_row prompt b * cols b" and "g div cols b < last_row prompt b"
    and "at_line_end prompt b \<Longrightarrow> m mod cols b = 0 \<and> g = m \<and> last_row prompt b = m div cols b + 1"
    and "\<not> at_line_end prompt b \<Longrightarrow> (m - 1) div cols b + 1 = last_row prompt b"
    and "last_row prompt b < 2 ^ 18"
proof -
  define w where "w = cols b"
  have d: "pos b \<le> len b" "0 < length prompt" "length prompt < w" "w < 2 ^ 16" "len b < 2 ^ 16"
    using assms(1) by (auto simp: drawable_def ln_ok_def w_def)
  have R: "rows_used prompt b = (if m mod w = 0 then m div w else m div w + 1)"
    using rows_up [of w m] d by (simp add: rows_used_def m_def w_def)
  have mw: "m = m div w * w + m mod w" "m mod w < w" using d by simp_all
  have gm: "g \<le> m" "g div w \<le> m div w" using d by (simp_all add: g_def m_def div_le_mono)
  have ae: "at_line_end prompt b \<longleftrightarrow> pos b \<noteq> 0 \<and> g = m \<and> m mod w = 0"
    by (auto simp: at_line_end_def g_def m_def w_def)
  have z: "g = m \<and> m mod w = 0 \<longrightarrow> pos b \<noteq> 0"
  proof (intro impI notI)
    assume "g = m \<and> m mod w = 0" "pos b = 0"
    then have "length prompt mod w = 0" by (simp add: g_def)
    then show False using d by simp
  qed
  have less: "g div w < m div w" if "g < m" "m mod w = 0"
  proof -
    have "g < m div w * w" using that mw by simp
    then show ?thesis using d by (simp add: div_less_iff_less_mult)
  qed
  have "rows_used prompt b \<le> last_row prompt b" by (simp add: last_row_def)
  then have "rows_used prompt b * w \<le> last_row prompt b * w" by (rule mult_le_mono1)
  moreover have "m \<le> rows_used prompt b * w"
  proof (cases "m mod w = 0")
    case False
    then have "rows_used prompt b * w = m div w * w + w" using R by simp
    then show ?thesis using mw by linarith
  qed (use mw R in simp)
  ultimately show "m \<le> last_row prompt b * cols b" unfolding w_def by (rule order_trans [rotated])
  show "g div cols b < last_row prompt b"
    using R gm ae z less by (auto simp: last_row_def w_def [symmetric] less_Suc_eq_le)
  show "at_line_end prompt b \<Longrightarrow> m mod cols b = 0 \<and> g = m \<and> last_row prompt b = m div cols b + 1"
    using R ae by (auto simp: last_row_def w_def [symmetric])
  have "(m - 1) div w + 1 = rows_used prompt b" using row_before [of w m] d by (simp add: rows_used_def m_def w_def)
  then show "\<not> at_line_end prompt b \<Longrightarrow> (m - 1) div cols b + 1 = last_row prompt b"
    by (simp add: last_row_def w_def)
  have "m < 2 ^ 17" using d by (simp add: m_def)
  then have "m div w < 2 ^ 17" using div_le_dividend [of m w] by (rule le_less_trans [rotated])
  then show "last_row prompt b < 2 ^ 18" using R by (auto simp: last_row_def)
qed

text \<open>A redrawing when the screen still shows the line as it was before.\<close>

lemma multi_finish_out:
  assumes "p \<le> n" and "x < sc_width s"
  shows "term_out (concat (multi_finish (int n) (int p) (int x))) s = s\<lparr>sc_row := sc_row s - (n - p), sc_col := x, sc_wrap := False\<rparr>"
proof -
  have t: "int_text (1 + int x) = dec (1 + x)" using int_text_nat [of "1 + x"] by simp
  have c: "term_out (ESC # CHR ''['' # dec (1 + x) @ CHR ''G'' # []) s' = s'\<lparr>sc_col := x, sc_wrap := False\<rparr>"
    if "sc_width s' = sc_width s" for s'
    using term_out_column [of "1 + x" "[]" s'] that assms(2) by simp
  show ?thesis
  proof (cases "p < n")
    case True
    then have d: "int_text (int n - int p) = dec (n - p)" using int_text_nat [of "n - p"] by (simp only: of_nat_diff)
    have "term_out (concat (multi_finish (int n) (int p) (int x))) s =
        term_out (ESC # CHR ''['' # dec (n - p) @ CHR ''A'' # (ESC # CHR ''['' # dec (1 + x) @ CHR ''G'' # [])) s"
      using True by (simp add: multi_finish_def t d)
    also have "\<dots> = s\<lparr>sc_row := sc_row s - (n - p), sc_col := x, sc_wrap := False\<rparr>"
      unfolding term_out_up using c True by simp
    finally show ?thesis .
  next
    case False
    then show ?thesis using assms c [of s] by (simp add: multi_finish_def t)
  qed
qed

lemma length_text_of: "ln_ok l \<Longrightarrow> length (text_of l) = len l"
  by (simp add: text_of_def ln_ok_def)

lemma refresh_multi_shows:
  assumes old: "multi_shown s r prompt l" "drawable prompt (mline l)" and d: "drawable prompt b" "cols b = cols (mline l)"
    and run: "refreshMultiLine None prompt (l\<lparr>mline := b\<rparr>) = (out, l')"
  shows "multi_shown (term_out (concat out) s) r prompt l' \<and> mline l' = b \<and> rows_above_kept s r (term_out (concat out) s)"
proof -
  define w where "w = cols b"
  define M where "M = maxrows l"
  define P where "P = (length prompt + oldpos l) div w + 1"
  define t where "t = prompt @ text_of b"
  define L where "L = last_row prompt b"
  define m g where "m = length prompt + len b" and "g = length prompt + pos b"
  have dd: "0 < w" "w < 2 ^ 16" "length prompt < 2 ^ 16" "len b < 2 ^ 16" "pos b < 2 ^ 16" "length prompt < w" "prompt \<noteq> []" "ln_ok b"
    using d(1) by (auto simp: drawable_def ln_ok_def w_def)
  have od: "pos (mline l) \<le> len (mline l)" "len (mline l) < 2 ^ 16" "ln_ok (mline l)"
    using old(2) by (auto simp: drawable_def ln_ok_def)
  have o: "sc_width s = w" "sc_row s = r + (P - 1)" "oldpos l = pos (mline l)" "M < 2 ^ 18"
    "rows_show s r (prompt @ text_of (mline l))" "M = 0 \<and> length prompt + len (mline l) < w \<or> length prompt + len (mline l) \<le> M * w \<and> P \<le> M"
    using old(1) d(2) by (auto simp: multi_shown_def Let_def cursor_in_def w_def M_def P_def)
  have M0: "P = 1" if "M = 0" using o(3,6) od(1) that by (auto simp: P_def)
  have MP: "M = 0 \<or> P \<le> M" using o(6) by auto
  have lt: "length t = m" "t \<noteq> []" using dd by (simp_all add: t_def m_def length_text_of)
  have pr: "\<forall>x \<in> set t. printable x" using d(1) by (simp add: drawable_def t_def)
  define fin where "fin = concat (multi_newline (at_line_end prompt b)) @ concat (multi_finish (int L) (int (g div w + 1)) (int (g mod w)))"
  have e: "concat out = concat (multi_start (int M) (int P) prompt (text_of b)) @ fin"
    and l': "l' = l\<lparr>mline := b, maxrows := max M L, oldpos := pos b\<rparr>"
    using refreshMultiLine_text [of b "l\<lparr>mline := b\<rparr>" prompt] run dd o(3,4) od
    by (auto simp: w_def M_def P_def g_def L_def fin_def)
  text \<open>down to the last row used before\<close>
  define s0 where "s0 = (if P < M then s\<lparr>sc_row := sc_row s + (M - P), sc_wrap := False\<rparr> else s)"
  define q where "q = ESC # ''[0G'' @ (ESC # ''[0K'' @ (t @ fin))"
  have s0: "sc_row s0 = r + (M - 1)" "sc_width s0 = w" "sc_cell s0 = sc_cell s"
    using o(1,2) M0 MP by (auto simp: s0_def P_def)
  have "max 1 (M - P) = M - P" if "P < M" using that by simp
  then have 0: "term_out (concat out) s = term_out (concat (replicate (M - 1) ([ESC] @ ''[0G'' @ [ESC] @ ''[0K'' @ [ESC] @ ''[1A'')) @ q) s0"
    using term_out_down [of "M - P" "concat (replicate (M - 1) ([ESC] @ ''[0G'' @ [ESC] @ ''[0K'' @ [ESC] @ ''[1A'')) @ q" s]
    by (auto simp: e multi_start_def s0_def q_def t_def nat_diff_distrib' simp flip: of_nat_diff)
  text \<open>up again, clearing\<close>
  obtain s1 where s1: "term_out (concat out) s = term_out q s1" "sc_row s1 = r" "sc_width s1 = w"
    "\<forall>i j. sc_cell s1 i j = (if r < i \<and> i \<le> r + (M - 1) then BLANK else sc_cell s i j)"
    using clear_rows [OF s0(1), of q, unfolded s0(2,3)] dd(1) unfolding 0 by blast
  define s2 where "s2 = erase_right (s1\<lparr>sc_col := 0, sc_wrap := False\<rparr>)"
  have s2: "sc_row s2 = r" "sc_col s2 = 0" "\<not> sc_wrap s2" "sc_width s2 = w" using s1 by (simp_all add: s2_def erase_right_def)
  have blank: "rows_show s2 r []"
    unfolding rows_show_def
  proof (intro allI impI)
    fix i j assume j: "j < sc_width s2"
    show "sc_cell s2 (r + i) j = (if i * sc_width s2 + j < length [] then [] ! (i * sc_width s2 + j) else BLANK)"
    proof (cases "i < max 1 M")
      case True
      then show ?thesis using s1 by (auto simp: s2_def erase_right_def)
    next
      case False
      then have "max 1 M * w \<le> i * w" by (intro mult_le_mono1) linarith
      moreover have "length (prompt @ text_of (mline l)) \<le> max 1 M * w"
      proof (cases "M = 0")
        case True
        then show ?thesis using o(6) dd(1,6) length_text_of [OF od(3)] by auto
      next
        case False
        then have "max 1 M = M" by simp
        then show ?thesis using o(6) False length_text_of [OF od(3)] by simp
      qed
      ultimately have "length (prompt @ text_of (mline l)) \<le> i * w + j" by linarith
      then have "sc_cell s (r + i) j = BLANK" using o(1,5) j s2(4) by (auto simp: rows_show_def)
      then show ?thesis using s1 False by (auto simp: s2_def erase_right_def)
    qed
  qed
  have kept1: "rows_above_kept s r s2"
    using s1 o(1) by (auto simp: rows_above_kept_def s2_def erase_right_def)
  text \<open>the line\<close>
  define s3 where "s3 = fold put_char t s2"
  have w2: "0 < sc_width s2" using s2 dd by simp
  note b3 = blank_rows_text [OF s2(1-3) lt(2) w2 blank, folded s3_def, unfolded s2(4) lt(1)]
  have w3: "sc_width s3 = w" using b3(2) s2(4) by (simp add: rows_above_kept_def)
  have 3: "term_out (concat out) s = term_out fin s3"
    using s1(1,3) dd(1) term_out_home [of s1] unfolding q_def s3_def s2_def
    by (simp only: term_out_erase term_out_text [OF pr])
  note rows = multi_rows [OF d(1), folded m_def g_def w_def L_def]
  text \<open>the cursor\<close>
  define s4 where "s4 = s3\<lparr>sc_row := r + g div w, sc_col := g mod w, sc_wrap := False\<rparr>"
  have x: "g mod w < w" using dd(1) by simp
  have 4: "term_out fin s3 = s4"
  proof (cases "at_line_end prompt b")
    case True
    have r: "m mod w = 0" "g = m" "L = m div w + 1" using rows(3) [OF True] by auto
    have m0: "0 < m" using lt by (cases t) auto
    have "(m - 1) div w + 1 = m div w" using row_before [OF dd(1) m0] rows_up [OF dd(1), of m] r(1) by simp
    then have row: "sc_row s3 + 1 = r + m div w" using b3(4) by simp
    define s3' where "s3' = s3\<lparr>sc_row := sc_row s3 + 1, sc_col := 0, sc_wrap := False\<rparr>"
    have "term_out fin s3 = term_out (concat (multi_finish (int L) (int (g div w + 1)) (int (g mod w)))) s3'"
      using True term_out_home [of "s3\<lparr>sc_row := sc_row s3 + 1, sc_wrap := False\<rparr>"] w3 dd(1)
      by (simp add: fin_def multi_newline_def s3'_def term_out.simps(2) [of LF] ESC_def)
    also have "\<dots> = s4"
      using multi_finish_out [of "g div w + 1" L "g mod w" s3'] r row w3 x by (simp add: s3'_def s4_def)
    finally show ?thesis .
  next
    case False
    have row: "sc_row s3 + 1 = r + L" using b3(4) rows(4) [OF False] by simp
    have "term_out fin s3 = term_out (concat (multi_finish (int L) (int (g div w + 1)) (int (g mod w)))) s3"
      using False by (simp add: fin_def multi_newline_def)
    also have "\<dots> = s4"
      using multi_finish_out [of "g div w + 1" L "g mod w" s3] row rows(2) w3 x by (simp add: s4_def)
    finally show ?thesis .
  qed
  have "rows_show s4 r t" using b3(1) by (simp add: s4_def rows_show_def)
  moreover have "rows_above_kept s r s4"
    using rows_above_kept_trans [OF kept1 b3(2)] by (simp add: s4_def rows_above_kept_def)
  moreover have "m \<le> max M L * w" using rows(1) mult_le_mono1 [of L "max M L" w] by linarith
  moreover have "max M L < 2 ^ 18" "g div w < max M L" using o(4) rows(2,5) by simp_all
  ultimately show ?thesis unfolding 3 4 l'
    using w3 by (simp add: multi_shown_def Let_def cursor_in_def t_def m_def g_def w_def) (simp add: s4_def g_def w_def)
qed

section \<open>Editing in front of a terminal\<close>

text \<open>The operations with what they draw, and a series of them, each shown on the terminal.\<close>

fun edit_fun :: "edit_op \<Rightarrow> lnstate \<Rightarrow> lnstate \<times> draw" where
  "edit_fun (Op_insert c) l = linenoiseEditInsert c l"
| "edit_fun Op_left l = linenoiseEditMoveLeft l"
| "edit_fun Op_right l = linenoiseEditMoveRight l"
| "edit_fun Op_delete l = linenoiseEditDelete l"
| "edit_fun Op_backspace l = linenoiseEditBackspace l"
| "edit_fun Op_delete_word l = linenoiseEditDeletePrevWord l"
| "edit_fun Op_swap l = edit_swap l"
| "edit_fun Op_clear l = edit_clear l"
| "edit_fun Op_cut l = edit_cut l"
| "edit_fun Op_home l = edit_home l"
| "edit_fun Op_end l = edit_end l"

fun edit_session :: "bool \<Rightarrow> string \<Rightarrow> edit_op list \<Rightarrow> mlstate \<Rightarrow> screen \<Rightarrow> (mlstate \<times> screen) option" where
  "edit_session mlmode prompt [] l s = Some (l, s)"
| "edit_session mlmode prompt (f # fs) l s =
     (case show_draw mlmode None prompt (edit_fun f (mline l)) l of
        None \<Rightarrow> None
      | Some (out, l') \<Rightarrow> edit_session mlmode prompt fs l' (term_out (concat out) s))"

text \<open>The state \<^verbatim>\<open>linenoiseEdit\<close> starts with, in which the prompt is written.\<close>

definition edit_start :: "string \<Rightarrow> nat \<Rightarrow> string \<Rightarrow> nat \<Rightarrow> mlstate" where
  "edit_start buf n prompt columns =
     \<lparr>mline = \<lparr>lbuf = buf[0 := NUL], buflen = n, plen = length prompt, pos = 0, len = 0, cols = columns, history_index = 0\<rparr>,
      oldpos = 0, maxrows = 0\<rparr>"

lemma run_op_fun: "run_op f l = fst (edit_fun f l)"
  by (cases f) simp_all

lemmas edit_funs = linenoiseEditInsert_def linenoiseEditMoveLeft_def linenoiseEditMoveRight_def linenoiseEditDelete_def
  linenoiseEditBackspace_def linenoiseEditDeletePrevWord_def edit_swap_def edit_clear_def edit_cut_def edit_home_def edit_end_def

lemma edit_fun_frame: "cols (fst (edit_fun f l)) = cols l \<and> plen (fst (edit_fun f l)) = plen l"
  by (cases f) (simp_all add: edit_funs Let_def)

lemma edit_fun_no_draw: "snd (edit_fun f l) = No_draw \<Longrightarrow> fst (edit_fun f l) = l"
  by (cases f) (auto simp: edit_funs Let_def split: if_splits)

lemma edit_fun_echo:
  "snd (edit_fun f l) = Echo c \<Longrightarrow>
   f = Op_insert c \<and> len l = pos l \<and> len l < buflen l \<and> plen l + len l + 1 < cols l"
  by (cases f) (auto simp: edit_funs Let_def split: if_splits)

lemma text_of_parts: "ln_ok l \<Longrightarrow> text_of l = before l @ behind l"
  by (simp add: text_of_def before_def behind_def ln_ok_def flip: take_add)

definition types_printable :: "edit_op list \<Rightarrow> bool" where
  "types_printable fs \<longleftrightarrow> (\<forall>c. Op_insert c \<in> set fs \<longrightarrow> printable c)"

lemma text_op_printable:
  assumes "\<forall>c \<in> set (fst t @ snd t). printable c" and "\<And>c. f = Op_insert c \<Longrightarrow> printable c"
  shows "\<forall>c \<in> set (fst (text_op n f t) @ snd (text_op n f t)). printable c"
proof -
  obtain x y where t: "t = (x, y)" by (cases t)
  show ?thesis using assms set_drop_word [of x] unfolding t
    by (cases f; cases y) (auto dest: in_set_butlastD last_in_set)
qed

lemma edit_fun_drawable:
  assumes d: "drawable prompt l" and f: "\<forall>c. f = Op_insert c \<longrightarrow> printable c"
  defines "l' \<equiv> fst (edit_fun f l)"
  shows "drawable prompt l'" and "cols l' = cols l" and "buflen l' = buflen l"
    and "(before l', behind l') = text_op (buflen l) f (before l, behind l)"
proof -
  have ok: "ln_ok l" using d by (simp add: drawable_def)
  define t where "t = text_op (buflen l) f (before l, behind l)"
  have e: "edits l l' (fst t) (snd t)"
    using run_op_edits [OF ok, of f] by (simp add: l'_def run_op_fun t_def)
  then have o: "ln_ok l'" "buflen l' = buflen l" "before l' = fst t" "behind l' = snd t" by (auto simp: edits_def same_frame_def)
  have "\<forall>c \<in> set (fst t @ snd t). printable c"
    unfolding t_def by (rule text_op_printable) (use d f text_of_parts [OF ok] in \<open>auto simp: drawable_def\<close>)
  then have "\<forall>c \<in> set (prompt @ text_of l'). printable c"
    using d o text_of_parts [OF o(1)] by (auto simp: drawable_def)
  then show "drawable prompt l'" using d o(1,2) edit_fun_frame [of f l] by (simp add: drawable_def l'_def)
  show "cols l' = cols l" using edit_fun_frame [of f l] by (simp add: l'_def)
  show "buflen l' = buflen l" by (rule o(2))
  show "(before l', behind l') = text_op (buflen l) f (before l, behind l)" using o(3,4) by (simp add: t_def)
qed

text \<open>A character written alone at the end of the line.\<close>

lemma echo_shows:
  assumes s: "single_shown s r prompt l" "sc_width s = cols l" and d: "drawable prompt l" and c: "printable c"
    and e: "snd (edit_fun f l) = Echo c"
  defines "l' \<equiv> fst (edit_fun f l)"
  shows "single_shown (term_out [c] s) r prompt l' \<and> other_rows_kept s r (term_out [c] s)"
proof -
  have f: "f = Op_insert c" "len l = pos l" "len l < buflen l" "length prompt + len l + 1 < cols l"
    using edit_fun_echo [OF e] d by (auto simp: drawable_def)
  have ok: "ln_ok l" using d by (simp add: drawable_def)
  have "ln_ok l'" "before l' = before l @ [c]" "behind l' = behind l" "behind l = []"
    using edit_insert [OF ok f(3), of c] f(2) by (auto simp: edits_def l'_def f(1) behind_def)
  then have t: "text_of l' = text_of l @ [c]" using text_of_parts ok by simp
  have l': "pos l' = pos l + 1" "cols l' = cols l"
    using f edit_fun_frame [of f l] by (simp_all add: l'_def f(1) linenoiseEditInsert_def Let_def)
  have k: "shown_from prompt l = 0" "shown_from prompt l' = 0" using f l' by (simp_all add: shown_from_def)
  define u where "u = prompt @ text_of l"
  have lu: "length u = length prompt + pos l" using length_text_of [OF ok] f(2) by (simp add: u_def)
  have tk: "take (cols l - 1) u = u" "take (cols l' - 1) (prompt @ text_of l') = u @ [c]"
    using lu f(2,4) l' t by (simp_all add: u_def)
  have sh: "line_shown s r u (length u)"
    using s(1) k(1) tk(1) lu by (simp add: single_shown_def u_def)
  have "term_out [c] s = put_char c s" using term_out_text [of "[c]" "[]" s] c by simp
  also have "\<dots> = s\<lparr>sc_cell := (sc_cell s)(r := (sc_cell s r)(length u := c)), sc_col := length u + 1\<rparr>"
    using sh s(2) lu f(2,4) by (simp add: put_char_def line_shown_def)
  finally have p: "term_out [c] s = \<dots>" .
  have "line_shown (term_out [c] s) r (u @ [c]) (length u + 1)"
    using sh unfolding p by (auto simp: line_shown_def row_shows_def nth_append)
  then have "single_shown (term_out [c] s) r prompt l'"
    using k(2) tk(2) lu l'(1) by (simp add: single_shown_def)
  moreover have "other_rows_kept s r (term_out [c] s)" unfolding p by (simp add: other_rows_kept_def)
  ultimately show ?thesis ..
qed

lemma other_rows_kept_trans: "other_rows_kept s r s' \<Longrightarrow> other_rows_kept s' r s'' \<Longrightarrow> other_rows_kept s r s''"
  by (simp add: other_rows_kept_def)

lemma types_printable_Cons: "types_printable (f # fs) \<longleftrightarrow> (\<forall>c. f = Op_insert c \<longrightarrow> printable c) \<and> types_printable fs"
  by (auto simp: types_printable_def)

lemma taken_None [simp]: "taken None xs = xs"
  by (simp add: taken_def)

lemma single_session:
  assumes "drawable prompt (mline l)" and "single_shown s r prompt (mline l)" and "sc_width s = cols (mline l)" and "types_printable fs"
  shows "\<exists>l' s'. edit_session False prompt fs l s = Some (l', s') \<and> single_shown s' r prompt (mline l') \<and> other_rows_kept s r s' \<and>
    ln_ok (mline l') \<and> cols (mline l') = cols (mline l) \<and>
    (before (mline l'), behind (mline l')) = text_ops (buflen (mline l)) fs (before (mline l), behind (mline l))"
  using assms
proof (induction fs arbitrary: l s)
  case Nil
  then show ?case by (simp add: other_rows_kept_def text_ops_def drawable_def)
next
  case (Cons f fs)
  define b where "b = fst (edit_fun f (mline l))"
  have f: "\<forall>c. f = Op_insert c \<longrightarrow> printable c" and fs: "types_printable fs"
    using Cons.prems(4) by (auto simp: types_printable_Cons)
  note b = edit_fun_drawable [OF Cons.prems(1) f, folded b_def]
  have "\<exists>out l1. show_draw False None prompt (edit_fun f (mline l)) l = Some (out, l1) \<and> mline l1 = b \<and>
    single_shown (term_out (concat out) s) r prompt b \<and> other_rows_kept s r (term_out (concat out) s)"
  proof (cases "snd (edit_fun f (mline l))")
    case No_draw
    then have "b = mline l" using edit_fun_no_draw by (simp add: b_def)
    then show ?thesis using No_draw Cons.prems(2) by (simp add: show_draw_def other_rows_kept_def b_def [symmetric])
  next
    case (Echo c)
    then have "printable c" using f edit_fun_echo by blast
    then show ?thesis using echo_shows [OF Cons.prems(2,3,1) _ Echo] Echo by (simp add: show_draw_def b_def)
  next
    case Redraw
    have "\<exists>n p k out. refreshSingleLine prompt b = Some (out, k, n, p)"
      using refreshSingleLine_text [of b prompt] b(1) by (auto simp: drawable_def)
    then obtain out z where o: "refreshSingleLine prompt b = Some (out, z)" by auto
    have "sc_width s = cols b" "sc_row s = r" using Cons.prems(2,3) b(2) by (simp_all add: single_shown_def line_shown_def)
    then show ?thesis using refresh_single_shows [OF b(1) _ _ o] Redraw o
      by (simp add: show_draw_def refreshLine_def b_def [symmetric])
  qed
  then obtain out l1 where o: "show_draw False None prompt (edit_fun f (mline l)) l = Some (out, l1)" "mline l1 = b"
    "single_shown (term_out (concat out) s) r prompt b" "other_rows_kept s r (term_out (concat out) s)" by blast
  have "drawable prompt (mline l1)" "single_shown (term_out (concat out) s) r prompt (mline l1)"
    "sc_width (term_out (concat out) s) = cols (mline l1)"
    using b o Cons.prems(3) by (simp_all add: other_rows_kept_def)
  from Cons.IH [OF this fs] show ?case using o(1,4) b unfolding o(2)
    by (auto simp: text_ops_def intro: other_rows_kept_trans)
qed

lemma multi_session:
  assumes "drawable prompt (mline l)" and "multi_shown s r prompt l" and "types_printable fs"
  shows "\<exists>l' s'. edit_session True prompt fs l s = Some (l', s') \<and> multi_shown s' r prompt l' \<and> rows_above_kept s r s' \<and>
    ln_ok (mline l') \<and> cols (mline l') = cols (mline l) \<and>
    (before (mline l'), behind (mline l')) = text_ops (buflen (mline l)) fs (before (mline l), behind (mline l))"
  using assms
proof (induction fs arbitrary: l s)
  case Nil
  then show ?case by (simp add: rows_above_kept_def text_ops_def drawable_def)
next
  case (Cons f fs)
  define b where "b = fst (edit_fun f (mline l))"
  have f: "\<forall>c. f = Op_insert c \<longrightarrow> printable c" and fs: "types_printable fs"
    using Cons.prems(3) by (auto simp: types_printable_Cons)
  note b = edit_fun_drawable [OF Cons.prems(1) f, folded b_def]
  have "\<exists>out l1. show_draw True None prompt (edit_fun f (mline l)) l = Some (out, l1) \<and> mline l1 = b \<and>
    multi_shown (term_out (concat out) s) r prompt l1 \<and> rows_above_kept s r (term_out (concat out) s)"
  proof (cases "snd (edit_fun f (mline l)) = No_draw")
    case True
    then have "b = mline l" using edit_fun_no_draw by (simp add: b_def)
    then show ?thesis using True Cons.prems(2) by (simp add: show_draw_def rows_above_kept_def b_def [symmetric])
  next
    case False
    obtain out l1 where o: "refreshMultiLine None prompt (l\<lparr>mline := b\<rparr>) = (out, l1)" by fastforce
    have "show_draw True None prompt (edit_fun f (mline l)) l = Some (out, l1)"
      using False o by (cases "snd (edit_fun f (mline l))") (simp_all add: show_draw_def refreshLine_def b_def)
    then show ?thesis using refresh_multi_shows [OF Cons.prems(2,1) b(1,2) o] by blast
  qed
  then obtain out l1 where o: "show_draw True None prompt (edit_fun f (mline l)) l = Some (out, l1)" "mline l1 = b"
    "multi_shown (term_out (concat out) s) r prompt l1" "rows_above_kept s r (term_out (concat out) s)" by blast
  have "drawable prompt (mline l1)" using b o by simp
  from Cons.IH [OF this o(3) fs] show ?case using o(1,4) b unfolding o(2)
    by (auto simp: text_ops_def intro: rows_above_kept_trans)
qed

lemma edit_start_drawable:
  assumes "prompt \<noteq> []" and "length prompt < columns" and "columns < 2 ^ 16" and "0 < n" and "n < 2 ^ 16" and "n < length buf"
    and "\<forall>c \<in> set prompt. printable c"
  defines "l \<equiv> edit_start buf n prompt columns"
  shows "drawable prompt (mline l)" and "text_of (mline l) = []" and "before (mline l) = []" and "behind (mline l) = []"
    and "cols (mline l) = columns" and "buflen (mline l) = n" and "pos (mline l) = 0" and "len (mline l) = 0"
    and "oldpos l = 0" and "maxrows l = 0"
proof -
  have "buf[0 := NUL] ! 0 = NUL" using assms(6) by (intro nth_list_update_eq) linarith
  then show "drawable prompt (mline l)" using assms by (simp add: edit_start_def drawable_def ln_ok_def text_of_def)
qed (simp_all add: l_def edit_start_def text_of_def before_def behind_def)

lemma prompt_written:
  assumes "\<forall>c \<in> set prompt. printable c" and "prompt \<noteq> []" and "length prompt < sc_width s"
    and "sc_row s = r" and "sc_col s = 0" and "\<not> sc_wrap s" and "rows_show s r []"
  shows "rows_show (term_out prompt s) r prompt" and "cursor_in (term_out prompt s) r (length prompt)"
    and "rows_above_kept s r (term_out prompt s)" and "line_shown (term_out prompt s) r prompt (length prompt)"
    and "sc_width (term_out prompt s) = sc_width s"
proof -
  define f where "f = fold put_char prompt s"
  have p: "term_out prompt s = f" using term_out_text [OF assms(1), of "[]" s] by (simp add: f_def)
  have w: "0 < sc_width s" using assms(3) by simp
  note b = blank_rows_text [OF assms(4-6,2) w assms(7), folded f_def]
  have wf: "sc_width f = sc_width s" using b(2) by (simp add: rows_above_kept_def)
  have wr: "\<not> sc_wrap f" "sc_row f = r" using b(3,4) assms(2,3) by simp_all
  have "at_place s (r * sc_width s)" using assms(4-6) w by (simp add: at_place_def)
  from put_text_place(1) [OF this, of prompt, folded f_def] have "sc_col f = length prompt"
    using wr wf by (simp add: at_place_def)
  then show "cursor_in (term_out prompt s) r (length prompt)" "line_shown (term_out prompt s) r prompt (length prompt)"
    using wr wf assms(3) b(1) spec [OF spec [OF b(1) [unfolded rows_show_def]], of 0]
    by (auto simp: p cursor_in_def line_shown_def row_shows_def rows_show_def dest: spec [of _ "0 :: nat"])
  show "rows_show (term_out prompt s) r prompt" "rows_above_kept s r (term_out prompt s)"
    "sc_width (term_out prompt s) = sc_width s" using b(1,2) wf by (simp_all add: p)
qed

text \<open>
  C37: The single line mode shows what is edited.  On an empty row, after the prompt and any series of
  operations that type printable characters, the row shows the prompt and the text from the place on that
  brings the cursor into view, as far as it fits (the last column stays empty), the cursor is at the place
  in the text where an operation on the two strings would apply, and no other row changes.
\<close>

theorem single_line_display:
  assumes "prompt \<noteq> []" and "length prompt < columns" and "columns < 2 ^ 16" and "0 < n" and "n < 2 ^ 16" and "n < length buf"
    and "\<forall>c \<in> set prompt. printable c" and "types_printable fs"
    and "sc_width s = columns" and "sc_row s = r" and "sc_col s = 0" and "\<not> sc_wrap s" and "rows_show s r []"
    and "text_ops n fs ([], []) = (x, y)"
  shows "\<exists>l' s'. edit_session False prompt fs (edit_start buf n prompt columns) (term_out prompt s) = Some (l', s') \<and>
    text_of (mline l') = x @ y \<and>
    (let k = length (prompt @ x) + 1 - columns in
     line_shown s' r (take (columns - 1) (prompt @ drop k (x @ y))) (length (prompt @ x) - k)) \<and>
    (\<forall>i j. i \<noteq> r \<longrightarrow> j < columns \<longrightarrow> sc_cell s' i j = sc_cell s i j)"
proof -
  define l where "l = edit_start buf n prompt columns"
  define s0 where "s0 = term_out prompt s"
  note st = edit_start_drawable [OF assms(1-7), folded l_def]
  note pw = prompt_written [OF assms(7,1) assms(2) [folded assms(9)] assms(10-13), folded s0_def]
  have "single_shown s0 r prompt (mline l)"
    using pw(4) st assms(2) by (simp add: single_shown_def shown_from_def)
  from single_session [OF st(1) this _ assms(8)] obtain l' s' where
    run: "edit_session False prompt fs l s0 = Some (l', s')" and sh: "single_shown s' r prompt (mline l')"
    and kept: "other_rows_kept s0 r s'" and ok: "ln_ok (mline l')" and c: "cols (mline l') = columns"
    and t: "before (mline l') = x" "behind (mline l') = y"
    using pw(5) st assms(9,14) by auto
  have tx: "text_of (mline l') = x @ y" using text_of_parts [OF ok] t by simp
  have "pos (mline l') = length x" using ok t(1) by (auto simp: before_def ln_ok_def)
  then have "line_shown s' r (take (columns - 1) (prompt @ drop (length (prompt @ x) + 1 - columns) (x @ y)))
      (length (prompt @ x) - (length (prompt @ x) + 1 - columns))"
    using sh tx c by (simp add: single_shown_def shown_from_def)
  moreover have "sc_cell s' i j = sc_cell s i j" if i: "i \<noteq> r" and j: "j < columns" for i j
  proof (cases "i < r")
    case False
    then obtain k where k: "i = r + Suc k" using i less_imp_Suc_add [of r i] by auto
    then have "sc_cell s0 i j = BLANK \<and> sc_cell s i j = BLANK"
      using pw(1) [unfolded rows_show_def, rule_format, of j "Suc k"] assms(13) [unfolded rows_show_def, rule_format, of j "Suc k"]
        pw(5) assms(2,9) j by simp
    then show ?thesis using kept i j pw(5) assms(9) by (simp add: other_rows_kept_def)
  qed (use kept pw(3,5) assms(9) i j in \<open>simp add: other_rows_kept_def rows_above_kept_def\<close>)
  ultimately show ?thesis using run tx by (auto simp: l_def s0_def Let_def)
qed

text \<open>
  C38: The multi line mode shows what is edited.  From an empty row on, after the prompt and any series of
  operations that type printable characters, the screen shows the prompt and the whole text over as many
  rows as it takes and blanks behind it, the cursor is at the place in the text where an operation on the
  two strings would apply, and the rows above stay as they are.
\<close>

theorem multi_line_display:
  assumes "prompt \<noteq> []" and "length prompt < columns" and "columns < 2 ^ 16" and "0 < n" and "n < 2 ^ 16" and "n < length buf"
    and "\<forall>c \<in> set prompt. printable c" and "types_printable fs"
    and "sc_width s = columns" and "sc_row s = r" and "sc_col s = 0" and "\<not> sc_wrap s" and "rows_show s r []"
    and "text_ops n fs ([], []) = (x, y)"
  shows "\<exists>l' s'. edit_session True prompt fs (edit_start buf n prompt columns) (term_out prompt s) = Some (l', s') \<and>
    text_of (mline l') = x @ y \<and> rows_show s' r (prompt @ x @ y) \<and> cursor_in s' r (length (prompt @ x)) \<and> rows_above_kept s r s'"
proof -
  define l where "l = edit_start buf n prompt columns"
  define s0 where "s0 = term_out prompt s"
  note st = edit_start_drawable [OF assms(1-7), folded l_def]
  note pw = prompt_written [OF assms(7,1) assms(2) [folded assms(9)] assms(10-13), folded s0_def]
  have "multi_shown s0 r prompt l"
    using pw(1,2,5) st assms(2,9) by (simp add: multi_shown_def)
  from multi_session [OF st(1) this assms(8)] obtain l' s' where
    run: "edit_session True prompt fs l s0 = Some (l', s')" and sh: "multi_shown s' r prompt l'"
    and kept: "rows_above_kept s0 r s'" and ok: "ln_ok (mline l')" and t: "before (mline l') = x" "behind (mline l') = y"
    using st assms(14) by auto
  have tx: "text_of (mline l') = x @ y" using text_of_parts [OF ok] t by simp
  have "pos (mline l') = length x" using ok t(1) by (auto simp: before_def ln_ok_def)
  then have "rows_show s' r (prompt @ x @ y)" "cursor_in s' r (length (prompt @ x))"
    using sh tx by (simp_all add: multi_shown_def Let_def)
  then show ?thesis using run tx rows_above_kept_trans [OF pw(3) kept] by (auto simp: l_def s0_def)
qed

definition empty_screen :: "nat \<Rightarrow> screen" where
  "empty_screen w = \<lparr>sc_cell = (\<lambda>i j. BLANK), sc_width = w, sc_row = 0, sc_col = 0, sc_wrap = False\<rparr>"

lemma single_line_display_witness:
  "\<exists>l' s'. edit_session False ''> '' (map Op_insert ''abcdef'' @ [Op_left]) (edit_start (replicate 20 NUL) 19 ''> '' 6)
      (term_out ''> '' (empty_screen 6)) = Some (l', s') \<and> line_shown s' 0 ''> cde'' 5"
proof -
  have t: "text_ops 19 (map Op_insert ''abcdef'' @ [Op_left]) ([], []) = (''abcde'', ''f'')" by (simp add: text_ops_def)
  have n: "Suc (Suc (Suc (Suc (Suc 0)))) = 5" "Suc (Suc (5 :: nat)) = 7" by simp_all
  show ?thesis
    using single_line_display [of "''> ''" 6 19 "replicate 20 NUL" "map Op_insert ''abcdef'' @ [Op_left]" "empty_screen 6" 0, OF _ _ _ _ _ _ _ _ _ _ _ _ _ t]
    by (auto simp: types_printable_def printable_def empty_screen_def rows_show_def n)
qed

lemma multi_line_display_witness:
  "\<exists>l' s'. edit_session True ''> '' (map Op_insert ''abcdef'' @ [Op_left]) (edit_start (replicate 20 NUL) 19 ''> '' 6)
      (term_out ''> '' (empty_screen 6)) = Some (l', s') \<and> rows_show s' 0 ''> abcdef'' \<and> cursor_in s' 0 7"
proof -
  have t: "text_ops 19 (map Op_insert ''abcdef'' @ [Op_left]) ([], []) = (''abcde'', ''f'')" by (simp add: text_ops_def)
  have n: "Suc (Suc (Suc (Suc (Suc 0)))) = 5" "Suc (Suc (5 :: nat)) = 7" by simp_all
  show ?thesis
    using multi_line_display [of "''> ''" 6 19 "replicate 20 NUL" "map Op_insert ''abcdef'' @ [Op_left]" "empty_screen 6" 0, OF _ _ _ _ _ _ _ _ _ _ _ _ _ t]
    by (auto simp: types_printable_def printable_def empty_screen_def rows_show_def n)
qed

text \<open>
  Moving right by 0 columns moves by one: with an empty prompt the cursor at the start of the line is shown
  behind the first character.
\<close>

lemma empty_prompt_cursor_off:
  assumes "ln_ok l" and "pos l = 0" and "1 < cols l" and "cols l < 2 ^ 16" and "buflen l < 2 ^ 16" and "sc_width s = cols l"
    and "\<forall>c \<in> set (text_of l). printable c"
  shows "\<exists>out z. refreshSingleLine [] l = Some (out, z) \<and> sc_col (term_out (concat out) s) = 1"
proof -
  have k: "shown_from [] l = 0" using assms(2,3) by (simp add: shown_from_def)
  have c: "length ([] :: string) < cols l" using assms(3) by simp
  define t where "t = take (cols l) (text_of l)"
  obtain out z where o: "refreshSingleLine [] l = Some (out, z)"
    and out: "concat out = ESC # ''[0G'' @ (t @ (ESC # ''[0K'' @ (ESC # ''[0G'' @ (ESC # CHR ''['' # dec 0 @ CHR ''C'' # []))))"
    using refreshSingleLine_text [OF assms(1) c assms(4,5)] assms(2) by (auto simp: k t_def)
  have pr: "\<forall>c \<in> set t. printable c" using assms(7) by (auto simp: t_def dest: in_set_takeD)
  define s1 where "s1 = s\<lparr>sc_col := 0, sc_wrap := False\<rparr>"
  define s2 where "s2 = erase_right (fold put_char t s1)"
  have "at_place s1 (sc_row s1 * sc_width s1)" using assms(3,6) by (simp add: s1_def at_place_def)
  then have w: "sc_width s2 = cols l" using put_text_place(2) assms(6) by (simp add: s2_def erase_right_def s1_def)
  have "term_out (concat out) s = term_out (ESC # ''[0K'' @ (ESC # ''[0G'' @ (ESC # CHR ''['' # dec 0 @ CHR ''C'' # []))) (fold put_char t s1)"
    using assms(3,6) unfolding out s1_def by (simp only: term_out_home term_out_text [OF pr])
  also have "\<dots> = term_out (ESC # CHR ''['' # dec 0 @ CHR ''C'' # []) (s2\<lparr>sc_col := 0, sc_wrap := False\<rparr>)"
    using w assms(3) unfolding term_out_erase s2_def by (simp only: term_out_home)
  also have "sc_col \<dots> = 1" unfolding term_out_right using w assms(3) by simp
  finally have "sc_col (term_out (concat out) s) = 1" .
  then show ?thesis using o by blast
qed

end
