(* ===== verification/Ln_Terminal.thy ===== *)
theory Ln_Terminal
  imports Ln_Display
begin

text \<open>
  The rest of the line editor (src/src/tomato/linenoise.c): which terminals it supports, raw mode and its end,
  the width of the terminal, clearing the screen, and the list of completions and how a choice is shown.
\<close>

section \<open>Raw mode\<close>

text \<open>The bits of \<^verbatim>\<open>struct termios\<close> that the editor changes, with the values of Linux.\<close>

definition BRKINT :: "32 word" where "BRKINT = 0x2"
definition ICRNL :: "32 word" where "ICRNL = 0x100"
definition INPCK :: "32 word" where "INPCK = 0x10"
definition ISTRIP :: "32 word" where "ISTRIP = 0x20"
definition IXON :: "32 word" where "IXON = 0x400"
definition OPOST :: "32 word" where "OPOST = 0x1"
definition CS8 :: "32 word" where "CS8 = 0x30"
definition ECHO_FLAG :: "32 word" where "ECHO_FLAG = 0x8"
definition ICANON :: "32 word" where "ICANON = 0x2"
definition IEXTEN :: "32 word" where "IEXTEN = 0x8000"
definition ISIG :: "32 word" where "ISIG = 0x1"

named_theorems tty_flags

lemmas [tty_flags] = BRKINT_def ICRNL_def INPCK_def ISTRIP_def IXON_def OPOST_def CS8_def ECHO_FLAG_def ICANON_def
  IEXTEN_def ISIG_def

record termios =
  c_iflag :: "32 word"
  c_oflag :: "32 word"
  c_cflag :: "32 word"
  c_lflag :: "32 word"
  c_vmin :: nat
  c_vtime :: nat

definition raw_settings :: "termios \<Rightarrow> termios" where
  "raw_settings t =
     t\<lparr>c_iflag := c_iflag t AND NOT (BRKINT OR ICRNL OR INPCK OR ISTRIP OR IXON),
       c_oflag := c_oflag t AND NOT OPOST,
       c_cflag := c_cflag t OR CS8,
       c_lflag := c_lflag t AND NOT (ECHO_FLAG OR ICANON OR IEXTEN OR ISIG),
       c_vmin := 1, c_vtime := 0\<rparr>"

text \<open>The settings of the terminal, and the globals of the editor.\<close>

record tty_state =
  tty :: termios
  orig_termios :: termios
  rawmode :: bool
  atexit_registered :: bool

text \<open>
  \<open>is_tty\<close>, \<open>got\<close> and \<open>put\<close> tell whether the standard input is a terminal, whether its settings can be read,
  and whether they can be changed.
\<close>

definition enableRawMode :: "bool \<Rightarrow> bool \<Rightarrow> bool \<Rightarrow> tty_state \<Rightarrow> int \<times> tty_state" where
  "enableRawMode is_tty got put s =
     (if \<not> is_tty then (-1, s)
      else
        let s1 = s\<lparr>atexit_registered := True\<rparr> in
        if \<not> got then (-1, s1)
        else
          let s2 = s1\<lparr>orig_termios := tty s1\<rparr> in
          if \<not> put then (-1, s2)
          else (0, s2\<lparr>tty := raw_settings (orig_termios s2), rawmode := True\<rparr>))"

definition disableRawMode :: "bool \<Rightarrow> tty_state \<Rightarrow> tty_state" where
  "disableRawMode put s = (if rawmode s \<and> put then s\<lparr>tty := orig_termios s, rawmode := False\<rparr> else s)"

text \<open>\<^verbatim>\<open>linenoiseAtExit\<close>, which also releases the history.\<close>

definition linenoiseAtExit :: "bool \<Rightarrow> tty_state \<Rightarrow> tty_state" where
  "linenoiseAtExit put s = disableRawMode put s"

text \<open>The part of \<^verbatim>\<open>linenoiseRaw\<close> for a terminal: \<open>edit\<close> runs while the settings are changed.\<close>

definition raw_line :: "bool \<Rightarrow> bool \<Rightarrow> bool \<Rightarrow> (termios \<Rightarrow> 'a) \<Rightarrow> tty_state \<Rightarrow> 'a option \<times> tty_state" where
  "raw_line got put put2 edit s =
     (case enableRawMode True got put s of
        (r, s1) \<Rightarrow> if r = -1 then (None, s1) else (Some (edit (tty s1)), disableRawMode put2 s1))"

lemma raw_settings_bits:
  "c_iflag (raw_settings t) AND (BRKINT OR ICRNL OR INPCK OR ISTRIP OR IXON) = 0"
  "c_oflag (raw_settings t) AND OPOST = 0"
  "c_cflag (raw_settings t) AND CS8 = CS8"
  "c_lflag (raw_settings t) AND (ECHO_FLAG OR ICANON OR IEXTEN OR ISIG) = 0"
  by (simp_all add: raw_settings_def bit_eq_iff bit_simps) auto

text \<open>
  C39: The settings of the terminal survive a line: they are raw while the line is edited, so that every key
  arrives at once and unchanged, and what they were before when \<^verbatim>\<open>linenoise\<close> returns; if they
  cannot be restored then, they are at the exit, when the terminal takes them again.
\<close>

theorem terminal_restored:
  assumes "\<not> rawmode s" and "raw_line got put put2 edit s = (r, s')"
  shows "(r = None \<longleftrightarrow> \<not> (got \<and> put)) \<and>
    (\<forall>v. r = Some v \<longrightarrow> v = edit (raw_settings (tty s)) \<and> atexit_registered s') \<and>
    (r = None \<or> put2 \<longrightarrow> tty s' = tty s \<and> \<not> rawmode s') \<and>
    tty (linenoiseAtExit True s') = tty s"
  using assms by (auto simp: raw_line_def enableRawMode_def disableRawMode_def linenoiseAtExit_def Let_def split: if_splits)

lemma terminal_restored_witness:
  "tty (snd (raw_line True True True (\<lambda>t. c_vmin t)
     \<lparr>tty = \<lparr>c_iflag = 0x500, c_oflag = 5, c_cflag = 0xBF, c_lflag = 0x8A3B, c_vmin = 1, c_vtime = 0\<rparr>,
      orig_termios = \<lparr>c_iflag = 0, c_oflag = 0, c_cflag = 0, c_lflag = 0, c_vmin = 0, c_vtime = 0\<rparr>,
      rawmode = False, atexit_registered = False\<rparr>)) =
   \<lparr>c_iflag = 0x500, c_oflag = 5, c_cflag = 0xBF, c_lflag = 0x8A3B, c_vmin = 1, c_vtime = 0\<rparr>"
  (is "tty (snd (raw_line True True True ?edit ?s)) = _")
  using terminal_restored [of ?s True True True ?edit "fst (raw_line True True True ?edit ?s)" "snd (raw_line True True True ?edit ?s)"]
  by simp

section \<open>The terminal\<close>

definition lower :: "char \<Rightarrow> char" where
  "lower c = (let k = of_char c :: nat in if 65 \<le> k \<and> k \<le> 90 then char_of (k + 32) else c)"

text \<open>\<^verbatim>\<open>strcasecmp\<close>, as far as it is used: whether two strings differ only in the case of their letters.\<close>

definition same_but_case :: "string \<Rightarrow> string \<Rightarrow> bool" where
  "same_but_case a b \<longleftrightarrow> map lower a = map lower b"

definition unsupported_term :: "string list" where
  "unsupported_term = [''dumb'', ''cons25'']"

definition isUnsupportedTerm :: "string option \<Rightarrow> bool" where
  "isUnsupportedTerm env = (case env of None \<Rightarrow> False | Some t \<Rightarrow> list_ex (same_but_case t) unsupported_term)"

text \<open>\<open>ws\<close> is what \<^verbatim>\<open>ioctl\<close> answers for the number of columns, \<open>None\<close> if it fails.\<close>

definition getColumns :: "16 word option \<Rightarrow> nat" where
  "getColumns ws = (case ws of None \<Rightarrow> 80 | Some c \<Rightarrow> if c = 0 then 80 else unat c)"

lemma getColumns_range: "0 < getColumns ws" "getColumns ws < 2 ^ 16"
  using unsigned_less [where ?'a = nat and ?'b = 16]
  by (auto simp: getColumns_def unat_gt_0 split: option.splits)

definition linenoiseClearScreen :: string where
  "linenoiseClearScreen = [ESC] @ ''[H'' @ [ESC] @ ''[2J''"

lemma clear_screen_shows:
  "term_out linenoiseClearScreen s = s\<lparr>sc_cell := (\<lambda>i j. BLANK), sc_row := 0, sc_col := 0, sc_wrap := False\<rparr>"
  by (simp add: linenoiseClearScreen_def term_out.simps(2) ESC_def digit_in_def control_def)

section \<open>Completions\<close>

text \<open>The completions a callback adds, and the callback.\<close>

definition linenoiseAddCompletion :: "string list \<Rightarrow> string \<Rightarrow> string list" where
  "linenoiseAddCompletion lc s = lc @ [c_string s]"

definition linenoiseSetCompletionCallback :: "'cb option \<Rightarrow> 'cb option \<Rightarrow> 'cb option" where
  "linenoiseSetCompletionCallback f old = f"

text \<open>
  What \<^verbatim>\<open>completeLine\<close> shows before it reads a key: the completion chosen, in the place of the line, or the line
  itself.  Only the length, the cursor and the buffer are put back.
\<close>

definition show_choice :: "bool \<Rightarrow> nat option \<Rightarrow> string \<Rightarrow> string list \<Rightarrow> nat \<Rightarrow> mlstate \<Rightarrow> (string list \<times> mlstate) option" where
  "show_choice mlmode wr prompt lc i l =
     (if i < length lc then
        let b = mline l; n = length (lc ! i) in
        case refreshLine mlmode wr prompt (l\<lparr>mline := b\<lparr>lbuf := lc ! i @ [NUL], len := n, pos := n\<rparr>\<rparr>) of
          None \<Rightarrow> None
        | Some (out, l1) \<Rightarrow> Some (out, l1\<lparr>mline := b\<rparr>)
      else refreshLine mlmode wr prompt l)"

text \<open>In the single line mode the row shows the completion, with the cursor behind it, and the state is the one before.\<close>

lemma choice_shown:
  assumes "i < length lc" and "lc ! i \<noteq> []" and "\<forall>c \<in> set (prompt @ lc ! i). printable c" and "length (lc ! i) < buflen (mline l)"
    and "drawable prompt (mline l)" and "sc_width s = cols (mline l)" and "sc_row s = r"
  shows "\<exists>out. show_choice False None prompt lc i l = Some (out, l) \<and>
    (let k = length (prompt @ lc ! i) + 1 - cols (mline l) in
     line_shown (term_out (concat out) s) r (take (cols (mline l) - 1) (prompt @ drop k (lc ! i)))
       (length (prompt @ lc ! i) - k))"
proof -
  define n where "n = length (lc ! i)"
  define b where "b = (mline l)\<lparr>lbuf := lc ! i @ [NUL], len := n, pos := n\<rparr>"
  define b' where "b' = b\<lparr>buflen := n\<rparr>"
  define k where "k = length (prompt @ lc ! i) + 1 - cols (mline l)"
  have n: "0 < n" "n < buflen (mline l)" using assms(2,4) by (simp_all add: n_def)
  have fields: "lbuf b' = lbuf b" "len b' = len b" "pos b' = pos b" "cols b' = cols b" by (simp_all add: b'_def)
  have same: "refreshSingleLine prompt b = refreshSingleLine prompt b'" 
    unfolding refreshSingleLine_def by (simp only: fields)
  have tx: "text_of b' = lc ! i" by (simp add: text_of_def b'_def b_def n_def)
  have d: "drawable prompt b'"
    using assms(3,5) n tx by (auto simp: drawable_def ln_ok_def b'_def b_def n_def nth_append)
  have k': "shown_from prompt b' = k" "cols b' = cols (mline l)" "pos b' = n"
    by (simp_all add: shown_from_def b'_def b_def k_def n_def)
  have "\<exists>m p out. refreshSingleLine prompt b' = Some (out, shown_from prompt b', m, p)"
    using refreshSingleLine_text [of b' prompt] d by (auto simp: drawable_def)
  then obtain out z where o: "refreshSingleLine prompt b' = Some (out, z)" by auto
  have "single_shown (term_out (concat out) s) r prompt b'"
    using refresh_single_shows [OF d _ assms(7) o] assms(6) k'(2) by simp
  then have "line_shown (term_out (concat out) s) r (take (cols (mline l) - 1) (prompt @ drop k (lc ! i))) (length (prompt @ lc ! i) - k)"
    using k' tx by (simp add: single_shown_def n_def)
  moreover have "show_choice False None prompt lc i l = Some (out, l)"
    using assms(1) o same by (simp add: show_choice_def refreshLine_def b_def n_def [symmetric] Let_def)
  ultimately show ?thesis by (auto simp: Let_def k_def)
qed

end
