(* ===== verification/Task_Context.thy ===== *)
theory Task_Context
  imports Task_Sched
begin

text \<open>
  The machine context of a task (src/src/common/task/context.c, the context headers, and the routines of
  asm.S that they call): how a context is made, saved and loaded, how the address of a task is passed to
  \<^verbatim>\<open>taskstart\<close> in two words, and the check of the stack.  Where the operating system brings its own
  \<^verbatim>\<open>makecontext\<close> and \<^verbatim>\<open>swapcontext\<close>, they take the place of these.
\<close>

section \<open>The address of a task in two words\<close>

text \<open>
  \<^verbatim>\<open>taskalloc\<close> splits the address into two \<^verbatim>\<open>uint\<close>s, \<^verbatim>\<open>taskstart\<close> puts it together; the first of its two
  shifts is one of 32 bits.
\<close>

definition split_task :: "64 word \<Rightarrow> 32 word \<times> 32 word" where
  "split_task t =
     (let z = t; y = ucast z; z1 = drop_bit 16 z; x = ucast (drop_bit 16 z1) in (y, x))"

definition join_task :: "32 word \<Rightarrow> 32 word \<Rightarrow> 64 word" where
  "join_task y x = (let z = ucast (push_bit 16 x :: 32 word); z1 = push_bit 16 z in z1 OR ucast y)"

lemma join_split_task: "join_task (fst (split_task t)) (snd (split_task t)) = t AND mask 48"
  by (rule bit_word_eqI) (auto simp: split_task_def join_task_def Let_def bit_simps)

lemma join_split_small: "t < 2 ^ 48 \<Longrightarrow> join_task (fst (split_task t)) (snd (split_task t)) = t"
proof -
  assume "t < 2 ^ 48"
  then have "unat t < 2 ^ 48" by (simp add: word_less_nat_alt)
  then have "unat (take_bit 48 t) = unat t" by (simp add: unsigned_take_bit_eq take_bit_nat_eq_self)
  then show ?thesis unfolding join_split_task take_bit_eq_mask [symmetric] by (rule unsigned_word_eqI)
qed

lemma join_split_high: "join_task (fst (split_task (2 ^ 48))) (snd (split_task (2 ^ 48))) = 0"
  by (simp add: split_task_def join_task_def Let_def)

section \<open>The stack of a context\<close>

text \<open>\<^verbatim>\<open>needstack\<close>: \<open>frame\<close> is the address of its local variable.\<close>

definition needstack :: "64 word \<Rightarrow> 64 word \<Rightarrow> 32 word \<Rightarrow> unit outcome" where
  "needstack frame stk n =
     (if frame \<le> stk \<or> sint (frame - stk) < sint (256 + n) then Abort else Return ())"

lemma needstack_room:
  assumes "needstack frame stk n = Return ()" and "0 \<le> sint (256 + n)"
  shows "stk < frame" and "sint (256 + n) \<le> sint (frame - stk)"
  using assms by (auto simp: needstack_def split: if_splits)

record 'w stack_t =
  ss_sp :: 'w
  ss_size :: 'w

text \<open>The stack \<^verbatim>\<open>taskalloc\<close> gives to a context: the size is computed in 32 bits.\<close>

definition task_stack :: "64 word \<Rightarrow> 32 word \<Rightarrow> 64 word stack_t" where
  "task_stack stk stksize = \<lparr>ss_sp = stk + 8, ss_size = ucast (stksize - 64)\<rparr>"

section \<open>The 64 bit x86\<close>

record amd64_mcontext =
  mc_onstack :: "64 word"
  mc_rdi :: "64 word"
  mc_rsi :: "64 word"
  mc_rdx :: "64 word"
  mc_rcx :: "64 word"
  mc_r8 :: "64 word"
  mc_r9 :: "64 word"
  mc_rax :: "64 word"
  mc_rbx :: "64 word"
  mc_rbp :: "64 word"
  mc_r10 :: "64 word"
  mc_r11 :: "64 word"
  mc_r12 :: "64 word"
  mc_r13 :: "64 word"
  mc_r14 :: "64 word"
  mc_r15 :: "64 word"
  mc_trapno :: "64 word"
  mc_addr :: "64 word"
  mc_flags :: "64 word"
  mc_err :: "64 word"
  mc_rip :: "64 word"
  mc_cs :: "64 word"
  mc_rflags :: "64 word"
  mc_rsp :: "64 word"
  mc_ss :: "64 word"
  mc_len :: "64 word"
  mc_fpformat :: "64 word"
  mc_ownedfp :: "64 word"
  mc_fpstate :: "64 word list"
  mc_spare :: "64 word list"

definition zero_amd64 :: amd64_mcontext where
  "zero_amd64 = \<lparr>mc_onstack = 0, mc_rdi = 0, mc_rsi = 0, mc_rdx = 0, mc_rcx = 0, mc_r8 = 0, mc_r9 = 0, mc_rax = 0,
     mc_rbx = 0, mc_rbp = 0, mc_r10 = 0, mc_r11 = 0, mc_r12 = 0, mc_r13 = 0, mc_r14 = 0, mc_r15 = 0, mc_trapno = 0,
     mc_addr = 0, mc_flags = 0, mc_err = 0, mc_rip = 0, mc_cs = 0, mc_rflags = 0, mc_rsp = 0, mc_ss = 0, mc_len = 0,
     mc_fpformat = 0, mc_ownedfp = 0, mc_fpstate = replicate 64 0, mc_spare = replicate 8 0\<rparr>"

text \<open>The processor: registers and memory, in words of 8 bytes by their addresses.\<close>

record amd64 =
  rdi :: "64 word"
  rsi :: "64 word"
  rdx :: "64 word"
  rcx :: "64 word"
  r8 :: "64 word"
  r9 :: "64 word"
  rax :: "64 word"
  rbx :: "64 word"
  rbp :: "64 word"
  r10 :: "64 word"
  r11 :: "64 word"
  r12 :: "64 word"
  r13 :: "64 word"
  r14 :: "64 word"
  r15 :: "64 word"
  rsp :: "64 word"
  rip :: "64 word"
  mem8 :: "64 word \<Rightarrow> 64 word"

text \<open>
  \<^verbatim>\<open>makecontext\<close>, called with two arguments, as \<^verbatim>\<open>taskalloc\<close> does (it crashes for any other number of them):
  the context and the word written to the stack.  An \<^verbatim>\<open>int\<close> is extended with its sign to a \<^verbatim>\<open>long\<close>.
\<close>

definition makecontext_amd64 ::
    "64 word stack_t \<Rightarrow> 64 word \<Rightarrow> nat \<Rightarrow> 32 word \<Rightarrow> 32 word \<Rightarrow> (64 word \<Rightarrow> 64 word) \<Rightarrow>
     (amd64_mcontext \<times> (64 word \<Rightarrow> 64 word)) option" where
  "makecontext_amd64 st func argc a b m =
     (if argc \<noteq> 2 then None
      else
        let mc = zero_amd64\<lparr>mc_rdi := scast a, mc_rsi := scast b\<rparr>;
            sp = ss_sp st + 8 * (ss_size st div 8);
            sp1 = sp - 8 * of_nat argc;
            sp2 = sp1 - sp1 mod 16;
            sp3 = sp2 - 8
        in Some (mc\<lparr>mc_rip := func, mc_rsp := sp3\<rparr>, m(sp3 := 0)))"

text \<open>
  \<^verbatim>\<open>getmcontext\<close> and \<^verbatim>\<open>setmcontext\<close> of asm.S, from the call of the routine to its return; the return address is
  at the stack pointer.
\<close>

definition getmcontext_amd64 :: "amd64 \<Rightarrow> amd64_mcontext \<Rightarrow> amd64 \<times> amd64_mcontext" where
  "getmcontext_amd64 c mc =
     (let mc1 = mc\<lparr>mc_rdi := rdi c, mc_rsi := rsi c, mc_rdx := rdx c, mc_rcx := rcx c, mc_r8 := r8 c, mc_r9 := r9 c,
                 mc_rax := 1, mc_rbx := rbx c, mc_rbp := rbp c, mc_r10 := r10 c, mc_r11 := r11 c, mc_r12 := r12 c,
                 mc_r13 := r13 c, mc_r14 := r14 c, mc_r15 := r15 c\<rparr>;
          c1 = c\<lparr>rcx := mem8 c (rsp c)\<rparr>;
          mc2 = mc1\<lparr>mc_rip := rcx c1\<rparr>;
          c2 = c1\<lparr>rcx := rsp c1 + 8\<rparr>;
          mc3 = mc2\<lparr>mc_rsp := rcx c2\<rparr>;
          c3 = c2\<lparr>rcx := mc_rcx mc3, rax := 0\<rparr>
      in (c3\<lparr>rip := mem8 c3 (rsp c3), rsp := rsp c3 + 8\<rparr>, mc3))"

definition setmcontext_amd64 :: "amd64 \<Rightarrow> amd64_mcontext \<Rightarrow> amd64" where
  "setmcontext_amd64 c mc =
     (let c1 = c\<lparr>rsi := mc_rsi mc, rdx := mc_rdx mc, rcx := mc_rcx mc, r8 := mc_r8 mc, r9 := mc_r9 mc, rax := mc_rax mc,
                rbx := mc_rbx mc, rbp := mc_rbp mc, r10 := mc_r10 mc, r11 := mc_r11 mc, r12 := mc_r12 mc, r13 := mc_r13 mc,
                r14 := mc_r14 mc, r15 := mc_r15 mc, rsp := mc_rsp mc\<rparr>;
          c2 = c1\<lparr>rsp := rsp c1 - 8, mem8 := (mem8 c1)(rsp c1 - 8 := mc_rip mc)\<rparr>;
          c3 = c2\<lparr>rdi := mc_rdi mc\<rparr>
      in c3\<lparr>rip := mem8 c3 (rsp c3), rsp := rsp c3 + 8\<rparr>)"

text \<open>
  \<^verbatim>\<open>swapcontext\<close>, from its call of \<^verbatim>\<open>getcontext\<close> on: it returns at once when \<^verbatim>\<open>getcontext\<close> answers something else
  than 0, which is what happens when the context is loaded again; otherwise the other context is loaded.
\<close>

definition swapcontext_amd64 :: "amd64 \<Rightarrow> amd64_mcontext \<Rightarrow> amd64_mcontext \<Rightarrow> amd64 \<times> amd64_mcontext" where
  "swapcontext_amd64 c old new =
     (case getmcontext_amd64 c old of
        (c1, old1) \<Rightarrow> if rax c1 = 0 then (setmcontext_amd64 c1 new, old1) else (c1, old1))"

lemmas amd64_defs = getmcontext_amd64_def setmcontext_amd64_def swapcontext_amd64_def Let_def

lemma set_after_get:
  "setmcontext_amd64 c' (snd (getmcontext_amd64 c mc)) =
   (fst (getmcontext_amd64 c mc))\<lparr>rax := 1, mem8 := (mem8 c')(rsp c := mem8 c (rsp c))\<rparr>"
  by (simp add: amd64_defs)

text \<open>
  C4: A context switch resumes.  A task that switches away and is switched back to later, whatever ran in
  between, returns from its call of \<^verbatim>\<open>getcontext\<close> a second time: with every register it had, at the place
  and with the stack of its first return, with 1 instead of 0 as the answer, so that it does not switch again,
  and with the memory as the others left it, the word of its return address put back.
\<close>

theorem context_switch_resumes:
  assumes "swapcontext_amd64 c old new = (c1, saved)" and "swapcontext_amd64 c' old' saved = (c2, saved')"
  shows "c2 = (fst (getmcontext_amd64 c old))\<lparr>rax := 1, mem8 := (mem8 c')(rsp c := mem8 c (rsp c))\<rparr> \<and>
    rax c2 \<noteq> 0 \<and> rsp c2 = rsp c + 8 \<and> rip c2 = mem8 c (rsp c) \<and>
    (mem8 c' (rsp c) = mem8 c (rsp c) \<longrightarrow> mem8 c2 = mem8 c')"
  using assms set_after_get [of _ c old] by (auto simp: amd64_defs)

text \<open>
  What a new context enters: \<open>setmcontext\<close> on a made context jumps to the function, with its arguments in the
  registers for the first two, on an aligned stack inside the block, with return address 0.
\<close>

definition stack_ok :: "64 word stack_t \<Rightarrow> bool" where
  "stack_ok st \<longleftrightarrow> 64 \<le> unat (ss_size st) \<and> unat (ss_sp st) + unat (ss_size st) < 2 ^ 64"

lemma made_stack:
  fixes sp n :: "64 word"
  assumes "64 \<le> unat n" and "unat sp + unat n < 2 ^ 64"
  defines "q \<equiv> sp + 8 * (n div 8) - 16"
  defines "q' \<equiv> q - q mod 16 - 8"
  shows "unat sp + 8 \<le> unat q'" and "unat q' + 8 \<le> unat sp + unat n" and "unat q' mod 16 = 8"
proof -
  define a b where "a = unat sp" and "b = unat n"
  have ab: "64 \<le> b" "a + b < 2 ^ 64" using assms by (simp_all add: a_def b_def)
  have d: "8 * (b div 8) \<le> b" "b < 8 * (b div 8) + 8" by (simp_all add: dividend_less_times_div)
  have "n div 8 = of_nat (b div 8)"
    by (rule unsigned_word_eqI [where ?'a = nat])
      (use ab in \<open>simp add: unat_div b_def unsigned_of_nat take_bit_nat_eq_self div_le_dividend le_less_trans\<close>)
  then have "q = of_nat (a + 8 * (b div 8)) - of_nat 16" by (simp add: q_def a_def)
  then have qn: "q = of_nat (a + 8 * (b div 8) - 16)" using ab d by (subst of_nat_diff) auto
  define c where "c = a + 8 * (b div 8) - 16"
  have c: "a + 40 \<le> c" "c + 16 \<le> a + b" "c < 2 ^ 64" using ab d by (auto simp: c_def)
  have uq: "unat q = c" using qn c(3) by (simp add: c_def unsigned_of_nat take_bit_nat_eq_self)
  have "q mod 16 = of_nat (c mod 16)"
    by (rule unsigned_word_eqI [where ?'a = nat])
      (use uq in \<open>simp add: unat_mod unsigned_of_nat take_bit_nat_eq_self less_trans [OF mod_less_divisor]\<close>)
  then have "q' = of_nat c - of_nat (c mod 16) - of_nat 8" using qn by (simp add: q'_def c_def)
  also have "\<dots> = of_nat (c - c mod 16) - of_nat 8" by (simp add: of_nat_diff)
  also have "\<dots> = of_nat (c - c mod 16 - 8)" using c(1) by (subst of_nat_diff) (auto intro: order_trans [OF _ diff_le_mono2])
  finally have "q' = of_nat (c - c mod 16 - 8)" .
  then have u: "unat q' = c - c mod 16 - 8" using c(3) by (simp add: unsigned_of_nat take_bit_nat_eq_self)
  have m: "c mod 16 < 16" by simp
  show "unat sp + 8 \<le> unat q'" using u c(1) m by (simp add: a_def)
  show "unat q' + 8 \<le> unat sp + unat n" using u c m by (simp add: a_def b_def)
  have "c - c mod 16 = 16 * (c div 16)" by (simp add: minus_mod_eq_mult_div)
  moreover have "0 < c div 16" using c(1) by (simp add: div_greater_zero_iff)
  ultimately obtain k where "c - c mod 16 = 16 * (k + 1)" by (metis Suc_eq_plus1 gr0_implies_Suc)
  then show "unat q' mod 16 = 8" using u by simp
qed

lemma set_fields:
  "rip (setmcontext_amd64 c mc) = mc_rip mc" "rsp (setmcontext_amd64 c mc) = mc_rsp mc"
  "rdi (setmcontext_amd64 c mc) = mc_rdi mc" "rsi (setmcontext_amd64 c mc) = mc_rsi mc"
  "mem8 (setmcontext_amd64 c mc) = (mem8 c)(mc_rsp mc - 8 := mc_rip mc)"
  by (simp_all add: setmcontext_amd64_def Let_def)

text \<open>
  C3: A new task starts where it should.  Loading the context made for a task enters its function with two
  words that give back the address of the task, on a stack that lies in the block of the task, with room
  for the word the load itself pushes, aligned as a call leaves it and ended by a return address of 0; no
  memory outside the block changes.
\<close>

theorem new_task_starts:
  assumes "stack_ok st" and "t < 2 ^ 48"
    and "makecontext_amd64 st func 2 (fst (split_task t)) (snd (split_task t)) (mem8 c) = Some (mc, m)"
  defines "c' \<equiv> setmcontext_amd64 (c\<lparr>mem8 := m\<rparr>) mc"
  shows "rip c' = func \<and> join_task (ucast (rdi c')) (ucast (rsi c')) = t \<and>
    unat (ss_sp st) + 8 \<le> unat (rsp c') \<and> unat (rsp c') + 8 \<le> unat (ss_sp st) + unat (ss_size st) \<and>
    unat (rsp c') mod 16 = 8 \<and> mem8 c' (rsp c') = 0 \<and>
    (\<forall>a. unat a < unat (ss_sp st) \<or> unat (ss_sp st) + unat (ss_size st) \<le> unat a \<longrightarrow> mem8 c' a = mem8 c a)"
proof -
  define q where "q = ss_sp st + 8 * (ss_size st div 8) - 16"
  define q' where "q' = q - q mod 16 - 8"
  have mc: "mc = zero_amd64\<lparr>mc_rdi := scast (fst (split_task t)), mc_rsi := scast (snd (split_task t)), mc_rip := func, mc_rsp := q'\<rparr>"
    and m: "m = (mem8 c)(q' := 0)"
    using assms(3) by (auto simp: makecontext_amd64_def Let_def q_def q'_def)
  have c': "rip c' = func" "rsp c' = q'" "rdi c' = scast (fst (split_task t))" "rsi c' = scast (snd (split_task t))"
    "mem8 c' = (mem8 c)(q' := 0, q' - 8 := func)"
    unfolding c'_def set_fields by (simp_all add: mc m)
  have args: "ucast (scast x :: 64 word) = x" for x :: "32 word"
    by (rule bit_word_eqI) (auto simp: bit_simps)
  note b = made_stack [of "ss_size st" "ss_sp st", folded q_def q'_def]
  have b': "unat (ss_sp st) + 8 \<le> unat q'" "unat q' + 8 \<le> unat (ss_sp st) + unat (ss_size st)" "unat q' mod 16 = 8"
    using b assms(1) by (auto simp: stack_ok_def)
  have "(8 :: 64 word) \<le> q'" using b'(1) by (simp add: word_le_nat_alt)
  then have low: "unat (q' - 8) = unat q' - 8" by (simp add: unat_sub)
  have "unat (q' - 8) \<noteq> unat q'" using low b'(1) by linarith
  then have "q' \<noteq> q' - 8" by metis
  then have z: "mem8 c' (rsp c') = 0" by (simp add: c')
  have "mem8 c' a = mem8 c a" if "unat a < unat (ss_sp st) \<or> unat (ss_sp st) + unat (ss_size st) \<le> unat a" for a
  proof -
    have "a \<noteq> q'" "a \<noteq> q' - 8" using that b' low by auto
    then show ?thesis by (simp add: c')
  qed
  then show ?thesis using c'(1-4) z b' args join_split_small [OF assms(2)] by simp
qed

definition demo_cpu :: amd64 where
  "demo_cpu = \<lparr>rdi = 1, rsi = 2, rdx = 3, rcx = 4, r8 = 5, r9 = 6, rax = 7, rbx = 8, rbp = 9, r10 = 10, r11 = 11,
     r12 = 12, r13 = 13, r14 = 14, r15 = 15, rsp = 0x7000, rip = 0x400, mem8 = (\<lambda>a. a + 1)\<rparr>"

lemma new_task_starts_witness:
  "\<exists>mc m. makecontext_amd64 \<lparr>ss_sp = 0x10008, ss_size = 0x1FC0\<rparr> 0x400100 2 (fst (split_task 0x7F1234567000))
      (snd (split_task 0x7F1234567000)) (mem8 demo_cpu) = Some (mc, m) \<and>
     rip (setmcontext_amd64 (demo_cpu\<lparr>mem8 := m\<rparr>) mc) = 0x400100"
proof -
  obtain mc m where e: "makecontext_amd64 \<lparr>ss_sp = 0x10008, ss_size = 0x1FC0\<rparr> 0x400100 2 (fst (split_task 0x7F1234567000))
      (snd (split_task 0x7F1234567000)) (mem8 demo_cpu) = Some (mc, m)" by (simp add: makecontext_amd64_def Let_def)
  have "stack_ok \<lparr>ss_sp = 0x10008, ss_size = 0x1FC0\<rparr>" "(0x7F1234567000 :: 64 word) < 2 ^ 48" by (simp_all add: stack_ok_def)
  from new_task_starts [OF this e] show ?thesis using e by blast
qed

lemma context_switch_resumes_witness:
  "rax (fst (swapcontext_amd64 (demo_cpu\<lparr>rbx := 0\<rparr>) zero_amd64 (snd (swapcontext_amd64 demo_cpu zero_amd64 zero_amd64)))) \<noteq> 0 \<and>
   rbx (fst (swapcontext_amd64 (demo_cpu\<lparr>rbx := 0\<rparr>) zero_amd64 (snd (swapcontext_amd64 demo_cpu zero_amd64 zero_amd64)))) = 8"
proof -
  let ?a = "swapcontext_amd64 demo_cpu zero_amd64 zero_amd64"
  let ?b = "swapcontext_amd64 (demo_cpu\<lparr>rbx := 0\<rparr>) zero_amd64 (snd ?a)"
  have "rbx (fst (getmcontext_amd64 demo_cpu zero_amd64)) = 8" by (simp add: getmcontext_amd64_def demo_cpu_def Let_def)
  then show ?thesis
    using context_switch_resumes [of demo_cpu zero_amd64 zero_amd64 "fst ?a" "snd ?a" "demo_cpu\<lparr>rbx := 0\<rparr>" zero_amd64 "fst ?b" "snd ?b"]
    by simp
qed

section \<open>The 32 bit x86\<close>

record i386_mcontext =
  ic_onstack :: "32 word"
  ic_gs :: "32 word"
  ic_fs :: "32 word"
  ic_es :: "32 word"
  ic_ds :: "32 word"
  ic_edi :: "32 word"
  ic_esi :: "32 word"
  ic_ebp :: "32 word"
  ic_isp :: "32 word"
  ic_ebx :: "32 word"
  ic_edx :: "32 word"
  ic_ecx :: "32 word"
  ic_eax :: "32 word"
  ic_trapno :: "32 word"
  ic_err :: "32 word"
  ic_eip :: "32 word"
  ic_cs :: "32 word"
  ic_eflags :: "32 word"
  ic_esp :: "32 word"
  ic_ss :: "32 word"
  ic_fpregs :: "32 word list"

record i386 =
  eax :: "32 word"
  ebx :: "32 word"
  ecx :: "32 word"
  edx :: "32 word"
  esi :: "32 word"
  edi :: "32 word"
  ebp :: "32 word"
  esp :: "32 word"
  eip :: "32 word"
  seg_fs :: "32 word"
  seg_es :: "32 word"
  seg_ds :: "32 word"
  seg_ss :: "32 word"
  mem4 :: "32 word \<Rightarrow> 32 word"

text \<open>The arguments are copied to the stack, where the function finds them behind its return address.\<close>

fun write_words :: "32 word \<Rightarrow> 32 word list \<Rightarrow> (32 word \<Rightarrow> 32 word) \<Rightarrow> 32 word \<Rightarrow> 32 word" where
  "write_words a [] m = m"
| "write_words a (x # xs) m = write_words (a + 4) xs (m(a := x))"

definition makecontext_386 ::
    "32 word stack_t \<Rightarrow> 32 word \<Rightarrow> 32 word list \<Rightarrow> i386_mcontext \<Rightarrow> (32 word \<Rightarrow> 32 word) \<Rightarrow> i386_mcontext \<times> (32 word \<Rightarrow> 32 word)" where
  "makecontext_386 st func args mc m =
     (let sp = ss_sp st + 4 * (ss_size st div 4);
          sp1 = sp - 4 * of_nat (length args);
          sp2 = sp1 - sp1 mod 16;
          m1 = write_words sp2 args m;
          sp3 = sp2 - 4
      in (mc\<lparr>ic_eip := func, ic_esp := sp3\<rparr>, m1(sp3 := 0)))"

definition getmcontext_386 :: "i386 \<Rightarrow> i386_mcontext \<Rightarrow> i386 \<times> i386_mcontext" where
  "getmcontext_386 c mc =
     (let mc1 = mc\<lparr>ic_fs := seg_fs c, ic_es := seg_es c, ic_ds := seg_ds c, ic_ss := seg_ss c, ic_edi := edi c,
                 ic_esi := esi c, ic_ebp := ebp c, ic_ebx := ebx c, ic_edx := edx c, ic_ecx := ecx c, ic_eax := 1,
                 ic_eip := mem4 c (esp c), ic_esp := esp c + 4\<rparr>
      in (c\<lparr>ecx := ic_ecx mc1, eax := 0, eip := mem4 c (esp c), esp := esp c + 4\<rparr>, mc1))"

definition setmcontext_386 :: "i386 \<Rightarrow> i386_mcontext \<Rightarrow> i386" where
  "setmcontext_386 c mc =
     (let c1 = c\<lparr>seg_fs := ic_fs mc, seg_es := ic_es mc, seg_ds := ic_ds mc, seg_ss := ic_ss mc, edi := ic_edi mc,
                esi := ic_esi mc, ebp := ic_ebp mc, ebx := ic_ebx mc, edx := ic_edx mc, ecx := ic_ecx mc, esp := ic_esp mc\<rparr>;
          c2 = c1\<lparr>esp := esp c1 - 4, mem4 := (mem4 c1)(esp c1 - 4 := ic_eip mc)\<rparr>;
          c3 = c2\<lparr>eax := ic_eax mc\<rparr>
      in c3\<lparr>eip := mem4 c3 (esp c3), esp := esp c3 + 4\<rparr>)"

lemma i386_switch_resumes:
  "setmcontext_386 c' (snd (getmcontext_386 c mc)) =
   (fst (getmcontext_386 c mc))\<lparr>eax := 1, mem4 := (mem4 c')(esp c := mem4 c (esp c))\<rparr>"
  by (simp add: getmcontext_386_def setmcontext_386_def Let_def)

lemma i386_task_starts:
  assumes "makecontext_386 st func [y, x] mc0 (mem4 c) = (mc, m)"
  defines "c' \<equiv> setmcontext_386 (c\<lparr>mem4 := m\<rparr>) mc"
  shows "eip c' = func \<and> mem4 c' (esp c') = 0 \<and> mem4 c' (esp c' + 4) = y \<and> mem4 c' (esp c' + 8) = x"
proof -
  define q where "q = ss_sp st + 4 * (ss_size st div 4) - 8"
  define sp where "sp = q - q mod 16"
  have mc: "mc = mc0\<lparr>ic_eip := func, ic_esp := sp - 4\<rparr>" and m: "m = (mem4 c)(sp := y, sp + 4 := x, sp - 4 := 0)"
    using assms(1) by (auto simp: makecontext_386_def Let_def q_def sp_def)
  have c': "eip c' = func" "esp c' = sp - 4" "mem4 c' = (mem4 c)(sp := y, sp + 4 := x, sp - 4 := 0, sp - 8 := func)"
    by (simp_all add: c'_def setmcontext_386_def Let_def mc m)
  define z where "z = sp - 8"
  have sp: "sp = z + 8" "sp + 4 = z + 12" "sp - 4 = z + 4" "sp - 8 = z" by (simp_all add: z_def)
  have ne: "sp - 4 \<noteq> sp - 8" "sp \<noteq> sp - 8" "sp \<noteq> sp - 4" "sp + 4 \<noteq> sp - 8" "sp + 4 \<noteq> sp - 4" "sp \<noteq> sp + 4"
    unfolding sp(2-4) unfolding sp(1) by simp_all
  have "sp - 4 + 4 = sp" "sp - 4 + 8 = sp + 4" by simp_all
  then show ?thesis using c' ne by auto
qed

section \<open>ARM, MIPS and PowerPC\<close>

text \<open>ARM: registers r0 to r14; \<open>regs\<close> has all, \<open>pc\<close> apart.\<close>

record arm =
  arm_regs :: "32 word list"
  arm_pc :: "32 word"

definition makecontext_arm :: "32 word stack_t \<Rightarrow> 32 word \<Rightarrow> 32 word list \<Rightarrow> 32 word list \<Rightarrow> 32 word list" where
  "makecontext_arm st fn args gregs =
     (let sp = ss_sp st + 4 * (ss_size st div 4); k = min 4 (length args);
          g = take k args @ drop k gregs
      in g[13 := sp, 14 := fn])"

definition getmcontext_arm :: "arm \<Rightarrow> 32 word list \<Rightarrow> arm \<times> 32 word list" where
  "getmcontext_arm c gregs =
     (\<lparr>arm_regs = (arm_regs c)[1 := 1, 0 := 0], arm_pc = arm_regs c ! 14\<rparr>,
      1 # take 14 (drop 1 (arm_regs c)) @ drop 15 gregs)"

definition setmcontext_arm :: "arm \<Rightarrow> 32 word list \<Rightarrow> arm" where
  "setmcontext_arm c gregs = \<lparr>arm_regs = take 15 gregs @ drop 15 (arm_regs c), arm_pc = gregs ! 14\<rparr>"

lemma arm_switch_resumes:
  assumes "length (arm_regs c) = 15" and "length (arm_regs c') = 15" and "length gregs = 18"
  shows "arm_pc (setmcontext_arm c' (snd (getmcontext_arm c gregs))) = arm_pc (fst (getmcontext_arm c gregs))"
    and "arm_regs (setmcontext_arm c' (snd (getmcontext_arm c gregs))) = (arm_regs c)[0 := 1]"
proof -
  obtain x xs where c: "arm_regs c = x # xs" "length xs = 14" using assms(1) by (cases "arm_regs c") auto
  have "(1 # take 14 xs @ drop 15 gregs) ! 14 = (x # xs) ! 14" using c(2) by (simp add: nth_append)
  then show "arm_pc (setmcontext_arm c' (snd (getmcontext_arm c gregs))) = arm_pc (fst (getmcontext_arm c gregs))"
    "arm_regs (setmcontext_arm c' (snd (getmcontext_arm c gregs))) = (arm_regs c)[0 := 1]"
    using c assms(2) by (simp_all add: setmcontext_arm_def getmcontext_arm_def)
qed

lemma arm_task_starts:
  assumes "length gregs = 18"
  shows "arm_pc (setmcontext_arm c (makecontext_arm st fn [y, x] gregs)) = fn"
    and "take 2 (arm_regs (setmcontext_arm c (makecontext_arm st fn [y, x] gregs))) = [y, x]"
    and "arm_regs (setmcontext_arm c (makecontext_arm st fn [y, x] gregs)) ! 13 = ss_sp st + 4 * (ss_size st div 4)"
  using assms by (simp_all add: setmcontext_arm_def makecontext_arm_def Let_def nth_append nth_list_update)

text \<open>MIPS: \<open>mc_regs\<close> holds the registers; 4 to 7 are the arguments, 29 the stack, 31 the return address.\<close>

record mips =
  mips_regs :: "nat \<Rightarrow> 32 word"
  mips_pc :: "32 word"

definition makecontext_mips :: "32 word stack_t \<Rightarrow> 32 word \<Rightarrow> 32 word list \<Rightarrow> (nat \<Rightarrow> 32 word) \<Rightarrow> nat \<Rightarrow> 32 word" where
  "makecontext_mips st fn args regs =
     (let sp = ss_sp st + 4 * (ss_size st div 4);
          r = (\<lambda>k. if 4 \<le> k \<and> k < 4 + min 4 (length args) then args ! (k - 4) else regs k)
      in r(29 := sp, 31 := fn))"

definition mips_saved :: "nat \<Rightarrow> bool" where
  "mips_saved k \<longleftrightarrow> 4 \<le> k \<and> k \<le> 7 \<or> 16 \<le> k \<and> k \<le> 23 \<or> 28 \<le> k \<and> k \<le> 31"

definition getmcontext_mips :: "mips \<Rightarrow> (nat \<Rightarrow> 32 word) \<Rightarrow> mips \<times> (nat \<Rightarrow> 32 word)" where
  "getmcontext_mips c regs =
     (c\<lparr>mips_regs := (mips_regs c)(2 := 0), mips_pc := mips_regs c 31\<rparr>,
      (\<lambda>k. if mips_saved k then mips_regs c k else regs k))"

definition setmcontext_mips :: "mips \<Rightarrow> (nat \<Rightarrow> 32 word) \<Rightarrow> mips" where
  "setmcontext_mips c regs =
     (let r = (\<lambda>k. if mips_saved k \<and> k \<noteq> 31 then regs k else mips_regs c k)(8 := regs 31, 25 := regs 31)
      in \<lparr>mips_regs = r, mips_pc = r 8\<rparr>)"

lemma mips_switch_resumes:
  defines "r \<equiv> \<lambda>c c' regs. setmcontext_mips c' (snd (getmcontext_mips c regs))"
  shows "mips_pc (r c c' regs) = mips_pc (fst (getmcontext_mips c regs))"
    and "mips_saved k \<Longrightarrow> k \<noteq> 31 \<Longrightarrow> mips_regs (r c c' regs) k = mips_regs c k"
  by (auto simp: r_def setmcontext_mips_def getmcontext_mips_def mips_saved_def Let_def)

text \<open>
  The answer of the second return is not set to 1: register 2 is what it was when the context was loaded, 0 if
  \<^verbatim>\<open>setmcontext\<close> follows \<^verbatim>\<open>getmcontext\<close> as in \<^verbatim>\<open>swapcontext\<close>.
\<close>

lemma mips_second_answer:
  "mips_regs (setmcontext_mips c' regs) 2 = mips_regs c' 2"
  "mips_regs (setmcontext_mips (fst (getmcontext_mips c' regs')) regs) 2 = 0"
  by (simp_all add: setmcontext_mips_def getmcontext_mips_def mips_saved_def Let_def)

text \<open>PowerPC; only the first argument is passed.\<close>

record power_mcontext =
  pw_pc :: "32 word"
  pw_cr :: "32 word"
  pw_ctr :: "32 word"
  pw_xer :: "32 word"
  pw_sp :: "32 word"
  pw_toc :: "32 word"
  pw_r3 :: "32 word"
  pw_gpr :: "32 word list"

record power =
  gpr :: "nat \<Rightarrow> 32 word"
  p_lr :: "32 word"
  p_cr :: "32 word"
  p_ctr :: "32 word"
  p_xer :: "32 word"
  p_pc :: "32 word"

definition makecontext_power :: "32 word stack_t \<Rightarrow> 32 word \<Rightarrow> 32 word list \<Rightarrow> power_mcontext \<Rightarrow> power_mcontext" where
  "makecontext_power st func args mc =
     (let tos = ss_sp st + 4 * (ss_size st div 4); sp = tos - 4 * 16
      in mc\<lparr>pw_pc := func, pw_sp := sp, pw_r3 := hd args\<rparr>)"

definition getmcontext_power :: "power \<Rightarrow> power_mcontext \<Rightarrow> power \<times> power_mcontext" where
  "getmcontext_power c mc =
     (let mc1 = mc\<lparr>pw_pc := p_lr c, pw_cr := p_cr c, pw_ctr := p_ctr c, pw_xer := p_xer c, pw_sp := gpr c 1,
                 pw_toc := gpr c 2, pw_r3 := 1, pw_gpr := map (gpr c) [13..<32]\<rparr>
      in (c\<lparr>gpr := (gpr c)(0 := p_lr c, 5 := 1, 6 := p_ctr c, 7 := p_xer c, 3 := 0), p_pc := p_lr c\<rparr>, mc1))"

definition setmcontext_power :: "power \<Rightarrow> power_mcontext \<Rightarrow> power" where
  "setmcontext_power c mc =
     (let g = (\<lambda>k. if 13 \<le> k \<and> k < 32 then pw_gpr mc ! (k - 13) else gpr c k)
      in \<lparr>gpr = g(1 := pw_sp mc, 2 := pw_toc mc, 0 := pw_xer mc, 3 := pw_r3 mc), p_lr = pw_pc mc, p_cr = pw_cr mc,
          p_ctr = pw_ctr mc, p_xer = pw_xer mc, p_pc = pw_pc mc\<rparr>)"

lemma power_switch_resumes:
  defines "r \<equiv> \<lambda>c c' mc. setmcontext_power c' (snd (getmcontext_power c mc))"
  shows "p_pc (r c c' mc) = p_pc (fst (getmcontext_power c mc))" and "gpr (r c c' mc) 3 = 1"
    and "k \<in> {1, 2} \<union> {13..<32} \<Longrightarrow> gpr (r c c' mc) k = gpr c k" and "p_cr (r c c' mc) = p_cr c"
proof -
  have "map (gpr c) [13..<32] ! (k - 13) = gpr c k" if "13 \<le> k" "k < 32" for k
    using nth_map_upt [of "k - 13" 32 13 "gpr c"] that by (simp del: upt_rec_numeral)
  then show "p_pc (r c c' mc) = p_pc (fst (getmcontext_power c mc))" "gpr (r c c' mc) 3 = 1"
    "k \<in> {1, 2} \<union> {13..<32} \<Longrightarrow> gpr (r c c' mc) k = gpr c k" "p_cr (r c c' mc) = p_cr c"
    by (auto simp: r_def setmcontext_power_def getmcontext_power_def Let_def simp del: upt_rec_numeral)
qed

text \<open>
  On the 32 bit machines the address is the first of the two words, whatever the second is, so that PowerPC
  does without it.
\<close>

definition join_task32 :: "32 word \<Rightarrow> 32 word \<Rightarrow> 32 word" where
  "join_task32 y x = (let z = push_bit 16 x; z1 = push_bit 16 z in z1 OR y)"

lemma join_task32_first: "join_task32 y x = y"
  by (rule bit_word_eqI) (auto simp: join_task32_def Let_def bit_simps)

section \<open>Switching between the scheduler and a task\<close>

text \<open>
  \<^verbatim>\<open>contextswitch\<close>: a negative answer of \<^verbatim>\<open>swapcontext\<close> is the failed assertion.
\<close>

definition contextswitch :: "int \<Rightarrow> unit outcome" where
  "contextswitch answer = (if answer < 0 then Abort else Return ())"

text \<open>\<^verbatim>\<open>taskdebug\<close> returns before it does anything.\<close>

definition taskdebug :: "string \<Rightarrow> libtask \<Rightarrow> libtask" where
  "taskdebug fmt s = s"

end
