(* ===== verification/Task_Examples.thy ===== *)
theory Task_Examples
  imports Stream
begin

text \<open>
  Two of the example programs of the task library (src/src/common/task): the prime sieve of primes.c, a chain
  of tasks that filter what runs through their channels, and the copying tasks of tcpproxy.c.  The sieve is
  a step relation that leaves open which task runs next and how much a channel holds; the lemmas say that
  what it prints are the primes in order, and that a proxy hands on what it reads.
\<close>

section \<open>The prime sieve\<close>

text \<open>
  A task of the chain: before it has received its prime, in its loop, or in the loop with a number it has to
  pass on.  It stands with what its channel holds.
\<close>

datatype prime_phase = Fresh | Looping nat | Passing nat nat

type_synonym stage = "nat list \<times> prime_phase"

datatype sieve_event = Quiet | Prints nat | Ends

text \<open>
  A step of one task.  A task receives from its own channel and sends to that of the next one;
  \<open>accepts q\<close> says whether a channel that holds \<open>q\<close> takes one more.  Printing, making the channel and creating
  the next task happen without a switch in between.
\<close>

inductive primetask :: "int \<Rightarrow> (nat list \<Rightarrow> bool) \<Rightarrow> stage list \<Rightarrow> sieve_event \<Rightarrow> stage list \<Rightarrow> bool"
  for goal accepts where
  stop: "goal < int p \<Longrightarrow> primetask goal accepts ((p # q, Fresh) # st) Ends ((q, Fresh) # st)"
| start: "int p \<le> goal \<Longrightarrow>
    primetask goal accepts [(p # q, Fresh)] (Prints p) [(q, Looping p), ([], Fresh)]"
| drop: "i mod p = 0 \<Longrightarrow> primetask goal accepts ((i # q, Looping p) # st) Quiet ((q, Looping p) # st)"
| take: "i mod p \<noteq> 0 \<Longrightarrow> primetask goal accepts ((i # q, Looping p) # st) Quiet ((q, Passing p i) # st)"
| pass: "accepts q' \<Longrightarrow>
    primetask goal accepts ((q, Passing p i) # (q', ph) # st) Quiet ((q, Looping p) # (q' @ [i], ph) # st)"
| later: "primetask goal accepts st e st' \<Longrightarrow> primetask goal accepts (sg # st) e (sg # st')"

record sieve =
  next_int :: nat
  stages :: "stage list"
  ended :: bool

definition sieve_start :: sieve where
  "sieve_start = \<lparr>next_int = 2, stages = [([], Fresh)], ended = False\<rparr>"

text \<open>\<^verbatim>\<open>taskmain\<close> sends the numbers from 2 on, as far as an \<^verbatim>\<open>int\<close> reaches.\<close>

inductive sieve_step :: "int \<Rightarrow> (nat list \<Rightarrow> bool) \<Rightarrow> sieve \<Rightarrow> sieve_event \<Rightarrow> sieve \<Rightarrow> bool"
  for goal accepts where
  send: "\<not> ended s \<Longrightarrow> stages s = (q, ph) # st \<Longrightarrow> accepts q \<Longrightarrow> next_int s < 2 ^ 31 - 1 \<Longrightarrow>
    sieve_step goal accepts s Quiet (s\<lparr>next_int := next_int s + 1, stages := (q @ [next_int s], ph) # st\<rparr>)"
| task: "\<not> ended s \<Longrightarrow> primetask goal accepts (stages s) e st' \<Longrightarrow>
    sieve_step goal accepts s e (s\<lparr>stages := st', ended := (e = Ends)\<rparr>)"

text \<open>The states a run reaches, with what has been printed.\<close>

inductive sieve_run :: "int \<Rightarrow> (nat list \<Rightarrow> bool) \<Rightarrow> sieve \<Rightarrow> nat list \<Rightarrow> bool" for goal accepts where
  init: "sieve_run goal accepts sieve_start []"
| step: "sieve_run goal accepts s out \<Longrightarrow> sieve_step goal accepts s e s' \<Longrightarrow>
    sieve_run goal accepts s' (out @ (case e of Prints p \<Rightarrow> [p] | _ \<Rightarrow> []))"

text \<open>Numbers that pass the filters of \<open>ps\<close>, and the first one that does.\<close>

definition sieved :: "nat list \<Rightarrow> nat \<Rightarrow> bool" where
  "sieved ps x \<longleftrightarrow> (\<forall>p \<in> set ps. \<not> p dvd x)"

definition first_left :: "nat list \<Rightarrow> nat \<Rightarrow> bool" where
  "first_left ps p \<longleftrightarrow> 2 \<le> p \<and> sieved ps p \<and> (\<forall>x. 2 \<le> x \<longrightarrow> x < p \<longrightarrow> \<not> sieved ps x)"

text \<open>
  The chain behind the filters \<open>ps\<close>, which have let pass everything below \<open>u\<close>: every channel holds, in order,
  what its sender has passed on and its task has not yet taken.
\<close>

fun chain_ok :: "nat list \<Rightarrow> nat \<Rightarrow> stage list \<Rightarrow> bool" where
  "chain_ok ps u [] = False"
| "chain_ok ps u ((q, Fresh) # st) = (st = [] \<and> 2 \<le> u \<and> q = filter (sieved ps) [2..<u])"
| "chain_ok ps u ((q, Looping p) # st) =
     (first_left ps p \<and> (\<exists>l. p < l \<and> l \<le> u \<and> q = filter (sieved ps) [l..<u] \<and> chain_ok (ps @ [p]) l st))"
| "chain_ok ps u ((q, Passing p i) # st) =
     (first_left ps p \<and> p < i \<and> i < u \<and> sieved (ps @ [p]) i \<and> q = filter (sieved ps) [Suc i..<u] \<and>
      chain_ok (ps @ [p]) i st)"

fun found :: "stage list \<Rightarrow> nat list" where
  "found [] = []"
| "found ((q, Fresh) # st) = found st"
| "found ((q, Looping p) # st) = p # found st"
| "found ((q, Passing p i) # st) = p # found st"

lemma sieved_snoc: "sieved (ps @ [p]) x \<longleftrightarrow> sieved ps x \<and> \<not> p dvd x"
  by (auto simp: sieved_def)

lemma filter_upt_Cons:
  assumes "i # q = filter P [l..<u]"
  shows "P i" "l \<le> i" "i < u" "q = filter P [Suc i..<u]" "\<forall>x. l \<le> x \<longrightarrow> x < i \<longrightarrow> \<not> P x"
proof -
  from assms obtain xs ys where xy: "[l..<u] = xs @ i # ys" "\<forall>x \<in> set xs. \<not> P x" "P i" "q = filter P ys"
    using filter_eq_Cons_iff [of P "[l..<u]" i q] by metis
  have len: "length xs < u - l" using arg_cong [OF xy(1), of length] by simp
  have i: "i = l + length xs" using arg_cong [OF xy(1), of "\<lambda>zs. zs ! length xs"] len by simp
  have xs: "xs = [l..<i]" using arg_cong [OF xy(1), of "take (length xs)"] len by (simp add: i)
  have ys: "ys = [Suc i..<u]" using arg_cong [OF xy(1), of "drop (Suc (length xs))"] i by (simp add: drop_upt)
  show "P i" by (rule xy(3))
  show "l \<le> i" "i < u" using i len by simp_all
  show "q = filter P [Suc i..<u]" using xy(4) by (simp only: ys)
  show "\<forall>x. l \<le> x \<longrightarrow> x < i \<longrightarrow> \<not> P x" using xy(2) by (simp add: xs)
qed

lemma chain_ok_pass: "chain_ok ps u ((q, ph) # st) \<Longrightarrow> sieved ps u \<Longrightarrow> chain_ok ps (Suc u) ((q @ [u], ph) # st)"
  by (cases ph) auto

lemma chain_ok_skip: "chain_ok ps u st \<Longrightarrow> \<not> sieved ps u \<Longrightarrow> chain_ok ps (Suc u) st"
proof (cases st)
  case (Cons sg st')
  assume "chain_ok ps u st" "\<not> sieved ps u"
  with Cons show ?thesis by (cases sg; cases "snd sg") (auto intro: le_SucI)
qed simp

lemma chain_ok_skips:
  assumes "chain_ok ps l st" and "l \<le> i" and "\<forall>x. l \<le> x \<longrightarrow> x < i \<longrightarrow> \<not> sieved ps x"
  shows "chain_ok ps i st"
  using assms(2,3)
proof (induction i rule: dec_induct)
  case base
  show ?case by (rule assms(1))
next
  case (step n)
  then show ?case by (intro chain_ok_skip) auto
qed

text \<open>What a step of a task does to the chain and its filters.\<close>

lemma primetask_chain:
  assumes "primetask goal accepts st e st'" and "chain_ok ps u st"
  shows "(e = Quiet \<longrightarrow> chain_ok ps u st' \<and> found st' = found st) \<and>
    (\<forall>p. e = Prints p \<longrightarrow> int p \<le> goal \<and> chain_ok ps u st' \<and> found st' = found st @ [p]) \<and>
    (e = Ends \<longrightarrow> (\<exists>p. goal < int p \<and> first_left (ps @ found st) p))"
  using assms
proof (induction arbitrary: ps u rule: primetask.induct)
  case (stop p q st)
  then have "st = []" "p # q = filter (sieved ps) [2..<u]" by auto
  note f = filter_upt_Cons [OF this(2)]
  have "first_left (ps @ found ((p # q, Fresh) # st)) p"
    using f(1,2,5) \<open>st = []\<close> by (simp add: first_left_def)
  then show ?case using stop(1) by auto
next
  case (start p q)
  have "p # q = filter (sieved ps) [2..<u]" using start(2) by simp
  note f = filter_upt_Cons [OF this]
  have fl: "first_left ps p" and q: "q = filter (sieved ps) [Suc p..<u]" "p < u"
    using f by (simp_all add: first_left_def)
  have "\<forall>x \<in> set [2..<Suc p]. \<not> sieved (ps @ [p]) x" using fl by (auto simp: first_left_def sieved_snoc less_Suc_eq)
  then have "filter (sieved (ps @ [p])) [2..<Suc p] = []" by (simp only: filter_empty_conv)
  then show ?case using fl q start(1) by (auto simp: first_left_def intro!: exI [of _ "Suc p"])
next
  case (drop i p q st)
  then obtain l where l: "first_left ps p" "p < l" "i # q = filter (sieved ps) [l..<u]" "chain_ok (ps @ [p]) l st" by auto
  note f = filter_upt_Cons [OF l(3)]
  have "chain_ok (ps @ [p]) (Suc i) st"
    using l(4) f(2,5) drop(1) by (intro chain_ok_skips [OF l(4)]) (auto simp: sieved_snoc less_Suc_eq mod_eq_0_iff_dvd)
  then show ?case using l f by (auto intro!: exI [of _ "Suc i"])
next
  case (take i p q st)
  then obtain l where l: "first_left ps p" "p < l" "i # q = filter (sieved ps) [l..<u]" "chain_ok (ps @ [p]) l st" by auto
  note f = filter_upt_Cons [OF l(3)]
  have "chain_ok (ps @ [p]) i st" using f(2,5) by (intro chain_ok_skips [OF l(4)]) (auto simp: sieved_snoc)
  then show ?case using l f take(1) by (auto simp: sieved_snoc mod_eq_0_iff_dvd)
next
  case (pass q' q p i ph st)
  then have "chain_ok (ps @ [p]) (Suc i) ((q' @ [i], ph) # st)" by (intro chain_ok_pass) auto
  moreover have "found ((q' @ [i], ph) # st) = found ((q', ph) # st)" by (cases ph) simp_all
  ultimately show ?case using pass(2) by (auto intro!: exI [of _ "Suc i"])
next
  case (later st e st' sg)
  obtain q ph where sg: "sg = (q, ph)" by (cases sg)
  show ?case
  proof (cases ph)
    case Fresh
    with later sg have "st = []" by simp
    with later(1) show ?thesis by (auto elim: primetask.cases)
  next
    case (Looping p)
    with later(3) sg obtain l where l: "first_left ps p" "p < l" "l \<le> u" "q = filter (sieved ps) [l..<u]" "chain_ok (ps @ [p]) l st"
      by auto
    from later.IH [OF l(5)] l show ?thesis by (auto simp: sg Looping)
  next
    case (Passing p i)
    with later(3) sg have i: "chain_ok (ps @ [p]) i st" by simp
    from later.IH [OF i] later(3) show ?thesis by (auto simp: sg Passing)
  qed
qed

text \<open>Filters found one after the other are the primes.\<close>

definition is_prime :: "nat \<Rightarrow> bool" where
  "is_prime n \<longleftrightarrow> 2 \<le> n \<and> (\<forall>d \<in> {2..<n}. \<not> d dvd n)"

lemma first_left_prime:
  assumes ps: "ps = filter is_prime [2..<n]" and f: "first_left ps p"
  shows "ps = filter is_prime [2..<p]" "is_prime p"
proof -
  have pr: "is_prime p"
    unfolding is_prime_def
  proof (intro conjI ballI notI)
    show "2 \<le> p" using f by (simp add: first_left_def)
    fix d assume d: "d \<in> {2..<p}" "d dvd p"
    then obtain q where "q \<in> set ps" "q dvd d" using f by (auto simp: first_left_def sieved_def)
    with d(2) f show False by (auto simp: first_left_def sieved_def intro: dvd_trans)
  qed
  have np: "n \<le> p"
  proof (rule ccontr)
    assume "\<not> n \<le> p"
    then have "p \<in> set ps" using pr by (simp add: ps is_prime_def)
    then show False using f by (auto simp: first_left_def sieved_def)
  qed
  have "\<not> is_prime x" if "n \<le> x" "x < p" for x
  proof
    assume x: "is_prime x"
    then have "2 \<le> x" by (simp add: is_prime_def)
    then have "\<not> sieved ps x" using f that by (auto simp: first_left_def)
    then obtain q where q: "q \<in> set ps" "q dvd x" by (auto simp: sieved_def)
    then have "2 \<le> q" "q < n" by (simp_all add: ps)
    with q x that show False by (auto simp: is_prime_def)
  qed
  then have rest: "filter is_prime [m..<p] = []" if "n \<le> m" for m using that by (simp add: filter_empty_conv)
  show "ps = filter is_prime [2..<p]"
  proof (cases "2 \<le> n")
    case True
    then have "[2..<p] = [2..<n] @ [n..<p]" using np by (metis le_add_diff_inverse upt_add_eq_append)
    then show ?thesis using rest [of n] by (simp add: ps)
  next
    case False
    then show ?thesis using rest [of 2] by (simp add: ps)
  qed
  show "is_prime p" by (rule pr)
qed

lemma chain_ok_primes:
  "chain_ok ps u st \<Longrightarrow> ps = filter is_prime [2..<n] \<Longrightarrow> \<exists>m. ps @ found st = filter is_prime [2..<m]"
proof (induction ps u st arbitrary: n rule: chain_ok.induct)
  case (3 ps u q p st)
  then obtain l where l: "first_left ps p" "chain_ok (ps @ [p]) l st" by auto
  have "ps @ [p] = filter is_prime [2..<Suc p]"
    using first_left_prime [OF 3(3) l(1)] by (auto simp: is_prime_def)
  from 3(1) [OF l(2) this] show ?case by simp
next
  case (4 ps u q p i st)
  then have l: "first_left ps p" "chain_ok (ps @ [p]) i st" by auto
  have "ps @ [p] = filter is_prime [2..<Suc p]"
    using first_left_prime [OF 4(3) l(1)] by (auto simp: is_prime_def)
  from 4(1) [OF l(2) this] show ?case by simp
qed auto

lemma last_prime_found:
  assumes out: "out = filter is_prime [2..<n]" and goal: "\<forall>q \<in> set out. int q \<le> goal"
    and p: "goal < int p" "first_left out p"
  shows "out = filter is_prime [2..<nat (goal + 1)]"
proof -
  have o: "out = filter is_prime [2..<p]" using first_left_prime(1) [OF out p(2)] .
  define m where "m = max 2 (nat (goal + 1))"
  have m: "2 \<le> m" "m \<le> p" using p by (simp_all add: m_def first_left_def)
  have "\<not> is_prime x" if "m \<le> x" "x < p" for x
  proof
    assume "is_prime x"
    then have "x \<in> set out" using that m(1) by (simp add: o)
    then have "int x \<le> goal" using goal by blast
    then show False using that(1) by (simp add: m_def nat_le_iff)
  qed
  then have "filter is_prime [m..<p] = []" by (simp add: filter_empty_conv)
  moreover have "[2..<p] = [2..<m] @ [m..<p]" using m by (metis le_add_diff_inverse upt_add_eq_append)
  moreover have "[2..<m] = [2..<nat (goal + 1)]" by (simp add: m_def max_def)
  ultimately show ?thesis by (simp add: o)
qed

text \<open>The invariant of a run.\<close>

definition sieve_inv :: "int \<Rightarrow> sieve \<Rightarrow> nat list \<Rightarrow> bool" where
  "sieve_inv goal s out \<longleftrightarrow>
     (\<not> ended s \<longrightarrow> chain_ok [] (next_int s) (stages s) \<and> out = found (stages s)) \<and>
     (ended s \<longrightarrow> out = filter is_prime [2..<nat (goal + 1)]) \<and> (\<forall>p \<in> set out. int p \<le> goal)"

lemma sieve_step_inv:
  assumes "sieve_step goal accepts s e s'" and inv: "sieve_inv goal s out"
  shows "sieve_inv goal s' (out @ (case e of Prints p \<Rightarrow> [p] | _ \<Rightarrow> []))"
  using assms(1)
proof cases
  case (send q ph st)
  have ok: "chain_ok [] (next_int s) ((q, ph) # st)" "out = found ((q, ph) # st)"
    using inv send by (simp_all add: sieve_inv_def)
  have "chain_ok [] (Suc (next_int s)) ((q @ [next_int s], ph) # st)"
    using ok(1) by (rule chain_ok_pass) (simp add: sieved_def)
  moreover have "found ((q @ [next_int s], ph) # st) = found ((q, ph) # st)" by (cases ph) simp_all
  ultimately show ?thesis using inv send ok(2) by (simp add: sieve_inv_def)
next
  case (task st')
  have ok: "chain_ok [] (next_int s) (stages s)" "out = found (stages s)" "\<forall>p \<in> set out. int p \<le> goal"
    using inv task(2) by (simp_all add: sieve_inv_def)
  note c = primetask_chain [OF task(3) ok(1)]
  show ?thesis
  proof (cases e)
    case Quiet
    with c task ok show ?thesis by (simp add: sieve_inv_def)
  next
    case (Prints p)
    with c task ok show ?thesis by (simp add: sieve_inv_def)
  next
    case Ends
    with c obtain p where p: "goal < int p" "first_left out p" using ok(2) by auto
    obtain n where n: "out = filter is_prime [2..<n]" using chain_ok_primes [OF ok(1), of 0] ok(2) by auto
    from last_prime_found [OF n ok(3) p] task Ends ok(3) show ?thesis by (simp add: sieve_inv_def)
  qed
qed

text \<open>
  Whatever the interleaving and the channels, what has been printed are the first primes in order, none above
  the goal; when the program ends, it has printed all primes up to the goal.
\<close>

lemma sieve_prints_primes:
  assumes "sieve_run goal accepts s out"
  shows "(\<exists>n. out = filter is_prime [2..<n]) \<and> (\<forall>p \<in> set out. int p \<le> goal) \<and>
    (ended s \<longrightarrow> out = filter is_prime [2..<nat (goal + 1)])"
proof -
  have inv: "sieve_inv goal s out"
    using assms
  proof (induction rule: sieve_run.induct)
    case init
    show ?case by (simp add: sieve_start_def sieve_inv_def)
  next
    case (step s out e s')
    show ?case using step.hyps(2) step.IH by (rule sieve_step_inv)
  qed
  have "\<exists>n. out = filter is_prime [2..<n]"
  proof (cases "ended s")
    case True
    then show ?thesis using inv by (auto simp only: sieve_inv_def)
  next
    case False
    then have "chain_ok [] (next_int s) (stages s)" "out = found (stages s)" using inv by (simp_all add: sieve_inv_def)
    then show ?thesis using chain_ok_primes [of "[]" "next_int s" "stages s" 0] by simp
  qed
  then show ?thesis using inv by (simp add: sieve_inv_def)
qed

text \<open>A run to the end, with the goal 2: the second task receives 3.\<close>

lemma sieve_run_ends: "\<exists>s. sieve_run 2 (\<lambda>_. True) s [2] \<and> ended s"
proof -
  define acc where "acc = (\<lambda>_ :: nat list. True)"
  define at where "at n st = \<lparr>next_int = n, stages = st, ended = False\<rparr>" for n st
  have send: "sieve_run 2 acc (at n ((q, ph) # st)) out \<Longrightarrow> n < 2 ^ 31 - 1 \<Longrightarrow>
      sieve_run 2 acc (at (Suc n) ((q @ [n], ph) # st)) out" for n q ph st out
    using sieve_run.step [OF _ sieve_step.send, of 2 acc "at n ((q, ph) # st)" out q ph st] by (simp add: at_def acc_def)
  have go: "sieve_run 2 acc (at n st') (out @ (case e of Prints p \<Rightarrow> [p] | _ \<Rightarrow> []))"
    if "sieve_run 2 acc (at n st) out" "primetask 2 acc st e st'" "e \<noteq> Ends" for n st st' out e
    using sieve_run.step [OF that(1) sieve_step.task, of e st'] that(2,3) by (simp add: at_def)
  have "sieve_run 2 acc (at 2 [([], Fresh)]) []"
    using sieve_run.init [of 2 acc] by (simp add: at_def sieve_start_def)
  from send [OF this] have "sieve_run 2 acc (at 3 [([2], Fresh)]) []" by simp
  from go [OF this primetask.start] have "sieve_run 2 acc (at 3 [([], Looping 2), ([], Fresh)]) [2]" by simp
  from send [OF this] have "sieve_run 2 acc (at 4 [([3], Looping 2), ([], Fresh)]) [2]" by simp
  from go [OF this primetask.take] have "sieve_run 2 acc (at 4 [([], Passing 2 3), ([], Fresh)]) [2]" by simp
  from go [OF this primetask.pass] have r: "sieve_run 2 acc (at 4 [([], Looping 2), ([3], Fresh)]) [2]" by (simp add: acc_def)
  have "primetask 2 acc [([], Looping 2), ([3], Fresh)] Ends [([], Looping 2), ([], Fresh)]"
    by (intro primetask.later primetask.stop) simp
  then have "sieve_run 2 acc (at 4 [([], Looping 2), ([3], Fresh)]\<lparr>stages := [([], Looping 2), ([], Fresh)], ended := True\<rparr>) [2]"
    using sieve_run.step [OF r sieve_step.task, of Ends] by (simp add: at_def)
  then show ?thesis unfolding acc_def by force
qed

section \<open>The proxy\<close>

text \<open>
  A copying task: \<open>inp\<close> is what the peer has sent, \<open>rd k n a\<close> the answer to the \<open>k\<close>-th read, with room for \<open>n\<close>
  bytes and \<open>a\<close> bytes there, \<open>wr\<close> the answers to writes.  The result are the bytes written and those not read;
  a failed write is not noticed.
\<close>

partial_function (option) rwtask ::
    "(nat \<Rightarrow> nat \<Rightarrow> nat \<Rightarrow> io) \<Rightarrow> (nat \<Rightarrow> nat \<Rightarrow> io) \<Rightarrow> nat \<Rightarrow> nat \<Rightarrow> byte list \<Rightarrow> byte list \<Rightarrow>
     (byte list \<times> byte list) option" where
  "rwtask rd wr k j inp out =
     (case fdread (\<lambda>i. rd i 2048 (length inp)) k 0 of
        None \<Rightarrow> None
      | Some (n, k', nw) \<Rightarrow>
          if 0 < n then
            (case fdwrite wr j (take (nat n) inp) 0 out of
               None \<Rightarrow> None
             | Some (r, j', out') \<Rightarrow> rwtask rd wr k' j' (drop (nat n) inp) out')
          else Some (out, inp))"

text \<open>A connection that delivers all it has, some of it with each read that is not told to wait.\<close>

definition drains :: "(nat \<Rightarrow> nat \<Rightarrow> nat \<Rightarrow> io) \<Rightarrow> bool" where
  "drains rd \<longleftrightarrow>
     (\<forall>k n a. case rd k n a of Again \<Rightarrow> True | Failed \<Rightarrow> False | Done m \<Rightarrow> m \<le> a \<and> m \<le> n \<and> (0 < a \<longrightarrow> 0 < n \<longrightarrow> 0 < m)) \<and>
     (\<forall>k n a. \<exists>j m. rd (k + j) n a = Done m)"

lemma fdread_done:
  "rd (k + j) = Done m \<Longrightarrow> \<forall>i. rd i \<noteq> Failed \<Longrightarrow> \<exists>i w. fdread rd k nw = Some (case rd i of Done n \<Rightarrow> int n | _ \<Rightarrow> -1, Suc i, w) \<and>
     rd i \<noteq> Again"
proof (induction j arbitrary: k nw)
  case 0
  then show ?case by (subst fdread.simps) (auto intro!: exI [of _ k])
next
  case (Suc j)
  show ?case
  proof (cases "rd k")
    case Again
    have "rd (k + 1 + j) = Done m" using Suc.prems(1) by simp
    from Suc.IH [OF this Suc.prems(2), of "nw + 1"] Again show ?thesis by (subst fdread.simps) simp
  next
    case (Done n)
    then show ?thesis by (subst fdread.simps) (auto intro!: exI [of _ k])
  qed (use Suc.prems in simp)
qed

text \<open>A proxy whose connections work passes on everything it is sent, in order, and ends with its input.\<close>

lemma rwtask_copies:
  assumes rd: "drains rd"
    and wr: "\<And>k n. 0 < n \<Longrightarrow> case wr k n of Again \<Rightarrow> True | Failed \<Rightarrow> False | Done m \<Rightarrow> 0 < m \<and> m \<le> n"
      "\<And>k n. 0 < n \<Longrightarrow> \<exists>j. wr (k + j) n \<noteq> Again"
  shows "rwtask rd wr k j inp out = Some (out @ inp, [])"
proof (induction "length inp" arbitrary: k j inp out rule: less_induct)
  case less
  define r where "r = (\<lambda>i. rd i 2048 (length inp))"
  have ans: "case r i of Again \<Rightarrow> True | Failed \<Rightarrow> False | Done m \<Rightarrow> m \<le> length inp \<and> m \<le> 2048 \<and> (0 < length inp \<longrightarrow> 0 < m)" for i
  proof -
    have "case rd i 2048 (length inp) of Again \<Rightarrow> True | Failed \<Rightarrow> False
      | Done m \<Rightarrow> m \<le> length inp \<and> m \<le> 2048 \<and> (0 < length inp \<longrightarrow> 0 < (2048 :: nat) \<longrightarrow> 0 < m)"
      using rd unfolding drains_def by blast
    then show ?thesis by (simp add: r_def split: io.splits)
  qed
  have nf: "\<forall>i. r i \<noteq> Failed"
  proof (intro allI notI)
    fix i assume "r i = Failed"
    with ans [of i] show False by simp
  qed
  obtain d m where "r (k + d) = Done m" using rd unfolding drains_def r_def by blast
  from fdread_done [OF this nf, of 0] obtain i w where
    fr: "fdread r k 0 = Some (case r i of Done n \<Rightarrow> int n | _ \<Rightarrow> -1, Suc i, w)" "r i \<noteq> Again" by blast
  then obtain n where n: "r i = Done n" using nf by (cases "r i") auto
  have nb: "n \<le> length inp" "0 < length inp \<longrightarrow> 0 < n" using ans [of i] n by simp_all
  have step: "rwtask rd wr k j inp out =
      (if 0 < n then (case fdwrite wr j (take n inp) 0 out of None \<Rightarrow> None
         | Some (x, j', out') \<Rightarrow> rwtask rd wr (Suc i) j' (drop n inp) out') else Some (out, inp))"
    by (subst rwtask.simps)
      (simp only: r_def [symmetric] fr(1) n option.case prod.case io.case of_nat_0_less_iff nat_int)
  show ?case
  proof (cases "n = 0")
    case True
    then have "inp = []" "\<not> 0 < n" using nb(2) by simp_all
    then show ?thesis unfolding step by simp
  next
    case False
    obtain j' where "fdwrite wr j (take n inp) 0 out = Some (int (length (take n inp)), j', out @ take n inp)"
      using fdwrite_all [OF wr, of 0 "take n inp" out out j] by auto
    then show ?thesis
      using less [of "drop n inp" "Suc i" j' "out @ take n inp"] False nb(1) by (simp add: step)
  qed
qed

end
