(* ===== verification/Release.thy ===== *)
theory Release
  imports Daemon Timer
begin

text \<open>
  What the structures of the program give back: the routines that free channels, timers, hooks, attached
  clients, routers, replicas, record streams and the context, on the set of blocks that are allocated.  A
  structure is the record of the blocks its \<^verbatim>\<open>init\<close> routine asked for, with those added to it later.
  The lemmas say that each routine can be called once, and what it leaves allocated: the channels of a
  client and of a replica, the buffers of a record stream, the address of the context.
\<close>

section \<open>Blocks\<close>

type_synonym blk = nat

text \<open>\<^verbatim>\<open>free\<close>: a null pointer is no block; a block that is not allocated is an error.\<close>

definition free_blk :: "blk option \<Rightarrow> blk set \<Rightarrow> blk set outcome" where
  "free_blk p alive =
     (case p of None \<Rightarrow> Return alive | Some b \<Rightarrow> if b \<in> alive then Return (alive - {b}) else Abort)"

fun then_do :: "('a \<Rightarrow> 'a outcome) list \<Rightarrow> 'a \<Rightarrow> 'a outcome" where
  "then_do [] s = Return s"
| "then_do (f # fs) s = (case f s of Return s' \<Rightarrow> then_do fs s' | Abort \<Rightarrow> Abort | Exit n \<Rightarrow> Exit n)"

section \<open>Channels and arrays\<close>

text \<open>The blocks of a channel: the header with its buffer, the name, and the arrays of waiting alts.\<close>

record chan_mem =
  cm_self :: blk
  cm_name :: "blk option"
  cm_arecv :: "blk option"
  cm_asend :: "blk option"

definition chanfree :: "chan_mem option \<Rightarrow> blk set \<Rightarrow> blk set outcome" where
  "chanfree c alive =
     (case c of
        None \<Rightarrow> Return alive
      | Some m \<Rightarrow>
          then_do [free_blk (cm_name m), free_blk (cm_arecv m), free_blk (cm_asend m), free_blk (Some (cm_self m))] alive)"

text \<open>An array of elements without a destructor: its number of slots \<^verbatim>\<open>n\<close> and its data \<^verbatim>\<open>d\<close>.\<close>

record uta_mem =
  um_self :: blk
  um_n :: nat
  um_d :: "blk option"

definition utarray_free :: "uta_mem \<Rightarrow> blk set \<Rightarrow> blk set outcome" where
  "utarray_free a alive =
     then_do [\<lambda>l. if um_n a \<noteq> 0 then free_blk (um_d a) l else Return l, free_blk (Some (um_self a))] alive"

section \<open>The structures of the server\<close>

record timer_mem =
  tm_self :: blk
  tm_timer_chan :: chan_mem
  tm_alarm_chan :: chan_mem
  tm_t :: uta_mem

definition TDB_timer_free :: "timer_mem \<Rightarrow> blk set \<Rightarrow> blk set outcome" where
  "TDB_timer_free t alive =
     then_do [chanfree (Some (tm_timer_chan t)), chanfree (Some (tm_alarm_chan t)), utarray_free (tm_t t),
       free_blk (Some (tm_self t))] alive"

record hook_mem =
  hm_self :: blk
  hm_address :: blk
  hm_append_chan :: chan_mem
  hm_vote_chan :: chan_mem
  hm_exit_chan :: chan_mem

definition TDB_hook_free :: "hook_mem \<Rightarrow> blk set \<Rightarrow> blk set outcome" where
  "TDB_hook_free h alive =
     then_do [free_blk (Some (hm_address h)), chanfree (Some (hm_append_chan h)), chanfree (Some (hm_vote_chan h)),
       chanfree (Some (hm_exit_chan h)), free_blk (Some (hm_self h))] alive"

text \<open>Two structures that hold channels which their routines do not free.\<close>

record attach_mem =
  atm_self :: blk
  atm_addr :: blk
  atm_chans :: "chan_mem list"

definition TDB_attach_free :: "attach_mem \<Rightarrow> blk set \<Rightarrow> blk set outcome" where
  "TDB_attach_free a alive = then_do [free_blk (Some (atm_addr a)), free_blk (Some (atm_self a))] alive"

record replica_mem =
  rm_self :: blk
  rm_chans :: "chan_mem list"

definition TDB_replica_free :: "replica_mem \<Rightarrow> blk set \<Rightarrow> blk set outcome" where
  "TDB_replica_free m alive = free_blk (Some (rm_self m)) alive"

record router_mem =
  rtm_self :: blk
  rtm_addr :: blk

definition TDB_free_router :: "router_mem \<Rightarrow> blk set \<Rightarrow> blk set outcome" where
  "TDB_free_router m alive = then_do [free_blk (Some (rtm_addr m)), free_blk (Some (rtm_self m))] alive"

text \<open>A record stream, with the buffers \<^verbatim>\<open>xdrrec_create\<close> allocates, which \<^verbatim>\<open>xdr_destroy\<close> would free.\<close>

record xdr_mem =
  xm_self :: blk
  xm_bufs :: "blk list"

definition TDB_free_xdr_stream :: "xdr_mem \<Rightarrow> blk set \<Rightarrow> blk set outcome" where
  "TDB_free_xdr_stream x alive = free_blk (Some (xm_self x)) alive"

record ctx_mem =
  ctm_self :: blk
  ctm_listen_addr :: blk
  ctm_stream :: xdr_mem

definition TDB_ctx_free :: "ctx_mem \<Rightarrow> blk set \<Rightarrow> blk set outcome" where
  "TDB_ctx_free c alive = then_do [TDB_free_xdr_stream (ctm_stream c), free_blk (Some (ctm_self c))] alive"

section \<open>What is freed and what stays\<close>

text \<open>A routine frees the blocks \<open>bs\<close> if it succeeds where they are allocated, and takes away just them.\<close>

definition frees :: "(blk set \<Rightarrow> blk set outcome) \<Rightarrow> blk list \<Rightarrow> bool" where
  "frees f bs \<longleftrightarrow>
     (\<forall>alive. f alive = (if set bs \<subseteq> alive \<and> distinct bs then Return (alive - set bs) else Abort))"

lemma frees_none: "frees Return []"
  by (simp add: frees_def)

lemma frees_blk: "frees (free_blk p) (case p of None \<Rightarrow> [] | Some b \<Rightarrow> [b])"
  by (cases p) (auto simp: frees_def free_blk_def)

lemma frees_some: "frees (free_blk (Some b)) [b]"
  using frees_blk [of "Some b"] by simp

lemma frees_seq:
  assumes "list_all2 frees fs bss"
  shows "frees (then_do fs) (concat bss)"
  using assms
proof (induction fs bss rule: list_all2_induct)
  case Nil
  then show ?case by (simp add: frees_def)
next
  case (Cons f fs bs bss)
  show ?case
    unfolding frees_def
  proof
    fix alive
    have f: "f alive = (if set bs \<subseteq> alive \<and> distinct bs then Return (alive - set bs) else Abort)"
      using Cons.hyps(1) by (simp add: frees_def)
    have r: "then_do fs l = (if set (concat bss) \<subseteq> l \<and> distinct (concat bss) then Return (l - set (concat bss)) else Abort)" for l
      using Cons.IH by (simp add: frees_def)
    have "alive - set bs - set (concat bss) = alive - set (concat (bs # bss))" by auto
    moreover have "set (concat bss) \<subseteq> alive - set bs \<longleftrightarrow> set (concat bss) \<subseteq> alive \<and> set bs \<inter> set (concat bss) = {}" by blast
    ultimately show "then_do (f # fs) alive =
        (if set (concat (bs # bss)) \<subseteq> alive \<and> distinct (concat (bs # bss)) then Return (alive - set (concat (bs # bss))) else Abort)"
      by (simp add: f r)
  qed
qed

definition chan_blks :: "chan_mem \<Rightarrow> blk list" where
  "chan_blks m = (case cm_name m of None \<Rightarrow> [] | Some b \<Rightarrow> [b]) @ (case cm_arecv m of None \<Rightarrow> [] | Some b \<Rightarrow> [b]) @
     (case cm_asend m of None \<Rightarrow> [] | Some b \<Rightarrow> [b]) @ [cm_self m]"

lemma frees_chan: "frees (chanfree (Some m)) (chan_blks m)"
proof -
  have "frees (then_do [free_blk (cm_name m), free_blk (cm_arecv m), free_blk (cm_asend m), free_blk (Some (cm_self m))])
      (concat [case cm_name m of None \<Rightarrow> [] | Some b \<Rightarrow> [b], case cm_arecv m of None \<Rightarrow> [] | Some b \<Rightarrow> [b],
        case cm_asend m of None \<Rightarrow> [] | Some b \<Rightarrow> [b], [cm_self m]])"
    using frees_blk frees_some by (intro frees_seq) simp
  then show ?thesis by (simp add: chan_blks_def chanfree_def frees_def)
qed

text \<open>The data of an array is allocated exactly when it has slots.\<close>

definition uta_blks :: "uta_mem \<Rightarrow> blk list" where
  "uta_blks a = (case um_d a of None \<Rightarrow> [] | Some b \<Rightarrow> [b]) @ [um_self a]"

lemma frees_uta:
  assumes "um_n a = 0 \<longleftrightarrow> um_d a = None"
  shows "frees (utarray_free a) (uta_blks a)"
proof -
  have "frees (\<lambda>l. if um_n a \<noteq> 0 then free_blk (um_d a) l else Return l) (case um_d a of None \<Rightarrow> [] | Some b \<Rightarrow> [b])"
    using assms frees_blk frees_none by (cases "um_d a") (auto simp: frees_def free_blk_def)
  then have "frees (then_do [\<lambda>l. if um_n a \<noteq> 0 then free_blk (um_d a) l else Return l, free_blk (Some (um_self a))])
      (concat [case um_d a of None \<Rightarrow> [] | Some b \<Rightarrow> [b], [um_self a]])"
    using frees_some by (intro frees_seq) simp
  then show ?thesis by (simp add: frees_def utarray_free_def uta_blks_def)
qed

definition timer_blks :: "timer_mem \<Rightarrow> blk list" where
  "timer_blks t = chan_blks (tm_timer_chan t) @ chan_blks (tm_alarm_chan t) @ uta_blks (tm_t t) @ [tm_self t]"

definition hook_blks :: "hook_mem \<Rightarrow> blk list" where
  "hook_blks h = [hm_address h] @ chan_blks (hm_append_chan h) @ chan_blks (hm_vote_chan h) @
     chan_blks (hm_exit_chan h) @ [hm_self h]"

text \<open>A timer, a hook and a router are freed completely.\<close>

lemma complete_frees:
  "um_n (tm_t t) = 0 \<longleftrightarrow> um_d (tm_t t) = None \<Longrightarrow> frees (TDB_timer_free t) (timer_blks t)"
  "frees (TDB_hook_free h) (hook_blks h)"
  "frees (TDB_free_router m) [rtm_addr m, rtm_self m]"
proof -
  assume u: "um_n (tm_t t) = 0 \<longleftrightarrow> um_d (tm_t t) = None"
  have "frees (then_do [chanfree (Some (tm_timer_chan t)), chanfree (Some (tm_alarm_chan t)), utarray_free (tm_t t),
      free_blk (Some (tm_self t))]) (concat [chan_blks (tm_timer_chan t), chan_blks (tm_alarm_chan t), uta_blks (tm_t t), [tm_self t]])"
    using frees_chan frees_uta [OF u] frees_some by (intro frees_seq) simp
  then show "frees (TDB_timer_free t) (timer_blks t)" by (simp add: frees_def TDB_timer_free_def timer_blks_def)
next
  have "frees (then_do [free_blk (Some (hm_address h)), chanfree (Some (hm_append_chan h)), chanfree (Some (hm_vote_chan h)),
      chanfree (Some (hm_exit_chan h)), free_blk (Some (hm_self h))])
      (concat [[hm_address h], chan_blks (hm_append_chan h), chan_blks (hm_vote_chan h), chan_blks (hm_exit_chan h), [hm_self h]])"
    using frees_chan frees_some by (intro frees_seq) simp
  then show "frees (TDB_hook_free h) (hook_blks h)" by (simp add: frees_def TDB_hook_free_def hook_blks_def)
next
  have "frees (then_do [free_blk (Some (rtm_addr m)), free_blk (Some (rtm_self m))]) (concat [[rtm_addr m], [rtm_self m]])"
    using frees_some by (intro frees_seq) simp
  then show "frees (TDB_free_router m) [rtm_addr m, rtm_self m]" by (simp add: frees_def TDB_free_router_def)
qed

text \<open>A client, a replica, a record stream and the context are not: what they hold besides stays allocated.\<close>

lemma partial_frees:
  "frees (TDB_attach_free a) [atm_addr a, atm_self a]"
  "frees (TDB_replica_free m) [rm_self m]"
  "frees (TDB_free_xdr_stream x) [xm_self x]"
  "frees (TDB_ctx_free c) [xm_self (ctm_stream c), ctm_self c]"
proof -
  have "frees (then_do [free_blk (Some (atm_addr a)), free_blk (Some (atm_self a))]) (concat [[atm_addr a], [atm_self a]])"
    using frees_some by (intro frees_seq) simp
  then show "frees (TDB_attach_free a) [atm_addr a, atm_self a]" by (simp add: frees_def TDB_attach_free_def)
  show "frees (TDB_replica_free m) [rm_self m]" using frees_some by (simp add: frees_def TDB_replica_free_def)
  show x: "frees (TDB_free_xdr_stream x) [xm_self x]" for x using frees_some by (simp add: frees_def TDB_free_xdr_stream_def)
  have "frees (then_do [TDB_free_xdr_stream (ctm_stream c), free_blk (Some (ctm_self c))])
      (concat [[xm_self (ctm_stream c)], [ctm_self c]])"
    using frees_some x by (intro frees_seq) simp
  then show "frees (TDB_ctx_free c) [xm_self (ctm_stream c), ctm_self c]" by (simp add: frees_def TDB_ctx_free_def)
qed

lemma frees_twice:
  assumes "frees f bs" and "bs \<noteq> []" and "f alive = Return alive'"
  shows "f alive' = Abort"
  using assms by (cases bs) (auto simp: frees_def split: if_splits)

lemma frees_leaves:
  assumes "frees f bs" and "distinct (bs @ rest)" and "set (bs @ rest) \<subseteq> alive"
  shows "\<exists>alive'. f alive = Return alive' \<and> alive' = alive - set bs \<and> set rest \<subseteq> alive'"
  using assms by (auto simp: frees_def)

text \<open>
  A client that is freed leaves the blocks of its channels allocated, a replica its own; no routine of the
  program frees them any more.
\<close>

lemma attach_free_leaks:
  assumes "distinct (atm_addr a # atm_self a # concat (List.map chan_blks (atm_chans a)))"
    and "set (atm_addr a # atm_self a # concat (List.map chan_blks (atm_chans a))) \<subseteq> alive"
  shows "\<exists>alive'. TDB_attach_free a alive = Return alive' \<and> set (concat (List.map chan_blks (atm_chans a))) \<subseteq> alive'"
  using frees_leaves [OF partial_frees(1), of a "concat (List.map chan_blks (atm_chans a))" alive] assms by auto

lemma stream_free_leaks:
  assumes "distinct (xm_self x # xm_bufs x)" and "set (xm_self x # xm_bufs x) \<subseteq> alive"
  shows "\<exists>alive'. TDB_free_xdr_stream x alive = Return alive' \<and> set (xm_bufs x) \<subseteq> alive'"
  using frees_leaves [OF partial_frees(3), of x "xm_bufs x" alive] assms by auto

text \<open>
  A cancelled timer task frees the timer in its loop and goes on: when the loop comes back to the channel
  and another cancellation waits there, the second \<^verbatim>\<open>TDB_timer_free\<close> frees freed memory.
\<close>

lemma timer_freed_twice:
  assumes "um_n (tm_t t) = 0 \<longleftrightarrow> um_d (tm_t t) = None" and "TDB_timer_free t alive = Return alive'"
  shows "TDB_timer_free t alive' = Abort"
  using frees_twice [OF complete_frees(1) [OF assms(1)] _ assms(2)] by (simp add: timer_blks_def)

end
