(* ===== verification/Log.thy ===== *)
theory Log
  imports Daemon
begin

text \<open>
  What a run of the server shows and asks: the log lines (\<^verbatim>\<open>LOG\<close> of src/src/common/log.h), the version and
  usage texts, and the answers to an interrupt (the signal handlers of src/src/tomatod/tomatod.c).
\<close>

section \<open>Log lines\<close>

text \<open>The local time, with the ranges of \<^verbatim>\<open>struct tm\<close>: months from 0, years from 1900.\<close>

record tm =
  tm_sec :: nat
  tm_min :: nat
  tm_hour :: nat
  tm_mday :: nat
  tm_mon :: nat
  tm_year :: nat

definition two :: "nat \<Rightarrow> string" where
  "two n = [digit_char (n div 10 mod 10), digit_char (n mod 10)]"

text \<open>\<^verbatim>\<open>strftime\<close> with the format of the macro, \<^verbatim>\<open>%Y-%m-%dT%H:%M:%S\<close>; nothing is stored in a buffer too small.\<close>

definition timestamp :: "nat \<Rightarrow> tm \<Rightarrow> string option" where
  "timestamp room t =
     (let s = dec (1900 + tm_year t) @ ''-'' @ two (tm_mon t + 1) @ ''-'' @ two (tm_mday t) @ ''T'' @ two (tm_hour t) @
              '':'' @ two (tm_min t) @ '':'' @ two (tm_sec t)
      in if length s < room then Some s else None)"

text \<open>
  The macro: \<open>msg\<close> is what the arguments print.  Without a time stamp, what the buffer held would be
  printed, which has no value here.
\<close>

definition LOG :: "int \<Rightarrow> loglevel \<Rightarrow> tm \<Rightarrow> string \<Rightarrow> nat \<Rightarrow> string \<Rightarrow> string option" where
  "LOG debug level t file line msg =
     (if loglevel_code level \<le> debug
      then (case timestamp 256 t of
              None \<Rightarrow> None
            | Some ts \<Rightarrow> Some (''['' @ ts @ ''] ['' @ file @ '':'' @ dec line @ ''] '' @ msg @ [CHR 0x0A]))
      else Some [])"

lemma length_dec: "n < 10 ^ k \<Longrightarrow> 0 < k \<Longrightarrow> length (dec n) \<le> k"
proof (induction k arbitrary: n)
  case 0
  then show ?case by simp
next
  case (Suc k)
  show ?case
  proof (cases "n < 10")
    case True
    then show ?thesis using digits_of.simps [of 10 n] digits_of.simps [of 10 0] by (simp add: dec_def)
  next
    case False
    then have "n div 10 < 10 ^ k" "0 < k" "n div 10 \<noteq> 0" using Suc.prems
      by (auto simp: less_mult_imp_div_less mult.commute intro: gr0I)
    then show ?thesis using Suc.IH [of "n div 10"] False digits_of.simps [of 10 n] by (simp add: dec_def)
  qed
qed

text \<open>
  The time stamp always fits its buffer, so a message is printed, as one line behind its time and place,
  exactly when its level is not above the one that was asked for.
\<close>

lemma log_line:
  assumes "tm_year t < 2 ^ 31"
  shows "\<exists>ts. timestamp 256 t = Some ts \<and>
    LOG debug level t file line msg =
      Some (if loglevel_code level \<le> debug then ''['' @ ts @ ''] ['' @ file @ '':'' @ dec line @ ''] '' @ msg @ [CHR 0x0A] else [])"
proof -
  have "1900 + tm_year t < 10 ^ 10" using assms by simp
  then have "length (dec (1900 + tm_year t)) \<le> 10" by (rule length_dec) simp
  then show ?thesis by (simp add: timestamp_def LOG_def two_def Let_def)
qed

lemma log_levels:
  "LOG (loglevel_code LOG_FATAL) level t file line msg = Some [] \<or> level = LOG_FATAL"
  "loglevel_code level \<le> loglevel_code LOG_DBG"
  by (cases level; simp add: LOG_def)+

section \<open>Texts\<close>

definition TDB_print_version :: "string \<Rightarrow> string \<Rightarrow> string" where
  "TDB_print_version package_name package_version = package_name @ ''-'' @ package_version @ [CHR 0x0A]"

definition TDB_print_usage :: string where
  "TDB_print_usage =
     ''usage: tomatod [-adhpv] [--help] [--version]'' @ [CHR 0x0A] @
     ''               [--debug=<fatal,err,warn,info,dbg>]'' @ [CHR 0x0A] @
     ''               [-a <addr> | --listen-address=<addr>]'' @ [CHR 0x0A] @
     ''               [-p <port> | --listen-port=<port>]'' @ [CHR 0x0A]"

section \<open>Signals\<close>

datatype signal = SIGINT | SIGPIPE | Other_signal nat

datatype disposition = SIG_DFL | SIG_IGN | Handle_SIGINT

type_synonym dispositions = "signal \<Rightarrow> disposition"

definition TDB_install_signal_handlers :: "dispositions \<Rightarrow> dispositions" where
  "TDB_install_signal_handlers d = d(SIGINT := Handle_SIGINT, SIGPIPE := SIG_IGN)"

text \<open>\<^verbatim>\<open>getchar\<close> on what has been typed, stored in a \<^verbatim>\<open>char\<close>: the end of the input is 255.\<close>

definition getchar :: "string \<Rightarrow> char \<times> string" where
  "getchar inp = (case inp of [] \<Rightarrow> (CHR 0xFF, []) | c # cs \<Rightarrow> (c, cs))"

definition TDB_signal_handle_SIGINT :: "signal \<Rightarrow> dispositions \<Rightarrow> string \<Rightarrow> (dispositions \<times> string) outcome" where
  "TDB_signal_handle_SIGINT sg d inp =
     (let d1 = d(sg := SIG_IGN);
          (c, inp1) = getchar inp
      in if c = CHR ''y'' \<or> c = CHR ''Y'' then Exit 1
         else let d2 = d1(SIGINT := Handle_SIGINT) in Return (d2, snd (getchar inp1)))"

text \<open>
  A process that is interrupted again and again; before each interrupt the user has typed some more.  A signal
  that is not handled ends the process, with a status of the shell's making.
\<close>

fun interrupts :: "string list \<Rightarrow> dispositions \<Rightarrow> string \<Rightarrow> (dispositions \<times> string) outcome" where
  "interrupts [] d inp = Return (d, inp)"
| "interrupts (typed # rest) d inp =
     (case d SIGINT of
        SIG_DFL \<Rightarrow> Exit 130
      | SIG_IGN \<Rightarrow> interrupts rest d (inp @ typed)
      | Handle_SIGINT \<Rightarrow>
          (case TDB_signal_handle_SIGINT SIGINT d (inp @ typed) of
             Return (d', inp') \<Rightarrow> interrupts rest d' inp'
           | Abort \<Rightarrow> Abort
           | Exit n \<Rightarrow> Exit n))"

text \<open>
  Answered with one character and return each time, the server ends at the first yes and survives everything
  else with its handler in place.
\<close>

lemma interrupts_answered:
  assumes "d SIGINT = Handle_SIGINT"
  shows "interrupts (List.map (\<lambda>c. [c, CHR 0x0A]) cs) d [] =
    (if \<exists>c \<in> set cs. c = CHR ''y'' \<or> c = CHR ''Y'' then Exit 1 else Return (d, []))"
  using assms
proof (induction cs)
  case Nil
  then show ?case by simp
next
  case (Cons c cs)
  have "d(SIGINT := Handle_SIGINT) = d" using Cons.prems by (metis fun_upd_triv)
  then show ?case using Cons by (simp add: TDB_signal_handle_SIGINT_def getchar_def)
qed

text \<open>
  A longer answer is not read to its end.  After \<^verbatim>\<open>no\<close> the return stays behind and answers the next
  question, which eats the \<^verbatim>\<open>y\<close> typed there: the server goes on although it was told to quit.
\<close>

lemma sigint_answer_left_over:
  "interrupts [''no'' @ [CHR 0x0A], ''y'' @ [CHR 0x0A]] (TDB_install_signal_handlers d) [] =
     Return (TDB_install_signal_handlers d, [CHR 0x0A])"
  by (simp add: TDB_signal_handle_SIGINT_def TDB_install_signal_handlers_def getchar_def fun_eq_iff)

end
