(* ===== verification/Spec2Isabelle.thy ===== *)
theory Spec2Isabelle
  imports Channel Task_Lock Task_Epoll Stream Task_Net Xtime Kvs Proto Client Replica_Table Ut_Hash_Select Ut_List Ut_String Halloc Ln_Terminal
    Task_Context Task_Examples Release Log
begin

text \<open>
  A model of tomatodb in definitions that follow its C sources, and the theorems that make its parts
  correct.  tomatodb is a replicated key-value store: a server (src/src/tomatod), a command line client
  (src/src/tomato) and the code both stand on (src/src/common), above all a library of cooperative tasks.

  \<^bold>\<open>The parts and how they work together.\<close>
  The server is one process whose activities are tasks of libtask (src/src/common/task).  \<^verbatim>\<open>main\<close> starts a
  task that loads the replicas found on disk, listens, and starts a routing task per connection; a routing
  task reads one control message and creates a replica, attaches a data client to one, or ends.  A replica
  is a task that plays one role at a time and waits on channels for messages from its clients, from remote
  replicas and from its timer.  Tasks give up the processor only in calls of the library, through its run
  queue; channels, locks, rendezvous points, sleeping and waiting for descriptors all end in a task switch
  and in a later \<^verbatim>\<open>taskready\<close>.  Replicas are found by uuid in a hash table; messages are records with XDR
  filters; values are kept in LevelDB behind a small interface.

  \<^bold>\<open>Which theory models what.\<close>
  \<^item> \<open>Tdb_Prelude\<close>: bytes, blocks of memory, outcomes of a C call, return codes, ends of linked structures.
    \<open>Links\<close>: segments linked one way and both ways, shared by the list and hash macros.
  \<^item> \<open>Task_List\<close>, \<open>Task_Sched\<close>: task structures and lists, and the scheduler (taskimpl.h, task.c).  The state is
    the record \<open>libtask\<close>, the globals of the library with the task structures as a store; a call that would
    switch returns the state up to the switch, and \<open>task_step\<close> is the step relation of whole programs.
    \<open>Task_Context\<close>: the machine side of a switch, registers and stacks of five processors (context.c, asm.S, the
    ucontext headers).  \<open>Task_Examples\<close>: the prime sieve and the proxy (primes.c, tcpproxy.c).
  \<^item> \<open>Channel\<close>: channels and \<^verbatim>\<open>chanalt\<close> (channel.c), at the level of the bytes of the ring buffers and of the
    pointer arrays of waiting alts.  \<open>Task_Lock\<close>: locks and rendezvous points (qlock.c, rendez.c).
  \<^item> \<open>Task_Fd\<close>, \<open>Task_Epoll\<close>: sleeping, waiting for descriptors with poll and with epoll, reading and writing
    (fd.c).  \<open>Task_Print\<close>, \<open>Task_Net\<close>: the print library and the socket routines (print.c, net.c).
  \<^item> \<open>Stream\<close>, \<open>Proto\<close>: record transport and XDR filters (src/src/common/proto).  \<open>Kvs\<close>: the key-value layer
    (src/src/common/kvs).  \<open>Xtime\<close>: interval time and the directory helper (xtime.c, common.c).
  \<^item> \<open>Ut_Array\<close>, \<open>Ut_Hashfun\<close>, \<open>Ut_Hash\<close>, \<open>Ut_Sort\<close>, \<open>Ut_Hash_Ops\<close>, \<open>Ut_Hash_Select\<close>, \<open>Ut_List\<close>, \<open>Ut_Search\<close>,
    \<open>Ut_String\<close>: the container macros (src/src/common/ut): dynamic arrays, hash functions and tables, the merge
    sort of lists and tables, selections and the Bloom filter, linked lists, dynamic strings and their searches.  \<open>Halloc\<close>: the hierarchical allocator
    (src/src/common/halloc).
  \<^item> \<open>Timer\<close>, \<open>Replica\<close>, \<open>Attach\<close>, \<open>Settings\<close>, \<open>Daemon\<close>: timers, replica roles, attached clients and hooks,
    process identity, bootstrap, routing and the server's life (src/src/tomatod).  \<open>Replica_Table\<close>: bootstrap
    and attach on the hash table instead of a map.  \<open>Log\<close>: log lines, texts and signal handlers (log.h,
    tomatod.c).  \<open>Release\<close>: what the routines that free the structures of the server give back.
  \<^item> \<open>Linenoise\<close>, \<open>Ln_Display\<close>, \<open>Ln_Terminal\<close>, \<open>Client\<close>: the line editor, what it shows on a terminal in its single
    and multi line modes, its use of the terminal's settings, and the client (src/src/tomato).

  Structures are records with the fields of the source, enumerations datatypes; machine words keep their
  width where they wrap; a pointer is a name in a store, null is \<open>None\<close>.  A C function is a function on the
  state; \<open>outcome\<close> says whether it returns, aborts or ends the process.  A loop whose end is a theorem is a
  \<^verbatim>\<open>partial_function\<close> into \<open>option\<close>: \<open>None\<close> is a loop that runs forever or, where the text of the theory says so, an
  access out of bounds.  Operating system, libc, LevelDB, libuuid and the RPC library are arguments, their
  documented behaviour a named predicate (\<open>ldb_contract\<close>, \<open>xdrlib_ok\<close>, \<open>files_ok\<close>, \<open>uuids_ok\<close>, \<open>kernel_answers\<close>)
  that a witness satisfies with a concrete instance.

  \<^bold>\<open>What the lemmas show.\<close>
  \<^item> Scheduler: an invariant over run queue, slots, counters and states that every library call keeps
    (\<open>sched_inv\<close>, extended by \<open>sleep_inv\<close>, \<open>chan_inv\<close> and \<open>lock_inv\<close>), round robin order, the outcome of a round
    of the polling task; for locks, that wake-ups are not lost and a resumed task holds what it waited for;
    for channels, that a channel is a queue, over runs of whole programs.
  \<^item> Text and bytes: what the print library writes, within its buffer; message filters decode what they
    encode; reads and writes are complete over short counts.
  \<^item> Containers: each macro library is a contract stated as a locale over an abstract list or map
    (\<open>hash_function\<close>, \<open>key_map\<close>, \<open>linked_list\<close> and the queue contracts of lists and waiting arrays), proved of
    the model once and interpreted on the macros; sequences of operations then behave like the abstract ones.
    Sorting is the stable sort, the string searches find the first and the last occurrence, the allocator
    keeps a forest.
  \<^item> Server and client: each handler on every branch, what a connection starts and frees, which replicas exist
    after a start; the editor returns what the keys mean, its history survives a save.
  \<^item> Display: on a terminal that carries out the control sequences (\<open>term_out\<close>), the screen shows the prompt and
    the text, or the part of it around the cursor, after any editing operations; the settings of the terminal
    come back.  Contexts: a new task enters its function on its own stack, a switch comes back with every
    register it left.
  The theorems that carry a claim number are the main results; each stands with a witness that
  applies it to concrete data.  Several state what the code does where it does not do what it means to:
  an answer that is never sent, a stale \<^verbatim>\<open>errno\<close> that leaves a registration behind, a byte written behind a
  buffer, a moved block whose old header is written.

  \<^bold>\<open>Bounds and fuel.\<close>
  Loops over linked structures end because the represented list is finite; the retry loops on \<^verbatim>\<open>EAGAIN\<close>
  end if the descriptor eventually answers, which is a hypothesis there.  No definition counts steps: a loop
  is structural, has a measure, or is a \<^verbatim>\<open>partial_function\<close> with a theorem on when it returns.
  Sizes in the containers stay below \<open>2^31\<close> or \<open>2^63\<close>, as the statements say; behind these bounds
  unsigned subtractions and casts of the source no longer mean what they should.

  \<^bold>\<open>Not modelled.\<close>
  \<^item> In the machine contexts, the floating point registers and the signal mask, which nothing here changes.
  \<^item> The examples of libtask that only call the library (httpload, testdelay); makefiles.
  \<^item> The emission of keys of the hash macros, which writes a file for tuning.
  \<^item> Races with a freed channel, of which the comment of \<^verbatim>\<open>chanfree\<close> warns: \<open>Release\<close> counts blocks only.
  \<^item> Code the sources name but do not contain: the message routines \<^verbatim>\<open>TDB_proto_\<dots>\<close>, the database layer behind
    replicas, the leader and location bootstraps.  They are arguments of the definitions that call them.
\<close>

end
